(* ===== verification/Prelude.thy ===== *)
theory Prelude
  imports Main "HOL-Library.Sublist"
begin

text \<open>
  Shared vocabulary of the SpecBlock development: the error values that stand for Python
  exceptions, the parts of Python, NumPy and PyTorch list semantics that the modelled code
  uses (negative indexing, first-maximum \<open>argmax\<close>, \<open>cumprod\<close> run lengths, \<open>cumsum\<close>,
  descending \<open>argsort\<close>), and the generic lemmas the component theories share.  The
  collection \<open>shape_simps\<close> holds the length and membership facts of these operations.
\<close>

named_theorems shape_simps \<open>length, membership and index facts of the shared list operations\<close>

section \<open>Errors as values\<close>

datatype py_error =
    ValueError
  | RuntimeError
  | IndexError
  | KeyError
  | TypeError
  | NotImplementedError
  | AssertionError
  | ZeroDivisionError

type_synonym 'a res = "py_error + 'a"
type_synonym token = int

definition res_bind :: "'a res \<Rightarrow> ('a \<Rightarrow> 'b res) \<Rightarrow> 'b res" where
  "res_bind m f = (case m of Inl e \<Rightarrow> Inl e | Inr x \<Rightarrow> f x)"

lemma res_bind_simps [simp]:
  "res_bind (Inl e) f = Inl e"
  "res_bind (Inr x) f = f x"
  by (simp_all add: res_bind_def)

lemma res_bind_eq_Inr [simp]:
  "res_bind m f = Inr y \<longleftrightarrow> (\<exists>x. m = Inr x \<and> f x = Inr y)"
  by (cases m) auto

fun res_map :: "('a \<Rightarrow> 'b res) \<Rightarrow> 'a list \<Rightarrow> 'b list res" where
  "res_map f [] = Inr []"
| "res_map f (x # xs) = res_bind (f x) (\<lambda>y. res_bind (res_map f xs) (\<lambda>ys. Inr (y # ys)))"

lemma res_map_Inr_length: "res_map f xs = Inr ys \<Longrightarrow> length ys = length xs"
  by (induction xs arbitrary: ys) auto

lemma res_map_Inr_nth:
  "res_map f xs = Inr ys \<Longrightarrow> i < length xs \<Longrightarrow> f (xs ! i) = Inr (ys ! i)"
proof (induction xs arbitrary: ys i)
  case (Cons x xs)
  then show ?case by (cases i) auto
qed simp

section \<open>Python and NumPy list operations\<close>

text \<open>Python indexing: a negative index counts from the end, out of range raises.\<close>

definition py_nth :: "'a list \<Rightarrow> int \<Rightarrow> 'a res" where
  "py_nth seq idx =
     (if idx \<in> {- int (length seq)..<int (length seq)}
      then Inr (seq ! nat (idx mod int (length seq))) else Inl IndexError)"

lemma py_nth_nonneg: "0 \<le> idx \<Longrightarrow> nat idx < length seq \<Longrightarrow> py_nth seq idx = Inr (seq ! nat idx)"
  by (simp add: py_nth_def)

lemma py_nth_minus_one: "seq \<noteq> [] \<Longrightarrow> py_nth seq (- 1) = Inr (last seq)"
  by (cases seq) (auto simp: py_nth_def last_conv_nth zmod_minus1 nat_diff_distrib')

text \<open>\<open>torch.argmax\<close> and \<open>np.argmax\<close>: the index of the first maximal value.\<close>

fun argmax_from :: "nat \<Rightarrow> nat \<Rightarrow> 'a::linorder \<Rightarrow> 'a list \<Rightarrow> nat" where
  "argmax_from i best v [] = best"
| "argmax_from i best v (x # xs) =
     (if v < x then argmax_from (Suc i) i x xs else argmax_from (Suc i) best v xs)"

definition argmax_first :: "'a::linorder list \<Rightarrow> nat" where
  "argmax_first xs = (case xs of [] \<Rightarrow> 0 | x # ys \<Rightarrow> argmax_from 1 0 x ys)"

lemma argmax_from_spec:
  assumes "best < i" "v = pre ! best" "length pre = i"
    and "\<forall>j<i. pre ! j \<le> v" "\<forall>j<best. pre ! j < v"
  shows "argmax_from i best v xs < i + length xs
    \<and> (\<forall>j<i + length xs. (pre @ xs) ! j \<le> (pre @ xs) ! argmax_from i best v xs)
    \<and> (\<forall>j<argmax_from i best v xs. (pre @ xs) ! j < (pre @ xs) ! argmax_from i best v xs)"
  using assms
proof (induction i best v xs arbitrary: pre rule: argmax_from.induct)
  case (1 i best v)
  then show ?case by auto
next
  case (2 i best v x xs)
  let ?p = "pre @ [x]"
  have len: "length ?p = Suc i" using "2.prems" by simp
  have app: "pre @ x # xs = ?p @ xs" by simp
  show ?case
  proof (cases "v < x")
    case True
    have "\<forall>j<Suc i. ?p ! j \<le> x" "\<forall>j<i. ?p ! j < x" "x = ?p ! i"
      using "2.prems" True by (auto simp: nth_append less_Suc_eq intro: le_less_trans)
    from "2.IH"(1)[OF True lessI this(3) len this(1) this(2)] True
    show ?thesis unfolding app by simp
  next
    case False
    have "\<forall>j<Suc i. ?p ! j \<le> v" "\<forall>j<best. ?p ! j < v" "v = ?p ! best" "best < Suc i"
      using "2.prems" False by (auto simp: nth_append less_Suc_eq)
    from "2.IH"(2)[OF False this(4) this(3) len this(1) this(2)] False
    show ?thesis unfolding app by simp
  qed
qed

lemma argmax_first_spec:
  assumes "xs \<noteq> []"
  shows argmax_first_less: "argmax_first xs < length xs"
    and argmax_first_max: "j < length xs \<Longrightarrow> xs ! j \<le> xs ! argmax_first xs"
    and argmax_first_first: "j < argmax_first xs \<Longrightarrow> xs ! j < xs ! argmax_first xs"
proof -
  obtain x ys where xs: "xs = x # ys" using assms by (cases xs) auto
  have eq: "argmax_first xs = argmax_from 1 0 x ys" by (simp add: xs argmax_first_def)
  have "argmax_from 1 0 x ys < 1 + length ys
    \<and> (\<forall>j<1 + length ys. ([x] @ ys) ! j \<le> ([x] @ ys) ! argmax_from 1 0 x ys)
    \<and> (\<forall>j<argmax_from 1 0 x ys. ([x] @ ys) ! j < ([x] @ ys) ! argmax_from 1 0 x ys)"
    by (rule argmax_from_spec) auto
  then show "argmax_first xs < length xs"
    and "j < length xs \<Longrightarrow> xs ! j \<le> xs ! argmax_first xs"
    and "j < argmax_first xs \<Longrightarrow> xs ! j < xs ! argmax_first xs"
    by (auto simp: xs eq[unfolded xs])
qed

lemma argmax_first_unique:
  assumes "xs \<noteq> []" "i < length xs" "\<forall>j<length xs. xs ! j \<le> xs ! i" "\<forall>j<i. xs ! j < xs ! i"
  shows "argmax_first xs = i"
proof (rule ccontr)
  assume "argmax_first xs \<noteq> i"
  then consider "argmax_first xs < i" | "i < argmax_first xs" by linarith
  then show False
  proof cases
    case 1
    with assms show False
      using argmax_first_max[OF assms(1), of i] by fastforce
  next
    case 2
    with assms show False
      using argmax_first_first[OF assms(1), of i] argmax_first_less[OF assms(1)] by fastforce
  qed
qed

lemmas argmax_first_facts = argmax_first_less argmax_first_max argmax_first_first

text \<open>\<open>torch.cumprod(mask).sum()\<close>: the length of the leading run of ones.\<close>

definition run_length :: "bool list \<Rightarrow> nat" where
  "run_length bs = length (takeWhile (\<lambda>b. b) bs)"

lemma run_length_le [shape_simps, simp]: "run_length bs \<le> length bs"
  by (simp add: run_length_def length_takeWhile_le)

lemma run_length_nth: "k < run_length bs \<Longrightarrow> bs ! k"
proof -
  assume k: "k < run_length bs"
  then have "takeWhile (\<lambda>b. b) bs ! k" unfolding run_length_def
    by (metis nth_mem set_takeWhileD)
  with k show ?thesis by (simp add: run_length_def takeWhile_nth)
qed

lemma run_length_stop: "run_length bs < length bs \<Longrightarrow> \<not> bs ! run_length bs"
  unfolding run_length_def by (rule nth_length_takeWhile)

lemma run_length_ge: "\<forall>k<n. bs ! k \<Longrightarrow> n \<le> length bs \<Longrightarrow> n \<le> run_length bs"
proof (rule ccontr)
  assume a: "\<forall>k<n. bs ! k" "n \<le> length bs" "\<not> n \<le> run_length bs"
  then have "run_length bs < length bs" by simp
  from run_length_stop[OF this] a show False by auto
qed

text \<open>\<open>np.cumsum\<close> over a list, starting from an accumulated value.\<close>

fun cumsum_from :: "'p::plus \<Rightarrow> 'p list \<Rightarrow> 'p list" where
  "cumsum_from a [] = []"
| "cumsum_from a (x # xs) = (a + x) # cumsum_from (a + x) xs"

lemma length_cumsum_from [shape_simps, simp]: "length (cumsum_from a xs) = length xs"
  by (induction xs arbitrary: a) auto

lemma cumsum_from_0 [simp]: "xs \<noteq> [] \<Longrightarrow> cumsum_from a xs ! 0 = a + xs ! 0"
  by (cases xs) auto

lemma cumsum_from_Suc:
  "Suc k < length xs \<Longrightarrow> cumsum_from a xs ! Suc k = cumsum_from a xs ! k + xs ! Suc k"
proof (induction xs arbitrary: a k)
  case (Cons x xs)
  then show ?case by (cases k) (auto simp: neq_Nil_conv)
qed simp

text \<open>The positions of a list at which a predicate holds, in order: \<open>np.nonzero(mask)[0]\<close>.\<close>

definition positions :: "('a \<Rightarrow> bool) \<Rightarrow> 'a list \<Rightarrow> nat list" where
  "positions P xs = filter (\<lambda>i. P (xs ! i)) [0..<length xs]"

lemma set_positions [shape_simps, simp]: "set (positions P xs) = {i. i < length xs \<and> P (xs ! i)}"
  by (auto simp: positions_def)

lemma distinct_positions [simp]: "distinct (positions P xs)"
  by (simp add: positions_def)

lemma sorted_positions [simp]: "sorted (positions P xs)"
  by (simp add: positions_def sorted_wrt_filter)

lemma length_positions_le [shape_simps]: "length (positions P xs) \<le> length xs"
  unfolding positions_def by (metis length_filter_le length_upt minus_nat.diff_0)

section \<open>Descending argsort\<close>

text \<open>
  Two sorting routines rank tree nodes by cumulative log-probability: Python's stable
  \<open>sorted(range(n), key, reverse=True)\<close> and NumPy's \<open>argsort(-x)\<close>, whose order of equal keys
  is unspecified.  The client code only relies on the interface below.
\<close>

locale desc_argsort =
  fixes srt :: "'p::linorder list \<Rightarrow> nat list"
  assumes set_srt: "set (srt xs) = {..<length xs}"
    and distinct_srt: "distinct (srt xs)"
    and desc_srt: "i < j \<Longrightarrow> j < length xs \<Longrightarrow> xs ! (srt xs ! j) \<le> xs ! (srt xs ! i)"
begin

lemma length_srt: "length (srt xs) = length xs"
  using distinct_card[OF distinct_srt, of xs] set_srt[of xs] by simp

lemma srt_nth_less: "i < length xs \<Longrightarrow> srt xs ! i < length xs"
  using set_srt[of xs] length_srt[of xs] by (metis lessThan_iff nth_mem)

lemma srt_first_max: "xs \<noteq> [] \<Longrightarrow> j < length xs \<Longrightarrow> xs ! j \<le> xs ! (srt xs ! 0)"
proof -
  assume "xs \<noteq> []" "j < length xs"
  then obtain i where "i < length xs" "srt xs ! i = j"
    using set_srt[of xs] length_srt[of xs] by (metis in_set_conv_nth lessThan_iff)
  then show ?thesis using desc_srt[of 0 i xs] by (cases i) auto
qed

end

text \<open>
  Python's \<open>sorted(..., reverse=True)\<close> keeps the original order of equal keys: an insertion
  sort that puts a later index behind every index whose key is at least its own.
\<close>

fun insert_desc :: "('a \<Rightarrow> 'p::linorder) \<Rightarrow> 'a \<Rightarrow> 'a list \<Rightarrow> 'a list" where
  "insert_desc k x [] = [x]"
| "insert_desc k x (y # ys) = (if k x \<le> k y then y # insert_desc k x ys else x # y # ys)"

definition sorted_desc :: "('a \<Rightarrow> 'p::linorder) \<Rightarrow> 'a list \<Rightarrow> 'a list" where
  "sorted_desc k xs = fold (insert_desc k) xs []"

lemma set_insert_desc [simp]: "set (insert_desc k x ys) = insert x (set ys)"
  by (induction ys) auto

lemma distinct_insert_desc: "distinct ys \<Longrightarrow> x \<notin> set ys \<Longrightarrow> distinct (insert_desc k x ys)"
  by (induction ys) auto

lemma sorted_wrt_insert_desc:
  "sorted_wrt (\<lambda>a b. k b \<le> k a) ys \<Longrightarrow> sorted_wrt (\<lambda>a b. k b \<le> k a) (insert_desc k x ys)"
  by (induction ys) (auto intro: order.trans)

lemma fold_insert_desc:
  "sorted_wrt (\<lambda>a b. k b \<le> k a) acc \<Longrightarrow>
     sorted_wrt (\<lambda>a b. k b \<le> k a) (fold (insert_desc k) xs acc)
     \<and> set (fold (insert_desc k) xs acc) = set xs \<union> set acc"
  by (induction xs arbitrary: acc) (auto simp: sorted_wrt_insert_desc)

lemma fold_insert_desc_distinct:
  "distinct (xs @ acc) \<Longrightarrow> distinct (fold (insert_desc k) xs acc)"
  by (induction xs arbitrary: acc) (auto simp: distinct_insert_desc)

lemma set_sorted_desc [simp]: "set (sorted_desc k xs) = set xs"
  using fold_insert_desc[of k "[]" xs] by (simp add: sorted_desc_def)

lemma distinct_sorted_desc: "distinct xs \<Longrightarrow> distinct (sorted_desc k xs)"
  unfolding sorted_desc_def by (rule fold_insert_desc_distinct) simp

lemma sorted_wrt_sorted_desc: "sorted_wrt (\<lambda>a b. k b \<le> k a) (sorted_desc k xs)"
  using fold_insert_desc[of k "[]" xs] by (simp add: sorted_desc_def)

definition py_argsort_desc :: "'p::linorder list \<Rightarrow> nat list" where
  "py_argsort_desc xs = sorted_desc (\<lambda>i. xs ! i) [0..<length xs]"

interpretation pysort: desc_argsort "py_argsort_desc :: 'p::linorder list \<Rightarrow> nat list"
proof
  fix xs :: "'p list" and i j
  show s: "set (py_argsort_desc xs) = {..<length xs}"
    by (auto simp: py_argsort_desc_def)
  show d: "distinct (py_argsort_desc xs)"
    by (simp add: py_argsort_desc_def distinct_sorted_desc)
  assume "i < j" "j < length xs"
  moreover have "length (py_argsort_desc xs) = length xs"
    using distinct_card[OF d] s by simp
  moreover have "sorted_wrt (\<lambda>a b. xs ! b \<le> xs ! a) (py_argsort_desc xs)"
    unfolding py_argsort_desc_def by (rule sorted_wrt_sorted_desc)
  ultimately show "xs ! (py_argsort_desc xs ! j) \<le> xs ! (py_argsort_desc xs ! i)"
    using sorted_wrt_nth_less[of "\<lambda>a b. xs ! b \<le> xs ! a" "py_argsort_desc xs" i j] by simp
qed

section \<open>Further list facts\<close>

lemma concat_map_length_le:
  "(\<And>x. x \<in> set xs \<Longrightarrow> length (f x) \<le> b) \<Longrightarrow> length (concat (map f xs)) \<le> length xs * b"
proof (induction xs)
  case (Cons x xs)
  have "length (f x) \<le> b" using Cons.prems by simp
  moreover have "length (concat (map f xs)) \<le> length xs * b"
    using Cons by simp
  ultimately show ?case by simp
qed simp

lemma last_conv_nth_Suc: "length xs = Suc n \<Longrightarrow> last xs = xs ! n"
  by (cases xs) (auto simp: last_conv_nth)

end
