(* ===== verification/Rank_Walk.thy ===== *)
theory Rank_Walk
  imports Prelude
begin

text \<open>
  Rank-guided slot decisions of the draft head
  (\<open>benchmarks_hf/algorithms/_specblock_base.py\<close>): the rank walk that decides how far a
  K-slot block is trusted, the per-rank branching tables, the draft-to-target vocabulary
  mapping, and the GPU operator groups that turn one block's logits into greedy tokens,
  top-k alternatives and log-probabilities, in the separate and in the fused form.

  A tensor of shape [N, K, V] is a list of N leaves, each a list of K rows of V logits.
  Logits and log-probabilities live in any linearly ordered abelian group, so floating-point
  rounding is not modelled; \<open>torch.topk\<close> and \<open>logsumexp\<close> are parameters, since PyTorch is not
  part of the repository.
\<close>

section \<open>The rank walk\<close>

text \<open>One row of \<open>_walk_rank_slots_compiled\<close>: (M, branch factor, give up).\<close>

definition walk_rank_slots :: "nat \<Rightarrow> nat list \<Rightarrow> nat list \<Rightarrow> nat \<times> nat \<times> bool" where
  "walk_rank_slots rank_classes rank_to_factor rank_preds =
     (let K = length rank_preds;
          give_up_class = rank_classes - 1;
          not_class0 = map (\<lambda>r. r \<noteq> 0) rank_preds;
          has_non_class0 = list_ex (\<lambda>b. b) not_class0;
          first_non_class0 = argmax_first (map (\<lambda>b. if b then 1 else 0 :: nat) not_class0);
          first_rank = rank_preds ! first_non_class0;
          first_is_give_up = (first_rank = give_up_class);
          M = (if \<not> has_non_class0 then K
               else if first_is_give_up then first_non_class0 else first_non_class0 + 1);
          branch_factor = (if has_non_class0 \<and> \<not> first_is_give_up
               then rank_to_factor ! min first_rank (rank_classes - 1) else 0);
          give_up = has_non_class0 \<and> first_is_give_up
      in (M, branch_factor, give_up))"

text \<open>The method of the algorithm class: a strict linear path ignores the rank head.\<close>

definition walk_rank_slots_batch ::
  "bool \<Rightarrow> nat \<Rightarrow> nat list \<Rightarrow> nat list list \<Rightarrow> (nat \<times> nat \<times> bool) list" where
  "walk_rank_slots_batch strict_linear rank_classes rank_to_factor rank_preds =
     (if strict_linear then map (\<lambda>row. (length row, 0, False)) rank_preds
      else map (walk_rank_slots rank_classes rank_to_factor) rank_preds)"

text \<open>The class-level branching tables.\<close>

definition RANK_BRANCH_FACTORS :: "nat list" where
  "RANK_BRANCH_FACTORS = [0, 4, 10, 0]"

definition RANK_SLOT_TOPK :: "nat list" where
  "RANK_SLOT_TOPK = [2, 4, 10, 0]"

definition SLOT_TOPK_CONFIGS :: "(string \<times> nat list) list" where
  "SLOT_TOPK_CONFIGS =
     [(''default'', [2, 4, 10, 0]), (''no_giveup'', [2, 4, 10, 4]),
      (''no_giveup2'', [2, 4, 10, 2]), (''generous'', [4, 6, 10, 4]),
      (''uniform'', [6, 6, 6, 6]), (''flat10'', [10, 10, 10, 10]),
      (''balanced'', [4, 4, 4, 4]), (''hidden_div'', [6, 6, 6, 4]),
      (''slot0_only'', [1, 1, 1, 1]), (''linear'', [1, 1, 1, 1]),
      (''slim_r2'', [2, 4, 6, 4]), (''slim_r2b'', [2, 3, 5, 3])]"

text \<open>\<open>_map_draft_to_target\<close>: only a reduced draft vocabulary needs the offset table.\<close>

definition needs_vocab_mapping :: "nat option \<Rightarrow> nat \<Rightarrow> bool" where
  "needs_vocab_mapping draft_vocab_size vocab_size =
     ((case draft_vocab_size of None \<Rightarrow> vocab_size | Some v \<Rightarrow> v) \<noteq> vocab_size)"

definition map_draft_to_target :: "bool \<Rightarrow> int list \<Rightarrow> nat list \<Rightarrow> token list" where
  "map_draft_to_target needs d2t ids =
     (if needs then map (\<lambda>t. int t + d2t ! t) ids else map int ids)"

section \<open>GPU operator groups\<close>

record 'p leaf_out =
  rank_preds :: "nat list"
  greedy_tokens :: "nat list"
  greedy_target :: "token list"
  greedy_lps :: "'p list"
  leaf_M :: nat
  leaf_bf :: nat
  leaf_give_up :: bool
  top_target :: "token list list"
  top_lps :: "'p list list"

text \<open>\<open>_bfs_gpu_ops\<close> for one leaf: rank predictions, greedy tokens, their targets and
  log-probabilities, and the log-sum-exp of every slot.\<close>

definition bfs_gpu_ops ::
  "('p::linordered_ab_group_add list \<Rightarrow> 'p) \<Rightarrow> int list \<Rightarrow> 'p list list \<Rightarrow> 'p list list
     \<Rightarrow> nat list \<times> nat list \<times> token list \<times> 'p list \<times> 'p list" where
  "bfs_gpu_ops logsumexp d2t logits rank_logits =
     (let all_rank_preds = map argmax_first rank_logits;
          all_greedy_tokens = map argmax_first logits;
          all_greedy_target = map (\<lambda>t. int t + d2t ! t) all_greedy_tokens;
          lse = map logsumexp logits;
          all_greedy_lps = map (\<lambda>(row, t, l). row ! t - l) (zip logits (zip all_greedy_tokens lse))
      in (all_rank_preds, all_greedy_tokens, all_greedy_target, all_greedy_lps, lse))"

text \<open>\<open>_bfs_branch_ops_all_slots\<close> for one leaf: top-k targets and log-probabilities.\<close>

definition bfs_branch_ops_all_slots ::
  "(nat \<Rightarrow> 'p::linordered_ab_group_add list \<Rightarrow> nat list) \<Rightarrow> int list \<Rightarrow> nat
     \<Rightarrow> 'p list list \<Rightarrow> 'p list \<Rightarrow> token list list \<times> 'p list list" where
  "bfs_branch_ops_all_slots topk d2t max_factor logits lse =
     (let top = map (topk max_factor) logits
      in (map (map (\<lambda>t. int t + d2t ! t)) top,
          map (\<lambda>(row, idx, l). map (\<lambda>t. row ! t - l) idx) (zip logits (zip top lse))))"

text \<open>\<open>_bfs_gpu_ops_fused\<close> for one leaf; the greedy token is entry 0 of the top-k.\<close>

definition bfs_gpu_ops_fused_leaf ::
  "(nat \<Rightarrow> 'p::linordered_ab_group_add list \<Rightarrow> nat list) \<Rightarrow> ('p list \<Rightarrow> 'p) \<Rightarrow> int list
     \<Rightarrow> nat \<Rightarrow> nat \<Rightarrow> nat list \<Rightarrow> 'p list list \<Rightarrow> 'p list list \<Rightarrow> 'p leaf_out" where
  "bfs_gpu_ops_fused_leaf topk logsumexp d2t max_factor rank_classes rank_to_factor
       logits rank_logits =
     (let all_rank_preds = map argmax_first rank_logits;
          walk = walk_rank_slots rank_classes rank_to_factor all_rank_preds;
          top_idx = map (topk max_factor) logits;
          top_vals = map (\<lambda>(row, idx). map (\<lambda>t. row ! t) idx) (zip logits top_idx);
          all_greedy_tokens = map (\<lambda>idx. idx ! 0) top_idx;
          all_greedy_target = map (\<lambda>t. int t + d2t ! t) all_greedy_tokens;
          greedy_vals = map (\<lambda>vs. vs ! 0) top_vals;
          lse = map logsumexp logits;
          all_greedy_lps = map (\<lambda>(v, l). v - l) (zip greedy_vals lse)
      in \<lparr>rank_preds = all_rank_preds,
          greedy_tokens = all_greedy_tokens,
          greedy_target = all_greedy_target,
          greedy_lps = all_greedy_lps,
          leaf_M = fst walk, leaf_bf = fst (snd walk), leaf_give_up = snd (snd walk),
          top_target = map (map (\<lambda>t. int t + d2t ! t)) top_idx,
          top_lps = map (\<lambda>(vs, l). map (\<lambda>v. v - l) vs) (zip top_vals lse)\<rparr>)"

text \<open>
  The batched operator: \<open>torch.topk\<close> raises when the vocabulary has fewer than
  \<open>max_factor\<close> entries, and entry 0 of an empty top-k does not exist.
\<close>

definition bfs_gpu_ops_fused ::
  "(nat \<Rightarrow> 'p::linordered_ab_group_add list \<Rightarrow> nat list) \<Rightarrow> ('p list \<Rightarrow> 'p) \<Rightarrow> int list
     \<Rightarrow> nat \<Rightarrow> nat \<Rightarrow> nat list \<Rightarrow> ('p list list \<times> 'p list list) list \<Rightarrow> 'p leaf_out list res" where
  "bfs_gpu_ops_fused topk logsumexp d2t max_factor rank_classes rank_to_factor leaves =
     (if \<exists>lv \<in> set leaves. \<exists>row \<in> set (fst lv). length row < max_factor then Inl RuntimeError
      else if max_factor = 0 then Inl IndexError
      else Inr (map (\<lambda>(lg, rl). bfs_gpu_ops_fused_leaf topk logsumexp d2t max_factor
                         rank_classes rank_to_factor lg rl) leaves))"

section \<open>What \<open>torch.topk\<close> promises\<close>

locale topk_op =
  fixes topk :: "nat \<Rightarrow> 'p::linorder list \<Rightarrow> nat list"
  assumes topk_length: "k \<le> length xs \<Longrightarrow> length (topk k xs) = k"
    and topk_index: "k \<le> length xs \<Longrightarrow> i \<in> set (topk k xs) \<Longrightarrow> i < length xs"
    and topk_distinct: "k \<le> length xs \<Longrightarrow> distinct (topk k xs)"
    and topk_sorted: "k \<le> length xs \<Longrightarrow> i < j \<Longrightarrow> j < k \<Longrightarrow> xs ! (topk k xs ! j) \<le> xs ! (topk k xs ! i)"
    and topk_best: "k \<le> length xs \<Longrightarrow> i \<in> set (topk k xs) \<Longrightarrow> j < length xs \<Longrightarrow>
        j \<notin> set (topk k xs) \<Longrightarrow> xs ! j \<le> xs ! i"
begin

lemma topk_nth_less: "k \<le> length xs \<Longrightarrow> j < k \<Longrightarrow> topk k xs ! j < length xs"
  using topk_index topk_length by (metis nth_mem)

lemma topk_head_max:
  assumes "0 < k" "k \<le> length xs" "j < length xs"
  shows "xs ! j \<le> xs ! (topk k xs ! 0)"
proof (cases "j \<in> set (topk k xs)")
  case True
  then obtain i where "i < k" "topk k xs ! i = j"
    using topk_length[OF assms(2)] by (metis in_set_conv_nth)
  then show ?thesis using topk_sorted[OF assms(2), of 0 i] by (cases i) auto
next
  case False
  then show ?thesis using assms topk_best[of k xs "topk k xs ! 0" j] topk_length[of k xs] by simp
qed

lemma topk_head_value:
  assumes "0 < k" "k \<le> length xs"
  shows "xs ! (topk k xs ! 0) = xs ! argmax_first xs"
proof -
  have ne: "xs \<noteq> []" using assms by auto
  show ?thesis
    using topk_head_max[OF assms argmax_first_less[OF ne]]
      argmax_first_max[OF ne topk_nth_less[OF assms(2,1)]] by simp
qed

lemma topk_head_argmax:
  assumes "0 < k" "k \<le> length xs" "distinct xs"
  shows "topk k xs ! 0 = argmax_first xs"
proof -
  have ne: "xs \<noteq> []" using assms by auto
  show ?thesis
    using topk_head_value[OF assms(1,2)] assms(3) argmax_first_less[OF ne]
      topk_nth_less[OF assms(2,1)] by (simp add: nth_eq_iff_index_eq)
qed

end

text \<open>The sort-based selection realises this contract.\<close>

definition sort_topk :: "nat \<Rightarrow> 'p::linorder list \<Rightarrow> nat list" where
  "sort_topk k xs = take k (py_argsort_desc xs)"

interpretation sorttopk: topk_op "sort_topk :: nat \<Rightarrow> 'p::linorder list \<Rightarrow> nat list"
proof
  fix k i j :: nat and xs :: "'p list"
  assume k: "k \<le> length xs"
  note len = pysort.length_srt[of xs]
  show "length (sort_topk k xs) = k" using k len by (simp add: sort_topk_def)
  show "distinct (sort_topk k xs)"
    by (simp add: sort_topk_def pysort.distinct_srt)
  show "i < length xs" if "i \<in> set (sort_topk k xs)"
    using that pysort.set_srt[of xs] by (auto simp: sort_topk_def dest!: in_set_takeD)
  show "xs ! (sort_topk k xs ! j) \<le> xs ! (sort_topk k xs ! i)" if "i < j" "j < k"
    using that k pysort.desc_srt[of i j xs] by (simp add: sort_topk_def)
  show "xs ! j \<le> xs ! i"
    if i: "i \<in> set (sort_topk k xs)" and j: "j < length xs" "j \<notin> set (sort_topk k xs)"
  proof -
    obtain a where a: "a < k" "py_argsort_desc xs ! a = i"
      using i k len by (auto simp: sort_topk_def in_set_conv_nth)
    obtain b where b: "b < length xs" "py_argsort_desc xs ! b = j"
      using j(1) pysort.set_srt[of xs] len by (metis in_set_conv_nth lessThan_iff)
    have "\<not> b < k"
    proof
      assume "b < k"
      then have "j = sort_topk k xs ! b" "b < length (sort_topk k xs)"
        using b k len by (auto simp: sort_topk_def)
      with j(2) show False by simp
    qed
    then show ?thesis using pysort.desc_srt[of a b xs] a b by simp
  qed
qed

section \<open>Properties of the rank walk\<close>

definition first_nonzero :: "nat list \<Rightarrow> nat option" where
  "first_nonzero rp = (case positions (\<lambda>r. r \<noteq> 0) rp of [] \<Rightarrow> None | k # _ \<Rightarrow> Some k)"

lemma argmax_flags:
  assumes "k < length rp" "rp ! k \<noteq> 0" "\<forall>j<k. rp ! j = 0"
  shows "argmax_first (map (\<lambda>b. if b then 1 else 0 :: nat) (map (\<lambda>r. r \<noteq> (0::nat)) rp)) = k"
  using assms by (intro argmax_first_unique) auto

lemma walk_rank_slots_all_zero:
  assumes "\<forall>k<length rp. rp ! k = 0"
  shows "walk_rank_slots rc r2f rp = (length rp, 0, False)"
proof -
  have "\<not> list_ex (\<lambda>b. b) (map (\<lambda>r. r \<noteq> 0) rp)"
    using assms by (auto simp: list_ex_iff in_set_conv_nth)
  then show ?thesis unfolding walk_rank_slots_def Let_def by (simp only: if_True if_False simp_thms)
qed

lemma walk_rank_slots_at:
  assumes k: "k < length rp" "rp ! k \<noteq> 0" "\<forall>j<k. rp ! j = 0"
  shows "walk_rank_slots rc r2f rp =
    (if rp ! k = rc - 1 then (k, 0, True)
     else (k + 1, r2f ! min (rp ! k) (rc - 1), False))"
proof -
  have ex: "list_ex (\<lambda>b. b) (map (\<lambda>r. r \<noteq> 0) rp)"
    using k by (force simp: list_ex_iff)
  show ?thesis
    unfolding walk_rank_slots_def Let_def argmax_flags[OF k]
    by (simp only: ex if_True if_False simp_thms) (simp split: if_split)
qed

lemma first_nonzero_cases:
  obtains (zero) "\<forall>k<length rp. rp ! k = (0::nat)"
  | (at) k where "k < length rp" "rp ! k \<noteq> 0" "\<forall>j<k. rp ! j = 0"
proof (cases "\<exists>k<length rp. rp ! k \<noteq> 0")
  case True
  let ?k = "LEAST k. k < length rp \<and> rp ! k \<noteq> 0"
  have "?k < length rp \<and> rp ! ?k \<noteq> 0" using True by (metis (mono_tags, lifting) LeastI)
  moreover have "\<forall>j<?k. rp ! j = 0"
    using not_less_Least calculation by (metis (mono_tags, lifting) order.strict_trans)
  ultimately show ?thesis using at by blast
qed (use zero in auto)

lemma walk_rank_slots_M_le: "fst (walk_rank_slots rc r2f rp) \<le> length rp"
  by (cases rule: first_nonzero_cases[of rp])
    (auto simp: walk_rank_slots_all_zero walk_rank_slots_at)

text \<open>
  The rank walk trusts exactly the leading slots: every slot before the last trusted one
  has rank class 0; the walk gives up exactly when the first slot with another class predicts
  the give-up class, and then that slot is not trusted; and a branching factor is only
  assigned at a slot whose class is neither 0 nor give-up.
\<close>

theorem walk_rank_slots_correct:
  assumes "walk_rank_slots rc r2f rp = (M, bf, gu)"
  shows "M \<le> length rp
    \<and> (\<forall>k. Suc k < M \<longrightarrow> rp ! k = 0)
    \<and> (gu \<longleftrightarrow> (\<exists>k<length rp. rp ! k \<noteq> 0 \<and> rp ! k = rc - 1 \<and> (\<forall>j<k. rp ! j = 0)))
    \<and> (gu \<longrightarrow> M < length rp \<and> rp ! M = rc - 1 \<and> bf = 0)
    \<and> (bf \<noteq> 0 \<longrightarrow> 0 < M \<and> rp ! (M - 1) \<noteq> 0 \<and> rp ! (M - 1) \<noteq> rc - 1
           \<and> bf = r2f ! min (rp ! (M - 1)) (rc - 1))"
proof (cases rule: first_nonzero_cases[of rp])
    case zero
    then show ?thesis using assms by (simp add: walk_rank_slots_all_zero) auto
  next
    case (at k)
    have uniq: "k' = k" if "k' < length rp" "rp ! k' \<noteq> 0" "\<forall>j<k'. rp ! j = 0" for k'
      using that at by (metis linorder_neqE_nat)
    show ?thesis
    proof (cases "rp ! k = rc - 1")
      case True
      with assms walk_rank_slots_at[OF at] have "M = k" "bf = 0" "gu" by auto
      with at True show ?thesis by auto
    next
      case False
      with assms walk_rank_slots_at[OF at]
      have "M = k + 1" "bf = r2f ! min (rp ! k) (rc - 1)" "\<not> gu" by auto
      moreover have "\<not> (\<exists>k'<length rp. rp ! k' \<noteq> 0 \<and> rp ! k' = rc - 1 \<and> (\<forall>j<k'. rp ! j = 0))"
        using uniq False by metis
      ultimately show ?thesis using at False by auto
    qed
qed

theorem walk_rank_slots_correct_witness:
  "walk_rank_slots 4 RANK_BRANCH_FACTORS [0, 2, 0, 3] = (2, 10, False)
   \<and> [0, 2, 0, 3 :: nat] ! (2 - 1) \<noteq> 4 - 1
   \<and> 10 = RANK_BRANCH_FACTORS ! min ([0, 2, 0, 3] ! (2 - 1)) (4 - 1)"
proof -
  have h: "walk_rank_slots 4 RANK_BRANCH_FACTORS [0, 2, 0, 3] = (2, 10, False)" by code_simp
  show ?thesis using h walk_rank_slots_correct[OF h] by (metis zero_neq_numeral)
qed

section \<open>The fused operator computes what the separate operators compute\<close>

lemma fused_leaf_shape:
  assumes "length logits = K" "length rank_logits = K"
  shows "length (rank_preds (bfs_gpu_ops_fused_leaf tk lse d2t mf rc r2f logits rank_logits)) = K"
    and "length (greedy_target (bfs_gpu_ops_fused_leaf tk lse d2t mf rc r2f logits rank_logits)) = K"
    and "length (greedy_lps (bfs_gpu_ops_fused_leaf tk lse d2t mf rc r2f logits rank_logits)) = K"
    and "length (top_target (bfs_gpu_ops_fused_leaf tk lse d2t mf rc r2f logits rank_logits)) = K"
    and "length (top_lps (bfs_gpu_ops_fused_leaf tk lse d2t mf rc r2f logits rank_logits)) = K"
  using assms by (simp_all add: bfs_gpu_ops_fused_leaf_def Let_def)

text \<open>
  On every leaf whose logit rows have no duplicate value, the fused operator returns
  exactly what the three separate operators return: the same rank predictions and rank walk,
  greedy tokens, target ids and log-probabilities, and the same top-k alternatives.
\<close>

theorem bfs_gpu_ops_fused_equiv:
  assumes tk: "topk_op tk" and mf: "0 < mf"
    and rows: "\<forall>row \<in> set logits. mf \<le> length row \<and> distinct row"
    and sep: "bfs_gpu_ops lse d2t logits rank_logits = (rp, gt, gtt, glp, l)"
    and br: "bfs_branch_ops_all_slots tk d2t mf logits l = (tt, tlp)"
    and wk: "walk_rank_slots rc r2f rp = (M, bf, gu)"
  shows "bfs_gpu_ops_fused_leaf tk lse d2t mf rc r2f logits rank_logits =
    \<lparr>rank_preds = rp, greedy_tokens = gt, greedy_target = gtt, greedy_lps = glp,
     leaf_M = M, leaf_bf = bf, leaf_give_up = gu, top_target = tt, top_lps = tlp\<rparr>"
proof -
  have hd: "tk mf row ! 0 = argmax_first row" "length (tk mf row) = mf" if "row \<in> set logits" for row
    using that rows mf topk_op.topk_head_argmax[OF tk mf] topk_op.topk_length[OF tk] by auto
  have g: "map (\<lambda>idx. idx ! 0) (map (tk mf) logits) = map argmax_first logits"
    using hd by simp
  have glps: "map (\<lambda>(v, l). v - l) (zip (map (\<lambda>vs. vs ! 0)
        (map (\<lambda>(row, idx). map (\<lambda>t. row ! t) idx) (zip logits (map (tk mf) logits)))) (map lse logits))
     = map (\<lambda>(row, t, l). row ! t - l) (zip logits (zip (map argmax_first logits) (map lse logits)))"
    using hd mf by (intro nth_equalityI) (auto simp: nth_map)
  have tlps: "map (\<lambda>(vs, l). map (\<lambda>v. v - l) vs) (zip
        (map (\<lambda>(row, idx). map (\<lambda>t. row ! t) idx) (zip logits (map (tk mf) logits))) (map lse logits))
     = map (\<lambda>(row, idx, l). map (\<lambda>t. row ! t - l) idx) (zip logits (zip (map (tk mf) logits) (map lse logits)))"
    by (intro nth_equalityI) (auto simp: nth_map)
  have s: "rp = map argmax_first rank_logits" "gt = map argmax_first logits" "l = map lse logits"
    "gtt = map (\<lambda>t. int t + d2t ! t) (map argmax_first logits)"
    "glp = map (\<lambda>(row, t, l). row ! t - l) (zip logits (zip (map argmax_first logits) (map lse logits)))"
    using sep by (auto simp: bfs_gpu_ops_def Let_def)
  have b: "tt = map (map (\<lambda>t. int t + d2t ! t)) (map (tk mf) logits)"
    "tlp = map (\<lambda>(row, idx, l). map (\<lambda>t. row ! t - l) idx) (zip logits (zip (map (tk mf) logits) (map lse logits)))"
    using br by (auto simp: bfs_branch_ops_all_slots_def Let_def s)
  have w: "walk_rank_slots rc r2f (map argmax_first rank_logits) = (M, bf, gu)"
    using wk by (simp add: s)
  show ?thesis
    unfolding bfs_gpu_ops_fused_leaf_def Let_def g glps tlps w s b by (simp only: fst_conv snd_conv)
qed

theorem bfs_gpu_ops_fused_equiv_witness:
  "bfs_gpu_ops_fused_leaf sort_topk (\<lambda>_. 0) [5, 5, 7 :: int] 2 4 RANK_BRANCH_FACTORS
      [[1, 3, 2 :: int]] [[0, 1, 0, 0]] =
    \<lparr>rank_preds = [1], greedy_tokens = [1], greedy_target = [6], greedy_lps = [3],
     leaf_M = 1, leaf_bf = 4, leaf_give_up = False, top_target = [[6, 9]], top_lps = [[3, 2]]\<rparr>"
proof (rule bfs_gpu_ops_fused_equiv)
  show "topk_op (sort_topk :: nat \<Rightarrow> int list \<Rightarrow> nat list)" by (rule sorttopk.topk_op_axioms)
  show "bfs_gpu_ops (\<lambda>_. 0) [5, 5, 7 :: int] [[1, 3, 2 :: int]] [[0, 1, 0, 0]]
      = ([1], [1], [6], [3], [0])" by code_simp
  show "bfs_branch_ops_all_slots sort_topk [5, 5, 7] 2 [[1, 3, 2 :: int]] [0] = ([[6, 9]], [[3, 2]])"
    by code_simp
  show "walk_rank_slots 4 RANK_BRANCH_FACTORS [1] = (1, 4, False)" by code_simp
qed simp_all

end
