(* ===== verification/Draft_Config.thy ===== *)
theory Draft_Config
  imports Rank_Walk Complex_Main "HOL-Library.Log_Nat"
begin

text \<open>
  Configuration of the SpecBlock draft-tree builder: the fields of
  \<open>_SpecBlockAlgorithmBase\<close> that steer tree construction, the validation and overrides of
  \<open>__init__\<close> (strict linear mode, slot-top-k modes), the dispatch predicate of the
  specialised GPU builders, and the per-iteration adaptive policies (budget and beam scaling,
  conditional block count, slot-0 beam, uncertainty-proportional allocation).

  \<open>np.exp\<close> is a parameter, applied to log-probabilities by the callers; the probabilities it
  gives and the thresholds they are compared with are rationals, and the scale factors and scaled
  sizes of the iteration policies are rounded as Python's floats are (\<open>dbl\<close>, \<open>int_scaled\<close>).
\<close>

section \<open>The algorithm object\<close>

record algo =
  cfg_K :: nat
  rank_classes :: nat
  total_tokens :: nat
  beam_width :: nat
  max_blocks :: nat
  tree_K :: "nat option"
  tree_K_bfs :: "nat option"
  rank_slot_topk :: "nat list"
  bfs_slot_topk :: "nat list option"
  strict_linear :: bool
  strict_linear_nodes :: "nat option"
  diverse_beam :: bool
  coverage_prune :: bool
  adaptive_budget :: bool
  protect_d1 :: bool
  protect_d1_n :: nat
  strat_beam :: nat
  slot0_beam :: nat
  adaptive_slot0 :: nat
  adaptive_all :: nat
  hidden_slot_cap :: nat
  iter_adapt_budget :: nat
  cond_max_blocks :: nat
  tree_fixed_n :: nat

text \<open>The PyTorch and NumPy operations the builder calls.\<close>

record 'p ops =
  op_topk :: "nat \<Rightarrow> 'p list \<Rightarrow> nat list"
  op_part :: "nat \<Rightarrow> 'p list \<Rightarrow> nat list"
  op_lse :: "'p list \<Rightarrow> 'p"
  op_exp :: "'p \<Rightarrow> rat"

section \<open>Construction of the algorithm object\<close>

text \<open>
  \<open>slot_topk_mode or SLOT_TOPK_MODE\<close> replaces the rank table when it names a known mode;
  an unknown mode is ignored.
\<close>

definition apply_slot_topk_mode :: "string \<Rightarrow> algo \<Rightarrow> algo" where
  "apply_slot_topk_mode mode a =
     (if mode = [] then a
      else case map_of SLOT_TOPK_CONFIGS mode of
             None \<Rightarrow> a
           | Some t \<Rightarrow> a\<lparr>rank_slot_topk := t\<rparr>)"

text \<open>The number of nodes of one unbranched greedy chain over all blocks.\<close>

definition linear_k0 :: "algo \<Rightarrow> nat" where
  "linear_k0 a = (case tree_K a of Some t \<Rightarrow> if t < cfg_K a then t else cfg_K a | None \<Rightarrow> cfg_K a)"

definition linear_kb :: "algo \<Rightarrow> nat" where
  "linear_kb a =
     (case tree_K_bfs a of Some t \<Rightarrow> if t < cfg_K a then t else linear_k0 a | None \<Rightarrow> linear_k0 a)"

definition strict_linear_budget :: "algo \<Rightarrow> nat" where
  "strict_linear_budget a = linear_k0 a + (max_blocks a - 1) * linear_kb a"

text \<open>
  The strict-linear section of \<open>__init__\<close>: every setting that could branch or prune is
  switched off, \<open>SPECBLOCK_DYNAMIC_TREE=1\<close> is refused, and the token budget must be exactly
  the chain length.
\<close>

definition init_strict_linear :: "bool \<Rightarrow> algo \<Rightarrow> algo res" where
  "init_strict_linear dynamic_tree_env a =
     (if strict_linear a then
        let b = a\<lparr>beam_width := 1,
                  rank_slot_topk := replicate (rank_classes a) 1,
                  bfs_slot_topk := None,
                  adaptive_budget := False,
                  adaptive_slot0 := 0,
                  adaptive_all := 0,
                  iter_adapt_budget := 0,
                  cond_max_blocks := 0,
                  slot0_beam := 0,
                  protect_d1 := False,
                  strat_beam := 0,
                  hidden_slot_cap := 0,
                  diverse_beam := False,
                  coverage_prune := False,
                  tree_fixed_n := 0\<rparr>
        in if dynamic_tree_env then Inl ValueError
           else let b' = b\<lparr>strict_linear_nodes := Some (strict_linear_budget b)\<rparr>
                in if total_tokens b' \<noteq> strict_linear_budget b then Inl ValueError
                   else Inr b'
      else Inr (a\<lparr>strict_linear_nodes := None\<rparr>))"

text \<open>\<open>_tree_gpu_supported\<close>: the configurations the specialised builders accept.\<close>

definition tree_gpu_supported :: "algo \<Rightarrow> bool" where
  "tree_gpu_supported a \<longleftrightarrow>
     max_blocks a = 2 \<and> iter_adapt_budget a = 0 \<and> cond_max_blocks a = 0
     \<and> \<not> diverse_beam a \<and> \<not> protect_d1 a \<and> strat_beam a = 0 \<and> hidden_slot_cap a = 0
     \<and> \<not> adaptive_budget a \<and> \<not> coverage_prune a \<and> slot0_beam a = 0
     \<and> bfs_slot_topk a = None \<and> tree_K a = None \<and> tree_K_bfs a = None
     \<and> adaptive_slot0 a \<in> {0, 1, 2, 3, 4} \<and> adaptive_all a \<in> {0, 1, 2}
     \<and> 0 < rank_slot_topk a ! (rank_classes a - 1)"

text \<open>\<open>_build_tree_from_block1_dispatch\<close>: which builder a configuration selects.\<close>

datatype builder = Static_builder | Cuda_fixed | Cuda_builder | Triton_builder | Gpu_builder | Numpy_builder

definition build_tree_dispatch ::
  "bool \<Rightarrow> bool \<Rightarrow> bool \<Rightarrow> bool \<Rightarrow> algo \<Rightarrow> builder" where
  "build_tree_dispatch use_static tree_build_cuda tree_build_triton tree_gpu a =
     (if use_static then Static_builder
      else if tree_build_cuda \<and> 0 < tree_fixed_n a \<and> tree_gpu_supported a then Cuda_fixed
      else if tree_build_cuda \<and> tree_gpu_supported a then Cuda_builder
      else if tree_build_triton \<and> tree_gpu_supported a then Triton_builder
      else if tree_gpu \<and> tree_gpu_supported a then Gpu_builder
      else Numpy_builder)"

section \<open>Iteration-level policies\<close>

text \<open>
  Binary64 values: \<open>dbl x\<close> is the double nearest to a rational of at least \<open>2 ^ -64\<close>, ties to even.
  A Python literal is the double nearest to the decimal, and a product of doubles is the double
  nearest to the exact product, so that \<open>int(90 * 0.7)\<close> is 62.  The probabilities are doubles,
  and integers below \<open>2 ^ 53\<close> are converted exactly.
\<close>

definition round_half_even :: "rat \<Rightarrow> int" where
  "round_half_even y =
     (let f = \<lfloor>y\<rfloor>; d = y - of_int f
      in if d < 1/2 \<or> (d = 1/2 \<and> even f) then f else f + 1)"

definition ulp :: "rat \<Rightarrow> rat" where
  "ulp x = 2 ^ floorlog 2 (nat \<lfloor>x * 2 ^ 64\<rfloor>) / 2 ^ 117"

definition dbl :: "rat \<Rightarrow> rat" where
  "dbl x = of_int (round_half_even (x / ulp x)) * ulp x"

lemma round_half_even_le: "y \<le> of_int n \<Longrightarrow> round_half_even y \<le> n"
proof -
  assume y: "y \<le> of_int n"
  then have f: "\<lfloor>y\<rfloor> \<le> n" by (simp add: floor_le_iff le_less_trans[of y "of_int n"])
  show ?thesis
  proof (cases "\<lfloor>y\<rfloor> = n")
    case True
    then have "of_int n \<le> y" by (metis of_int_floor_le)
    then have "y - of_int \<lfloor>y\<rfloor> = 0" using y True by simp
    then show ?thesis using True by (simp add: round_half_even_def)
  qed (use f in \<open>simp add: round_half_even_def Let_def\<close>)
qed

text \<open>Rounding does not exceed an integer bound that is a double itself.\<close>

lemma dbl_le:
  assumes "0 \<le> x" "x \<le> of_nat m" "m < 2 ^ 53"
  shows "dbl x \<le> of_nat m"
proof -
  let ?L = "floorlog 2 (nat \<lfloor>x * 2 ^ 64\<rfloor>)"
  have "x < 2 ^ 53" using assms(2,3) by (smt (verit) of_nat_less_iff of_nat_numeral of_nat_power order_le_less_trans)
  then have "x * 2 ^ 64 < 2 ^ 53 * 2 ^ 64" by (rule mult_strict_right_mono) simp
  then have "\<lfloor>x * 2 ^ 64\<rfloor> < 2 ^ 117" by (simp add: floor_less_iff)
  then have "nat \<lfloor>x * 2 ^ 64\<rfloor> < 2 ^ 117" using assms(1) by (subst nat_less_iff) simp_all
  then have L: "?L \<le> 117" by (intro floorlog_leI) simp_all
  have u: "0 < ulp x" by (simp add: ulp_def)
  have "(2 :: rat) ^ 117 / 2 ^ ?L = 2 ^ (117 - ?L)" by (rule power_diff[symmetric]) (use L in simp_all)
  then have "of_nat m / ulp x = of_int (int m * 2 ^ (117 - ?L))"
    by (simp only: ulp_def divide_divide_eq_right times_divide_eq_right[symmetric] of_int_mult of_int_of_nat_eq of_int_power of_int_numeral)
  moreover have "x / ulp x \<le> of_nat m / ulp x" using assms(2) u by (intro divide_right_mono) auto
  ultimately have "round_half_even (x / ulp x) \<le> int m * 2 ^ (117 - ?L)" by (intro round_half_even_le) simp
  then have "(of_int (round_half_even (x / ulp x)) :: rat) \<le> of_nat m / ulp x"
    using \<open>of_nat m / ulp x = _\<close> by (metis of_int_le_iff)
  then show ?thesis using u by (simp add: dbl_def pos_le_divide_eq)
qed

text \<open>\<open>int(n * scale)\<close> for a positive integer and a positive double.\<close>

definition int_scaled :: "nat \<Rightarrow> rat \<Rightarrow> nat" where
  "int_scaled n scale = nat \<lfloor>dbl (of_nat n * scale)\<rfloor>"

lemma int_scaled_le:
  assumes "0 \<le> scale" "scale \<le> of_nat k" "n * k < 2 ^ 53"
  shows "int_scaled n scale \<le> n * k"
proof -
  have "of_nat n * scale \<le> of_nat (n * k)" using assms(2) by (simp add: mult_left_mono)
  then have "dbl (of_nat n * scale) \<le> of_nat (n * k)" by (rule dbl_le[rotated]) (use assms in simp_all)
  then have "\<lfloor>dbl (of_nat n * scale)\<rfloor> \<le> int (n * k)" by (metis floor_mono floor_of_nat)
  then show ?thesis by (simp add: int_scaled_def nat_le_iff)
qed

text \<open>
  \<open>ITER_ADAPT_BUDGET\<close>: budget and beam scale factors from the slot-0 probability and the
  mean greedy probability.
\<close>

definition iter_scales :: "nat \<Rightarrow> rat \<Rightarrow> rat \<Rightarrow> rat \<times> rat" where
  "iter_scales mode p0 avg_p =
     (if mode = 1 then
        (if p0 > dbl (9/10) \<and> avg_p > dbl (7/10) then (dbl (6/10), 1) else if p0 > dbl (7/10) then (1, 1) else (2, 2))
      else if mode = 2 then
        (if p0 > dbl (9/10) \<and> avg_p > dbl (7/10) then (5/10, dbl (7/10))
         else if p0 > dbl (7/10) then (1, 1) else (3, 5/2))
      else if mode = 3 then
        (if p0 > dbl (9/10) then (dbl (4/10), 5/10)
         else if p0 > dbl (7/10) then (dbl (8/10), dbl (8/10)) else (4, 3))
      else if mode = 4 then
        (if p0 > dbl (9/10) \<and> avg_p > 75/100 then (dbl (7/10), dbl (8/10))
         else if p0 > dbl (7/10) then (dbl (11/10), dbl (11/10)) else (3, 5/2))
      else (if p0 > dbl (6/10) then (1, 1) else (5/2, 2)))"

definition iter_adapt :: "nat \<Rightarrow> rat \<Rightarrow> rat \<Rightarrow> algo \<Rightarrow> algo" where
  "iter_adapt max_topk p0 avg_p a =
     (if 0 < iter_adapt_budget a then
        let (bs, ws) = iter_scales (iter_adapt_budget a) p0 avg_p;
            new_beam = max 3 (int_scaled (beam_width a) ws)
        in a\<lparr>total_tokens := max 30 (int_scaled (total_tokens a) bs),
             beam_width := min new_beam max_topk\<rparr>
      else a)"

lemma iter_scales_bounds:
  "0 \<le> fst (iter_scales mode p q) \<and> fst (iter_scales mode p q) \<le> of_nat 4"
  "0 \<le> snd (iter_scales mode p q) \<and> snd (iter_scales mode p q) \<le> of_nat 3"
proof -
  have n: "0 \<le> dbl x" if "0 \<le> x" for x
  proof -
    have "0 \<le> x / ulp x" using that by (simp add: ulp_def)
    then have "0 \<le> round_half_even (x / ulp x)" by (simp add: round_half_even_def Let_def)
    then show ?thesis by (simp add: dbl_def ulp_def)
  qed
  have d: "dbl x \<le> of_nat 2" if "0 \<le> x" "x \<le> 2" for x by (rule dbl_le) (use that in simp_all)
  note b = d[of "4/10"] d[of "6/10"] d[of "7/10"] d[of "8/10"] d[of "11/10"]
  show "0 \<le> fst (iter_scales mode p q) \<and> fst (iter_scales mode p q) \<le> of_nat 4"
    "0 \<le> snd (iter_scales mode p q) \<and> snd (iter_scales mode p q) \<le> of_nat 3"
    using b n[of "4/10"] n[of "6/10"] n[of "7/10"] n[of "8/10"] n[of "11/10"] by (simp_all add: iter_scales_def)
qed

text \<open>The double product can fall short of the exact one.\<close>

lemma floorlog_eqI: "b ^ w \<le> x \<Longrightarrow> x < b ^ Suc w \<Longrightarrow> 1 < b \<Longrightarrow> floorlog b x = Suc w"
  by (intro antisym floorlog_leI floorlog_ge_SucI) simp_all

lemma round_half_even_eqI:
  assumes "of_int n - 1/2 < y" "y < of_int n + 1/2"
  shows "round_half_even y = n"
proof (cases "of_int n \<le> y")
  case True
  then have "\<lfloor>y\<rfloor> = n" using assms(2) by (intro floor_unique) simp_all
  then show ?thesis using assms(2) by (simp add: round_half_even_def Let_def)
next
  case False
  then have "\<lfloor>y\<rfloor> = n - 1" using assms(1) by (intro floor_unique) simp_all
  then show ?thesis using assms(1) by (simp add: round_half_even_def Let_def)
qed

lemma int_scaled_90: "int_scaled 90 (dbl (7/10)) = 62"
proof -
  have "\<lfloor>7 / 10 * 2 ^ 64 :: rat\<rfloor> = 12912720851596686131" by (rule floor_unique) simp_all
  then have "floorlog 2 (nat \<lfloor>7 / 10 * 2 ^ 64 :: rat\<rfloor>) = Suc 63" by (simp only:) (rule floorlog_eqI, simp_all)
  then have u: "ulp (7/10) = 1 / 2 ^ 53" by (simp only: ulp_def) simp
  have "round_half_even (7 / 10 / (1 / 2 ^ 53)) = 6305039478318694" by (rule round_half_even_eqI) simp_all
  then have d: "dbl (7/10) = 6305039478318694 / 2 ^ 53" unfolding dbl_def u by simp
  have "floorlog 2 (nat \<lfloor>90 * (6305039478318694 / 2 ^ 53) * 2 ^ 64 :: rat\<rfloor>) = Suc 69" by (rule floorlog_eqI) simp_all
  then have v: "ulp (90 * (6305039478318694 / 2 ^ 53)) = 1 / 2 ^ 47" by (simp only: ulp_def) simp
  have "round_half_even (90 * (6305039478318694 / 2 ^ 53) / (1 / 2 ^ 47)) = 8866461766385663" by (rule round_half_even_eqI) simp_all
  then have "dbl (90 * (6305039478318694 / 2 ^ 53)) = 8866461766385663 / 2 ^ 47" unfolding dbl_def v by simp
  then have "\<lfloor>dbl (90 * (6305039478318694 / 2 ^ 53))\<rfloor> = 62" by (simp only:) (rule floor_unique, simp_all)
  then show ?thesis by (simp only: int_scaled_def d of_nat_numeral nat_numeral)
qed

text \<open>\<open>COND_MAX_BLOCKS\<close>: easy iterations skip the last block forward.\<close>

definition iter_max_blocks :: "rat \<Rightarrow> rat \<Rightarrow> algo \<Rightarrow> nat" where
  "iter_max_blocks p0 avg_p a =
     (if 0 < cond_max_blocks a \<and> 1 < max_blocks a then
        (if cond_max_blocks a = 1 then
           (if p0 > dbl (9/10) \<and> avg_p > dbl (7/10) then max_blocks a - 1 else max_blocks a)
         else if cond_max_blocks a = 2 then
           (if p0 > dbl (85/100) then max_blocks a - 1 else max_blocks a)
         else if cond_max_blocks a = 3 then
           (if p0 > dbl (95/100) then max 1 (max_blocks a - 2)
            else if p0 > dbl (85/100) then max_blocks a - 1 else max_blocks a)
         else max_blocks a)
      else max_blocks a)"

section \<open>Per-slot branching widths of block 1\<close>

text \<open>\<open>ADAPTIVE_SLOT0\<close>: the slot-0 width from the slot-0 greedy probability.\<close>

definition slot0_width :: "algo \<Rightarrow> rat \<Rightarrow> nat" where
  "slot0_width a p0 =
     (let bw = beam_width a in
      if adaptive_slot0 a = 0 then (if 0 < slot0_beam a then slot0_beam a else bw)
      else if adaptive_slot0 a = 2 then
        (if p0 \<ge> 95/100 then min 2 bw else if p0 \<ge> 85/100 then min 4 bw
         else if p0 \<ge> 6/10 then min 7 bw else bw)
      else if adaptive_slot0 a = 3 then
        (if p0 \<ge> 95/100 then 1 else if p0 \<ge> 9/10 then min 2 bw
         else if p0 \<ge> 8/10 then min 4 bw else if p0 \<ge> 6/10 then min 7 bw else bw)
      else if adaptive_slot0 a = 4 then
        (if p0 \<ge> 9/10 then 1 else if p0 \<ge> 8/10 then min 3 bw
         else if p0 \<ge> 6/10 then min 6 bw else bw)
      else
        (if p0 \<ge> 9/10 then min 3 bw else if p0 \<ge> 8/10 then min 5 bw
         else if p0 \<ge> 6/10 then min 8 bw else bw))"

text \<open>\<open>ADAPTIVE_ALL\<close> in block 1: the width of slot k from its greedy probability.\<close>

definition adaptive_slot_topk :: "nat \<Rightarrow> rat \<Rightarrow> nat \<Rightarrow> nat" where
  "adaptive_slot_topk mode pk base_topk =
     (if mode = 2 then
        (if pk \<ge> 9/10 then 1 else if pk \<ge> 7/10 then 2 else if pk \<ge> 5/10 then 3 else base_topk)
      else
        (if pk \<ge> 95/100 then min 2 base_topk
         else if pk \<ge> 85/100 then min 3 base_topk else base_topk))"

text \<open>\<open>ADAPTIVE_ALL\<close> in the later blocks: the vectorised \<open>np.where\<close> form.\<close>

definition bfs_adaptive_topk :: "nat \<Rightarrow> rat \<Rightarrow> nat \<Rightarrow> nat" where
  "bfs_adaptive_topk mode pk base =
     (if mode = 0 then base
      else if mode = 2 then
        (let cut_1 = (pk \<ge> 9/10); cut_2 = (pk \<ge> 7/10 \<and> pk < 9/10); cut_3 = (pk \<ge> 5/10 \<and> pk < 7/10);
             t1 = (if cut_1 then 1 else base);
             t2 = (if cut_2 then min 2 base else t1)
         in (if cut_3 then min 3 base else t2))
      else
        (let cut_a = (pk \<ge> 95/100); cut_b = (pk \<ge> 85/100 \<and> pk < 95/100);
             t1 = (if cut_a then min 2 base else base)
         in (if cut_b then min 3 base else t1)))"

text \<open>
  The per-slot loop over slots 1, 2, ...: a give-up slot without candidates stops it, so the
  remaining slots keep width 0.
\<close>

fun slot_topks_rest :: "algo \<Rightarrow> nat list \<Rightarrow> rat list \<Rightarrow> nat list" where
  "slot_topks_rest a [] pks = []"
| "slot_topks_rest a (rk # rks) pks =
     (let pk = (case pks of [] \<Rightarrow> 5/10 | p # _ \<Rightarrow> p);
          base_topk = rank_slot_topk a ! rk;
          stop = (rk = rank_classes a - 1 \<and> base_topk = 0)
      in if 0 < adaptive_all a then
           (if stop then adaptive_slot_topk (adaptive_all a) pk base_topk # replicate (length rks) 0
            else adaptive_slot_topk (adaptive_all a) pk base_topk # slot_topks_rest a rks (tl pks))
         else if stop then 0 # replicate (length rks) 0
         else base_topk # slot_topks_rest a rks (tl pks))"

definition slot_topks_by_rank :: "algo \<Rightarrow> nat list \<Rightarrow> rat list \<Rightarrow> nat list" where
  "slot_topks_by_rank a rp pks =
     (case rp of [] \<Rightarrow> []
      | r # rs \<Rightarrow> slot0_width a (case pks of [] \<Rightarrow> 5/10 | p # _ \<Rightarrow> p) # slot_topks_rest a rs (tl pks))"

section \<open>Uncertainty-proportional allocation\<close>

text \<open>\<open>np.round\<close> rounds halves to even.\<close>

definition np_round :: "rat \<Rightarrow> int" where
  "np_round x = (let f = \<lfloor>x\<rfloor>; d = x - of_int f in
     if d < 1/2 then f else if d > 1/2 then f + 1 else if even f then f else f + 1)"

definition argmin_first :: "int list \<Rightarrow> nat" where
  "argmin_first xs = argmax_first (map uminus xs)"

text \<open>\<open>while alloc.sum() > alt_budget: alloc[alloc.argmax()] -= 1\<close>\<close>

function shrink_alloc :: "int \<Rightarrow> int list \<Rightarrow> int list" where
  "shrink_alloc budget alloc =
     (if alloc \<noteq> [] \<and> budget < sum_list alloc
      then let i = argmax_first alloc in shrink_alloc budget (alloc[i := alloc ! i - 1])
      else alloc)"
  by pat_completeness auto

lemma sum_list_update_int:
  "i < length xs \<Longrightarrow> sum_list (xs[i := v]) = sum_list xs - xs ! i + (v :: int)"
  by (induction xs arbitrary: i) (auto split: nat.split)

termination shrink_alloc
proof (relation "measure (\<lambda>(budget, alloc). nat (sum_list alloc - budget))", goal_cases)
  case (2 budget alloc i)
  then show ?case using argmax_first_less[of alloc] by (simp add: sum_list_update_int)
qed simp

declare shrink_alloc.simps [simp del]

text \<open>\<open>while alloc.sum() < alt_budget and alloc.min() < cap: idx = alloc.argmin(); alloc[idx] += 1\<close>
  where \<open>cap\<close> is \<open>max_topk - 1\<close>; the inner test of the source repeats the loop condition.\<close>

function grow_alloc :: "int \<Rightarrow> int \<Rightarrow> int list \<Rightarrow> int list" where
  "grow_alloc budget cap alloc =
     (if alloc \<noteq> [] \<and> sum_list alloc < budget \<and> alloc ! argmin_first alloc < cap
      then let i = argmin_first alloc in grow_alloc budget cap (alloc[i := alloc ! i + 1])
      else alloc)"
  by pat_completeness auto
termination
proof (relation "measure (\<lambda>(budget, cap, alloc). nat (budget - sum_list alloc))", goal_cases)
  case (2 budget cap alloc i)
  then show ?case using argmax_first_less[of "map uminus alloc"]
    by (simp add: sum_list_update_int argmin_first_def)
qed simp

declare grow_alloc.simps [simp del]

definition adaptive_alloc :: "algo \<Rightarrow> nat \<Rightarrow> rat list \<Rightarrow> int list" where
  "adaptive_alloc a max_topk pmax =
     (let alt_budget = int (beam_width a) + int (sum_list (rank_slot_topk a)) - int (length (rank_slot_topk a));
          unc = map (\<lambda>p. max (1/100) (1 - p)) pmax;
          raw = map (\<lambda>u. u / sum_list unc * of_int alt_budget) unc;
          alloc0 = map (\<lambda>r. min (max (np_round r) 1) (int max_topk - 1)) raw;
          alloc1 = shrink_alloc alt_budget alloc0
      in grow_alloc alt_budget (int max_topk - 1) alloc1)"

definition slot_topks :: "algo \<Rightarrow> nat \<Rightarrow> nat list \<Rightarrow> rat list \<Rightarrow> nat list" where
  "slot_topks a max_topk rp pks =
     (if adaptive_budget a then map (\<lambda>x. nat (x + 1)) (adaptive_alloc a max_topk pks)
      else slot_topks_by_rank a rp pks)"

section \<open>Properties of the policies\<close>

lemma length_slot_topks_rest [simp]: "length (slot_topks_rest a rks pks) = length rks"
proof (induction rks arbitrary: pks)
  case (Cons rk rks)
  then show ?case by (simp add: Let_def)
qed simp

lemma length_slot_topks_by_rank [simp]: "length (slot_topks_by_rank a rp pks) = length rp"
  by (cases rp) (auto simp: slot_topks_by_rank_def)

lemma length_shrink_alloc [simp]: "length (shrink_alloc b al) = length al"
  by (induction b al rule: shrink_alloc.induct) (subst shrink_alloc.simps, simp add: Let_def)

lemma length_grow_alloc [simp]: "length (grow_alloc b c al) = length al"
  by (induction b c al rule: grow_alloc.induct) (subst grow_alloc.simps, simp add: Let_def)

lemma length_adaptive_alloc [simp]: "length (adaptive_alloc a m ps) = length ps"
  by (simp add: adaptive_alloc_def Let_def)

lemma shrink_alloc_sum: "al \<noteq> [] \<Longrightarrow> sum_list (shrink_alloc b al) \<le> b"
proof (induction b al rule: shrink_alloc.induct)
  case (1 b al)
  show ?case
  proof (cases "b < sum_list al")
    case True
    then show ?thesis using 1 by (subst shrink_alloc.simps) (simp add: Let_def)
  next
    case False
    then show ?thesis by (subst shrink_alloc.simps) simp
  qed
qed

lemma shrink_alloc_upper: "\<forall>x \<in> set al. x \<le> c \<Longrightarrow> \<forall>x \<in> set (shrink_alloc b al). x \<le> c"
proof (induction b al rule: shrink_alloc.induct)
  case (1 b al)
  show ?case
  proof (cases "al \<noteq> [] \<and> b < sum_list al")
    case True
    let ?i = "argmax_first al"
    have "?i < length al" using True argmax_first_less[of al] by simp
    then have "al ! ?i \<le> c" using 1(2) by simp
    then have "\<forall>x \<in> set (al[?i := al ! ?i - 1]). x \<le> c"
      using 1(2) by (auto dest!: set_update_subset_insert[THEN subsetD])
    from 1(1)[OF True refl this] True show ?thesis
      by (subst shrink_alloc.simps) (simp only: if_True Let_def simp_thms)
  next
    case False
    then show ?thesis using 1(2) by (subst shrink_alloc.simps) (simp only: if_False)
  qed
qed

lemma grow_alloc_bounds:
  "sum_list al \<le> b \<Longrightarrow> \<forall>x \<in> set al. x \<le> c \<Longrightarrow>
     sum_list (grow_alloc b c al) \<le> b \<and> (\<forall>x \<in> set (grow_alloc b c al). x \<le> c)"
proof (induction b c al rule: grow_alloc.induct)
  case (1 b c al)
  show ?case
  proof (cases "al \<noteq> [] \<and> sum_list al < b \<and> al ! argmin_first al < c")
    case True
    let ?i = "argmin_first al"
    let ?al = "al[?i := al ! ?i + 1]"
    have i: "?i < length al"
      using True argmax_first_less[of "map uminus al"] by (simp add: argmin_first_def)
    have s: "sum_list ?al \<le> b" using True i by (simp add: sum_list_update_int)
    have m: "\<forall>x \<in> set ?al. x \<le> c"
      using 1(3) True by (auto dest!: set_update_subset_insert[THEN subsetD])
    have eq: "grow_alloc b c al = grow_alloc b c ?al"
      using True by (subst grow_alloc.simps) (simp only: if_True Let_def simp_thms)
    from 1(1)[OF True refl s m] show ?thesis unfolding eq .
  next
    case False
    then have "grow_alloc b c al = al" by (subst grow_alloc.simps) (simp only: if_False)
    with 1(2,3) show ?thesis by (simp only: simp_thms)
  qed
qed

text \<open>
  The uncertainty-proportional allocation of alternatives terminates for every input
  and respects both of its limits: the slots together never get more alternatives than the
  shared pool holds, and no slot gets more than the columns of the top-k tensor.
\<close>

theorem adaptive_alloc_within_pool:
  assumes "pks \<noteq> []"
  shows "sum_list (adaptive_alloc a max_topk pks)
      \<le> int (beam_width a) + int (sum_list (rank_slot_topk a)) - int (length (rank_slot_topk a))
    \<and> (\<forall>x \<in> set (adaptive_alloc a max_topk pks). x \<le> int max_topk - 1)"
proof -
  let ?c = "int max_topk - 1"
  let ?b = "int (beam_width a) + int (sum_list (rank_slot_topk a)) - int (length (rank_slot_topk a))"
  define al where "al = map (\<lambda>r. min (max (np_round r) 1) ?c)
     (map (\<lambda>u. u / sum_list (map (\<lambda>p. max (1/100) (1 - p)) pks) * of_int ?b)
        (map (\<lambda>p. max (1/100) (1 - p)) pks))"
  have ne: "al \<noteq> []" using assms by (simp add: al_def)
  have "\<forall>x \<in> set al. x \<le> ?c" by (auto simp: al_def)
  from grow_alloc_bounds[OF shrink_alloc_sum[OF ne] shrink_alloc_upper[OF this]]
  show ?thesis unfolding adaptive_alloc_def Let_def al_def .
qed

definition default_algo :: algo where
  "default_algo = \<lparr>cfg_K = 4, rank_classes = 4, total_tokens = 60, beam_width = 10, max_blocks = 3,
     tree_K = None, tree_K_bfs = None, rank_slot_topk = RANK_SLOT_TOPK, bfs_slot_topk = None,
     strict_linear = False, strict_linear_nodes = None, diverse_beam = False, coverage_prune = False,
     adaptive_budget = False, protect_d1 = False, protect_d1_n = 3, strat_beam = 0, slot0_beam = 0,
     adaptive_slot0 = 0, adaptive_all = 0, hidden_slot_cap = 0, iter_adapt_budget = 0,
     cond_max_blocks = 0, tree_fixed_n = 0\<rparr>"

theorem adaptive_alloc_within_pool_witness:
  "sum_list (adaptive_alloc default_algo 10 [1/2, 3/4]) \<le> 22"
proof -
  have "[1/2, 3/4 :: rat] \<noteq> []" by simp
  from adaptive_alloc_within_pool[OF this, of default_algo 10] show ?thesis
    by (simp add: default_algo_def RANK_SLOT_TOPK_def)
qed

end
