(* ===== verification/Draft_Tree.thy ===== *)
theory Draft_Tree
  imports Draft_Config
begin

text \<open>
  The draft-tree builder \<open>_build_tree_from_block1\<close> and its helper
  \<open>_vectorized_greedy_chain\<close> (\<open>benchmarks_hf/algorithms/_specblock_base.py\<close>).

  The six parallel buffers \<open>tn_tokens, tn_parents, tn_lps, tn_ranks, tn_blocks, tn_slots\<close>
  and the counter \<open>n_nodes\<close> are one list of node records (entries past \<open>n_nodes\<close> are never
  read); writing the slice \<open>[n_nodes : n_nodes + m]\<close> is appending m nodes.  The parallel
  \<open>pend_*\<close> arrays are one list of pending-leaf records.  The draft network is the parameter
  \<open>fwd\<close>: it maps its own state (hidden states, TTT caches), the block number, the pending
  leaves and their TTT masks to the logits and rank logits of every leaf, or raises.
\<close>

record 'p node =
  nd_token :: token
  nd_parent :: int
  nd_lp :: 'p
  nd_rank :: nat
  nd_block :: nat
  nd_slot :: nat

record 'p pending =
  pd_node :: nat
  pd_lp :: 'p
  pd_token :: token
  pd_hidden :: nat
  pd_ttt_valid :: nat
  pd_batch :: nat
  pd_source :: nat

section \<open>Greedy chains\<close>

definition np_cumsum :: "'p::plus list \<Rightarrow> 'p list" where
  "np_cumsum xs = (case xs of [] \<Rightarrow> [] | x # ys \<Rightarrow> x # cumsum_from x ys)"

text \<open>The N*K nodes of the vectorised write; \<open>ts\<close> is the index of the first of them.\<close>

definition chain_nodes ::
  "nat \<Rightarrow> nat \<Rightarrow> nat \<Rightarrow> ('p::plus) pending list \<Rightarrow> 'p leaf_out list \<Rightarrow> 'p node list" where
  "chain_nodes ts K depth pend outs =
     map (\<lambda>v. let i = v div K; k = v - i * K; out = outs ! i; pd = pend ! i in
            \<lparr>nd_token = greedy_target out ! k,
             nd_parent = (if k = 0 then int (pd_node pd) else int (ts + v) - 1),
             nd_lp = np_cumsum (greedy_lps out) ! k + pd_lp pd,
             nd_rank = Rank_Walk.rank_preds out ! k,
             nd_block = depth,
             nd_slot = k\<rparr>)
       [0..<length pend * K]"

text \<open>
  The in-place compaction loop of the M-truncated variant: valid entries move to the front of
  the written range, and the parent of a moved node is fixed.
\<close>

fun compact_chain ::
  "nat \<Rightarrow> nat \<Rightarrow> 'p pending list \<Rightarrow> nat list \<Rightarrow> 'p node list \<Rightarrow> nat \<Rightarrow> int list list
     \<Rightarrow> 'p node list \<times> nat \<times> int list list" where
  "compact_chain ts K pend [] buf new_pos gm = (buf, new_pos, gm)"
| "compact_chain ts K pend (vi # vis) buf new_pos gm =
     (let leaf_i = vi div K; slot_k = vi mod K;
          moved = (buf ! (ts + vi))
            \<lparr>nd_parent := (if slot_k = 0 then int (pd_node (pend ! leaf_i)) else int new_pos - 1)\<rparr>
      in compact_chain ts K pend vis (buf[new_pos := moved]) (Suc new_pos)
           (gm[leaf_i := (gm ! leaf_i)[slot_k := int new_pos]]))"

definition full_greedy_map :: "nat \<Rightarrow> nat \<Rightarrow> nat \<Rightarrow> int list list" where
  "full_greedy_map ts N K = map (\<lambda>i. map (\<lambda>k. int (ts + i * K + k)) [0..<K]) [0..<N]"

definition vectorized_greedy_chain ::
  "'p::plus node list \<Rightarrow> nat \<Rightarrow> nat \<Rightarrow> 'p pending list \<Rightarrow> 'p leaf_out list \<Rightarrow> nat list option
     \<Rightarrow> 'p node list \<times> int list list" where
  "vectorized_greedy_chain tree K depth pend outs M =
     (let ts = length tree; N = length pend;
          buf = tree @ chain_nodes ts K depth pend outs
      in case M of
           None \<Rightarrow> (buf, full_greedy_map ts N K)
         | Some Ms \<Rightarrow>
             if list_all (\<lambda>m. K \<le> m) Ms then (buf, full_greedy_map ts N K)
             else let valid = filter (\<lambda>v. v mod K < Ms ! (v div K)) [0..<N * K]
                  in if length valid = N * K then (buf, full_greedy_map ts N K)
                     else let (b, n, gm) = compact_chain ts K pend valid buf ts
                                (replicate N (replicate K (- 1)))
                          in (take n b, gm))"

section \<open>Block 1\<close>

text \<open>
  Alternatives of block 1: for every slot of width t > 1, entries 1 .. t-1 of its top-k, as
  pairs (slot, position).
\<close>

definition alt_pairs :: "nat list \<Rightarrow> (nat \<times> nat) list" where
  "alt_pairs topks = concat (map (\<lambda>k. map (\<lambda>w. (k, w)) [1..<topks ! k])
     (positions (\<lambda>t. 1 < t) topks))"

definition block1_chain :: "('p::plus) leaf_out \<Rightarrow> 'p node list" where
  "block1_chain out =
     map (\<lambda>k. \<lparr>nd_token = greedy_target out ! k, nd_parent = int k - 1,
               nd_lp = np_cumsum (greedy_lps out) ! k, nd_rank = Rank_Walk.rank_preds out ! k,
               nd_block = 0, nd_slot = k\<rparr>)
       [0..<length (greedy_target out)]"

definition block1_alts :: "('p::{plus,zero}) leaf_out \<Rightarrow> (nat \<times> nat) list \<Rightarrow> 'p node list" where
  "block1_alts out pairs =
     map (\<lambda>(k, w). \<lparr>nd_token = top_target out ! k ! w, nd_parent = int k - 1,
               nd_lp = (if 0 < k then nd_lp (block1_chain out ! (k - 1)) else 0)
                         + top_lps out ! k ! w,
               nd_rank = Rank_Walk.rank_preds out ! k, nd_block = 0, nd_slot = k\<rparr>) pairs"

text \<open>The nodes of block 1 and the leaves that continue into block 2.\<close>

definition block1_tree :: "('p::{plus,zero}) leaf_out \<Rightarrow> nat list \<Rightarrow> 'p node list" where
  "block1_tree out topks = block1_chain out @ block1_alts out (alt_pairs topks)"

definition block1_pending :: "('p::{plus,zero}) leaf_out \<Rightarrow> nat list \<Rightarrow> 'p pending list" where
  "block1_pending out topks =
     (let K = length (greedy_target out);
          tree = block1_tree out topks;
          active = positions (\<lambda>t. 1 < t) topks;
          pairs = alt_pairs topks;
          pend_g = map (\<lambda>k. \<lparr>pd_node = k, pd_lp = nd_lp (tree ! k), pd_token = greedy_target out ! k,
                             pd_hidden = k, pd_ttt_valid = k + 1, pd_batch = 0, pd_source = 0\<rparr>) active;
          pend_a = map (\<lambda>(j, k, w). \<lparr>pd_node = K + j, pd_lp = nd_lp (tree ! (K + j)),
                             pd_token = top_target out ! k ! w,
                             pd_hidden = k, pd_ttt_valid = k + 1, pd_batch = 0, pd_source = 0\<rparr>)
                     (enumerate 0 pairs);
          pend = pend_g @ pend_a
      in if \<not> leaf_give_up out \<and> 0 < K \<and> K - 1 \<notin> pd_node ` set pend
         then pend @ [\<lparr>pd_node = K - 1, pd_lp = nd_lp (tree ! (K - 1)),
                       pd_token = greedy_target out ! (K - 1),
                       pd_hidden = K - 1, pd_ttt_valid = K, pd_batch = 0, pd_source = 0\<rparr>]
         else pend)"

text \<open>The TTT mask of a pending leaf: it sees the first \<open>ttt_valid\<close> slots of its block.\<close>

definition ttt_mask :: "nat \<Rightarrow> 'p pending \<Rightarrow> bool list" where
  "ttt_mask K pd = map (\<lambda>k. k < pd_ttt_valid pd) [0..<K]"

section \<open>One BFS block\<close>

text \<open>The first give-up slot of a leaf ends its branching, unless give-up has candidates.\<close>

definition stop_at :: "nat \<Rightarrow> nat \<Rightarrow> nat list \<Rightarrow> nat list \<Rightarrow> nat" where
  "stop_at K give_up_class topk_table rp =
     (if 0 < topk_table ! give_up_class then K
      else let gu = map (\<lambda>r. r = give_up_class) (take K rp)
           in if list_ex (\<lambda>b. b) gu
              then argmax_first (map (\<lambda>b. if b then 1 else 0 :: nat) gu) else K)"

definition bfs_slot_widths :: "('p \<Rightarrow> rat) \<Rightarrow> nat \<Rightarrow> nat list \<Rightarrow> 'p leaf_out \<Rightarrow> nat list" where
  "bfs_slot_widths expf mode topk_table out =
     map (\<lambda>(r, lp). bfs_adaptive_topk mode (expf lp) (topk_table ! r))
       (zip (Rank_Walk.rank_preds out) (greedy_lps out))"

text \<open>\<open>np.nonzero(slot_active)\<close>: the (leaf, slot) pairs that branch, row by row.\<close>

definition active_pairs :: "nat \<Rightarrow> nat list list \<Rightarrow> nat list \<Rightarrow> (nat \<times> nat) list" where
  "active_pairs K widths stops =
     concat (map (\<lambda>i. map (\<lambda>k. (i, k)) (filter (\<lambda>k. 1 < widths ! i ! k \<and> k < stops ! i) [0..<K]))
       [0..<length widths])"

definition bfs_alt_triples :: "nat list list \<Rightarrow> (nat \<times> nat) list \<Rightarrow> (nat \<times> nat \<times> nat) list" where
  "bfs_alt_triples widths pairs =
     concat (map (\<lambda>(i, k). map (\<lambda>w. (i, k, w)) [1..<widths ! i ! k]) pairs)"

definition bfs_alts ::
  "nat \<Rightarrow> nat \<Rightarrow> nat \<Rightarrow> ('p::plus) node list \<Rightarrow> 'p pending list \<Rightarrow> 'p leaf_out list
     \<Rightarrow> (nat \<times> nat \<times> nat) list \<Rightarrow> 'p node list" where
  "bfs_alts ts K depth buf pend outs triples =
     map (\<lambda>(i, k, w). let base = ts + i * K; out = outs ! i in
            \<lparr>nd_token = top_target out ! k ! w,
             nd_parent = (if 0 < k then int (base + k) - 1 else int (pd_node (pend ! i))),
             nd_lp = (if 0 < k then nd_lp (buf ! (base + k - 1)) else pd_lp (pend ! i))
                       + top_lps out ! k ! w,
             nd_rank = Rank_Walk.rank_preds out ! k, nd_block = depth, nd_slot = k\<rparr>) triples"

text \<open>Leaves whose chain end g(K-1) is not a branching slot still carry it along.\<close>

definition last_active :: "(nat \<times> nat) list \<Rightarrow> nat \<Rightarrow> int" where
  "last_active pairs i = fold max (map (\<lambda>p. int (snd p)) (filter (\<lambda>p. fst p = i) pairs)) (- 1)"

definition hitch_leaves :: "nat \<Rightarrow> (nat \<times> nat) list \<Rightarrow> nat list \<Rightarrow> nat list" where
  "hitch_leaves K pairs stops =
     filter (\<lambda>i. stops ! i = K \<and> last_active pairs i \<noteq> int K - 1) [0..<length stops]"

definition bfs_next_pending ::
  "nat \<Rightarrow> nat \<Rightarrow> nat \<Rightarrow> nat \<Rightarrow> 'p node list \<Rightarrow> 'p leaf_out list
     \<Rightarrow> (nat \<times> nat) list \<Rightarrow> (nat \<times> nat \<times> nat) list \<Rightarrow> nat list \<Rightarrow> 'p pending list" where
  "bfs_next_pending ts N K base_stats tree outs pairs triples hitch =
     map (\<lambda>(i, k). let v = ts + i * K + k in
            \<lparr>pd_node = v, pd_lp = nd_lp (tree ! v), pd_token = greedy_target (outs ! i) ! k,
             pd_hidden = k, pd_ttt_valid = k + 1, pd_batch = i, pd_source = base_stats + i\<rparr>) pairs
     @ map (\<lambda>(j, i, k, w). let v = ts + N * K + j in
            \<lparr>pd_node = v, pd_lp = nd_lp (tree ! v), pd_token = top_target (outs ! i) ! k ! w,
             pd_hidden = k, pd_ttt_valid = k + 1, pd_batch = i, pd_source = base_stats + i\<rparr>)
         (enumerate 0 triples)
     @ map (\<lambda>i. let v = ts + i * K + K - 1 in
            \<lparr>pd_node = v, pd_lp = nd_lp (tree ! v), pd_token = greedy_target (outs ! i) ! (K - 1),
             pd_hidden = K - 1, pd_ttt_valid = K, pd_batch = i, pd_source = base_stats + i\<rparr>) hitch"

end
