(* ===== verification/Tree_Prune.thy ===== *)
theory Tree_Prune
  imports Draft_Tree "HOL-Library.Monad_Syntax"
begin

text \<open>
  Post-expansion pruning of the draft tree (\<open>_prune_tree_np\<close>, \<open>_prune_tree_coverage_np\<close> and
  the list-based \<open>_prune_tree\<close> of \<open>_specblock_base.py\<close>).

  A Python set of kept indices is a duplicate-free list.  The ancestor walk is a \<open>while\<close> loop
  that follows parent links; it is a partial function into \<open>option\<close>, so a cyclic parent array
  makes it \<open>None\<close>, and every theorem below proves that the result is \<open>Some\<close>.
\<close>

section \<open>Ancestor walks\<close>

text \<open>\<open>while cur >= 0 and cur not in kept: chain.append(cur); cur = parents[cur]\<close>\<close>

partial_function (option) prune_chain :: "int list \<Rightarrow> nat list \<Rightarrow> int \<Rightarrow> nat list option" where
  [code]: "prune_chain ps kept cur =
     (if 0 \<le> cur \<and> nat cur \<notin> set kept
      then Option.bind (prune_chain ps kept (ps ! nat cur)) (\<lambda>c. Some (nat cur # c))
      else Some [])"

text \<open>Parents point strictly backwards, -1 marks a child of the root token.\<close>

definition wf_parents :: "int list \<Rightarrow> bool" where
  "wf_parents ps \<longleftrightarrow> list_all (\<lambda>i. - 1 \<le> ps ! i \<and> ps ! i < int i) [0..<length ps]"

lemma wf_parentsD: "wf_parents ps \<Longrightarrow> i < length ps \<Longrightarrow> - 1 \<le> ps ! i \<and> ps ! i < int i"
  by (auto simp: wf_parents_def list_all_iff)

lemma wf_parentsI: "(\<And>i. i < length ps \<Longrightarrow> - 1 \<le> ps ! i \<and> ps ! i < int i) \<Longrightarrow> wf_parents ps"
  by (auto simp: wf_parents_def list_all_iff)

abbreviation tree_parents :: "'p node list \<Rightarrow> int list" where
  "tree_parents tree \<equiv> map nd_parent tree"

abbreviation wf_tree :: "'p node list \<Rightarrow> bool" where
  "wf_tree tree \<equiv> wf_parents (tree_parents tree)"

definition anc_closed :: "int list \<Rightarrow> nat list \<Rightarrow> bool" where
  "anc_closed ps kept \<longleftrightarrow> list_all (\<lambda>i. ps ! i < 0 \<or> nat (ps ! i) \<in> set kept) kept"

text \<open>The state every pruning loop maintains.\<close>

definition keep_inv :: "int list \<Rightarrow> nat \<Rightarrow> nat list \<Rightarrow> bool" where
  "keep_inv ps budget kept \<longleftrightarrow>
     distinct kept \<and> set kept \<subseteq> {..<length ps} \<and> anc_closed ps kept \<and> length kept \<le> budget"

lemma prune_chain_wf:
  assumes "wf_parents ps" "anc_closed ps kept" "cur < int (length ps)"
  obtains c where "prune_chain ps kept cur = Some c" "distinct c" "set c \<inter> set kept = {}"
    "\<forall>i \<in> set c. int i \<le> cur" "anc_closed ps (kept @ c)"
    "0 \<le> cur \<longrightarrow> nat cur \<in> set kept \<union> set c"
    "c \<noteq> [] \<longleftrightarrow> 0 \<le> cur \<and> nat cur \<notin> set kept"
  using assms(3)
proof (atomize_elim, induction "nat (cur + 1)" arbitrary: cur rule: less_induct)
  case less
  show ?case
  proof (cases "0 \<le> cur \<and> nat cur \<notin> set kept")
    case True
    let ?p = "ps ! nat cur"
    have i: "nat cur < length ps" using True less.prems by auto
    have p: "- 1 \<le> ?p" "?p < cur" using wf_parentsD[OF assms(1) i] True by auto
    then obtain c where c: "prune_chain ps kept ?p = Some c" "distinct c" "set c \<inter> set kept = {}"
        "\<forall>i \<in> set c. int i \<le> ?p" "anc_closed ps (kept @ c)" "0 \<le> ?p \<longrightarrow> nat ?p \<in> set kept \<union> set c"
      using less.hyps[of ?p] True less.prems by auto
    have eq: "prune_chain ps kept cur = Some (nat cur # c)"
      using True c(1) by (subst prune_chain.simps) simp
    moreover have "nat cur \<notin> set c" using c(4) p True by (metis int_nat_eq linorder_not_less)
    then have "distinct (nat cur # c)" using c(2) by simp
    moreover have "set (nat cur # c) \<inter> set kept = {}" using c(3) True by auto
    moreover have "\<forall>i \<in> set (nat cur # c). int i \<le> cur" using c(4) p True by auto
    moreover have "anc_closed ps (kept @ nat cur # c)"
      using c(5,6) by (auto simp: anc_closed_def list_all_iff)
    ultimately show ?thesis using True by (intro exI[of _ "nat cur # c"]) auto
  next
    case False
    then have "prune_chain ps kept cur = Some []" by (subst prune_chain.simps) (simp only: if_False)
    then show ?thesis using False assms(2) by (intro exI[of _ "[]"]) auto
  qed
qed

section \<open>Greedy selection under a budget\<close>

text \<open>
  The selection loop of all three routines.  \<open>skip\<close> is the test that makes the loop continue
  before the ancestor walk: never in the standard loop, a duplicate leaf in the first loop of
  the coverage variant, an already kept node in its second loop.
\<close>

fun greedy_keep ::
  "int list \<Rightarrow> nat \<Rightarrow> (nat list \<Rightarrow> nat \<Rightarrow> bool) \<Rightarrow> nat list \<Rightarrow> nat list \<Rightarrow> nat list option" where
  "greedy_keep ps budget skip [] kept = Some kept"
| "greedy_keep ps budget skip (idx # idxs) kept =
     (if budget \<le> length kept then Some kept
      else if skip kept idx then greedy_keep ps budget skip idxs kept
      else Option.bind (prune_chain ps kept (int idx)) (\<lambda>chain.
        greedy_keep ps budget skip idxs
          (if length kept + length chain \<le> budget then kept @ chain else kept)))"

text \<open>Re-indexing: node i of the result is node \<open>ks ! i\<close> of the input, with its parent renamed.\<close>

definition old_to_new :: "nat list \<Rightarrow> int \<Rightarrow> int" where
  "old_to_new ks p =
     (case map_of (zip (map int ks) [0..<length ks]) p of None \<Rightarrow> - 1 | Some j \<Rightarrow> int j)"

definition compact_kept :: "'p node list \<Rightarrow> nat list \<Rightarrow> 'p node list" where
  "compact_kept tree kept =
     (let ks = sort kept
      in map (\<lambda>old. (tree ! old)\<lparr>nd_parent := old_to_new ks (nd_parent (tree ! old))\<rparr>) ks)"

section \<open>Coverage pruning\<close>

definition tree_leaves :: "int list \<Rightarrow> nat list" where
  "tree_leaves ps = filter (\<lambda>i. int i \<notin> set (filter (\<lambda>p. 0 \<le> p) ps)) [0..<length ps]"

text \<open>The root-to-node token sequence of step 2.\<close>

definition path_tokens :: "'p node list \<Rightarrow> nat \<Rightarrow> token list option" where
  "path_tokens tree leaf =
     Option.bind (prune_chain (tree_parents tree) [] (int leaf))
       (\<lambda>chain. Some (rev (map (\<lambda>i. nd_token (tree ! i)) chain)))"

fun opt_map :: "('a \<Rightarrow> 'b option) \<Rightarrow> 'a list \<Rightarrow> 'b list option" where
  "opt_map f [] = Some []"
| "opt_map f (x # xs) = Option.bind (f x) (\<lambda>y. Option.bind (opt_map f xs) (\<lambda>ys. Some (y # ys)))"

text \<open>Steps 3: of every group of leaves with one token sequence, all but the best.\<close>

definition dup_leaves :: "'p::linorder node list \<Rightarrow> (nat \<times> token list) list \<Rightarrow> nat list" where
  "dup_leaves tree leaf_paths =
     concat (map (\<lambda>seq. tl (sorted_desc (\<lambda>i. nd_lp (tree ! i))
                 (map fst (filter (\<lambda>lp. snd lp = seq) leaf_paths))))
       (remdups (map snd leaf_paths)))"

definition coverage_kept ::
  "('p::linorder list \<Rightarrow> nat list) \<Rightarrow> 'p node list \<Rightarrow> nat \<Rightarrow> nat list option" where
  "coverage_kept srt tree budget =
     (let ps = tree_parents tree; leaves = tree_leaves ps; order = srt (map nd_lp tree)
      in Option.bind (opt_map (path_tokens tree) leaves) (\<lambda>seqs.
         let dups = dup_leaves tree (zip leaves seqs)
         in Option.bind (greedy_keep ps budget (\<lambda>_ i. i \<in> set dups) order []) (\<lambda>kept.
            if length kept < budget then greedy_keep ps budget (\<lambda>k i. i \<in> set k) order kept
            else Some kept)))"

text \<open>\<open>_prune_tree_np\<close>: \<open>srt\<close> is \<open>np.argsort(-lps)\<close>.\<close>

definition prune_tree_np ::
  "('p::linorder list \<Rightarrow> nat list) \<Rightarrow> bool \<Rightarrow> nat \<Rightarrow> 'p node list \<Rightarrow> 'p node list option" where
  "prune_tree_np srt coverage budget tree =
     (if length tree \<le> budget then Some tree
      else map_option (compact_kept tree)
        (if coverage then coverage_kept srt tree budget
         else greedy_keep (tree_parents tree) budget (\<lambda>_ _. False) (srt (map nd_lp tree)) []))"

text \<open>\<open>_prune_tree\<close> on separate lists of (token, parent, cumulative log-probability), ranks and
  (block, slot) pairs.\<close>

definition prune_tree ::
  "(token \<times> int \<times> 'p::linorder) list \<Rightarrow> nat list \<Rightarrow> (nat \<times> nat) list \<Rightarrow> nat
     \<Rightarrow> ((token \<times> int \<times> 'p) list \<times> nat list \<times> (nat \<times> nat) list) option" where
  "prune_tree tree_nodes node_ranks node_block_slots budget =
     (if length tree_nodes \<le> budget then Some (tree_nodes, node_ranks, node_block_slots)
      else Option.bind (greedy_keep (map (\<lambda>(_, p, _). p) tree_nodes) budget (\<lambda>_ _. False)
             (py_argsort_desc (map (\<lambda>(_, _, clp). clp) tree_nodes)) []) (\<lambda>kept.
        let ks = sort kept
        in Some (map (\<lambda>old. case tree_nodes ! old of (tok, parent, clp) \<Rightarrow>
                      (tok, if 0 \<le> parent \<and> parent \<in> set (map int ks) then old_to_new ks parent else - 1, clp)) ks,
                 map (\<lambda>old. node_ranks ! old) ks,
                 map (\<lambda>old. node_block_slots ! old) ks)))"

section \<open>The loops keep their invariant\<close>

lemma keep_inv_Nil [simp]: "keep_inv ps budget []"
  by (simp add: keep_inv_def anc_closed_def)

lemma greedy_keep_inv:
  assumes "wf_parents ps" "set idxs \<subseteq> {..<length ps}" "keep_inv ps budget kept"
  obtains kept' where "greedy_keep ps budget skip idxs kept = Some kept'" "keep_inv ps budget kept'"
    "set kept \<subseteq> set kept'"
  using assms(2,3)
proof (atomize_elim, induction idxs arbitrary: kept)
  case (Cons idx idxs)
  have inv: "distinct kept" "set kept \<subseteq> {..<length ps}" "anc_closed ps kept" "length kept \<le> budget"
    using Cons.prems by (auto simp: keep_inv_def)
  obtain c where c: "prune_chain ps kept (int idx) = Some c" "distinct c" "set c \<inter> set kept = {}"
      "\<forall>i \<in> set c. int i \<le> int idx" "anc_closed ps (kept @ c)"
    by (rule prune_chain_wf[OF assms(1) inv(3), of "int idx"]) (use Cons.prems(1) in auto)
  let ?k = "if length kept + length c \<le> budget then kept @ c else kept"
  have k: "keep_inv ps budget ?k" "set kept \<subseteq> set ?k"
    using inv c Cons.prems(1) by (auto simp: keep_inv_def)
  have sub: "set idxs \<subseteq> {..<length ps}" using Cons.prems(1) by simp
  show ?case
  proof (cases "budget \<le> length kept \<or> skip kept idx")
    case True
    then show ?thesis using Cons.IH[OF sub Cons.prems(2)] Cons.prems(2) sub by auto
  next
    case False
    then have "greedy_keep ps budget skip (idx # idxs) kept = greedy_keep ps budget skip idxs ?k"
      using c(1) by simp
    moreover obtain k' where "greedy_keep ps budget skip idxs ?k = Some k'" "keep_inv ps budget k'"
        "set ?k \<subseteq> set k'"
      using Cons.IH[of ?k] sub k(1) by blast
    ultimately show ?thesis using k(2) by (intro exI[of _ k']) auto
  qed
qed auto

lemma greedy_keep_total:
  assumes "wf_parents ps" "set idxs \<subseteq> {..<length ps}"
  obtains kept where "greedy_keep ps budget skip idxs [] = Some kept" "keep_inv ps budget kept"
  using greedy_keep_inv[OF assms keep_inv_Nil] by blast

lemma opt_map_Some: "(\<And>x. x \<in> set xs \<Longrightarrow> f x \<noteq> None) \<Longrightarrow> \<exists>ys. opt_map f xs = Some ys \<and> length ys = length xs"
  by (induction xs) fastforce+

lemma path_tokens_Some: "wf_tree tree \<Longrightarrow> i < length tree \<Longrightarrow> path_tokens tree i \<noteq> None"
  by (rule prune_chain_wf[of "tree_parents tree" "[]" "int i"])
    (auto simp: path_tokens_def anc_closed_def)

lemma coverage_kept_total:
  assumes "desc_argsort srt" "wf_tree tree"
  obtains kept where "coverage_kept srt tree budget = Some kept"
    "keep_inv (tree_parents tree) budget kept"
proof -
  let ?ps = "tree_parents tree" and ?ord = "srt (map nd_lp tree)"
  have ord: "set ?ord \<subseteq> {..<length ?ps}" using desc_argsort.set_srt[OF assms(1), of "map nd_lp tree"] by simp
  obtain seqs where s: "opt_map (path_tokens tree) (tree_leaves ?ps) = Some seqs"
    using opt_map_Some[of "tree_leaves ?ps" "path_tokens tree"] path_tokens_Some[OF assms(2)]
    by (auto simp: tree_leaves_def)
  let ?d = "dup_leaves tree (zip (tree_leaves ?ps) seqs)"
  obtain k where k: "greedy_keep ?ps budget (\<lambda>_ i. i \<in> set ?d) ?ord [] = Some k" "keep_inv ?ps budget k"
    using greedy_keep_total[OF assms(2) ord] by blast
  obtain k' where k': "greedy_keep ?ps budget (\<lambda>k i. i \<in> set k) ?ord k = Some k'" "keep_inv ?ps budget k'"
    using greedy_keep_inv[OF assms(2) ord k(2)] by blast
  show ?thesis
    using that s k k' by (cases "length k < budget") (simp_all add: coverage_kept_def Let_def)
qed

section \<open>Re-indexing keeps every root path\<close>

lemma old_to_new_in:
  assumes "distinct ks" "j < length ks"
  shows "old_to_new ks (int (ks ! j)) = int j"
proof -
  have "map_of (zip (map int ks) [0..<length ks]) (int (ks ! j)) = Some j"
    using assms by (subst map_of_eq_Some_iff)
      (auto simp: distinct_map inj_on_def in_set_zip intro!: exI[of _ j])
  then show ?thesis by (simp add: old_to_new_def)
qed

lemma old_to_new_out: "p \<notin> set (map int ks) \<Longrightarrow> old_to_new ks p = - 1"
proof -
  assume "p \<notin> set (map int ks)"
  then have "map_of (zip (map int ks) [0..<length ks]) p = None" by (simp add: map_of_zip_is_None)
  then show ?thesis by (simp only: old_to_new_def option.case)
qed

lemma sorted_distinct_nth_less: "sorted ks \<Longrightarrow> distinct ks \<Longrightarrow> i < length ks \<Longrightarrow> j < length ks \<Longrightarrow>
  ks ! i < ks ! j \<longleftrightarrow> i < (j::nat)"
  by (metis linorder_neqE_nat nth_eq_iff_index_eq order_less_asym sorted_nth_mono
      order_le_less order_less_irrefl)

text \<open>The renamed parent of node j: none, or an earlier kept node.\<close>

lemma compact_parent_cases:
  assumes "wf_parents ps" "keep_inv ps b ks" "sorted ks" "j < length ks"
  obtains (root) "ps ! (ks ! j) = - 1" "old_to_new ks (ps ! (ks ! j)) = - 1"
  | (inner) i where "i < j" "ps ! (ks ! j) = int (ks ! i)" "old_to_new ks (ps ! (ks ! j)) = int i"
proof -
  let ?p = "ps ! (ks ! j)"
  have ks: "distinct ks" "set ks \<subseteq> {..<length ps}" "anc_closed ps ks" using assms(2) by (auto simp: keep_inv_def)
  have lt: "ks ! j < length ps" using ks(2) assms(4) by (meson lessThan_iff nth_mem subset_iff)
  have w: "- 1 \<le> ?p" "?p < int (ks ! j)" using wf_parentsD[OF assms(1) lt] by auto
  show ?thesis
  proof (cases "?p < 0")
    case True
    moreover have "?p \<notin> set (map int ks)" using True by auto
    ultimately show ?thesis using root old_to_new_out w by force
  next
    case False
    then have "nat ?p \<in> set ks" using ks(3) assms(4) nth_mem by (fastforce simp: anc_closed_def list_all_iff)
    then obtain i where i: "i < length ks" "ks ! i = nat ?p" by (auto simp: in_set_conv_nth)
    then have "ks ! i < ks ! j" using w False by auto
    then have "i < j" using sorted_distinct_nth_less[OF assms(3) ks(1) i(1) assms(4)] by simp
    moreover have "?p = int (ks ! i)" using i False by simp
    ultimately show ?thesis using inner old_to_new_in[OF ks(1) i(1)] by metis
  qed
qed

definition compact_parents :: "int list \<Rightarrow> nat list \<Rightarrow> int list" where
  "compact_parents ps ks = map (\<lambda>old. old_to_new ks (ps ! old)) ks"

lemma wf_compact_parents:
  assumes "wf_parents ps" "keep_inv ps b ks" "sorted ks"
  shows "wf_parents (compact_parents ps ks)"
proof (rule wf_parentsI)
  fix j assume "j < length (compact_parents ps ks)"
  then have j: "j < length ks" by (simp add: compact_parents_def)
  from assms j show "- 1 \<le> compact_parents ps ks ! j \<and> compact_parents ps ks ! j < int j"
    by (cases rule: compact_parent_cases) (simp_all add: compact_parents_def j)
qed

lemma prune_chain_root: "cur < 0 \<Longrightarrow> prune_chain ps kept cur = Some []"
  by (subst prune_chain.simps) simp

lemma prune_chain_step:
  "prune_chain ps [] (int i) = Option.bind (prune_chain ps [] (ps ! i)) (\<lambda>c. Some (i # c))"
  by (subst prune_chain.simps) simp

lemma compact_chain_paths:
  assumes "wf_parents ps" "keep_inv ps b ks" "sorted ks" "j < length ks"
  shows "prune_chain ps [] (int (ks ! j)) =
    map_option (map (\<lambda>i. ks ! i)) (prune_chain (compact_parents ps ks) [] (int j))"
  using assms(4)
proof (induction j rule: less_induct)
  case (less j)
  have cp: "compact_parents ps ks ! j = old_to_new ks (ps ! (ks ! j))"
    using less.prems by (simp add: compact_parents_def)
  from assms(1-3) less.prems show ?case
  proof (cases rule: compact_parent_cases)
    case root
    then show ?thesis by (simp add: prune_chain_step cp prune_chain_root)
  next
    case (inner i)
    then show ?thesis
      using less.IH[of i] less.prems
      by (simp add: prune_chain_step[of ps "ks ! j"] prune_chain_step[of _ j] cp)
        (cases "prune_chain (compact_parents ps ks) [] (int i)"; simp)
  qed
qed

lemma prune_chain_index:
  assumes "wf_parents ps" "j < length ps" "prune_chain ps [] (int j) = Some c"
  shows "\<forall>i \<in> set c. i < length ps"
proof -
  obtain c' where c': "prune_chain ps [] (int j) = Some c'" "\<forall>i \<in> set c'. int i \<le> int j"
    by (rule prune_chain_wf[OF assms(1), of "[]" "int j"]) (use assms(2) in \<open>auto simp: anc_closed_def\<close>)
  then show ?thesis using assms(2,3) by fastforce
qed

lemma keep_inv_sort [simp]: "keep_inv ps b (sort ks) = keep_inv ps b ks"
  by (simp add: keep_inv_def anc_closed_def list_all_iff)

lemma tree_parents_compact:
  assumes "set ks \<subseteq> {..<length tree}"
  shows "tree_parents (compact_kept tree ks) = compact_parents (tree_parents tree) (sort ks)"
  using assms by (auto simp: compact_kept_def compact_parents_def Let_def)

text \<open>Node j of the compacted tree is node \<open>ks ! j\<close> of the original, on the same root path.\<close>

lemma compact_kept_faithful:
  assumes wf: "wf_tree tree" and k: "keep_inv (tree_parents tree) b ks" and j: "j < length ks"
  shows "path_tokens (compact_kept tree ks) j = path_tokens tree (sort ks ! j)"
    and "(compact_kept tree ks ! j)\<lparr>nd_parent := 0\<rparr> = (tree ! (sort ks ! j))\<lparr>nd_parent := 0\<rparr>"
proof -
  let ?ks = "sort ks" and ?ps = "tree_parents tree"
  let ?cp = "compact_parents ?ps ?ks"
  have sub: "set ks \<subseteq> {..<length tree}" using k by (auto simp: keep_inv_def)
  have tok: "nd_token (compact_kept tree ks ! i) = nd_token (tree ! (?ks ! i))" if "i < length ks" for i
    using that by (simp add: compact_kept_def Let_def)
  have ch: "prune_chain ?ps [] (int (?ks ! j)) = map_option (map (\<lambda>i. ?ks ! i)) (prune_chain ?cp [] (int j))"
    using compact_chain_paths[OF wf, of b ?ks j] k j by simp
  have wfc: "wf_parents ?cp" using wf_compact_parents[OF wf, of b ?ks] k by simp
  have idx: "\<forall>i \<in> set c. i < length ks" if "prune_chain ?cp [] (int j) = Some c" for c
    using prune_chain_index[OF wfc _ that] j by (simp add: compact_parents_def)
  show "path_tokens (compact_kept tree ks) j = path_tokens tree (?ks ! j)"
    unfolding path_tokens_def tree_parents_compact[OF sub] ch
    using idx tok by (cases "prune_chain ?cp [] (int j)") (auto simp: rev_map[symmetric])
  show "(compact_kept tree ks ! j)\<lparr>nd_parent := 0\<rparr> = (tree ! (?ks ! j))\<lparr>nd_parent := 0\<rparr>"
    using j by (simp add: compact_kept_def Let_def)
qed

section \<open>Correctness of pruning\<close>

lemma prune_tree_np_cases:
  assumes "desc_argsort srt" "wf_tree tree"
  obtains (small) "length tree \<le> budget" "prune_tree_np srt coverage budget tree = Some tree"
  | (cut) ks where "budget < length tree" "keep_inv (tree_parents tree) budget ks"
      "prune_tree_np srt coverage budget tree = Some (compact_kept tree ks)"
proof (cases "length tree \<le> budget")
  case False
  have ord: "set (srt (map nd_lp tree)) \<subseteq> {..<length (tree_parents tree)}"
    using desc_argsort.set_srt[OF assms(1), of "map nd_lp tree"] by simp
  obtain k1 where "greedy_keep (tree_parents tree) budget (\<lambda>_ _. False) (srt (map nd_lp tree)) [] = Some k1"
      "keep_inv (tree_parents tree) budget k1"
    using greedy_keep_total[OF assms(2) ord] by blast
  moreover obtain k2 where "coverage_kept srt tree budget = Some k2" "keep_inv (tree_parents tree) budget k2"
    using coverage_kept_total[OF assms] by blast
  ultimately show ?thesis using cut False by (cases coverage) (simp_all add: prune_tree_np_def)
qed (use small in \<open>simp add: prune_tree_np_def\<close>)

text \<open>
  C17.  Pruning always terminates on a well-formed tree, whatever pruning mode and whatever
  order NumPy gives equal scores, and returns a well-formed tree of at most \<open>budget\<close> nodes.
  Node j of the result is node \<open>f j\<close> of the input for a strictly increasing f: it keeps its
  token, score, rank, block and slot, and its root-to-node token sequence is unchanged, so
  every draft path of the pruned tree is a draft path of the full tree.
\<close>

theorem prune_tree_np_sound:
  assumes "desc_argsort srt" "wf_tree tree"
  shows "\<exists>t f. prune_tree_np srt coverage budget tree = Some t
    \<and> length t \<le> budget \<and> wf_tree t \<and> strict_mono_on {..<length t} f
    \<and> (\<forall>j<length t. f j < length tree
        \<and> (t ! j)\<lparr>nd_parent := 0\<rparr> = (tree ! f j)\<lparr>nd_parent := 0\<rparr>
        \<and> path_tokens t j = path_tokens tree (f j) \<and> path_tokens t j \<noteq> None)"
  using assms
proof (cases rule: prune_tree_np_cases[where budget = budget and coverage = coverage])
  case small
  then show ?thesis using path_tokens_Some[OF assms(2)] assms(2)
    by (intro exI[of _ tree] exI[of _ id]) (auto simp: strict_mono_on_def)
next
  case (cut ks)
  let ?t = "compact_kept tree ks"
  have len: "length ?t = length ks" by (simp add: compact_kept_def Let_def)
  have inv: "distinct ks" "set ks \<subseteq> {..<length tree}" "length ks \<le> budget" using cut(2) by (auto simp: keep_inv_def)
  have wf: "wf_tree ?t"
    unfolding tree_parents_compact[OF inv(2)] using wf_compact_parents[OF assms(2), of budget "sort ks"] cut(2) by simp
  have "strict_mono_on {..<length ?t} (\<lambda>j. sort ks ! j)"
    using sorted_distinct_nth_less[of "sort ks"] inv(1) len by (auto simp: strict_mono_on_def)
  moreover have "sort ks ! j < length tree" if "j < length ks" for j
    using inv(2) that nth_mem[of j "sort ks"] by auto
  ultimately show ?thesis
    using cut(3) inv(3) wf len compact_kept_faithful[OF assms(2) cut(2)] path_tokens_Some[OF wf]
    by (intro exI[of _ ?t] exI[of _ "\<lambda>j. sort ks ! j"]) auto
qed

definition witness_tree :: "int node list" where
  "witness_tree = map (\<lambda>(t, p, l). \<lparr>nd_token = t, nd_parent = p, nd_lp = l, nd_rank = 0, nd_block = 0, nd_slot = 0\<rparr>)
     [(11, - 1, - 1), (12, 0, - 3), (13, - 1, - 4), (14, 1, - 5), (12, 2, - 6)]"

lemma wf_witness_tree: "wf_tree witness_tree"
  by code_simp

theorem prune_tree_np_sound_witness:
  "\<exists>t. prune_tree_np py_argsort_desc True 3 witness_tree = Some t \<and> length t \<le> 3 \<and> wf_tree t"
  using prune_tree_np_sound[OF pysort.desc_argsort_axioms wf_witness_tree, where coverage = True and budget = 3]
  by blast

text \<open>With scores that strictly decrease along edges, an ancestor walk never adds more than one node.\<close>

definition scores_decrease :: "'p::linorder node list \<Rightarrow> bool" where
  "scores_decrease tree \<longleftrightarrow>
     list_all (\<lambda>nd. 0 \<le> nd_parent nd \<longrightarrow> nd_lp nd < nd_lp (tree ! nat (nd_parent nd))) tree"

lemma greedy_keep_take:
  assumes wf: "wf_tree tree" and dec: "scores_decrease tree"
    and srt: "desc_argsort srt" and ord: "ord = srt (map nd_lp tree)"
    and m: "m \<le> budget" "m \<le> length tree"
  shows "greedy_keep (tree_parents tree) budget (\<lambda>_ _. False) (drop m ord) (take m ord) = Some (take budget ord)"
  using m
proof (induction "length tree - m" arbitrary: m)
  case 0
  then show ?case using desc_argsort.length_srt[OF srt, of "map nd_lp tree"] by (simp add: ord)
next
  case (Suc k)
  let ?ps = "tree_parents tree" and ?lps = "map nd_lp tree"
  have len: "length ord = length tree" using desc_argsort.length_srt[OF srt, of ?lps] by (simp add: ord)
  have m: "m < length tree" using Suc by simp
  have d: "drop m ord = ord ! m # drop (Suc m) ord" "take (Suc m) ord = take m ord @ [ord ! m]"
    using m len by (simp_all add: Cons_nth_drop_Suc take_Suc_conv_app_nth)
  show ?case
  proof (cases "m < budget")
    case True
    let ?i = "ord ! m"
    have i: "?i < length tree" using desc_argsort.srt_nth_less[OF srt, of m ?lps] m by (simp add: ord)
    have "?i \<notin> set (take m ord)"
      using desc_argsort.distinct_srt[OF srt, of ?lps] m len
      by (auto simp: ord in_set_conv_nth nth_eq_iff_index_eq)
    moreover have "nat (?ps ! ?i) \<in> set (take m ord)" if "0 \<le> ?ps ! ?i"
    proof -
      let ?p = "nat (?ps ! ?i)"
      have lp: "nd_lp (tree ! ?i) < nd_lp (tree ! ?p)"
        using dec i that by (auto simp: scores_decrease_def list_all_length)
      have "?p < length tree" using wf_parentsD[OF wf, of ?i] i that by auto
      then obtain a where a: "a < length ord" "ord ! a = ?p"
        using desc_argsort.set_srt[OF srt, of ?lps] by (metis in_set_conv_nth length_map lessThan_iff ord)
      have "a < m"
      proof (rule ccontr)
        assume "\<not> a < m"
        then have "m < a" using a lp by (cases "a = m") auto
        then have "?lps ! (ord ! a) \<le> ?lps ! (ord ! m)"
          using desc_argsort.desc_srt[OF srt, of m a ?lps] a(1) len by (simp add: ord)
        then show False using lp a i \<open>?p < length tree\<close> by simp
      qed
      then show ?thesis using a by (auto simp: in_set_conv_nth)
    qed
    ultimately have "prune_chain ?ps (take m ord) (int ?i) = Some [?i]"
      by (subst prune_chain.simps, subst prune_chain.simps) auto
    then have "greedy_keep ?ps budget (\<lambda>_ _. False) (drop m ord) (take m ord)
       = greedy_keep ?ps budget (\<lambda>_ _. False) (drop (Suc m) ord) (take (Suc m) ord)"
      using True m len by (simp add: d)
    then show ?thesis using Suc True m by simp
  next
    case False
    then have "m = budget" using Suc.prems by simp
    then show ?thesis using m len unfolding d(1) by simp
  qed
qed

text \<open>
  C18.  With coverage pruning off, for a well-formed tree larger than the budget in which
  log-probabilities strictly decrease along every edge, and any descending argsort: pruning keeps
  exactly the \<open>budget\<close> best nodes, that is, no dropped node scores higher than a kept one and the
  budget is used up.  (Coverage pruning first
  drops the leaves that repeat the tokens of another path, and does not have this property.)
\<close>

theorem prune_tree_np_best:
  assumes "desc_argsort srt" "wf_tree tree" "scores_decrease tree" "budget < length tree"
  shows "\<exists>ks. prune_tree_np srt False budget tree = Some (compact_kept tree ks)
    \<and> length ks = budget \<and> distinct ks \<and> set ks \<subseteq> {..<length tree}
    \<and> (\<forall>i \<in> set ks. \<forall>j<length tree. j \<notin> set ks \<longrightarrow> nd_lp (tree ! j) \<le> nd_lp (tree ! i))"
proof -
  let ?lps = "map nd_lp tree"
  let ?ord = "srt ?lps"
  let ?ks = "take budget ?ord"
  have len: "length ?ord = length tree" using desc_argsort.length_srt[OF assms(1), of ?lps] by simp
  have st: "set ?ord = {..<length tree}" using desc_argsort.set_srt[OF assms(1), of ?lps] by simp
  have "prune_tree_np srt False budget tree = Some (compact_kept tree ?ks)"
    using greedy_keep_take[OF assms(2,3,1) refl, of 0 budget] assms(4) by (simp add: prune_tree_np_def)
  moreover have "nd_lp (tree ! j) \<le> nd_lp (tree ! i)"
    if i: "i \<in> set ?ks" and j: "j < length tree" "j \<notin> set ?ks" for i j
  proof -
    obtain a where a: "a < budget" "a < length tree" "?ord ! a = i"
      using i len by (auto simp: in_set_conv_nth)
    obtain b where b: "b < length tree" "?ord ! b = j"
      using j(1) st len by (metis in_set_conv_nth lessThan_iff)
    have "\<not> b < budget" using j(2) b len by (auto simp: in_set_conv_nth)
    then have "?lps ! (?ord ! b) \<le> ?lps ! (?ord ! a)"
      using desc_argsort.desc_srt[OF assms(1), of a b ?lps] a b by simp
    moreover have "i < length tree" using a(3) st len a(2) nth_mem by (metis lessThan_iff)
    ultimately show ?thesis using a b j(1) by simp
  qed
  moreover have "set ?ks \<subseteq> {..<length tree}" using st set_take_subset[of budget ?ord] by simp
  ultimately show ?thesis
    using len assms(4) desc_argsort.distinct_srt[OF assms(1), of ?lps]
    by (intro exI[of _ ?ks]) auto
qed

theorem prune_tree_np_best_witness:
  "\<exists>ks. prune_tree_np py_argsort_desc False 3 witness_tree = Some (compact_kept witness_tree ks)
     \<and> length ks = 3"
proof -
  have "scores_decrease witness_tree" "3 < length witness_tree" by code_simp+
  from prune_tree_np_best[OF pysort.desc_argsort_axioms wf_witness_tree this]
  show ?thesis by blast
qed

text \<open>
  The list-based \<open>_prune_tree\<close> and the NumPy \<open>_prune_tree_np\<close> (coverage off, stable
  order) compute the same tree, ranks and (block, slot) pairs.
\<close>

theorem prune_tree_equiv_np:
  assumes "wf_tree tree"
  shows "prune_tree (map (\<lambda>nd. (nd_token nd, nd_parent nd, nd_lp nd)) tree) (map nd_rank tree)
      (map (\<lambda>nd. (nd_block nd, nd_slot nd)) tree) budget =
    map_option (\<lambda>t. (map (\<lambda>nd. (nd_token nd, nd_parent nd, nd_lp nd)) t, map nd_rank t,
        map (\<lambda>nd. (nd_block nd, nd_slot nd)) t))
      (prune_tree_np py_argsort_desc False budget tree)"
proof -
  obtain ks where ks: "greedy_keep (tree_parents tree) budget (\<lambda>_ _. False)
        (py_argsort_desc (map nd_lp tree)) [] = Some ks" "keep_inv (tree_parents tree) budget ks"
    using greedy_keep_total[OF assms, of "py_argsort_desc (map nd_lp tree)"] pysort.set_srt[of "map nd_lp tree"]
    by (metis length_map order_refl)
  have sub: "i < length tree" if "i \<in> set ks" for i using ks(2) that by (auto simp: keep_inv_def)
  have m: "map (\<lambda>(_, p, _). p) (map (\<lambda>nd. (nd_token nd, nd_parent nd, nd_lp nd)) tree) = tree_parents tree"
    "map (\<lambda>(_, _, l). l) (map (\<lambda>nd. (nd_token nd, nd_parent nd, nd_lp nd)) tree) = map nd_lp tree"
    by simp_all
  have o: "old_to_new (sort ks) p = - 1" if "\<not> 0 \<le> p \<or> p \<notin> int ` set ks" for p
    using that by (intro old_to_new_out) auto
  show ?thesis
    unfolding prune_tree_def prune_tree_np_def m ks(1) Let_def
    using sub by (simp add: compact_kept_def Let_def comp_def) (auto intro!: o[symmetric])
qed

theorem prune_tree_equiv_np_witness:
  "prune_tree [(7, - 1, - 1), (8, 0, - 2), (9, - 1, - 3 :: int)] [0, 1, 2] [(0, 0), (0, 1), (0, 0)] 2
     = Some ([(7, - 1, - 1), (8, 0, - 2)], [0, 1], [(0, 0), (0, 1)])"
proof -
  define t :: "int node list" where
    "t = map (\<lambda>(t, p, l, r, k). \<lparr>nd_token = t, nd_parent = p, nd_lp = l, nd_rank = r, nd_block = 0, nd_slot = k\<rparr>)
       [(7, - 1, - 1, 0, 0), (8, 0, - 2, 1, 1), (9, - 1, - 3, 2, 0)]"
  have "wf_tree t" unfolding t_def by code_simp
  from prune_tree_equiv_np[OF this, of 2]
  have "prune_tree [(7, - 1, - 1), (8, 0, - 2), (9, - 1, - 3 :: int)] [0, 1, 2] [(0, 0), (0, 1), (0, 0)] 2
    = map_option (\<lambda>t. (map (\<lambda>nd. (nd_token nd, nd_parent nd, nd_lp nd)) t, map nd_rank t,
        map (\<lambda>nd. (nd_block nd, nd_slot nd)) t)) (prune_tree_np py_argsort_desc False 2 t)"
    by (simp add: t_def)
  also have "\<dots> = Some ([(7, - 1, - 1), (8, 0, - 2)], [0, 1], [(0, 0), (0, 1)])"
    unfolding t_def by code_simp
  finally show ?thesis .
qed

end
