(* ===== verification/Tree_Buffers.thy ===== *)
theory Tree_Buffers
  imports Tree_Prune "HOL-Library.List_Lexorder"
begin

text \<open>
  Conversion of the flat draft tree into the tensors of the target verification
  (\<open>build_tree_buffers_triton\<close> and its two Triton kernels, \<open>_validate_strict_linear_tree\<close>).

  Node 0 is the root (the last verified token), draft node i is node i + 1.  Each kernel
  program walks at most \<open>MAX_TREE_DEPTH + 1\<close> parent links; the specification follows the
  parent links to the root without a bound, and the theorems hold for trees whose depth is
  at most \<open>MAX_TREE_DEPTH\<close>.  A float mask of zeros and ones is a Boolean matrix.
\<close>

definition MAX_TREE_DEPTH :: nat where
  "MAX_TREE_DEPTH = 20"

definition shift_parents :: "int list \<Rightarrow> nat list" where
  "shift_parents ps = 0 # map (\<lambda>p. if 0 \<le> p then nat (p + 1) else 0) ps"

section \<open>The kernels\<close>

fun depth_mask_walk :: "nat \<Rightarrow> nat list \<Rightarrow> nat \<Rightarrow> nat \<Rightarrow> bool list \<Rightarrow> nat \<times> bool list" where
  "depth_mask_walk 0 par cur depth row = (depth, row)"
| "depth_mask_walk (Suc n) par cur depth row =
     (let row' = row[cur := True]; parent = par ! cur; is_root = (cur = 0)
      in depth_mask_walk n par (if is_root then 0 else parent)
           (depth + (if is_root then 0 else 1)) row')"

definition tree_depth_mask_kernel :: "nat list \<Rightarrow> nat \<Rightarrow> nat \<times> bool list" where
  "tree_depth_mask_kernel par pid =
     depth_mask_walk (MAX_TREE_DEPTH + 1) par pid 0 (replicate (length par) False)"

fun retrieve_walk :: "nat \<Rightarrow> nat list \<Rightarrow> nat \<Rightarrow> nat \<Rightarrow> nat \<Rightarrow> int list \<Rightarrow> int list" where
  "retrieve_walk 0 par leaf_depth d cur row = row"
| "retrieve_walk (Suc n) par leaf_depth d cur row =
     (let row' = (if d \<le> leaf_depth then row[leaf_depth - d := int cur] else row);
          parent = par ! cur
      in retrieve_walk n par leaf_depth (Suc d) (if 0 < cur then parent else cur) row')"

definition tree_retrieve_kernel :: "nat list \<Rightarrow> nat list \<Rightarrow> nat \<Rightarrow> nat \<Rightarrow> int list" where
  "tree_retrieve_kernel par depths max_depth leaf =
     retrieve_walk (MAX_TREE_DEPTH + 1) par (depths ! leaf) 0 leaf (replicate (max_depth + 1) (- 1))"

record tree_buf =
  tb_tokens :: "token list"
  tb_mask :: "bool list list"
  tb_pos :: "nat list"
  tb_retrieve :: "int list list"

definition buffer_leaves :: "nat list \<Rightarrow> nat list" where
  "buffer_leaves par = filter (\<lambda>i. i \<notin> set (List.tl par)) [0..<length par]"

definition build_tree_buffers :: "token \<Rightarrow> token list \<Rightarrow> int list \<Rightarrow> tree_buf" where
  "build_tree_buffers sample_token tokens ps =
     (let par = shift_parents ps; Np1 = length par;
          dm = map (tree_depth_mask_kernel par) [0..<Np1];
          depths = map fst dm;
          leaves = buffer_leaves par;
          max_depth = Max (set depths);
          ri = map (tree_retrieve_kernel par depths max_depth) leaves;
          maxitem = int Np1 + 5
      in \<lparr>tb_tokens = sample_token # tokens,
          tb_mask = map snd dm,
          tb_pos = depths,
          tb_retrieve = sort_key (map (\<lambda>x. if 0 \<le> x then x else maxitem)) ri\<rparr>)"

text \<open>\<open>_validate_strict_linear_tree\<close>: one root-to-leaf path and the causal mask.\<close>

definition validate_strict_linear_tree :: "nat \<Rightarrow> tree_buf \<Rightarrow> tree_buf res" where
  "validate_strict_linear_tree strict_nodes b =
     (let expected_width = strict_nodes + 1; width = length (tb_tokens b);
          expected_path = map int [0..<width];
          expected_mask = map (\<lambda>i. map (\<lambda>j. j \<le> i) [0..<width]) [0..<width];
          retrieve_path_ok =
            (length (tb_retrieve b) = 1 \<and> width \<le> length (tb_retrieve b ! 0)
             \<and> take width (tb_retrieve b ! 0) = expected_path
             \<and> list_all (\<lambda>x. x = - 1) (drop width (tb_retrieve b ! 0)))
      in if width \<noteq> expected_width \<or> \<not> retrieve_path_ok \<or> tb_mask b \<noteq> expected_mask
            \<or> tb_pos b \<noteq> [0..<width]
         then Inl RuntimeError else Inr b)"

section \<open>The specification: paths to the root\<close>

definition wf_par :: "nat list \<Rightarrow> bool" where
  "wf_par par \<longleftrightarrow> par \<noteq> [] \<and> list_all (\<lambda>i. par ! i < i) [1..<length par]"

lemma wf_parD: "wf_par par \<Longrightarrow> 0 < i \<Longrightarrow> i < length par \<Longrightarrow> par ! i < i"
  by (auto simp: wf_par_def list_all_iff)

lemma wf_shift_parents [simp]: "wf_parents ps \<Longrightarrow> wf_par (shift_parents ps)"
proof -
  assume "wf_parents ps"
  then have "shift_parents ps ! i < i" if "1 \<le> i" "i < length (shift_parents ps)" for i
    using that wf_parentsD[of ps "i - 1"] by (cases i) (auto simp: shift_parents_def)
  moreover have "shift_parents ps \<noteq> []" by (simp add: shift_parents_def)
  ultimately show ?thesis by (simp add: wf_par_def list_all_iff)
qed

function path_to_root :: "nat list \<Rightarrow> nat \<Rightarrow> nat list" where
  "path_to_root par i = (if 0 < i \<and> par ! i < i then i # path_to_root par (par ! i) else [i])"
  by pat_completeness auto
termination by (relation "measure snd") auto

declare path_to_root.simps [simp del]

definition node_depth :: "nat list \<Rightarrow> nat \<Rightarrow> nat" where
  "node_depth par i = length (path_to_root par i) - 1"

lemma path_to_root_0 [simp]: "path_to_root par 0 = [0]"
  by (simp add: path_to_root.simps)

lemma path_to_root_step:
  "wf_par par \<Longrightarrow> 0 < i \<Longrightarrow> i < length par \<Longrightarrow> path_to_root par i = i # path_to_root par (par ! i)"
  using wf_parD by (subst path_to_root.simps) simp

lemma path_to_root_ne [simp]: "path_to_root par i \<noteq> []"
  by (subst path_to_root.simps) simp

lemma path_to_root_bound: "\<forall>j \<in> set (path_to_root par i). j \<le> i"
proof (induction par i rule: path_to_root.induct)
  case (1 par i)
  then show ?case by (subst path_to_root.simps) (fastforce split: if_splits)
qed

lemma node_depth_0 [simp]: "node_depth par 0 = 0"
  by (simp add: node_depth_def)

lemma node_depth_step:
  assumes "wf_par par" "0 < i" "i < length par"
  shows "node_depth par i = Suc (node_depth par (par ! i))"
proof -
  have "length (path_to_root par (par ! i)) \<noteq> 0" by simp
  then show ?thesis using path_to_root_step[OF assms] by (simp add: node_depth_def)
qed

lemma length_path_to_root: "length (path_to_root par i) = Suc (node_depth par i)"
  using path_to_root_ne[of par i] by (simp add: node_depth_def del: path_to_root_ne)

lemma node_depth_le: "wf_par par \<Longrightarrow> i < length par \<Longrightarrow> node_depth par i \<le> i"
proof (induction i rule: less_induct)
  case (less i)
  show ?case
  proof (cases i)
    case (Suc k)
    have p: "par ! i < i" using wf_parD[OF less.prems(1) _ less.prems(2)] Suc by simp
    have "node_depth par (par ! i) \<le> par ! i" using less.IH[OF p less.prems(1)] p less.prems(2) by simp
    then show ?thesis using node_depth_step[OF less.prems(1) _ less.prems(2)] Suc p by simp
  qed simp
qed

section \<open>The kernels implement the specification\<close>

lemma depth_mask_walk_correct:
  assumes "wf_par par" "cur < length par" "length row = length par" "node_depth par cur < n"
  shows "depth_mask_walk n par cur depth row =
    (depth + node_depth par cur,
     map (\<lambda>j. row ! j \<or> j \<in> set (path_to_root par cur)) [0..<length par])"
  using assms(2-)
proof (induction n arbitrary: cur depth row)
  case (Suc n)
  have l: "length par \<noteq> 0" using assms(1) by (simp add: wf_par_def)
  show ?case
  proof (cases "cur = 0")
    case True
    have stay: "depth_mask_walk n par 0 depth row' = (depth, row')"
      if "row' ! 0" "length row' = length par" for n row'
    proof -
      have "row'[0 := True] = row'" using that l by (cases row') auto
      then show ?thesis by (induction n) (simp_all add: Let_def)
    qed
    show ?thesis using True Suc.prems l
      by (cases row) (auto simp: Let_def stay nth_Cons' intro!: nth_equalityI)
  next
    case False
    let ?p = "par ! cur"
    have p: "?p < length par" using wf_parD[OF assms(1), of cur] False Suc.prems by simp
    have d: "node_depth par cur = Suc (node_depth par ?p)"
      and path: "path_to_root par cur = cur # path_to_root par ?p"
      using node_depth_step[OF assms(1)] path_to_root_step[OF assms(1)] False Suc.prems by auto
    have "depth_mask_walk (Suc n) par cur depth row
        = depth_mask_walk n par ?p (Suc depth) (row[cur := True])"
      using False by (simp add: Let_def)
    also have "\<dots> = (Suc depth + node_depth par ?p,
        map (\<lambda>j. row[cur := True] ! j \<or> j \<in> set (path_to_root par ?p)) [0..<length par])"
      using Suc.IH[of ?p "row[cur := True]" "Suc depth"] p Suc.prems d by simp
    also have "\<dots> = (depth + node_depth par cur,
        map (\<lambda>j. row ! j \<or> j \<in> set (path_to_root par cur)) [0..<length par])"
      using d path Suc.prems by (auto simp: nth_list_update)
    finally show ?thesis .
  qed
qed simp

lemma tree_depth_mask_kernel_correct:
  assumes "wf_par par" "i < length par" "node_depth par i \<le> MAX_TREE_DEPTH"
  shows "tree_depth_mask_kernel par i =
    (node_depth par i, map (\<lambda>j. j \<in> set (path_to_root par i)) [0..<length par])"
  using depth_mask_walk_correct[OF assms(1,2), of "replicate (length par) False" "MAX_TREE_DEPTH + 1" 0] assms(3)
  by (simp add: tree_depth_mask_kernel_def)

text \<open>The row of a leaf: its root path in root-to-leaf order, padded with -1.\<close>

definition leaf_row :: "nat list \<Rightarrow> nat \<Rightarrow> nat \<Rightarrow> int list" where
  "leaf_row par max_depth leaf =
     (let p = map int (rev (path_to_root par leaf))
      in p @ replicate (max_depth + 1 - length p) (- 1))"

lemma retrieve_walk_stop: "leaf_depth < d \<Longrightarrow> retrieve_walk n par leaf_depth d cur row = row"
  by (induction n arbitrary: d cur) (simp_all add: Let_def)

lemma retrieve_walk_correct:
  assumes "wf_par par" "cur < length par" "node_depth par cur < n"
    and "d + node_depth par cur = leaf_depth" "leaf_depth < length row"
  shows "retrieve_walk n par leaf_depth d cur row =
    map int (rev (path_to_root par cur)) @ drop (Suc (node_depth par cur)) row"
  using assms(2-)
proof (induction n arbitrary: cur d row)
  case (Suc n)
  let ?c = "leaf_depth - d" and ?row = "row[leaf_depth - d := int cur]"
  have c: "?c = node_depth par cur" using Suc.prems by simp
  show ?case
  proof (cases "cur = 0")
    case True
    then have "retrieve_walk (Suc n) par leaf_depth d cur row = ?row"
      using Suc.prems retrieve_walk_stop[of leaf_depth "Suc d" n par 0] by (simp add: Let_def)
    then show ?thesis using True Suc.prems by (cases row) auto
  next
    case False
    let ?p = "par ! cur"
    have p: "?p < length par" using wf_parD[OF assms(1), of cur] False Suc.prems by simp
    have d: "node_depth par cur = Suc (node_depth par ?p)"
      and path: "path_to_root par cur = cur # path_to_root par ?p"
      using node_depth_step[OF assms(1)] path_to_root_step[OF assms(1)] False Suc.prems by auto
    have "retrieve_walk (Suc n) par leaf_depth d cur row = retrieve_walk n par leaf_depth (Suc d) ?p ?row"
      using False Suc.prems by (simp add: Let_def)
    also have "\<dots> = map int (rev (path_to_root par ?p)) @ drop (Suc (node_depth par ?p)) ?row"
      using Suc.IH[of ?p "Suc d" ?row] p d Suc.prems by simp
    also have "drop (Suc (node_depth par ?p)) ?row = int cur # drop (Suc (node_depth par cur)) row"
      using d c Suc.prems by (simp add: drop_update_swap Cons_nth_drop_Suc[symmetric])
    finally show ?thesis using path by simp
  qed
qed simp

lemma tree_retrieve_kernel_correct:
  assumes "wf_par par" "leaf < length par" "node_depth par leaf \<le> MAX_TREE_DEPTH"
    "depths ! leaf = node_depth par leaf" "node_depth par leaf \<le> max_depth"
  shows "tree_retrieve_kernel par depths max_depth leaf = leaf_row par max_depth leaf"
proof -
  have "tree_retrieve_kernel par depths max_depth leaf =
      map int (rev (path_to_root par leaf))
      @ drop (Suc (node_depth par leaf)) (replicate (max_depth + 1) (- 1))"
    unfolding tree_retrieve_kernel_def
    using assms by (intro retrieve_walk_correct) auto
  then show ?thesis by (simp add: leaf_row_def Let_def length_path_to_root del: replicate.simps)
qed

lemma buffer_leaves_less: "leaf \<in> set (buffer_leaves par) \<Longrightarrow> leaf < length par"
  by (simp add: buffer_leaves_def)

definition shallow :: "nat list \<Rightarrow> bool" where
  "shallow par \<longleftrightarrow> list_all (\<lambda>i. node_depth par i \<le> MAX_TREE_DEPTH) [0..<length par]"

definition tree_height :: "nat list \<Rightarrow> nat" where
  "tree_height par = Max (set (map (node_depth par) [0..<length par]))"

lemma node_depth_le_height: "i < length par \<Longrightarrow> node_depth par i \<le> tree_height par"
  by (auto simp: tree_height_def intro: Max_ge)

lemma build_tree_buffers_eq:
  assumes "wf_parents ps" "shallow (shift_parents ps)"
  shows "build_tree_buffers s toks ps =
    (let par = shift_parents ps in
     \<lparr>tb_tokens = s # toks,
      tb_mask = map (\<lambda>i. map (\<lambda>j. j \<in> set (path_to_root par i)) [0..<length par]) [0..<length par],
      tb_pos = map (node_depth par) [0..<length par],
      tb_retrieve = sort_key (map (\<lambda>x. if 0 \<le> x then x else int (length par) + 5))
        (map (leaf_row par (tree_height par)) (buffer_leaves par))\<rparr>)"
proof -
  define par where "par = shift_parents ps"
  have wf: "wf_par par" using assms(1) by (simp add: par_def)
  have k: "tree_depth_mask_kernel par i =
      (node_depth par i, map (\<lambda>j. j \<in> set (path_to_root par i)) [0..<length par])"
    if "i < length par" for i
    using tree_depth_mask_kernel_correct[OF wf that] assms(2) that
    by (simp add: shallow_def list_all_iff par_def)
  have dm: "map fst (map (tree_depth_mask_kernel par) [0..<length par]) = map (node_depth par) [0..<length par]"
    "map snd (map (tree_depth_mask_kernel par) [0..<length par]) =
      map (\<lambda>i. map (\<lambda>j. j \<in> set (path_to_root par i)) [0..<length par]) [0..<length par]"
    using k by simp_all
  have ri: "map (tree_retrieve_kernel par (map (node_depth par) [0..<length par]) (tree_height par)) (buffer_leaves par)
      = map (leaf_row par (tree_height par)) (buffer_leaves par)"
    using assms(2) wf
    by (auto intro!: tree_retrieve_kernel_correct node_depth_le_height dest: buffer_leaves_less
        simp: shallow_def list_all_iff par_def)
  show ?thesis
    unfolding build_tree_buffers_def Let_def par_def[symmetric] dm tree_height_def[symmetric] ri by (rule refl)
qed

text \<open>Draft node i is buffer node i + 1, and its root path is the one the pruning loops walk.\<close>

lemma path_to_root_shift:
  assumes "wf_parents ps" "i < length ps"
  shows "map_option (\<lambda>c. map Suc c @ [0]) (prune_chain ps [] (int i)) =
    Some (path_to_root (shift_parents ps) (Suc i))"
  using assms(2)
proof (induction i rule: less_induct)
  case (less i)
  let ?par = "shift_parents ps"
  have w: "- 1 \<le> ps ! i" "ps ! i < int i" using wf_parentsD[OF assms(1) less.prems] by auto
  have step: "path_to_root ?par (Suc i) = Suc i # path_to_root ?par (?par ! Suc i)"
    using path_to_root_step[OF wf_shift_parents[OF assms(1)], of "Suc i"] less.prems by (simp add: shift_parents_def)
  show ?case
  proof (cases "ps ! i < 0")
    case True
    then have "?par ! Suc i = 0" using less.prems by (simp add: shift_parents_def)
    then show ?thesis using True step by (simp add: prune_chain_step prune_chain_root)
  next
    case False
    then have p: "nat (ps ! i) < i" "?par ! Suc i = Suc (nat (ps ! i))" "ps ! i = int (nat (ps ! i))"
      using w less.prems by (auto simp: shift_parents_def)
    from less.IH[OF p(1)] p less.prems obtain c where
      "prune_chain ps [] (ps ! i) = Some c" "map Suc c @ [0] = path_to_root ?par (Suc (nat (ps ! i)))"
      by (auto simp: map_option_case split: option.splits)
    then show ?thesis using step p by (simp add: prune_chain_step)
  qed
qed

lemma path_tokens_row:
  assumes "wf_tree tree" "i < length tree"
  shows "path_tokens tree i = Some (List.tl (map (\<lambda>j. (s # map nd_token tree) ! j)
      (rev (path_to_root (shift_parents (tree_parents tree)) (Suc i)))))"
proof -
  obtain c where c: "prune_chain (tree_parents tree) [] (int i) = Some c"
    "path_to_root (shift_parents (tree_parents tree)) (Suc i) = map Suc c @ [0]"
    using path_to_root_shift[OF assms(1), of i] assms(2) by auto
  moreover have "\<forall>j \<in> set c. j < length tree"
    using prune_chain_index[OF assms(1) _ c(1)] assms(2) by simp
  ultimately show ?thesis by (simp add: path_tokens_def rev_map[symmetric] comp_def)
qed

text \<open>
  C16.  For every well-formed draft tree of depth at most 20, the Triton kernels and the buffer
  construction produce exactly what target verification needs: node i attends to node j
  precisely when j lies on i's path to the root, the position offset of a node is its depth,
  and the retrieve rows are exactly the root-to-leaf paths, padded with -1 to one common
  width, one row per leaf.
\<close>

theorem build_tree_buffers_correct:
  assumes "wf_parents ps" "shallow (shift_parents ps)" "length toks = length ps"
    and "b = build_tree_buffers s toks ps" "par = shift_parents ps"
  shows "tb_tokens b = s # toks
    \<and> (\<forall>i<length par. \<forall>j<length par. tb_mask b ! i ! j \<longleftrightarrow> j \<in> set (path_to_root par i))
    \<and> (\<forall>i<length par. tb_pos b ! i = length (path_to_root par i) - 1)
    \<and> set (tb_retrieve b) = leaf_row par (tree_height par) ` set (buffer_leaves par)
    \<and> length (tb_retrieve b) = length (buffer_leaves par)"
  unfolding assms(4) build_tree_buffers_eq[OF assms(1,2)] Let_def assms(5)
  by (simp add: node_depth_def del: upt_Suc)

theorem build_tree_buffers_correct_witness:
  "set (tb_retrieve (build_tree_buffers 5 [11, 12, 13] [- 1, 0, - 1])) = {[0, 1, 2], [0, 3, - 1]}"
proof -
  have h: "wf_parents [- 1, 0, - 1]" "shallow (shift_parents [- 1, 0, - 1])" by code_simp+
  have e: "leaf_row (shift_parents [- 1, 0, - 1]) (tree_height (shift_parents [- 1, 0, - 1]))
      ` set (buffer_leaves (shift_parents [- 1, 0, - 1])) = {[0, 1, 2], [0, 3, - 1]}"
    by code_simp
  show ?thesis
    using build_tree_buffers_correct[OF h, of "[11, 12, 13]" _ 5] e by simp
qed

text \<open>
  A walk that ends before the root: every step moves to the parent, so the walk sees the first
  nodes of the root path only.
\<close>

lemma deep_node:
  assumes "wf_par par" "cur < length par" "Suc n \<le> node_depth par cur"
  shows "0 < cur" "par ! cur < length par" "n \<le> node_depth par (par ! cur)"
    "path_to_root par cur = cur # path_to_root par (par ! cur)"
proof -
  show pos: "0 < cur" using assms(3) by (cases cur) simp_all
  show "par ! cur < length par" using wf_parD[OF assms(1) pos assms(2)] assms(2) by simp
  show "n \<le> node_depth par (par ! cur)" using node_depth_step[OF assms(1) pos assms(2)] assms(3) by simp
  show "path_to_root par cur = cur # path_to_root par (par ! cur)" by (rule path_to_root_step[OF assms(1) pos assms(2)])
qed

lemma depth_mask_walk_deep:
  assumes "wf_par par" "cur < length par" "length row = length par" "n \<le> node_depth par cur"
  shows "depth_mask_walk n par cur depth row =
    (depth + n, map (\<lambda>j. row ! j \<or> j \<in> set (take n (path_to_root par cur))) [0..<length par])
    \<and> 0 \<notin> set (take n (path_to_root par cur))"
  using assms(2-)
proof (induction n arbitrary: cur depth row)
  case 0
  then show ?case by (auto intro!: nth_equalityI)
next
  case (Suc n)
  note d = deep_node[OF assms(1) Suc.prems(1,3)]
  have "depth_mask_walk n par (par ! cur) (Suc depth) (row[cur := True])
      = (Suc depth + n, map (\<lambda>j. row[cur := True] ! j \<or> j \<in> set (take n (path_to_root par (par ! cur)))) [0..<length par])
      \<and> 0 \<notin> set (take n (path_to_root par (par ! cur)))"
    using Suc.IH[OF d(2) _ d(3), of "row[cur := True]" "Suc depth"] Suc.prems(2) by simp
  then show ?case using d(1) Suc.prems(1,2) by (auto simp: Let_def d(4) nth_list_update)
qed

lemma retrieve_walk_column_0:
  "d + n \<le> leaf_depth \<Longrightarrow> retrieve_walk n par leaf_depth d cur row ! 0 = row ! 0"
  by (induction n arbitrary: d cur row) (simp_all add: Let_def)

text \<open>
  C19.  The depth bound of the kernels is needed, and nothing in them enforces it: for every node
  deeper than 20, in every tree, the kernel reports depth 21 whatever the depth is, and lets the
  node attend to exactly the first 21 nodes of its path to the root, the root itself not among
  them; and in the retrieve row of such a leaf the column of the root keeps the padding value.
\<close>

theorem tree_depth_mask_kernel_truncates:
  assumes "wf_par par" "i < length par" "MAX_TREE_DEPTH < node_depth par i"
    and "depths ! i = fst (tree_depth_mask_kernel par i)" "depths ! i \<le> max_depth"
  shows "tree_depth_mask_kernel par i =
      (MAX_TREE_DEPTH + 1, map (\<lambda>j. j \<in> set (take (MAX_TREE_DEPTH + 1) (path_to_root par i))) [0..<length par])
    \<and> 0 \<in> set (path_to_root par i) \<and> \<not> snd (tree_depth_mask_kernel par i) ! 0
    \<and> tree_retrieve_kernel par depths max_depth i ! 0 = - 1"
proof -
  have "MAX_TREE_DEPTH + 1 \<le> node_depth par i" using assms(3) by simp
  from depth_mask_walk_deep[OF assms(1,2) _ this, of "replicate (length par) False" 0]
  have k: "tree_depth_mask_kernel par i =
      (MAX_TREE_DEPTH + 1, map (\<lambda>j. j \<in> set (take (MAX_TREE_DEPTH + 1) (path_to_root par i))) [0..<length par])"
    and z: "0 \<notin> set (take (MAX_TREE_DEPTH + 1) (path_to_root par i))"
    by (simp_all add: tree_depth_mask_kernel_def)
  have "0 \<in> set (path_to_root par i)" using assms(1,2)
  proof (induction i rule: less_induct)
    case (less i)
    then show ?case using wf_parD[OF less.prems(1), of i] path_to_root_step[OF less.prems(1), of i] by (cases "i = 0") auto
  qed
  moreover have "\<not> snd (tree_depth_mask_kernel par i) ! 0" using k z assms(2) by (cases "length par") (simp_all del: upt_Suc)
  moreover have "tree_retrieve_kernel par depths max_depth i ! 0 = - 1"
    unfolding tree_retrieve_kernel_def by (subst retrieve_walk_column_0) (simp_all add: assms(4) k)
  ultimately show ?thesis using k by blast
qed

theorem tree_depth_mask_kernel_truncates_witness:
  "fst (tree_depth_mask_kernel (shift_parents (map (\<lambda>i. int i - 1) [0..<25])) 25) = 21
    \<and> \<not> snd (tree_depth_mask_kernel (shift_parents (map (\<lambda>i. int i - 1) [0..<25])) 25) ! 0
    \<and> node_depth (shift_parents (map (\<lambda>i. int i - 1) [0..<25])) 25 = 25"
proof -
  let ?par = "shift_parents (map (\<lambda>i. int i - 1) [0..<25])"
  have h: "wf_par ?par" "25 < length ?par" "MAX_TREE_DEPTH < node_depth ?par 25" "node_depth ?par 25 = 25"
    by code_simp+
  have "replicate 26 (21 :: nat) ! 25 = fst (tree_depth_mask_kernel ?par 25)" by code_simp
  then have "replicate 26 (21 :: nat) ! 25 \<le> 21" by simp
  note t = tree_depth_mask_kernel_truncates[OF h(1-3) \<open>replicate 26 (21 :: nat) ! 25 = _\<close> this]
  have "fst (tree_depth_mask_kernel ?par 25) = 21" by (subst conjunct1[OF t]) (simp add: MAX_TREE_DEPTH_def)
  then show ?thesis using t h(4) by blast
qed

section \<open>Strictly linear trees\<close>

definition chain_parents :: "nat \<Rightarrow> int list" where
  "chain_parents n = map (\<lambda>i. int i - 1) [0..<n]"

lemma wf_chain_parents [simp]: "wf_parents (chain_parents n)"
  by (rule wf_parentsI) (simp add: chain_parents_def)

lemma shift_chain_parents: "shift_parents (chain_parents n) = 0 # [0..<n]"
  by (auto simp: shift_parents_def chain_parents_def intro!: map_idI)

lemma path_chain: "i \<le> n \<Longrightarrow> path_to_root (0 # [0..<n]) i = rev [0..<Suc i]"
proof (induction i)
  case (Suc i)
  have "path_to_root (0 # [0..<n]) (Suc i) = Suc i # path_to_root (0 # [0..<n]) ((0 # [0..<n]) ! Suc i)"
    using Suc.prems by (subst path_to_root.simps) simp
  then show ?case using Suc by simp
qed simp

lemma node_depth_chain: "i \<le> n \<Longrightarrow> node_depth (0 # [0..<n]) i = i"
  by (simp add: node_depth_def path_chain)

lemma shallow_chain: "n \<le> MAX_TREE_DEPTH \<Longrightarrow> shallow (0 # [0..<n])"
  by (auto simp: shallow_def list_all_iff node_depth_chain less_Suc_eq_le simp del: upt_Suc)

lemma height_chain: "tree_height (0 # [0..<n]) = n"
  unfolding tree_height_def
proof (rule Max_eqI)
  show "y \<le> n" if "y \<in> set (map (node_depth (0 # [0..<n])) [0..<length (0 # [0..<n])])" for y
    using that by (auto simp: node_depth_chain less_Suc_eq_le simp del: upt_Suc)
  show "n \<in> set (map (node_depth (0 # [0..<n])) [0..<length (0 # [0..<n])])"
    using node_depth_chain[of n n] by (force simp del: upt_Suc simp: image_iff)
qed simp

lemma leaves_chain: "buffer_leaves (0 # [0..<n]) = [n]"
proof -
  have "[0..<Suc n] = [0..<n] @ [n]" by simp
  then show ?thesis by (simp add: buffer_leaves_def filter_empty_conv del: upt_Suc)
qed

lemma strict_linear_chain_valid_lemma:
  assumes "n \<le> MAX_TREE_DEPTH" "length toks = n"
  shows "validate_strict_linear_tree n (build_tree_buffers s toks (chain_parents n))
    = Inr (build_tree_buffers s toks (chain_parents n))"
proof -
  have d: "map (node_depth (0 # [0..<n])) [0..<Suc n] = [0..<Suc n]"
    by (rule map_idI) (auto simp: node_depth_chain less_Suc_eq_le simp del: upt_Suc)
  have b: "build_tree_buffers s toks (chain_parents n) =
    \<lparr>tb_tokens = s # toks,
     tb_mask = map (\<lambda>i. map (\<lambda>j. j \<le> i) [0..<Suc n]) [0..<Suc n],
     tb_pos = [0..<Suc n], tb_retrieve = [map int [0..<Suc n]]\<rparr>"
    using build_tree_buffers_eq[of "chain_parents n" s toks] shallow_chain[OF assms(1)]
    by (simp add: shift_chain_parents height_chain leaves_chain leaf_row_def path_chain
        d less_Suc_eq_le Let_def del: upt_Suc)
  show ?thesis unfolding b using assms(2)
    by (simp add: validate_strict_linear_tree_def Let_def del: upt_Suc)
qed

end
