(* ===== verification/Tree_Verify.thy ===== *)
theory Tree_Verify
  imports Tree_Buffers "HOL-Library.Multiset"
begin

text \<open>
  Verification of a draft tree by one forward pass of the target model (\<open>_tree_verify\<close>), its
  greedy branch with the key/value cache compaction.

  The target model is not part of the repository.  It is the parameter \<open>fwd\<close>: from the cached
  entries, the tree tokens, their position ids and the tree mask it gives one row of logits
  per tree node and the extended cache.  A cache entry is represented by the token sequence
  it was computed from (all tokens its attention saw, itself included), so a cache is valid
  for a context exactly when entry n encodes the first n + 1 tokens.  \<open>tgt\<close> is the
  autoregressive model: the next-token logits after a context.
\<close>

section \<open>Target model\<close>

definition valid_cache :: "token list list \<Rightarrow> token list \<Rightarrow> bool" where
  "valid_cache cache ctx \<longleftrightarrow> cache = map (\<lambda>n. take (Suc n) ctx) [0..<length ctx]"

text \<open>
  \<open>p\<close> is a chain of tree nodes ending in i at consecutive positions, of which every node sees
  exactly the chain up to itself.
\<close>

definition sees_path :: "nat \<Rightarrow> nat list \<Rightarrow> bool list list \<Rightarrow> nat \<Rightarrow> nat list \<Rightarrow> bool" where
  "sees_path base pos vis i p \<longleftrightarrow>
     p \<noteq> [] \<and> last p = i \<and> distinct p \<and> set p \<subseteq> {..<length pos}
     \<and> (\<forall>k<length p. pos ! (p ! k) = base + k
          \<and> (\<forall>j<length pos. vis ! (p ! k) ! j \<longleftrightarrow> j \<in> set (take (Suc k) p)))"

locale target_model =
  fixes fwd :: "token list list \<Rightarrow> token list \<Rightarrow> nat list \<Rightarrow> bool list list \<Rightarrow> 'l::linorder list list \<times> token list list"
    and tgt :: "token list \<Rightarrow> 'l list"
  assumes tgt_nonempty: "tgt ctx \<noteq> []"
    and fwd_length: "length (fst (fwd cache toks pos vis)) = length toks"
    and fwd_logits: "valid_cache cache ctx \<Longrightarrow> length pos = length toks \<Longrightarrow> i < length toks \<Longrightarrow>
      sees_path (length ctx) pos vis i p \<Longrightarrow>
      fst (fwd cache toks pos vis) ! i = tgt (ctx @ map (\<lambda>j. toks ! j) p)"
    and fwd_cache_length: "length (snd (fwd cache toks pos vis)) = length cache + length toks"
    and fwd_cache_old: "n < length cache \<Longrightarrow> snd (fwd cache toks pos vis) ! n = cache ! n"
    and fwd_cache_new: "valid_cache cache ctx \<Longrightarrow> length pos = length toks \<Longrightarrow> i < length toks \<Longrightarrow>
      sees_path (length ctx) pos vis i p \<Longrightarrow>
      snd (fwd cache toks pos vis) ! (length cache + i) = ctx @ map (\<lambda>j. toks ! j) p"

text \<open>Greedy decoding of the target model alone: the reference every decoder must reproduce.\<close>

fun greedy_decode :: "(token list \<Rightarrow> 'l::linorder list) \<Rightarrow> token list \<Rightarrow> nat \<Rightarrow> token list" where
  "greedy_decode tgt ctx 0 = []"
| "greedy_decode tgt ctx (Suc n) =
     (let t = int (argmax_first (tgt ctx)) in t # greedy_decode tgt (ctx @ [t]) n)"

lemma length_greedy_decode [simp]: "length (greedy_decode tgt ctx n) = n"
  by (induction n arbitrary: ctx) (simp_all add: Let_def)

lemma greedy_decode_add:
  "greedy_decode tgt ctx (m + n) = greedy_decode tgt ctx m @ greedy_decode tgt (ctx @ greedy_decode tgt ctx m) n"
  by (induction m arbitrary: ctx) (simp_all add: Let_def)

lemma greedy_decode_snoc:
  "greedy_decode tgt ctx (Suc n) = greedy_decode tgt ctx n @ [int (argmax_first (tgt (ctx @ greedy_decode tgt ctx n)))]"
  using greedy_decode_add[of tgt ctx n 1] by (simp add: Let_def)

lemma take_greedy_decode: "m \<le> n \<Longrightarrow> take m (greedy_decode tgt ctx n) = greedy_decode tgt ctx m"
  using greedy_decode_add[of tgt ctx m "n - m"] by simp

section \<open>The greedy branch of \<open>_tree_verify\<close>\<close>

record 'l verified =
  vf_accept :: nat
  vf_tokens :: "token list"
  vf_next :: token
  vf_cache :: "token list list"
  vf_best :: nat
  vf_choices :: "token list list"

text \<open>PyTorch indexing with -1 reads the last row; out of range it raises.\<close>

definition gather_rows :: "'a list \<Rightarrow> int list list \<Rightarrow> 'a list list res" where
  "gather_rows xs rows = res_map (res_map (py_nth xs)) rows"

definition match_mask :: "(nat \<Rightarrow> 'l list \<Rightarrow> nat list) \<Rightarrow> nat \<Rightarrow> token list \<Rightarrow> 'l::linorder list list \<Rightarrow> bool list" where
  "match_mask topk accept_topk cand lrow =
     map (\<lambda>(t, l). if 1 < accept_topk then t \<in> int ` set (topk accept_topk l)
                    else t = int (argmax_first l))
       (zip (List.tl cand) (butlast lrow))"

text \<open>The kept cache: the old prefix and the entries of the root and the accepted nodes.\<close>

definition select_cache :: "nat \<Rightarrow> int list \<Rightarrow> 'a list \<Rightarrow> 'a list" where
  "select_cache prev_len idxs cache =
     take prev_len cache @ map (\<lambda>i. cache ! (prev_len + nat i)) (filter (\<lambda>i. 0 \<le> i) idxs)"

definition tree_verify ::
  "(nat \<Rightarrow> 'l list \<Rightarrow> nat list) \<Rightarrow> nat
     \<Rightarrow> (token list list \<Rightarrow> token list \<Rightarrow> nat list \<Rightarrow> bool list list \<Rightarrow> 'l::linorder list list \<times> token list list)
     \<Rightarrow> tree_buf \<Rightarrow> token list \<Rightarrow> token list list \<Rightarrow> 'l verified res" where
  "tree_verify topk accept_topk fwd b input_ids cache =
     (let prev_len = length input_ids;
          position_ids = map (\<lambda>d. d + prev_len) (tb_pos b);
          (tree_logits, cache') = fwd cache (tb_tokens b) position_ids (tb_mask b);
          ri = tb_retrieve b
      in res_bind (gather_rows tree_logits ri) (\<lambda>logits.
         res_bind (gather_rows (tb_tokens b @ [- 1]) ri) (\<lambda>candidates.
           if ri = [] then Inl RuntimeError
           else
             let lens = map (\<lambda>(c, l). run_length (match_mask topk accept_topk c l)) (zip candidates logits);
                 accept_length = lens ! argmax_first lens;
                 best = (if accept_length = 0 then 0 else argmax_first lens);
                 sample_p = logits ! best ! accept_length;
                 path_indices = filter (\<lambda>i. 0 \<le> i) (take accept_length (List.tl (ri ! best)))
             in Inr \<lparr>vf_accept = accept_length,
                     vf_tokens = map (\<lambda>i. tb_tokens b ! nat i) path_indices,
                     vf_next = int (argmax_first sample_p),
                     vf_cache = select_cache prev_len (take (accept_length + 1) (ri ! best)) cache',
                     vf_best = best,
                     vf_choices = map (\<lambda>l. map (\<lambda>r. int (argmax_first r)) (butlast l)) logits\<rparr>)))"

section \<open>Root paths\<close>

definition root_path :: "nat list \<Rightarrow> nat \<Rightarrow> nat list" where
  "root_path par i = rev (path_to_root par i)"

lemma root_path_0 [simp]: "root_path par 0 = [0]"
  by (simp add: root_path_def)

lemma root_path_step: "wf_par par \<Longrightarrow> 0 < i \<Longrightarrow> i < length par \<Longrightarrow> root_path par i = root_path par (par ! i) @ [i]"
  by (simp add: root_path_def path_to_root_step)

lemma length_root_path: "length (root_path par i) = Suc (node_depth par i)"
  by (simp add: root_path_def length_path_to_root)

lemma root_path_ne [simp]: "root_path par i \<noteq> []"
  by (simp add: root_path_def)

lemma root_path_bound: "j \<in> set (root_path par i) \<Longrightarrow> j \<le> i"
  using path_to_root_bound by (simp add: root_path_def)

lemma root_path_last: "wf_par par \<Longrightarrow> i < length par \<Longrightarrow> last (root_path par i) = i"
  by (cases "i = 0") (simp_all add: root_path_step)

lemma root_path_hd: "wf_par par \<Longrightarrow> i < length par \<Longrightarrow> root_path par i ! 0 = 0"
proof (induction i rule: less_induct)
  case (less i)
  show ?case
  proof (cases "i = 0")
    case False
    then have "par ! i < i" using wf_parD[OF less.prems(1), of i] less.prems(2) by simp
    then show ?thesis using less.IH[of "par ! i"] less.prems False root_path_step[OF less.prems(1), of i]
      by (simp add: nth_append)
  qed simp
qed

lemma root_path_distinct: "wf_par par \<Longrightarrow> i < length par \<Longrightarrow> distinct (root_path par i)"
proof (induction i rule: less_induct)
  case (less i)
  show ?case
  proof (cases "i = 0")
    case False
    then have p: "par ! i < i" using wf_parD[OF less.prems(1), of i] less.prems(2) by simp
    then show ?thesis using less.IH[of "par ! i"] less.prems False root_path_step[OF less.prems(1), of i]
        root_path_bound[of i par "par ! i"] by auto
  qed simp
qed

text \<open>A node on a root path is reached by the corresponding prefix of that path.\<close>

lemma root_path_prefix:
  "wf_par par \<Longrightarrow> i < length par \<Longrightarrow> k \<le> node_depth par i \<Longrightarrow>
     root_path par (root_path par i ! k) = take (Suc k) (root_path par i)"
proof (induction i rule: less_induct)
  case (less i)
  show ?case
  proof (cases "i = 0")
    case True
    then show ?thesis using less.prems(3) by simp
  next
    case False
    then have p: "par ! i < i" using wf_parD[OF less.prems(1), of i] less.prems(2) by simp
    have st: "root_path par i = root_path par (par ! i) @ [i]" "node_depth par i = Suc (node_depth par (par ! i))"
      using root_path_step[OF less.prems(1)] node_depth_step[OF less.prems(1)] False less.prems(2) by auto
    have l: "length (root_path par (par ! i)) = Suc (node_depth par (par ! i))" by (rule length_root_path)
    show ?thesis
    proof (cases "k = node_depth par i")
      case True
      then show ?thesis using st l by (simp add: nth_append)
    next
      case nk: False
      then have k: "k \<le> node_depth par (par ! i)" using less.prems(3) st(2) by simp
      then show ?thesis using less.IH[OF p less.prems(1)] p less.prems(2) st(1) l by (simp add: nth_append)
    qed
  qed
qed

lemma node_depth_on_path:
  assumes "wf_par par" "i < length par" "k \<le> node_depth par i"
  shows "node_depth par (root_path par i ! k) = k"
  using arg_cong[OF root_path_prefix[OF assms], of length] assms(3) by (simp add: length_root_path)

lemma root_path_nth_less:
  assumes "wf_par par" "i < length par" "k \<le> node_depth par i"
  shows "root_path par i ! k < length par"
  using root_path_bound[of "root_path par i ! k" par i] assms(2,3) nth_mem[of k "root_path par i"]
  by (simp add: length_root_path)

lemma leaf_row_eq:
  "leaf_row par H leaf = map int (root_path par leaf) @ replicate (H - node_depth par leaf) (- 1)"
  by (simp add: leaf_row_def root_path_def Let_def length_path_to_root)

lemma last_is_leaf: "wf_par par \<Longrightarrow> length par - 1 \<in> set (buffer_leaves par)"
proof -
  assume wf: "wf_par par"
  then have ne: "par \<noteq> []" by (simp add: wf_par_def)
  have "x \<noteq> length par - 1" if x: "x \<in> set (List.tl par)" for x
  proof -
    obtain k where k: "k < length par - 1" "x = par ! Suc k"
      using x by (auto simp: in_set_conv_nth nth_tl)
    then have "par ! Suc k < Suc k" using wf_parD[OF wf, of "Suc k"] by linarith
    then show ?thesis using k by linarith
  qed
  then show ?thesis using ne by (auto simp: buffer_leaves_def)
qed

section \<open>Verification computes the target's greedy continuation\<close>

text \<open>The buffers of a well-formed shallow tree, as facts about the root paths.\<close>

definition buf_for :: "nat list \<Rightarrow> tree_buf \<Rightarrow> bool" where
  "buf_for par b \<longleftrightarrow> wf_par par \<and> length (tb_tokens b) = length par
     \<and> tb_pos b = map (node_depth par) [0..<length par]
     \<and> (\<forall>i<length par. \<forall>j<length par. tb_mask b ! i ! j \<longleftrightarrow> j \<in> set (root_path par i))
     \<and> set (tb_retrieve b) = leaf_row par (tree_height par) ` set (buffer_leaves par)"

lemma build_buf_for:
  assumes "wf_parents ps" "shallow (shift_parents ps)" "length toks = length ps"
  shows "buf_for (shift_parents ps) (build_tree_buffers s toks ps)"
  unfolding buf_for_def build_tree_buffers_eq[OF assms(1,2)] Let_def
  using assms by (simp add: root_path_def del: upt_Suc) (simp add: shift_parents_def)

lemma buf_for_retrieve_ne: "buf_for par b \<Longrightarrow> tb_retrieve b \<noteq> []"
  using last_is_leaf[of par] by (auto simp: buf_for_def)

lemma sees_root_path:
  assumes "buf_for par b" "i < length par"
  shows "sees_path base (map (\<lambda>d. d + base) (tb_pos b)) (tb_mask b) i (root_path par i)"
proof -
  have wf: "wf_par par" using assms(1) by (simp add: buf_for_def)
  have "(map (\<lambda>d. d + base) (tb_pos b)) ! (root_path par i ! k) = base + k
      \<and> (\<forall>j<length par. tb_mask b ! (root_path par i ! k) ! j \<longleftrightarrow> j \<in> set (take (Suc k) (root_path par i)))"
    if "k < length (root_path par i)" for k
    using that assms root_path_nth_less[OF wf assms(2), of k] node_depth_on_path[OF wf assms(2), of k]
      root_path_prefix[OF wf assms(2), of k]
    by (simp add: buf_for_def length_root_path)
  then show ?thesis
    using assms root_path_last[OF wf assms(2)] root_path_distinct[OF wf assms(2)] root_path_bound[of _ par i]
    by (auto simp: sees_path_def buf_for_def intro: le_less_trans)
qed

lemma res_map_ok: "(\<And>x. x \<in> set xs \<Longrightarrow> f x = Inr (g x)) \<Longrightarrow> res_map f xs = Inr (map g xs)"
  by (induction xs) auto

text \<open>What gathering a padded row gives: the path's values, then the last value.\<close>

definition row_vals :: "'a list \<Rightarrow> nat list \<Rightarrow> nat \<Rightarrow> nat \<Rightarrow> 'a list" where
  "row_vals xs par H leaf =
     map (\<lambda>j. xs ! j) (root_path par leaf) @ replicate (H - node_depth par leaf) (last xs)"

lemma gather_leaf_row:
  assumes "wf_par par" "leaf < length par" "length par \<le> length xs"
  shows "res_map (py_nth xs) (leaf_row par H leaf) = Inr (row_vals xs par H leaf)"
proof -
  have ne: "xs \<noteq> []" using assms by auto
  have "py_nth xs x = Inr (if x = - 1 then last xs else xs ! nat x)" if "x \<in> set (leaf_row par H leaf)" for x
    using that assms(2,3) root_path_bound[of _ par leaf] py_nth_minus_one[OF ne]
    by (fastforce simp: leaf_row_eq intro!: py_nth_nonneg)
  then have "res_map (py_nth xs) (leaf_row par H leaf)
      = Inr (map (\<lambda>x. if x = - 1 then last xs else xs ! nat x) (leaf_row par H leaf))"
    by (rule res_map_ok)
  then show ?thesis by (simp add: leaf_row_eq row_vals_def comp_def)
qed

lemma greedy_prefix_iff:
  "n \<le> length Q \<Longrightarrow> take n Q = greedy_decode tgt c n \<longleftrightarrow> (\<forall>k<n. Q ! k = int (argmax_first (tgt (c @ take k Q))))"
proof (induction n)
  case (Suc n)
  then have "take (Suc n) Q = take n Q @ [Q ! n]" by (simp add: take_Suc_conv_app_nth)
  then show ?case using Suc by (auto simp: greedy_decode_snoc less_Suc_eq simp del: greedy_decode.simps)
qed simp

lemma run_length_split:
  assumes "\<And>k. k < d \<Longrightarrow> bs ! k \<longleftrightarrow> C k" "\<And>k. d \<le> k \<Longrightarrow> k < length bs \<Longrightarrow> \<not> bs ! k" "d \<le> length bs"
  shows "run_length bs \<le> d" "n \<le> d \<Longrightarrow> n \<le> run_length bs \<longleftrightarrow> (\<forall>k<n. C k)"
proof -
  show r: "run_length bs \<le> d"
  proof (rule ccontr)
    assume "\<not> run_length bs \<le> d"
    then have "bs ! d" by (intro run_length_nth) simp
    then show False using assms(2)[of d] \<open>\<not> run_length bs \<le> d\<close> run_length_le[of bs] by simp
  qed
  show "n \<le> run_length bs \<longleftrightarrow> (\<forall>k<n. C k)" if "n \<le> d"
    using that assms(1,3) run_length_nth[of _ bs] run_length_ge[of n bs] by (meson le_trans less_le_trans)
qed

text \<open>The tokens of a draft path below the root.\<close>

definition path_draft :: "tree_buf \<Rightarrow> nat list \<Rightarrow> nat \<Rightarrow> token list" where
  "path_draft b par leaf = map (\<lambda>j. tb_tokens b ! j) (List.tl (root_path par leaf))"

lemma length_path_draft [simp]: "length (path_draft b par leaf) = node_depth par leaf"
  by (simp add: path_draft_def length_root_path)

lemma ctx_path_draft:
  assumes "buf_for par b" "leaf < length par" "k \<le> node_depth par leaf"
  shows "map (\<lambda>j. tb_tokens b ! j) (root_path par (root_path par leaf ! k))
    = tb_tokens b ! 0 # take k (path_draft b par leaf)"
proof -
  have wf: "wf_par par" using assms(1) by (simp add: buf_for_def)
  obtain xs where xs: "root_path par leaf = 0 # xs"
    using root_path_hd[OF wf assms(2)] root_path_ne[of par leaf] by (cases "root_path par leaf") auto
  show ?thesis using root_path_prefix[OF wf assms(2,3)] xs by (simp add: path_draft_def take_map)
qed

lemma leaf_row_inj:
  assumes "wf_par par" "i < length par" "j < length par" "leaf_row par H i = leaf_row par H j"
  shows "i = j"
proof -
  have "filter (\<lambda>x. 0 \<le> x) (leaf_row par H l) = map int (root_path par l)" for l
    by (simp add: leaf_row_eq filter_True)
  then have "map int (root_path par i) = map int (root_path par j)" using assms(4) by metis
  then have "root_path par i = root_path par j" by (simp add: inj_map_eq_map)
  then show ?thesis using root_path_last[OF assms(1)] assms(2,3) by metis
qed

context target_model
begin

lemma node_logits:
  assumes "buf_for par b" "valid_cache cache ctx" "i < length par"
  shows "fst (fwd cache (tb_tokens b) (map (\<lambda>d. d + length ctx) (tb_pos b)) (tb_mask b)) ! i
    = tgt (ctx @ map (\<lambda>j. tb_tokens b ! j) (root_path par i))"
  using assms by (intro fwd_logits sees_root_path) (auto simp: buf_for_def)

lemma node_cache:
  assumes "buf_for par b" "valid_cache cache ctx" "i < length par"
  shows "snd (fwd cache (tb_tokens b) (map (\<lambda>d. d + length ctx) (tb_pos b)) (tb_mask b)) ! (length ctx + i)
    = ctx @ map (\<lambda>j. tb_tokens b ! j) (root_path par i)"
proof -
  have "length cache = length ctx" using assms(2) by (simp add: valid_cache_def)
  moreover have "length (map (\<lambda>d. d + length ctx) (tb_pos b)) = length (tb_tokens b)" "i < length (tb_tokens b)"
    using assms by (simp_all add: buf_for_def)
  ultimately show ?thesis using fwd_cache_new[OF assms(2) _ _ sees_root_path[OF assms(1,3)]] by metis
qed

text \<open>The accept length of one row: the longest prefix of the path that greedy decoding produces.\<close>

lemma row_accept:
  assumes b: "buf_for par b" and c: "valid_cache cache ctx" and leaf: "leaf < length par"
    and H: "node_depth par leaf \<le> H" and at: "tk \<le> 1"
    and L: "L = fst (fwd cache (tb_tokens b) (map (\<lambda>d. d + length ctx) (tb_pos b)) (tb_mask b))"
    and m: "m = run_length (match_mask topk tk (row_vals (tb_tokens b @ [- 1]) par H leaf) (row_vals L par H leaf))"
  shows "m \<le> node_depth par leaf"
    "n \<le> node_depth par leaf \<Longrightarrow>
       n \<le> m \<longleftrightarrow> take n (path_draft b par leaf) = greedy_decode tgt (ctx @ [tb_tokens b ! 0]) n"
    "row_vals L par H leaf ! m = tgt (ctx @ tb_tokens b ! 0 # take m (path_draft b par leaf))"
proof -
  let ?d = "node_depth par leaf" and ?P = "root_path par leaf"
  let ?lrow = "row_vals L par H leaf" and ?cand = "row_vals (tb_tokens b @ [- 1]) par H leaf"
  let ?bs = "match_mask topk tk ?cand ?lrow" and ?Q = "path_draft b par leaf"
  let ?C = "\<lambda>k. ?Q ! k = int (argmax_first (tgt ((ctx @ [tb_tokens b ! 0]) @ take k ?Q)))"
  have wf: "wf_par par" using b by (simp add: buf_for_def)
  have len: "length ?lrow = Suc H" "length ?cand = Suc H" using H by (simp_all add: row_vals_def length_root_path)
  have lb: "length ?bs = H" using len by (simp add: match_mask_def)
  have lrow: "?lrow ! k = tgt (ctx @ tb_tokens b ! 0 # take k ?Q)" if "k \<le> ?d" for k
  proof -
    have "?lrow ! k = L ! (?P ! k)" using that by (simp add: row_vals_def nth_append length_root_path)
    also have "\<dots> = tgt (ctx @ map (\<lambda>j. tb_tokens b ! j) (root_path par (?P ! k)))"
      unfolding L by (rule node_logits[OF b c root_path_nth_less[OF wf leaf that]])
    finally show ?thesis using ctx_path_draft[OF b leaf that] by simp
  qed
  have cand: "?cand ! Suc k = (if k < ?d then ?Q ! k else - 1)" if "k < H" for k
  proof (cases "k < ?d")
    case True
    then have "?P ! Suc k < length par" using root_path_nth_less[OF wf leaf, of "Suc k"] by simp
    then show ?thesis using True b
      by (simp add: row_vals_def nth_append length_root_path path_draft_def nth_tl buf_for_def)
  qed (use that in \<open>simp add: row_vals_def nth_append length_root_path\<close>)
  have bs: "?bs ! k \<longleftrightarrow> ?cand ! Suc k = int (argmax_first (?lrow ! k))" if "k < H" for k
    using that at len by (simp add: match_mask_def nth_tl nth_butlast)
  have C: "?bs ! k \<longleftrightarrow> ?C k" if "k < ?d" for k
    using bs[of k] cand[of k] lrow[of k] that H by simp
  have no: "\<not> ?bs ! k" if "?d \<le> k" "k < length ?bs" for k
    using bs[of k] cand[of k] that lb by simp
  have dl: "?d \<le> length ?bs" using H lb by simp
  note rl = run_length_split[of ?d ?bs ?C, OF C no dl, folded m]
  show md: "m \<le> ?d" by (rule rl(1))
  show "row_vals L par H leaf ! m = tgt (ctx @ tb_tokens b ! 0 # take m ?Q)" by (rule lrow[OF md])
  show "n \<le> m \<longleftrightarrow> take n ?Q = greedy_decode tgt (ctx @ [tb_tokens b ! 0]) n" if "n \<le> ?d"
    using rl(2)[of n] that lb greedy_prefix_iff[of n ?Q tgt "ctx @ [tb_tokens b ! 0]"] by simp
qed

lemma gather_all:
  assumes "buf_for par b" "length par \<le> length xs" "\<And>r. r < length (tb_retrieve b) \<Longrightarrow>
      lf r < length par \<and> tb_retrieve b ! r = leaf_row par H (lf r)"
  shows "gather_rows xs (tb_retrieve b) = Inr (map (\<lambda>r. row_vals xs par H (lf r)) [0..<length (tb_retrieve b)])"
proof -
  have wf: "wf_par par" using assms(1) by (simp add: buf_for_def)
  have "res_map (res_map (py_nth xs)) (map (\<lambda>r. leaf_row par H (lf r)) [0..<length (tb_retrieve b)])
      = Inr (map (\<lambda>row. projr (res_map (py_nth xs) row)) (map (\<lambda>r. leaf_row par H (lf r)) [0..<length (tb_retrieve b)]))"
    by (rule res_map_ok) (use gather_leaf_row[OF wf _ assms(2)] assms(3) in auto)
  moreover have "map (\<lambda>r. leaf_row par H (lf r)) [0..<length (tb_retrieve b)] = tb_retrieve b"
    using assms(3) by (intro nth_equalityI) auto
  ultimately show ?thesis
    using gather_leaf_row[OF wf _ assms(2)] assms(3)
    by (auto simp: gather_rows_def intro!: nth_equalityI)
qed

lemma select_accepted:
  assumes b: "buf_for par b" and c: "valid_cache cache ctx" and leaf: "leaf < length par" and m: "m \<le> node_depth par leaf"
    and K: "K = snd (fwd cache (tb_tokens b) (map (\<lambda>d. d + length ctx) (tb_pos b)) (tb_mask b))"
  shows "valid_cache (select_cache (length ctx) (take (m + 1) (leaf_row par H leaf)) K)
    (ctx @ tb_tokens b ! 0 # take m (path_draft b par leaf))"
proof -
  let ?P = "root_path par leaf" and ?Q = "path_draft b par leaf"
  let ?full = "ctx @ tb_tokens b ! 0 # take m ?Q"
  have wf: "wf_par par" using b by (simp add: buf_for_def)
  have lc: "length cache = length ctx" using c by (simp add: valid_cache_def)
  have tk: "take (m + 1) (leaf_row par H leaf) = map int (take (Suc m) ?P)"
    using m by (simp add: leaf_row_eq length_root_path take_map)
  have old: "take (length ctx) K = cache"
    using fwd_cache_old[of _ cache] fwd_cache_length lc K by (intro nth_equalityI) auto
  have new: "K ! (length ctx + ?P ! k) = ctx @ tb_tokens b ! 0 # take k ?Q" if "k \<le> m" for k
    using node_cache[OF b c root_path_nth_less[OF wf leaf, of k]] ctx_path_draft[OF b leaf, of k] that m K by simp
  have sel: "select_cache (length ctx) (take (m + 1) (leaf_row par H leaf)) K
      = cache @ map (\<lambda>k. ctx @ tb_tokens b ! 0 # take k ?Q) [0..<Suc m]"
    unfolding select_cache_def tk old
    using new m by (auto intro!: nth_equalityI simp: length_root_path filter_True simp del: upt_Suc)
  have lf: "length ?full = length ctx + Suc m" using m by simp
  have "map (\<lambda>n. take (Suc n) ?full) [0..<length ?full]
      = map (\<lambda>n. take (Suc n) ?full) [0..<length ctx] @ map (\<lambda>n. take (Suc n) ?full) [length ctx..<length ctx + Suc m]"
    unfolding lf by (simp only: upt_add_eq_append[OF le0] map_append)
  also have "map (\<lambda>n. take (Suc n) ?full) [0..<length ctx] = cache" using c by (simp add: valid_cache_def)
  also have "map (\<lambda>n. take (Suc n) ?full) [length ctx..<length ctx + Suc m]
      = map (\<lambda>k. take (Suc (k + length ctx)) ?full) [0..<Suc m]"
    unfolding add.commute[of "length ctx" "Suc m"] map_add_upt[of "length ctx" "Suc m", symmetric] map_map comp_def
    by (rule refl)
  also have "\<dots> = map (\<lambda>k. ctx @ tb_tokens b ! 0 # take k ?Q) [0..<Suc m]"
    by (auto simp: min_def Suc_diff_le simp del: upt_Suc)
  finally show ?thesis unfolding sel by (simp add: valid_cache_def)
qed

theorem verify_greedy:
  assumes b: "buf_for par b" and c: "valid_cache cache ctx" and tk: "tk \<le> 1"
  obtains v where "tree_verify topk tk fwd b ctx cache = Inr v"
    "length (vf_tokens v) = vf_accept v"
    "vf_tokens v @ [vf_next v] = greedy_decode tgt (ctx @ [tb_tokens b ! 0]) (Suc (vf_accept v))"
    "valid_cache (vf_cache v) (ctx @ tb_tokens b ! 0 # vf_tokens v)"
    "\<forall>leaf \<in> set (buffer_leaves par). \<forall>n \<le> node_depth par leaf.
       take n (path_draft b par leaf) = greedy_decode tgt (ctx @ [tb_tokens b ! 0]) n \<longrightarrow> n \<le> vf_accept v"
proof -
  let ?ri = "tb_retrieve b" and ?H = "tree_height par" and ?c0 = "ctx @ [tb_tokens b ! 0]"
  have wf: "wf_par par" using b by (simp add: buf_for_def)
  obtain lf where lf: "\<And>r. r < length ?ri \<Longrightarrow> lf r \<in> set (buffer_leaves par) \<and> ?ri ! r = leaf_row par ?H (lf r)"
  proof -
    have "\<forall>r. r < length ?ri \<longrightarrow> (\<exists>l. l \<in> set (buffer_leaves par) \<and> ?ri ! r = leaf_row par ?H l)"
      using b nth_mem[of _ ?ri] by (fastforce simp: buf_for_def)
    then show ?thesis using that by metis
  qed
  then have lfl: "lf r < length par" "node_depth par (lf r) \<le> ?H" if "r < length ?ri" for r
    using that buffer_leaves_less node_depth_le_height by blast+
  obtain L K where LK: "fwd cache (tb_tokens b) (map (\<lambda>d. d + length ctx) (tb_pos b)) (tb_mask b) = (L, K)" by force
  have L: "L = fst (fwd cache (tb_tokens b) (map (\<lambda>d. d + length ctx) (tb_pos b)) (tb_mask b))"
    and K: "K = snd (fwd cache (tb_tokens b) (map (\<lambda>d. d + length ctx) (tb_pos b)) (tb_mask b))"
    using LK by simp_all
  have lenL: "length par \<le> length L" "length par \<le> length (tb_tokens b @ [- 1])"
    using fwd_length L b by (simp_all add: buf_for_def)
  define mr where "mr r = run_length (match_mask topk tk (row_vals (tb_tokens b @ [- 1]) par ?H (lf r))
      (row_vals L par ?H (lf r)))" for r
  define lens where "lens = map mr [0..<length ?ri]"
  note g = gather_all[OF b lenL(1), of lf ?H] gather_all[OF b lenL(2), of lf ?H]
  have g': "gather_rows L ?ri = Inr (map (\<lambda>r. row_vals L par ?H (lf r)) [0..<length ?ri])"
    "gather_rows (tb_tokens b @ [- 1]) ?ri = Inr (map (\<lambda>r. row_vals (tb_tokens b @ [- 1]) par ?H (lf r)) [0..<length ?ri])"
    using g lf lfl by blast+
  have zip: "map (\<lambda>(c, l). run_length (match_mask topk tk c l))
      (zip (map (\<lambda>r. row_vals (tb_tokens b @ [- 1]) par ?H (lf r)) [0..<length ?ri])
        (map (\<lambda>r. row_vals L par ?H (lf r)) [0..<length ?ri])) = lens"
    by (intro nth_equalityI) (auto simp: lens_def mr_def)
  have ne: "?ri \<noteq> []" by (rule buf_for_retrieve_ne[OF b])
  then have lne: "lens \<noteq> []" by (simp add: lens_def)
  define A where "A = lens ! argmax_first lens"
  define best where "best = (if A = 0 then 0 else argmax_first lens)"
  have ll: "length lens = length ?ri" by (simp add: lens_def)
  have bl: "best < length ?ri" using argmax_first_less[OF lne] ne ll by (simp add: best_def)
  have mrA: "mr r \<le> A" if "r < length ?ri" for r
    using argmax_first_max[OF lne, of r] that ll by (simp add: A_def lens_def)
  have mb: "mr best = A"
    using argmax_first_less[OF lne] mrA[OF bl] ll by (auto simp: best_def A_def lens_def split: if_splits)
  note ra = row_accept[OF b c lfl[OF bl] tk L mb[unfolded mr_def, symmetric]]
  let ?leaf = "lf best" and ?Q = "path_draft b par (lf best)"
  have accd: "map (\<lambda>i. tb_tokens b ! nat i) (filter (\<lambda>i. 0 \<le> i) (take A (List.tl (?ri ! best)))) = take A ?Q"
  proof -
    have "take A (List.tl (?ri ! best)) = map int (take A (List.tl (root_path par ?leaf)))"
      using lf[OF bl] ra(1) by (simp add: leaf_row_eq length_root_path tl_append2 take_map flip: map_tl)
    then show ?thesis by (simp add: path_draft_def take_map filter_True comp_def)
  qed
  define v where "v = \<lparr>vf_accept = A, vf_tokens = take A ?Q,
      vf_next = int (argmax_first (row_vals L par ?H ?leaf ! A)),
      vf_cache = select_cache (length ctx) (take (A + 1) (?ri ! best)) K, vf_best = best,
      vf_choices = map (\<lambda>l. map (\<lambda>r. int (argmax_first r)) (butlast l)) (map (\<lambda>r. row_vals L par ?H (lf r)) [0..<length ?ri])\<rparr>"
  have "tree_verify topk tk fwd b ctx cache = Inr v"
    unfolding tree_verify_def Let_def LK prod.case g' res_bind_simps zip A_def[symmetric] best_def[symmetric] accd v_def
    using ne bl by simp
  moreover have gd: "take A ?Q = greedy_decode tgt ?c0 A" using ra(1) ra(2)[of A] by simp
  moreover have "row_vals L par ?H ?leaf ! A = tgt (?c0 @ greedy_decode tgt ?c0 A)" using ra(3) gd by simp
  moreover have "valid_cache (select_cache (length ctx) (take (A + 1) (?ri ! best)) K) (ctx @ tb_tokens b ! 0 # take A ?Q)"
    using select_accepted[OF b c lfl(1)[OF bl] ra(1) K] lf[OF bl] by simp
  moreover have "n \<le> A" if "leaf \<in> set (buffer_leaves par)" "n \<le> node_depth par leaf"
      "take n (path_draft b par leaf) = greedy_decode tgt ?c0 n" for leaf n
  proof -
    have "leaf_row par ?H leaf \<in> set ?ri" using b that(1) by (simp add: buf_for_def)
    then obtain r where r: "r < length ?ri" "?ri ! r = leaf_row par ?H leaf" by (auto simp: in_set_conv_nth)
    have same: "leaf_row par ?H leaf = leaf_row par ?H (lf r)" using lf[OF r(1)] r(2) by simp
    have leq: "leaf = lf r"
      using leaf_row_inj[OF wf buffer_leaves_less[OF that(1)] lfl(1)[OF r(1)] same] .
    have "n \<le> mr r" using row_accept(2)[OF b c lfl[OF r(1)] tk L mr_def] that leq by simp
    then show ?thesis using mrA[OF r(1)] by simp
  qed
  ultimately show ?thesis using ra(1)
    by (intro that[of v]) (auto simp: v_def greedy_decode_snoc simp del: greedy_decode.simps)
qed

end

section \<open>A reference implementation of the target interface\<close>

text \<open>
  The forward pass a causal transformer realises: every node reads the cached context and the
  visible tree nodes in the order of their position ids.
\<close>

definition visible_order :: "nat list \<Rightarrow> bool list list \<Rightarrow> nat \<Rightarrow> nat list" where
  "visible_order pos vis i = sort_key (\<lambda>j. pos ! j) (filter (\<lambda>j. vis ! i ! j) [0..<length pos])"

definition ref_forward ::
  "(token list \<Rightarrow> 'l list) \<Rightarrow> token list list \<Rightarrow> token list \<Rightarrow> nat list \<Rightarrow> bool list list
     \<Rightarrow> 'l list list \<times> token list list" where
  "ref_forward tgt cache toks pos vis =
     (let ctx = (if cache = [] then [] else last cache);
          seen = (\<lambda>i. ctx @ map (\<lambda>j. toks ! j) (visible_order pos vis i))
      in (map (\<lambda>i. tgt (seen i)) [0..<length toks], cache @ map seen [0..<length toks]))"

definition nonempty_logits :: "(token list \<Rightarrow> 'l::zero list) \<Rightarrow> token list \<Rightarrow> 'l list" where
  "nonempty_logits tgt ctx = (case tgt ctx of [] \<Rightarrow> [0] | x # xs \<Rightarrow> x # xs)"

lemma sees_path_last: "sees_path base pos vis i p \<Longrightarrow> j < length pos \<Longrightarrow> vis ! i ! j \<longleftrightarrow> j \<in> set p"
  unfolding sees_path_def by (elim conjE allE[of _ "length p - 1"]) (simp add: last_conv_nth)

lemma visible_order_path: "sees_path base pos vis i p \<Longrightarrow> visible_order pos vis i = p"
proof -
  assume a: "sees_path base pos vis i p"
  let ?xs = "filter (\<lambda>j. vis ! i ! j) [0..<length pos]"
  have d: "distinct p" and sub: "set p \<subseteq> {..<length pos}" using a by (auto simp: sees_path_def)
  have st: "set ?xs = set p" using sees_path_last[OF a] sub by auto
  have pk: "map (\<lambda>j. pos ! j) p = map (\<lambda>k. base + k) [0..<length p]"
    using a by (intro nth_equalityI) (auto simp: sees_path_def)
  have "mset ?xs = mset p" using st d by (subst set_eq_iff_mset_eq_distinct[symmetric]) auto
  moreover have "distinct (map (\<lambda>j. pos ! j) p)" "sorted (map (\<lambda>j. pos ! j) p)"
    unfolding pk by (auto simp: distinct_map inj_on_def sorted_iff_nth_mono)
  ultimately show ?thesis unfolding visible_order_def using st
    by (intro sort_key_inj_key_eq) (auto simp: distinct_map)
qed

lemma valid_cache_last: "valid_cache cache ctx \<Longrightarrow> (if cache = [] then [] else last cache) = ctx"
  by (cases "ctx = []") (auto simp: valid_cache_def last_map)

lemma ref_target_model:
  assumes ne: "\<And>ctx. tgt ctx \<noteq> []"
  shows "target_model (ref_forward tgt) tgt"
proof
  fix ctx :: "token list" and cache toks pos vis i p n
  show "tgt ctx \<noteq> []" by (rule ne)
  show "length (fst (ref_forward tgt cache toks pos vis)) = length toks"
    "length (snd (ref_forward tgt cache toks pos vis)) = length cache + length toks"
    by (simp_all add: ref_forward_def Let_def)
  show "snd (ref_forward tgt cache toks pos vis) ! n = cache ! n" if "n < length cache"
    using that by (simp add: ref_forward_def Let_def nth_append)
  assume c: "valid_cache cache ctx" and i: "i < length toks" and p: "sees_path (length ctx) pos vis i p"
  show "fst (ref_forward tgt cache toks pos vis) ! i = tgt (ctx @ map (\<lambda>j. toks ! j) p)"
    "snd (ref_forward tgt cache toks pos vis) ! (length cache + i) = ctx @ map (\<lambda>j. toks ! j) p"
    using i by (simp_all add: ref_forward_def valid_cache_last[OF c] visible_order_path[OF p] Let_def)
qed

lemma nonempty_logits_ne: "nonempty_logits tgt ctx \<noteq> []"
  by (simp add: nonempty_logits_def split: list.split)

interpretation refmodel: target_model "ref_forward (nonempty_logits tgt)" "nonempty_logits tgt"
  for tgt :: "token list \<Rightarrow> 'l::{linorder, zero} list"
  by (rule ref_target_model) (rule nonempty_logits_ne)

text \<open>Verification reads the forward pass only through its logits and its extended cache.\<close>

lemma tree_verify_logits:
  assumes "tree_verify topk acc (\<lambda>_ _ _ _. (L, K)) b ctx cache = Inr v"
    and "fst (fwd cache' (tb_tokens b) (map (\<lambda>d. d + length ctx') (tb_pos b)) (tb_mask b)) = L"
    and "tree_verify topk acc fwd b ctx' cache' = Inr v'"
  shows "vf_accept v' = vf_accept v" "vf_tokens v' = vf_tokens v" "vf_next v' = vf_next v" "vf_best v' = vf_best v"
    "vf_cache v' = select_cache (length ctx') (take (vf_accept v' + 1) (tb_retrieve b ! vf_best v'))
       (snd (fwd cache' (tb_tokens b) (map (\<lambda>d. d + length ctx') (tb_pos b)) (tb_mask b)))"
  using assms by (auto simp: tree_verify_def Let_def case_prod_unfold res_bind_def split: sum.splits if_splits)

section \<open>Correctness of verification\<close>

text \<open>
  C8.  Greedy verification of any well-formed draft tree within the depth bound succeeds and
  is lossless: the accepted tokens followed by the bonus token are exactly the tokens that
  greedy decoding of the target model alone produces after the context and the root token;
  no draft path agrees with the target for longer; and the compacted key/value cache holds
  exactly the entries of the context, the root and the accepted tokens.
\<close>

theorem tree_verify_lossless:
  assumes "target_model fwd tgt" "wf_parents ps" "shallow (shift_parents ps)" "length toks = length ps"
    and "valid_cache cache ctx" "tk \<le> 1" "par = shift_parents ps" "b = build_tree_buffers s toks ps"
  shows "\<exists>v. tree_verify topk tk fwd b ctx cache = Inr v
    \<and> length (vf_tokens v) = vf_accept v
    \<and> vf_tokens v @ [vf_next v] = greedy_decode tgt (ctx @ [s]) (Suc (vf_accept v))
    \<and> valid_cache (vf_cache v) (ctx @ s # vf_tokens v)
    \<and> (\<forall>leaf \<in> set (buffer_leaves par). \<forall>n \<le> node_depth par leaf.
         take n (path_draft b par leaf) = greedy_decode tgt (ctx @ [s]) n \<longrightarrow> n \<le> vf_accept v)"
proof -
  have b: "buf_for par b" unfolding assms(7,8) by (rule build_buf_for[OF assms(2-4)])
  have s: "tb_tokens b ! 0 = s" by (simp add: assms(8) build_tree_buffers_def Let_def)
  show ?thesis
    using target_model.verify_greedy[OF assms(1) b assms(5,6), of topk] unfolding s by metis
qed

definition witness_tgt :: "token list \<Rightarrow> int list" where
  "witness_tgt ctx = map (\<lambda>k. if int k = sum_list ctx mod 5 then 1 else 0) [0..<5]"

theorem tree_verify_lossless_witness:
  "\<exists>v. tree_verify sort_topk 1 (ref_forward (nonempty_logits witness_tgt))
        (build_tree_buffers 3 [4, 3, 1, 2] [- 1, 0, - 1, 1]) [1] [[1]] = Inr v
     \<and> vf_tokens v @ [vf_next v] = greedy_decode (nonempty_logits witness_tgt) [1, 3] (Suc (vf_accept v))"
proof -
  have h: "wf_parents [- 1, 0, - 1, 1]" "shallow (shift_parents [- 1, 0, - 1, 1])" by code_simp+
  have c: "valid_cache [[1]] [1]" by (simp add: valid_cache_def)
  show ?thesis
    using tree_verify_lossless[OF refmodel.target_model_axioms h _ c, of "[4, 3, 1, 2]" 1 _ _ 3 sort_topk, OF _ _ refl refl]
    by (simp del: greedy_decode.simps) blast
qed

end
