(* ===== verification/Batch_Accept.thy ===== *)
theory Batch_Accept
  imports Tree_Verify
begin

text \<open>
  Packing the draft trees of a request batch for one target forward pass and accepting their
  paths afterwards: \<open>_pack_trees\<close>, \<open>_build_additive_mask\<close>, \<open>_project_tree_decisions\<close>,
  \<open>_accept_active_batch\<close> and \<open>_update_logit_correction\<close> of \<open>specblock_batch.py\<close>.

  Rows of different widths are padded to one rectangle.  The theory shows that the padding is
  invisible: each request is accepted exactly as the scalar \<open>_tree_verify\<close> would accept it.
\<close>

section \<open>Packing\<close>

definition pad_to :: "nat \<Rightarrow> 'a \<Rightarrow> 'a list \<Rightarrow> 'a list" where
  "pad_to n x xs = xs @ replicate (n - length xs) x"

lemma pad_to_simps [shape_simps, simp]:
  "length xs \<le> n \<Longrightarrow> length (pad_to n x xs) = n"
  "i < n \<Longrightarrow> pad_to n x xs ! i = (if i < length xs then xs ! i else x)"
  by (simp_all add: pad_to_def nth_append)

lemma take_pad_to [simp]: "m \<le> length xs \<Longrightarrow> take m (pad_to n x xs) = take m xs"
  by (simp add: pad_to_def)

definition tree_widths :: "tree_buf list \<Rightarrow> nat list" where
  "tree_widths trees = map (\<lambda>b. length (tb_tokens b)) trees"

definition max_list :: "nat list \<Rightarrow> nat" where
  "max_list xs = fold max xs 0"

lemma max_list_ge: "x \<in> set xs \<Longrightarrow> x \<le> max_list xs"
proof -
  have "x \<in> set xs \<Longrightarrow> x \<le> fold max xs a" "a \<le> fold max xs a" for a
    by (induction xs arbitrary: a) (auto intro: order.trans[OF max.cobounded2] order.trans[OF max.cobounded1])
  then show "x \<in> set xs \<Longrightarrow> x \<le> max_list xs" by (simp add: max_list_def)
qed

lemma max_list_in: "xs \<noteq> [] \<Longrightarrow> max_list xs \<in> set xs \<or> max_list xs = 0"
proof -
  have "fold max xs a \<in> set xs \<or> fold max xs a = a" for a
    by (induction xs arbitrary: a) (auto, metis max_def)
  then show ?thesis by (simp add: max_list_def)
qed

definition pack_trees ::
  "token \<Rightarrow> (tree_buf \<times> nat) list \<Rightarrow> token list list \<times> nat list list \<times> nat list \<times> nat" where
  "pack_trees pad states =
     (let widths = tree_widths (map fst states); w = max_list widths
      in (map (\<lambda>(b, plen). pad_to w pad (tb_tokens b)) states,
          map (\<lambda>(b, plen). pad_to w plen (map (\<lambda>d. d + plen) (take (length (tb_tokens b)) (tb_pos b)))) states,
          widths, w))"

text \<open>
  The additive mask as visibility: \<open>True\<close> is the bias 0, \<open>False\<close> is minus infinity.  A real
  query sees the committed prefix and its tree ancestors; a padded query sees one private key.
\<close>

definition mask_entry :: "tree_buf \<Rightarrow> nat \<Rightarrow> nat \<Rightarrow> nat \<Rightarrow> nat \<Rightarrow> bool" where
  "mask_entry b plen tree_start q k =
     (let width = length (tb_tokens b)
      in if q < width
         then k < plen \<or> tree_start \<le> k \<and> k < tree_start + width \<and> tb_mask b ! q ! (k - tree_start)
         else k = tree_start + q)"

definition build_additive_mask ::
  "(tree_buf \<times> nat) list \<Rightarrow> nat \<Rightarrow> nat \<Rightarrow> bool list list list res" where
  "build_additive_mask states tree_start tree_width =
     (if states = [] \<or> tree_start < max_list (map snd states) then Inl ValueError
      else Inr (map (\<lambda>(b, plen). map (\<lambda>q. map (mask_entry b plen tree_start q) [0..<tree_start + tree_width])
             [0..<tree_width]) states))"

section \<open>Target decisions\<close>

text \<open>The real nodes are packed row by row for the output head and scattered back afterwards.\<close>

fun unpack_rows :: "nat \<Rightarrow> 'a \<Rightarrow> nat list \<Rightarrow> 'a list \<Rightarrow> 'a list list" where
  "unpack_rows w x [] ys = []"
| "unpack_rows w x (n # ns) ys = pad_to w x (take n ys) # unpack_rows w x ns (drop n ys)"

definition pack_rows :: "nat list \<Rightarrow> 'a list list \<Rightarrow> 'a list" where
  "pack_rows widths rows = concat (map (\<lambda>(n, row). take n row) (zip widths rows))"

definition scatter_rows :: "nat \<Rightarrow> nat list \<Rightarrow> 'a \<Rightarrow> 'a list \<Rightarrow> 'a list list" where
  "scatter_rows w widths x ys =
     (if length widths = 1 \<and> widths ! 0 = w then [ys] else unpack_rows w x widths ys)"

definition project_tree_decisions ::
  "(nat \<Rightarrow> 'l::linorder list \<Rightarrow> nat list) \<Rightarrow> int \<Rightarrow> ('h \<Rightarrow> 'l list) \<Rightarrow> nat \<Rightarrow> nat list \<Rightarrow> 'h list list
     \<Rightarrow> (token list list \<times> token list list list option \<times> nat) res" where
  "project_tree_decisions topk accept_topk head w widths hidden =
     (if length hidden \<noteq> length widths then Inl ValueError
      else if \<exists>n \<in> set widths. n = 0 \<or> w < n then Inl ValueError
      else
        let packed = pack_rows widths hidden;
            logits = map head packed
        in if accept_topk \<le> 0 \<or> int (length (logits ! 0)) < accept_topk then Inl ValueError
           else Inr (scatter_rows w widths 0 (map (\<lambda>l. int (argmax_first l)) logits),
                     (if 1 < accept_topk
                      then Some (scatter_rows w widths (replicate (nat accept_topk) 0)
                             (map (\<lambda>l. map int (topk (nat accept_topk) l)) logits))
                      else None),
                     length packed))"

section \<open>Acceptance\<close>

record 'h accepted =
  ac_length :: nat
  ac_tokens :: "token list"
  ac_next :: token
  ac_best :: nat
  ac_path :: "int list"
  ac_choices :: "token list list"
  ac_candidates :: "token list list"
  ac_hidden :: "'h list list"

definition pad_retrieve :: "nat \<Rightarrow> nat \<Rightarrow> int list list \<Rightarrow> int list list" where
  "pad_retrieve max_paths max_width ri =
     pad_to max_paths (replicate max_width (- 1)) (map (pad_to max_width (- 1)) ri)"

definition posterior ::
  "nat \<Rightarrow> (int \<Rightarrow> token list) \<Rightarrow> (int \<Rightarrow> token) \<Rightarrow> (int \<Rightarrow> token) \<Rightarrow> int list \<Rightarrow> bool list" where
  "posterior accept_topk topk_at argmax_at cand_at path =
     map (\<lambda>(next_node, node). if 1 < accept_topk then cand_at next_node \<in> set (topk_at node)
                               else cand_at next_node = argmax_at node)
       (zip (List.tl path) (butlast path))"

text \<open>One row of the batch; \<open>tk\<close> are the node's top-k decisions when \<open>ACCEPT_TOPK\<close> exceeds 1.\<close>

definition accept_row ::
  "nat \<Rightarrow> nat \<Rightarrow> nat \<Rightarrow> nat \<Rightarrow> tree_buf \<Rightarrow> token list \<Rightarrow> token list \<Rightarrow> token list list \<Rightarrow> 'h list list
     \<Rightarrow> 'h accepted res" where
  "accept_row accept_topk max_paths max_width w b ids argm tk hidden =
     (let ri = tb_retrieve b; paths = pad_retrieve max_paths max_width ri;
          safe = (\<lambda>r. if 0 \<le> r then nat r else length (tb_tokens b) - 1);
          cand_at = (\<lambda>r. (ids @ [- 1]) ! (if 0 \<le> r then nat r else w));
          argmax_at = (\<lambda>r. argm ! safe r)
      in if paths = [] \<or> max_width = 0 \<or> (\<exists>row \<in> set ri. \<exists>r \<in> set row. int w \<le> r) then Inl RuntimeError
         else
           let lens = map (\<lambda>p. run_length (posterior accept_topk (\<lambda>r. tk ! safe r) argmax_at cand_at p)) paths;
               accept_length = Max (set lens); best = argmax_first lens;
               selected = paths ! best;
               accepted_ids = map (\<lambda>k. let i = List.tl selected ! k
                                         in if k < accept_length \<and> 0 \<le> i then ids ! nat i else - 1)
                                [0..<max_width - 1];
               host = take accept_length accepted_ids
           in if selected ! 0 < 0 then Inl RuntimeError
              else if \<exists>t \<in> set host. t < 0 then Inl RuntimeError
              else Inr \<lparr>ac_length = accept_length, ac_tokens = host,
                        ac_next = argm ! nat (max 0 (selected ! accept_length)), ac_best = best,
                        ac_path = take (accept_length + 1) selected,
                        ac_choices = map (\<lambda>(row, p). take (length row - 1) (map argmax_at (butlast p))) (zip ri paths),
                        ac_candidates = map (\<lambda>(row, p). take (length row) (map cand_at p)) (zip ri paths),
                        ac_hidden = map (\<lambda>i. map (\<lambda>h. h ! nat (max 0 i)) hidden) (take (accept_length + 1) selected)\<rparr>)"

definition retrieve_width :: "tree_buf \<Rightarrow> nat" where
  "retrieve_width b = (case tb_retrieve b of [] \<Rightarrow> 0 | row # _ \<Rightarrow> length row)"

definition query_width :: "'a list list \<Rightarrow> nat" where
  "query_width rows = (case rows of [] \<Rightarrow> 0 | row # _ \<Rightarrow> length row)"

definition accept_active_batch ::
  "nat \<Rightarrow> tree_buf list \<Rightarrow> token list list \<Rightarrow> token list list \<Rightarrow> token list list list option
     \<Rightarrow> 'h list list list \<Rightarrow> 'h accepted list res" where
  "accept_active_batch accept_topk trees ids argm tk hidden_sources =
     (let w = query_width ids;
          max_paths = max_list (map (\<lambda>b. length (tb_retrieve b)) trees);
          max_width = max_list (map (\<lambda>b. retrieve_width b) trees)
      in if map length argm \<noteq> map length ids then Inl ValueError
         else if length hidden_sources \<noteq> 3 \<or> (\<exists>h \<in> set hidden_sources. map length h \<noteq> map length ids) then Inl ValueError
         else if 1 < accept_topk \<and> (case tk of None \<Rightarrow> True
               | Some t \<Rightarrow> map (map length) t \<noteq> map (\<lambda>row. replicate (length row) accept_topk) ids) then Inl ValueError
         else res_map (\<lambda>i. accept_row accept_topk max_paths max_width w (trees ! i) (ids ! i) (argm ! i)
                (case tk of None \<Rightarrow> [] | Some t \<Rightarrow> t ! i) (map (\<lambda>h. h ! i) hidden_sources)) [0..<length trees])"

section \<open>Packing and scattering\<close>

lemma unpack_pack:
  assumes "length rows = length widths" "\<And>i. i < length widths \<Longrightarrow> widths ! i \<le> length (rows ! i)"
  shows "unpack_rows w x widths (map f (pack_rows widths rows))
    = map (\<lambda>i. pad_to w x (map f (take (widths ! i) (rows ! i)))) [0..<length widths]"
  using assms
proof (induction widths arbitrary: rows)
  case (Cons n ns)
  then obtain r rs where rows: "rows = r # rs" by (cases rows) auto
  have n: "n \<le> length r" using Cons.prems(2)[of 0] by (simp add: rows)
  have IH: "unpack_rows w x ns (map f (pack_rows ns rs))
      = map (\<lambda>i. pad_to w x (map f (take (ns ! i) (rs ! i)))) [0..<length ns]"
    by (rule Cons.IH) (use Cons.prems(1) Cons.prems(2)[of "Suc _"] rows in auto)
  have "pack_rows (n # ns) rows = take n r @ pack_rows ns rs" by (simp add: pack_rows_def rows)
  then have "unpack_rows w x (n # ns) (map f (pack_rows (n # ns) rows))
      = pad_to w x (map f (take n r)) # unpack_rows w x ns (map f (pack_rows ns rs))"
    using n by simp
  also have "\<dots> = map (\<lambda>i. pad_to w x (map f (take ((n # ns) ! i) (rows ! i)))) [0..<length (n # ns)]"
    unfolding IH by (simp add: rows map_upt_Suc del: upt_Suc)
  finally show ?case .
qed simp

lemma scatter_pack:
  assumes "length rows = length widths" "\<And>i. i < length widths \<Longrightarrow> widths ! i \<le> length (rows ! i)"
  shows "scatter_rows w widths x (map f (pack_rows widths rows))
    = map (\<lambda>i. pad_to w x (map f (take (widths ! i) (rows ! i)))) [0..<length widths]"
proof (cases "length widths = 1 \<and> widths ! 0 = w")
  case True
  then obtain n where n: "widths = [n]" "n = w" by (cases widths) auto
  then obtain r where r: "rows = [r]" using assms(1) by (cases rows) auto
  have "n \<le> length r" using assms(2)[of 0] by (simp add: n r)
  then show ?thesis using n r by (simp add: scatter_rows_def pack_rows_def pad_to_def)
next
  case False
  then show ?thesis unfolding scatter_rows_def if_not_P[OF False] by (intro unpack_pack[OF assms])
qed

section \<open>Padding does not change acceptance\<close>

lemma run_length_pad [simp]: "run_length (xs @ replicate m False) = run_length xs"
  by (induction xs) (simp_all add: run_length_def)

lemma run_length_False: "run_length (replicate m False) = 0"
  by (cases m) (simp_all add: run_length_def)

lemma argmax_first_pad:
  fixes xs :: "nat list"
  assumes "xs \<noteq> []"
  shows "argmax_first (xs @ replicate m 0) = argmax_first xs"
  using assms argmax_first_facts[OF assms] by (intro argmax_first_unique) (auto simp: nth_append)

lemma Max_argmax: "xs \<noteq> [] \<Longrightarrow> Max (set xs) = xs ! argmax_first xs"
  using argmax_first_facts[of xs] by (intro Max_eqI) (auto simp: in_set_conv_nth)

lemma argmax_first_zero:
  fixes xs :: "nat list"
  assumes "xs \<noteq> []" "xs ! argmax_first xs = 0"
  shows "argmax_first xs = 0"
  using argmax_first_facts[OF assms(1)] assms(2) by (metis gr0I not_less_zero)

lemma match_mask_nth:
  "length c = length l \<Longrightarrow> k < length c - 1 \<Longrightarrow> match_mask topk n c l ! k \<longleftrightarrow>
     (if 1 < n then c ! Suc k \<in> int ` set (topk n (l ! k)) else c ! Suc k = int (argmax_first (l ! k)))"
  by (simp add: match_mask_def nth_tl nth_butlast)

lemma length_match_mask [simp]: "length c = length l \<Longrightarrow> length (match_mask topk n c l) = length c - 1"
  by (simp add: match_mask_def)

text \<open>The retrieve rows of a tree: one common width, in range, each starting at a real node.\<close>

definition retrieve_ok :: "tree_buf \<Rightarrow> bool" where
  "retrieve_ok b \<longleftrightarrow> tb_retrieve b \<noteq> [] \<and> 0 < retrieve_width b
     \<and> (\<forall>row \<in> set (tb_retrieve b). length row = retrieve_width b \<and> 0 \<le> row ! 0
          \<and> (\<forall>r \<in> set row. - 1 \<le> r \<and> r < int (length (tb_tokens b))))"

text \<open>What one request's decisions look like inside the padded batch.\<close>

definition padded_row ::
  "tree_buf \<Rightarrow> 'l::linorder list list \<Rightarrow> (nat \<Rightarrow> 'l list \<Rightarrow> nat list) \<Rightarrow> nat \<Rightarrow> nat \<Rightarrow> nat \<Rightarrow> nat
     \<Rightarrow> token list \<Rightarrow> token list \<Rightarrow> token list list \<Rightarrow> bool" where
  "padded_row b L topk acc w max_paths max_width ids argm tk \<longleftrightarrow>
     retrieve_ok b \<and> length L = length (tb_tokens b) \<and> length (tb_retrieve b) \<le> max_paths
     \<and> retrieve_width b \<le> max_width \<and> length ids = w \<and> length (tb_tokens b) \<le> w
     \<and> (\<forall>q<length (tb_tokens b). ids ! q = tb_tokens b ! q \<and> argm ! q = int (argmax_first (L ! q))
          \<and> (1 < acc \<longrightarrow> tk ! q = map int (topk acc (L ! q))))"

definition safe_node :: "tree_buf \<Rightarrow> int \<Rightarrow> nat" where
  "safe_node b r = (if 0 \<le> r then nat r else length (tb_tokens b) - 1)"

definition path_logits :: "tree_buf \<Rightarrow> 'l list list \<Rightarrow> int list \<Rightarrow> 'l list list" where
  "path_logits b L row = map (\<lambda>r. L ! safe_node b r) row"

definition path_candidates :: "tree_buf \<Rightarrow> int list \<Rightarrow> token list" where
  "path_candidates b row = map (\<lambda>r. if 0 \<le> r then tb_tokens b ! nat r else - 1) row"

definition path_bits ::
  "tree_buf \<Rightarrow> nat \<Rightarrow> nat \<Rightarrow> token list \<Rightarrow> token list \<Rightarrow> token list list \<Rightarrow> int list \<Rightarrow> bool list" where
  "path_bits b acc w ids argm tk row = posterior acc (\<lambda>r. tk ! safe_node b r) (\<lambda>r. argm ! safe_node b r) (\<lambda>r. (ids @ [- 1]) ! (if 0 \<le> r then nat r else w)) row"

lemma row_facts:
  assumes ret: "retrieve_ok b" and "row \<in> set (tb_retrieve b)"
  shows "length row = retrieve_width b" "0 \<le> row ! 0" "\<And>r. r \<in> set row \<Longrightarrow> - 1 \<le> r \<and> r < int (length (tb_tokens b))"
  using ret assms by (auto simp: retrieve_ok_def)

lemma tokens_ne:
  assumes ret: "retrieve_ok b" shows "tb_tokens b \<noteq> []"
proof -
  obtain row where "row \<in> set (tb_retrieve b)" "0 < length row" using ret row_facts(1)
    by (metis list.set_intros(1) neq_Nil_conv retrieve_ok_def)
  then show ?thesis using row_facts(3)[OF ret, of row "row ! 0"] row_facts(2)[OF ret, of row] by auto
qed

lemma safe_less: "retrieve_ok b \<Longrightarrow> r < int (length (tb_tokens b)) \<Longrightarrow> safe_node b r < length (tb_tokens b)"
  using tokens_ne[of b] by (auto simp: safe_node_def)

lemma gather_logits:
  assumes ret: "retrieve_ok b" and lenL: "length L = length (tb_tokens b)"
  shows "gather_rows L (tb_retrieve b) = Inr (map (path_logits b L) (tb_retrieve b))"
proof -
  have ne: "L \<noteq> []" using lenL tokens_ne[OF ret] by auto
  have "py_nth L r = Inr (L ! safe_node b r)" if "- 1 \<le> r" "r < int (length (tb_tokens b))" for r
  proof (cases "r = - 1")
    case True
    then show ?thesis using py_nth_minus_one[OF ne] ne lenL by (simp add: safe_node_def last_conv_nth)
  next
    case False
    then show ?thesis using that lenL by (auto simp: safe_node_def intro!: py_nth_nonneg)
  qed
  then have "res_map (py_nth L) row = Inr (path_logits b L row)" if "row \<in> set (tb_retrieve b)" for row
    unfolding path_logits_def using row_facts(3)[OF ret that] by (intro res_map_ok) blast
  then show ?thesis unfolding gather_rows_def by (rule res_map_ok)
qed

lemma gather_candidates:
  assumes ret: "retrieve_ok b"
  shows "gather_rows (tb_tokens b @ [- 1]) (tb_retrieve b) = Inr (map (path_candidates b) (tb_retrieve b))"
proof -
  have "py_nth (tb_tokens b @ [- 1]) r = Inr (if 0 \<le> r then tb_tokens b ! nat r else - 1)"
    if "- 1 \<le> r" "r < int (length (tb_tokens b))" for r
  proof (cases "r = - 1")
    case True
    then show ?thesis using py_nth_minus_one[of "tb_tokens b @ [- 1]"] by simp
  next
    case False
    then have "0 \<le> r" "nat r < length (tb_tokens b)" using that by auto
    then show ?thesis using py_nth_nonneg[of r "tb_tokens b @ [- 1]"] by (simp add: nth_append)
  qed
  then have "res_map (py_nth (tb_tokens b @ [- 1])) row = Inr (path_candidates b row)" if "row \<in> set (tb_retrieve b)" for row
    unfolding path_candidates_def using row_facts(3)[OF ret that] by (intro res_map_ok) blast
  then show ?thesis unfolding gather_rows_def by (rule res_map_ok)
qed

lemma padded_rowD:
  assumes "padded_row b L topk acc w max_paths max_width ids argm tk"
  shows "retrieve_ok b" "length L = length (tb_tokens b)" "length (tb_retrieve b) \<le> max_paths"
    "retrieve_width b \<le> max_width" "length ids = w" "length (tb_tokens b) \<le> w"
    "\<And>q. q < length (tb_tokens b) \<Longrightarrow> ids ! q = tb_tokens b ! q"
    "\<And>q. q < length (tb_tokens b) \<Longrightarrow> argm ! q = int (argmax_first (L ! q))"
    "\<And>q. 1 < acc \<Longrightarrow> q < length (tb_tokens b) \<Longrightarrow> tk ! q = map int (topk acc (L ! q))"
  using assms by (auto simp: padded_row_def)

lemma decision_nonneg:
  assumes "padded_row b L topk acc w max_paths max_width ids argm tk" "r < int (length (tb_tokens b))"
  shows "1 < acc \<Longrightarrow> t \<in> set (tk ! safe_node b r) \<Longrightarrow> 0 \<le> t" "0 \<le> argm ! safe_node b r"
  using safe_less[OF padded_rowD(1)[OF assms(1)] assms(2)] padded_rowD(8,9)[OF assms(1)] by auto

text \<open>A padded path matches the target exactly where the unpadded one does.\<close>

lemma path_bits_pad:
  assumes pr: "padded_row b L topk acc w max_paths max_width ids argm tk" and row: "row \<in> set (tb_retrieve b)"
  shows "path_bits b acc w ids argm tk (pad_to max_width (- 1) row)
    = match_mask topk acc (path_candidates b row) (path_logits b L row) @ replicate (max_width - retrieve_width b) False"
    (is "?l = ?r")
proof (rule nth_equalityI)
  note P = padded_rowD[OF pr] and rf = row_facts[OF padded_rowD(1)[OF pr] row]
  let ?p = "pad_to max_width (- 1) row" and ?c = "path_candidates b row" and ?g = "path_logits b L row"
  have n: "0 < retrieve_width b" using P(1) by (simp add: retrieve_ok_def)
  have cl: "length ?c = length ?g" "length ?c = retrieve_width b" using rf(1) by (simp_all add: path_candidates_def path_logits_def)
  have lp: "length ?p = max_width" using rf(1) P(4) by simp
  have "length ?l = max_width - 1" using lp by (simp add: path_bits_def posterior_def)
  moreover have "length ?r = retrieve_width b - 1 + (max_width - retrieve_width b)" using cl by simp
  ultimately show "length ?l = length ?r" using P(4) n by linarith
  fix k assume "k < length ?l"
  then have k: "k < max_width - 1" using lp by (simp add: path_bits_def posterior_def)
  have bk: "?l ! k \<longleftrightarrow> (if 1 < acc then (ids @ [- 1]) ! (if 0 \<le> ?p ! Suc k then nat (?p ! Suc k) else w) \<in> set (tk ! safe_node b (?p ! k))
      else (ids @ [- 1]) ! (if 0 \<le> ?p ! Suc k then nat (?p ! Suc k) else w) = argm ! safe_node b (?p ! k))"
    unfolding path_bits_def posterior_def using k lp by (simp add: nth_tl nth_butlast)
  show "?l ! k = ?r ! k"
  proof (cases "Suc k < retrieve_width b")
    case True
    then have p: "?p ! Suc k = row ! Suc k" "?p ! k = row ! k" using rf(1) P(4) by simp_all
    have r: "row ! Suc k \<in> set row" "row ! k \<in> set row" using True rf(1) by simp_all
    have c: "(ids @ [- 1]) ! (if 0 \<le> row ! Suc k then nat (row ! Suc k) else w) = ?c ! Suc k"
      using rf(3)[OF r(1)] P(7)[of "nat (row ! Suc k)"] P(5,6) True rf(1) by (auto simp: path_candidates_def nth_append)
    have s: "safe_node b (row ! k) < length (tb_tokens b)" using rf(3)[OF r(2)] by (intro safe_less[OF P(1)]) simp
    have l: "?g ! k = L ! safe_node b (row ! k)" using True rf(1) by (simp add: path_logits_def)
    have "k < length (match_mask topk acc ?c ?g)" using True cl by simp
    then have "?r ! k = match_mask topk acc ?c ?g ! k" by (simp only: nth_append if_True)
    also have "\<dots> = ?l ! k"
    proof -
      have "k < length ?c - 1" using True cl(2) by simp
      then show ?thesis unfolding match_mask_nth[OF cl(1) \<open>k < length ?c - 1\<close>] bk p c l P(8)[OF s]
        using P(9)[OF _ s] by (cases "1 < acc") simp_all
    qed
    finally show ?thesis by simp
  next
    case False
    then have m: "?p ! Suc k = - 1" using rf(1) k by simp
    have q: "?p ! k < int (length (tb_tokens b))"
    proof (cases "k < length row")
      case True
      then show ?thesis using rf(3)[of "row ! k"] k by simp
    next
      case nk: False
      then show ?thesis using k by simp
    qed
    have "\<not> ?l ! k" unfolding bk m
      using decision_nonneg(1)[OF pr q, of "- 1"] decision_nonneg(2)[OF pr q] P(5) by (auto simp: nth_append)
    moreover have "\<not> k < length (match_mask topk acc ?c ?g)" "k - (retrieve_width b - 1) < max_width - retrieve_width b"
      using False cl k n P(4) by auto
    then have "\<not> ?r ! k" using cl by (simp add: nth_append)
    ultimately show ?thesis by simp
  qed
qed

lemma path_bits_none:
  assumes pr: "padded_row b L topk acc w max_paths max_width ids argm tk"
  shows "path_bits b acc w ids argm tk (replicate max_width (- 1)) = replicate (max_width - 1) False"
proof (rule nth_equalityI)
  show "length (path_bits b acc w ids argm tk (replicate max_width (- 1))) = length (replicate (max_width - 1) False)"
    by (simp add: path_bits_def posterior_def)
  fix k assume "k < length (path_bits b acc w ids argm tk (replicate max_width (- 1)))"
  then have k: "k < max_width - 1" by (simp add: path_bits_def posterior_def)
  have "path_bits b acc w ids argm tk (replicate max_width (- 1)) ! k \<longleftrightarrow>
      (if 1 < acc then - 1 \<in> set (tk ! safe_node b (- 1)) else - 1 = argm ! safe_node b (- 1))"
    unfolding path_bits_def posterior_def using k padded_rowD(5)[OF pr] by (auto simp: nth_tl nth_butlast nth_append)
  then show "path_bits b acc w ids argm tk (replicate max_width (- 1)) ! k = replicate (max_width - 1) False ! k"
    using decision_nonneg(1)[OF pr, of "- 1" "- 1"] decision_nonneg(2)[OF pr, of "- 1"] k by (auto split: if_splits)
qed

text \<open>The accept lengths of the padded paths: those of the real paths, then zeros.\<close>

definition scalar_lens ::
  "(nat \<Rightarrow> 'l list \<Rightarrow> nat list) \<Rightarrow> nat \<Rightarrow> tree_buf \<Rightarrow> 'l::linorder list list \<Rightarrow> nat list" where
  "scalar_lens topk acc b L =
     map (\<lambda>row. run_length (match_mask topk acc (path_candidates b row) (path_logits b L row))) (tb_retrieve b)"

lemma padded_lens:
  assumes pr: "padded_row b L topk acc w max_paths max_width ids argm tk"
  shows "map (\<lambda>p. run_length (path_bits b acc w ids argm tk p)) (pad_retrieve max_paths max_width (tb_retrieve b))
    = scalar_lens topk acc b L @ replicate (max_paths - length (tb_retrieve b)) 0"
  using path_bits_pad[OF pr] path_bits_none[OF pr]
  by (simp add: pad_retrieve_def pad_to_def[of max_paths] scalar_lens_def run_length_False)

lemma scalar_lens_facts:
  assumes "retrieve_ok b"
  shows "scalar_lens topk acc b L \<noteq> []" "length (scalar_lens topk acc b L) = length (tb_retrieve b)"
    "p < length (tb_retrieve b) \<Longrightarrow> scalar_lens topk acc b L ! p < retrieve_width b"
proof -
  show "scalar_lens topk acc b L \<noteq> []" "length (scalar_lens topk acc b L) = length (tb_retrieve b)"
    using assms by (simp_all add: scalar_lens_def retrieve_ok_def)
  assume p: "p < length (tb_retrieve b)"
  let ?row = "tb_retrieve b ! p"
  have "length ?row = retrieve_width b" using row_facts(1)[OF assms] p by simp
  moreover have "0 < retrieve_width b" using assms by (simp add: retrieve_ok_def)
  moreover have "run_length (match_mask topk acc (path_candidates b ?row) (path_logits b L ?row)) \<le> length ?row - 1"
    using run_length_le[of "match_mask topk acc (path_candidates b ?row) (path_logits b L ?row)"]
    by (simp add: path_candidates_def path_logits_def)
  ultimately show "scalar_lens topk acc b L ! p < retrieve_width b" using p by (simp add: scalar_lens_def)
qed

text \<open>Within the accept length of the chosen path every node is real and its token a decision.\<close>

lemma accepted_real:
  assumes pr: "padded_row b L topk acc w max_paths max_width ids argm tk"
    and p: "p < length (tb_retrieve b)" and k: "k < scalar_lens topk acc b L ! p"
  shows "0 \<le> tb_retrieve b ! p ! Suc k" "0 \<le> tb_tokens b ! nat (tb_retrieve b ! p ! Suc k)"
    "nat (tb_retrieve b ! p ! Suc k) < length (tb_tokens b)"
proof -
  note P = padded_rowD[OF pr]
  let ?row = "tb_retrieve b ! p" and ?c = "path_candidates b (tb_retrieve b ! p)" and ?g = "path_logits b L (tb_retrieve b ! p)"
  have cl: "length ?c = length ?g" "length ?c = length ?row" by (simp_all add: path_candidates_def path_logits_def)
  have k': "Suc k < length ?row" using k scalar_lens_facts(3)[OF P(1) p, of topk acc L] row_facts(1)[OF P(1), of ?row] p by simp
  have "match_mask topk acc ?c ?g ! k"
    using k p by (intro run_length_nth) (simp add: scalar_lens_def)
  then have "0 \<le> ?c ! Suc k" using match_mask_nth[OF cl(1), of k topk acc] cl(2) k' by (auto split: if_splits)
  then show r: "0 \<le> ?row ! Suc k" "0 \<le> tb_tokens b ! nat (?row ! Suc k)"
    using k' by (auto simp: path_candidates_def split: if_splits)
  show "nat (?row ! Suc k) < length (tb_tokens b)"
    using row_facts(3)[OF P(1), of ?row "?row ! Suc k"] p k' r(1) by simp
qed

lemma accept_row_scalar:
  assumes pr: "padded_row b L topk acc w max_paths max_width ids argm tk"
  obtains v a where "tree_verify topk acc (\<lambda>_ _ _ _. (L, K)) b ctx cache = Inr v"
    "accept_row acc max_paths max_width w b ids argm tk hidden = Inr a"
    "ac_length a = vf_accept v" "ac_tokens a = vf_tokens v" "ac_next a = vf_next v" "ac_best a = vf_best v"
    "ac_path a = take (vf_accept v + 1) (tb_retrieve b ! vf_best v)" "ac_choices a = vf_choices v"
    "vf_best v < length (tb_retrieve b)" "vf_accept v < retrieve_width b" "length (vf_tokens v) = vf_accept v"
    "vf_cache v = select_cache (length ctx) (take (vf_accept v + 1) (tb_retrieve b ! vf_best v)) K"
proof -
  note P = padded_rowD[OF pr] and sf = scalar_lens_facts[OF padded_rowD(1)[OF pr], where topk = topk and acc = acc and L = L]
  let ?ri = "tb_retrieve b" and ?lens = "scalar_lens topk acc b L"
  let ?paths = "pad_retrieve max_paths max_width ?ri"
  define best where "best = argmax_first ?lens"
  define A where "A = ?lens ! best"
  have bl: "best < length ?ri" using argmax_first_less[OF sf(1)] sf(2) by (simp add: best_def)
  have An: "A < retrieve_width b" using sf(3)[OF bl] by (simp add: A_def)
  have row: "length (?ri ! best) = retrieve_width b" "0 \<le> ?ri ! best ! 0" using row_facts[OF P(1), of "?ri ! best"] bl by simp_all
  have real: "0 \<le> ?ri ! best ! Suc k" "0 \<le> tb_tokens b ! nat (?ri ! best ! Suc k)" "nat (?ri ! best ! Suc k) < length (tb_tokens b)"
    if "k < A" for k using accepted_real[OF pr bl] that by (simp_all add: A_def)
  have sbest: "(if A = 0 then 0 else best) = best"
    using argmax_first_zero[OF sf(1)] by (simp add: A_def best_def)
  have idx: "take A (List.tl (?ri ! best)) = map (\<lambda>k. ?ri ! best ! Suc k) [0..<A]"
    using An row(1) by (intro nth_equalityI) (simp_all add: nth_tl)
  define toks where "toks = map (\<lambda>k. tb_tokens b ! nat (?ri ! best ! Suc k)) [0..<A]"
  have ftoks: "map (\<lambda>i. tb_tokens b ! nat i) (filter (\<lambda>i. 0 \<le> i) (take A (List.tl (?ri ! best)))) = toks"
    unfolding idx toks_def using real(1) by (simp add: filter_True comp_def)
  define v where "v = \<lparr>vf_accept = A, vf_tokens = toks,
      vf_next = int (argmax_first (path_logits b L (?ri ! best) ! A)),
      vf_cache = select_cache (length ctx) (take (A + 1) (?ri ! best)) K, vf_best = best,
      vf_choices = map (\<lambda>l. map (\<lambda>r. int (argmax_first r)) (butlast l)) (map (path_logits b L) ?ri)\<rparr>"
  have zl: "map (\<lambda>(c, l). run_length (match_mask topk acc c l)) (zip (map (path_candidates b) ?ri) (map (path_logits b L) ?ri)) = ?lens"
    by (intro nth_equalityI) (simp_all add: scalar_lens_def)
  have v: "tree_verify topk acc (\<lambda>_ _ _ _. (L, K)) b ctx cache = Inr v"
    unfolding tree_verify_def Let_def prod.case gather_logits[OF P(1,2)] gather_candidates[OF P(1)] res_bind_simps zl
      best_def[symmetric] A_def[symmetric] sbest ftoks v_def
    using P(1) bl by (simp add: retrieve_ok_def)
  have pl: "length ?paths = max_paths" using P(3) by (simp add: pad_retrieve_def)
  have pn: "?paths ! p = pad_to max_width (- 1) (?ri ! p)" if "p < length ?ri" for p
    using that P(3) by (simp add: pad_retrieve_def)
  have ne: "?paths \<noteq> []" "max_width \<noteq> 0" using pl bl P(3,4) An by auto
  have inr: "\<not> (\<exists>row \<in> set ?ri. \<exists>r \<in> set row. int w \<le> r)" using row_facts(3)[OF P(1)] P(6) by force
  have mx: "Max (set (?lens @ replicate (max_paths - length ?ri) 0)) = A"
    using Max_argmax[of "?lens @ replicate (max_paths - length ?ri) 0"] sf(1) argmax_first_less[OF sf(1)]
    by (simp add: argmax_first_pad best_def A_def nth_append)
  have am: "argmax_first (?lens @ replicate (max_paths - length ?ri) 0) = best"
    using sf(1) by (simp add: argmax_first_pad best_def)
  have sel: "?paths ! best = pad_to max_width (- 1) (?ri ! best)" by (rule pn[OF bl])
  have host: "take A (map (\<lambda>k. let i = List.tl (?paths ! best) ! k in if k < A \<and> 0 \<le> i then ids ! nat i else - 1) [0..<max_width - 1]) = toks"
  proof (rule nth_equalityI)
    show "length (take A (map (\<lambda>k. let i = List.tl (?paths ! best) ! k in if k < A \<and> 0 \<le> i then ids ! nat i else - 1) [0..<max_width - 1]))
      = length toks" using An P(4) by (simp add: toks_def)
    fix k assume "k < length (take A (map (\<lambda>k. let i = List.tl (?paths ! best) ! k in if k < A \<and> 0 \<le> i then ids ! nat i else - 1) [0..<max_width - 1]))"
    then have k: "k < A" "k < max_width - 1" by simp_all
    have "List.tl (?paths ! best) ! k = ?ri ! best ! Suc k" using k An row(1) P(4) by (simp add: sel nth_tl)
    then show "take A (map (\<lambda>k. let i = List.tl (?paths ! best) ! k in if k < A \<and> 0 \<le> i then ids ! nat i else - 1) [0..<max_width - 1]) ! k = toks ! k"
      using k real[OF k(1)] P(7) by (simp add: toks_def)
  qed
  have nneg: "\<not> (\<exists>t \<in> set toks. t < 0)" using real(2) by (auto simp: toks_def not_less)
  have s0: "\<not> ?paths ! best ! 0 < 0" using row An P(4) by (simp add: sel)
  have sA: "?paths ! best ! A = ?ri ! best ! A" "0 \<le> ?ri ! best ! A"
    using An row P(4) real(1)[of "A - 1"] by (simp_all add: sel) (cases A; simp)+
  have nx: "argm ! nat (max 0 (?paths ! best ! A)) = vf_next v"
  proof -
    have "?ri ! best ! A < int (length (tb_tokens b))" using row_facts(3)[OF P(1), of "?ri ! best"] bl An row(1) by simp
    then have "nat (?ri ! best ! A) < length (tb_tokens b)" using sA(2) by simp
    then show ?thesis using sA P(8) An row(1) by (simp add: v_def path_logits_def safe_node_def)
  qed
  have ch: "map (\<lambda>(row, p). take (length row - 1) (map (\<lambda>r. argm ! (if 0 \<le> r then nat r else length (tb_tokens b) - 1)) (butlast p)))
      (zip ?ri ?paths) = vf_choices v"
  proof (rule nth_equalityI)
    show "length (map (\<lambda>(row, p). take (length row - 1) (map (\<lambda>r. argm ! (if 0 \<le> r then nat r else length (tb_tokens b) - 1)) (butlast p)))
      (zip ?ri ?paths)) = length (vf_choices v)" using pl P(3) by (simp add: v_def)
    fix p assume "p < length (map (\<lambda>(row, p). take (length row - 1) (map (\<lambda>r. argm ! (if 0 \<le> r then nat r else length (tb_tokens b) - 1)) (butlast p))) (zip ?ri ?paths))"
    then have p: "p < length ?ri" by simp
    have rp: "length (?ri ! p) = retrieve_width b" "\<And>r. r \<in> set (?ri ! p) \<Longrightarrow> r < int (length (tb_tokens b))"
      using row_facts[OF P(1), of "?ri ! p"] p by auto
    have bt: "take (length (?ri ! p) - 1) (butlast (?paths ! p)) = butlast (?ri ! p)"
      using rp(1) P(4) by (simp add: pn[OF p] butlast_conv_take take_take pad_to_def min_def)
    have "argm ! (if 0 \<le> r then nat r else length (tb_tokens b) - 1) = int (argmax_first (L ! safe_node b r))"
      if "r \<in> set (butlast (?ri ! p))" for r
      using P(8)[OF safe_less[OF P(1) rp(2)[OF in_set_butlastD[OF that]]]] by (simp add: safe_node_def)
    then show "map (\<lambda>(row, p). take (length row - 1) (map (\<lambda>r. argm ! (if 0 \<le> r then nat r else length (tb_tokens b) - 1)) (butlast p)))
        (zip ?ri ?paths) ! p = vf_choices v ! p"
      using p pl P(3) by (simp add: v_def take_map bt[simplified] path_logits_def flip: map_butlast)
  qed
  define a where "a = \<lparr>ac_length = A, ac_tokens = toks, ac_next = vf_next v, ac_best = best,
      ac_path = take (A + 1) (?paths ! best), ac_choices = vf_choices v,
      ac_candidates = map (\<lambda>(row, p). take (length row) (map (\<lambda>r. (ids @ [- 1]) ! (if 0 \<le> r then nat r else w)) p)) (zip ?ri ?paths),
      ac_hidden = map (\<lambda>i. map (\<lambda>h. h ! nat (max 0 i)) hidden) (take (A + 1) (?paths ! best))\<rparr>"
  have pb: "map (\<lambda>p. run_length (posterior acc (\<lambda>r. tk ! (if 0 \<le> r then nat r else length (tb_tokens b) - 1))
      (\<lambda>r. argm ! (if 0 \<le> r then nat r else length (tb_tokens b) - 1)) (\<lambda>r. (ids @ [- 1]) ! (if 0 \<le> r then nat r else w)) p)) ?paths
      = ?lens @ replicate (max_paths - length ?ri) 0"
    using padded_lens[OF pr] by (simp add: path_bits_def safe_node_def)
  have ok: "\<not> (?paths = [] \<or> max_width = 0 \<or> (\<exists>row \<in> set ?ri. \<exists>r \<in> set row. int w \<le> r))"
    using ne inr by simp
  have "accept_row acc max_paths max_width w b ids argm tk hidden = Inr a"
    unfolding accept_row_def Let_def pb mx am if_not_P[OF ok] if_not_P[OF s0] host[unfolded Let_def]
      if_not_P[OF nneg] nx ch a_def by (rule refl)
  moreover have "take (A + 1) (?paths ! best) = take (A + 1) (?ri ! best)" using An row(1) by (simp add: sel)
  ultimately show ?thesis
    by (intro that[OF v]) (auto simp: a_def v_def bl An toks_def)
qed

section \<open>The whole batch\<close>

definition row_logits :: "('h \<Rightarrow> 'l list) \<Rightarrow> tree_buf \<Rightarrow> 'h list \<Rightarrow> 'l list list" where
  "row_logits head b hid = map head (take (length (tb_tokens b)) hid)"

lemma decisions_ok:
  assumes ne: "trees \<noteq> []" and len: "length hidden = length trees"
    and rows: "\<And>i. i < length trees \<Longrightarrow> tb_tokens (trees ! i) \<noteq> [] \<and> length (hidden ! i) = max_list (tree_widths trees)"
    and head: "\<And>h. acc \<le> length (head h)" and acc: "1 \<le> acc"
  shows "project_tree_decisions topk (int acc) head (max_list (tree_widths trees)) (tree_widths trees) hidden =
    Inr (map (\<lambda>i. pad_to (max_list (tree_widths trees)) 0 (map (\<lambda>l. int (argmax_first l)) (row_logits head (trees ! i) (hidden ! i)))) [0..<length trees],
      if 1 < acc then Some (map (\<lambda>i. pad_to (max_list (tree_widths trees)) (replicate acc 0)
           (map (\<lambda>l. map int (topk acc l)) (row_logits head (trees ! i) (hidden ! i)))) [0..<length trees]) else None,
      length (pack_rows (tree_widths trees) hidden))"
proof -
  let ?w = "max_list (tree_widths trees)" and ?ws = "tree_widths trees"
  have lw: "length hidden = length ?ws" using len by (simp add: tree_widths_def)
  have le: "?ws ! i \<le> length (hidden ! i)" if "i < length ?ws" for i
    using that rows[of i] max_list_ge[OF nth_mem[OF that]] by (simp add: tree_widths_def)
  have g: "\<not> (\<exists>n \<in> set ?ws. n = 0 \<or> ?w < n)" using max_list_ge[of _ ?ws] rows
    by (fastforce simp: tree_widths_def in_set_conv_nth)
  obtain b bs where t: "trees = b # bs" using ne by (cases trees) auto
  obtain r rs where h: "hidden = r # rs" using len t by (cases hidden) auto
  have "0 < length (tb_tokens b)" "length (tb_tokens b) \<le> length r"
    using rows[of 0] le[of 0] t h by (simp_all add: tree_widths_def)
  then have "take (length (tb_tokens b)) r \<noteq> []" by (cases r) auto
  then have pne: "pack_rows ?ws hidden \<noteq> []" by (simp add: pack_rows_def tree_widths_def t h)
  have f: "map f (map head (pack_rows ?ws hidden)) = map (\<lambda>h. f (head h)) (pack_rows ?ws hidden)" for f :: "'b list \<Rightarrow> 'c"
    by simp
  have acc': "\<not> (int acc \<le> 0 \<or> int (length (map head (pack_rows ?ws hidden) ! 0)) < int acc)"
    using acc head pne by (simp add: not_less)
  have sc: "scatter_rows ?w ?ws x (map f (map head (pack_rows ?ws hidden)))
      = map (\<lambda>i. pad_to ?w x (map f (row_logits head (trees ! i) (hidden ! i)))) [0..<length trees]" for x and f :: "'b list \<Rightarrow> 'c"
    unfolding f by (subst scatter_pack[OF lw le]) (simp_all add: row_logits_def tree_widths_def comp_def cong: map_cong)
  show ?thesis
    unfolding project_tree_decisions_def Let_def if_not_P[OF g] if_not_P[OF acc'] sc using lw by simp
qed

lemma res_map_Inr_ex:
  assumes "\<And>i. i < n \<Longrightarrow> \<exists>y. f i = Inr y \<and> Q i y"
  obtains ys where "res_map f [0..<n] = Inr ys" "length ys = n" "\<forall>i<n. Q i (ys ! i)"
proof -
  obtain g where g: "\<And>i. i < n \<Longrightarrow> f i = Inr (g i) \<and> Q i (g i)" using assms by metis
  have "res_map f [0..<n] = Inr (map g [0..<n])" by (rule res_map_ok) (use g in auto)
  then show ?thesis by (rule that) (use g in auto)
qed

definition matches_scalar :: "tree_buf \<Rightarrow> 'l verified \<Rightarrow> 'h accepted \<Rightarrow> bool" where
  "matches_scalar b v a \<longleftrightarrow> ac_length a = vf_accept v \<and> ac_tokens a = vf_tokens v \<and> ac_next a = vf_next v
     \<and> ac_best a = vf_best v \<and> ac_path a = take (vf_accept v + 1) (tb_retrieve b ! vf_best v) \<and> ac_choices a = vf_choices v"

lemma accept_batch_ok:
  assumes ne: "trees \<noteq> []" and ret: "\<And>b. b \<in> set trees \<Longrightarrow> retrieve_ok b"
    and pk: "pack_trees pad (zip trees plens) = (ids, pos, widths, w)" "length plens = length trees"
    and hid: "length hidden = length trees" "\<And>i. i < length trees \<Longrightarrow> length (hidden ! i) = w"
    and head: "\<And>h. acc \<le> length (head h)" and acc: "1 \<le> acc" and tk: "topk_op topk"
    and hs: "length hs = 3" "\<And>h. h \<in> set hs \<Longrightarrow> map length h = replicate (length trees) w"
  obtains argm topks n as where "project_tree_decisions topk (int acc) head w widths hidden = Inr (argm, topks, n)"
    "accept_active_batch acc trees ids argm topks hs = Inr as" "length as = length trees"
    "\<forall>i<length trees. \<exists>v. tree_verify topk acc (\<lambda>_ _ _ _. (row_logits head (trees ! i) (hidden ! i), K)) (trees ! i) ctx cache = Inr v
       \<and> matches_scalar (trees ! i) v (as ! i)"
proof -
  have fz: "map fst (zip trees plens) = trees" using pk(2) by simp
  have W: "widths = tree_widths trees" "w = max_list (tree_widths trees)"
    and ids: "ids = map (\<lambda>(b, plen). pad_to w pad (tb_tokens b)) (zip trees plens)"
    using pk(1) unfolding pack_trees_def Let_def fz by auto
  have idn: "ids ! i = pad_to w pad (tb_tokens (trees ! i))" "length ids = length trees" if "i < length trees" for i
    using that pk(2) by (simp_all add: ids)
  have wle: "length (tb_tokens (trees ! i)) \<le> w" if "i < length trees" for i
    unfolding W by (rule max_list_ge) (use that in \<open>auto simp: tree_widths_def\<close>)
  define argm where "argm = map (\<lambda>i. pad_to w 0 (map (\<lambda>l. int (argmax_first l)) (row_logits head (trees ! i) (hidden ! i)))) [0..<length trees]"
  define topks where "topks = (if 1 < acc then Some (map (\<lambda>i. pad_to w (replicate acc 0)
      (map (\<lambda>l. map int (topk acc l)) (row_logits head (trees ! i) (hidden ! i)))) [0..<length trees]) else None)"
  have dec: "project_tree_decisions topk (int acc) head w widths hidden = Inr (argm, topks, length (pack_rows widths hidden))"
    unfolding argm_def topks_def W
    by (rule decisions_ok[OF ne hid(1) _ head acc]) (use tokens_ne[OF ret] hid(2) in \<open>auto simp: W(2)[symmetric]\<close>)
  have rl: "length (row_logits head (trees ! i) (hidden ! i)) = length (tb_tokens (trees ! i))" if "i < length trees" for i
    using wle[OF that] hid(2)[OF that] by (simp add: row_logits_def)
  have w: "query_width ids = w" using idn[of 0] ne wle[of 0] by (cases ids) (auto simp: query_width_def)
  have lids: "length ids = length trees" using pk(2) by (simp add: ids)
  have lens: "map length ids = replicate (length trees) w" "map length argm = replicate (length trees) w"
    using idn(1) lids wle rl by (auto intro!: nth_equalityI simp: argm_def)
  have tkn: "map (map length) t = map (\<lambda>row. replicate (length row) acc) ids" if "topks = Some t" for t
  proof (rule nth_equalityI)
    have t: "1 < acc" "t = map (\<lambda>i. pad_to w (replicate acc 0)
        (map (\<lambda>l. map int (topk acc l)) (row_logits head (trees ! i) (hidden ! i)))) [0..<length trees]"
      using that by (auto simp: topks_def split: if_splits)
    show "length (map (map length) t) = length (map (\<lambda>row. replicate (length row) acc) ids)"
      using t pk(2) by (simp add: ids)
    fix i assume "i < length (map (map length) t)"
    then have i: "i < length trees" using t by simp
    have "length (topk acc l) = acc" if "l \<in> set (row_logits head (trees ! i) (hidden ! i))" for l
      using that head topk_op.topk_length[OF tk, of acc l] by (auto simp: row_logits_def)
    then have "map length (pad_to w (replicate acc 0) (map (\<lambda>l. map int (topk acc l)) (row_logits head (trees ! i) (hidden ! i)))) = replicate w acc"
      using rl[OF i] wle[OF i] by (auto simp: pad_to_def intro!: nth_equalityI simp: nth_append)
    then show "map (map length) t ! i = map (\<lambda>row. replicate (length row) acc) ids ! i"
      using i t idn[OF i] wle[OF i] by simp
  qed
  let ?mp = "max_list (map (\<lambda>b. length (tb_retrieve b)) trees)" and ?mw = "max_list (map retrieve_width trees)"
  let ?row = "\<lambda>i. accept_row acc ?mp ?mw w (trees ! i) (ids ! i) (argm ! i) (case topks of None \<Rightarrow> [] | Some t \<Rightarrow> t ! i) (map (\<lambda>h. h ! i) hs)"
  have "\<exists>a. ?row i = Inr a \<and> (\<exists>v. tree_verify topk acc (\<lambda>_ _ _ _. (row_logits head (trees ! i) (hidden ! i), K)) (trees ! i) ctx cache = Inr v
       \<and> matches_scalar (trees ! i) v a)" if i: "i < length trees" for i
  proof -
    have "padded_row (trees ! i) (row_logits head (trees ! i) (hidden ! i)) topk acc w ?mp ?mw (ids ! i) (argm ! i)
        (case topks of None \<Rightarrow> [] | Some t \<Rightarrow> t ! i)"
      unfolding padded_row_def using i ret[OF nth_mem[OF i]] rl[OF i] wle[OF i] idn[OF i]
      by (auto simp: argm_def topks_def intro!: max_list_ge)
    then show ?thesis unfolding matches_scalar_def
      by (rule accept_row_scalar[where K = K and ctx = ctx and cache = cache and hidden = "map (\<lambda>h. h ! i) hs"]) simp
  qed
  then obtain as where as: "res_map ?row [0..<length trees] = Inr as" "length as = length trees"
    "\<forall>i<length trees. \<exists>v. tree_verify topk acc (\<lambda>_ _ _ _. (row_logits head (trees ! i) (hidden ! i), K)) (trees ! i) ctx cache = Inr v
       \<and> matches_scalar (trees ! i) v (as ! i)"
    by (rule res_map_Inr_ex)
  have tg: "\<not> (1 < acc \<and> (case topks of None \<Rightarrow> True | Some t \<Rightarrow> map (map length) t \<noteq> map (\<lambda>row. replicate (length row) acc) ids))"
    using tkn by (auto simp: topks_def split: option.split)
  have "accept_active_batch acc trees ids argm topks hs = Inr as"
    unfolding accept_active_batch_def Let_def w if_not_P[OF tg] using lens hs as(1) by simp
  from that[OF dec this as(2)] as(3) show ?thesis by blast
qed

text \<open>Buffers of a well-formed tree have legal retrieve rows.\<close>

lemma buf_for_retrieve_ok:
  assumes "buf_for par b"
  shows "retrieve_ok b"
proof -
  have wf: "wf_par par" using assms by (simp add: buf_for_def)
  have rows: "\<exists>leaf<length par. row = leaf_row par (tree_height par) leaf \<and> node_depth par leaf \<le> tree_height par"
    if "row \<in> set (tb_retrieve b)" for row
    using assms that buffer_leaves_less node_depth_le_height by (fastforce simp: buf_for_def)
  have len: "length row = Suc (tree_height par)" if "row \<in> set (tb_retrieve b)" for row
    using rows[OF that] by (auto simp: leaf_row_eq length_root_path)
  have rw: "retrieve_width b = Suc (tree_height par)"
    using len buf_for_retrieve_ne[OF assms] by (cases "tb_retrieve b") (auto simp: retrieve_width_def)
  have "0 \<le> row ! 0 \<and> (\<forall>r \<in> set row. - 1 \<le> r \<and> r < int (length (tb_tokens b)))" if row: "row \<in> set (tb_retrieve b)" for row
  proof -
    obtain leaf where l: "leaf < length par" "row = leaf_row par (tree_height par) leaf" using rows[OF row] by auto
    then have "row ! 0 = 0" using root_path_hd[OF wf l(1)] by (simp add: leaf_row_eq nth_append length_root_path)
    moreover have "- 1 \<le> r \<and> r < int (length (tb_tokens b))" if "r \<in> set row" for r
      using that l root_path_bound[of _ par leaf] assms by (force simp: leaf_row_eq buf_for_def)
    ultimately show ?thesis by simp
  qed
  then show ?thesis using buf_for_retrieve_ne[OF assms] rw len by (simp add: retrieve_ok_def)
qed

text \<open>
  C11.  Batching does not change what is accepted: for requests whose trees have different
  widths and path counts, packed into one padded rectangle, every request is accepted exactly
  as the scalar verification accepts its own tree from the same logits: the same accept
  length, tokens, bonus token, path and target choices, also under the relaxed top-k
  acceptance.
\<close>

theorem accept_batch_matches_scalar:
  assumes "trees \<noteq> []" "\<forall>b \<in> set trees. retrieve_ok b" "length plens = length trees"
    and "pack_trees pad (zip trees plens) = (ids, pos, widths, w)"
    and "map length hidden = replicate (length trees) w"
    and "\<forall>h. acc \<le> length (head h)" "1 \<le> acc" "topk_op topk"
    and "length hs = 3" "\<forall>h \<in> set hs. map length h = replicate (length trees) w"
  shows "\<exists>argm topks n as. project_tree_decisions topk (int acc) head w widths hidden = Inr (argm, topks, n)
    \<and> accept_active_batch acc trees ids argm topks hs = Inr as \<and> length as = length trees
    \<and> (\<forall>i<length trees. \<exists>v. tree_verify topk acc (\<lambda>_ _ _ _. (row_logits head (trees ! i) (hidden ! i), K))
          (trees ! i) ctx cache = Inr v \<and> matches_scalar (trees ! i) v (as ! i))"
proof -
  have lh: "length hidden = length trees" using assms(5) by (metis length_map length_replicate)
  have lr: "length (hidden ! i) = w" if "i < length trees" for i
    using that lh arg_cong[OF assms(5), of "\<lambda>xs. xs ! i"] by simp
  have ret: "\<And>b. b \<in> set trees \<Longrightarrow> retrieve_ok b" and hd: "\<And>h. acc \<le> length (head h)"
    and hs: "\<And>h. h \<in> set hs \<Longrightarrow> map length h = replicate (length trees) w" using assms(2,6,10) by auto
  show ?thesis
    by (rule accept_batch_ok[where head = head and K = K and ctx = ctx and cache = cache,
          OF assms(1) ret assms(4,3) lh lr hd assms(7-9) hs]) blast+
qed

definition witness_trees :: "tree_buf list" where
  "witness_trees = [build_tree_buffers 3 [4, 3, 1, 2] [- 1, 0, - 1, 1], build_tree_buffers 2 [1] [- 1]]"

definition witness_head :: "nat \<Rightarrow> int list" where
  "witness_head h = map (\<lambda>k. if k = h mod 5 then 1 else 0) [0..<5]"

definition witness_hidden :: "nat list list" where
  "witness_hidden = [[4, 3, 1, 2, 0], [1, 7, 0, 0, 0]]"

theorem accept_batch_matches_scalar_witness:
  "\<exists>argm topks n as. project_tree_decisions sort_topk 1 witness_head 5 [5, 2] witness_hidden = Inr (argm, topks, n)
    \<and> accept_active_batch 1 witness_trees [[3, 4, 3, 1, 2], [2, 1, 0, 0, 0]] argm topks
        [witness_hidden, witness_hidden, witness_hidden] = Inr as
    \<and> length as = 2 \<and> ac_tokens (as ! 1) = [1] \<and> ac_next (as ! 1) = 2"
proof -
  have pk: "pack_trees 0 (zip witness_trees [7, 9]) =
      ([[3, 4, 3, 1, 2], [2, 1, 0, 0, 0]], [[7, 8, 9, 8, 10], [9, 10, 9, 9, 9]], [5, 2], 5)" by code_simp
  have r: "\<forall>b \<in> set witness_trees. retrieve_ok b" by code_simp
  have v: "(case tree_verify sort_topk 1 (\<lambda>_ _ _ _. (row_logits witness_head (witness_trees ! 1) (witness_hidden ! 1), []))
      (witness_trees ! 1) [] [] of Inr v \<Rightarrow> vf_tokens v = [1] \<and> vf_next v = 2 | Inl e \<Rightarrow> False)" by code_simp
  have l: "length witness_trees = 2" "witness_trees \<noteq> []" by code_simp+
  have hl: "map length witness_hidden = replicate (length witness_trees) 5" by code_simp
  have "\<exists>argm topks n as. project_tree_decisions sort_topk (int 1) witness_head 5 [5, 2] witness_hidden = Inr (argm, topks, n)
    \<and> accept_active_batch 1 witness_trees [[3, 4, 3, 1, 2], [2, 1, 0, 0, 0]] argm topks
        [witness_hidden, witness_hidden, witness_hidden] = Inr as
    \<and> length as = length witness_trees
    \<and> (\<forall>i<length witness_trees. \<exists>v. tree_verify sort_topk 1
         (\<lambda>_ _ _ _. (row_logits witness_head (witness_trees ! i) (witness_hidden ! i), [])) (witness_trees ! i) [] [] = Inr v
         \<and> matches_scalar (witness_trees ! i) v (as ! i))"
    by (rule accept_batch_matches_scalar[OF l(2) r _ pk hl])
       (use hl sorttopk.topk_op_axioms in \<open>simp_all add: l(1) witness_head_def\<close>)
  then obtain argm topks n as vv where h: "project_tree_decisions sort_topk (int 1) witness_head 5 [5, 2] witness_hidden = Inr (argm, topks, n)"
    "accept_active_batch 1 witness_trees [[3, 4, 3, 1, 2], [2, 1, 0, 0, 0]] argm topks
        [witness_hidden, witness_hidden, witness_hidden] = Inr as" "length as = length witness_trees"
    "tree_verify sort_topk 1 (\<lambda>_ _ _ _. (row_logits witness_head (witness_trees ! 1) (witness_hidden ! 1), [])) (witness_trees ! 1) [] [] = Inr vv"
    "matches_scalar (witness_trees ! 1) vv (as ! 1)"
    using l(1) by (metis one_less_numeral_iff semiring_norm(76))
  then show ?thesis using v l(1) by (auto simp: matches_scalar_def)
qed

end
