(* ===== verification/Target_Cache.thy ===== *)
theory Target_Cache
  imports Prelude "HOL-Library.Multiset"
begin

text \<open>
  The persistent key/value storage of the request-batched target model:
  \<open>_DenseTargetCacheLayer\<close> and \<open>_DenseTargetCache\<close> of \<open>specblock_batch.py\<close> and the copy
  kernels of \<open>target_kv_copy_triton.py\<close>.

  A slot of a layer holds the pair of a key and a value vector; it is a value of type
  \<open>'e\<close> here and \<open>z\<close> is the zero vector.  A layer has one list of slots per batch row.  Both
  storage modes are covered: with shared storage the owner clears the gap between the
  committed prefix and the staged tree once for all layers, otherwise every layer clears its
  own gap when it is written.
\<close>

section \<open>Slices of a row\<close>

definition fill_where :: "'e \<Rightarrow> (nat \<Rightarrow> bool) \<Rightarrow> 'e list \<Rightarrow> 'e list" where
  "fill_where z P row = map (\<lambda>i. if P i then z else row ! i) [0..<length row]"

definition write_at :: "nat \<Rightarrow> 'e list \<Rightarrow> 'e list \<Rightarrow> 'e list" where
  "write_at s xs row = map (\<lambda>i. if s \<le> i \<and> i < s + length xs then xs ! (i - s) else row ! i) [0..<length row]"

lemma fill_where_simps [shape_simps, simp]:
  "length (fill_where z P row) = length row"
  "i < length row \<Longrightarrow> fill_where z P row ! i = (if P i then z else row ! i)"
  by (simp_all add: fill_where_def)

lemma write_at_simps [shape_simps, simp]:
  "length (write_at s xs row) = length row"
  "i < length row \<Longrightarrow> write_at s xs row ! i = (if s \<le> i \<and> i < s + length xs then xs ! (i - s) else row ! i)"
  by (simp_all add: write_at_def)

text \<open>Apply a row function to the first rows only: the tensor slice \<open>[0:n]\<close> of the batch.\<close>

definition map_prefix :: "nat \<Rightarrow> (nat \<Rightarrow> 'a \<Rightarrow> 'a) \<Rightarrow> 'a list \<Rightarrow> 'a list" where
  "map_prefix n f xs = map (\<lambda>i. if i < n then f i (xs ! i) else xs ! i) [0..<length xs]"

lemma map_prefix_simps [shape_simps, simp]:
  "length (map_prefix n f xs) = length xs"
  "i < length xs \<Longrightarrow> map_prefix n f xs ! i = (if i < n then f i (xs ! i) else xs ! i)"
  by (simp_all add: map_prefix_def)

section \<open>One layer\<close>

record 'e cache_layer =
  cl_max :: nat
  cl_attention :: nat
  cl_committed :: nat
  cl_write :: nat
  cl_gap_start :: nat
  cl_gap_mask :: "bool list list option"
  cl_gap_cleared :: bool
  cl_rows :: "'e list list option"

definition new_layer :: "nat \<Rightarrow> 'e cache_layer" where
  "new_layer max_cache_len = \<lparr>cl_max = max_cache_len, cl_attention = 0, cl_committed = 0, cl_write = 0,
     cl_gap_start = 0, cl_gap_mask = None, cl_gap_cleared = False, cl_rows = None\<rparr>"

text \<open>\<open>lazy_initialization\<close>: zeros for the first batch that is written.\<close>

definition lazy_rows :: "'e \<Rightarrow> nat \<Rightarrow> 'e cache_layer \<Rightarrow> 'e cache_layer" where
  "lazy_rows z batch l =
     (case cl_rows l of Some rs \<Rightarrow> l | None \<Rightarrow> l\<lparr>cl_rows := Some (replicate batch (replicate (cl_max l) z))\<rparr>)"

definition clear_gap :: "'e \<Rightarrow> nat \<Rightarrow> 'e cache_layer \<Rightarrow> 'e list list \<Rightarrow> 'e list list" where
  "clear_gap z batch l rows =
     (if cl_gap_cleared l then rows
      else case cl_gap_mask l of
        None \<Rightarrow> map_prefix batch (\<lambda>_. fill_where z (\<lambda>i. cl_committed l \<le> i \<and> i < cl_write l)) rows
      | Some m \<Rightarrow> map_prefix batch (\<lambda>r. fill_where z
            (\<lambda>i. cl_gap_start l \<le> i \<and> i < cl_write l \<and> m ! r ! (i - cl_gap_start l))) rows)"

definition query_len :: "'e list list \<Rightarrow> nat" where
  "query_len kv = (case kv of [] \<Rightarrow> 0 | r # _ \<Rightarrow> length r)"

definition layer_update ::
  "'e \<Rightarrow> 'e list list \<Rightarrow> nat list option \<Rightarrow> 'e cache_layer \<Rightarrow> ('e cache_layer \<times> 'e list list) res" where
  "layer_update z kv cache_position l0 =
     (let l = lazy_rows z (length kv) l0; rows = the (cl_rows l); q = query_len kv;
          write_end = cl_write l + q
      in case cache_position of None \<Rightarrow> Inl ValueError
         | Some cp \<Rightarrow>
             if length rows < length kv then Inl ValueError
             else if length cp \<noteq> q then Inl ValueError
             else if cl_max l < write_end \<or> cl_attention l < write_end then Inl ValueError
             else if \<not> cl_gap_cleared l \<and> (case cl_gap_mask l of None \<Rightarrow> False | Some m \<Rightarrow> length m \<noteq> length kv)
             then Inl ValueError
             else let rows' = map_prefix (length kv) (\<lambda>r. write_at (cl_write l) (kv ! r))
                                (clear_gap z (length kv) l rows)
                  in Inr (l\<lparr>cl_rows := Some rows'\<rparr>, map (take (cl_attention l)) (take (length kv) rows')))"

text \<open>New storage after growth: zeros with the first \<open>preserve_width\<close> slots of every row kept.\<close>

definition grow_row :: "'e \<Rightarrow> nat \<Rightarrow> nat \<Rightarrow> 'e list \<Rightarrow> 'e list" where
  "grow_row z max_cache_len preserve_width row =
     map (\<lambda>i. if i < preserve_width then row ! i else z) [0..<max_cache_len]"

definition layer_resize :: "'e \<Rightarrow> nat \<Rightarrow> nat \<Rightarrow> 'e cache_layer \<Rightarrow> 'e cache_layer" where
  "layer_resize z max_cache_len preserve_width l =
     (if max_cache_len \<le> cl_max l then l
      else l\<lparr>cl_max := max_cache_len,
             cl_rows := map_option (map (grow_row z max_cache_len preserve_width)) (cl_rows l)\<rparr>)"

section \<open>The cache of all layers\<close>

record 'e dense_cache =
  dc_max_batch :: nat
  dc_prompt_width :: nat
  dc_committed_capacity :: nat
  dc_max_tree_width :: nat
  dc_capacity :: nat
  dc_active :: nat
  dc_attention :: nat
  dc_committed :: nat
  dc_tree_start :: nat
  dc_tree_width :: nat
  dc_commit_reserve :: nat
  dc_shared :: bool
  dc_layers :: "'e cache_layer list"

definition sync_layer_state :: "nat \<Rightarrow> nat \<Rightarrow> bool list list option \<Rightarrow> 'e dense_cache \<Rightarrow> 'e dense_cache" where
  "sync_layer_state write_start gap_start gap_mask c =
     c\<lparr>dc_layers := map (\<lambda>l. l\<lparr>cl_attention := dc_attention c, cl_committed := dc_committed c,
         cl_write := write_start, cl_gap_start := gap_start, cl_gap_mask := gap_mask,
         cl_gap_cleared := False\<rparr>) (dc_layers c)\<rparr>"

definition prepare_prefill :: "'e dense_cache \<Rightarrow> 'e dense_cache" where
  "prepare_prefill c = sync_layer_state 0 0 None
     (c\<lparr>dc_active := dc_max_batch c, dc_attention := dc_prompt_width c, dc_committed := dc_prompt_width c,
        dc_tree_start := dc_prompt_width c, dc_tree_width := 0, dc_commit_reserve := 0\<rparr>)"

definition dense_init :: "bool \<Rightarrow> nat \<Rightarrow> nat \<Rightarrow> nat \<Rightarrow> nat \<Rightarrow> nat \<Rightarrow> 'e dense_cache" where
  "dense_init shared num_layers max_batch_size prompt_width max_new_tokens max_tree_width =
     (let cc = prompt_width + max_new_tokens; cap = cc + 2 * max_tree_width
      in sync_layer_state 0 0 None
        \<lparr>dc_max_batch = max_batch_size, dc_prompt_width = prompt_width, dc_committed_capacity = cc,
         dc_max_tree_width = max_tree_width, dc_capacity = cap, dc_active = max_batch_size,
         dc_attention = prompt_width, dc_committed = prompt_width, dc_tree_start = prompt_width,
         dc_tree_width = 0, dc_commit_reserve = 0, dc_shared = shared,
         dc_layers = replicate num_layers (new_layer cap)\<rparr>)"

text \<open>\<open>_lazy_initialize_storage\<close> and the update of one layer during a forward pass.\<close>

definition lazy_storage :: "'e \<Rightarrow> nat \<Rightarrow> 'e dense_cache \<Rightarrow> 'e dense_cache" where
  "lazy_storage z batch c =
     (if dc_shared c then c\<lparr>dc_layers := map (lazy_rows z batch) (dc_layers c)\<rparr> else c)"

definition cache_update ::
  "'e \<Rightarrow> nat list option \<Rightarrow> nat \<times> 'e list list \<Rightarrow> 'e dense_cache \<Rightarrow> 'e dense_cache res" where
  "cache_update z cache_position ikv c0 =
     (case ikv of (i, kv) \<Rightarrow>
        let c = (if cl_rows (dc_layers c0 ! i) = None then lazy_storage z (length kv) c0 else c0)
        in res_bind (layer_update z kv cache_position (dc_layers c ! i))
             (\<lambda>(l, view). Inr (c\<lparr>dc_layers := (dc_layers c)[i := l]\<rparr>)))"

text \<open>A forward pass updates the layers in order.\<close>

fun forward_updates ::
  "'e \<Rightarrow> nat list option \<Rightarrow> (nat \<times> 'e list list) list \<Rightarrow> 'e dense_cache \<Rightarrow> 'e dense_cache res" where
  "forward_updates z cp [] c = Inr c"
| "forward_updates z cp (ikv # kvs) c = res_bind (cache_update z cp ikv c) (forward_updates z cp kvs)"

definition resize_cache :: "'e \<Rightarrow> nat \<Rightarrow> nat \<Rightarrow> 'e dense_cache \<Rightarrow> 'e dense_cache" where
  "resize_cache z max_cache_len preserve_width c =
     (if dc_shared c
      then c\<lparr>dc_layers := map (\<lambda>l. l\<lparr>cl_max := max_cache_len,
             cl_rows := map_option (map (grow_row z max_cache_len preserve_width)) (cl_rows l)\<rparr>) (dc_layers c)\<rparr>
      else c\<lparr>dc_layers := map (layer_resize z max_cache_len preserve_width) (dc_layers c)\<rparr>)"

text \<open>The owner clears the gap of all layers once when storage is shared.\<close>

definition clear_shared_gap :: "'e \<Rightarrow> nat \<Rightarrow> 'e dense_cache \<Rightarrow> 'e dense_cache" where
  "clear_shared_gap z gap_start c =
     (if dc_shared c \<and> list_all (\<lambda>l. cl_rows l \<noteq> None) (dc_layers c) \<and> gap_start < dc_tree_start c
      then c\<lparr>dc_layers := map (\<lambda>l. l\<lparr>cl_rows := Some (clear_gap z (dc_active c) l (the (cl_rows l))),
             cl_gap_cleared := True\<rparr>) (dc_layers c)\<rparr>
      else c)"

definition gap_mask_rows :: "nat \<Rightarrow> nat \<Rightarrow> nat list \<Rightarrow> bool list list" where
  "gap_mask_rows gap_start tree_start pre =
     map (\<lambda>p. map (\<lambda>pos. p \<le> pos) [gap_start..<tree_start]) pre"

definition prepare_tree ::
  "'e \<Rightarrow> int \<Rightarrow> int list \<Rightarrow> int \<Rightarrow> 'e dense_cache \<Rightarrow> 'e dense_cache res" where
  "prepare_tree z tree_width prefix_lengths commit_reserve c =
     (if length prefix_lengths \<noteq> dc_active c then Inl ValueError
      else if tree_width \<le> 0 then Inl ValueError
      else if commit_reserve < 0 \<or> tree_width < commit_reserve then Inl ValueError
      else if \<exists>n \<in> set prefix_lengths. n < 0 \<or> int (dc_committed_capacity c) < n then Inl ValueError
      else if prefix_lengths = [] then Inl ValueError
      else
        let w = nat tree_width; pre = map nat prefix_lengths;
            committed = Max (set pre); lo = Min (set pre);
            start = committed + nat commit_reserve; attention = start + w;
            mtw = max (dc_max_tree_width c) w;
            c1 = c\<lparr>dc_max_tree_width := mtw\<rparr>;
            cap = max attention (dc_committed_capacity c + 2 * mtw);
            c2 = (if dc_capacity c < attention
                  then resize_cache z cap committed (c1\<lparr>dc_capacity := cap\<rparr>) else c1);
            c3 = c2\<lparr>dc_attention := attention, dc_committed := committed, dc_tree_start := start,
                    dc_tree_width := w, dc_commit_reserve := nat commit_reserve\<rparr>;
            gap_start = (if lo \<noteq> committed then lo else committed);
            gap_mask = (if lo \<noteq> committed then Some (gap_mask_rows lo start pre) else None)
        in Inr (clear_shared_gap z gap_start (sync_layer_state start gap_start gap_mask c3)))"

definition tree_cache_position :: "int \<Rightarrow> 'e dense_cache \<Rightarrow> nat list res" where
  "tree_cache_position tree_width c =
     (if tree_width \<noteq> int (dc_tree_width c) then Inl ValueError
      else Inr [dc_tree_start c..<dc_tree_start c + nat tree_width])"

section \<open>Committing accepted paths\<close>

text \<open>
  One program of \<open>_copy_selected_kv_kernel\<close>: the slot \<open>src\<close> of a row is copied to \<open>dst\<close>, when row
  and both slots are in range.  The kernel starts one program per copy in no particular
  order.
\<close>

definition copy_program :: "int \<times> int \<times> int \<Rightarrow> 'e list list \<Rightarrow> 'e list list" where
  "copy_program m rows =
     (case m of (row, dst, src) \<Rightarrow>
        if 0 \<le> row \<and> row < int (length rows) \<and> 0 \<le> src \<and> src < int (length (rows ! nat row))
           \<and> 0 \<le> dst \<and> dst < int (length (rows ! nat row))
        then rows[nat row := (rows ! nat row)[nat dst := rows ! nat row ! nat src]]
        else rows)"

definition copy_selected_kv :: "(int \<times> int \<times> int) list \<Rightarrow> 'e list list \<Rightarrow> 'e list list" where
  "copy_selected_kv copies rows = fold copy_program copies rows"

type_synonym commit_request = "int \<times> int \<times> int list"

definition commit_guard :: "'e dense_cache \<Rightarrow> commit_request \<Rightarrow> bool" where
  "commit_guard c req =
     (case req of (row, plen, sel) \<Rightarrow>
        0 \<le> row \<and> row < int (dc_active c) \<and> 0 \<le> plen \<and> plen \<le> int (dc_committed c)
        \<and> length sel \<le> dc_commit_reserve c \<and> plen + int (length sel) \<le> int (dc_committed_capacity c)
        \<and> plen + int (length sel) \<le> int (dc_tree_start c))"

definition request_copies :: "nat \<Rightarrow> commit_request \<Rightarrow> (int \<times> int \<times> int) list" where
  "request_copies tree_start req =
     (case req of (row, plen, sel) \<Rightarrow>
        map (\<lambda>k. (row, plen + int k, sel ! k + int tree_start)) [0..<length sel])"

definition commit_paths :: "commit_request list \<Rightarrow> 'e dense_cache \<Rightarrow> ('e dense_cache \<times> nat list) res" where
  "commit_paths requests c =
     (if requests = [] then Inr (c, [])
      else if \<not> list_all (commit_guard c) requests then Inl ValueError
      else
        let counts = map (\<lambda>(_, _, sel). length sel) requests;
            width = fold (\<lambda>(_, plen, sel) w. max w (nat plen + length sel)) requests (dc_committed c);
            copies = concat (map (request_copies (dc_tree_start c)) requests)
        in if copies = [] then Inr (c\<lparr>dc_committed := width\<rparr>, counts)
           else if \<exists>req \<in> set requests. \<exists>s \<in> set (snd (snd req)). s < 0 \<or> int (dc_tree_width c) \<le> s
           then Inl RuntimeError
           else Inr (c\<lparr>dc_committed := width, dc_layers := map (\<lambda>l. l\<lparr>cl_rows :=
                  map_option (copy_selected_kv copies) (cl_rows l)\<rparr>) (dc_layers c)\<rparr>, counts))"

definition compact_cache_rows :: "nat list \<Rightarrow> 'e dense_cache \<Rightarrow> 'e dense_cache res" where
  "compact_cache_rows idxs c =
     (if idxs = [0..<length idxs] then Inr (c\<lparr>dc_active := length idxs\<rparr>)
      else if \<exists>i \<in> set idxs. dc_max_batch c \<le> i then Inl IndexError
      else Inr (c\<lparr>dc_active := length idxs, dc_layers := map (\<lambda>l. l\<lparr>cl_rows := map_option
             (\<lambda>rows. map_prefix (length idxs)
                (\<lambda>r. write_at 0 (take (dc_committed c) (rows ! (idxs ! r)))) rows) (cl_rows l)\<rparr>) (dc_layers c)\<rparr>))"

section \<open>Storage invariant\<close>

definition layer_ok :: "nat \<Rightarrow> nat \<Rightarrow> 'e cache_layer \<Rightarrow> bool" where
  "layer_ok batch cap l \<longleftrightarrow> cl_max l = cap
     \<and> (\<exists>rs. cl_rows l = Some rs \<and> length rs = batch \<and> (\<forall>r \<in> set rs. length r = cap))"

lemma layer_ok_code [code]:
  "layer_ok batch cap l \<longleftrightarrow> cl_max l = cap
     \<and> (case cl_rows l of None \<Rightarrow> False | Some rs \<Rightarrow> length rs = batch \<and> (\<forall>r \<in> set rs. length r = cap))"
  by (auto simp: layer_ok_def split: option.split)

definition cache_ok :: "'e dense_cache \<Rightarrow> bool" where
  "cache_ok c \<longleftrightarrow> (\<forall>l \<in> set (dc_layers c). layer_ok (dc_max_batch c) (dc_capacity c) l)
     \<and> dc_active c \<le> dc_max_batch c"

text \<open>The slots of a row of a layer.\<close>

definition cache_row :: "'e dense_cache \<Rightarrow> nat \<Rightarrow> nat \<Rightarrow> 'e list" where
  "cache_row c l r = the (cl_rows (dc_layers c ! l)) ! r"

lemma cache_ok_row:
  assumes "cache_ok c" "l < length (dc_layers c)"
  obtains rs where "cl_rows (dc_layers c ! l) = Some rs" "length rs = dc_max_batch c"
    "\<And>r. r < dc_max_batch c \<Longrightarrow> length (rs ! r) = dc_capacity c" "\<And>r. cache_row c l r = rs ! r"
  using assms nth_mem[OF assms(2)] unfolding cache_ok_def layer_ok_def cache_row_def by fastforce

lemma length_cache_row:
  "cache_ok c \<Longrightarrow> l < length (dc_layers c) \<Longrightarrow> r < dc_max_batch c \<Longrightarrow> length (cache_row c l r) = dc_capacity c"
  by (metis cache_ok_row)

section \<open>Forward passes\<close>

lemma lazy_rows_idem: "lazy_rows z n (lazy_rows z n l) = lazy_rows z n l"
  by (simp add: lazy_rows_def split: option.split)

lemma layer_update_lazy: "length kv = n \<Longrightarrow> layer_update z kv cp (lazy_rows z n l) = layer_update z kv cp l"
  by (auto simp: layer_update_def lazy_rows_idem)

lemma cache_update_layers:
  assumes "i < length (dc_layers c)" "length kv = b"
    and "layer_update z kv cp (dc_layers c ! i) = Inr (l', v)"
  obtains c' where "cache_update z cp (i, kv) c = Inr c'" "c' = c\<lparr>dc_layers := dc_layers c'\<rparr>"
    "length (dc_layers c') = length (dc_layers c)" "dc_layers c' ! i = l'"
    "\<And>j. j < length (dc_layers c) \<Longrightarrow> j \<noteq> i \<Longrightarrow>
       dc_layers c' ! j = dc_layers c ! j \<or> dc_layers c' ! j = lazy_rows z b (dc_layers c ! j)"
    "\<And>j. j < length (dc_layers c) \<Longrightarrow> j \<noteq> i \<Longrightarrow> cl_rows (dc_layers c ! j) \<noteq> None \<Longrightarrow> dc_layers c' ! j = dc_layers c ! j"
proof -
  define d where "d = (if cl_rows (dc_layers c ! i) = None then lazy_storage z (length kv) c else c)"
  have d: "d = c \<or> d = c\<lparr>dc_layers := map (lazy_rows z b) (dc_layers c)\<rparr>"
    using assms(2) by (auto simp: d_def lazy_storage_def)
  then have u: "layer_update z kv cp (dc_layers d ! i) = Inr (l', v)"
    using assms by (auto simp: layer_update_lazy)
  have ld: "length (dc_layers d) = length (dc_layers c)" using d by auto
  have old: "dc_layers d ! j = dc_layers c ! j" if "j < length (dc_layers c)" "cl_rows (dc_layers c ! j) \<noteq> None" for j
    using d that by (auto simp: lazy_rows_def)
  show ?thesis
  proof (rule that)
    show "cache_update z cp (i, kv) c = Inr (d\<lparr>dc_layers := (dc_layers d)[i := l']\<rparr>)"
      by (simp add: cache_update_def d_def[symmetric] u)
  qed (use d old ld assms(1) in \<open>auto simp: nth_list_update\<close>)
qed

text \<open>
  A forward pass over all layers succeeds when every layer's own update does; the order of
  lazy initialisation (one layer at a time or all at once) makes no difference.
\<close>

lemma forward_updates_from:
  assumes "length (dc_layers c) = k + length kvs"
    and "\<And>i. i < length kvs \<Longrightarrow> length (kvs ! i) = b
      \<and> layer_update z (kvs ! i) cp (dc_layers c ! (k + i)) = Inr (l' (k + i), v (k + i))"
    and "\<And>j. j < k \<Longrightarrow> cl_rows (dc_layers c ! j) \<noteq> None"
    and "\<And>i. k \<le> i \<Longrightarrow> i < k + length kvs \<Longrightarrow> cl_rows (l' i) \<noteq> None"
  shows "forward_updates z cp (enumerate k kvs) c
    = Inr (c\<lparr>dc_layers := take k (dc_layers c) @ map l' [k..<k + length kvs]\<rparr>)"
  using assms
proof (induction kvs arbitrary: c k)
  case Nil
  then show ?case by simp
next
  case (Cons kv kvs)
  have k: "k < length (dc_layers c)" using Cons.prems(1) by simp
  have b: "length kv = b" and u: "layer_update z kv cp (dc_layers c ! k) = Inr (l' k, v k)"
    using Cons.prems(2)[of 0] by auto
  obtain c' where c': "cache_update z cp (k, kv) c = Inr c'" "c' = c\<lparr>dc_layers := dc_layers c'\<rparr>"
    "length (dc_layers c') = length (dc_layers c)" "dc_layers c' ! k = l' k"
    "\<And>j. j < length (dc_layers c) \<Longrightarrow> j \<noteq> k \<Longrightarrow>
       dc_layers c' ! j = dc_layers c ! j \<or> dc_layers c' ! j = lazy_rows z b (dc_layers c ! j)"
    "\<And>j. j < length (dc_layers c) \<Longrightarrow> j \<noteq> k \<Longrightarrow> cl_rows (dc_layers c ! j) \<noteq> None \<Longrightarrow> dc_layers c' ! j = dc_layers c ! j"
    using cache_update_layers[OF k b u] by metis
  have low: "dc_layers c' ! j = dc_layers c ! j" if "j < k" for j
    using c'(6)[of j] Cons.prems(3)[OF that] that k by auto
  have up: "length (kvs ! i) = b
      \<and> layer_update z (kvs ! i) cp (dc_layers c' ! (Suc k + i)) = Inr (l' (Suc k + i), v (Suc k + i))"
    if "i < length kvs" for i
    using Cons.prems(2)[of "Suc i"] c'(5)[of "Suc k + i"] that Cons.prems(1) by (auto simp: layer_update_lazy)
  have "forward_updates z cp (enumerate (Suc k) kvs) c'
      = Inr (c'\<lparr>dc_layers := take (Suc k) (dc_layers c') @ map l' [Suc k..<Suc k + length kvs]\<rparr>)"
  proof (rule Cons.IH)
    show "cl_rows (dc_layers c' ! j) \<noteq> None" if "j < Suc k" for j
      using that low[of j] Cons.prems(3)[of j] Cons.prems(4)[of k] c'(4) by (cases "j = k") auto
  qed (use up Cons.prems c'(3) in auto)
  moreover have "take (Suc k) (dc_layers c') = take k (dc_layers c) @ [l' k]"
    using low c'(3,4) k by (auto simp: take_Suc_conv_app_nth intro!: nth_equalityI)
  moreover have "c'\<lparr>dc_layers := xs\<rparr> = c\<lparr>dc_layers := xs\<rparr>" for xs by (subst c'(2)) simp
  moreover have "map l' [k..<k + length (kv # kvs)] = l' k # map l' [Suc k..<Suc k + length kvs]"
    by (simp add: upt_conv_Cons del: upt_Suc)
  ultimately show ?case using c'(1) by (simp del: upt_Suc)
qed

section \<open>Preparing and staging a tree\<close>

lemma clear_gap_length [simp]: "length (clear_gap z n l rows) = length rows"
  by (simp add: clear_gap_def split: option.split)

lemma clear_gap_row_length [simp]: "r < length rows \<Longrightarrow> length (clear_gap z n l rows ! r) = length (rows ! r)"
  by (simp add: clear_gap_def split: option.split)

text \<open>What the gap looks like after clearing, whichever of the two masks describes it.\<close>

lemma clear_gap_nth:
  assumes "\<not> cl_gap_cleared l" "cl_write l = start" "cl_committed l = Max (set pre)"
    and "cl_gap_start l = (if Min (set pre) \<noteq> Max (set pre) then Min (set pre) else Max (set pre))"
    and "cl_gap_mask l = (if Min (set pre) \<noteq> Max (set pre) then Some (gap_mask_rows (Min (set pre)) start pre) else None)"
    and "r < length rows" "r < length pre" "i < length (rows ! r)" "i < start"
  shows "clear_gap z (length pre) l rows ! r ! i = (if i < pre ! r then rows ! r ! i else z)"
proof -
  have mm: "Min (set pre) \<le> pre ! r" "pre ! r \<le> Max (set pre)" using assms(7) by simp_all
  show ?thesis
  proof (cases "Min (set pre) = Max (set pre)")
    case True
    then have "pre ! r = Max (set pre)" using mm by simp
    then show ?thesis using assms True by (simp add: clear_gap_def)
  next
    case False
    have "gap_mask_rows (Min (set pre)) start pre ! r ! (i - Min (set pre)) \<longleftrightarrow> pre ! r \<le> i"
      if "Min (set pre) \<le> i" using that assms(7,9) by (simp add: gap_mask_rows_def)
    moreover have "i < pre ! r" if "\<not> Min (set pre) \<le> i" using that mm(1) by (meson le_less_trans not_le order.strict_trans1 not_less)
    ultimately show ?thesis using assms False by (auto simp: clear_gap_def)
  qed
qed

text \<open>A prepared layer: where it will write, and what its rows hold below that once cleared.\<close>

definition layer_ready ::
  "'e \<Rightarrow> nat list \<Rightarrow> nat \<Rightarrow> nat \<Rightarrow> (nat \<Rightarrow> 'e list) \<Rightarrow> 'e cache_layer \<Rightarrow> bool" where
  "layer_ready z pre start w old l \<longleftrightarrow>
     cl_write l = start \<and> cl_attention l = start + w \<and> cl_rows l \<noteq> None
     \<and> (\<forall>m. \<not> cl_gap_cleared l \<longrightarrow> cl_gap_mask l = Some m \<longrightarrow> length m = length pre)
     \<and> (\<forall>r<length pre. \<forall>i<start. clear_gap z (length pre) l (the (cl_rows l)) ! r ! i
          = (if i < pre ! r then old r ! i else z))
     \<and> (\<forall>r<length pre. pre ! r \<le> start \<and> (\<forall>i<pre ! r. the (cl_rows l) ! r ! i = old r ! i))"

lemma clear_shared_ready:
  assumes "\<And>l. l < length (dc_layers c) \<Longrightarrow> layer_ready z pre start w (old l) (dc_layers c ! l)"
    and "length pre = dc_active c" "l < length (dc_layers c)"
  shows "layer_ready z pre start w (old l) (dc_layers (clear_shared_gap z g c) ! l)"
proof -
  let ?l = "dc_layers c ! l"
  have a: "layer_ready z pre start w (old l) ?l" using assms by simp
  have cut: "clear_gap z (dc_active c) ?l (the (cl_rows ?l)) ! r ! i = old l r ! i"
    if "r < dc_active c" "i < pre ! r" for r i
    using a that assms(2) less_le_trans[of i "pre ! r" start] by (simp add: layer_ready_def)
  have "clear_gap z n (?l\<lparr>cl_rows := x, cl_gap_cleared := True\<rparr>) rows = rows" for n x rows
    by (simp add: clear_gap_def)
  then have "layer_ready z pre start w (old l)
      (?l\<lparr>cl_rows := Some (clear_gap z (dc_active c) ?l (the (cl_rows ?l))), cl_gap_cleared := True\<rparr>)"
    using a assms(2) cut by (simp add: layer_ready_def)
  then show ?thesis using a assms(3) by (simp add: clear_shared_gap_def)
qed

lemma clear_shared_fields [simp]:
  "dc_active (clear_shared_gap z g c) = dc_active c" "dc_max_batch (clear_shared_gap z g c) = dc_max_batch c"
  "dc_capacity (clear_shared_gap z g c) = dc_capacity c"
  "dc_committed_capacity (clear_shared_gap z g c) = dc_committed_capacity c"
  "dc_committed (clear_shared_gap z g c) = dc_committed c" "dc_tree_start (clear_shared_gap z g c) = dc_tree_start c"
  "dc_tree_width (clear_shared_gap z g c) = dc_tree_width c"
  "dc_commit_reserve (clear_shared_gap z g c) = dc_commit_reserve c"
  "dc_attention (clear_shared_gap z g c) = dc_attention c"
  "length (dc_layers (clear_shared_gap z g c)) = length (dc_layers c)"
  by (simp_all add: clear_shared_gap_def)

lemma layer_ok_clear:
  "layer_ok b cap l \<Longrightarrow> layer_ok b cap (l\<lparr>cl_rows := Some (clear_gap z n l (the (cl_rows l))), cl_gap_cleared := True\<rparr>)"
  by (auto simp: layer_ok_def in_set_conv_nth[of _ "clear_gap z n l _"])

lemma cache_ok_clear: "cache_ok c \<Longrightarrow> cache_ok (clear_shared_gap z g c)"
  unfolding cache_ok_def clear_shared_fields by (auto simp: clear_shared_gap_def intro!: layer_ok_clear)

lemma sync_fields [simp]:
  "dc_active (sync_layer_state a b m c) = dc_active c" "dc_max_batch (sync_layer_state a b m c) = dc_max_batch c"
  "dc_capacity (sync_layer_state a b m c) = dc_capacity c"
  "dc_committed_capacity (sync_layer_state a b m c) = dc_committed_capacity c"
  "dc_committed (sync_layer_state a b m c) = dc_committed c" "dc_tree_start (sync_layer_state a b m c) = dc_tree_start c"
  "dc_tree_width (sync_layer_state a b m c) = dc_tree_width c"
  "dc_commit_reserve (sync_layer_state a b m c) = dc_commit_reserve c"
  "dc_attention (sync_layer_state a b m c) = dc_attention c" "dc_shared (sync_layer_state a b m c) = dc_shared c"
  "dc_prompt_width (sync_layer_state a b m c) = dc_prompt_width c"
  "length (dc_layers (sync_layer_state a b m c)) = length (dc_layers c)"
  by (simp_all add: sync_layer_state_def)

lemma cache_ok_sync: "cache_ok c \<Longrightarrow> cache_ok (sync_layer_state a b m c)"
  by (auto simp: cache_ok_def layer_ok_def sync_layer_state_def)

text \<open>Growing keeps the committed slots.\<close>

lemma resize_cache_ok:
  assumes "cache_ok c" "dc_capacity c < cap" "keep \<le> dc_capacity c"
    and d_def: "d = resize_cache z cap keep (c\<lparr>dc_capacity := cap\<rparr>)"
  shows "cache_ok d" "length (dc_layers d) = length (dc_layers c)"
    "l < length (dc_layers c) \<Longrightarrow> r < dc_max_batch c \<Longrightarrow> i < keep \<Longrightarrow> cache_row d l r ! i = cache_row c l r ! i"
    "d = c\<lparr>dc_capacity := cap, dc_layers := dc_layers d\<rparr>"
proof -
  have ly: "dc_layers d = map (\<lambda>l. l\<lparr>cl_max := cap, cl_rows := map_option (map (grow_row z cap keep)) (cl_rows l)\<rparr>) (dc_layers c)"
    using assms(1,2) by (auto simp: d_def resize_cache_def layer_resize_def cache_ok_def layer_ok_def)
  show d: "d = c\<lparr>dc_capacity := cap, dc_layers := dc_layers d\<rparr>" by (simp add: d_def resize_cache_def)
  show "length (dc_layers d) = length (dc_layers c)" using ly by simp
  have f: "dc_max_batch d = dc_max_batch c" "dc_capacity d = cap" "dc_active d = dc_active c"
    by (subst d, simp)+
  show "cache_ok d" using assms(1) unfolding cache_ok_def f ly by (fastforce simp: layer_ok_def grow_row_def)
  assume l: "l < length (dc_layers c)" and r: "r < dc_max_batch c" and i: "i < keep"
  obtain rs where rs: "cl_rows (dc_layers c ! l) = Some rs" "length rs = dc_max_batch c" "\<And>r. cache_row c l r = rs ! r"
    using cache_ok_row[OF assms(1) l] by metis
  show "cache_row d l r ! i = cache_row c l r ! i"
    unfolding rs(3) unfolding cache_row_def ly using l r i rs(1,2) assms(2,3) by (simp add: grow_row_def)
qed

lemma prepare_tree_ok:
  assumes ok: "cache_ok c" and pre: "length pre = dc_active c" "pre \<noteq> []"
    "\<And>p. p \<in> set pre \<Longrightarrow> p \<le> dc_committed_capacity c" "\<And>p. p \<in> set pre \<Longrightarrow> p \<le> dc_capacity c" and w: "0 < w" "res \<le> w"
  obtains c1 where "prepare_tree z (int w) (map int pre) (int res) c = Inr c1" "cache_ok c1"
    "dc_active c1 = dc_active c" "dc_max_batch c1 = dc_max_batch c"
    "dc_committed_capacity c1 = dc_committed_capacity c" "dc_committed c1 = Max (set pre)"
    "dc_tree_start c1 = Max (set pre) + res" "dc_tree_width c1 = w" "dc_commit_reserve c1 = res"
    "dc_tree_start c1 + w \<le> dc_capacity c1" "dc_capacity c \<le> dc_capacity c1"
    "length (dc_layers c1) = length (dc_layers c)"
    "\<And>l. l < length (dc_layers c) \<Longrightarrow>
       layer_ready z pre (Max (set pre) + res) w (cache_row c l) (dc_layers c1 ! l)"
proof -
  let ?M = "Max (set pre)" and ?lo = "Min (set pre)"
  let ?start = "?M + res" and ?mtw = "max (dc_max_tree_width c) w"
  let ?cap = "max (?start + w) (dc_committed_capacity c + 2 * ?mtw)"
  let ?gs = "if ?lo \<noteq> ?M then ?lo else ?M" and ?gm = "if ?lo \<noteq> ?M then Some (gap_mask_rows ?lo ?start pre) else None"
  define c1 where "c1 = c\<lparr>dc_max_tree_width := ?mtw\<rparr>"
  define c2 where "c2 = (if dc_capacity c < ?start + w then resize_cache z ?cap ?M (c1\<lparr>dc_capacity := ?cap\<rparr>) else c1)"
  define c3 where "c3 = c2\<lparr>dc_attention := ?start + w, dc_committed := ?M, dc_tree_start := ?start,
      dc_tree_width := w, dc_commit_reserve := res\<rparr>"
  define c4 where "c4 = sync_layer_state ?start ?gs ?gm c3"
  have eq: "prepare_tree z (int w) (map int pre) (int res) c = Inr (clear_shared_gap z ?gs c4)"
    using pre w unfolding prepare_tree_def by (auto simp: Let_def comp_def c1_def c2_def c3_def c4_def not_less)
  have ok1: "cache_ok c1" using ok by (simp add: c1_def cache_ok_def)
  have M: "?M \<le> dc_capacity c1" using pre Max_in[of "set pre"] by (simp add: c1_def)
  have row1: "cache_row c1 l r = cache_row c l r" for l r by (simp add: c1_def cache_row_def)
  have c2: "cache_ok c2 \<and> length (dc_layers c2) = length (dc_layers c)
      \<and> dc_max_batch c2 = dc_max_batch c \<and> dc_active c2 = dc_active c
      \<and> dc_committed_capacity c2 = dc_committed_capacity c
      \<and> ?start + w \<le> dc_capacity c2 \<and> dc_capacity c \<le> dc_capacity c2
      \<and> (\<forall>l<length (dc_layers c). \<forall>r<dc_max_batch c. \<forall>i<?M. cache_row c2 l r ! i = cache_row c l r ! i)"
  proof (cases "dc_capacity c < ?start + w")
    case True
    then have lt: "dc_capacity c1 < ?cap" by (simp add: c1_def)
    have "c2 = resize_cache z ?cap ?M (c1\<lparr>dc_capacity := ?cap\<rparr>)" using True by (simp add: c2_def)
    note rz = resize_cache_ok[OF ok1 lt M this]
    have "dc_max_batch c2 = dc_max_batch c1" "dc_active c2 = dc_active c1"
      "dc_committed_capacity c2 = dc_committed_capacity c1" "dc_capacity c2 = ?cap" by (subst rz(4), simp)+
    then show ?thesis using rz(1-3) True unfolding row1 by (simp add: c1_def)
  next
    case False
    then have "c2 = c1" by (simp add: c2_def)
    then show ?thesis using False ok1 row1 by (simp add: c1_def)
  qed
  have ok3: "cache_ok c3" using conjunct1[OF c2] by (simp add: c3_def cache_ok_def)
  have ready: "layer_ready z pre ?start w (cache_row c l) (dc_layers c4 ! l)" if l: "l < length (dc_layers c4)" for l
  proof -
    have l2: "l < length (dc_layers c2)" using l by (simp add: c4_def c3_def)
    obtain rs where rs: "cl_rows (dc_layers c2 ! l) = Some rs" "length rs = dc_max_batch c2"
      "\<And>r. r < dc_max_batch c2 \<Longrightarrow> length (rs ! r) = dc_capacity c2" "\<And>r. cache_row c2 l r = rs ! r"
      using cache_ok_row[OF _ l2] c2 by metis
    have ly: "dc_layers c4 ! l = (dc_layers c2 ! l)\<lparr>cl_attention := ?start + w, cl_committed := ?M,
        cl_write := ?start, cl_gap_start := ?gs, cl_gap_mask := ?gm, cl_gap_cleared := False\<rparr>"
      using l2 by (simp add: c4_def c3_def sync_layer_state_def)
    have "clear_gap z (length pre) (dc_layers c4 ! l) rs ! r ! i = (if i < pre ! r then cache_row c l r ! i else z)"
      if r: "r < length pre" and i: "i < ?start" for r i
    proof -
      have rb: "r < dc_max_batch c" using r pre(1) ok by (simp add: cache_ok_def)
      have "clear_gap z (length pre) (dc_layers c4 ! l) rs ! r ! i = (if i < pre ! r then rs ! r ! i else z)"
        by (rule clear_gap_nth[where start = ?start]) (use r i rs rb c2 in \<open>simp_all add: ly\<close>)
      moreover have "i < ?M" if "i < pre ! r" using that r by (metis Max_ge finite_set less_le_trans nth_mem)
      ultimately show ?thesis using c2 rs(4) rb l2 by auto
    qed
    moreover have "pre ! r \<le> ?start \<and> (\<forall>i<pre ! r. rs ! r ! i = cache_row c l r ! i)" if r: "r < length pre" for r
    proof -
      have "r < dc_max_batch c" using r pre(1) ok by (simp add: cache_ok_def)
      moreover have "pre ! r \<le> ?M" using r by simp
      ultimately show ?thesis using c2 rs(4) l2 by (auto simp: trans_le_add1)
    qed
    ultimately show ?thesis unfolding layer_ready_def using rs(1) by (simp add: ly gap_mask_rows_def)
  qed
  have f4: "dc_active c4 = dc_active c" "dc_max_batch c4 = dc_max_batch c" "dc_committed_capacity c4 = dc_committed_capacity c"
    "dc_committed c4 = ?M" "dc_tree_start c4 = ?start" "dc_tree_width c4 = w" "dc_commit_reserve c4 = res"
    "dc_capacity c4 = dc_capacity c2" "length (dc_layers c4) = length (dc_layers c)"
    using c2 by (simp_all add: c4_def c3_def)
  have ok5: "cache_ok (clear_shared_gap z ?gs c4)"
    unfolding c4_def by (rule cache_ok_clear[OF cache_ok_sync[OF ok3]])
  have rdy: "layer_ready z pre ?start w (cache_row c l) (dc_layers (clear_shared_gap z ?gs c4) ! l)"
    if "l < length (dc_layers c)" for l
    using clear_shared_ready[OF ready, of l ?gs] that pre(1) f4 by simp
  show ?thesis
    by (rule that[OF eq ok5 _ _ _ _ _ _ _ _ _ _ rdy]) (use c2 in \<open>simp_all only: clear_shared_fields f4\<close>)
qed

text \<open>Writing the staged tree into a prepared layer.\<close>

lemma layer_update_ready:
  assumes rdy: "layer_ready z pre start w old l" and ok: "layer_ok b cap l" and cap: "start + w \<le> cap"
    and kv: "length kv = length pre" "pre \<noteq> []" "\<And>r. r < length pre \<Longrightarrow> length (kv ! r) = w" "length pre \<le> b"
    and cp: "length cp = w"
  obtains l' v rs where "layer_update z kv (Some cp) l = Inr (l', v)" "layer_ok b cap l'" "cl_rows l' = Some rs"
    "\<And>r i. r < length pre \<Longrightarrow> i < start \<Longrightarrow> rs ! r ! i = (if i < pre ! r then old r ! i else z)"
    "\<And>r i. r < length pre \<Longrightarrow> i < w \<Longrightarrow> rs ! r ! (start + i) = kv ! r ! i"
proof -
  obtain rs0 where rs0: "cl_rows l = Some rs0" "length rs0 = b" "\<And>r. r < b \<Longrightarrow> length (rs0 ! r) = cap"
    using ok nth_mem unfolding layer_ok_def by metis
  have lz: "lazy_rows z n l = l" for n by (simp add: lazy_rows_def rs0)
  have q: "query_len kv = w" using kv by (cases kv; cases pre) (force simp: query_len_def)+
  let ?rs = "map_prefix (length kv) (\<lambda>r. write_at (cl_write l) (kv ! r)) (clear_gap z (length kv) l rs0)"
  have mask: "\<not> (\<not> cl_gap_cleared l \<and> (case cl_gap_mask l of None \<Rightarrow> False | Some m \<Rightarrow> length m \<noteq> length kv))"
    using rdy kv(1) by (auto simp: layer_ready_def split: option.split)
  have g: "cl_write l = start" "cl_attention l = start + w" "cl_max l = cap" "\<not> length rs0 < length kv"
    using rdy ok kv(1,4) rs0(2) by (auto simp: layer_ready_def layer_ok_def)
  have u: "layer_update z kv (Some cp) l = Inr (l\<lparr>cl_rows := Some ?rs\<rparr>, map (take (cl_attention l)) (take (length kv) ?rs))"
    unfolding layer_update_def Let_def lz q option.case rs0(1) option.sel if_not_P[OF mask] if_not_P[OF g(4)]
    using g cap cp by simp
  have c: "clear_gap z (length pre) l rs0 ! r ! i = (if i < pre ! r then old r ! i else z)"
    if "r < length pre" "i < start" for r i using rdy that rs0(1) by (auto simp: layer_ready_def)
  have wr: "cl_write l = start" using rdy by (simp add: layer_ready_def)
  have lr: "length (?rs ! r) = cap" if "r < b" for r using that rs0 by simp
  have lrs: "length ?rs = b" using rs0(2) by simp
  have "\<forall>x \<in> set ?rs. length x = cap" using lr lrs by (metis in_set_conv_nth)
  then have "layer_ok b cap (l\<lparr>cl_rows := Some ?rs\<rparr>)"
    using g(3) lrs by (simp add: layer_ok_def)
  then show ?thesis
  proof (rule that[OF u])
    fix r i assume r: "r < length pre"
    then have rb: "r < b" using kv(4) by simp
    show "?rs ! r ! i = (if i < pre ! r then old r ! i else z)" if "i < start"
      using that r rb c[OF r that] kv cap wr rs0 by simp
    show "?rs ! r ! (start + i) = kv ! r ! i" if "i < w"
      using that r rb kv cap wr rs0 by simp
  qed simp
qed

lemma stage_tree:
  assumes ok: "cache_ok c" and pre: "length pre = dc_active c" "pre \<noteq> []"
    "\<And>p. p \<in> set pre \<Longrightarrow> p \<le> dc_committed_capacity c" "\<And>p. p \<in> set pre \<Longrightarrow> p \<le> dc_capacity c" and w: "0 < w" "res \<le> w"
    and kvs: "length kvs = length (dc_layers c)"
      "\<And>l. l < length kvs \<Longrightarrow> length (kvs ! l) = length pre \<and> (\<forall>r<length pre. length (kvs ! l ! r) = w)"
  obtains c1 c2 where "prepare_tree z (int w) (map int pre) (int res) c = Inr c1"
    "dc_tree_start c1 = Max (set pre) + res" "length (dc_layers c1) = length (dc_layers c)"
    "\<forall>l<length kvs. \<forall>r<length pre. \<forall>i<pre ! r. cache_row c1 l r ! i = cache_row c l r ! i"
    "tree_cache_position (int w) c1 = Inr [dc_tree_start c1..<dc_tree_start c1 + w]"
    "forward_updates z (Some [dc_tree_start c1..<dc_tree_start c1 + w]) (enumerate 0 kvs) c1 = Inr c2"
    "cache_ok c2" "dc_active c2 = dc_active c" "dc_max_batch c2 = dc_max_batch c"
    "dc_committed_capacity c2 = dc_committed_capacity c" "dc_committed c2 = Max (set pre)"
    "dc_tree_start c2 = Max (set pre) + res" "dc_tree_width c2 = w" "dc_commit_reserve c2 = res"
    "dc_capacity c \<le> dc_capacity c2" "dc_tree_start c2 + w \<le> dc_capacity c2" "length (dc_layers c2) = length (dc_layers c)"
    "\<forall>l<length kvs. \<forall>r<length pre. \<forall>i<dc_tree_start c2.
       cache_row c2 l r ! i = (if i < pre ! r then cache_row c l r ! i else z)"
    "\<forall>l<length kvs. \<forall>r<length pre. \<forall>i<w. cache_row c2 l r ! (dc_tree_start c2 + i) = kvs ! l ! r ! i"
proof -
  let ?start = "Max (set pre) + res"
  obtain c1 where c1: "prepare_tree z (int w) (map int pre) (int res) c = Inr c1" "cache_ok c1"
    "dc_active c1 = dc_active c" "dc_max_batch c1 = dc_max_batch c"
    "dc_committed_capacity c1 = dc_committed_capacity c" "dc_committed c1 = Max (set pre)"
    "dc_tree_start c1 = ?start" "dc_tree_width c1 = w" "dc_commit_reserve c1 = res"
    "dc_tree_start c1 + w \<le> dc_capacity c1" "dc_capacity c \<le> dc_capacity c1"
    "length (dc_layers c1) = length (dc_layers c)"
    "\<And>l. l < length (dc_layers c) \<Longrightarrow> layer_ready z pre ?start w (cache_row c l) (dc_layers c1 ! l)"
    using prepare_tree_ok[OF ok pre w] by metis
  let ?cp = "[dc_tree_start c1..<dc_tree_start c1 + w]"
  have "\<exists>l' v rs. layer_update z (kvs ! l) (Some ?cp) (dc_layers c1 ! l) = Inr (l', v)
      \<and> layer_ok (dc_max_batch c1) (dc_capacity c1) l' \<and> cl_rows l' = Some rs
      \<and> (\<forall>r<length pre. \<forall>i<?start. rs ! r ! i = (if i < pre ! r then cache_row c l r ! i else z))
      \<and> (\<forall>r<length pre. \<forall>i<w. rs ! r ! (?start + i) = kvs ! l ! r ! i)" if l: "l < length kvs" for l
  proof -
    have lo: "layer_ok (dc_max_batch c1) (dc_capacity c1) (dc_layers c1 ! l)"
      using c1(2,12) l kvs(1) by (simp add: cache_ok_def)
    have b: "length pre \<le> dc_max_batch c1" using pre(1) c1(2,3) by (simp add: cache_ok_def)
    have kl: "length (kvs ! l) = length pre" "\<And>r. r < length pre \<Longrightarrow> length (kvs ! l ! r) = w" using kvs(2)[OF l] by auto
    have sc: "?start + w \<le> dc_capacity c1" using c1(7,10) by simp
    show ?thesis using layer_update_ready[OF c1(13) lo sc kl(1) pre(2) kl(2) b, of ?cp] l kvs(1)
      by (metis length_upt diff_add_inverse)
  qed
  then obtain l' v rs where L: "\<And>l. l < length kvs \<Longrightarrow> layer_update z (kvs ! l) (Some ?cp) (dc_layers c1 ! l) = Inr (l' l, v l)
      \<and> layer_ok (dc_max_batch c1) (dc_capacity c1) (l' l) \<and> cl_rows (l' l) = Some (rs l)
      \<and> (\<forall>r<length pre. \<forall>i<?start. rs l ! r ! i = (if i < pre ! r then cache_row c l r ! i else z))
      \<and> (\<forall>r<length pre. \<forall>i<w. rs l ! r ! (?start + i) = kvs ! l ! r ! i)"
    by metis
  define c2 where "c2 = c1\<lparr>dc_layers := map l' [0..<length kvs]\<rparr>"
  have fw: "forward_updates z (Some ?cp) (enumerate 0 kvs) c1 = Inr c2"
    using forward_updates_from[of c1 0 kvs "length pre" z "Some ?cp" l' v] L kvs c1(12) by (simp add: c2_def)
  have row2: "cache_row c2 l r = rs l ! r" if "l < length kvs" for l r
    using that L by (simp add: c2_def cache_row_def)
  have ok2: "cache_ok c2" using c1(2) L by (auto simp: c2_def cache_ok_def)
  have f2: "dc_active c2 = dc_active c1" "dc_max_batch c2 = dc_max_batch c1" "dc_tree_start c2 = dc_tree_start c1"
    "dc_committed_capacity c2 = dc_committed_capacity c1" "dc_committed c2 = dc_committed c1" "dc_tree_width c2 = dc_tree_width c1"
    "dc_commit_reserve c2 = dc_commit_reserve c1" "dc_capacity c2 = dc_capacity c1" "length (dc_layers c2) = length kvs"
    by (simp_all add: c2_def)
  have old1: "\<forall>l<length kvs. \<forall>r<length pre. \<forall>i<pre ! r. cache_row c1 l r ! i = cache_row c l r ! i"
    using c1(13) kvs(1) by (simp add: layer_ready_def cache_row_def)
  have cpos: "tree_cache_position (int w) c1 = Inr ?cp" using c1(8) by (simp add: tree_cache_position_def)
  show ?thesis
  proof (rule that[OF c1(1) c1(7) c1(12) old1 cpos fw ok2])
    show "\<forall>l<length kvs. \<forall>r<length pre. \<forall>i<dc_tree_start c2.
        cache_row c2 l r ! i = (if i < pre ! r then cache_row c l r ! i else z)"
      using L row2 f2 c1(7) by simp
    show "\<forall>l<length kvs. \<forall>r<length pre. \<forall>i<w. cache_row c2 l r ! (dc_tree_start c2 + i) = kvs ! l ! r ! i"
      using L row2 f2 c1(7) by simp
  qed (use f2 c1(3-11) kvs(1) in simp_all)
qed

section \<open>Committing is independent of the kernel's schedule\<close>

text \<open>
  The copies of a commit: every copy is in range, no two write the same slot, and no copy
  reads a slot that another one writes.
\<close>

definition copies_ok :: "(int \<times> int \<times> int) list \<Rightarrow> 'e list list \<Rightarrow> bool" where
  "copies_ok cs rows \<longleftrightarrow> distinct (map (\<lambda>(r, d, s). (r, d)) cs)
     \<and> (\<forall>(r, d, s) \<in> set cs. 0 \<le> r \<and> r < int (length rows) \<and> 0 \<le> s \<and> s < int (length (rows ! nat r))
          \<and> 0 \<le> d \<and> d < int (length (rows ! nat r)) \<and> (\<forall>s'. (r, s, s') \<notin> set cs))"

lemma copy_program_shape [simp]:
  "length (copy_program m rows) = length rows"
  "r < length rows \<Longrightarrow> length (copy_program m rows ! r) = length (rows ! r)"
  by (auto simp: copy_program_def nth_list_update split: prod.split)

lemma copy_selected_shape [simp]:
  "length (copy_selected_kv cs rows) = length rows"
  "r < length rows \<Longrightarrow> length (copy_selected_kv cs rows ! r) = length (rows ! r)"
  unfolding copy_selected_kv_def by (induction cs arbitrary: rows) simp_all

text \<open>The result slot by slot: a written slot holds the value its source held at the start.\<close>

lemma copy_selected_nth:
  assumes "copies_ok cs rows" "r < length rows" "i < length (rows ! r)"
  shows "copy_selected_kv cs rows ! r ! i =
    (case map_of (map (\<lambda>(r, d, s). ((r, d), s)) cs) (int r, int i) of None \<Rightarrow> rows ! r ! i | Some s \<Rightarrow> rows ! r ! nat s)"
  using assms
proof (induction cs arbitrary: rows)
  case Nil
  then show ?case by (simp add: copy_selected_kv_def)
next
  case (Cons m cs)
  obtain r0 d0 s0 where m: "m = (r0, d0, s0)" by (cases m)
  let ?rows = "copy_program m rows"
  have g: "0 \<le> r0" "r0 < int (length rows)" "0 \<le> s0" "s0 < int (length (rows ! nat r0))"
    "0 \<le> d0" "d0 < int (length (rows ! nat r0))"
    using Cons.prems(1) by (auto simp: copies_ok_def m)
  have st: "?rows = rows[nat r0 := (rows ! nat r0)[nat d0 := rows ! nat r0 ! nat s0]]"
    using g by (simp add: copy_program_def m)
  have ok: "copies_ok cs ?rows"
    using Cons.prems(1) by (fastforce simp: copies_ok_def m)
  have IH: "copy_selected_kv cs ?rows ! r ! i =
      (case map_of (map (\<lambda>(r, d, s). ((r, d), s)) cs) (int r, int i) of None \<Rightarrow> ?rows ! r ! i | Some s \<Rightarrow> ?rows ! r ! nat s)"
    by (rule Cons.IH[OF ok]) (use Cons.prems in simp_all)
  have step: "copy_selected_kv (m # cs) rows = copy_selected_kv cs ?rows" by (simp add: copy_selected_kv_def)
  have notd: "(r0, d0, s) \<notin> set cs" for s
    using Cons.prems(1) by (force simp: copies_ok_def m)
  show ?case
  proof (cases "map_of (map (\<lambda>(r, d, s). ((r, d), s)) cs) (int r, int i)")
    case None
    moreover have "?rows ! r ! i = (if r0 = int r \<and> d0 = int i then rows ! r ! nat s0 else rows ! r ! i)"
      unfolding st using g Cons.prems(2,3) by (auto simp: nth_list_update)
    ultimately show ?thesis unfolding step IH by (auto simp: m)
  next
    case (Some s)
    then have s: "(int r, int i, s) \<in> set cs" by (auto dest!: map_of_SomeD)
    then have ne: "\<not> (r0 = int r \<and> d0 = int i)" using notd by auto
    have "(int r, s, s') \<notin> set (m # cs)" "0 \<le> s" for s' using Cons.prems(1) s by (auto simp: copies_ok_def)
    then have "\<not> (r0 = int r \<and> d0 = s)" "0 \<le> s" by (auto simp: m)
    then have "?rows ! r ! nat s = rows ! r ! nat s"
      using g Cons.prems(2,3) by (auto simp: st nth_list_update)
    then show ?thesis unfolding step IH using Some ne by (auto simp: m)
  qed
qed

lemma distinct_map_mset: "mset xs = mset ys \<Longrightarrow> distinct (map f xs) \<longleftrightarrow> distinct (map f ys)"
  by (intro mset_eq_imp_distinct_iff) simp

lemma copies_ok_mset: "mset cs = mset cs' \<Longrightarrow> copies_ok cs rows \<Longrightarrow> copies_ok cs' rows"
  using mset_eq_setD[of cs cs'] distinct_map_mset[of cs cs' "\<lambda>(r, d, s). (r, d)"] by (simp add: copies_ok_def)

lemma map_of_mset:
  assumes "mset xs = mset ys" "distinct (map fst xs)"
  shows "map_of xs k = map_of ys k"
proof -
  have "distinct (map fst ys)" using assms(2) distinct_map_mset[OF assms(1), of fst] by simp
  moreover have "set xs = set ys" using assms(1) by (rule mset_eq_setD)
  ultimately have "map_of xs k = Some v \<longleftrightarrow> map_of ys k = Some v" for v
    using assms(2) by (simp add: map_of_eq_Some_iff)
  then show ?thesis by (metis option.exhaust)
qed

lemma copy_selected_mset:
  assumes "mset cs = mset cs'" "copies_ok cs rows"
  shows "copy_selected_kv cs rows = copy_selected_kv cs' rows"
proof (rule nth_equalityI)
  fix r assume r: "r < length (copy_selected_kv cs rows)"
  then have r': "r < length rows" by simp
  show "copy_selected_kv cs rows ! r = copy_selected_kv cs' rows ! r"
  proof (rule nth_equalityI)
    fix i assume "i < length (copy_selected_kv cs rows ! r)"
    then have i: "i < length (rows ! r)" using r' by simp
    let ?f = "\<lambda>(r, d, s). ((r, d), s)"
    have "distinct (map fst (map ?f cs))" using assms(2) by (simp add: copies_ok_def comp_def case_prod_unfold)
    then have "map_of (map ?f cs) k = map_of (map ?f cs') k" for k
      by (intro map_of_mset) (simp_all add: assms(1))
    then show "copy_selected_kv cs rows ! r ! i = copy_selected_kv cs' rows ! r ! i"
      by (simp only: copy_selected_nth[OF assms(2) r' i] copy_selected_nth[OF copies_ok_mset[OF assms] r' i])
  next
    show "length (copy_selected_kv cs rows ! r) = length (copy_selected_kv cs' rows ! r)" using r' by simp
  qed
qed simp

text \<open>A legal list of commit requests: guarded, at most one per row, every source a staged node.\<close>

definition commits_ok :: "'e dense_cache \<Rightarrow> commit_request list \<Rightarrow> bool" where
  "commits_ok c reqs \<longleftrightarrow> list_all (commit_guard c) reqs \<and> distinct (map fst reqs)
     \<and> (\<forall>(r, p, sel) \<in> set reqs. \<forall>s \<in> set sel. 0 \<le> s \<and> s < int (dc_tree_width c))"

lemma request_copies_set:
  "(r, d, s) \<in> set (concat (map (request_copies ts) reqs)) \<longleftrightarrow>
     (\<exists>p sel k. (r, p, sel) \<in> set reqs \<and> k < length sel \<and> d = p + int k \<and> s = sel ! k + int ts)"
proof -
  have "(r, d, s) \<in> set (request_copies ts (r', p, sel)) \<longleftrightarrow>
      r = r' \<and> (\<exists>k<length sel. d = p + int k \<and> s = sel ! k + int ts)" for r' p sel
    by (auto simp: request_copies_def)
  then have "(\<exists>req \<in> set reqs. (r, d, s) \<in> set (request_copies ts req)) \<longleftrightarrow>
      (\<exists>(r', p, sel) \<in> set reqs. r = r' \<and> (\<exists>k<length sel. d = p + int k \<and> s = sel ! k + int ts))"
    by (simp add: split_beta) (metis prod.collapse)
  then show ?thesis by auto
qed

lemma request_copies_distinct:
  "distinct (map fst reqs) \<Longrightarrow> distinct (map (\<lambda>(r, d, s). (r, d)) (concat (map (request_copies ts) reqs)))"
proof (induction reqs)
  case (Cons req reqs)
  obtain r p sel where req: "req = (r, p, sel)" by (cases req)
  have "map (\<lambda>(r, d, s). (r, d)) (request_copies ts req) = map (\<lambda>k. (r, p + int k)) [0..<length sel]"
    by (simp add: request_copies_def req)
  then have "distinct (map (\<lambda>(r, d, s). (r, d)) (request_copies ts req))"
    by (simp add: distinct_map inj_on_def)
  moreover have "fst x = r" if "x \<in> set (request_copies ts req)" for x
    using that by (auto simp: request_copies_def req)
  moreover have "fst x \<noteq> r" if "x \<in> set (concat (map (request_copies ts) reqs))" for x
    using that Cons.prems by (force simp: request_copies_def req)
  ultimately show ?case using Cons by (fastforce simp: req)
qed simp

lemma commits_copies_ok:
  assumes "cache_ok c" "commits_ok c reqs" "dc_tree_start c + dc_tree_width c \<le> dc_capacity c"
    "l < length (dc_layers c)" "cl_rows (dc_layers c ! l) = Some rows"
  shows "copies_ok (concat (map (request_copies (dc_tree_start c)) reqs)) rows"
proof -
  let ?ts = "dc_tree_start c" and ?cs = "concat (map (request_copies (dc_tree_start c)) reqs)"
  have rows: "length rows = dc_max_batch c" "\<And>r. r < dc_max_batch c \<Longrightarrow> length (rows ! r) = dc_capacity c"
    using cache_ok_row[OF assms(1,4)] assms(5) by (metis option.inject)+
  have act: "dc_active c \<le> dc_max_batch c" using assms(1) by (simp add: cache_ok_def)
  have lim: "0 \<le> r \<and> r < int (dc_active c) \<and> 0 \<le> d \<and> d < int ?ts \<and> int ?ts \<le> s \<and> s < int (?ts + dc_tree_width c)"
    if cs: "(r, d, s) \<in> set ?cs" for r d s
  proof -
    obtain p sel k where k: "(r, p, sel) \<in> set reqs" "k < length sel" "d = p + int k" "s = sel ! k + int ?ts"
      using cs unfolding request_copies_set by blast
    have "commit_guard c (r, p, sel)" using assms(2) k(1) by (auto simp: commits_ok_def list_all_iff)
    moreover have "0 \<le> sel ! k" "sel ! k < int (dc_tree_width c)"
      using assms(2) k(1,2) nth_mem[OF k(2)] by (fastforce simp: commits_ok_def)+
    ultimately show ?thesis using k by (auto simp: commit_guard_def)
  qed
  have "0 \<le> r \<and> r < int (length rows) \<and> 0 \<le> s \<and> s < int (length (rows ! nat r))
      \<and> 0 \<le> d \<and> d < int (length (rows ! nat r)) \<and> (\<forall>s'. (r, s, s') \<notin> set ?cs)" if cs: "(r, d, s) \<in> set ?cs" for r d s
  proof -
    note l = lim[OF cs]
    have "nat r < dc_max_batch c" using l act by linarith
    then have "length (rows ! nat r) = dc_capacity c" by (rule rows(2))
    moreover have "(r, s, s') \<notin> set ?cs" for s' using lim[of r s s'] l by auto
    ultimately show ?thesis using l rows(1) act assms(3) by auto
  qed
  moreover have "distinct (map (\<lambda>(r, d, s). (r, d)) ?cs)"
    using assms(2) by (intro request_copies_distinct) (simp add: commits_ok_def)
  ultimately show ?thesis unfolding copies_ok_def by blast
qed

section \<open>Committing and compacting rows\<close>

lemma commit_width_le:
  "(r, p, sel) \<in> set reqs \<Longrightarrow> nat p + length sel \<le> fold (\<lambda>(_, plen, sel) w. max w (nat plen + length sel)) reqs w"
  "w \<le> fold (\<lambda>(_, plen, sel) w. max w (nat plen + length sel)) reqs w"
proof (induction reqs arbitrary: w)
  case (Cons req reqs)
  {
    case 1
    then show ?case using Cons.IH[of "max w (nat p + length sel)"] Cons.IH(1) by (cases req) (auto intro: order.trans)
  next
    case 2
    then show ?case using Cons.IH(2)[of "max w (nat (fst (snd req)) + length (snd (snd req)))"] by (cases req) auto
  }
qed simp_all

lemma commit_paths_ok:
  assumes ok: "cache_ok c" and cm: "commits_ok c reqs" and cap: "dc_tree_start c + dc_tree_width c \<le> dc_capacity c"
  obtains c' where "commit_paths reqs c = Inr (c', map (\<lambda>(_, _, sel). length sel) reqs)" "cache_ok c'"
    "dc_active c' = dc_active c" "dc_max_batch c' = dc_max_batch c" "dc_capacity c' = dc_capacity c"
    "dc_committed_capacity c' = dc_committed_capacity c" "length (dc_layers c') = length (dc_layers c)"
    "\<forall>(r, p, sel) \<in> set reqs. nat p + length sel \<le> dc_committed c'" "dc_committed c \<le> dc_committed c'"
    "\<forall>l<length (dc_layers c). \<forall>(r, p, sel) \<in> set reqs.
       take (nat p + length sel) (cache_row c' l (nat r))
         = take (nat p) (cache_row c l (nat r)) @ map (\<lambda>s. cache_row c l (nat r) ! (dc_tree_start c + nat s)) sel"
proof -
  let ?cs = "concat (map (request_copies (dc_tree_start c)) reqs)"
  let ?W = "fold (\<lambda>(_, plen, sel) w. max w (nat plen + length sel)) reqs (dc_committed c)"
  define c' where "c' = c\<lparr>dc_committed := ?W, dc_layers := map (\<lambda>l. l\<lparr>cl_rows :=
      map_option (copy_selected_kv ?cs) (cl_rows l)\<rparr>) (dc_layers c)\<rparr>"
  have idc: "map_option (copy_selected_kv []) (x :: 'a list list option) = x" for x
    by (cases x) (auto simp: copy_selected_kv_def)
  have src: "\<not> (\<exists>req \<in> set reqs. \<exists>s \<in> set (snd (snd req)). s < 0 \<or> int (dc_tree_width c) \<le> s)"
    using cm by (fastforce simp: commits_ok_def)
  have la: "list_all (commit_guard c) reqs" using cm by (simp add: commits_ok_def)
  have eq: "commit_paths reqs c = Inr (c', map (\<lambda>(_, _, sel). length sel) reqs)"
  proof (cases "reqs = []")
    case True
    then show ?thesis by (simp add: commit_paths_def c'_def idc)
  next
    case False
    have "c' = c\<lparr>dc_committed := ?W\<rparr>" if "?cs = []"
      unfolding c'_def that idc by simp
    then show ?thesis using False la src by (simp add: commit_paths_def c'_def Let_def)
  qed
  have row: "length (cache_row c' l r) = dc_capacity c \<and> (\<forall>i<dc_capacity c. cache_row c' l r ! i =
      (case map_of (map (\<lambda>(r, d, s). ((r, d), s)) ?cs) (int r, int i) of None \<Rightarrow> cache_row c l r ! i
       | Some s \<Rightarrow> cache_row c l r ! nat s))" if l: "l < length (dc_layers c)" and r: "r < dc_max_batch c" for l r
  proof -
    obtain rs where rs: "cl_rows (dc_layers c ! l) = Some rs" "length rs = dc_max_batch c"
      "\<And>r. r < dc_max_batch c \<Longrightarrow> length (rs ! r) = dc_capacity c" "\<And>r. cache_row c l r = rs ! r"
      using cache_ok_row[OF ok l] by metis
    have "cache_row c' l r = copy_selected_kv ?cs rs ! r" using l rs(1) by (simp add: cache_row_def c'_def)
    then show ?thesis unfolding rs(4)
      using copy_selected_nth[OF commits_copies_ok[OF ok cm cap l rs(1)], of r] rs(2,3) r by simp
  qed
  have "layer_ok (dc_max_batch c) (dc_capacity c) (l\<lparr>cl_rows := map_option (copy_selected_kv ?cs) (cl_rows l)\<rparr>)"
    if "layer_ok (dc_max_batch c) (dc_capacity c) l" for l
    using that by (auto simp: layer_ok_def in_set_conv_nth[of _ "copy_selected_kv _ _"])
  then have ok': "cache_ok c'" using ok by (auto simp: cache_ok_def c'_def)
  have new: "take (nat p + length sel) (cache_row c' l (nat r))
      = take (nat p) (cache_row c l (nat r)) @ map (\<lambda>s. cache_row c l (nat r) ! (dc_tree_start c + nat s)) sel"
    if l: "l < length (dc_layers c)" and req: "(r, p, sel) \<in> set reqs" for l r p sel
  proof -
    have g: "commit_guard c (r, p, sel)" using la req by (auto simp: list_all_iff)
    then have r: "nat r < dc_max_batch c" "0 \<le> r" and p: "0 \<le> p" "nat p + length sel \<le> dc_tree_start c"
      using ok by (auto simp: commit_guard_def cache_ok_def)
    note R = row[OF l r(1)]
    have le: "nat p + length sel \<le> dc_capacity c" using p(2) cap by simp
    let ?m = "map_of (map (\<lambda>(r, d, s). ((r, d), s)) ?cs)"
    have dist: "distinct (map fst (map (\<lambda>(r, d, s). ((r, d), s)) ?cs))"
      using request_copies_distinct[of reqs "dc_tree_start c"] cm
      by (simp add: commits_ok_def comp_def case_prod_unfold)
    have uniq: "p' = p \<and> sel' = sel" if "(r, p', sel') \<in> set reqs" for p' sel'
      using cm that req by (auto simp: commits_ok_def dest: eq_key_imp_eq_value)
    have mem: "((a, d), s) \<in> set (map (\<lambda>(r, d, s). ((r, d), s)) ?cs) \<longleftrightarrow> (a, d, s) \<in> set ?cs" for a d s by force
    have m1: "?m (r, int i) = None" if "i < nat p" for i
      unfolding map_of_eq_None_iff using that uniq request_copies_set[of r "int i" _ "dc_tree_start c" reqs] by force
    have m2: "?m (r, p + int k) = Some (sel ! k + int (dc_tree_start c))" if "k < length sel" for k
      using dist that req by (subst map_of_eq_Some_iff) (auto simp only: mem request_copies_set)
    show "take (nat p + length sel) (cache_row c' l (nat r))
        = take (nat p) (cache_row c l (nat r)) @ map (\<lambda>s. cache_row c l (nat r) ! (dc_tree_start c + nat s)) sel"
    proof (rule nth_equalityI)
      have lc: "length (cache_row c l (nat r)) = dc_capacity c" by (rule length_cache_row[OF ok l r(1)])
      then show "length (take (nat p + length sel) (cache_row c' l (nat r)))
        = length (take (nat p) (cache_row c l (nat r)) @ map (\<lambda>s. cache_row c l (nat r) ! (dc_tree_start c + nat s)) sel)"
        using R le by simp
      fix i assume "i < length (take (nat p + length sel) (cache_row c' l (nat r)))"
      then have i: "i < nat p + length sel" by simp
      show "take (nat p + length sel) (cache_row c' l (nat r)) ! i
        = (take (nat p) (cache_row c l (nat r)) @ map (\<lambda>s. cache_row c l (nat r) ! (dc_tree_start c + nat s)) sel) ! i"
      proof (cases "i < nat p")
        case True
        then show ?thesis using R m1[of i] i le lc r(2) by (simp add: nth_append)
      next
        case False
        then have k: "i - nat p < length sel" and ii: "int i = p + int (i - nat p)" using i p(1) by auto
        have "0 \<le> sel ! (i - nat p)" using cm req nth_mem[OF k] by (fastforce simp: commits_ok_def)
        then have src: "nat (sel ! (i - nat p) + int (dc_tree_start c)) = dc_tree_start c + nat (sel ! (i - nat p))" by simp
        have "?m (int (nat r), int i) = Some (sel ! (i - nat p) + int (dc_tree_start c))"
          using m2[OF k] r(2) unfolding ii[symmetric] by simp
        moreover have "i < dc_capacity c" using i le by simp
        ultimately have "cache_row c' l (nat r) ! i = cache_row c l (nat r) ! (dc_tree_start c + nat (sel ! (i - nat p)))"
          using R src by simp
        then show ?thesis using i False k lc le by (simp add: nth_append)
      qed
    qed
  qed
  show ?thesis
  proof (rule that[OF eq ok'])
    show "\<forall>(r, p, sel) \<in> set reqs. nat p + length sel \<le> dc_committed c'"
      using commit_width_le(1) by (fastforce simp: c'_def)
    show "dc_committed c \<le> dc_committed c'" using commit_width_le(2) by (simp add: c'_def)
    show "\<forall>l<length (dc_layers c). \<forall>(r, p, sel) \<in> set reqs. take (nat p + length sel) (cache_row c' l (nat r))
        = take (nat p) (cache_row c l (nat r)) @ map (\<lambda>s. cache_row c l (nat r) ! (dc_tree_start c + nat s)) sel"
      using new by fast
  qed (simp_all add: c'_def)
qed

lemma compact_rows_ok:
  assumes ok: "cache_ok c" and idx: "length idxs \<le> dc_max_batch c" "\<And>i. i \<in> set idxs \<Longrightarrow> i < dc_max_batch c"
    and cm: "dc_committed c \<le> dc_capacity c"
  obtains c' where "compact_cache_rows idxs c = Inr c'" "cache_ok c'" "dc_active c' = length idxs"
    "dc_max_batch c' = dc_max_batch c" "dc_capacity c' = dc_capacity c" "dc_committed c' = dc_committed c"
    "dc_committed_capacity c' = dc_committed_capacity c" "length (dc_layers c') = length (dc_layers c)"
    "\<forall>l<length (dc_layers c). \<forall>r<length idxs. \<forall>n\<le>dc_committed c.
       take n (cache_row c' l r) = take n (cache_row c l (idxs ! r))"
proof (cases "idxs = [0..<length idxs]")
  case True
  then have r: "idxs ! r = r" if "r < length idxs" for r
    using that by (metis add_0 nth_upt)
  show ?thesis
    by (rule that[of "c\<lparr>dc_active := length idxs\<rparr>"])
       (use True ok idx(1) r in \<open>simp_all add: compact_cache_rows_def cache_ok_def cache_row_def\<close>)
next
  case False
  let ?f = "\<lambda>rows. map_prefix (length idxs) (\<lambda>r. write_at 0 (take (dc_committed c) (rows ! (idxs ! r)))) rows"
  let ?c = "c\<lparr>dc_active := length idxs, dc_layers := map (\<lambda>l. l\<lparr>cl_rows := map_option ?f (cl_rows l)\<rparr>) (dc_layers c)\<rparr>"
  have eq: "compact_cache_rows idxs c = Inr ?c"
    using False idx(2) by (auto simp: compact_cache_rows_def not_le)
  have "layer_ok b cap (l\<lparr>cl_rows := map_option ?f (cl_rows l)\<rparr>)" if "layer_ok b cap l" for l b cap
    using that by (auto simp: layer_ok_def in_set_conv_nth[of _ "map_prefix _ _ _"])
  then have ok': "cache_ok ?c" using ok idx(1) by (auto simp: cache_ok_def)
  show ?thesis
  proof (rule that[OF eq ok'])
    show "\<forall>l<length (dc_layers c). \<forall>r<length idxs. \<forall>n\<le>dc_committed c.
        take n (cache_row ?c l r) = take n (cache_row c l (idxs ! r))"
    proof (intro allI impI)
    fix l r n assume l: "l < length (dc_layers c)" and r: "r < length idxs" and n: "n \<le> dc_committed c"
    obtain rs where rs: "cl_rows (dc_layers c ! l) = Some rs" "length rs = dc_max_batch c"
      "\<And>r. r < dc_max_batch c \<Longrightarrow> length (rs ! r) = dc_capacity c" "\<And>r. cache_row c l r = rs ! r"
      using cache_ok_row[OF ok l] by metis
    have "cache_row ?c l r = write_at 0 (take (dc_committed c) (rs ! (idxs ! r))) (rs ! r)"
      using l r rs(1,2) idx(1) by (simp add: cache_row_def)
    then show "take n (cache_row ?c l r) = take n (cache_row c l (idxs ! r))"
      using rs(2,3) r idx n cm unfolding rs(4) by (intro nth_equalityI) simp_all
    qed
  qed simp_all
qed

text \<open>The prefill writes the padded prompts from slot 0 of the whole batch.\<close>

lemma prefill_ok:
  assumes c: "c = prepare_prefill (dense_init shared nl batch pw max_new mtw)"
    and kvs: "length kvs = nl" "\<And>l. l < nl \<Longrightarrow> length (kvs ! l) = batch \<and> (\<forall>r<batch. length (kvs ! l ! r) = pw)"
    and "0 < batch"
  obtains c' where "forward_updates z (Some [0..<pw]) (enumerate 0 kvs) c = Inr c'" "cache_ok c'"
    "dc_active c' = batch" "dc_max_batch c' = batch" "dc_committed_capacity c' = pw + max_new"
    "dc_capacity c' = pw + max_new + 2 * mtw" "dc_committed c' = pw" "length (dc_layers c') = nl"
    "\<And>l r. l < nl \<Longrightarrow> r < batch \<Longrightarrow> take pw (cache_row c' l r) = kvs ! l ! r"
proof -
  let ?cap = "pw + max_new + 2 * mtw"
  let ?l = "\<lparr>cl_max = ?cap, cl_attention = pw, cl_committed = pw, cl_write = 0, cl_gap_start = 0,
      cl_gap_mask = None, cl_gap_cleared = False, cl_rows = None\<rparr> :: 'a cache_layer"
  have ly: "dc_layers c = replicate nl ?l"
    by (simp add: c prepare_prefill_def dense_init_def sync_layer_state_def new_layer_def Let_def)
  let ?rs = "\<lambda>l. map_prefix batch (\<lambda>r. write_at 0 (kvs ! l ! r))
      (clear_gap z batch ?l (replicate batch (replicate ?cap z)))"
  have up: "length (kvs ! l) = batch \<and> layer_update z (kvs ! l) (Some [0..<pw]) (dc_layers c ! (0 + l))
      = Inr (?l\<lparr>cl_rows := Some (?rs (0 + l))\<rparr>, map (take pw) (take batch (?rs (0 + l))))" if l: "l < length kvs" for l
  proof -
    have k: "length (kvs ! l) = batch" "length (kvs ! l ! 0) = pw" using kvs l assms(4) by auto
    then have q: "query_len (kvs ! l) = pw" using assms(4) by (cases "kvs ! l") (auto simp: query_len_def)
    show ?thesis unfolding layer_update_def Let_def q using k l kvs(1) ly
      by (simp add: lazy_rows_def) (simp add: clear_gap_def)
  qed
  let ?c' = "c\<lparr>dc_layers := map (\<lambda>l. ?l\<lparr>cl_rows := Some (?rs l)\<rparr>) [0..<nl]\<rparr>"
  have fw: "forward_updates z (Some [0..<pw]) (enumerate 0 kvs) c = Inr ?c'"
    using forward_updates_from[of c 0 kvs batch z "Some [0..<pw]", OF _ up] ly kvs(1) by simp
  have f: "dc_active c = batch" "dc_max_batch c = batch" "dc_committed_capacity c = pw + max_new" "dc_capacity c = ?cap"
    "dc_committed c = pw"
    by (simp_all add: c prepare_prefill_def dense_init_def Let_def)
  have rl: "length (?rs l ! r) = ?cap" if "r < batch" for l r using that by simp
  have ok': "cache_ok ?c'" using rl by (auto simp: cache_ok_def layer_ok_def f in_set_conv_nth)
  show ?thesis
  proof (rule that[OF fw ok'])
    fix l r assume "l < nl" "r < batch"
    then show "take pw (cache_row ?c' l r) = kvs ! l ! r"
      using kvs by (intro nth_equalityI) (simp_all add: cache_row_def)
  qed (simp_all add: f)
qed

section \<open>One decoding round of the cache\<close>

lemma fold_commit_le:
  "w \<le> b \<Longrightarrow> (\<And>r p sel. (r, p, sel) \<in> set reqs \<Longrightarrow> nat p + length sel \<le> b) \<Longrightarrow>
     fold (\<lambda>(_, plen, sel) w. max w (nat plen + length sel)) reqs w \<le> b"
proof (induction reqs arbitrary: w)
  case (Cons req reqs)
  obtain r p sel where req: "req = (r, p, sel)" by (cases req)
  have "max w (nat p + length sel) \<le> b" using Cons.prems by (auto simp: req)
  then show ?case using Cons.IH[of "max w (nat p + length sel)"] Cons.prems(2) by (auto simp: req)
qed simp

lemma commit_committed_le:
  assumes "commits_ok c reqs" "commit_paths reqs c = Inr (c', cnt)" "dc_committed c \<le> dc_tree_start c"
  shows "dc_committed c' \<le> dc_tree_start c"
proof -
  have "fold (\<lambda>(_, plen, sel) w. max w (nat plen + length sel)) reqs (dc_committed c) \<le> dc_tree_start c"
    using assms(1,3) by (intro fold_commit_le) (fastforce simp: commits_ok_def list_all_iff commit_guard_def)+
  then show ?thesis using assms(2,3) by (auto simp: commit_paths_def Let_def split: if_splits)
qed

text \<open>The commit requests of the surviving rows, with their prefix lengths.\<close>

definition round_requests :: "nat list \<Rightarrow> (nat \<times> nat list) list \<Rightarrow> commit_request list" where
  "round_requests pre keep = map (\<lambda>(r, sel). (int r, int (pre ! r), map int sel)) keep"

definition keep_ok :: "'e dense_cache \<Rightarrow> nat list \<Rightarrow> nat \<Rightarrow> nat \<Rightarrow> (nat \<times> nat list) list \<Rightarrow> bool" where
  "keep_ok c pre w res keep \<longleftrightarrow> distinct (map fst keep) \<and> (\<forall>(r, sel) \<in> set keep. r < dc_active c
     \<and> length sel \<le> res \<and> pre ! r + length sel \<le> dc_committed_capacity c \<and> (\<forall>s \<in> set sel. s < w))"

lemma cache_round_ok:
  assumes ok: "cache_ok c" and pre: "length pre = dc_active c" "pre \<noteq> []"
    "\<And>p. p \<in> set pre \<Longrightarrow> p \<le> dc_committed_capacity c" "\<And>p. p \<in> set pre \<Longrightarrow> p \<le> dc_capacity c" and w: "0 < w" "res \<le> w"
    and kvs: "length kvs = length (dc_layers c)"
      "\<And>l. l < length kvs \<Longrightarrow> length (kvs ! l) = length pre \<and> (\<forall>r<length pre. length (kvs ! l ! r) = w)"
    and keep: "keep_ok c pre w res keep"
  obtains c1 c2 c3 c4 where "prepare_tree z (int w) (map int pre) (int res) c = Inr c1"
    "tree_cache_position (int w) c1 = Inr [dc_tree_start c1..<dc_tree_start c1 + w]"
    "forward_updates z (Some [dc_tree_start c1..<dc_tree_start c1 + w]) (enumerate 0 kvs) c1 = Inr c2"
    "commit_paths (round_requests pre keep) c2 = Inr (c3, map (\<lambda>(r, sel). length sel) keep)"
    "compact_cache_rows (map fst keep) c3 = Inr c4" "cache_ok c4" "dc_active c4 = length keep"
    "dc_max_batch c4 = dc_max_batch c" "dc_committed_capacity c4 = dc_committed_capacity c"
    "dc_capacity c \<le> dc_capacity c4" "length (dc_layers c4) = length (dc_layers c)"
    "\<forall>l<length (dc_layers c). \<forall>j<length keep. case keep ! j of (r, sel) \<Rightarrow>
       take (pre ! r + length sel) (cache_row c4 l j)
         = take (pre ! r) (cache_row c l r) @ map (\<lambda>s. kvs ! l ! r ! s) sel"
proof -
  obtain c1 c2 where S: "prepare_tree z (int w) (map int pre) (int res) c = Inr c1" and S1: "dc_tree_start c1 = Max (set pre) + res" "length (dc_layers c1) = length (dc_layers c)"
    "\<forall>l<length kvs. \<forall>r<length pre. \<forall>i<pre ! r. cache_row c1 l r ! i = cache_row c l r ! i"
    and S2: "tree_cache_position (int w) c1 = Inr [dc_tree_start c1..<dc_tree_start c1 + w]"
    "forward_updates z (Some [dc_tree_start c1..<dc_tree_start c1 + w]) (enumerate 0 kvs) c1 = Inr c2"
    "cache_ok c2" "dc_active c2 = dc_active c" "dc_max_batch c2 = dc_max_batch c"
    "dc_committed_capacity c2 = dc_committed_capacity c" "dc_committed c2 = Max (set pre)"
    "dc_tree_start c2 = Max (set pre) + res" "dc_tree_width c2 = w" "dc_commit_reserve c2 = res"
    "dc_capacity c \<le> dc_capacity c2" "dc_tree_start c2 + w \<le> dc_capacity c2" "length (dc_layers c2) = length (dc_layers c)"
    "\<forall>l<length kvs. \<forall>r<length pre. \<forall>i<dc_tree_start c2.
       cache_row c2 l r ! i = (if i < pre ! r then cache_row c l r ! i else z)"
    "\<forall>l<length kvs. \<forall>r<length pre. \<forall>i<w. cache_row c2 l r ! (dc_tree_start c2 + i) = kvs ! l ! r ! i"
    by (rule stage_tree[where z = z, OF ok pre w kvs])
  note S = S S2
  let ?reqs = "round_requests pre keep"
  have mx: "pre ! r \<le> Max (set pre)" if "r < dc_active c" for r using that pre(1) by simp
  have K: "r < dc_active c \<and> length sel \<le> res \<and> pre ! r + length sel \<le> dc_committed_capacity c \<and> (\<forall>s \<in> set sel. s < w)"
    if "(r, sel) \<in> set keep" for r sel using keep that by (auto simp: keep_ok_def)
  have "commit_guard c2 (int r, int (pre ! r), map int sel)" if "(r, sel) \<in> set keep" for r sel
    using K[OF that] mx[of r] S(5,7-11) by (simp add: commit_guard_def flip: of_nat_add)
  moreover have "distinct (map fst ?reqs)"
    using keep by (simp add: keep_ok_def round_requests_def comp_def case_prod_unfold distinct_map inj_on_def)
  ultimately have cm: "commits_ok c2 ?reqs"
    using K S(10) by (fastforce simp: commits_ok_def list_all_iff round_requests_def)
  have cap: "dc_tree_start c2 + dc_tree_width c2 \<le> dc_capacity c2" using S(10,13) by simp
  obtain c3 where C: "commit_paths ?reqs c2 = Inr (c3, map (\<lambda>(_, _, sel). length sel) ?reqs)" "cache_ok c3"
    "dc_active c3 = dc_active c2" "dc_max_batch c3 = dc_max_batch c2" "dc_capacity c3 = dc_capacity c2"
    "dc_committed_capacity c3 = dc_committed_capacity c2" "length (dc_layers c3) = length (dc_layers c2)"
    "\<forall>(r, p, sel) \<in> set ?reqs. nat p + length sel \<le> dc_committed c3" "dc_committed c2 \<le> dc_committed c3"
    "\<forall>l<length (dc_layers c2). \<forall>(r, p, sel) \<in> set ?reqs.
       take (nat p + length sel) (cache_row c3 l (nat r))
         = take (nat p) (cache_row c2 l (nat r)) @ map (\<lambda>s. cache_row c2 l (nat r) ! (dc_tree_start c2 + nat s)) sel"
    by (rule commit_paths_ok[OF S(4) cm cap])
  have C10: "dc_committed c3 \<le> dc_capacity c3"
    using commit_committed_le[OF cm C(1)] S(8,9) cap C(5) by simp
  have idx: "length (map fst keep) \<le> dc_max_batch c3" "\<And>i. i \<in> set (map fst keep) \<Longrightarrow> i < dc_max_batch c3"
  proof -
    have sub: "set (map fst keep) \<subseteq> {..<dc_active c}" using K by auto
    have ab: "dc_active c \<le> dc_max_batch c3" using S(4,5,6) C(4) by (simp add: cache_ok_def)
    have "length (map fst keep) = card (set (map fst keep))"
      using keep distinct_card[of "map fst keep"] by (simp add: keep_ok_def)
    also have "\<dots> \<le> dc_active c" using card_mono[OF _ sub] by simp
    finally show "length (map fst keep) \<le> dc_max_batch c3" using ab by simp
    show "i < dc_max_batch c3" if "i \<in> set (map fst keep)" for i using that sub ab by auto
  qed
  obtain c4 where D: "compact_cache_rows (map fst keep) c3 = Inr c4" "cache_ok c4" "dc_active c4 = length (map fst keep)"
    "dc_max_batch c4 = dc_max_batch c3" "dc_capacity c4 = dc_capacity c3" "dc_committed c4 = dc_committed c3"
    "dc_committed_capacity c4 = dc_committed_capacity c3" "length (dc_layers c4) = length (dc_layers c3)"
    "\<forall>l<length (dc_layers c3). \<forall>r<length (map fst keep). \<forall>n\<le>dc_committed c3.
       take n (cache_row c4 l r) = take n (cache_row c3 l (map fst keep ! r))"
    by (rule compact_rows_ok[OF C(2) idx C10])
  have cnt: "map (\<lambda>(_, _, sel). length sel) ?reqs = map (\<lambda>(r, sel). length sel) keep"
    by (auto simp: round_requests_def)
  have new: "take (pre ! r + length sel) (cache_row c4 l j)
        = take (pre ! r) (cache_row c l r) @ map (\<lambda>s. kvs ! l ! r ! s) sel"
    if l: "l < length (dc_layers c)" and j: "j < length keep" and kj: "keep ! j = (r, sel)" for l j r sel
  proof -
    have mem: "(r, sel) \<in> set keep" using j kj by (metis nth_mem)
    then have rq: "(int r, int (pre ! r), map int sel) \<in> set ?reqs" by (force simp: round_requests_def)
    have l': "l < length kvs" "r < length pre" using l kvs(1) K[OF mem] pre(1) by auto
    have "take (pre ! r + length sel) (cache_row c4 l j) = take (pre ! r + length sel) (cache_row c3 l r)"
      using D(9)[rule_format, of l j "pre ! r + length sel"] C(7) bspec[OF C(8) rq] S(14) l j kj by simp
    also have "\<dots> = take (pre ! r) (cache_row c2 l r) @ map (\<lambda>s. cache_row c2 l r ! (dc_tree_start c2 + s)) sel"
      using C(10)[rule_format, OF _ rq, of l] S(14) l by (simp add: comp_def)
    also have "take (pre ! r) (cache_row c2 l r) = take (pre ! r) (cache_row c l r)"
    proof (rule nth_equalityI)
      have rb: "r < dc_max_batch c" using K[OF mem] ok by (simp add: cache_ok_def)
      have pc: "pre ! r \<le> dc_capacity c" using pre(4) l'(2) by simp
      have len: "length (cache_row c l r) = dc_capacity c" "length (cache_row c2 l r) = dc_capacity c2"
        using length_cache_row[OF ok l rb] length_cache_row[OF S(4), of l r] S(6,14) l rb by simp_all
      then show "length (take (pre ! r) (cache_row c2 l r)) = length (take (pre ! r) (cache_row c l r))"
        using pc S(12) by simp
      fix i assume "i < length (take (pre ! r) (cache_row c2 l r))"
      then have i: "i < pre ! r" by simp
      then have "i < dc_tree_start c2" using mx[of r] K[OF mem] S(9) by simp
      then show "take (pre ! r) (cache_row c2 l r) ! i = take (pre ! r) (cache_row c l r) ! i"
        using S(15) l' i by simp
    qed
    also have "map (\<lambda>s. cache_row c2 l r ! (dc_tree_start c2 + s)) sel = map (\<lambda>s. kvs ! l ! r ! s) sel"
      using S(16) l' K[OF mem] by simp
    finally show ?thesis .
  qed
  show ?thesis
    by (rule that[OF S(1-3) C(1)[unfolded cnt] D(1,2)]) (use S C D new in \<open>simp_all split: prod.split\<close>)
qed

section \<open>Correctness of the dense target cache\<close>

text \<open>
  C10.  A decoding round of the dense cache is an append: in either storage mode, with or
  without growth and whatever the prefix lengths, staging a tree, committing the accepted
  paths of the surviving requests and compacting the batch succeed, and every surviving
  row then holds its old committed entries followed by exactly the entries of its accepted
  nodes, in every layer.
\<close>

theorem dense_cache_round_appends:
  assumes "cache_ok c" "length pre = dc_active c" "pre \<noteq> []"
    and "\<forall>p \<in> set pre. p \<le> dc_committed_capacity c \<and> p \<le> dc_capacity c" "0 < w" "res \<le> w"
    and "length kvs = length (dc_layers c)"
    and "\<forall>kv \<in> set kvs. length kv = length pre \<and> (\<forall>row \<in> set kv. length row = w)"
    and "keep_ok c pre w res keep"
  shows "\<exists>c1 c2 c3 c4. prepare_tree z (int w) (map int pre) (int res) c = Inr c1
    \<and> forward_updates z (Some [dc_tree_start c1..<dc_tree_start c1 + w]) (enumerate 0 kvs) c1 = Inr c2
    \<and> commit_paths (round_requests pre keep) c2 = Inr (c3, map (\<lambda>(r, sel). length sel) keep)
    \<and> compact_cache_rows (map fst keep) c3 = Inr c4 \<and> cache_ok c4 \<and> dc_active c4 = length keep
    \<and> (\<forall>l<length (dc_layers c). \<forall>j<length keep. case keep ! j of (r, sel) \<Rightarrow>
         take (pre ! r + length sel) (cache_row c4 l j)
           = take (pre ! r) (cache_row c l r) @ map (\<lambda>s. kvs ! l ! r ! s) sel)"
proof -
  have k: "length (kvs ! l) = length pre \<and> (\<forall>r<length pre. length (kvs ! l ! r) = w)" if "l < length kvs" for l
    using assms(8) that by (metis nth_mem)
  have p: "p \<le> dc_committed_capacity c" "p \<le> dc_capacity c" if "p \<in> set pre" for p using assms(4) that by auto
  show ?thesis
    by (rule cache_round_ok[where z = z, OF assms(1-3) p assms(5-7) k assms(9)]) blast+
qed

definition witness_cache :: "nat dense_cache" where
  "witness_cache = (case forward_updates 0 (Some [0, 1, 2]) (enumerate 0 [[[1, 2, 3], [4, 5, 6]]])
     (prepare_prefill (dense_init True 1 2 3 4 2)) of Inr c \<Rightarrow> c | Inl e \<Rightarrow> dense_init True 1 2 3 4 2)"

theorem dense_cache_round_appends_witness:
  "\<exists>c1 c2 c3 c4. prepare_tree 0 3 [3, 2] 2 witness_cache = Inr c1
    \<and> forward_updates 0 (Some [dc_tree_start c1..<dc_tree_start c1 + 3]) [(0, [[7, 8, 9], [10, 11, 12]])] c1 = Inr c2
    \<and> commit_paths [(1, 2, [0, 2])] c2 = Inr (c3, [2])
    \<and> compact_cache_rows [1] c3 = Inr c4 \<and> take 4 (cache_row c4 0 0) = [4, 5, 10, 12]"
proof -
  have h: "cache_ok witness_cache" "length [3, 2::nat] = dc_active witness_cache"
    "\<forall>p \<in> set [3, 2]. p \<le> dc_committed_capacity witness_cache \<and> p \<le> dc_capacity witness_cache"
    "length [[[7, 8, 9], [10, 11, 12::nat]]] = length (dc_layers witness_cache)"
    "keep_ok witness_cache [3, 2] 3 2 [(1, [0, 2])]"
    by code_simp+
  have t: "take 2 (cache_row witness_cache 0 1) = [4, 5]" "length (dc_layers witness_cache) = 1" by code_simp+
  show ?thesis
    using dense_cache_round_appends[OF h(1,2) _ h(3) _ _ h(4) _ h(5), of 0] t
    by (simp add: round_requests_def eval_nat_numeral) blast
qed

text \<open>
  C13.  The copy kernel that commits accepted paths is free of races: its programs may run in
  any order, because no accepted slot is both a source and a destination and no destination
  is written twice.
\<close>

theorem commit_kernel_race_free:
  assumes "cache_ok c" "commits_ok c reqs" "dc_tree_start c + dc_tree_width c \<le> dc_capacity c"
    and "l < length (dc_layers c)" "cl_rows (dc_layers c ! l) = Some rows"
    and "mset schedule = mset (concat (map (request_copies (dc_tree_start c)) reqs))"
  shows "copy_selected_kv schedule rows = copy_selected_kv (concat (map (request_copies (dc_tree_start c)) reqs)) rows"
  using copy_selected_mset[OF assms(6)[symmetric] commits_copies_ok[OF assms(1-5)]] by simp

definition witness_staged :: "nat dense_cache" where
  "witness_staged = (case prepare_tree 0 3 [3, 2] 2 witness_cache of Inr c \<Rightarrow> c | Inl e \<Rightarrow> witness_cache)"

theorem commit_kernel_race_free_witness:
  "copy_selected_kv [(1, 3, 7), (0, 3, 5), (1, 2, 5)] (the (cl_rows (dc_layers witness_staged ! 0)))
    = copy_selected_kv [(0, 3, 5), (1, 2, 5), (1, 3, 7)] (the (cl_rows (dc_layers witness_staged ! 0)))"
proof -
  have h: "cache_ok witness_staged" "commits_ok witness_staged [(0, 3, [0]), (1, 2, [0, 2])]"
    "dc_tree_start witness_staged + dc_tree_width witness_staged \<le> dc_capacity witness_staged"
    "0 < length (dc_layers witness_staged)"
    "cl_rows (dc_layers witness_staged ! 0) = Some (the (cl_rows (dc_layers witness_staged ! 0)))"
    "mset [(1, 3, 7), (0, 3, 5), (1, 2, 5)]
      = mset (concat (map (request_copies (dc_tree_start witness_staged)) [(0, 3, [0]), (1, 2, [0, 2])]))"
    by code_simp+
  have "concat (map (request_copies (dc_tree_start witness_staged)) [(0, 3, [0]), (1, 2, [0, 2])])
      = [(0, 3, 5), (1, 2, 5), (1, 3, 7)]" by code_simp
  then show ?thesis using commit_kernel_race_free[OF h] by simp
qed

end
