(* ===== verification/Draft_Cache.thy ===== *)
theory Draft_Cache
  imports Prelude
begin

text \<open>
  The shared ragged key/value cache of the batched draft model (\<open>_DraftBatchCache\<close>), the guards
  of the ragged draft forward pass (\<open>_run_ragged_draft_forward\<close>,
  \<open>_run_initial_ragged_draft_forward\<close>) and the chunked drafting of the prompts
  (\<open>_build_initial_drafts_batched\<close>) of \<open>specblock_batch.py\<close>.  The draft network's own
  computation is not modelled; what it writes into a row is a list of opaque slots.
\<close>

section \<open>The batch cache\<close>

text \<open>A layer is \<open>None\<close> until its first write; \<open>db_cap\<close> is the capacity shared by all layers.\<close>

record 'd draft_cache =
  db_layers :: "'d list list option list"
  db_cap :: nat
  db_lengths :: "nat list"
  db_compiled_b1 :: bool

definition draft_cache_init :: "nat \<Rightarrow> nat \<Rightarrow> nat \<Rightarrow> bool \<Rightarrow> 'd draft_cache" where
  "draft_cache_init num_layers batch max_cache_len b1 =
     \<lparr>db_layers = replicate num_layers None, db_cap = max_cache_len, db_lengths = replicate batch 0, db_compiled_b1 = b1\<rparr>"

definition active_batch_size :: "'d draft_cache \<Rightarrow> nat" where
  "active_batch_size c = length (db_lengths c)"

definition draft_advance :: "nat list \<Rightarrow> nat \<Rightarrow> 'd draft_cache \<Rightarrow> 'd draft_cache res" where
  "draft_advance valid K c =
     (if length valid \<noteq> active_batch_size c then Inl ValueError
      else Inr (c\<lparr>db_lengths := map (\<lambda>(n, v). n + v * K) (zip (db_lengths c) valid)\<rparr>))"

fun rollback_rows :: "nat list \<Rightarrow> nat \<Rightarrow> 'd draft_cache \<Rightarrow> 'd draft_cache res" where
  "rollback_rows [] K c = Inr c"
| "rollback_rows (row # rows) K c =
     (if length (db_lengths c) \<le> row then Inl IndexError
      else if db_lengths c ! row < K then Inl ValueError
      else rollback_rows rows K (c\<lparr>db_lengths := (db_lengths c)[row := db_lengths c ! row - K]\<rparr>))"

text \<open>Python slicing \<open>[row:row + 1]\<close> of the storage with the logical length of the row.\<close>

definition row_view :: "nat \<Rightarrow> 'd draft_cache \<Rightarrow> ('d list list option \<times> nat \<times> nat) list" where
  "row_view row c = map (\<lambda>l. (map_option (\<lambda>rows. take 1 (drop row rows)) l, db_lengths c ! row, db_cap c)) (db_layers c)"

definition prefix_layers :: "int \<Rightarrow> 'd draft_cache \<Rightarrow> 'd list list option list res" where
  "prefix_layers row_count c =
     (if row_count \<le> 0 \<or> int (active_batch_size c) < row_count then Inl ValueError
      else if row_count = int (active_batch_size c) then Inr (db_layers c)
      else if None \<in> set (db_layers c) then Inl RuntimeError
      else Inr (map (map_option (take (nat row_count))) (db_layers c)))"

definition compact_row :: "nat \<Rightarrow> 'd list \<Rightarrow> 'd list \<Rightarrow> 'd list" where
  "compact_row used_width src dst = take used_width src @ drop used_width dst"

definition draft_compact_rows :: "nat list \<Rightarrow> 'd draft_cache \<Rightarrow> 'd draft_cache res" where
  "draft_compact_rows idxs c =
     (let n = length idxs
      in if idxs = [0..<n]
         then Inr (c\<lparr>db_lengths := take n (db_lengths c), db_layers := map (map_option (take n)) (db_layers c)\<rparr>)
         else if \<exists>i \<in> set idxs. length (db_lengths c) \<le> i then Inl IndexError
         else let used = fold max (map (\<lambda>i. db_lengths c ! i) idxs) 0
              in Inr (c\<lparr>db_lengths := map (\<lambda>i. db_lengths c ! i) idxs,
                        db_layers := map (map_option (\<lambda>rows.
                          map (\<lambda>j. compact_row used (rows ! (idxs ! j)) (rows ! j)) [0..<n])) (db_layers c)\<rparr>))"

section \<open>Guards of the ragged forward pass\<close>

definition contiguous_suffix :: "nat list \<Rightarrow> bool" where
  "contiguous_suffix valid =
     (let active = length (filter (\<lambda>v. 0 < v) valid)
      in list_all (\<lambda>v. 0 < v) (take active valid) \<and> list_all (\<lambda>v. v = 0) (drop active valid))"

text \<open>\<open>rows\<close> are the counts of hidden and token rows the caller passes.\<close>

definition ragged_forward ::
  "nat \<Rightarrow> nat list \<Rightarrow> nat list \<Rightarrow> nat list \<Rightarrow> 'd draft_cache \<Rightarrow> nat res" where
  "ragged_forward K rows start_positions valid c =
     (if \<not> (list_all (\<lambda>n. n = active_batch_size c) rows \<and> length start_positions = active_batch_size c
             \<and> length valid = active_batch_size c) then Inl ValueError
      else if fold max valid 0 = 0 then Inl ValueError
      else if \<not> contiguous_suffix valid then Inl ValueError
      else
        let active = length (filter (\<lambda>v. 0 < v) valid);
            max_total_slots = fold max (map (\<lambda>(n, v). n + v * K) (take active (zip (db_lengths c) valid))) 0
        in if db_cap c < max_total_slots then Inl RuntimeError
           else res_bind (prefix_layers (int active) c) (\<lambda>_. Inr active))"

section \<open>Chunked drafting of the prompts\<close>

definition CHUNK :: nat where
  "CHUNK = 64"

definition chunk_valid :: "nat list \<Rightarrow> nat \<Rightarrow> nat list" where
  "chunk_valid totals start = map (\<lambda>total. min CHUNK (total - start)) totals"

definition chunk_starts :: "nat \<Rightarrow> nat list" where
  "chunk_starts max_total = map (\<lambda>i. i * CHUNK) [0..<(max_total + CHUNK - 1) div CHUNK]"

text \<open>
  The state of the loop: the cache, the tokens fed to each row so far and, per row, the chunk
  whose output was kept as the row's final output.  \<open>store\<close> is what the network writes.
\<close>

record 'd initial_state =
  is_cache :: "'d draft_cache"
  is_fed :: "token list list"
  is_final :: "nat option list"

definition finishing_rows :: "nat list \<Rightarrow> nat \<Rightarrow> nat list" where
  "finishing_rows totals start = positions (\<lambda>total. start < total \<and> total \<le> start + CHUNK) totals"

definition initial_chunk ::
  "('d list list option list \<Rightarrow> token list list \<Rightarrow> 'd list list option list) \<Rightarrow> nat \<Rightarrow> nat list \<Rightarrow> token list list
     \<Rightarrow> nat \<Rightarrow> 'd initial_state \<Rightarrow> 'd initial_state res" where
  "initial_chunk store K totals token_rows start st =
     (let valid = chunk_valid totals start;
          chunk_tokens = map (\<lambda>row. take CHUNK (drop start row)) token_rows;
          fin = finishing_rows totals start
      in res_bind (ragged_forward K [length token_rows] (map (\<lambda>_. start) token_rows) valid (is_cache st)) (\<lambda>active.
         let fed = map (\<lambda>(v, toks). take v toks) (zip valid chunk_tokens);
             c = (is_cache st)\<lparr>db_layers := store (db_layers (is_cache st)) (take active fed)\<rparr>
         in res_bind (draft_advance valid K c) (\<lambda>c'.
              if fin \<noteq> [] \<and> active \<le> last fin then Inl RuntimeError
              else Inr \<lparr>is_cache = c', is_fed = map (\<lambda>(xs, ys). xs @ ys) (zip (is_fed st) fed),
                        is_final = fold (\<lambda>r f. f[r := Some start]) fin (is_final st)\<rparr>)))"

fun initial_loop ::
  "('d list list option list \<Rightarrow> token list list \<Rightarrow> 'd list list option list) \<Rightarrow> nat \<Rightarrow> nat list \<Rightarrow> token list list
     \<Rightarrow> nat list \<Rightarrow> 'd initial_state \<Rightarrow> 'd initial_state res" where
  "initial_loop store K totals token_rows [] st = Inr st"
| "initial_loop store K totals token_rows (s # ss) st =
     res_bind (initial_chunk store K totals token_rows s st) (initial_loop store K totals token_rows ss)"

definition initial_token_row :: "token list \<Rightarrow> token \<Rightarrow> token list" where
  "initial_token_row prompt first = drop 1 prompt @ [first] @ [first]"

definition build_initial_drafts ::
  "('d list list option list \<Rightarrow> token list list \<Rightarrow> 'd list list option list) \<Rightarrow> nat \<Rightarrow> nat \<Rightarrow> nat \<Rightarrow> bool
     \<Rightarrow> (token list \<times> token) list \<Rightarrow> 'd initial_state res" where
  "build_initial_drafts store num_layers K max_new_tokens b1 states =
     (let max_prompt = fold max (map (\<lambda>(prompt, _). length prompt) states) 0;
          token_rows = map (\<lambda>(prompt, first). initial_token_row prompt first) states;
          totals = map (\<lambda>(prompt, _). length prompt + 1) states;
          cache = draft_cache_init num_layers (length states) ((max_prompt + max_new_tokens) * K) b1
      in initial_loop store K totals token_rows (chunk_starts (fold max totals 0))
           \<lparr>is_cache = cache, is_fed = map (\<lambda>_. []) states, is_final = map (\<lambda>_. None) states\<rparr>)"

text \<open>The order of the initial requests: by chunk count, unless it is already descending.\<close>

definition chunk_count :: "nat \<Rightarrow> nat" where
  "chunk_count prompt_len = (prompt_len + 64) div 64"

definition order_entries :: "('a \<Rightarrow> nat) \<Rightarrow> 'a list \<Rightarrow> 'a list" where
  "order_entries prompt_len entries =
     (let counts = map (\<lambda>e. chunk_count (prompt_len e)) entries
      in if list_ex (\<lambda>(l, r). l < r) (zip counts (drop 1 counts))
         then sorted_desc (\<lambda>e. chunk_count (prompt_len e)) entries else entries)"

section \<open>Compaction keeps the logical rows\<close>

text \<open>The logical content of a row: the slots below its length.\<close>

definition draft_row :: "'d draft_cache \<Rightarrow> nat \<Rightarrow> nat \<Rightarrow> 'd list option" where
  "draft_row c l r = map_option (\<lambda>rows. take (db_lengths c ! r) (rows ! r)) (db_layers c ! l)"

lemma fold_max_ge: "x \<in> set xs \<Longrightarrow> x \<le> fold max xs (a::nat)" "a \<le> fold max xs (a::nat)"
  by (induction xs arbitrary: a) (auto intro: order.trans[OF max.cobounded1] order.trans[OF max.cobounded2])

lemma fold_max_le: "(\<And>x. x \<in> set xs \<Longrightarrow> x \<le> b) \<Longrightarrow> a \<le> b \<Longrightarrow> fold max xs a \<le> (b::nat)"
  by (induction xs arbitrary: a) auto

definition draft_cache_ok :: "'d draft_cache \<Rightarrow> bool" where
  "draft_cache_ok c \<longleftrightarrow> (\<forall>l \<in> set (db_layers c). \<forall>rows. l = Some rows \<longrightarrow>
     length rows = length (db_lengths c) \<and> (\<forall>r<length rows. db_lengths c ! r \<le> length (rows ! r)))"

text \<open>
  Compacting the draft batch keeps every surviving request's cache: the logical rows of
  the new batch are the logical rows of the selected requests, in the selected order, in
  every initialised layer.
\<close>

theorem draft_compact_keeps_rows:
  assumes "draft_cache_ok c" "distinct idxs" "\<forall>i \<in> set idxs. i < length (db_lengths c)"
  shows "\<exists>c'. draft_compact_rows idxs c = Inr c' \<and> db_lengths c' = map (\<lambda>i. db_lengths c ! i) idxs
    \<and> (\<forall>l<length (db_layers c). \<forall>j<length idxs. draft_row c' l j = draft_row c l (idxs ! j))"
proof -
  have card: "length idxs \<le> length (db_lengths c)"
  proof -
    have "length idxs = card (set idxs)" using assms(2) by (simp add: distinct_card)
    also have "\<dots> \<le> card {..<length (db_lengths c)}" using assms(3) by (intro card_mono) auto
    finally show ?thesis by simp
  qed
  have rows: "length rows = length (db_lengths c) \<and> (\<forall>r<length rows. db_lengths c ! r \<le> length (rows ! r))"
    if "l < length (db_layers c)" "db_layers c ! l = Some rows" for l rows
    using assms(1) nth_mem[OF that(1)] that(2) by (simp add: draft_cache_ok_def)
  show ?thesis
  proof (cases "idxs = [0..<length idxs]")
    case True
    have n: "idxs ! j = j" if "j < length idxs" for j using True that by (metis add_0 nth_upt)
    have e: "take (length idxs) (db_lengths c) = map (\<lambda>i. db_lengths c ! i) idxs"
      using n card by (intro nth_equalityI) auto
    have "draft_row (c\<lparr>db_lengths := take (length idxs) (db_lengths c), db_layers := map (map_option (take (length idxs))) (db_layers c)\<rparr>) l j
        = draft_row c l (idxs ! j)" if "l < length (db_layers c)" "j < length idxs" for l j
      using that n[OF that(2)] by (cases "db_layers c ! l") (auto simp: draft_row_def)
    then show ?thesis using True e by (simp add: draft_compact_rows_def Let_def)
  next
    case False
    let ?used = "fold max (map (\<lambda>i. db_lengths c ! i) idxs) 0"
    let ?c = "c\<lparr>db_lengths := map (\<lambda>i. db_lengths c ! i) idxs, db_layers := map (map_option (\<lambda>rows.
        map (\<lambda>j. compact_row ?used (rows ! (idxs ! j)) (rows ! j)) [0..<length idxs])) (db_layers c)\<rparr>"
    have g: "\<not> (\<exists>i \<in> set idxs. length (db_lengths c) \<le> i)" using assms(3) by (auto simp: not_le)
    have "draft_row ?c l j = draft_row c l (idxs ! j)" if l: "l < length (db_layers c)" and j: "j < length idxs" for l j
    proof (cases "db_layers c ! l")
      case (Some rows)
      have "db_lengths c ! (idxs ! j) \<le> ?used" using j by (intro fold_max_ge(1)) simp
      moreover have "db_lengths c ! (idxs ! j) \<le> length (rows ! (idxs ! j))" using rows[OF l Some] assms(3) j by simp
      ultimately show ?thesis using l j Some by (simp add: draft_row_def compact_row_def)
    qed (use l in \<open>simp add: draft_row_def\<close>)
    then show ?thesis unfolding draft_compact_rows_def Let_def if_not_P[OF False] if_not_P[OF g] by simp
  qed
qed

definition witness_draft_cache :: "nat draft_cache" where
  "witness_draft_cache = \<lparr>db_layers = [Some [[1, 2, 0], [3, 0, 0], [4, 5, 6]]], db_cap = 3, db_lengths = [2, 1, 3], db_compiled_b1 = False\<rparr>"

theorem draft_compact_keeps_rows_witness:
  "\<exists>c'. draft_compact_rows [2, 0] witness_draft_cache = Inr c' \<and> draft_row c' 0 0 = Some [4, 5, 6] \<and> draft_row c' 0 1 = Some [1, 2]"
proof -
  have ok: "draft_cache_ok witness_draft_cache" by (auto simp: draft_cache_ok_def witness_draft_cache_def less_Suc_eq)
  have r: "draft_row witness_draft_cache 0 2 = Some [4, 5, 6]" "draft_row witness_draft_cache 0 0 = Some [1, 2]"
    "0 < length (db_layers witness_draft_cache)" "length (db_lengths witness_draft_cache) = 3" by code_simp+
  show ?thesis using draft_compact_keeps_rows[OF ok, of "[2, 0]"] r by (auto simp: less_Suc_eq)
qed

section \<open>The chunk schedule\<close>

lemma filter_takeWhile_sorted:
  "sorted_wrt (\<lambda>a b. P b \<longrightarrow> P a) xs \<Longrightarrow> filter P xs = takeWhile P xs"
proof (induction xs)
  case (Cons x xs)
  show ?case
  proof (cases "P x")
    case False
    then have "filter P xs = []" using Cons.prems by (auto simp: filter_empty_conv)
    then show ?thesis using False by simp
  qed (use Cons in simp)
qed simp

lemma contiguous_sorted:
  assumes "sorted_wrt (\<lambda>a b. 0 < b \<longrightarrow> 0 < a) valid"
  shows "contiguous_suffix valid"
proof -
  let ?tw = "takeWhile (\<lambda>v. 0 < v) valid" and ?dw = "dropWhile (\<lambda>v. 0 < v) valid"
  have f: "filter (\<lambda>v. 0 < v) valid = ?tw" using filter_takeWhile_sorted[OF assms] .
  have t: "take (length ?tw) valid = ?tw" "drop (length ?tw) valid = ?dw"
    by (metis takeWhile_eq_take dropWhile_eq_drop)+
  have "filter (\<lambda>v. 0 < v) ?tw = ?tw" by (rule filter_True) (auto dest: set_takeWhileD)
  moreover have "filter (\<lambda>v. 0 < v) (?tw @ ?dw) = ?tw" using f by simp
  ultimately have "filter (\<lambda>v. 0 < v) ?dw = []" by (simp only: filter_append append_self_conv)
  then have "list_all (\<lambda>v. v = 0) ?dw" by (auto simp: filter_empty_conv list_all_iff)
  moreover have "list_all (\<lambda>v. 0 < v) ?tw" by (auto simp: list_all_iff dest: set_takeWhileD)
  ultimately show ?thesis unfolding contiguous_suffix_def Let_def f t by simp
qed

lemma order_entries_sorted: "sorted_wrt (\<lambda>a b. chunk_count (plen b) \<le> chunk_count (plen a)) (order_entries plen es)"
proof -
  let ?c = "\<lambda>e. chunk_count (plen e)"
  let ?cs = "map ?c es"
  show ?thesis
  proof (cases "list_ex (\<lambda>(l, r). l < r) (zip ?cs (drop 1 ?cs))")
    case True
    then show ?thesis using sorted_wrt_sorted_desc[of ?c es] by (simp add: order_entries_def Let_def)
  next
    case False
    have "?c (es ! Suc i) \<le> ?c (es ! i)" if "Suc i < length es" for i
    proof (rule ccontr)
      assume "\<not> ?thesis"
      moreover have "(?c (es ! i), ?c (es ! Suc i)) \<in> set (zip ?cs (drop 1 ?cs))"
        using that by (auto simp: set_zip intro!: exI[of _ i])
      ultimately show False using False by (auto simp: list_ex_iff)
    qed
    moreover have "transp (\<lambda>a b. ?c b \<le> ?c a)" by (rule transpI) simp
    ultimately have "sorted_wrt (\<lambda>a b. ?c b \<le> ?c a) es" by (simp add: sorted_wrt_iff_nth_Suc_transp)
    then show ?thesis using False by (simp add: order_entries_def Let_def)
  qed
qed

lemma set_order_entries [simp]: "set (order_entries plen es) = set es"
  by (simp add: order_entries_def Let_def)

lemma distinct_order_entries: "distinct es \<Longrightarrow> distinct (order_entries plen es)"
  by (simp add: order_entries_def Let_def distinct_sorted_desc)

lemma fold_update_nth:
  "length (fold (\<lambda>r f. f[r := x]) rs f) = length f"
  "i < length f \<Longrightarrow> fold (\<lambda>r f. f[r := x]) rs f ! i = (if i \<in> set rs then x else f ! i)"
  by (induction rs arbitrary: f) (auto simp: nth_list_update)

definition initial_inv :: "nat \<Rightarrow> token list list \<Rightarrow> nat \<Rightarrow> nat \<Rightarrow> 'd initial_state \<Rightarrow> bool" where
  "initial_inv K rows cap i st \<longleftrightarrow> is_fed st = map (take (i * CHUNK)) rows
     \<and> db_lengths (is_cache st) = map (\<lambda>row. min (length row) (i * CHUNK) * K) rows
     \<and> is_final st = map (\<lambda>row. if length row \<le> i * CHUNK then Some ((length row - 1) div CHUNK * CHUNK) else None) rows
     \<and> db_cap (is_cache st) = cap \<and> (0 < i \<longrightarrow> None \<notin> set (db_layers (is_cache st)))"

text \<open>The rows that still have tokens at a chunk form a prefix of the batch.\<close>

lemma chunk_sorted:
  fixes rows :: "token list list"
  assumes "sorted_wrt (\<lambda>a b. (length b + 63) div 64 \<le> (length a + 63) div 64) rows"
  shows "sorted_wrt (\<lambda>a b. 0 < b \<longrightarrow> 0 < a) (chunk_valid (map length rows) (i * CHUNK))"
proof -
  have "i * 64 < length a" if "(length b + 63) div 64 \<le> (length a + 63) div 64" "i * 64 < length b" for a b :: "token list"
  proof -
    have "Suc i \<le> (length b + 63) div 64" using that(2) by (simp add: less_eq_div_iff_mult_less_eq)
    then have "Suc i \<le> (length a + 63) div 64" using that(1) by simp
    then show ?thesis by (simp add: less_eq_div_iff_mult_less_eq)
  qed
  note key = this
  have "sorted_wrt (\<lambda>a b. i * 64 < length b \<longrightarrow> i * 64 < length a) rows"
    by (rule sorted_wrt_mono_rel[OF _ assms]) (use key in blast)
  then show ?thesis by (simp add: chunk_valid_def sorted_wrt_map CHUNK_def)
qed

lemma active_prefix:
  assumes "contiguous_suffix valid" "r < length valid" "0 < valid ! r"
  shows "r < length (filter (\<lambda>v. 0 < v) valid)"
proof (rule ccontr)
  define a where "a = length (filter (\<lambda>v. 0 < v) valid)"
  assume "\<not> ?thesis"
  then have le: "a \<le> r" unfolding a_def by simp
  have z: "\<forall>v \<in> set (drop a valid). v = 0"
    using assms(1)[unfolded contiguous_suffix_def Let_def list_all_iff, THEN conjunct2] unfolding a_def .
  have "drop a valid ! (r - a) \<in> set (drop a valid)" by (rule nth_mem) (use le assms(2) in simp)
  then have "valid ! r \<in> set (drop a valid)" using le assms(2) by simp
  from bspec[OF z this] show False using assms(3) by simp
qed

lemma initial_chunk_step:
  assumes inv: "initial_inv K rows cap i st" and lt: "row \<in> set rows" "i * CHUNK < length row"
    and srt: "sorted_wrt (\<lambda>a b. (length b + 63) div 64 \<le> (length a + 63) div 64) rows"
    and ne: "\<And>row. row \<in> set rows \<Longrightarrow> 0 < length row" and cap: "\<And>row. row \<in> set rows \<Longrightarrow> length row * K \<le> cap"
    and wr: "\<And>ls fed. None \<notin> set (store ls fed)"
  obtains st' where "initial_chunk store K (map length rows) rows (i * CHUNK) st = Inr st'" "initial_inv K rows cap (Suc i) st'"
proof -
  let ?s = "i * CHUNK"
  let ?v = "chunk_valid (map length rows) ?s" and ?c = "is_cache st"
  let ?act = "length (filter (\<lambda>v. 0 < v) ?v)" and ?fin = "finishing_rows (map length rows) ?s"
  have I: "is_fed st = map (take ?s) rows" "db_lengths ?c = map (\<lambda>row. min (length row) ?s * K) rows"
    "is_final st = map (\<lambda>row. if length row \<le> ?s then Some ((length row - 1) div CHUNK * CHUNK) else None) rows"
    "db_cap ?c = cap" "0 < i \<Longrightarrow> None \<notin> set (db_layers ?c)"
    using inv by (auto simp: initial_inv_def)
  have cont: "contiguous_suffix ?v" by (rule contiguous_sorted[OF chunk_sorted[OF srt]])
  have vn: "?v ! r = min CHUNK (length (rows ! r) - ?s)" "length ?v = length rows" if "r < length rows" for r
    using that by (simp_all add: chunk_valid_def)
  have lv: "length ?v = length rows" by (simp add: chunk_valid_def)
  obtain r0 where r0: "r0 < length rows" "rows ! r0 = row" using lt(1) by (auto simp: in_set_conv_nth)
  have p0: "0 < ?v ! r0" using lt(2) r0 unfolding vn(1)[OF r0(1)] by (simp add: CHUNK_def)
  have "r0 < ?act" by (rule active_prefix[OF cont]) (use r0 p0 lv in simp_all)
  then have a0: "0 < ?act" by (rule le_less_trans[OF le0])
  have mx: "fold max ?v 0 \<noteq> 0" using fold_max_ge(1)[of "?v ! r0" ?v 0] p0 r0(1) lv by simp
  have al: "?act \<le> length rows" using length_filter_le[of "\<lambda>v. 0 < v" ?v] lv by simp
  have slot: "min (length x) ?s * K + min CHUNK (length x - ?s) * K = min (length x) (Suc i * CHUNK) * K" for x :: "token list"
  proof -
    have "min a s + min c (a - s) = min a (s + c)" for a s c :: nat by (auto simp: min_def)
    from this[of "length x" ?s CHUNK] show ?thesis
      unfolding add_mult_distrib[symmetric] by (simp add: add.commute)
  qed
  have adv: "map (\<lambda>(n, v). n + v * K) (zip (db_lengths ?c) ?v) = map (\<lambda>row. min (length row) (Suc i * CHUNK) * K) rows"
    using slot by (intro nth_equalityI) (simp_all add: I(2) vn lv)
  have tot: "fold max (map (\<lambda>(n, v). n + v * K) (take ?act (zip (db_lengths ?c) ?v))) 0 \<le> cap"
  proof (rule fold_max_le)
    fix x assume "x \<in> set (map (\<lambda>(n, v). n + v * K) (take ?act (zip (db_lengths ?c) ?v)))"
    then have "x \<in> set (map (\<lambda>(n, v). n + v * K) (zip (db_lengths ?c) ?v))" by (metis in_set_takeD take_map)
    then obtain y where y: "y \<in> set rows" "x = min (length y) (Suc i * CHUNK) * K" unfolding adv by auto
    then have "x \<le> length y * K" by simp
    then show "x \<le> cap" using cap[OF y(1)] by simp
  qed simp
  have pl: "\<exists>ls. prefix_layers (int ?act) ?c = Inr ls"
  proof (cases "?act = length rows")
    case True
    then show ?thesis using a0 I(2) by (simp add: prefix_layers_def active_batch_size_def)
  next
    case False
    have "0 < i"
    proof (rule ccontr)
      assume "\<not> 0 < i"
      then have "filter (\<lambda>v. 0 < v) ?v = ?v" using ne by (intro filter_True) (auto simp: chunk_valid_def CHUNK_def)
      then show False using False lv by metis
    qed
    then show ?thesis using a0 al False I by (simp add: prefix_layers_def active_batch_size_def)
  qed
  have rf: "ragged_forward K [length rows] (map (\<lambda>_. ?s) rows) ?v ?c = Inr ?act"
    unfolding ragged_forward_def Let_def using mx cont tot pl I(2,4) lv
    by (auto simp: active_batch_size_def not_less)
  have fin: "r \<in> set ?fin \<longleftrightarrow> r < length rows \<and> ?s < length (rows ! r) \<and> length (rows ! r) \<le> ?s + CHUNK" for r
    by (auto simp: finishing_rows_def)
  have ok: "\<not> (?fin \<noteq> [] \<and> ?act \<le> last ?fin)"
  proof (cases "?fin = []")
    case False
    then have "last ?fin \<in> set ?fin" by (rule last_in_set)
    then have l: "last ?fin < length rows" "?s < length (rows ! last ?fin)" unfolding fin by auto
    then have "0 < ?v ! last ?fin" unfolding vn(1)[OF l(1)] by (simp add: CHUNK_def)
    then show ?thesis using active_prefix[OF cont, of "last ?fin"] l(1) lv by simp
  qed simp
  let ?fed = "map (\<lambda>(v, toks). take v toks) (zip ?v (map (\<lambda>row. take CHUNK (drop ?s row)) rows))"
  let ?c1 = "?c\<lparr>db_layers := store (db_layers ?c) (take ?act ?fed)\<rparr>"
  let ?c2 = "?c1\<lparr>db_lengths := map (\<lambda>row. min (length row) (Suc i * CHUNK) * K) rows\<rparr>"
  have ad: "draft_advance ?v K ?c1 = Inr ?c2"
    using lv I(2) adv by (simp add: draft_advance_def active_batch_size_def)
  let ?st = "\<lparr>is_cache = ?c2, is_fed = map (\<lambda>(xs, ys). xs @ ys) (zip (is_fed st) ?fed),
      is_final = fold (\<lambda>r f. f[r := Some ?s]) ?fin (is_final st)\<rparr>"
  have eq: "initial_chunk store K (map length rows) rows ?s st = Inr ?st"
    unfolding initial_chunk_def Let_def rf res_bind_simps ad if_not_P[OF ok] by (rule refl)
  have fed: "map (\<lambda>(xs, ys). xs @ ys) (zip (is_fed st) ?fed) = map (take (Suc i * CHUNK)) rows"
  proof (rule nth_equalityI)
    fix r assume "r < length (map (\<lambda>(xs, ys). xs @ ys) (zip (is_fed st) ?fed))"
    then have r: "r < length rows" using I(1) lv by simp
    have "take ?s x @ take (min CHUNK (length x - ?s)) (take CHUNK (drop ?s x)) = take (Suc i * CHUNK) x" for x :: "token list"
      by (simp add: take_add[of ?s CHUNK x, symmetric] min_def add.commute)
    then show "map (\<lambda>(xs, ys). xs @ ys) (zip (is_fed st) ?fed) ! r = map (take (Suc i * CHUNK)) rows ! r"
      using r I(1) lv by (simp add: vn)
  qed (simp add: I(1) lv)
  have final: "fold (\<lambda>r f. f[r := Some ?s]) ?fin (is_final st)
      = map (\<lambda>row. if length row \<le> Suc i * CHUNK then Some ((length row - 1) div CHUNK * CHUNK) else None) rows"
  proof (rule nth_equalityI)
    fix r assume "r < length (fold (\<lambda>r f. f[r := Some ?s]) ?fin (is_final st))"
    then have r: "r < length rows" using I(3) by (simp add: fold_update_nth)
    have "(length (rows ! r) - 1) div CHUNK * CHUNK = ?s" if "?s < length (rows ! r)" "length (rows ! r) \<le> ?s + CHUNK"
    proof -
      have "(length (rows ! r) - 1) div 64 = i" using that by (intro div_nat_eqI) (auto simp: CHUNK_def)
      then show ?thesis by (simp add: CHUNK_def)
    qed
    then show "fold (\<lambda>r f. f[r := Some ?s]) ?fin (is_final st) ! r
      = map (\<lambda>row. if length row \<le> Suc i * CHUNK then Some ((length row - 1) div CHUNK * CHUNK) else None) rows ! r"
      using r I(3) fin[of r] by (auto simp: fold_update_nth(2))
  qed (simp add: I(3) fold_update_nth)
  have "initial_inv K rows cap (Suc i) ?st" using fed final I(4) wr by (simp add: initial_inv_def)
  then show ?thesis by (rule that[OF eq])
qed

lemma initial_loop_run:
  assumes srt: "sorted_wrt (\<lambda>a b. (length b + 63) div 64 \<le> (length a + 63) div 64) rows"
    and ne: "\<And>row. row \<in> set rows \<Longrightarrow> 0 < length row" and cap: "\<And>row. row \<in> set rows \<Longrightarrow> length row * K \<le> cap"
    and wr: "\<And>ls fed. None \<notin> set (store ls fed)"
  shows "\<forall>j<n. \<exists>row \<in> set rows. j * CHUNK < length row \<Longrightarrow> initial_inv K rows cap i st \<Longrightarrow> i \<le> n \<Longrightarrow>
    \<exists>st'. initial_loop store K (map length rows) rows (map (\<lambda>i. i * CHUNK) [i..<n]) st = Inr st' \<and> initial_inv K rows cap n st'"
proof (induction "n - i" arbitrary: i st)
  case 0
  then show ?case by simp
next
  case (Suc m)
  then have i: "i < n" by simp
  obtain row where r: "row \<in> set rows" "i * CHUNK < length row" using Suc.prems(1) i by blast
  obtain st1 where st1: "initial_chunk store K (map length rows) rows (i * CHUNK) st = Inr st1" "initial_inv K rows cap (Suc i) st1"
    by (rule initial_chunk_step[where store = store, OF Suc.prems(2) r srt ne cap wr])
  have m': "m = n - Suc i" and le: "Suc i \<le> n" using Suc.hyps(2) by simp_all
  from Suc.hyps(1)[OF m' Suc.prems(1) st1(2) le] show ?case using st1(1) i by (simp add: upt_conv_Cons)
qed

lemma length_initial_token_row: "prompt \<noteq> [] \<Longrightarrow> length (initial_token_row prompt first) = length prompt + 1"
  by (cases prompt) (simp_all add: initial_token_row_def)

lemma build_initial_drafts_run:
  assumes "entries \<noteq> []" "\<forall>(prompt, first) \<in> set entries. prompt \<noteq> []" "1 \<le> max_new"
    and "\<forall>ls fed. None \<notin> set (store ls fed)"
    and "states = order_entries (\<lambda>(prompt, first). length prompt) entries"
  shows "\<exists>st. build_initial_drafts store num_layers K max_new b1 states = Inr st
    \<and> is_fed st = map (\<lambda>(prompt, first). initial_token_row prompt first) states
    \<and> db_lengths (is_cache st) = map (\<lambda>(prompt, first). (length prompt + 1) * K) states
    \<and> is_final st = map (\<lambda>(prompt, first). Some (length prompt div 64 * 64)) states
    \<and> db_cap (is_cache st) = (fold max (map (\<lambda>(prompt, _). length prompt) states) 0 + max_new) * K"
proof -
  let ?rows = "map (\<lambda>(prompt, first). initial_token_row prompt first) states"
  let ?mp = "fold max (map (\<lambda>(prompt, _). length prompt) states) 0"
  let ?cap = "(?mp + max_new) * K" and ?M = "fold max (map length ?rows) 0"
  have pne: "fst e \<noteq> []" if "e \<in> set states" for e using that assms(2,5) by auto
  have len: "length (case e of (prompt, first) \<Rightarrow> initial_token_row prompt first) = length (fst e) + 1" if "e \<in> set states" for e
    using length_initial_token_row[OF pne[OF that]] by (simp add: case_prod_unfold)
  have lens: "map (\<lambda>(prompt, _). length prompt + 1) states = map length ?rows"
    using len by (auto simp: case_prod_unfold)
  have cc: "(length (fst e) + 1 + 63) div 64 = chunk_count (length (fst e))" for e :: "token list \<times> token"
    by (simp add: chunk_count_def)
  have "sorted_wrt (\<lambda>a b. chunk_count (length (fst b)) \<le> chunk_count (length (fst a))) states"
    using order_entries_sorted[of "\<lambda>(prompt, first). length prompt" entries] assms(5) by (simp add: case_prod_unfold)
  then have srt: "sorted_wrt (\<lambda>a b. (length b + 63) div 64 \<le> (length a + 63) div 64) ?rows"
    unfolding sorted_wrt_map by (rule sorted_wrt_mono_rel[rotated]) (simp only: len cc)
  have ne: "0 < length row" if "row \<in> set ?rows" for row using that by (auto simp: initial_token_row_def)
  have cap: "length row * K \<le> ?cap" if "row \<in> set ?rows" for row
  proof -
    from that obtain e where "e \<in> set states" "row = (case e of (prompt, first) \<Rightarrow> initial_token_row prompt first)" by auto
    then have e: "e \<in> set states" "length row = length (fst e) + 1" using len[of e] by simp_all
    have "length (fst e) \<le> ?mp" using e(1) by (intro fold_max_ge(1)) (auto simp: case_prod_unfold)
    then show ?thesis using e(2) assms(3) by (intro mult_le_mono1) simp
  qed
  let ?n = "(?M + CHUNK - 1) div CHUNK"
  have mem: "?M \<in> set (map length ?rows)"
  proof -
    have "fold max xs a \<in> set xs \<or> fold max xs a = a" for xs and a :: nat
      by (induction xs arbitrary: a) (auto, metis max_def)
    moreover have "?M \<noteq> 0" using assms(1,5) fold_max_ge(1)[of _ "map length ?rows" 0] ne
      by (metis (no_types, lifting) image_eqI le_zero_eq length_greater_0_conv list.set_map neq0_conv set_empty set_order_entries last_in_set list.map_disc_iff)
    ultimately show ?thesis by (metis (no_types, lifting))
  qed
  have some: "\<exists>row \<in> set ?rows. j * CHUNK < length row" if "j < ?n" for j
  proof -
    have "Suc j * 64 \<le> ?M + 64 - 1" using that by (simp add: CHUNK_def less_eq_div_iff_mult_less_eq Suc_le_eq[symmetric])
    then have "j * CHUNK < ?M" by (simp add: CHUNK_def)
    moreover obtain row where "row \<in> set ?rows" "?M = length row" using mem unfolding set_map by blast
    ultimately show ?thesis by metis
  qed
  have all: "length row \<le> ?n * CHUNK" if "row \<in> set ?rows" for row
  proof -
    have "length row \<le> ?M" by (rule fold_max_ge(1)) (use that in \<open>simp only: set_map imageI\<close>)
    also have "m \<le> (m + 63) div 64 * 64" for m :: nat by presburger
    finally show ?thesis by (simp add: CHUNK_def add.commute)
  qed
  let ?st0 = "\<lparr>is_cache = draft_cache_init num_layers (length states) ?cap b1, is_fed = map (\<lambda>_. []) states,
      is_final = map (\<lambda>_. None) states\<rparr> :: 'a initial_state"
  have inv0: "initial_inv K ?rows ?cap 0 ?st0"
    by (simp add: initial_inv_def draft_cache_init_def map_replicate_const comp_def case_prod_unfold initial_token_row_def)
  have wr: "None \<notin> set (store ls fed)" for ls fed using assms(4) by blast
  obtain st where st: "initial_loop store K (map length ?rows) ?rows (map (\<lambda>i. i * CHUNK) [0..<?n]) ?st0 = Inr st"
    "initial_inv K ?rows ?cap ?n st"
    using initial_loop_run[where store = store, OF srt ne cap wr, of ?n 0 ?st0] some inv0 by auto
  have "build_initial_drafts store num_layers K max_new b1 states = Inr st"
    unfolding build_initial_drafts_def Let_def lens chunk_starts_def by (rule st(1))
  moreover have "is_fed st = ?rows" using st(2) all unfolding initial_inv_def by (simp only: map_idI take_all)
  moreover have "db_lengths (is_cache st) = map (\<lambda>(prompt, first). (length prompt + 1) * K) states"
  proof -
    have "db_lengths (is_cache st) = map (\<lambda>row. min (length row) (?n * CHUNK) * K) ?rows"
      using st(2) unfolding initial_inv_def by (elim conjE)
    also have "\<dots> = map (\<lambda>row. length row * K) ?rows" by (rule map_cong[OF refl]) (simp only: min_absorb1[OF all])
    finally show ?thesis unfolding map_map comp_def using len by (simp add: case_prod_unfold)
  qed
  moreover have "is_final st = map (\<lambda>(prompt, first). Some (length prompt div 64 * 64)) states"
  proof -
    have "is_final st = map (\<lambda>row. if length row \<le> ?n * CHUNK then Some ((length row - 1) div CHUNK * CHUNK) else None) ?rows"
      using st(2) unfolding initial_inv_def by (elim conjE)
    also have "\<dots> = map (\<lambda>row. Some ((length row - 1) div CHUNK * CHUNK)) ?rows" by (rule map_cong[OF refl]) (simp only: all if_True)
    finally show ?thesis unfolding map_map comp_def using len by (simp add: case_prod_unfold CHUNK_def)
  qed
  moreover have "db_cap (is_cache st) = ?cap" using st(2) unfolding initial_inv_def by (elim conjE)
  ultimately show ?thesis by blast
qed

text \<open>
  C12.  Chunked drafting of the prompts is complete: after the requests are ordered by chunk
  count, no guard of the ragged forward pass and no capacity check raises, every row has been
  fed exactly its shifted prompt and the first token twice, its length is its token count
  times the slots per position, and its final output was kept in the chunk that holds its
  last token.
\<close>

theorem initial_drafts_complete:
  assumes "entries \<noteq> []" "\<forall>(prompt, first) \<in> set entries. prompt \<noteq> []" "1 \<le> max_new"
    and "\<forall>ls fed. None \<notin> set (store ls fed)"
    and "states = order_entries (\<lambda>(prompt, first). length prompt) entries"
  shows "\<exists>st. build_initial_drafts store num_layers K max_new b1 states = Inr st
    \<and> is_fed st = map (\<lambda>(prompt, first). initial_token_row prompt first) states
    \<and> db_lengths (is_cache st) = map (\<lambda>(prompt, first). (length prompt + 1) * K) states
    \<and> is_final st = map (\<lambda>(prompt, first). Some (length prompt div 64 * 64)) states"
  using build_initial_drafts_run[OF assms] by blast

definition witness_entries :: "(token list \<times> token) list" where
  "witness_entries = [([1, 2, 3], 4), (replicate 70 5, 6)]"

theorem initial_drafts_complete_witness:
  "\<exists>st. build_initial_drafts (\<lambda>ls fed. [Some (map (map nat) fed)]) 1 2 1 False
      (order_entries (\<lambda>(prompt, first). length prompt) witness_entries) = Inr st
    \<and> db_lengths (is_cache st) = [142, 8] \<and> is_final st = [Some 64, Some 0]"
proof -
  have h: "witness_entries \<noteq> []" "\<forall>(prompt, first) \<in> set witness_entries. prompt \<noteq> []"
    by (simp_all add: witness_entries_def)
  have o: "order_entries (\<lambda>(prompt, first). length prompt) witness_entries = [(replicate 70 5, 6), ([1, 2, 3], 4)]"
    by code_simp
  show ?thesis
    using initial_drafts_complete[OF h, of 1 "\<lambda>ls fed. [Some (map (map nat) fed)]" _ 1 2 False] unfolding o by auto
qed

section \<open>The draft cache of a round\<close>

lemma draft_compact_lengths:
  assumes "\<forall>i \<in> set idxs. i < length (db_lengths c)"
  obtains c' where "draft_compact_rows idxs c = Inr c'" "db_lengths c' = map (\<lambda>i. db_lengths c ! i) idxs" "db_cap c' = db_cap c"
proof (cases "idxs = [0..<length idxs]")
  case True
  have "length idxs \<le> length (db_lengths c)"
  proof (cases "length idxs")
    case (Suc n)
    then have "n \<in> set idxs" using True by (metis atLeastLessThan_iff lessI less_eq_nat.simps(1) set_upt)
    then show ?thesis using assms Suc by auto
  qed simp
  then have "map (\<lambda>i. db_lengths c ! i) [0..<length idxs] = take (length idxs) (db_lengths c)"
    by (intro nth_equalityI) auto
  then show ?thesis using that True by (simp add: draft_compact_rows_def Let_def)
next
  case False
  have g: "\<not> (\<exists>i \<in> set idxs. length (db_lengths c) \<le> i)" using assms by auto
  show ?thesis
    by (rule that) (unfold draft_compact_rows_def Let_def if_not_P[OF False] if_not_P[OF g], rule refl, simp_all)
qed

lemma rollback_rows_ok:
  assumes "distinct rows" "\<forall>r \<in> set rows. r < length (db_lengths c) \<and> K \<le> db_lengths c ! r"
  shows "\<exists>c'. rollback_rows rows K c = Inr c' \<and> db_cap c' = db_cap c \<and> length (db_lengths c') = length (db_lengths c)
    \<and> (\<forall>j<length (db_lengths c). db_lengths c' ! j = (if j \<in> set rows then db_lengths c ! j - K else db_lengths c ! j))"
  using assms
proof (induction rows arbitrary: c)
  case (Cons r rows)
  let ?c = "c\<lparr>db_lengths := (db_lengths c)[r := db_lengths c ! r - K]\<rparr>"
  have "\<exists>c'. rollback_rows rows K ?c = Inr c' \<and> db_cap c' = db_cap ?c \<and> length (db_lengths c') = length (db_lengths ?c)
    \<and> (\<forall>j<length (db_lengths ?c). db_lengths c' ! j = (if j \<in> set rows then db_lengths ?c ! j - K else db_lengths ?c ! j))"
    by (rule Cons.IH) (use Cons.prems in \<open>auto simp: nth_list_update\<close>)
  then show ?case using Cons.prems by (auto simp: nth_list_update)
qed simp

lemma all_positive_contiguous: "\<forall>v \<in> set valid. 0 < v \<Longrightarrow> contiguous_suffix valid" "\<forall>v \<in> set valid. 0 < v \<Longrightarrow> length (filter (\<lambda>v. 0 < v) valid) = length valid"
  by (simp_all add: contiguous_suffix_def Let_def list_all_iff filter_True)

lemma ragged_forward_ok:
  assumes "\<forall>n \<in> set rows. n = length valid" "length starts = length valid" "length (db_lengths c) = length valid" "valid \<noteq> []"
    and "\<forall>v \<in> set valid. 0 < v" "\<forall>j<length valid. db_lengths c ! j + valid ! j * K \<le> db_cap c"
  shows "ragged_forward K rows starts valid c = Inr (length valid)"
proof -
  have p: "length (filter (\<lambda>v. 0 < v) valid) = length valid" and cs: "contiguous_suffix valid"
    using all_positive_contiguous[OF assms(5)] by blast+
  have "0 < valid ! 0" using assms(4,5) by simp
  moreover have "valid ! 0 \<le> fold max valid 0" using assms(4) by (intro fold_max_ge(1)) simp
  ultimately have f: "fold max valid 0 \<noteq> 0" by simp
  have m: "fold max (map (\<lambda>(n, v). n + v * K) (take (length valid) (zip (db_lengths c) valid))) 0 \<le> db_cap c"
    using assms(3,6) by (intro fold_max_le) (auto simp: in_set_conv_nth)
  have px: "prefix_layers (int (length valid)) c = Inr (db_layers c)"
    using assms(3,4) by (simp add: prefix_layers_def active_batch_size_def)
  show ?thesis
    unfolding ragged_forward_def Let_def p px using assms(1-3) f cs m by (simp add: active_batch_size_def list_all_iff)
qed

lemma map_insert_desc: "map g (insert_desc (\<lambda>x. k (g x)) x xs) = insert_desc k (g x) (map g xs)"
  by (induction xs) auto

lemma map_sorted_desc: "map g (sorted_desc (\<lambda>x. k (g x)) xs) = sorted_desc k (map g xs)"
proof -
  have "map g (fold (insert_desc (\<lambda>x. k (g x))) xs ys) = fold (insert_desc k) (map g xs) (map g ys)" for ys
    by (induction xs arbitrary: ys) (simp_all add: map_insert_desc)
  then show ?thesis by (simp add: sorted_desc_def)
qed

lemma map_order_entries: "map g (order_entries (\<lambda>x. f (g x)) xs) = order_entries f (map g xs)"
  by (simp add: order_entries_def Let_def comp_def map_sorted_desc[where g = g and k = "\<lambda>e. chunk_count (f e)"])

lemma insert_desc_cong: "\<forall>y \<in> insert x (set xs). k y = k' y \<Longrightarrow> insert_desc k x xs = insert_desc k' x xs"
  by (induction xs) auto

lemma sorted_desc_cong: "\<forall>y \<in> set xs. k y = k' y \<Longrightarrow> sorted_desc k xs = sorted_desc k' xs"
proof -
  have "\<forall>y \<in> set xs \<union> set ys. k y = k' y \<Longrightarrow> fold (insert_desc k) xs ys = fold (insert_desc k') xs ys" for ys
  proof (induction xs arbitrary: ys)
    case (Cons x xs)
    have "insert_desc k x ys = insert_desc k' x ys" by (rule insert_desc_cong) (use Cons.prems in auto)
    then show ?case using Cons.IH[of "insert_desc k' x ys"] Cons.prems by simp
  qed simp
  then show "\<forall>y \<in> set xs. k y = k' y \<Longrightarrow> sorted_desc k xs = sorted_desc k' xs" by (simp add: sorted_desc_def)
qed

lemma order_entries_cong: "\<forall>e \<in> set xs. f e = f' e \<Longrightarrow> order_entries f xs = order_entries f' xs"
proof -
  assume a: "\<forall>e \<in> set xs. f e = f' e"
  have m: "map (\<lambda>e. chunk_count (f e)) xs = map (\<lambda>e. chunk_count (f' e)) xs" using a by simp
  have d: "sorted_desc (\<lambda>e. chunk_count (f e)) xs = sorted_desc (\<lambda>e. chunk_count (f' e)) xs"
    by (rule sorted_desc_cong) (use a in simp)
  show ?thesis unfolding order_entries_def Let_def m d by (rule refl)
qed

end
