(* ===== verification/Draft_Beam.thy ===== *)
theory Draft_Beam
  imports Draft_Tree
begin

text \<open>
  Beam selection between two blocks of the breadth-first expansion
  (\<open>_build_tree_from_block1\<close>, the section that prunes \<open>next_*\<close>): the adaptive beam width,
  the default selection by cumulative log-probability, and the diversity, hidden-slot,
  depth-stratified and depth-1-protecting variants.

  The Python sets of positions are duplicate-free lists; a set turned into an array is read in
  ascending order.  \<open>np.argpartition(-x, k)[:k]\<close> is the parameter \<open>op_part k x\<close>.
\<close>

section \<open>What \<open>np.argpartition\<close> promises\<close>

locale partition_op =
  fixes part :: "nat \<Rightarrow> 'p::linorder list \<Rightarrow> nat list"
  assumes part_length: "k < length xs \<Longrightarrow> length (part k xs) = k"
    and part_index: "k < length xs \<Longrightarrow> i \<in> set (part k xs) \<Longrightarrow> i < length xs"
    and part_distinct: "k < length xs \<Longrightarrow> distinct (part k xs)"
    and part_best: "k < length xs \<Longrightarrow> i \<in> set (part k xs) \<Longrightarrow> j < length xs \<Longrightarrow>
        j \<notin> set (part k xs) \<Longrightarrow> xs ! j \<le> xs ! i"

text \<open>A sorted top-k selection is in particular a partition.\<close>

sublocale topk_op \<subseteq> topk_part: partition_op topk
  by unfold_locales (auto intro: topk_length topk_index topk_distinct topk_best less_imp_le)

interpretation sortpart: partition_op "sort_topk :: nat \<Rightarrow> 'p::linorder list \<Rightarrow> nat list"
  by (rule sorttopk.topk_part.partition_op_axioms)

section \<open>Selection steps\<close>

definition compute_adaptive_beam :: "algo \<Rightarrow> nat \<Rightarrow> nat \<Rightarrow> nat" where
  "compute_adaptive_beam a n_nodes K =
     (let remaining_budget = int (total_tokens a) - int n_nodes
      in min (beam_width a) (nat (max 1 (remaining_budget div int K))))"

text \<open>The best \<open>k\<close> of a list of positions.\<close>

definition best_in :: "(nat \<Rightarrow> 'p list \<Rightarrow> nat list) \<Rightarrow> 'p list \<Rightarrow> nat \<Rightarrow> nat list \<Rightarrow> nat list" where
  "best_in part lps k idxs =
     (if length idxs \<le> k then idxs
      else map (\<lambda>j. idxs ! j) (part k (map (\<lambda>i. lps ! i) idxs)))"

definition fill_global :: "(nat \<Rightarrow> 'p list \<Rightarrow> nat list) \<Rightarrow> 'p list \<Rightarrow> nat \<Rightarrow> nat list \<Rightarrow> nat list" where
  "fill_global part lps beam keep =
     (if length keep < beam
      then keep @ best_in part lps (beam - length keep)
             (filter (\<lambda>i. i \<notin> set keep) [0..<length lps])
      else keep)"

definition truncate_keep :: "(nat \<Rightarrow> 'p list \<Rightarrow> nat list) \<Rightarrow> 'p list \<Rightarrow> nat \<Rightarrow> nat list \<Rightarrow> nat list" where
  "truncate_keep part lps beam keep =
     (if beam < length keep then best_in part lps beam (sort keep) else keep)"

text \<open>The best candidate of every distinct input token.\<close>

definition diverse_keep :: "'p::linorder list \<Rightarrow> token list \<Rightarrow> nat list" where
  "diverse_keep lps toks =
     map (\<lambda>tok. let idx = positions (\<lambda>t. t = tok) toks
                in idx ! argmax_first (map (\<lambda>i. lps ! i) idx))
       (sorted_list_of_set (set toks))"

text \<open>At most \<open>cap\<close> positions for every distinct value of \<open>keys\<close>.\<close>

definition group_keep ::
  "(nat \<Rightarrow> 'p list \<Rightarrow> nat list) \<Rightarrow> 'p list \<Rightarrow> nat \<Rightarrow> nat list \<Rightarrow> nat list" where
  "group_keep part lps cap keys =
     concat (map (\<lambda>s. best_in part lps cap (positions (\<lambda>x. x = s) keys))
       (sorted_list_of_set (set keys)))"

definition protected_positions :: "'p node list \<Rightarrow> 'p pending list \<Rightarrow> nat list" where
  "protected_positions tree pend =
     positions (\<lambda>pd. nd_block (tree ! pd_node pd) = 0 \<and> nd_slot (tree ! pd_node pd) = 0) pend"

definition default_keep :: "(nat \<Rightarrow> 'p list \<Rightarrow> nat list) \<Rightarrow> 'p list \<Rightarrow> nat \<Rightarrow> nat list" where
  "default_keep part lps beam = part beam lps"

definition select_beam ::
  "(nat \<Rightarrow> 'p::linorder list \<Rightarrow> nat list) \<Rightarrow> algo \<Rightarrow> nat \<Rightarrow> nat \<Rightarrow> 'p node list
     \<Rightarrow> 'p pending list \<Rightarrow> nat list" where
  "select_beam part a pend_depth beam tree pend =
     (let lps = map pd_lp pend;
          slots = map (\<lambda>pd. nd_slot (tree ! pd_node pd)) pend;
          prot = (if protect_d1 a \<and> pend_depth = 1 then protected_positions tree pend else [])
      in if length pend \<le> beam then [0..<length pend]
         else if diverse_beam a then
           let keep = diverse_keep lps (map pd_token pend)
           in sort (if length keep < beam then fill_global part lps beam keep
                    else truncate_keep part lps beam keep)
         else if 0 < hidden_slot_cap a \<and> pend_depth = 1 then
           sort (truncate_keep part lps beam
             (fill_global part lps beam (group_keep part lps (hidden_slot_cap a) slots)))
         else if 0 < strat_beam a \<and> pend_depth = 1 then
           sort (truncate_keep part lps beam
             (fill_global part lps beam
               (group_keep part lps (strat_beam a) (map (\<lambda>s. s + 1) slots))))
         else if prot \<noteq> [] then
           let reserve = min (protect_d1_n a) (min (length prot) (beam div 2));
               keep = (if 0 < reserve then best_in part lps reserve prot else [])
           in sort (fill_global part lps beam keep)
         else default_keep part lps beam)"

section \<open>Every selection is a small set of valid positions\<close>

definition valid_keep :: "nat \<Rightarrow> nat list \<Rightarrow> bool" where
  "valid_keep n keep \<longleftrightarrow> distinct keep \<and> set keep \<subseteq> {..<n}"

lemma valid_keepI: "distinct keep \<Longrightarrow> (\<And>i. i \<in> set keep \<Longrightarrow> i < n) \<Longrightarrow> valid_keep n keep"
  by (auto simp: valid_keep_def)

lemma valid_keep_sort [simp]: "valid_keep n (sort keep) = valid_keep n keep"
  by (simp add: valid_keep_def)

context partition_op
begin

lemma best_in_length: "length (best_in part lps k idxs) = min k (length idxs)"
  using part_length[of k "map (\<lambda>i. lps ! i) idxs"] by (simp add: best_in_def)

lemma best_in_subset: "set (best_in part lps k idxs) \<subseteq> set idxs"
  using part_index[of k "map (\<lambda>i. lps ! i) idxs"] by (auto simp: best_in_def)

lemma best_in_distinct: "distinct idxs \<Longrightarrow> distinct (best_in part lps k idxs)"
proof (cases "length idxs \<le> k")
  case False
  assume "distinct idxs"
  then have "inj_on (\<lambda>j. idxs ! j) {..<length idxs}" by (auto intro!: inj_onI simp: nth_eq_iff_index_eq)
  moreover have "set (part k (map (\<lambda>i. lps ! i) idxs)) \<subseteq> {..<length idxs}"
    using part_index[of k "map (\<lambda>i. lps ! i) idxs"] False by auto
  moreover have "distinct (part k (map (\<lambda>i. lps ! i) idxs))"
    using part_distinct[of k "map (\<lambda>i. lps ! i) idxs"] False by simp
  ultimately show ?thesis
    using False by (simp add: best_in_def distinct_map inj_on_subset)
qed (simp add: best_in_def)

lemma best_in_valid: "valid_keep n idxs \<Longrightarrow> valid_keep n (best_in part lps k idxs)"
  using best_in_subset best_in_distinct by (fastforce simp: valid_keep_def)

lemma fill_global_valid:
  assumes "valid_keep n keep" "length lps = n"
  shows "valid_keep n (fill_global part lps beam keep)"
proof (cases "length keep < beam")
  case True
  let ?r = "filter (\<lambda>i. i \<notin> set keep) [0..<length lps]"
  have "valid_keep (length lps) (best_in part lps (beam - length keep) ?r)"
    by (rule best_in_valid) (auto simp: valid_keep_def)
  moreover have "set (best_in part lps (beam - length keep) ?r) \<inter> set keep = {}"
  proof -
    have "set ?r \<inter> set keep = {}" by auto
    then show ?thesis using best_in_subset[of lps "beam - length keep" ?r] by blast
  qed
  ultimately show ?thesis
    using assms True unfolding fill_global_def valid_keep_def
    by (simp only: if_True distinct_append set_append Un_subset_iff simp_thms) blast
qed (use assms in \<open>simp add: fill_global_def\<close>)

lemma fill_global_length: "length keep \<le> beam \<Longrightarrow> length (fill_global part lps beam keep) \<le> beam"
  by (auto simp: fill_global_def best_in_length)

lemma truncate_keep_valid: "valid_keep n keep \<Longrightarrow> valid_keep n (truncate_keep part lps beam keep)"
  by (auto simp: truncate_keep_def best_in_valid)

lemma truncate_keep_length: "length (truncate_keep part lps beam keep) \<le> beam"
  by (simp add: truncate_keep_def best_in_length)

lemma group_keep_valid: "valid_keep (length keys) (group_keep part lps cap keys)"
proof -
  let ?f = "\<lambda>s. best_in part lps cap (positions (\<lambda>x. x = s) keys)"
  have sub: "set (?f s) \<subseteq> {i. i < length keys \<and> keys ! i = s}" for s
    using best_in_subset[of lps cap "positions (\<lambda>x. x = s) keys"] by auto
  have "distinct (concat (map ?f ss))" if "distinct ss" for ss
    using that
  proof (induction ss)
    case (Cons s ss)
    have "set (concat (map ?f ss)) \<subseteq> {i. keys ! i \<in> set ss}" using sub by fastforce
    moreover have "set (?f s) \<subseteq> {i. keys ! i = s}" using sub by fastforce
    ultimately have "set (?f s) \<inter> set (concat (map ?f ss)) = {}"
      using Cons.prems by (auto simp del: set_concat)
    then show ?case using Cons by (simp add: best_in_distinct)
  qed simp
  then have "distinct (group_keep part lps cap keys)" by (simp add: group_keep_def)
  moreover have "set (group_keep part lps cap keys) \<subseteq> {..<length keys}"
    using sub by (fastforce simp: group_keep_def)
  ultimately show ?thesis by (simp add: valid_keep_def)
qed

end

lemma diverse_keep_valid: "length lps = length toks \<Longrightarrow> valid_keep (length toks) (diverse_keep lps toks)"
proof -
  let ?idx = "\<lambda>tok. positions (\<lambda>t. t = tok) toks"
  let ?b = "\<lambda>tok. ?idx tok ! argmax_first (map (\<lambda>i. lps ! i) (?idx tok))"
  have b: "?b tok < length toks \<and> toks ! ?b tok = tok" if "tok \<in> set toks" for tok
  proof -
    have "?idx tok \<noteq> []" using that by (auto simp: in_set_conv_nth simp flip: set_empty)
    then have "?b tok \<in> set (?idx tok)"
      using argmax_first_less[of "map (\<lambda>i. lps ! i) (?idx tok)"] by (intro nth_mem) simp
    then show ?thesis unfolding set_positions by blast
  qed
  have "distinct (map ?b (sorted_list_of_set (set toks)))"
    by (auto simp: distinct_map intro!: inj_onI) (metis b)
  then show ?thesis
    using b by (auto simp: valid_keep_def diverse_keep_def Let_def)
qed

lemma default_keep_sound:
  assumes "partition_op part" "beam < length lps"
  shows "valid_keep (length lps) (default_keep part lps beam)
    \<and> length (default_keep part lps beam) \<le> beam"
  using partition_op.part_length[OF assms] partition_op.part_index[OF assms]
    partition_op.part_distinct[OF assms]
  by (auto simp: default_keep_def valid_keep_def)

lemmas keep_sound = partition_op.best_in_valid partition_op.best_in_length
  partition_op.fill_global_valid partition_op.fill_global_length
  partition_op.truncate_keep_valid partition_op.truncate_keep_length
  partition_op.group_keep_valid

lemma positions_valid: "valid_keep (length xs) (positions P xs)"
  by (auto simp: valid_keep_def)

lemma select_beam_facts:
  assumes part: "partition_op part" and pos: "0 < beam"
  shows "valid_keep (length pend) (select_beam part a d beam tree pend)
    \<and> length (select_beam part a d beam tree pend) \<le> beam"
proof -
  define lps where "lps = map pd_lp pend"
  define sound where "sound keep \<longleftrightarrow> valid_keep (length pend) keep \<and> length keep \<le> beam" for keep
  note K = keep_sound[OF part]
  have len: "length lps = length pend" by (simp add: lps_def)
  have srt: "sound (sort keep)" if "sound keep" for keep using that by (simp add: sound_def)
  have fill: "sound (fill_global part lps beam keep)" if "sound keep" for keep
    using that K(3)[OF _ len] K(4) by (auto simp: sound_def)
  have trunc: "sound (truncate_keep part lps beam keep)" if "valid_keep (length pend) keep" for keep
    using that K(5,6) by (auto simp: sound_def)
  have tf: "sound (truncate_keep part lps beam (fill_global part lps beam (group_keep part lps c ks)))"
    if "length ks = length pend" for c ks
    using K(7)[of ks lps c] that K(3)[OF _ len] by (auto intro: trunc)
  have dv: "valid_keep (length pend) (diverse_keep lps (map pd_token pend))"
    using diverse_keep_valid[of lps "map pd_token pend"] len by simp
  have pr: "sound (if c then best_in part lps (min x (min y (beam div 2)))
      (if b then protected_positions tree pend else []) else [])" for b c x y
    unfolding protected_positions_def sound_def using K(2)
    by (auto simp: min_le_iff_disj valid_keep_def[of _ "[]"] intro!: K(1) positions_valid)
  have df: "sound (default_keep part lps beam)" if "\<not> length pend \<le> beam"
    using default_keep_sound[OF part, of beam lps] that len by (simp add: sound_def)
  have all: "sound [0..<length pend]" if "length pend \<le> beam"
    using that by (auto simp: sound_def valid_keep_def)
  have ifI: "sound (if c then x else y)" if "c \<Longrightarrow> sound x" "\<not> c \<Longrightarrow> sound y" for c x y
    using that by simp
  have "sound (select_beam part a d beam tree pend)"
    unfolding select_beam_def Let_def lps_def[symmetric]
    by (intro ifI srt all) (auto split del: if_split simp: dv sound_def[of "diverse_keep _ _"] intro!: trunc tf df fill pr)
  then show ?thesis by (simp add: sound_def)
qed

text \<open>
  Whatever selection mode is configured, the beam keeps at most the adaptive beam width
  of distinct, existing pending leaves, so indexing the parallel pending arrays with it is
  always in range.
\<close>

theorem select_beam_sound:
  assumes "partition_op part" "0 < beam"
  shows "valid_keep (length pend) (select_beam part a d beam tree pend)
    \<and> length (select_beam part a d beam tree pend) \<le> beam"
  by (rule select_beam_facts[OF assms])

definition witness_pending :: "int pending list" where
  "witness_pending = map (\<lambda>i. \<lparr>pd_node = i, pd_lp = - int (i * i), pd_token = int (i mod 2),
     pd_hidden = 0, pd_ttt_valid = 1, pd_batch = 0, pd_source = 0\<rparr>) [0..<5]"

theorem select_beam_sound_witness:
  "partition_op (sort_topk :: nat \<Rightarrow> int list \<Rightarrow> nat list) \<and>
   valid_keep (length witness_pending)
     (select_beam sort_topk (default_algo\<lparr>diverse_beam := True\<rparr>) 2 3 [] witness_pending) \<and>
   length (select_beam sort_topk (default_algo\<lparr>diverse_beam := True\<rparr>) 2 3 [] witness_pending) \<le> 3"
  using select_beam_sound[OF sorttopk.topk_part.partition_op_axioms, of 3 witness_pending
      "default_algo\<lparr>diverse_beam := True\<rparr>" 2 "[]"] sorttopk.topk_part.partition_op_axioms
  by simp

end
