(* ===== verification/Draft_Rerank.thy ===== *)
theory Draft_Rerank
  imports Prelude "HOL-Library.Monad_Syntax"
begin

text \<open>
  The three optional re-rankings of the slot-0 alternatives inside \<open>_build_tree_from_block1\<close>:
  injection of session n-grams, online logit correction and maximal-marginal-relevance
  selection.  They rewrite row 0 of \<open>att_np\<close> (target tokens) and \<open>atl_np\<close> (log-probabilities);
  entry 0, the greedy token, is meant to stay in front.

  The bias \<open>log((want + 1) / (draft + 1)) * lr\<close>, the embedding similarity and the score
  \<open>(1 - lambda) * rel - lambda * sim\<close> are parameters, as is NumPy's \<open>argsort\<close>.
\<close>

section \<open>N-gram injection\<close>

record ngram =
  ng_on :: bool
  ng_topk :: nat
  ng_min_count :: nat
  ng_table :: "((token \<times> token) \<times> (token \<times> nat) list) list"
  ng_prev2 :: "token \<times> token"

definition ngram_candidates :: "ngram \<Rightarrow> (token \<times> nat) list \<Rightarrow> token list" where
  "ngram_candidates ng tbl =
     map fst (take (ng_topk ng) (sorted_desc snd (filter (\<lambda>(tok, cnt). ng_min_count ng \<le> cnt) tbl)))"

text \<open>Write the new tokens from the tail of the row towards the front.\<close>

definition write_tail :: "nat \<Rightarrow> 'a list \<Rightarrow> 'a list \<Rightarrow> 'a list" where
  "write_tail max_topk new row = fold (\<lambda>i r. r[max_topk - 1 - i := new ! i]) [0..<length new] row"

definition ngram_inject ::
  "'p::{linorder,minus} \<Rightarrow> ngram \<Rightarrow> nat \<Rightarrow> token list \<times> 'p list \<Rightarrow> token list \<times> 'p list" where
  "ngram_inject eps ng max_topk row =
     (if ng_on ng \<and> 0 < ng_topk ng \<and> 2 < max_topk then
        (case map_of (ng_table ng) (ng_prev2 ng) of
           None \<Rightarrow> row
         | Some tbl \<Rightarrow>
             let new_toks = filter (\<lambda>t. t \<notin> set (fst row)) (ngram_candidates ng tbl)
             in if tbl = [] \<or> new_toks = [] then row
                else let min_lp = fold min (drop 2 (snd row)) (snd row ! 1);
                         new = take (max_topk - 1) new_toks
                     in (write_tail max_topk new (fst row),
                         write_tail max_topk (map (\<lambda>_. min_lp - eps) new) (snd row)))
      else row)"

section \<open>Logit correction\<close>

definition greedy_first :: "nat list \<Rightarrow> nat list" where
  "greedy_first order = (if order ! 0 \<noteq> 0 then 0 # filter (\<lambda>i. i \<noteq> 0) order else order)"

definition permute_row :: "nat list \<Rightarrow> 'a list \<Rightarrow> 'a list" where
  "permute_row order xs = map (\<lambda>i. xs ! i) order"

text \<open>\<open>orig\<close> is the row before injection: the device copy the bias is added to.\<close>

definition logit_correct ::
  "('p::plus list \<Rightarrow> nat list) \<Rightarrow> (token \<Rightarrow> 'p) option \<Rightarrow> nat \<Rightarrow> token list \<times> 'p list
     \<Rightarrow> token list \<times> 'p list \<Rightarrow> token list \<times> 'p list" where
  "logit_correct srt corr max_topk orig row =
     (case corr of None \<Rightarrow> row
      | Some c \<Rightarrow>
          if 2 < max_topk then
            let adj = map (\<lambda>(tok, lp). lp + c tok) (zip (fst orig) (snd orig));
                order = greedy_first (srt adj)
            in (permute_row order (fst row), permute_row order (snd row))
          else row)"

section \<open>Maximal marginal relevance\<close>

text \<open>The inner scan: the first index of maximal score above the floor, else the first one left.\<close>

fun mmr_scan :: "(nat \<Rightarrow> 'p::linorder) \<Rightarrow> 'p \<Rightarrow> nat \<Rightarrow> nat list \<Rightarrow> nat" where
  "mmr_scan score best best_i [] = best_i"
| "mmr_scan score best best_i (i # is) =
     (if best < score i then mmr_scan score (score i) i is else mmr_scan score best best_i is)"

definition mmr_score ::
  "('p \<Rightarrow> 'p \<Rightarrow> 'p) \<Rightarrow> (nat \<Rightarrow> nat \<Rightarrow> 'p::linorder) \<Rightarrow> 'p list \<Rightarrow> nat list \<Rightarrow> nat \<Rightarrow> 'p" where
  "mmr_score comb sim rel sel i =
     comb (rel ! i) (fold max (map (sim i) (List.tl sel)) (sim i (hd sel)))"

fun mmr_select ::
  "('p \<Rightarrow> 'p \<Rightarrow> 'p) \<Rightarrow> 'p \<Rightarrow> (nat \<Rightarrow> nat \<Rightarrow> 'p::linorder) \<Rightarrow> 'p list \<Rightarrow> nat \<Rightarrow> nat list \<Rightarrow> nat list \<Rightarrow> nat list" where
  "mmr_select comb flr sim rel 0 sel rem = sel"
| "mmr_select comb flr sim rel (Suc n) sel rem =
     (let i = mmr_scan (mmr_score comb sim rel sel) flr (rem ! 0) rem
      in mmr_select comb flr sim rel n (sel @ [i]) (remove1 i rem))"

record 'p mmr =
  mmr_on :: bool
  mmr_comb :: "'p \<Rightarrow> 'p \<Rightarrow> 'p"
  mmr_floor :: 'p
  mmr_sim :: "token \<Rightarrow> token \<Rightarrow> 'p"

definition mmr_rerank ::
  "'p::linorder mmr \<Rightarrow> nat \<Rightarrow> token list \<Rightarrow> token list \<times> 'p list \<Rightarrow> token list \<times> 'p list" where
  "mmr_rerank m max_topk orig row =
     (if mmr_on m \<and> 2 < max_topk then
        let order = mmr_select (mmr_comb m) (mmr_floor m)
              (\<lambda>i j. mmr_sim m (orig ! i) (orig ! j)) (snd row) (max_topk - 1) [0] [1..<max_topk]
        in (permute_row order (fst row), permute_row order (snd row))
      else row)"

text \<open>The three steps in program order.\<close>

record 'p rerank =
  rr_eps :: 'p
  rr_ngram :: ngram
  rr_corr :: "(token \<Rightarrow> 'p) option"
  rr_mmr :: "'p mmr"

definition rerank_slot0 ::
  "('p::{linorder,plus,minus} list \<Rightarrow> nat list) \<Rightarrow> 'p rerank \<Rightarrow> nat \<Rightarrow> token list \<times> 'p list
     \<Rightarrow> token list \<times> 'p list" where
  "rerank_slot0 srt rr max_topk row =
     mmr_rerank (rr_mmr rr) max_topk (fst row)
       (logit_correct srt (rr_corr rr) max_topk row
          (ngram_inject (rr_eps rr) (rr_ngram rr) max_topk row))"

section \<open>The greedy token stays in front\<close>

text \<open>An order the row may be permuted by.\<close>

definition fixes_head :: "nat \<Rightarrow> nat list \<Rightarrow> bool" where
  "fixes_head n order \<longleftrightarrow> distinct order \<and> set order = {..<n} \<and> order \<noteq> [] \<and> order ! 0 = 0"

lemma fixes_head_length: "fixes_head n order \<Longrightarrow> length order = n"
  using distinct_card[of order] by (simp add: fixes_head_def)

lemma permute_row_facts:
  assumes "fixes_head (length xs) order"
  shows "length (permute_row order xs) = length xs" "permute_row order xs ! 0 = xs ! 0"
    "set (permute_row order xs) = set xs" "distinct xs \<Longrightarrow> distinct (permute_row order xs)"
proof -
  have o: "distinct order" "set order = {..<length xs}" "order \<noteq> []" "order ! 0 = 0"
    using assms by (auto simp: fixes_head_def)
  show "length (permute_row order xs) = length xs"
    using fixes_head_length[OF assms] by (simp add: permute_row_def)
  show "permute_row order xs ! 0 = xs ! 0" using o by (simp add: permute_row_def)
  show "set (permute_row order xs) = set xs"
    unfolding permute_row_def set_map o(2) by (auto simp: set_conv_nth)
  show "distinct (permute_row order xs)" if "distinct xs"
    using o that by (auto simp: permute_row_def distinct_map inj_on_def nth_eq_iff_index_eq)
qed

lemma greedy_first_fixes_head:
  assumes "distinct order" "set order = {..<n}" "0 < n"
  shows "fixes_head n (greedy_first order)"
proof -
  have ne: "order \<noteq> []" using assms(2,3) by (metis empty_iff lessThan_iff list.set(1))
  have "insert 0 ({..<n} - {0}) = {..<n}" using assms(3) by auto
  then have "set (0 # filter (\<lambda>i. i \<noteq> 0) order) = {..<n}"
    unfolding set_simps set_filter assms(2) by (simp add: set_diff_eq)
  then show ?thesis using assms ne by (simp add: fixes_head_def greedy_first_def)
qed

lemma mmr_scan_mem: "mmr_scan score best best_i is \<in> insert best_i (set is)"
  by (induction score best best_i "is" rule: mmr_scan.induct) auto

lemma mmr_select_fixes_head:
  assumes "distinct (sel @ rem)" "length rem = n" "sel \<noteq> []"
  shows "distinct (mmr_select comb flr sim rel n sel rem)
    \<and> set (mmr_select comb flr sim rel n sel rem) = set sel \<union> set rem
    \<and> mmr_select comb flr sim rel n sel rem \<noteq> []
    \<and> mmr_select comb flr sim rel n sel rem ! 0 = sel ! 0"
  using assms
proof (induction n arbitrary: sel rem)
  case (Suc n)
  let ?i = "mmr_scan (mmr_score comb sim rel sel) flr (rem ! 0) rem"
  have "rem \<noteq> []" using Suc.prems by auto
  then have "rem ! 0 \<in> set rem" by simp
  then have i: "?i \<in> set rem" using mmr_scan_mem[of "mmr_score comb sim rel sel" flr "rem ! 0" rem] by auto
  have "distinct ((sel @ [?i]) @ remove1 ?i rem)" "length (remove1 ?i rem) = n"
    using Suc.prems i by (auto simp: length_remove1)
  from Suc.IH[OF this] show ?case using Suc.prems i by (auto simp: Let_def nth_append)
qed simp

lemma write_tail_facts:
  assumes "length row = m" "length new < m"
  shows "length (write_tail m new row) = m"
    and "\<And>i. i < m - length new \<Longrightarrow> write_tail m new row ! i = row ! i"
    and "\<And>i. i < length new \<Longrightarrow> write_tail m new row ! (m - 1 - i) = new ! i"
proof -
  have gen: "length (fold (\<lambda>i r. r[m - 1 - i := new ! i]) [0..<k] row) = m
     \<and> (\<forall>j<m. fold (\<lambda>i r. r[m - 1 - i := new ! i]) [0..<k] row ! j =
          (if m - k \<le> j then new ! (m - 1 - j) else row ! j))" if "k \<le> length new" for k
    using that
  proof (induction k)
    case (Suc k)
    then show ?case using assms by (auto simp: nth_list_update)
  qed (use assms in auto)
  note g = gen[of "length new"]
  show "length (write_tail m new row) = m" using g by (simp add: write_tail_def)
  show "write_tail m new row ! i = row ! i" if "i < m - length new" for i
    using g that by (simp add: write_tail_def)
  show "write_tail m new row ! (m - 1 - i) = new ! i" if "i < length new" for i
  proof -
    have "m - 1 - i < m" "m - length new \<le> m - 1 - i" "m - 1 - (m - 1 - i) = i"
      using that assms(2) by auto
    then show ?thesis using g unfolding write_tail_def by auto
  qed
qed

definition ngram_ok :: "ngram \<Rightarrow> bool" where
  "ngram_ok ng \<longleftrightarrow> list_all (\<lambda>(ctx, tbl). distinct (map fst tbl)) (ng_table ng)"

lemma ngram_candidates_distinct:
  assumes "distinct (map fst tbl)" shows "distinct (ngram_candidates ng tbl)"
proof -
  let ?f = "filter (\<lambda>(tok, cnt). ng_min_count ng \<le> cnt) tbl"
  have "distinct tbl" "inj_on fst (set tbl)" using assms by (auto simp: distinct_map)
  then have "distinct (sorted_desc snd ?f)" "inj_on fst (set (sorted_desc snd ?f))"
    by (auto intro!: distinct_sorted_desc inj_on_subset[OF \<open>inj_on fst (set tbl)\<close>])
  then have "distinct (map fst (sorted_desc snd ?f))" by (simp add: distinct_map)
  then show ?thesis by (simp add: ngram_candidates_def take_map[symmetric])
qed

text \<open>What a re-ranking step guarantees about the row it rewrites.\<close>

definition rerank_ok :: "nat \<Rightarrow> token list \<times> 'p list \<Rightarrow> token list \<times> 'p list \<Rightarrow> bool" where
  "rerank_ok m row row' \<longleftrightarrow>
     length (fst row') = m \<and> length (snd row') = m
     \<and> fst row' ! 0 = fst row ! 0 \<and> snd row' ! 0 = snd row ! 0
     \<and> (distinct (fst row) \<longrightarrow> distinct (fst row'))"

lemma rerank_ok_refl: "length (fst row) = m \<Longrightarrow> length (snd row) = m \<Longrightarrow> rerank_ok m row row"
  by (simp add: rerank_ok_def)

lemma rerank_ok_len: "rerank_ok m row row' \<Longrightarrow> length (fst row') = m" "rerank_ok m row row' \<Longrightarrow> length (snd row') = m"
  by (simp_all add: rerank_ok_def)

lemma rerank_ok_trans: "rerank_ok m a b \<Longrightarrow> rerank_ok m b c \<Longrightarrow> rerank_ok m a c"
  by (auto simp: rerank_ok_def)

lemma permute_rerank_ok:
  assumes "fixes_head m order" "length (fst row) = m" "length (snd row) = m"
  shows "rerank_ok m row (permute_row order (fst row), permute_row order (snd row))"
  using permute_row_facts[of "fst row" order] permute_row_facts[of "snd row" order] assms
  by (simp add: rerank_ok_def)

lemma write_tail_distinct:
  assumes "length row = m" "length new < m" "distinct row" "distinct new" "set new \<inter> set row = {}"
  shows "distinct (write_tail m new row)"
proof -
  note w = write_tail_facts[OF assms(1,2)]
  let ?w = "write_tail m new row" and ?k = "length new"
  have tail: "?w ! i = new ! (m - 1 - i)" if "m - ?k \<le> i" "i < m" for i
    using w(3)[of "m - 1 - i"] that by simp
  have ins: "?w ! i \<in> set row" if "i < m - ?k" for i using w(2)[OF that] that assms(1) by simp
  have out: "?w ! i \<in> set new" if "m - ?k \<le> i" "i < m" for i using tail[OF that] that by simp
  show ?thesis unfolding distinct_conv_nth w(1)
  proof (intro allI impI)
    fix i j assume ij: "i < m" "j < m" "i \<noteq> j"
    consider "i < m - ?k" "j < m - ?k" | "m - ?k \<le> i" "m - ?k \<le> j"
      | "i < m - ?k" "m - ?k \<le> j" | "m - ?k \<le> i" "j < m - ?k" by linarith
    then show "?w ! i \<noteq> ?w ! j"
    proof cases
      case 1
      then show ?thesis using w(2) ij assms(1,3) by (simp add: nth_eq_iff_index_eq)
    next
      case 2
      have "m - 1 - i \<noteq> m - 1 - j" "m - 1 - i < ?k" "m - 1 - j < ?k" using ij 2 by auto
      then show ?thesis using tail 2 ij assms(4) by (simp add: nth_eq_iff_index_eq)
    next
      case 3
      then show ?thesis using ins[of i] out[of j] ij assms(5) by auto
    next
      case 4
      then show ?thesis using ins[of j] out[of i] ij assms(5) by auto
    qed
  qed
qed

lemma ngram_inject_ok:
  assumes "ngram_ok ng" "length (fst row) = m" "length (snd row) = m"
  shows "rerank_ok m row (ngram_inject eps ng m row)"
proof (cases "ng_on ng \<and> 0 < ng_topk ng \<and> 2 < m")
  case True
  show ?thesis
  proof (cases "map_of (ng_table ng) (ng_prev2 ng)")
    case (Some tbl)
    have "distinct (map fst tbl)"
      using map_of_SomeD[OF Some] assms(1) by (auto simp: ngram_ok_def list_all_iff)
    let ?nt = "filter (\<lambda>t. t \<notin> set (fst row)) (ngram_candidates ng tbl)"
    define new where "new = take (m - 1) ?nt"
    have d: "distinct new" using ngram_candidates_distinct[OF \<open>distinct (map fst tbl)\<close>] by (simp add: new_def)
    have l: "length new < m" using True by (auto simp: new_def)
    have disj: "set new \<inter> set (fst row) = {}" using set_take_subset[of "m - 1" ?nt] by (auto simp: new_def)
    let ?ml = "fold min (drop 2 (snd row)) (snd row ! 1)"
    have row: "rerank_ok m row (write_tail m new (fst row), write_tail m (map (\<lambda>_. ?ml - eps) new) (snd row))"
      using write_tail_facts[of "fst row" m new] write_tail_facts[of "snd row" m "map (\<lambda>_. ?ml - eps) new"]
        write_tail_distinct[of "fst row" m new] assms(2,3) l d disj by (simp add: rerank_ok_def)
    then show ?thesis using True Some rerank_ok_refl[OF assms(2,3)]
      by (simp add: ngram_inject_def Let_def new_def)
  qed (use True rerank_ok_refl[OF assms(2,3)] in \<open>simp add: ngram_inject_def\<close>)
next
  case False
  then have "ngram_inject eps ng m row = row" unfolding ngram_inject_def by (simp only: if_False)
  then show ?thesis using rerank_ok_refl[OF assms(2,3)] by simp
qed

lemma logit_correct_ok:
  assumes "desc_argsort srt" "length (fst orig) = m" "length (snd orig) = m"
    "length (fst row) = m" "length (snd row) = m"
  shows "rerank_ok m row (logit_correct srt corr m orig row)"
proof (cases corr)
  case (Some c)
  let ?adj = "map (\<lambda>(tok, lp). lp + c tok) (zip (fst orig) (snd orig))"
  have "fixes_head m (greedy_first (srt ?adj))" if "2 < m"
    using desc_argsort.distinct_srt[OF assms(1), of ?adj] desc_argsort.set_srt[OF assms(1), of ?adj]
      assms that by (intro greedy_first_fixes_head) auto
  then show ?thesis using Some assms permute_rerank_ok[of m _ row] rerank_ok_refl[of row m]
    by (simp add: logit_correct_def Let_def)
qed (use assms rerank_ok_refl[of row m] in \<open>simp add: logit_correct_def\<close>)

lemma mmr_select_order: "2 < m \<Longrightarrow> fixes_head m (mmr_select c f s r (m - 1) [0] [1..<m])"
proof -
  assume "2 < m"
  then have "insert 0 {1..<m} = {..<m}" by auto
  then show ?thesis using mmr_select_fixes_head[of "[0]" "[1..<m]" "m - 1" c f s r]
    by (simp add: fixes_head_def)
qed

lemma mmr_rerank_ok:
  assumes "length (fst row) = m" "length (snd row) = m"
  shows "rerank_ok m row (mmr_rerank p m orig row)"
  unfolding mmr_rerank_def Let_def
  by (auto simp del: One_nat_def intro!: permute_rerank_ok[OF _ assms] rerank_ok_refl[OF assms] mmr_select_order)

text \<open>
  The n-gram, logit-correction and MMR re-rankings together never move or change the greedy
  token of slot 0 or its log-probability, keep the number of alternatives, and keep the
  sibling tokens pairwise distinct, for every order NumPy gives equal keys and every
  similarity and bias.
\<close>

theorem rerank_slot0_keeps_greedy:
  assumes "desc_argsort srt" "ngram_ok (rr_ngram rr)" "length (fst row) = m" "length (snd row) = m"
  shows "rerank_ok m row (rerank_slot0 srt rr m row)"
proof -
  let ?a = "ngram_inject (rr_eps rr) (rr_ngram rr) m row"
  let ?b = "logit_correct srt (rr_corr rr) m row ?a"
  have a: "rerank_ok m row ?a" by (rule ngram_inject_ok[OF assms(2-4)])
  have b: "rerank_ok m ?a ?b"
    by (rule logit_correct_ok[OF assms(1,3,4) rerank_ok_len[OF a]])
  have "rerank_ok m ?b (mmr_rerank (rr_mmr rr) m (fst row) ?b)"
    by (rule mmr_rerank_ok[OF rerank_ok_len[OF b]])
  with a b show ?thesis unfolding rerank_slot0_def using rerank_ok_trans by blast
qed

definition witness_rerank :: "int rerank" where
  "witness_rerank = \<lparr>rr_eps = 1,
     rr_ngram = \<lparr>ng_on = True, ng_topk = 3, ng_min_count = 2,
       ng_table = [((1, 2), [(50, 4), (51, 1), (52, 2)])], ng_prev2 = (1, 2)\<rparr>,
     rr_corr = Some (\<lambda>t. t mod 7),
     rr_mmr = \<lparr>mmr_on = True, mmr_comb = (-), mmr_floor = - 100, mmr_sim = (\<lambda>a b. (a + b) mod 5)\<rparr>\<rparr>"

theorem rerank_slot0_keeps_greedy_witness:
  "rerank_ok 4 ([10, 20, 30, 40], [- 1, - 2, - 3, - 4])
     (rerank_slot0 py_argsort_desc witness_rerank 4 ([10, 20, 30, 40], [- 1, - 2, - 3, - 4]))"
proof -
  have "ngram_ok (rr_ngram witness_rerank)" by code_simp
  from rerank_slot0_keeps_greedy[OF pysort.desc_argsort_axioms this, of "([10, 20, 30, 40], [- 1, - 2, - 3, - 4])" 4]
  show ?thesis by simp
qed

end
