(* ===== verification/Draft_Build.thy ===== *)
theory Draft_Build
  imports Draft_Beam Draft_Rerank Tree_Buffers
begin

text \<open>
  The complete tree builder \<open>_build_tree_from_block1\<close>: block 1, the breadth-first loop over
  further blocks, pruning and buffer construction, with its errors, and the invariants of the
  tree it builds.

  \<open>e_fwd\<close> is the draft network: from its state (hidden states and TTT key/value caches), the
  block number, the pending leaves and their TTT masks it gives the logits and rank logits of
  every leaf and its next state.  The captured-graph path of the source replaces the eager
  forward by the same function.  NumPy raises \<open>ValueError\<close> when a slice write exceeds a buffer
  and \<open>IndexError\<close> when a fancy index is out of range; both are values here.
\<close>

record ('p, 's) draft_env =
  e_ops :: "'p ops"
  e_srt :: "'p list \<Rightarrow> nat list"
  e_d2t :: "int list"
  e_needs :: bool
  e_rerank :: "'p rerank"
  e_fwd :: "'s \<Rightarrow> nat \<Rightarrow> 'p pending list \<Rightarrow> bool list list \<Rightarrow> ('p list list \<times> 'p list list) list \<times> 's"

record rank_info =
  ri_rank_preds :: "nat list"
  ri_M :: nat
  ri_branch :: nat
  ri_parent_block :: int

section \<open>Buffers\<close>

definition max_nodes :: "algo \<Rightarrow> nat" where
  "max_nodes a =
     (let mb = (if 0 < iter_adapt_budget a then beam_width a * 3 else beam_width a);
          mt = (if 0 < iter_adapt_budget a then total_tokens a * 4 else total_tokens a);
          max_pending_b1 = mb + cfg_K a * 10
      in mt + max_pending_b1 * cfg_K a * 10 + cfg_K a * 10 * max_blocks a + 150)"

text \<open>\<open>_ensure_tree_buffers\<close>: capacity after the call; 0 stands for no buffer yet.\<close>

definition ensure_tree_buffers :: "nat \<Rightarrow> nat \<Rightarrow> nat" where
  "ensure_tree_buffers cap needed =
     (if cap = 0 \<or> cap < needed then max needed (cap * 3 div 2 + 1) else cap)"

section \<open>Block 1\<close>

definition block1_ops ::
  "('p::linordered_ab_group_add, 's) draft_env \<Rightarrow> algo \<Rightarrow> nat \<Rightarrow> 'p list list \<Rightarrow> 'p list list \<Rightarrow> 'p leaf_out res" where
  "block1_ops env a max_topk logits rank_logits =
     (if logits = [] then Inl IndexError
      else if \<exists>row \<in> set logits. length row < max_topk then Inl RuntimeError
      else
        let rp = map argmax_first rank_logits;
            (M, bf, gu) = walk_rank_slots_batch (strict_linear a) (rank_classes a) RANK_BRANCH_FACTORS [rp] ! 0;
            lse = op_lse (e_ops env);
            toks = map argmax_first logits;
            top = map (op_topk (e_ops env) max_topk) logits
        in Inr \<lparr>rank_preds = rp, greedy_tokens = toks,
                greedy_target = map_draft_to_target (e_needs env) (e_d2t env) toks,
                greedy_lps = map (\<lambda>(row, t). row ! t - lse row) (zip logits toks),
                leaf_M = M, leaf_bf = bf, leaf_give_up = gu,
                top_target = map (map_draft_to_target (e_needs env) (e_d2t env)) top,
                top_lps = map (\<lambda>(row, idx). map (\<lambda>t. row ! t - lse row) idx) (zip logits top)\<rparr>)"

text \<open>Row 0 of the alternatives after the optional re-rankings.\<close>

definition rerank_out ::
  "('p::linordered_ab_group_add, 's) draft_env \<Rightarrow> nat \<Rightarrow> 'p leaf_out \<Rightarrow> 'p leaf_out" where
  "rerank_out env max_topk out =
     (let r = rerank_slot0 (e_srt env) (e_rerank env) max_topk (top_target out ! 0, top_lps out ! 0)
      in out\<lparr>top_target := (top_target out)[0 := fst r], top_lps := (top_lps out)[0 := snd r]\<rparr>)"

text \<open>The table lookups of the per-slot loop stay in range up to its \<open>break\<close>.\<close>

fun rank_lookup_ok :: "algo \<Rightarrow> nat list \<Rightarrow> bool" where
  "rank_lookup_ok a [] = True"
| "rank_lookup_ok a (rk # rks) =
     (rk < length (rank_slot_topk a)
      \<and> (rk = rank_classes a - 1 \<and> rank_slot_topk a ! rk = 0 \<or> rank_lookup_ok a rks))"

definition block1_topks :: "algo \<Rightarrow> nat \<Rightarrow> nat list \<Rightarrow> rat list \<Rightarrow> nat list res" where
  "block1_topks a max_topk rp pks =
     (if \<not> adaptive_budget a \<and> \<not> rank_lookup_ok a (List.tl rp) then Inl IndexError
      else let topks = slot_topks a max_topk rp pks
           in if \<exists>t \<in> set topks. 1 < t \<and> max_topk < t then Inl IndexError else Inr topks)"

section \<open>The breadth-first loop\<close>

record ('p, 's) bfs_state =
  bs_tree :: "'p node list"
  bs_pend :: "'p pending list"
  bs_masks :: "bool list list"
  bs_depth :: nat
  bs_stats :: "rank_info list"
  bs_net :: 's

definition bfs_table :: "algo \<Rightarrow> nat list" where
  "bfs_table a = (case bfs_slot_topk a of None \<Rightarrow> rank_slot_topk a | Some t \<Rightarrow> t)"

definition max_factor :: nat where
  "max_factor = 10"

text \<open>The branching of one block: give-up stops, widths, active (leaf, slot) pairs, alternatives.\<close>

definition bfs_stops :: "algo \<Rightarrow> nat \<Rightarrow> 'p leaf_out list \<Rightarrow> nat list" where
  "bfs_stops a K outs =
     map (\<lambda>out. stop_at K (rank_classes a - 1) (bfs_table a) (Rank_Walk.rank_preds out)) outs"

definition bfs_widths :: "('p, 's) draft_env \<Rightarrow> algo \<Rightarrow> 'p leaf_out list \<Rightarrow> nat list list" where
  "bfs_widths env a outs = map (bfs_slot_widths (op_exp (e_ops env)) (adaptive_all a) (bfs_table a)) outs"

definition bfs_pairs :: "('p, 's) draft_env \<Rightarrow> algo \<Rightarrow> nat \<Rightarrow> 'p leaf_out list \<Rightarrow> (nat \<times> nat) list" where
  "bfs_pairs env a K outs = active_pairs K (bfs_widths env a outs) (bfs_stops a K outs)"

definition bfs_triples :: "('p, 's) draft_env \<Rightarrow> algo \<Rightarrow> nat \<Rightarrow> 'p leaf_out list \<Rightarrow> (nat \<times> nat \<times> nat) list" where
  "bfs_triples env a K outs = bfs_alt_triples (bfs_widths env a outs) (bfs_pairs env a K outs)"

text \<open>The tree after the greedy chains and alternatives of one block, and its new pending leaves.\<close>

definition bfs_expand ::
  "('p::linordered_ab_group_add, 's) draft_env \<Rightarrow> algo \<Rightarrow> nat \<Rightarrow> nat \<Rightarrow> nat \<Rightarrow> 'p leaf_out list
     \<Rightarrow> ('p, 's) bfs_state \<Rightarrow> ('p node list \<times> 'p pending list) res" where
  "bfs_expand env a K cap iter_mb outs st =
     (let tree = bs_tree st; pend = bs_pend st; N = length pend; ts = length tree;
          tree1 = fst (vectorized_greedy_chain tree K (bs_depth st) pend outs None)
      in if cap < length tree1 then Inl ValueError
         else if \<exists>out \<in> set outs. \<exists>r \<in> set (Rank_Walk.rank_preds out). length (bfs_table a) \<le> r
         then Inl IndexError
         else if \<exists>(i, k, w) \<in> set (bfs_triples env a K outs). max_factor \<le> w then Inl IndexError
         else
           let tree2 = tree1 @ bfs_alts ts K (bs_depth st) tree1 pend outs (bfs_triples env a K outs);
               hitch = hitch_leaves K (bfs_pairs env a K outs) (bfs_stops a K outs)
           in if cap < length tree2 then Inl ValueError
              else Inr (tree2,
                if iter_mb \<le> bs_depth st + 1 then []
                else bfs_next_pending ts N K (length (bs_stats st)) tree2 outs (bfs_pairs env a K outs)
                       (bfs_triples env a K outs) hitch))"

text \<open>The draft forward of a block, cut to the slots the loop uses.\<close>

definition bfs_forward ::
  "('p, 's) draft_env \<Rightarrow> algo \<Rightarrow> nat \<Rightarrow> ('p, 's) bfs_state \<Rightarrow> ('p list list \<times> 'p list list) list \<times> 's" where
  "bfs_forward env a K st =
     (let (leaves, net) = e_fwd env (bs_net st) (bs_depth st) (bs_pend st) (bs_masks st)
      in (if K = cfg_K a then leaves else map (\<lambda>(lg, rl). (take K lg, take K rl)) leaves, net))"

definition bfs_block ::
  "('p::linordered_ab_group_add, 's) draft_env \<Rightarrow> algo \<Rightarrow> nat \<Rightarrow> nat \<Rightarrow> nat
     \<Rightarrow> ('p, 's) bfs_state \<Rightarrow> ('p, 's) bfs_state res" where
  "bfs_block env a K cap iter_mb st =
     (let (leaves, net) = bfs_forward env a K st
      in if K = 0 then Inl IndexError
         else res_bind (bfs_gpu_ops_fused (op_topk (e_ops env)) (op_lse (e_ops env)) (e_d2t env) max_factor
             (rank_classes a) RANK_BRANCH_FACTORS leaves) (\<lambda>outs.
         res_bind (bfs_expand env a K cap iter_mb outs st) (\<lambda>(tree2, next).
           let stats = map (\<lambda>(out, pd). \<lparr>ri_rank_preds = Rank_Walk.rank_preds out, ri_M = leaf_M out,
                   ri_branch = leaf_bf out, ri_parent_block = int (pd_source pd)\<rparr>) (zip outs (bs_pend st));
               beam = compute_adaptive_beam a (length tree2) K;
               keep = select_beam (op_part (e_ops env)) a (bs_depth st) beam tree2 next;
               pend' = map (\<lambda>i. next ! i) keep
           in Inr \<lparr>bs_tree = tree2, bs_pend = pend',
                   bs_masks = map (\<lambda>pd. (bs_masks st ! pd_batch pd) @ ttt_mask K pd) pend',
                   bs_depth = Suc (bs_depth st), bs_stats = bs_stats st @ stats, bs_net = net\<rparr>)))"

lemma bfs_block_depth: "bfs_block env a K cap mb st = Inr st' \<Longrightarrow> bs_depth st' = Suc (bs_depth st)"
  by (auto simp: bfs_block_def Let_def split: prod.splits if_splits)

text \<open>\<open>while len(pend) > 0: if pend_depth >= iter_max_blocks: break; ...\<close>\<close>

function bfs_loop ::
  "('p::linordered_ab_group_add, 's) draft_env \<Rightarrow> algo \<Rightarrow> nat \<Rightarrow> nat \<Rightarrow> nat
     \<Rightarrow> ('p, 's) bfs_state \<Rightarrow> ('p, 's) bfs_state res" where
  "bfs_loop env a K cap mb st =
     (if bs_pend st = [] \<or> mb \<le> bs_depth st then Inr st
      else case bfs_block env a K cap mb st of
             Inl e \<Rightarrow> Inl e
           | Inr st' \<Rightarrow> bfs_loop env a K cap mb st')"
  by pat_completeness auto
termination
  by (relation "measure (\<lambda>(env, a, K, cap, mb, st). mb - bs_depth st)") (auto dest: bfs_block_depth)

declare bfs_loop.simps [simp del]

section \<open>The builder\<close>

definition mean_prob :: "rat list \<Rightarrow> rat" where
  "mean_prob ps = sum_list ps / of_nat (length ps)"

record 'p built =
  bt_tree :: "'p node list"
  bt_buf :: tree_buf
  bt_stats :: "rank_info list"

text \<open>The state the breadth-first loop starts in, with the adapted configuration.\<close>

definition build_block1 ::
  "('p::linordered_ab_group_add, 's) draft_env \<Rightarrow> algo \<Rightarrow> 's \<Rightarrow> 'p list list \<Rightarrow> 'p list list \<Rightarrow> nat
     \<Rightarrow> (algo \<times> nat \<times> ('p, 's) bfs_state) res" where
  "build_block1 env a net logits rank_logits cap =
     (let K = linear_k0 a;
          lg = (if K < cfg_K a then take K logits else logits);
          rl = (if K < cfg_K a then take K rank_logits else rank_logits);
          max_topk = max (beam_width a) (Max (set (rank_slot_topk a)))
      in res_bind (block1_ops env a max_topk lg rl) (\<lambda>out0.
           let out = rerank_out env max_topk out0;
               pks = map (op_exp (e_ops env)) (greedy_lps out);
               p0 = pks ! 0; avg = mean_prob pks;
               a' = iter_adapt max_topk p0 avg a;
               mb = iter_max_blocks p0 avg a
           in res_bind (block1_topks a' max_topk (Rank_Walk.rank_preds out) pks) (\<lambda>topks.
                let tree = block1_tree out topks; pend = block1_pending out topks
                in if cap < length tree then Inl ValueError
                   else Inr (a', mb,
                     \<lparr>bs_tree = tree, bs_pend = pend, bs_masks = map (ttt_mask (length lg)) pend,
                      bs_depth = 1,
                      bs_stats = [\<lparr>ri_rank_preds = Rank_Walk.rank_preds out, ri_M = leaf_M out,
                                   ri_branch = leaf_bf out, ri_parent_block = - 1\<rparr>],
                      bs_net = net\<rparr>))))"

text \<open>The token budget after \<open>ITER_ADAPT_BUDGET\<close> has seen the greedy probabilities of block 1.\<close>

definition adapted_budget ::
  "('p::linordered_ab_group_add, 's) draft_env \<Rightarrow> algo \<Rightarrow> 'p list list \<Rightarrow> 'p list list \<Rightarrow> nat res" where
  "adapted_budget env a logits rank_logits =
     (let K = linear_k0 a;
          lg = (if K < cfg_K a then take K logits else logits);
          rl = (if K < cfg_K a then take K rank_logits else rank_logits);
          max_topk = max (beam_width a) (Max (set (rank_slot_topk a)))
      in res_bind (block1_ops env a max_topk lg rl) (\<lambda>out0.
           let pks = map (op_exp (e_ops env)) (greedy_lps (rerank_out env max_topk out0))
           in Inr (total_tokens (iter_adapt max_topk (pks ! 0) (mean_prob pks) a))))"

text \<open>
  The whole method; \<open>None\<close> would be a pruning loop that never ends.  The budget of the pruning
  is the adapted one.  After a normal return the source restores the caller's configuration, so
  that it is an input here; when the method raises after the adaptation the source keeps the
  adapted budget and beam width, and the next call has to be read with those as its input.
\<close>

definition build_tree ::
  "('p::linordered_ab_group_add, 's) draft_env \<Rightarrow> algo \<Rightarrow> nat \<Rightarrow> 's \<Rightarrow> 'p list list \<Rightarrow> 'p list list
     \<Rightarrow> token \<Rightarrow> 'p built res option" where
  "build_tree env a cap0 net logits rank_logits sample_token =
     (let cap = ensure_tree_buffers cap0 (max_nodes a)
      in case res_bind (build_block1 env a net logits rank_logits cap) (\<lambda>(a', mb, st).
                res_bind (if length (bfs_table a) \<le> rank_classes a - 1 then Inl IndexError
                          else bfs_loop env a' (linear_kb a) cap mb st) (\<lambda>st'. Inr (a', st'))) of
           Inl e \<Rightarrow> Some (Inl e)
         | Inr (a', st) \<Rightarrow>
             map_option (\<lambda>t. Inr \<lparr>bt_tree = t,
                 bt_buf = build_tree_buffers sample_token (map nd_token t) (tree_parents t),
                 bt_stats = bs_stats st\<rparr>)
               (prune_tree_np (e_srt env) (coverage_prune a') (total_tokens a') (bs_tree st)))"

text \<open>
  \<open>_build_tree_from_block1_dispatch\<close> for the NumPy builder: strict mode replaces the rank
  logits by an all-class-0 view (\<open>fmin\<close> is the least float) and validates the result.
\<close>

definition linear_rank_logits :: "'p::zero \<Rightarrow> 'p list list \<Rightarrow> 'p list list" where
  "linear_rank_logits fmin rank_logits = map (\<lambda>row. (replicate (length row) fmin)[0 := 0]) rank_logits"

definition build_tree_dispatch_numpy ::
  "('p::linordered_ab_group_add, 's) draft_env \<Rightarrow> algo \<Rightarrow> 'p \<Rightarrow> nat \<Rightarrow> 's \<Rightarrow> 'p list list \<Rightarrow> 'p list list
     \<Rightarrow> token \<Rightarrow> 'p built res option" where
  "build_tree_dispatch_numpy env a fmin cap0 net logits rank_logits sample_token =
     (if strict_linear a then
        map_option (\<lambda>r. res_bind r (\<lambda>b. res_bind
            (case strict_linear_nodes a of None \<Rightarrow> Inl TypeError
             | Some n \<Rightarrow> validate_strict_linear_tree n (bt_buf b)) (\<lambda>_. Inr b)))
          (build_tree env a cap0 net logits (linear_rank_logits fmin rank_logits) sample_token)
      else build_tree env a cap0 net logits rank_logits sample_token)"

section \<open>The structural invariant of a draft tree\<close>

text \<open>
  Node i sits in slot s of block b.  It is a child of the root token (block 0, slot 0), or a
  successor of slot s - 1 of the same block, or slot 0 of the block after its parent's.
\<close>

definition level_ok :: "nat \<Rightarrow> nat \<Rightarrow> 'p node list \<Rightarrow> nat \<Rightarrow> bool" where
  "level_ok K1 Kb tree i \<longleftrightarrow>
     (let nd = tree ! i; p = nd_parent nd; pn = tree ! nat p
      in nd_slot nd < (if nd_block nd = 0 then K1 else Kb)
         \<and> (p = - 1 \<and> nd_block nd = 0 \<and> nd_slot nd = 0
            \<or> 0 \<le> p \<and> p < int i
              \<and> (nd_block pn = nd_block nd \<and> Suc (nd_slot pn) = nd_slot nd
                 \<or> nd_block nd = Suc (nd_block pn) \<and> nd_slot nd = 0)))"

definition wf_draft :: "nat \<Rightarrow> nat \<Rightarrow> 'p node list \<Rightarrow> bool" where
  "wf_draft K1 Kb tree \<longleftrightarrow> list_all (level_ok K1 Kb tree) [0..<length tree]"

lemma wf_draftD: "wf_draft K1 Kb tree \<Longrightarrow> i < length tree \<Longrightarrow> level_ok K1 Kb tree i"
  by (simp add: wf_draft_def list_all_iff)

lemma wf_draft_wf_tree: "wf_draft K1 Kb tree \<Longrightarrow> wf_tree tree"
  by (rule wf_parentsI) (auto dest!: wf_draftD simp: level_ok_def Let_def)

lemma level_ok_append: "i < length tree \<Longrightarrow> level_ok K1 Kb (tree @ new) i = level_ok K1 Kb tree i"
  by (auto simp: level_ok_def Let_def nth_append)

lemma wf_draft_append:
  assumes "wf_draft K1 Kb tree" "\<And>j. j < length new \<Longrightarrow> level_ok K1 Kb (tree @ new) (length tree + j)"
  shows "wf_draft K1 Kb (tree @ new)"
  unfolding wf_draft_def list_all_iff
proof
  fix i assume i: "i \<in> set [0..<length (tree @ new)]"
  show "level_ok K1 Kb (tree @ new) i"
  proof (cases "i < length tree")
    case True
    then show ?thesis using wf_draftD[OF assms(1) True] by (simp add: level_ok_append)
  next
    case False
    then show ?thesis using assms(2)[of "i - length tree"] i by auto
  qed
qed

text \<open>The number of levels above block b.\<close>

definition block_base :: "nat \<Rightarrow> nat \<Rightarrow> nat \<Rightarrow> nat" where
  "block_base K1 Kb b = (case b of 0 \<Rightarrow> 0 | Suc n \<Rightarrow> K1 + n * Kb)"

lemma block_base_Suc: "block_base K1 Kb b + (if b = 0 then K1 else Kb) = block_base K1 Kb (Suc b)"
  by (cases b) (simp_all add: block_base_def)

lemma wf_draft_depth:
  assumes "wf_draft K1 Kb tree" "i < length tree"
  shows "node_depth (shift_parents (tree_parents tree)) (Suc i)
    \<le> block_base K1 Kb (nd_block (tree ! i)) + nd_slot (tree ! i) + 1"
  using assms(2)
proof (induction i rule: less_induct)
  case (less i)
  let ?par = "shift_parents (tree_parents tree)" and ?nd = "tree ! i"
  have st: "node_depth ?par (Suc i) = Suc (node_depth ?par (?par ! Suc i))"
    using node_depth_step[OF wf_shift_parents[OF wf_draft_wf_tree[OF assms(1)]], of "Suc i"] less.prems
    by (simp add: shift_parents_def)
  have lv: "level_ok K1 Kb tree i" by (rule wf_draftD[OF assms(1) less.prems])
  show ?case
  proof (cases "nd_parent ?nd < 0")
    case True
    then have "?par ! Suc i = 0" using less.prems by (simp add: shift_parents_def)
    then show ?thesis using st by simp
  next
    case False
    let ?p = "nat (nd_parent ?nd)"
    have p: "?p < i" "?par ! Suc i = Suc ?p"
      using lv False less.prems by (auto simp: level_ok_def Let_def shift_parents_def)
    have ih: "node_depth ?par (Suc ?p) \<le> block_base K1 Kb (nd_block (tree ! ?p)) + nd_slot (tree ! ?p) + 1"
      using less.IH[OF p(1)] p(1) less.prems by simp
    have "nd_slot (tree ! ?p) < (if nd_block (tree ! ?p) = 0 then K1 else Kb)"
      using wf_draftD[OF assms(1), of ?p] p(1) less.prems by (simp add: level_ok_def Let_def)
    then have "nd_block ?nd = Suc (nd_block (tree ! ?p)) \<Longrightarrow>
        block_base K1 Kb (nd_block (tree ! ?p)) + nd_slot (tree ! ?p) + 1 \<le> block_base K1 Kb (nd_block ?nd)"
      using block_base_Suc[of K1 Kb "nd_block (tree ! ?p)"] by simp
    then show ?thesis using st p(2) ih lv False by (auto simp: level_ok_def Let_def)
  qed
qed

section \<open>Block 1 and every further block keep the invariant\<close>

lemma alt_pairs_mem: "(k, w) \<in> set (alt_pairs topks) \<Longrightarrow> k < length topks \<and> 1 \<le> w \<and> w < topks ! k"
  by (auto simp: alt_pairs_def)

lemma length_block1_chain [simp]: "length (block1_chain out) = length (greedy_target out)"
  by (simp add: block1_chain_def)

lemma wf_block1_tree:
  assumes "length topks = length (greedy_target out)"
  shows "wf_draft (length (greedy_target out)) Kb (block1_tree out topks)"
  unfolding block1_tree_def
proof (rule wf_draft_append)
  let ?K = "length (greedy_target out)"
  show "wf_draft ?K Kb (block1_chain out)"
    by (auto simp: wf_draft_def list_all_iff level_ok_def Let_def block1_chain_def nat_diff_distrib')
  fix j assume "j < length (block1_alts out (alt_pairs topks))"
  then have j: "j < length (alt_pairs topks)" by (simp add: block1_alts_def)
  obtain k w where kw: "alt_pairs topks ! j = (k, w)" by force
  then have k: "k < ?K" using alt_pairs_mem[of k w topks] nth_mem[OF j] assms by simp
  have nd: "(block1_chain out @ block1_alts out (alt_pairs topks)) ! (?K + j) = block1_alts out (alt_pairs topks) ! j"
    by (simp add: nth_append)
  have pn: "(block1_chain out @ block1_alts out (alt_pairs topks)) ! (k - 1) = block1_chain out ! (k - 1)"
    using k by (simp add: nth_append)
  show "level_ok ?K Kb (block1_chain out @ block1_alts out (alt_pairs topks)) (length (block1_chain out) + j)"
    using k j kw nd pn
    by (auto simp: level_ok_def Let_def block1_alts_def block1_chain_def nat_diff_distrib')
qed

lemma block1_tree_block0: "nd \<in> set (block1_tree out topks) \<Longrightarrow> nd_block nd = 0"
  by (auto simp: block1_tree_def block1_chain_def block1_alts_def)

lemma pred_length_less: "xs \<noteq> [] \<Longrightarrow> length xs - Suc 0 < length xs + n"
  by (cases xs) auto

lemma block1_pending_nodes:
  assumes "pd \<in> set (block1_pending out topks)" "length topks = length (greedy_target out)"
  shows "pd_node pd < length (block1_tree out topks)"
proof -
  let ?K = "length (greedy_target out)"
  have len: "length (block1_tree out topks) = ?K + length (alt_pairs topks)"
    by (simp add: block1_tree_def block1_alts_def)
  show ?thesis
    using assms unfolding len
    by (auto simp: block1_pending_def Let_def in_set_enumerate_eq pred_length_less split: if_splits)
qed

text \<open>What the loop relies on from one block to the next.\<close>

definition pend_ok :: "nat \<Rightarrow> 'p node list \<Rightarrow> 'p pending list \<Rightarrow> bool" where
  "pend_ok d tree pend \<longleftrightarrow>
     list_all (\<lambda>pd. pd_node pd < length tree \<and> Suc (nd_block (tree ! pd_node pd)) = d) pend"

definition bfs_inv :: "nat \<Rightarrow> nat \<Rightarrow> ('p, 's) bfs_state \<Rightarrow> bool" where
  "bfs_inv K1 Kb st \<longleftrightarrow>
     wf_draft K1 Kb (bs_tree st) \<and> 1 \<le> bs_depth st \<and> pend_ok (bs_depth st) (bs_tree st) (bs_pend st)
     \<and> list_all (\<lambda>nd. nd_block nd < bs_depth st) (bs_tree st)"

lemma length_chain_nodes [simp]: "length (chain_nodes ts K d pend outs) = length pend * K"
  by (simp add: chain_nodes_def)

lemma length_bfs_alts [simp]: "length (bfs_alts ts K d buf pend outs triples) = length triples"
  by (simp add: bfs_alts_def)

lemma chain_nodes_nth:
  assumes "v < length pend * K"
  shows "nd_block (chain_nodes ts K d pend outs ! v) = d"
    "nd_slot (chain_nodes ts K d pend outs ! v) = v mod K"
    "nd_parent (chain_nodes ts K d pend outs ! v) =
      (if v mod K = 0 then int (pd_node (pend ! (v div K))) else int (ts + v) - 1)"
  using assms minus_div_mult_eq_mod[of v K]
  by (simp_all add: chain_nodes_def Let_def del: diff_is_0_eq diff_is_0_eq')

lemma div_mod_pred: "v mod K \<noteq> 0 \<Longrightarrow> (v - 1) mod K = v mod K - 1" for v K :: nat
  by (metis (no_types, lifting) Suc_pred' bot_nat_0.not_eq_extremum diff_Suc_1 mod_0 mod_Suc nat.distinct(1))

lemma wf_chain_nodes:
  assumes wf: "wf_draft K1 K tree" and pend: "pend_ok d tree pend" and d: "1 \<le> d" and K: "0 < K"
  shows "wf_draft K1 K (tree @ chain_nodes (length tree) K d pend outs)"
proof (rule wf_draft_append[OF wf])
  let ?new = "chain_nodes (length tree) K d pend outs"
  fix v assume "v < length ?new"
  then have v: "v < length pend * K" by (simp add: chain_nodes_def)
  then have i: "v div K < length pend" using K by (simp add: less_mult_imp_div_less)
  have nd: "(tree @ ?new) ! (length tree + v) = ?new ! v" by (simp add: nth_append)
  note c = chain_nodes_nth[OF v, of "length tree" d outs]
  show "level_ok K1 K (tree @ ?new) (length tree + v)"
  proof (cases "v mod K = 0")
    case True
    let ?p = "pd_node (pend ! (v div K))"
    have "?p < length tree" "Suc (nd_block (tree ! ?p)) = d"
      using pend i by (auto simp: pend_ok_def list_all_length)
    then show ?thesis using True c d K by (auto simp: level_ok_def Let_def nd nth_append)
  next
    case False
    then have v0: "0 < v" "v - 1 < length pend * K" using v by (auto intro: Nat.gr0I)
    have pi: "nat (int (length tree + v) - 1) = length tree + (v - 1)" using v0 by linarith
    then have pn: "(tree @ ?new) ! nat (int (length tree + v) - 1) = ?new ! (v - 1)"
      by (simp add: nth_append)
    note c1 = chain_nodes_nth[OF v0(2), of "length tree" d outs]
    have "nd_slot (?new ! v) < (if nd_block (?new ! v) = 0 then K1 else K)" using c d K by simp
    moreover have "nd_parent (?new ! v) = int (length tree + v) - 1" using c(3) False by simp
    moreover have "nd_block (?new ! (v - 1)) = nd_block (?new ! v)"
      "Suc (nd_slot (?new ! (v - 1))) = nd_slot (?new ! v)"
      using c c1 div_mod_pred[OF False] False by simp_all
    ultimately show ?thesis unfolding level_ok_def Let_def nd using pn v0 by simp
  qed
qed

lemma active_pairs_mem:
  "(i, k) \<in> set (active_pairs K widths stops) \<Longrightarrow>
     i < length widths \<and> k < K \<and> 1 < widths ! i ! k \<and> k < stops ! i"
  by (auto simp: active_pairs_def)

lemma bfs_alt_triples_mem:
  "(i, k, w) \<in> set (bfs_alt_triples widths pairs) \<Longrightarrow> (i, k) \<in> set pairs \<and> 1 \<le> w \<and> w < widths ! i ! k"
  by (auto simp: bfs_alt_triples_def)

lemma hitch_leaves_mem: "i \<in> set (hitch_leaves K pairs stops) \<Longrightarrow> i < length stops"
  by (simp add: hitch_leaves_def)

lemma leaf_slot_less: "i < N \<Longrightarrow> k < K \<Longrightarrow> i * K + k < N * K" for i k N K :: nat
  by (metis add_less_cancel_left less_le_trans mult_Suc_right mult_le_mono1 Suc_leI mult.commute add.commute)

lemma chain_nth_block:
  assumes "i < length pend" "k < K"
  shows "(tree @ chain_nodes (length tree) K d pend outs @ rest) ! (length tree + i * K + k)
      = chain_nodes (length tree) K d pend outs ! (i * K + k)"
    "nd_block (chain_nodes ts K d pend outs ! (i * K + k)) = d"
    "nd_slot (chain_nodes ts K d pend outs ! (i * K + k)) = k"
proof -
  have l: "i * K + k < length pend * K" by (rule leaf_slot_less[OF assms])
  show "(tree @ chain_nodes (length tree) K d pend outs @ rest) ! (length tree + i * K + k)
      = chain_nodes (length tree) K d pend outs ! (i * K + k)"
    using l by (simp add: nth_append chain_nodes_def add.assoc)
  show "nd_block (chain_nodes ts K d pend outs ! (i * K + k)) = d"
    "nd_slot (chain_nodes ts K d pend outs ! (i * K + k)) = k"
    using chain_nodes_nth(1,2)[OF l] assms by simp_all
qed

lemma wf_bfs_alts:
  assumes wf: "wf_draft K1 K (tree @ chain_nodes (length tree) K d pend outs)"
    and pend: "pend_ok d tree pend" and d: "1 \<le> d"
    and tri: "\<And>i k w. (i, k, w) \<in> set triples \<Longrightarrow> i < length pend \<and> k < K"
  shows "wf_draft K1 K ((tree @ chain_nodes (length tree) K d pend outs)
    @ bfs_alts (length tree) K d (tree @ chain_nodes (length tree) K d pend outs) pend outs triples)"
proof (rule wf_draft_append[OF wf])
  let ?ch = "chain_nodes (length tree) K d pend outs"
  let ?al = "bfs_alts (length tree) K d (tree @ ?ch) pend outs triples"
  let ?t = "(tree @ ?ch) @ ?al"
  fix j assume "j < length ?al"
  then have j: "j < length triples" by (simp add: bfs_alts_def)
  obtain i k w where t: "triples ! j = (i, k, w)" by (metis surj_pair)
  have ik: "i < length pend" "k < K" using tri[of i k w] nth_mem[OF j] t by auto
  have nd: "?t ! (length (tree @ ?ch) + j) = ?al ! j" by (simp only: nth_append_length_plus)
  have al: "nd_block (?al ! j) = d" "nd_slot (?al ! j) = k"
    "nd_parent (?al ! j) = (if 0 < k then int (length tree + i * K + k) - 1 else int (pd_node (pend ! i)))"
    using j t by (simp_all add: bfs_alts_def Let_def)
  show "level_ok K1 K ?t (length (tree @ ?ch) + j)"
  proof (cases "k = 0")
    case True
    let ?p = "pd_node (pend ! i)"
    have "?p < length tree" "Suc (nd_block (tree ! ?p)) = d"
      using pend ik by (auto simp: pend_ok_def list_all_length)
    then show ?thesis unfolding level_ok_def Let_def nd al using True ik d
      by (simp add: nth_append del: length_chain_nodes)
  next
    case False
    have k1: "k - 1 < K" using ik by simp
    have l: "i * K + k < length pend * K" by (rule leaf_slot_less[OF ik])
    have pi: "nat (int (length tree + i * K + k) - 1) = length tree + i * K + (k - 1)" using False by linarith
    have pn: "?t ! (length tree + i * K + (k - 1)) = ?ch ! (i * K + (k - 1))"
      using chain_nth_block(1)[OF ik(1) k1, of tree d outs ?al] by simp
    have lc: "length ?ch = length pend * K" by (simp add: chain_nodes_def)
    have li: "int i * int K + int k < int (length pend) * int K"
      using l by (metis of_nat_add of_nat_mult of_nat_less_iff)
    have pos: "0 < int (length tree) + int i * int K + int k"
      using False by (simp add: add_nonneg_pos)
    show ?thesis
      unfolding level_ok_def Let_def nd al using False pi pn chain_nth_block(2,3)[OF ik(1) k1] ik d li pos lc
      by simp
  qed
qed

lemma bfs_alts_block: "nd \<in> set (bfs_alts ts K d buf pend outs triples) \<Longrightarrow> nd_block nd = d"
  by (auto simp: bfs_alts_def Let_def)

lemma chain_nodes_block: "nd \<in> set (chain_nodes ts K d pend outs) \<Longrightarrow> nd_block nd = d"
  by (auto simp: chain_nodes_def Let_def)

text \<open>The nodes of one block start at \<open>ts\<close>: every new pending leaf is one of them.\<close>

lemma bfs_next_pending_nodes:
  assumes "pd \<in> set (bfs_next_pending ts N K bs tree outs pairs triples hitch)" "0 < K"
    and "\<And>i k. (i, k) \<in> set pairs \<Longrightarrow> i < N \<and> k < K" "\<And>i. i \<in> set hitch \<Longrightarrow> i < N"
  shows "ts \<le> pd_node pd \<and> pd_node pd < ts + N * K + length triples"
proof -
  consider (g) i k where "(i, k) \<in> set pairs" "pd_node pd = ts + i * K + k"
    | (alt) j where "j < length triples" "pd_node pd = ts + N * K + j"
    | (hit) i where "i \<in> set hitch" "pd_node pd = ts + i * K + (K - 1)"
    using assms(1,2) by (auto simp: bfs_next_pending_def Let_def in_set_enumerate_eq)
  then show ?thesis
  proof cases
    case g
    then show ?thesis using assms(3)[OF g(1)] leaf_slot_less[of i N k K] by auto
  next
    case alt
    then show ?thesis by simp
  next
    case hit
    then show ?thesis using assms(4)[OF hit(1)] leaf_slot_less[of i N "K - 1" K] assms(2) by auto
  qed
qed

lemma bfs_expand_inv:
  assumes inv: "bfs_inv K1 K st" and K: "0 < K" and len: "length outs = length (bs_pend st)"
    and ex: "bfs_expand env a K cap mb outs st = Inr (tree2, next)"
  shows "wf_draft K1 K tree2" "pend_ok (Suc (bs_depth st)) tree2 next"
    "list_all (\<lambda>nd. nd_block nd < Suc (bs_depth st)) tree2" "length tree2 \<le> cap"
proof -
  let ?tree = "bs_tree st" and ?pend = "bs_pend st" and ?d = "bs_depth st"
  let ?ch = "chain_nodes (length ?tree) K ?d ?pend outs"
  have I: "wf_draft K1 K ?tree" "1 \<le> ?d" "pend_ok ?d ?tree ?pend" "list_all (\<lambda>nd. nd_block nd < ?d) ?tree"
    using inv by (auto simp: bfs_inv_def)
  define widths where "widths = bfs_widths env a outs"
  define stops where "stops = bfs_stops a K outs"
  define pairs where "pairs = bfs_pairs env a K outs"
  define triples where "triples = bfs_triples env a K outs"
  have pr: "i < length ?pend \<and> k < K" if "(i, k) \<in> set pairs" for i k
    using active_pairs_mem[of i k K widths stops] that len
    by (auto simp: pairs_def widths_def stops_def bfs_pairs_def bfs_widths_def)
  have tri: "i < length ?pend \<and> k < K" if "(i, k, w) \<in> set triples" for i k w
    using bfs_alt_triples_mem[of i k w widths pairs] that pr
    unfolding triples_def bfs_triples_def widths_def pairs_def by blast
  have ht: "i < length ?pend" if "i \<in> set (hitch_leaves K pairs stops)" for i
    using hitch_leaves_mem[OF that] len by (simp add: stops_def bfs_stops_def)
  have t2: "tree2 = (?tree @ ?ch) @ bfs_alts (length ?tree) K ?d (?tree @ ?ch) ?pend outs triples"
    and cap: "length tree2 \<le> cap"
    and nx: "set next \<subseteq> set (bfs_next_pending (length ?tree) (length ?pend) K (length (bs_stats st)) tree2 outs
        pairs triples (hitch_leaves K pairs stops))"
    using ex by (auto simp: bfs_expand_def vectorized_greedy_chain_def Let_def stops_def pairs_def triples_def
        split: if_splits)
  show "wf_draft K1 K tree2"
    unfolding t2 by (rule wf_bfs_alts[OF wf_chain_nodes[OF I(1,3,2) K] I(3,2) tri])
  show "list_all (\<lambda>nd. nd_block nd < Suc ?d) tree2"
    using I(4) by (auto simp: t2 list_all_iff dest: chain_nodes_block bfs_alts_block)
  show "length tree2 \<le> cap" by (rule cap)
  have blk: "nd_block (tree2 ! v) = ?d" if "length ?tree \<le> v" "v < length tree2" for v
  proof -
    have "tree2 ! v \<in> set ?ch \<union> set (bfs_alts (length ?tree) K ?d (?tree @ ?ch) ?pend outs triples)"
      using that unfolding t2 by (auto simp: nth_append)
    then show ?thesis by (auto dest: chain_nodes_block bfs_alts_block)
  qed
  have l2: "length tree2 = length ?tree + length ?pend * K + length triples"
    by (simp add: t2 chain_nodes_def bfs_alts_def)
  show "pend_ok (Suc ?d) tree2 next"
    unfolding pend_ok_def list_all_iff
  proof
    fix pd assume "pd \<in> set next"
    then have "length ?tree \<le> pd_node pd \<and> pd_node pd < length tree2"
      unfolding l2 using nx by (intro bfs_next_pending_nodes[OF _ K pr ht]) auto
    then show "pd_node pd < length tree2 \<and> Suc (nd_block (tree2 ! pd_node pd)) = Suc ?d" using blk by simp
  qed
qed

section \<open>The loop and the builder keep the invariant\<close>

text \<open>
  What the builder relies on from code outside the repository: PyTorch's top-k, NumPy's
  partition and argsort, and the output shape of the draft network.
\<close>

definition net_shape ::
  "nat \<Rightarrow> ('s \<Rightarrow> nat \<Rightarrow> 'p pending list \<Rightarrow> bool list list \<Rightarrow> ('p list list \<times> 'p list list) list \<times> 's) \<Rightarrow> bool" where
  "net_shape K fwd \<longleftrightarrow>
     (\<forall>s d pend masks. length (fst (fwd s d pend masks)) = length pend
        \<and> (\<forall>(lg, rl) \<in> set (fst (fwd s d pend masks)). length lg = K \<and> length rl = K))"

definition env_ok :: "('p::linordered_ab_group_add, 's) draft_env \<Rightarrow> algo \<Rightarrow> bool" where
  "env_ok env a \<longleftrightarrow>
     topk_op (op_topk (e_ops env)) \<and> partition_op (op_part (e_ops env)) \<and> desc_argsort (e_srt env)
     \<and> net_shape (cfg_K a) (e_fwd env) \<and> ngram_ok (rr_ngram (e_rerank env))"

lemma compute_adaptive_beam_pos: "0 < beam_width a \<Longrightarrow> 0 < compute_adaptive_beam a n K"
  by (simp add: compute_adaptive_beam_def Let_def)

lemma fused_length: "bfs_gpu_ops_fused tk lse d2t mf rc r2f leaves = Inr outs \<Longrightarrow> length outs = length leaves"
  by (auto simp: bfs_gpu_ops_fused_def split: if_splits)

lemma pend_ok_sub: "pend_ok d tree pend \<Longrightarrow> set pend' \<subseteq> set pend \<Longrightarrow> pend_ok d tree pend'"
  by (auto simp: pend_ok_def list_all_iff)

lemma select_pending_sub:
  assumes "partition_op part" "0 < beam"
  shows "set (map (\<lambda>i. next ! i) (select_beam part a d beam tree next)) \<subseteq> set next"
    "length (map (\<lambda>i. next ! i) (select_beam part a d beam tree next)) \<le> beam"
  using select_beam_facts[OF assms, of "next" a d tree] by (auto simp: valid_keep_def)

lemma bfs_forward_length: "net_shape n (e_fwd env) \<Longrightarrow> length (fst (bfs_forward env a K st)) = length (bs_pend st)"
  by (auto simp: bfs_forward_def net_shape_def Let_def split: prod.splits) (metis fst_conv)+

lemma bfs_block_cases:
  assumes "bfs_block env a K cap mb st = Inr st'"
  obtains outs tree2 nxt where
    "bfs_gpu_ops_fused (op_topk (e_ops env)) (op_lse (e_ops env)) (e_d2t env) max_factor (rank_classes a)
       RANK_BRANCH_FACTORS (fst (bfs_forward env a K st)) = Inr outs"
    "bfs_expand env a K cap mb outs st = Inr (tree2, nxt)" "0 < K"
    "bs_tree st' = tree2" "bs_depth st' = Suc (bs_depth st)"
    "bs_pend st' = map (\<lambda>i. nxt ! i) (select_beam (op_part (e_ops env)) a (bs_depth st)
        (compute_adaptive_beam a (length tree2) K) tree2 nxt)"
  using assms by (auto simp: bfs_block_def Let_def split: prod.splits if_splits)

lemma bfs_block_inv:
  assumes "bfs_inv K1 K st" "partition_op (op_part (e_ops env))" "net_shape n (e_fwd env)" "0 < beam_width a"
    and "bfs_block env a K cap mb st = Inr st'"
  shows "bfs_inv K1 K st'"
  using assms(5)
proof (cases rule: bfs_block_cases)
  case (1 outs tree2 nxt)
  have len: "length outs = length (bs_pend st)"
    using fused_length[OF 1(1)] bfs_forward_length[OF assms(3)] by simp
  note ex = bfs_expand_inv[OF assms(1) 1(3) len 1(2)]
  have "set (bs_pend st') \<subseteq> set nxt"
    unfolding 1(6) by (rule select_pending_sub(1)[OF assms(2) compute_adaptive_beam_pos[OF assms(4)]])
  then show ?thesis using ex pend_ok_sub[OF ex(2)] 1(4,5) by (simp add: bfs_inv_def)
qed

lemma bfs_loop_inv:
  assumes "bfs_loop env a K cap mb st = Inr st'" "bfs_inv K1 K st"
    and "partition_op (op_part (e_ops env))" "net_shape n (e_fwd env)" "0 < beam_width a"
  shows "bfs_inv K1 K st' \<and> bs_depth st' \<le> max mb (bs_depth st)"
  using assms
proof (induction env a K cap mb st rule: bfs_loop.induct)
  case (1 env a K cap mb st)
  show ?case
  proof (cases "bs_pend st = [] \<or> mb \<le> bs_depth st")
    case True
    then have "bfs_loop env a K cap mb st = Inr st" by (subst bfs_loop.simps) (simp only: if_True)
    then show ?thesis using 1(2,3) by simp
  next
    case False
    then obtain st1 where st1: "bfs_block env a K cap mb st = Inr st1"
      using 1(2) by (subst (asm) bfs_loop.simps) (auto split: sum.splits)
    then have eq: "bfs_loop env a K cap mb st = bfs_loop env a K cap mb st1"
      using False by (subst bfs_loop.simps) simp
    have inv: "bfs_inv K1 K st1" by (rule bfs_block_inv[OF 1(3,4,5,6) st1])
    have "bfs_inv K1 K st' \<and> bs_depth st' \<le> max mb (bs_depth st1)"
      using 1(1)[OF False st1] 1(2) eq inv 1(4-6) by simp
    then show ?thesis using bfs_block_depth[OF st1] False by auto
  qed
qed

lemma length_map_draft_to_target [simp]: "length (map_draft_to_target n d ids) = length ids"
  by (simp add: map_draft_to_target_def)

lemma block1_ops_shape:
  assumes "block1_ops env a m lg rl = Inr out" "length rl = length lg"
  shows "length (greedy_target out) = length lg" "length (Rank_Walk.rank_preds out) = length lg"
    "length (greedy_lps out) = length lg" "lg \<noteq> []" "length (top_target out) = length lg"
    "length (top_lps out) = length lg"
  using assms by (auto simp: block1_ops_def Let_def split: if_splits prod.splits)

lemma rerank_out_simps [simp]:
  "greedy_target (rerank_out env m out) = greedy_target out"
  "Rank_Walk.rank_preds (rerank_out env m out) = Rank_Walk.rank_preds out"
  "greedy_lps (rerank_out env m out) = greedy_lps out"
  by (simp_all add: rerank_out_def Let_def)

lemma length_slot_topks: "length rp = length pks \<Longrightarrow> length (slot_topks a m rp pks) = length pks"
  by (simp add: slot_topks_def)

lemma block1_topks_Inr:
  assumes "block1_topks a m rp pks = Inr topks" "length rp = length pks"
  shows "length topks = length pks" "t \<in> set topks \<Longrightarrow> 1 < t \<Longrightarrow> t \<le> m"
    "topks = slot_topks a m rp pks"
  using assms length_slot_topks[OF assms(2)] by (auto simp: block1_topks_def Let_def split: if_splits)

lemma iter_max_blocks_le: "iter_max_blocks p q a \<le> max_blocks a"
  by (auto simp: iter_max_blocks_def)

lemma iter_adapt_beam_pos: "0 < beam_width a \<Longrightarrow> beam_width a \<le> m \<Longrightarrow> 0 < beam_width (iter_adapt m p q a)"
  by (auto simp: iter_adapt_def Let_def split: prod.splits)

lemma linear_k0_le: "linear_k0 a \<le> cfg_K a"
  by (simp add: linear_k0_def split: option.splits)

text \<open>What block 1 hands to the loop.\<close>

lemma build_block1_cases:
  assumes "build_block1 env a net logits rank_logits cap = Inr (a', mb, st)"
    and "length logits = cfg_K a" "length rank_logits = cfg_K a"
  obtains out topks m where
    "m = max (beam_width a) (Max (set (rank_slot_topk a)))"
    "length (greedy_target out) = linear_k0 a" "length topks = linear_k0 a" "0 < linear_k0 a"
    "length (Rank_Walk.rank_preds out) = linear_k0 a" "length (greedy_lps out) = linear_k0 a"
    "a' = iter_adapt m (map (op_exp (e_ops env)) (greedy_lps out) ! 0)
        (mean_prob (map (op_exp (e_ops env)) (greedy_lps out))) a"
    "topks = slot_topks a' m (Rank_Walk.rank_preds out) (map (op_exp (e_ops env)) (greedy_lps out))"
    "\<And>t. t \<in> set topks \<Longrightarrow> 1 < t \<Longrightarrow> t \<le> m"
    "mb \<le> max_blocks a" "bs_tree st = block1_tree out topks" "bs_pend st = block1_pending out topks"
    "bs_depth st = 1" "length (bs_tree st) \<le> cap"
proof -
  let ?m = "max (beam_width a) (Max (set (rank_slot_topk a)))"
  define lg where "lg = (if linear_k0 a < cfg_K a then take (linear_k0 a) logits else logits)"
  define rl where "rl = (if linear_k0 a < cfg_K a then take (linear_k0 a) rank_logits else rank_logits)"
  have len: "length lg = linear_k0 a" "length rl = length lg"
    using assms(2,3) linear_k0_le[of a] by (auto simp: lg_def rl_def)
  obtain out0 where o: "block1_ops env a ?m lg rl = Inr out0"
    using assms(1) by (auto simp: build_block1_def Let_def lg_def rl_def)
  let ?out = "rerank_out env ?m out0"
  let ?pks = "map (op_exp (e_ops env)) (greedy_lps ?out)"
  let ?a = "iter_adapt ?m (?pks ! 0) (mean_prob ?pks) a"
  obtain topks where t: "block1_topks ?a ?m (Rank_Walk.rank_preds ?out) ?pks = Inr topks"
    and st: "a' = ?a" "mb = iter_max_blocks (?pks ! 0) (mean_prob ?pks) a"
      "bs_tree st = block1_tree ?out topks" "bs_pend st = block1_pending ?out topks" "bs_depth st = 1"
      "length (bs_tree st) \<le> cap"
    using assms(1) o
    by (auto simp: build_block1_def Let_def lg_def[symmetric] rl_def[symmetric] split: if_splits)
  note sh = block1_ops_shape[OF o len(2)]
  have lr: "length (Rank_Walk.rank_preds ?out) = length ?pks" using sh by simp
  note tk = block1_topks_Inr[OF t lr]
  have k: "length (greedy_target ?out) = linear_k0 a" "length topks = linear_k0 a"
    "length (Rank_Walk.rank_preds ?out) = linear_k0 a" "length (greedy_lps ?out) = linear_k0 a"
    using sh tk(1) len(1) by simp_all
  have pos: "0 < linear_k0 a" using sh(4) len(1) by (metis length_greater_0_conv)
  have mb: "mb \<le> max_blocks a" unfolding st(2) by (rule iter_max_blocks_le)
  show ?thesis
    by (rule that[OF refl k(1,2) pos k(3,4) st(1)[symmetric, THEN sym] tk(3)[folded st(1)] tk(2) mb st(3-6)])
qed

lemma build_block1_inv:
  assumes "build_block1 env a net logits rank_logits cap = Inr (a', mb, st)"
    and "length logits = cfg_K a" "length rank_logits = cfg_K a" "0 < beam_width a"
  shows "bfs_inv (linear_k0 a) Kb st \<and> bs_depth st = 1 \<and> 0 < beam_width a' \<and> mb \<le> max_blocks a"
  using assms(1-3)
proof (cases rule: build_block1_cases)
  case (1 out topks m)
  have "wf_draft (linear_k0 a) Kb (bs_tree st)" using wf_block1_tree[of topks out Kb] 1 by simp
  moreover have "pend_ok 1 (bs_tree st) (bs_pend st)"
    unfolding pend_ok_def list_all_iff 1(11,12)
    using block1_pending_nodes[of _ out topks] 1(2,3) block1_tree_block0[of _ out topks] by simp
  moreover have "list_all (\<lambda>nd. nd_block nd < 1) (bs_tree st)"
    using block1_tree_block0[of _ out topks] by (simp add: 1(11) list_all_iff)
  moreover have "0 < beam_width a'" unfolding 1(7) using assms(4) 1(1) by (intro iter_adapt_beam_pos) auto
  ultimately show ?thesis using 1(10,13) by (simp add: bfs_inv_def)
qed

text \<open>Pruning keeps the block structure.\<close>

lemma wf_draft_compact:
  assumes wf: "wf_draft K1 Kb tree" and k: "keep_inv (tree_parents tree) b ks"
  shows "wf_draft K1 Kb (compact_kept tree ks)"
  unfolding wf_draft_def list_all_iff
proof
  let ?ks = "sort ks" and ?t = "compact_kept tree ks"
  fix j assume "j \<in> set [0..<length ?t]"
  then have j: "j < length ?ks" by (simp add: compact_kept_def Let_def)
  have sub: "set ks \<subseteq> {..<length tree}" using k by (auto simp: keep_inv_def)
  then have lt: "?ks ! i < length tree" if "i < length ?ks" for i
    using nth_mem[OF that] by auto
  have nth: "?t ! i = (tree ! (?ks ! i))\<lparr>nd_parent := old_to_new ?ks (nd_parent (tree ! (?ks ! i)))\<rparr>"
    if "i < length ?ks" for i using that by (simp add: compact_kept_def Let_def)
  have lv: "level_ok K1 Kb tree (?ks ! j)" by (rule wf_draftD[OF wf lt[OF j]])
  have ki: "keep_inv (tree_parents tree) b ?ks" using k by simp
  have p: "tree_parents tree ! (?ks ! j) = nd_parent (tree ! (?ks ! j))" using lt[OF j] by simp
  from wf_draft_wf_tree[OF wf] ki sorted_sort j show "level_ok K1 Kb ?t j"
  proof (cases rule: compact_parent_cases)
    case root
    then show ?thesis using lv unfolding level_ok_def Let_def nth[OF j] p by (auto split: if_splits)
  next
    case (inner i)
    then have i: "i < length ?ks" using j by simp
    show ?thesis using lv inner unfolding level_ok_def Let_def nth[OF j] p by (simp add: nth[OF i])
  qed
qed

section \<open>Correctness of the builder\<close>

definition max_budget :: "algo \<Rightarrow> nat" where
  "max_budget a = (if iter_adapt_budget a = 0 then total_tokens a else max 30 (4 * total_tokens a))"

lemma iter_adapt_tokens:
  assumes "total_tokens a < 2 ^ 51"
  shows "total_tokens (iter_adapt m p q a) \<le> max_budget a"
proof (cases "iter_adapt_budget a = 0")
  case False
  obtain bs ws where s: "iter_scales (iter_adapt_budget a) p q = (bs, ws)" by force
  have "int_scaled (total_tokens a) bs \<le> total_tokens a * 4"
    using iter_scales_bounds(1)[of "iter_adapt_budget a" p q] s assms by (intro int_scaled_le) simp_all
  then show ?thesis using False s by (auto simp: iter_adapt_def max_budget_def Let_def max_def)
qed (simp add: iter_adapt_def max_budget_def)

lemma build_block1_budget:
  "build_block1 env a net logits rank_logits cap = Inr (a', mb, st)
    \<Longrightarrow> adapted_budget env a logits rank_logits = Inr (total_tokens a')
      \<and> (\<exists>m p q. a' = iter_adapt m p q a)"
  by (auto simp: build_block1_def adapted_budget_def Let_def split: if_splits)

lemma block_base_mono: "b \<le> c \<Longrightarrow> 1 \<le> b \<Longrightarrow> block_base K1 Kb b \<le> block_base K1 Kb c"
  by (cases b; cases c) (simp_all add: block_base_def)

lemma wf_draft_depth_bound:
  assumes "wf_draft K1 Kb tree" "list_all (\<lambda>nd. nd_block nd < d) tree" "d \<le> max n 1" "i \<le> length tree"
  shows "node_depth (shift_parents (tree_parents tree)) i \<le> K1 + (n - 1) * Kb"
proof (cases i)
  case (Suc v)
  let ?nd = "tree ! v"
  have v: "v < length tree" using Suc assms(4) by simp
  have "nd_slot ?nd < (if nd_block ?nd = 0 then K1 else Kb)"
    using wf_draftD[OF assms(1) v] by (simp add: level_ok_def Let_def)
  moreover have "Suc (nd_block ?nd) \<le> max n 1" using assms(2,3) v by (auto simp: list_all_length dest!: spec[of _ v])
  ultimately have "block_base K1 Kb (nd_block ?nd) + nd_slot ?nd + 1 \<le> block_base K1 Kb (max n 1)"
    using block_base_Suc[of K1 Kb "nd_block ?nd"] block_base_mono[of "Suc (nd_block ?nd)" "max n 1" K1 Kb] by simp
  moreover have "block_base K1 Kb (max n 1) = K1 + (n - 1) * Kb"
    by (cases n) (simp_all add: block_base_def max_def)
  ultimately show ?thesis using wf_draft_depth[OF assms(1) v] Suc by simp
qed simp

lemma prune_keeps_wf_draft:
  assumes "desc_argsort srt" "wf_draft K1 Kb tree" "list_all (\<lambda>nd. nd_block nd < d) tree"
  obtains t where "prune_tree_np srt cov budget tree = Some t" "length t \<le> budget" "wf_draft K1 Kb t"
    "list_all (\<lambda>nd. nd_block nd < d) t"
  using assms(1) wf_draft_wf_tree[OF assms(2)]
proof (cases rule: prune_tree_np_cases[where budget = budget and coverage = cov])
  case small
  then show ?thesis using that assms(2,3) by blast
next
  case (cut ks)
  have sub: "set ks \<subseteq> {..<length tree}" "length ks \<le> budget" using cut(2) by (auto simp: keep_inv_def)
  have "list_all (\<lambda>nd. nd_block nd < d) (compact_kept tree ks)"
    using assms(3) sub by (auto simp: compact_kept_def Let_def list_all_iff)
  then show ?thesis using that cut(3) wf_draft_compact[OF assms(2) cut(2)] sub(2)
    by (simp add: compact_kept_def Let_def)
qed

text \<open>The facts about a finished tree that the rest of the decoder uses.\<close>

definition built_ok :: "algo \<Rightarrow> token \<Rightarrow> 'p built \<Rightarrow> bool" where
  "built_ok a sample b \<longleftrightarrow>
     wf_draft (linear_k0 a) (linear_kb a) (bt_tree b) \<and> wf_tree (bt_tree b)
     \<and> list_all (\<lambda>i. node_depth (shift_parents (tree_parents (bt_tree b))) i \<le> strict_linear_budget a)
         [0..<Suc (length (bt_tree b))]
     \<and> bt_buf b = build_tree_buffers sample (map nd_token (bt_tree b)) (tree_parents (bt_tree b))"

lemma build_tree_facts:
  assumes env: "env_ok env a" and bw: "0 < beam_width a"
    and len: "length logits = cfg_K a" "length rank_logits = cfg_K a"
  shows "\<exists>r. build_tree env a cap0 net logits rank_logits s = Some r
    \<and> (\<forall>b. r = Inr b \<longrightarrow> built_ok a s b \<and> (\<exists>n. adapted_budget env a logits rank_logits = Inr n
          \<and> length (bt_tree b) \<le> n \<and> (total_tokens a < 2 ^ 51 \<longrightarrow> n \<le> max_budget a)))"
proof -
  let ?cap = "ensure_tree_buffers cap0 (max_nodes a)"
  define m where "m = res_bind (build_block1 env a net logits rank_logits ?cap) (\<lambda>(a', mb, st).
      res_bind (if length (bfs_table a) \<le> rank_classes a - 1 then Inl IndexError
                else bfs_loop env a' (linear_kb a) ?cap mb st) (\<lambda>st'. Inr (a', st')))"
  have E: "partition_op (op_part (e_ops env))" "net_shape (cfg_K a) (e_fwd env)" "desc_argsort (e_srt env)"
    using env by (auto simp: env_ok_def)
  show ?thesis
  proof (cases m)
    case (Inl e)
    then show ?thesis unfolding build_tree_def Let_def m_def[symmetric] by simp
  next
    case (Inr x)
    obtain a' st' where x: "x = (a', st')" by force
    obtain mb st where b1: "build_block1 env a net logits rank_logits ?cap = Inr (a', mb, st)"
      and lp: "bfs_loop env a' (linear_kb a) ?cap mb st = Inr st'"
      using Inr unfolding m_def x by (auto split: if_splits)
    note b1i = build_block1_inv[OF b1 len bw, of "linear_kb a"]
    have inv: "bfs_inv (linear_k0 a) (linear_kb a) st' \<and> bs_depth st' \<le> max mb (bs_depth st)"
      by (rule bfs_loop_inv[OF lp _ E(1,2)]) (use b1i in auto)
    have I: "wf_draft (linear_k0 a) (linear_kb a) (bs_tree st')"
      "list_all (\<lambda>nd. nd_block nd < bs_depth st') (bs_tree st')" "bs_depth st' \<le> max (max_blocks a) 1"
      using inv b1i by (auto simp: bfs_inv_def)
    have tok: "adapted_budget env a logits rank_logits = Inr (total_tokens a')"
      "total_tokens a < 2 ^ 51 \<longrightarrow> total_tokens a' \<le> max_budget a"
      using build_block1_budget[OF b1] iter_adapt_tokens by auto
    obtain t where t: "prune_tree_np (e_srt env) (coverage_prune a') (total_tokens a') (bs_tree st') = Some t"
        "length t \<le> total_tokens a'" "wf_draft (linear_k0 a) (linear_kb a) t"
        "list_all (\<lambda>nd. nd_block nd < bs_depth st') t"
      using prune_keeps_wf_draft[OF E(3) I(1,2)] by blast
    let ?b = "\<lparr>bt_tree = t, bt_buf = build_tree_buffers s (map nd_token t) (tree_parents t),
        bt_stats = bs_stats st'\<rparr>"
    have "build_tree env a cap0 net logits rank_logits s = Some (Inr ?b)"
      unfolding build_tree_def Let_def m_def[symmetric] Inr x using t(1) by simp
    moreover have "built_ok a s ?b"
      using t wf_draft_wf_tree[OF t(3)] wf_draft_depth_bound[OF t(3,4) I(3)]
      by (auto simp: built_ok_def list_all_iff strict_linear_budget_def less_Suc_eq_le simp del: upt_Suc)
    ultimately show ?thesis using t(2) tok by simp
  qed
qed

text \<open>
  C9.  With a positive beam width and one row of logits per slot, the draft-tree builder always
  terminates, and whenever it does not raise, its tree is well formed: every node's parent
  precedes it, parents and children sit in consecutive slots or consecutive blocks, no node is
  deeper than the unbranched chain over all blocks, the returned buffers are those of this tree,
  and it has at most as many nodes as the token budget adapted to the greedy probabilities of
  block 1 (which for budgets below \<open>2 ^ 51\<close> is at most four times the configured one, or 30).  This
  holds for every draft network output, every order of equal scores and every configuration of
  the policies.
\<close>

theorem build_tree_sound:
  assumes "env_ok env a" "0 < beam_width a"
    and "length logits = cfg_K a" "length rank_logits = cfg_K a"
  shows "\<exists>r. build_tree env a cap0 net logits rank_logits s = Some r
    \<and> (\<forall>b. r = Inr b \<longrightarrow> built_ok a s b \<and> (\<exists>n. adapted_budget env a logits rank_logits = Inr n
          \<and> length (bt_tree b) \<le> n \<and> (total_tokens a < 2 ^ 51 \<longrightarrow> n \<le> max_budget a)))"
  by (rule build_tree_facts[OF assms])

definition witness_env :: "(int, unit) draft_env" where
  "witness_env = \<lparr>
     e_ops = \<lparr>op_topk = sort_topk, op_part = sort_topk, op_lse = (\<lambda>row. row ! argmax_first row + 1), op_exp = (\<lambda>_. 1 / 2)\<rparr>,
     e_srt = py_argsort_desc, e_d2t = replicate 10 0, e_needs = False,
     e_rerank = \<lparr>rr_eps = 1,
       rr_ngram = \<lparr>ng_on = False, ng_topk = 0, ng_min_count = 0, ng_table = [], ng_prev2 = (- 1, - 1)\<rparr>,
       rr_corr = None,
       rr_mmr = \<lparr>mmr_on = False, mmr_comb = (-), mmr_floor = 0, mmr_sim = (\<lambda>_ _. 0)\<rparr>\<rparr>,
     e_fwd = (\<lambda>s d pend masks. (map (\<lambda>_. (replicate 2 [0, 1, 2, 3, 4, 5, 6, 7, 8, 9], replicate 2 [1, 0, 0, 0])) pend, s))\<rparr>"

definition witness_algo :: algo where
  "witness_algo = default_algo\<lparr>cfg_K := 2, max_blocks := 2, beam_width := 2, total_tokens := 6,
     rank_slot_topk := [1, 2, 2, 0]\<rparr>"

lemma witness_env_ok: "env_ok witness_env witness_algo"
  unfolding env_ok_def
  by (auto simp: witness_env_def net_shape_def witness_algo_def ngram_ok_def
      intro: sorttopk.topk_op_axioms sorttopk.topk_part.partition_op_axioms pysort.desc_argsort_axioms)

lemma witness_build:
  "case build_tree witness_env witness_algo 0 () (replicate 2 [0, 1, 2, 3, 4, 5, 6, 7, 8, 9])
      (replicate 2 [1, 0, 0, 0]) 7 of Some (Inr b) \<Rightarrow> length (bt_tree b) = 6 | _ \<Rightarrow> False"
  by code_simp

theorem build_tree_sound_witness:
  "case build_tree witness_env witness_algo 0 () (replicate 2 [0, 1, 2, 3, 4, 5, 6, 7, 8, 9])
      (replicate 2 [1, 0, 0, 0]) 7 of
    Some (Inr b) \<Rightarrow> built_ok witness_algo 7 b
      \<and> (\<exists>n. adapted_budget witness_env witness_algo (replicate 2 [0, 1, 2, 3, 4, 5, 6, 7, 8, 9])
            (replicate 2 [1, 0, 0, 0]) = Inr n \<and> length (bt_tree b) \<le> n \<and> n \<le> 6)
  | _ \<Rightarrow> False"
proof -
  have "0 < beam_width witness_algo" "total_tokens witness_algo < 2 ^ 51" "max_budget witness_algo = 6"
    "length (replicate 2 [0, 1, 2, 3, 4, 5, 6, 7, 8, 9 :: int]) = cfg_K witness_algo"
    "length (replicate 2 [1, 0, 0, 0 :: int]) = cfg_K witness_algo"
    by (simp_all add: witness_algo_def max_budget_def default_algo_def)
  then show ?thesis using build_tree_sound[OF witness_env_ok, of "replicate 2 [0, 1, 2, 3, 4, 5, 6, 7, 8, 9]"
      "replicate 2 [1, 0, 0, 0]" 0 "()" 7] witness_build
    by (auto split: option.splits sum.splits)
qed

end
