(* ===== verification/Draft_Capacity.thy ===== *)
theory Draft_Capacity
  imports Draft_Build
begin

text \<open>
  Two further facts about the tree builder: the NumPy buffers sized by \<open>max_nodes\<close> never
  overflow, and the strict linear mode builds exactly one unbranched chain that passes
  \<open>_validate_strict_linear_tree\<close>.
\<close>

section \<open>Buffer capacity\<close>

text \<open>How many nodes and leaves block 1 can produce.\<close>

definition alt_count :: "nat list \<Rightarrow> nat" where
  "alt_count topks = sum_list (map (\<lambda>t. t - 1) topks)"

lemma sum_positions: "sum_list (map (\<lambda>k. topks ! k - 1) (positions (\<lambda>t. 1 < t) topks)) = alt_count topks"
proof -
  have "alt_count topks = sum_list (map (\<lambda>k. topks ! k - 1) [0..<length topks])"
    unfolding alt_count_def by (subst map_nth[of topks, symmetric]) (simp only: map_map comp_def)
  also have "\<dots> = sum_list (map (\<lambda>k. topks ! k - 1) (filter (\<lambda>k. 1 < topks ! k) [0..<length topks]))"
    by (rule sum_list_map_filter[symmetric]) auto
  finally show ?thesis by (simp add: positions_def)
qed

lemma length_alt_pairs: "length (alt_pairs topks) = alt_count topks"
  unfolding sum_positions[symmetric] alt_pairs_def length_concat
  by (simp add: comp_def)

lemma length_block1_tree: "length (block1_tree out topks) = length (greedy_target out) + alt_count topks"
  by (simp add: block1_tree_def block1_alts_def length_alt_pairs)

lemma length_block1_pending:
  assumes "length topks = length (greedy_target out)"
  shows "length (block1_pending out topks) \<le> length (greedy_target out) + alt_count topks"
proof -
  let ?K = "length (greedy_target out)" and ?act = "positions (\<lambda>t. 1 < t) topks"
  have a: "length ?act \<le> ?K" using length_positions_le[of _ topks] assms by simp
  have lt: "Suc (length ?act) \<le> ?K" if "greedy_target out \<noteq> []" "?K - 1 \<notin> set ?act"
  proof -
    have "0 < ?K" using that(1) by simp
    have "set ?act \<subseteq> {..<?K} - {?K - 1}" using that assms by auto
    then have "card (set ?act) \<le> card ({..<?K} - {?K - 1})" by (intro card_mono) auto
    then show ?thesis using distinct_card[of ?act] \<open>0 < ?K\<close>
      by (simp del: length_greater_0_conv set_positions)
  qed
  show ?thesis
    using a lt by (auto simp: block1_pending_def Let_def length_alt_pairs image_Un image_image)
qed

lemma alt_count_bound:
  assumes "\<And>t. t \<in> set ts \<Longrightarrow> t \<le> 10"
  shows "alt_count (t # ts) \<le> (t - 1) + 9 * length ts"
proof -
  have "sum_list (map (\<lambda>t. t - 1) ts) \<le> 9 * length ts"
    using assms by (induction ts) fastforce+
  then show ?thesis by (simp add: alt_count_def)
qed

lemma slot_topks_rest_le:
  assumes "\<And>t. t \<in> set (rank_slot_topk a) \<Longrightarrow> t \<le> 10" "rank_lookup_ok a rks"
  shows "t \<in> set (slot_topks_rest a rks pks) \<Longrightarrow> t \<le> 10"
  using assms(2)
proof (induction rks arbitrary: pks)
  case (Cons rk rks)
  let ?b = "rank_slot_topk a ! rk"
  have b: "?b \<le> 10" using assms(1) Cons.prems(2) by simp
  have ad: "adaptive_slot_topk m p ?b \<le> 10" for m p using b by (auto simp: adaptive_slot_topk_def)
  show ?case
  proof (cases "rk = rank_classes a - 1 \<and> ?b = 0")
    case True
    then show ?thesis using Cons.prems ad by (auto simp: Let_def split: if_splits)
  next
    case False
    then have "rank_lookup_ok a rks" using Cons.prems(2) by auto
    then show ?thesis using Cons False ad b by (auto simp: Let_def split: if_splits)
  qed
qed simp

text \<open>One block adds at most ten nodes for every pending leaf and slot.\<close>

lemma length_active_pairs: "length (active_pairs K widths stops) \<le> length widths * K"
  unfolding active_pairs_def
proof (rule order_trans[OF concat_map_length_le[where b = K]])
  show "length (map (\<lambda>k. (i, k)) (filter (\<lambda>k. 1 < widths ! i ! k \<and> k < stops ! i) [0..<K])) \<le> K" for i
    using length_filter_le[of _ "[0..<K]"] by simp
qed simp

lemma length_bfs_alt_triples:
  assumes "\<And>i k w. (i, k, w) \<in> set (bfs_alt_triples widths pairs) \<Longrightarrow> w < 10"
  shows "length (bfs_alt_triples widths pairs) \<le> length pairs * 9"
  using assms unfolding bfs_alt_triples_def
proof (intro concat_map_length_le, clarify)
  fix i k assume p: "(i, k) \<in> set pairs"
  have "widths ! i ! k \<le> 10"
  proof (rule ccontr)
    assume "\<not> widths ! i ! k \<le> 10"
    then have "(i, k, 10) \<in> set (bfs_alt_triples widths pairs)"
      using p by (auto simp: bfs_alt_triples_def intro!: bexI[of _ "(i, k)"])
    then show False using assms[of i k 10] by simp
  qed
  then show "length (map (\<lambda>w. (i, k, w)) [1..<widths ! i ! k]) \<le> 9" by simp
qed

lemma bfs_expand_size:
  assumes ex: "bfs_expand env a K cap mb outs st = r" and len: "length outs = length (bs_pend st)"
    and fits: "length (bs_tree st) + length (bs_pend st) * K * 10 \<le> cap"
  shows "r \<noteq> Inl ValueError"
    and "\<And>t n. r = Inr (t, n) \<Longrightarrow> length t \<le> length (bs_tree st) + length (bs_pend st) * K * 10"
proof -
  define triples where "triples = bfs_triples env a K outs"
  let ?n = "length (bs_tree st)" and ?N = "length (bs_pend st)"
  have p: "length (bfs_pairs env a K outs) \<le> ?N * K"
    using length_active_pairs[of K "bfs_widths env a outs" "bfs_stops a K outs"] len
    by (simp add: bfs_pairs_def bfs_widths_def)
  have t: "length triples \<le> ?N * K * 9" if "\<not> (\<exists>(i, k, w) \<in> set triples. max_factor \<le> w)"
  proof -
    have "length triples \<le> length (bfs_pairs env a K outs) * 9"
      unfolding triples_def bfs_triples_def
      by (rule length_bfs_alt_triples) (use that in \<open>force simp: triples_def bfs_triples_def max_factor_def\<close>)
    then show ?thesis using p by simp
  qed
  have l1: "\<not> cap < ?n + ?N * K" using fits by simp
  have l2: "\<not> cap < ?n + ?N * K + length triples" "?n + ?N * K + length triples \<le> ?n + ?N * K * 10"
    if "\<not> (\<exists>(i, k, w) \<in> set triples. max_factor \<le> w)"
    using t[OF that] fits by linarith+
  show "r \<noteq> Inl ValueError"
    using ex[symmetric] l1 l2(1)
    by (simp add: bfs_expand_def vectorized_greedy_chain_def Let_def add.assoc flip: triples_def)
  show "length t \<le> ?n + ?N * K * 10" if "r = Inr (t, n)" for t n
    using ex that l1 l2
    by (auto simp: bfs_expand_def vectorized_greedy_chain_def Let_def add.assoc split: if_splits
        simp flip: triples_def)
qed

text \<open>
  The bound on the number of nodes at block d: \<open>B\<close> bounds the nodes and the leaves of block 1,
  later blocks are limited by the adaptive beam.
\<close>

definition size_inv :: "nat \<Rightarrow> nat \<Rightarrow> nat \<Rightarrow> algo \<Rightarrow> ('p, 's) bfs_state \<Rightarrow> bool" where
  "size_inv B C K a st \<longleftrightarrow>
     (if bs_depth st = 1 then length (bs_tree st) \<le> B \<and> length (bs_pend st) \<le> B
      else length (bs_tree st) \<le> C + 10 * K * (bs_depth st - 2)
        \<and> length (bs_pend st) \<le> compute_adaptive_beam a (length (bs_tree st)) K)"

lemma size_step:
  assumes "size_inv B C K a st" "1 \<le> bs_depth st" "0 < K"
    and "B + B * K * 10 \<le> C" "total_tokens a + beam_width a * K * 10 \<le> C"
  shows "length (bs_tree st) + length (bs_pend st) * K * 10 \<le> C + 10 * K * (bs_depth st - 1)"
proof (cases "bs_depth st = 1")
  case True
  then have l: "length (bs_tree st) \<le> B" "length (bs_pend st) \<le> B" using assms(1) by (auto simp: size_inv_def)
  then have "length (bs_pend st) * K * 10 \<le> B * K * 10" by simp
  then show ?thesis using l(1) assms(4) by linarith
next
  case False
  let ?n = "length (bs_tree st)" and ?N = "length (bs_pend st)" and ?d = "bs_depth st"
  have l: "?n \<le> C + 10 * K * (?d - 2)" "?N \<le> compute_adaptive_beam a ?n K"
    using assms(1) False by (auto simp: size_inv_def)
  have d: "?d - 1 = Suc (?d - 2)" using False assms(2) by simp
  show ?thesis
  proof (cases "?n < total_tokens a")
    case True
    have "?N \<le> beam_width a" using l(2) by (simp add: compute_adaptive_beam_def Let_def)
    then have "?N * K * 10 \<le> beam_width a * K * 10" by simp
    then show ?thesis using True assms(5) by linarith
  next
    case nT: False
    then have "(int (total_tokens a) - int ?n) div int K \<le> 0"
      using assms(3) by (simp add: div_nonpos_pos_le0)
    then have "?N \<le> 1" using l(2) by (auto simp: compute_adaptive_beam_def Let_def max_def split: if_splits)
    then have "?N * K * 10 \<le> 10 * K" by (cases ?N) auto
    moreover have "10 * K * (?d - 1) = 10 * K * (?d - 2) + 10 * K" unfolding d by simp
    ultimately show ?thesis using l(1) by linarith
  qed
qed

lemma bfs_block_size:
  assumes inv: "size_inv B C K a st" "1 \<le> bs_depth st" "bs_depth st < mb"
    and lim: "B + B * K * 10 \<le> C" "total_tokens a + beam_width a * K * 10 \<le> C" "C + 10 * K * (mb - 2) \<le> cap"
    and env: "partition_op (op_part (e_ops env))" "net_shape n (e_fwd env)" "0 < beam_width a"
  shows "bfs_block env a K cap mb st \<noteq> Inl ValueError"
    and "bfs_block env a K cap mb st = Inr st' \<Longrightarrow> size_inv B C K a st'"
proof -
  let ?fused = "bfs_gpu_ops_fused (op_topk (e_ops env)) (op_lse (e_ops env)) (e_d2t env) max_factor
      (rank_classes a) RANK_BRANCH_FACTORS (fst (bfs_forward env a K st))"
  have fits: "length (bs_tree st) + length (bs_pend st) * K * 10 \<le> cap" if "0 < K"
  proof -
    have "10 * K * (bs_depth st - 1) \<le> 10 * K * (mb - 2)" using inv(2,3) by (intro mult_le_mono) auto
    then show ?thesis using size_step[OF inv(1,2) that lim(1,2)] lim(3) by linarith
  qed
  have len: "length outs = length (bs_pend st)" if "?fused = Inr outs" for outs
    using fused_length[OF that] bfs_forward_length[OF env(2)] by simp
  have nf: "?fused \<noteq> Inl ValueError" by (auto simp: bfs_gpu_ops_fused_def)
  show "bfs_block env a K cap mb st \<noteq> Inl ValueError"
  proof (cases "K = 0")
    case False
    have "bfs_expand env a K cap mb outs st \<noteq> Inl ValueError" if "?fused = Inr outs" for outs
      by (rule bfs_expand_size(1)[OF refl len[OF that]]) (use fits False in simp)
    then show ?thesis using False nf
      by (cases "bfs_forward env a K st")
        (auto simp: bfs_block_def Let_def res_bind_def split: sum.splits)
  qed (simp add: bfs_block_def split: prod.splits)
  show "size_inv B C K a st'" if ok: "bfs_block env a K cap mb st = Inr st'"
    using ok
  proof (cases rule: bfs_block_cases)
    case (1 outs tree2 nxt)
    have "length tree2 \<le> length (bs_tree st) + length (bs_pend st) * K * 10"
      by (rule bfs_expand_size(2)[OF refl len[OF 1(1)] fits[OF 1(3)] 1(2)])
    also have "\<dots> \<le> C + 10 * K * (bs_depth st - 1)" by (rule size_step[OF inv(1,2) 1(3) lim(1,2)])
    finally have t: "length tree2 \<le> C + 10 * K * (bs_depth st - 1)" .
    have "length (bs_pend st') \<le> compute_adaptive_beam a (length tree2) K"
      unfolding 1(6) by (rule select_pending_sub(2)[OF env(1) compute_adaptive_beam_pos[OF env(3)]])
    then show ?thesis using t 1(4,5) inv(2) by (simp add: size_inv_def)
  qed
qed

lemma bfs_loop_size:
  assumes "size_inv B C K a st" "1 \<le> bs_depth st"
    and "B + B * K * 10 \<le> C" "total_tokens a + beam_width a * K * 10 \<le> C" "C + 10 * K * (mb - 2) \<le> cap"
    and "partition_op (op_part (e_ops env))" "net_shape n (e_fwd env)" "0 < beam_width a"
  shows "bfs_loop env a K cap mb st \<noteq> Inl ValueError"
  using assms
proof (induction env a K cap mb st rule: bfs_loop.induct)
  case (1 env a K cap mb st)
  show ?case
  proof (cases "bs_pend st = [] \<or> mb \<le> bs_depth st")
    case True
    then show ?thesis by (subst bfs_loop.simps) (simp only: if_True sum.distinct simp_thms)
  next
    case False
    then have lt: "bs_depth st < mb" by simp
    note b = bfs_block_size[OF 1(2,3) lt 1(4-9)]
    have eq: "bfs_loop env a K cap mb st = (case bfs_block env a K cap mb st of
        Inl e \<Rightarrow> Inl e | Inr st' \<Rightarrow> bfs_loop env a K cap mb st')"
      using False by (subst bfs_loop.simps) (simp only: if_False)
    show ?thesis
    proof (cases "bfs_block env a K cap mb st")
      case (Inr st1)
      have "bfs_loop env a K cap mb st1 \<noteq> Inl ValueError"
        by (rule 1(1)[OF False Inr b(2)[OF Inr] _ 1(4-9)]) (simp add: bfs_block_depth[OF Inr])
      then show ?thesis unfolding eq Inr by simp
    qed (use b(1) eq in auto)
  qed
qed

lemma iter_adapt_beam_le:
  assumes "0 < beam_width a" "beam_width a < 2 ^ 51"
  shows "beam_width (iter_adapt m p q a) \<le> (if iter_adapt_budget a = 0 then beam_width a else beam_width a * 3)"
proof (cases "iter_adapt_budget a = 0")
  case False
  obtain bs ws where s: "iter_scales (iter_adapt_budget a) p q = (bs, ws)" by force
  have "int_scaled (beam_width a) ws \<le> beam_width a * 3"
    using iter_scales_bounds(2)[of "iter_adapt_budget a" p q] s assms(2) by (intro int_scaled_le) simp_all
  then show ?thesis using False s assms(1) by (auto simp: iter_adapt_def Let_def min_def max_def)
qed (simp add: iter_adapt_def)

lemma iter_adapt_simps [simp]:
  "adaptive_budget (iter_adapt m p q a) = adaptive_budget a"
  "rank_slot_topk (iter_adapt m p q a) = rank_slot_topk a"
  by (simp_all add: iter_adapt_def Let_def split: prod.splits)

text \<open>The configurations the capacity formula is meant for.\<close>

definition capacity_cfg :: "algo \<Rightarrow> bool" where
  "capacity_cfg a \<longleftrightarrow> 1 \<le> max_blocks a \<and> 0 < beam_width a \<and> beam_width a \<le> total_tokens a + 150 \<and> \<not> adaptive_budget a
     \<and> total_tokens a < 2 ^ 51 \<and> beam_width a < 2 ^ 51 \<and> rank_slot_topk a \<noteq> [] \<and> list_all (\<lambda>t. t \<le> 10) (rank_slot_topk a)"

lemma block1_alt_bound:
  assumes cfg: "capacity_cfg a" and m: "m = max (beam_width a) (Max (set (rank_slot_topk a)))"
    and tk: "block1_topks (iter_adapt m p q a) m rp pks = Inr topks" and len: "length rp = length pks" "rp \<noteq> []"
  shows "length rp + alt_count topks \<le> beam_width a + 10 * length rp"
proof -
  let ?a = "iter_adapt m p q a"
  have nb: "\<not> adaptive_budget ?a" and tb: "\<And>t. t \<in> set (rank_slot_topk ?a) \<Longrightarrow> t \<le> 10"
    using cfg by (auto simp: capacity_cfg_def list_all_iff)
  obtain r rs where rp: "rp = r # rs" using len(2) by (cases rp) auto
  have lk: "rank_lookup_ok ?a rs" using tk nb rp by (auto simp: block1_topks_def split: if_splits)
  note t = block1_topks_Inr[OF tk len(1)]
  obtain w where topks: "topks = w # slot_topks_rest ?a rs (List.tl pks)"
    using t(3) nb by (simp add: slot_topks_def slot_topks_by_rank_def rp)
  have "Max (set (rank_slot_topk a)) \<le> 10"
    using cfg by (intro Max.boundedI) (auto simp: capacity_cfg_def list_all_iff)
  then have "w - 1 \<le> max (beam_width a) 10 - 1" using t(2)[of w] topks m by (cases "1 < w") auto
  moreover have "alt_count topks \<le> (w - 1) + 9 * length rs"
    using alt_count_bound[of "slot_topks_rest ?a rs (List.tl pks)" w] slot_topks_rest_le[OF tb lk]
    by (simp add: topks)
  ultimately show ?thesis by (simp add: rp)
qed

lemma build_block1_size:
  assumes cfg: "capacity_cfg a" and len: "length logits = cfg_K a" "length rank_logits = cfg_K a"
    and cap: "beam_width a + 10 * cfg_K a \<le> cap"
  shows "build_block1 env a net logits rank_logits cap \<noteq> Inl ValueError"
    and "build_block1 env a net logits rank_logits cap = Inr (a', mb, st) \<Longrightarrow>
      size_inv (beam_width a + 10 * cfg_K a) C K b st"
proof -
  let ?m = "max (beam_width a) (Max (set (rank_slot_topk a)))"
  define lg where "lg = (if linear_k0 a < cfg_K a then take (linear_k0 a) logits else logits)"
  define rl where "rl = (if linear_k0 a < cfg_K a then take (linear_k0 a) rank_logits else rank_logits)"
  have ll: "length rl = length lg" "length lg \<le> cfg_K a" using len by (auto simp: lg_def rl_def)
  let ?out = "\<lambda>o0. rerank_out env ?m o0"
  let ?pks = "\<lambda>o0. map (op_exp (e_ops env)) (greedy_lps (?out o0))"
  have sz: "length (block1_tree (?out o0) topks) \<le> beam_width a + 10 * cfg_K a"
    "length (block1_pending (?out o0) topks) \<le> beam_width a + 10 * cfg_K a"
    if o: "block1_ops env a ?m lg rl = Inr o0"
      and tk: "block1_topks (iter_adapt ?m (?pks o0 ! 0) (mean_prob (?pks o0)) a) ?m
        (Rank_Walk.rank_preds (?out o0)) (?pks o0) = Inr topks" for o0 topks
  proof -
    note sh = block1_ops_shape[OF o ll(1)]
    have lr: "length (Rank_Walk.rank_preds (?out o0)) = length (?pks o0)" "Rank_Walk.rank_preds (?out o0) \<noteq> []"
      using sh(2,3,4) by (simp, metis length_0_conv rerank_out_simps(2))
    have "length lg + alt_count topks \<le> beam_width a + 10 * length lg"
      using block1_alt_bound[OF cfg refl tk lr] sh by simp
    then have "length lg + alt_count topks \<le> beam_width a + 10 * cfg_K a" using ll(2) by linarith
    moreover have "length topks = length (greedy_target (?out o0))"
      using block1_topks_Inr(1)[OF tk lr(1)] sh by simp
    ultimately show "length (block1_tree (?out o0) topks) \<le> beam_width a + 10 * cfg_K a"
      "length (block1_pending (?out o0) topks) \<le> beam_width a + 10 * cfg_K a"
      using length_block1_pending[of topks "?out o0"] sh by (simp_all add: length_block1_tree)
  qed
  have ops: "block1_ops env a ?m lg rl \<noteq> Inl ValueError"
    by (auto simp: block1_ops_def Let_def split: prod.splits)
  have tks: "block1_topks x ?m rp pks \<noteq> Inl ValueError" for x rp pks
    by (auto simp: block1_topks_def Let_def)
  note D = build_block1_def Let_def lg_def[symmetric] rl_def[symmetric]
  show "build_block1 env a net logits rank_logits cap \<noteq> Inl ValueError"
  proof (cases "block1_ops env a ?m lg rl")
    case (Inl e)
    then show ?thesis using ops unfolding D by simp
  next
    case (Inr o0)
    show ?thesis
    proof (cases "block1_topks (iter_adapt ?m (?pks o0 ! 0) (mean_prob (?pks o0)) a) ?m
        (Rank_Walk.rank_preds (?out o0)) (?pks o0)")
      case err: (Inl e)
      then have "e \<noteq> ValueError" using tks by fastforce
      then show ?thesis unfolding D Inr res_bind_simps err by simp
    next
      case topks: (Inr topks)
      have "\<not> cap < length (block1_tree (?out o0) topks)" using sz(1)[OF Inr topks] cap by linarith
      then show ?thesis unfolding D Inr res_bind_simps topks by simp
    qed
  qed
  show "size_inv (beam_width a + 10 * cfg_K a) C K b st"
    if "build_block1 env a net logits rank_logits cap = Inr (a', mb, st)"
    using that sz unfolding D by (auto simp: size_inv_def split: if_splits)
qed

lemma max_nodes_bound:
  assumes cfg: "capacity_cfg a" and K: "K \<le> cfg_K a" "0 < cfg_K a"
    and tt: "total_tokens b \<le> max_budget a"
    and bw: "beam_width b \<le> (if iter_adapt_budget a = 0 then beam_width a else beam_width a * 3)"
    and B: "B = beam_width a + 10 * cfg_K a"
  shows "B \<le> max_nodes a"
    "max (B + B * K * 10) (total_tokens b + beam_width b * K * 10) + 10 * K * (max_blocks a - 2) \<le> max_nodes a"
proof -
  define mb where "mb = (if 0 < iter_adapt_budget a then beam_width a * 3 else beam_width a)"
  define mt where "mt = (if 0 < iter_adapt_budget a then total_tokens a * 4 else total_tokens a)"
  have mn: "max_nodes a = mt + (mb + cfg_K a * 10) * cfg_K a * 10 + cfg_K a * 10 * max_blocks a + 150"
    by (simp add: max_nodes_def Let_def mb_def mt_def)
  have le: "beam_width a \<le> mb" "total_tokens a \<le> mt" "beam_width b \<le> mb" "total_tokens b \<le> mt + 30"
    using tt bw by (auto simp: mb_def mt_def max_budget_def)
  have w: "beam_width a \<le> total_tokens a + 150" using cfg by (simp add: capacity_cfg_def)
  have BK: "B * K * 10 \<le> (mb + cfg_K a * 10) * cfg_K a * 10"
    using le(1) K(1) by (intro mult_le_mono) (auto simp: B)
  have bK: "beam_width b * K * 10 \<le> (mb + cfg_K a * 10) * cfg_K a * 10"
    using le(3) K(1) by (intro mult_le_mono) auto
  have "B * 1 * 10 \<le> (mb + cfg_K a * 10) * cfg_K a * 10"
    using le(1) K(2) by (intro mult_le_mono) (auto simp: B)
  then show "B \<le> max_nodes a" unfolding mn by linarith
  have blocks: "10 * K * (max_blocks a - 2) + 10 * cfg_K a \<le> cfg_K a * 10 * max_blocks a" if "1 \<le> max_blocks a"
  proof -
    have "K * 10 * (max_blocks a - 2) \<le> cfg_K a * 10 * (max_blocks a - 1)"
      using K(1) by (intro mult_le_mono) auto
    moreover have "cfg_K a * 10 * max_blocks a = cfg_K a * 10 * (max_blocks a - 1) + cfg_K a * 10"
      using that by (cases "max_blocks a") auto
    ultimately show ?thesis by simp
  qed
  show "max (B + B * K * 10) (total_tokens b + beam_width b * K * 10) + 10 * K * (max_blocks a - 2) \<le> max_nodes a"
    unfolding mn using blocks BK bK le w B cfg by (simp add: capacity_cfg_def)
qed

text \<open>
  C14.  The NumPy tree buffers never overflow.  For every configuration without
  \<open>ADAPTIVE_BUDGET\<close> (whose redistributed widths the capacity formula does not count) with at least
  one block, branching tables of widths up to ten as shipped, a positive beam width of at most
  \<open>total_tokens + 150\<close>, and both below \<open>2 ^ 51\<close>, and every iteration-level adaptation of budget and
  beam (\<open>ITER_ADAPT_BUDGET\<close>): no slice write of the builder exceeds the capacity that \<open>max_nodes\<close>
  reserves, so the builder never raises \<open>ValueError\<close>.
\<close>

theorem build_tree_never_overflows:
  assumes env: "env_ok env a" and cfg: "capacity_cfg a"
    and len: "length logits = cfg_K a" "length rank_logits = cfg_K a"
  shows "build_tree env a cap0 net logits rank_logits s \<noteq> Some (Inl ValueError)"
proof -
  let ?cap = "ensure_tree_buffers cap0 (max_nodes a)" and ?B = "beam_width a + 10 * cfg_K a"
  have cap: "max_nodes a \<le> ?cap" by (auto simp: ensure_tree_buffers_def)
  have bw: "0 < beam_width a" using cfg by (simp add: capacity_cfg_def)
  have E: "partition_op (op_part (e_ops env))" "net_shape (cfg_K a) (e_fwd env)" using env by (auto simp: env_ok_def)
  have Kb: "linear_kb a \<le> cfg_K a" using linear_k0_le[of a] by (auto simp: linear_kb_def split: option.splits)
  show ?thesis
  proof (cases "cfg_K a = 0")
    case True
    then have "build_block1 env a net logits rank_logits ?cap = Inl IndexError"
      using len by (simp add: build_block1_def Let_def block1_ops_def)
    then show ?thesis by (simp add: build_tree_def Let_def)
  next
    case False
    have "total_tokens a \<le> max_budget a"
      "beam_width a \<le> (if iter_adapt_budget a = 0 then beam_width a else beam_width a * 3)"
      by (auto simp: max_budget_def)
    from max_nodes_bound(1)[OF cfg, of 0 a ?B, OF _ _ this refl] False cap
    have B: "?B \<le> ?cap" by simp
    note b1 = build_block1_size[OF cfg len B]
    show ?thesis
    proof (cases "build_block1 env a net logits rank_logits ?cap")
      case (Inl e)
      then show ?thesis using b1(1)[of env net] by (simp add: build_tree_def Let_def)
    next
      case (Inr x)
      obtain a' mb st where x: "x = (a', mb, st)" by (cases x) auto
      note blk = Inr[unfolded x]
      let ?C = "max (?B + ?B * linear_kb a * 10) (total_tokens a' + beam_width a' * linear_kb a * 10)"
      have ad: "total_tokens a' \<le> max_budget a"
        "beam_width a' \<le> (if iter_adapt_budget a = 0 then beam_width a else beam_width a * 3)"
        using build_block1_budget[OF blk] iter_adapt_tokens iter_adapt_beam_le[OF bw] cfg by (auto simp: capacity_cfg_def)
      have i: "bs_depth st = 1" "0 < beam_width a'" "mb \<le> max_blocks a"
        using build_block1_inv[OF blk len bw] by auto
      have "10 * linear_kb a * (mb - 2) \<le> 10 * linear_kb a * (max_blocks a - 2)"
        using i(3) by (intro mult_le_mono) auto
      then have "?C + 10 * linear_kb a * (mb - 2) \<le> ?cap"
        using max_nodes_bound(2)[OF cfg Kb _ ad refl] False cap by linarith
      then have "bfs_loop env a' (linear_kb a) ?cap mb st \<noteq> Inl ValueError"
        by (intro bfs_loop_size[OF b1(2)[OF blk] _ _ _ _ E]) (use i in auto)
      then show ?thesis unfolding build_tree_def Let_def blk res_bind_simps prod.case
        by (cases "bfs_loop env a' (linear_kb a) ?cap mb st") (auto simp: res_bind_def)
    qed
  qed
qed

theorem build_tree_never_overflows_witness:
  "build_tree witness_env witness_algo 0 () (replicate 2 [0, 1, 2, 3, 4, 5, 6, 7, 8, 9])
      (replicate 2 [1, 0, 0, 0]) 7 \<noteq> Some (Inl ValueError)"
proof (rule build_tree_never_overflows[OF witness_env_ok])
  show "capacity_cfg witness_algo" by (simp add: capacity_cfg_def witness_algo_def default_algo_def)
qed (simp_all add: witness_algo_def)

section \<open>The strict linear mode\<close>

text \<open>The configuration \<open>__init__\<close> leaves behind in strict mode.\<close>

definition strict_cfg :: "algo \<Rightarrow> bool" where
  "strict_cfg a \<longleftrightarrow> strict_linear a \<and> beam_width a = 1 \<and> rank_slot_topk a = replicate (rank_classes a) 1
     \<and> bfs_slot_topk a = None \<and> \<not> adaptive_budget a \<and> adaptive_slot0 a = 0 \<and> adaptive_all a = 0
     \<and> iter_adapt_budget a = 0 \<and> cond_max_blocks a = 0 \<and> slot0_beam a = 0
     \<and> total_tokens a = strict_linear_budget a \<and> strict_linear_nodes a = Some (strict_linear_budget a)"

lemma strict_linear_budget_cong:
  "cfg_K a = cfg_K b \<Longrightarrow> tree_K a = tree_K b \<Longrightarrow> tree_K_bfs a = tree_K_bfs b \<Longrightarrow> max_blocks a = max_blocks b
    \<Longrightarrow> strict_linear_budget a = strict_linear_budget b"
  by (simp add: strict_linear_budget_def linear_k0_def linear_kb_def split: option.split)

lemma init_strict_cfg:
  assumes "init_strict_linear env a0 = Inr a" "strict_linear a0"
  shows "strict_cfg a" "cfg_K a = cfg_K a0" "rank_classes a = rank_classes a0" "max_blocks a = max_blocks a0"
    "tree_K a = tree_K a0" "tree_K_bfs a = tree_K_bfs a0" "\<not> env"
proof -
  define b where "b = a0\<lparr>beam_width := 1, rank_slot_topk := replicate (rank_classes a0) 1,
     bfs_slot_topk := None, adaptive_budget := False, adaptive_slot0 := 0, adaptive_all := 0,
     iter_adapt_budget := 0, cond_max_blocks := 0, slot0_beam := 0, protect_d1 := False, strat_beam := 0,
     hidden_slot_cap := 0, diverse_beam := False, coverage_prune := False, tree_fixed_n := 0\<rparr>"
  have a: "a = b\<lparr>strict_linear_nodes := Some (strict_linear_budget b)\<rparr>" "total_tokens b = strict_linear_budget b"
    "\<not> env"
    using assms(1) unfolding init_strict_linear_def Let_def if_P[OF assms(2)] b_def[symmetric]
    by (auto split: if_splits)
  have "strict_linear_budget a = strict_linear_budget b" by (rule strict_linear_budget_cong) (simp_all add: a)
  then show "strict_cfg a" using a(2) assms(2) unfolding strict_cfg_def a(1) by (simp add: b_def)
qed (use assms in \<open>auto simp: init_strict_linear_def Let_def split: if_splits\<close>)

lemma alt_pairs_ones [simp]: "alt_pairs (replicate n (Suc 0)) = []"
  by (simp add: alt_pairs_def positions_def filter_empty_conv)

lemma positions_ones [simp]: "positions ((<) (Suc 0)) (replicate n (Suc 0)) = []"
  by (simp add: positions_def filter_empty_conv)

lemma parents_block1_chain: "tree_parents (block1_chain out) = chain_parents (length (greedy_target out))"
  by (simp add: block1_chain_def chain_parents_def comp_def)

lemma slot_topks_strict:
  assumes "strict_cfg a" "rank_lookup_ok a (List.tl rp)" "rp \<noteq> []"
  shows "slot_topks a m rp pks = replicate (length rp) 1"
proof -
  have "slot_topks_rest a rks ps = replicate (length rks) 1" if "rank_lookup_ok a rks" for rks ps
    using that assms(1) by (induction rks arbitrary: ps) (auto simp: strict_cfg_def)
  then show ?thesis using assms by (cases rp) (simp_all add: slot_topks_def slot_topks_by_rank_def slot0_width_def strict_cfg_def)
qed

text \<open>Between two blocks the tree is one chain and its end is the only pending leaf.\<close>

definition linear_inv :: "nat \<Rightarrow> nat \<Rightarrow> nat \<Rightarrow> ('p, 's) bfs_state \<Rightarrow> bool" where
  "linear_inv K1 Kb mb st \<longleftrightarrow>
     1 \<le> bs_depth st \<and> length (bs_tree st) = K1 + (bs_depth st - 1) * Kb
     \<and> tree_parents (bs_tree st) = chain_parents (length (bs_tree st))
     \<and> (bs_depth st < mb \<longrightarrow> (\<exists>pd. bs_pend st = [pd] \<and> Suc (pd_node pd) = length (bs_tree st)))"

lemma build_block1_linear:
  assumes cfg: "strict_cfg a" and b1: "build_block1 env a net logits rank_logits cap = Inr (a', mb, st)"
    and len: "length logits = cfg_K a" "length rank_logits = cfg_K a"
  shows "a' = a" "mb = max_blocks a" "linear_inv (linear_k0 a) Kb mb st"
proof -
  let ?m = "max (beam_width a) (Max (set (rank_slot_topk a)))"
  define lg where "lg = (if linear_k0 a < cfg_K a then take (linear_k0 a) logits else logits)"
  define rl where "rl = (if linear_k0 a < cfg_K a then take (linear_k0 a) rank_logits else rank_logits)"
  have ll: "length lg = linear_k0 a" "length rl = length lg"
    using len linear_k0_le[of a] by (auto simp: lg_def rl_def)
  note D = build_block1_def Let_def lg_def[symmetric] rl_def[symmetric]
  obtain o0 where o: "block1_ops env a ?m lg rl = Inr o0" using b1 by (auto simp: D)
  let ?out = "rerank_out env ?m o0"
  let ?pks = "map (op_exp (e_ops env)) (greedy_lps ?out)"
  have ia: "iter_adapt ?m p q a = a" for p q using cfg by (simp add: iter_adapt_def strict_cfg_def)
  have im: "iter_max_blocks p q a = max_blocks a" for p q using cfg by (simp add: iter_max_blocks_def strict_cfg_def)
  obtain topks where t: "block1_topks a ?m (Rank_Walk.rank_preds ?out) ?pks = Inr topks"
    and st: "a' = a" "mb = max_blocks a" "bs_tree st = block1_tree ?out topks"
      "bs_pend st = block1_pending ?out topks" "bs_depth st = 1"
    using b1 o by (auto simp: D ia im split: if_splits)
  show "a' = a" "mb = max_blocks a" by (rule st)+
  note sh = block1_ops_shape[OF o ll(2)]
  have gu: "\<not> leaf_give_up ?out"
    using o cfg by (auto simp: block1_ops_def Let_def walk_rank_slots_batch_def strict_cfg_def rerank_out_def split: if_splits)
  have lk: "rank_lookup_ok a (List.tl (Rank_Walk.rank_preds ?out))"
    using t cfg by (auto simp: block1_topks_def strict_cfg_def split: if_splits)
  have ne: "Rank_Walk.rank_preds o0 \<noteq> []" "greedy_target o0 \<noteq> []" using sh(1,2,4) by (metis length_0_conv)+
  have lr: "length (Rank_Walk.rank_preds ?out) = length ?pks" using sh by simp
  have tk: "topks = replicate (linear_k0 a) 1"
    using block1_topks_Inr(3)[OF t lr] slot_topks_strict[OF cfg lk] ne sh ll by simp
  have tree: "bs_tree st = block1_chain ?out" by (simp add: st tk block1_tree_def block1_alts_def)
  have pos: "0 < linear_k0 a" using sh(4) ll(1) by (metis length_greater_0_conv)
  have "\<exists>pd. bs_pend st = [pd] \<and> Suc (pd_node pd) = linear_k0 a"
    using gu ne pos sh ll by (simp add: st tk block1_pending_def Let_def)
  then show "linear_inv (linear_k0 a) Kb mb st"
    using tree sh ll st(5) by (simp add: linear_inv_def parents_block1_chain)
qed

lemma nat_less_1_div: "v < K \<Longrightarrow> v div K = (0::nat)"
  by simp

lemma parents_single_chain:
  assumes "tree_parents tree = chain_parents (length tree)" "Suc (pd_node pd) = length tree"
  shows "tree_parents (tree @ chain_nodes (length tree) K d [pd] outs) = chain_parents (length tree + K)"
proof -
  have "tree_parents (chain_nodes (length tree) K d [pd] outs) = map (\<lambda>v. int (length tree + v) - 1) [0..<K]"
    using assms(2) by (auto simp: chain_nodes_def Let_def)
  also have "\<dots> = map (\<lambda>i. int i - 1) [length tree..<length tree + K]"
    by (simp add: map_add_upt[symmetric] comp_def add.commute)
  finally show ?thesis using assms(1) by (simp add: chain_parents_def upt_add_eq_append[of 0, simplified])
qed

lemma bfs_block_linear:
  assumes cfg: "strict_cfg a" and rc: "0 < rank_classes a" and inv: "linear_inv K1 K mb st" and lt: "bs_depth st < mb"
    and net: "net_shape n (e_fwd env)" "K \<le> n" "n = cfg_K a" and ok: "bfs_block env a K cap mb st = Inr st'"
  shows "linear_inv K1 K mb st'"
  using ok
proof (cases rule: bfs_block_cases)
  case (1 outs tree2 nxt)
  obtain pd where pd: "bs_pend st = [pd]" "Suc (pd_node pd) = length (bs_tree st)"
    using inv lt by (auto simp: linear_inv_def)
  have len: "length outs = 1" using fused_length[OF 1(1)] bfs_forward_length[OF net(1)] pd by simp
  have tb: "bfs_table a = replicate (rank_classes a) 1" using cfg by (simp add: bfs_table_def strict_cfg_def)
  have rk: "r < rank_classes a" if "out \<in> set outs" "r \<in> set (Rank_Walk.rank_preds out)" for out r
    using 1(2) that by (auto simp: bfs_expand_def Let_def tb not_le split: if_splits)
  have stops: "bfs_stops a K outs = [K]"
    using len rc by (cases outs) (auto simp: bfs_stops_def stop_at_def tb)
  have shape: "length (Rank_Walk.rank_preds (outs ! 0)) = K \<and> length (greedy_lps (outs ! 0)) = K"
  proof -
    obtain lg rl where lv: "fst (bfs_forward env a K st) = [(lg, rl)]"
      using bfs_forward_length[OF net(1), of a K st] pd(1) by (auto simp: length_Suc_conv)
    have "length lg = K" "length rl = K"
      using lv net by (auto simp: bfs_forward_def net_shape_def split: prod.splits if_splits)
        (metis (no_types, lifting) case_prodD fst_conv list.set_intros(1) min_absorb2)+
    then show ?thesis using 1(1) by (auto simp: lv bfs_gpu_ops_fused_def bfs_gpu_ops_fused_leaf_def Let_def split: if_splits)
  qed
  have w: "bfs_widths env a outs ! 0 ! k = 1" if "k < K" for k
  proof -
    have "Rank_Walk.rank_preds (outs ! 0) ! k < rank_classes a" using rk[of "outs ! 0"] len shape that by simp
    then show ?thesis using shape that cfg len
      by (simp add: bfs_widths_def bfs_slot_widths_def bfs_adaptive_topk_def tb strict_cfg_def)
  qed
  have pairs: "bfs_pairs env a K outs = []"
    using w len by (auto simp: bfs_pairs_def active_pairs_def bfs_widths_def filter_empty_conv)
  then have tri: "bfs_triples env a K outs = []" by (simp add: bfs_triples_def bfs_alt_triples_def)
  have hitch: "hitch_leaves K (bfs_pairs env a K outs) (bfs_stops a K outs) = [0]"
    using 1(3) by (simp add: pairs stops hitch_leaves_def last_active_def)
  have t2: "tree2 = bs_tree st @ chain_nodes (length (bs_tree st)) K (bs_depth st) [pd] outs"
    and nx: "bs_depth st + 1 < mb \<Longrightarrow> \<exists>q. nxt = [q] \<and> Suc (pd_node q) = length tree2"
    using 1(2,3) pd unfolding bfs_expand_def Let_def vectorized_greedy_chain_def tri hitch pairs
    by (auto simp: bfs_alts_def bfs_next_pending_def hitch[unfolded pairs] Let_def split: if_splits)
  have beam: "0 < compute_adaptive_beam a (length tree2) K"
    using cfg by (intro compute_adaptive_beam_pos) (simp add: strict_cfg_def)
  have "\<exists>q. bs_pend st' = [q] \<and> Suc (pd_node q) = length tree2" if "bs_depth st + 1 < mb"
    using nx[OF that] beam by (auto simp: 1(6) select_beam_def Let_def)
  moreover have "length tree2 = K1 + bs_depth st * K"
    using inv by (cases "bs_depth st") (auto simp: linear_inv_def t2)
  moreover have "tree_parents tree2 = chain_parents (length tree2)"
    unfolding t2 using parents_single_chain[of "bs_tree st" pd K "bs_depth st" outs] inv pd
    by (simp add: linear_inv_def)
  ultimately show ?thesis using 1(4,5) by (simp add: linear_inv_def)
qed

lemma bfs_loop_linear:
  assumes "bfs_loop env a K cap mb st = Inr st'" "linear_inv K1 K mb st" "bs_depth st \<le> mb"
    and "strict_cfg a" "0 < rank_classes a" "net_shape (cfg_K a) (e_fwd env)" "K \<le> cfg_K a"
  shows "linear_inv K1 K mb st' \<and> bs_depth st' = mb"
  using assms
proof (induction env a K cap mb st rule: bfs_loop.induct)
  case (1 env a K cap mb st)
  show ?case
  proof (cases "mb \<le> bs_depth st")
    case True
    then have "bfs_loop env a K cap mb st = Inr st" by (subst bfs_loop.simps) simp
    then show ?thesis using 1(2,3,4) True by simp
  next
    case False
    then have lt: "bs_depth st < mb" by simp
    then have c: "\<not> (bs_pend st = [] \<or> mb \<le> bs_depth st)" using 1(3) by (auto simp: linear_inv_def)
    then obtain st1 where st1: "bfs_block env a K cap mb st = Inr st1"
      using 1(2) by (subst (asm) bfs_loop.simps) (auto split: sum.splits)
    then have eq: "bfs_loop env a K cap mb st = bfs_loop env a K cap mb st1"
      using c by (subst bfs_loop.simps) simp
    have "linear_inv K1 K mb st1" by (rule bfs_block_linear[OF 1(5,6,3) lt 1(7,8) refl st1])
    then show ?thesis
      using 1(1)[OF c st1] 1(2) 1(5-8) eq bfs_block_depth[OF st1] lt by simp
  qed
qed

text \<open>
  C15.  In strict linear mode the builder emits exactly one unbranched chain: whatever the draft
  network and the rank head predict, every tree that the configuration accepted by
  \<open>__init__\<close> builds has the full chain length, node i's parent is node i - 1, and for chains
  within the kernels' depth bound the final validation accepts it.
\<close>

theorem strict_linear_builds_chain:
  assumes ini: "init_strict_linear dyn a0 = Inr a" "strict_linear a0"
    and env: "env_ok env a" and rc: "0 < rank_classes a" and mb: "1 \<le> max_blocks a"
    and len: "length logits = cfg_K a" "length rank_logits = cfg_K a"
    and bt: "build_tree env a cap0 net logits rank_logits s = Some (Inr b)"
  shows "tree_parents (bt_tree b) = chain_parents (strict_linear_budget a)
    \<and> (strict_linear_budget a \<le> MAX_TREE_DEPTH \<longrightarrow>
         strict_linear_nodes a = Some (strict_linear_budget a)
         \<and> validate_strict_linear_tree (strict_linear_budget a) (bt_buf b) = Inr (bt_buf b))"
proof -
  let ?cap = "ensure_tree_buffers cap0 (max_nodes a)"
  have cfg: "strict_cfg a" by (rule init_strict_cfg(1)[OF ini])
  have net: "net_shape (cfg_K a) (e_fwd env)" using env by (simp add: env_ok_def)
  have Kb: "linear_kb a \<le> cfg_K a" using linear_k0_le[of a] by (auto simp: linear_kb_def split: option.splits)
  obtain a' mb' st st' t where b1: "build_block1 env a net logits rank_logits ?cap = Inr (a', mb', st)"
    and lp: "bfs_loop env a' (linear_kb a) ?cap mb' st = Inr st'"
    and pr: "prune_tree_np (e_srt env) (coverage_prune a') (total_tokens a') (bs_tree st') = Some t"
    and b: "bt_tree b = t" "bt_buf b = build_tree_buffers s (map nd_token t) (tree_parents t)"
    using bt by (auto simp: build_tree_def Let_def split: sum.splits if_splits)
  note l1 = build_block1_linear(1,2)[OF cfg b1 len] build_block1_linear(3)[OF cfg b1 len, of "linear_kb a"]
  have d1: "bs_depth st = 1" using b1 by (auto simp: build_block1_def Let_def split: if_splits)
  have "linear_inv (linear_k0 a) (linear_kb a) mb' st' \<and> bs_depth st' = mb'"
    by (rule bfs_loop_linear[OF lp[unfolded l1(1)] l1(3) _ cfg rc net Kb]) (use d1 l1(2) mb in simp)
  then have inv: "tree_parents (bs_tree st') = chain_parents (strict_linear_budget a)"
    "length (bs_tree st') = strict_linear_budget a"
    using l1(2) by (auto simp: linear_inv_def strict_linear_budget_def)
  have t: "t = bs_tree st'"
    using pr inv(2) cfg l1(1) by (simp add: prune_tree_np_def strict_cfg_def)
  show ?thesis
    using strict_linear_chain_valid_lemma[of "strict_linear_budget a" "map nd_token t" s] inv b t cfg
    by (simp add: strict_cfg_def)
qed

definition linear_algo :: algo where
  "linear_algo = witness_algo\<lparr>strict_linear := True, total_tokens := 4\<rparr>"

theorem strict_linear_builds_chain_witness:
  "\<exists>a b. init_strict_linear False linear_algo = Inr a
     \<and> build_tree witness_env a 0 () (replicate 2 [0, 1, 2, 3, 4, 5, 6, 7, 8, 9]) (replicate 2 [1, 0, 0, 0]) 7 = Some (Inr b)
     \<and> tree_parents (bt_tree b) = chain_parents 4"
proof -
  define a where "a = projr (init_strict_linear False linear_algo)"
  have i: "init_strict_linear False linear_algo = Inr a"
    unfolding a_def by code_simp
  have s: "strict_linear linear_algo" by code_simp
  note f = init_strict_cfg[OF i s]
  have e: "env_ok witness_env a" using witness_env_ok f(2) by (simp add: env_ok_def linear_algo_def)
  have c: "cfg_K a = 2" "0 < rank_classes a" "1 \<le> max_blocks a" "strict_linear_budget a = 4"
    unfolding a_def by code_simp+
  have "case build_tree witness_env a 0 () (replicate 2 [0, 1, 2, 3, 4, 5, 6, 7, 8, 9]) (replicate 2 [1, 0, 0, 0]) 7
     of Some (Inr b) \<Rightarrow> True | _ \<Rightarrow> False"
    unfolding a_def by code_simp
  then obtain b where b: "build_tree witness_env a 0 () (replicate 2 [0, 1, 2, 3, 4, 5, 6, 7, 8, 9])
      (replicate 2 [1, 0, 0, 0]) 7 = Some (Inr b)"
    by (auto split: option.splits sum.splits)
  from strict_linear_builds_chain[OF i s e c(2,3) _ _ b] c i b show ?thesis by auto
qed

end
