(* ===== verification/Batch_Generate.thy ===== *)
theory Batch_Generate
  imports Batch_Accept Target_Cache Draft_Cache Draft_Capacity
begin

text \<open>
  Greedy request-batched generation: \<open>generate_conversations\<close> of \<open>specblock_batch.py\<close> from the
  tokenised prompts to the output tokens, with its target cache, draft cache and request
  states.

  The target backbone, its output head and the draft network are not part of the repository's
  Python core; they are the fields of the record \<open>engine\<close>.  Entries of the target cache are
  represented by the token sequence they were computed from, as in the theory of tree
  verification.
\<close>

section \<open>Requests\<close>

record request =
  rq_prompt :: "token list"
  rq_budget :: nat
  rq_prefix :: nat
  rq_draft_pos :: nat
  rq_tree :: "tree_buf option"
  rq_output :: "token list"
  rq_current :: "token option"
  rq_iterations :: nat
  rq_accepts :: "nat list"
  rq_finished :: bool

text \<open>What one row of a batched draft call is given.\<close>

record 'h draft_request =
  dq_hidden :: "'h list list"
  dq_tokens :: "token list"
  dq_start :: nat
  dq_valid :: nat
  dq_root :: token
  dq_position :: nat
  dq_budget :: nat
  dq_context :: "token list"

record ('h, 'l, 'd, 'k) engine =
  en_layers :: nat
  en_prefill :: "token list list \<Rightarrow> bool list list \<Rightarrow> nat list list
     \<Rightarrow> 'h list list \<times> token list list list list \<times> 'h list list list"
  en_tree :: "token list list list list \<Rightarrow> token list list \<Rightarrow> nat list list \<Rightarrow> bool list list list
     \<Rightarrow> 'h list list \<times> token list list list list \<times> 'h list list list"
  en_head :: "'h \<Rightarrow> 'l list"
  en_topk :: "nat \<Rightarrow> 'l list \<Rightarrow> nat list"
  en_draft :: "'d \<Rightarrow> 'h draft_request list \<Rightarrow> (tree_buf list \<times> 'd) res"
  en_store :: "'k list list option list \<Rightarrow> token list list \<Rightarrow> 'k list list option list"

text \<open>The settings read from the environment and the algorithm object.\<close>

record gen_config =
  gc_eos :: "token list"
  gc_pad :: token
  gc_K :: nat
  gc_draft_layers :: nat
  gc_accept_topk :: int
  gc_shared :: bool
  gc_hidden_indices :: "int list"
  gc_budget :: "nat \<Rightarrow> nat"
  gc_adapt_hooks :: bool
  gc_draft_cuda_128 :: bool
  gc_tree_attn_3way :: bool
  gc_cache_modes :: "string list"
  gc_draft_quantize :: bool

record ('d, 'k) gen_state =
  gs_reqs :: "request list"
  gs_active :: "nat list"
  gs_cache :: "token list dense_cache"
  gs_dcache :: "'k draft_cache"
  gs_dstate :: 'd
  gs_sizes :: "nat list"

section \<open>Accepted tokens of one request\<close>

text \<open>The loop that copies proposed tokens up to and including the first end-of-sequence token.\<close>

fun take_eos :: "token list \<Rightarrow> token list \<Rightarrow> token list" where
  "take_eos eos [] = []"
| "take_eos eos (t # ts) = t # (if t \<in> set eos then [] else take_eos eos ts)"

definition step_request :: "token list \<Rightarrow> nat \<Rightarrow> request \<Rightarrow> 'h accepted \<Rightarrow> request" where
  "step_request eos max_new r a =
     (let proposed = ac_tokens a @ [ac_next a];
          remaining = max_new - length (rq_output r);
          taken = take_eos eos (take remaining proposed);
          out = rq_output r @ taken;
          fin = (max_new \<le> length out \<or> (taken \<noteq> [] \<and> last taken \<in> set eos) \<or> length taken < length proposed);
          r1 = r\<lparr>rq_output := out, rq_accepts := rq_accepts r @ [min (ac_length a) (length taken)],
                 rq_iterations := rq_iterations r + 1, rq_finished := fin\<rparr>
      in if fin then r1\<lparr>rq_tree := None, rq_current := None\<rparr>
         else r1\<lparr>rq_prefix := rq_prefix r + length (ac_path a)\<rparr>)"

section \<open>Drafting for the next round\<close>

text \<open>The inputs of one surviving request (\<open>_build_next_drafts_batched\<close>).\<close>

definition next_draft_input :: "request \<Rightarrow> 'h accepted \<Rightarrow> 'h list list \<times> token list \<times> nat \<times> nat" where
  "next_draft_input r a =
     (if ac_length a = 0 then (take 1 (rev (ac_hidden a)), [ac_next a], rq_draft_pos r, 1)
      else if ac_length a = 1 then (ac_hidden a, [ac_next a, ac_next a], rq_draft_pos r + 1, ac_length a + 1)
      else (ac_hidden a, drop 1 (ac_tokens a) @ [ac_next a, ac_next a], rq_draft_pos r + 1, ac_length a + 1))"

definition next_draft_pos :: "request \<Rightarrow> 'h accepted \<Rightarrow> nat" where
  "next_draft_pos r a = (if ac_length a = 0 then rq_draft_pos r else rq_draft_pos r + 1 + (ac_length a + 1))"

definition next_draft_request :: "request \<Rightarrow> 'h accepted \<Rightarrow> 'h draft_request" where
  "next_draft_request r a =
     (case next_draft_input r a of (hid, toks, start, valid) \<Rightarrow>
        \<lparr>dq_hidden = hid, dq_tokens = toks, dq_start = start, dq_valid = valid, dq_root = ac_next a,
         dq_position = (if ac_length a = 0 then next_draft_pos r a else next_draft_pos r a - 1),
         dq_budget = rq_budget r, dq_context = rq_prompt r @ rq_output r\<rparr>)"

definition set_drafted :: "request \<Rightarrow> 'h accepted \<Rightarrow> tree_buf \<Rightarrow> request" where
  "set_drafted r a b = r\<lparr>rq_draft_pos := next_draft_pos r a, rq_current := Some (ac_next a), rq_tree := Some b\<rparr>"

definition build_next_drafts ::
  "('h, 'l, 'd, 'k) engine \<Rightarrow> nat \<Rightarrow> (request \<times> 'h accepted) list \<Rightarrow> 'k draft_cache \<Rightarrow> 'd
     \<Rightarrow> (request list \<times> 'k draft_cache \<times> 'd) res" where
  "build_next_drafts E K pairs dc d =
     (let rollback = positions (\<lambda>(r, a). ac_length a = 0) pairs;
          inputs = map (\<lambda>(r, a). next_draft_input r a) pairs;
          starts = map (\<lambda>(_, _, s, _). s) inputs; valid = map (\<lambda>(_, _, _, v). v) inputs
      in res_bind (rollback_rows rollback K dc) (\<lambda>dc1.
         res_bind (ragged_forward K [length pairs, length pairs] starts valid dc1) (\<lambda>active.
         res_bind (draft_advance valid K (dc1\<lparr>db_layers := en_store E (db_layers dc1)
                     (take active (map (\<lambda>(_, toks, _, v). take v toks) inputs))\<rparr>)) (\<lambda>dc2.
         res_bind (en_draft E d (map (\<lambda>(r, a). next_draft_request r a) pairs)) (\<lambda>(trees, d').
           Inr (map (\<lambda>((r, a), b). set_drafted r a b) (zip pairs trees), dc2, d'))))))"

section \<open>One decoding round\<close>

definition backbone_guard :: "nat \<Rightarrow> int list \<Rightarrow> unit res" where
  "backbone_guard n_layers idxs =
     (if length idxs \<noteq> 3 then Inl ValueError
      else if \<exists>i \<in> set idxs. i - 1 < 0 \<or> int n_layers \<le> i - 1 then Inl ValueError else Inr ())"

text \<open>What the layers offer to attention before the tree is staged.\<close>

definition cache_views :: "'e dense_cache \<Rightarrow> 'e list list list" where
  "cache_views c = map (\<lambda>l. map (take (dc_tree_start c)) (take (dc_active c) (the (cl_rows l)))) (dc_layers c)"

definition verify_round ::
  "('h, 'l::linorder, 'd, 'k) engine \<Rightarrow> gen_config \<Rightarrow> (tree_buf \<times> nat) list \<Rightarrow> token list dense_cache
     \<Rightarrow> ('h accepted list \<times> token list dense_cache) res" where
  "verify_round E cfg states c =
     (case pack_trees (gc_pad cfg) states of (ids, pos, widths, w) \<Rightarrow>
        let reserve = min w (max_list (map (\<lambda>(b, _). retrieve_width b) states))
        in res_bind (prepare_tree [] (int w) (map (\<lambda>(_, plen). int plen) states) (int reserve) c) (\<lambda>c1.
           res_bind (tree_cache_position (int w) c1) (\<lambda>cp.
           res_bind (build_additive_mask states (dc_tree_start c1) w) (\<lambda>mask.
           res_bind (backbone_guard (en_layers E) (gc_hidden_indices cfg)) (\<lambda>_.
             case en_tree E (cache_views c1) ids pos mask of (hidden, kvs, sources) \<Rightarrow>
             res_bind (forward_updates [] (Some cp) (enumerate 0 kvs) c1) (\<lambda>c2.
             res_bind (project_tree_decisions (en_topk E) (gc_accept_topk cfg) (en_head E) w widths hidden) (\<lambda>(argm, tks, _).
             res_bind (accept_active_batch (nat (gc_accept_topk cfg)) (map fst states) ids argm tks sources) (\<lambda>accs.
               Inr (accs, c2)))))))))"

text \<open>The updated states are written back to their positions in the batch.\<close>

definition put_rows :: "nat list \<Rightarrow> 'a list \<Rightarrow> 'a list \<Rightarrow> 'a list" where
  "put_rows idxs new xs = fold (\<lambda>(i, r) rs. rs[i := r]) (zip idxs new) xs"

text \<open>The requests after their accepted paths are appended, and the rows that go on.\<close>

definition round_step ::
  "token list \<Rightarrow> nat \<Rightarrow> ('d, 'k) gen_state \<Rightarrow> 'h accepted list \<Rightarrow> request list" where
  "round_step eos max_new st accs =
     map (\<lambda>(r, a). step_request eos max_new r a) (zip (map (\<lambda>i. gs_reqs st ! i) (gs_active st)) accs)"

definition surviving :: "request list \<Rightarrow> nat list" where
  "surviving new = positions (\<lambda>r. \<not> rq_finished r) new"

definition decode_round ::
  "('h, 'l::linorder, 'd, 'k) engine \<Rightarrow> gen_config \<Rightarrow> nat \<Rightarrow> ('d, 'k) gen_state \<Rightarrow> ('d, 'k) gen_state res" where
  "decode_round E cfg max_new st =
     (let act = gs_active st; old = map (\<lambda>i. gs_reqs st ! i) act
      in res_bind (verify_round E cfg (map (\<lambda>r. (the (rq_tree r), rq_prefix r)) old) (gs_cache st)) (\<lambda>(accs, c2).
         let new = round_step (gc_eos cfg) max_new st accs;
             rows = surviving new;
             commits = map (\<lambda>j. (int j, int (rq_prefix (old ! j)), ac_path (accs ! j))) rows;
             reqs1 = put_rows act new (gs_reqs st);
             st1 = st\<lparr>gs_reqs := reqs1, gs_sizes := gs_sizes st @ [length act]\<rparr>
         in res_bind (commit_paths commits c2) (\<lambda>(c3, _).
              if rows = [] then Inr (st1\<lparr>gs_active := [], gs_cache := c3\<rparr>)
              else res_bind (compact_cache_rows rows c3) (\<lambda>c4.
                   res_bind (draft_compact_rows rows (gs_dcache st)) (\<lambda>dc.
                   res_bind (build_next_drafts E (gc_K cfg) (map (\<lambda>j. (new ! j, accs ! j)) rows) dc (gs_dstate st))
                     (\<lambda>(drafted, dc', d').
                       let act' = map (\<lambda>j. act ! j) rows
                       in Inr (st1\<lparr>gs_reqs := put_rows act' drafted reqs1,
                                   gs_active := act', gs_cache := c4, gs_dcache := dc', gs_dstate := d'\<rparr>)))))))"

partial_function (option) decode_loop ::
  "('h, 'l::linorder, 'd, 'k) engine \<Rightarrow> gen_config \<Rightarrow> nat \<Rightarrow> ('d, 'k) gen_state \<Rightarrow> ('d, 'k) gen_state res option" where
  "decode_loop E cfg max_new st =
     (if gs_active st = [] then Some (Inr st)
      else case decode_round E cfg max_new st of Inl e \<Rightarrow> Some (Inl e) | Inr st' \<Rightarrow> decode_loop E cfg max_new st')"

section \<open>Prefill\<close>

definition new_request :: "gen_config \<Rightarrow> nat \<Rightarrow> token list \<Rightarrow> token \<Rightarrow> request" where
  "new_request cfg max_new prompt first =
     \<lparr>rq_prompt = prompt, rq_budget = gc_budget cfg (length prompt), rq_prefix = length prompt, rq_draft_pos = 0,
      rq_tree = None, rq_output = [first], rq_current = Some first, rq_iterations = 0, rq_accepts = [],
      rq_finished = (first \<in> set (gc_eos cfg) \<or> max_new = 1)\<rparr>"

definition first_requests :: "gen_config \<Rightarrow> nat \<Rightarrow> token list list \<Rightarrow> token list \<Rightarrow> request list" where
  "first_requests cfg max_new prompts firsts = map (\<lambda>(p, t). new_request cfg max_new p t) (zip prompts firsts)"

text \<open>The prompt features of a request, the last one repeated for the position of the first token.\<close>

definition initial_hidden :: "'h list list list \<Rightarrow> nat \<Rightarrow> nat \<Rightarrow> 'h list list" where
  "initial_hidden sources row prompt_len =
     map (\<lambda>pos. map (\<lambda>src. src ! row ! min pos (prompt_len - 1)) sources) [0..<prompt_len + 1]"

definition initial_draft_request :: "'h list list \<Rightarrow> request \<Rightarrow> 'h draft_request" where
  "initial_draft_request hid r =
     \<lparr>dq_hidden = hid, dq_tokens = initial_token_row (rq_prompt r) (the (rq_current r)), dq_start = 0,
      dq_valid = length (rq_prompt r) + 1, dq_root = the (rq_current r), dq_position = length (rq_prompt r),
      dq_budget = rq_budget r, dq_context = rq_prompt r @ rq_output r\<rparr>"

definition prefill ::
  "('h, 'l::linorder, 'd, 'k) engine \<Rightarrow> gen_config \<Rightarrow> nat \<Rightarrow> 'd \<Rightarrow> token list list \<Rightarrow> ('d, 'k) gen_state res" where
  "prefill E cfg max_new d prompts =
     (let pw = max_list (map length prompts); n = length prompts;
          ids = map (pad_to pw (gc_pad cfg)) prompts;
          attn = map (\<lambda>p. pad_to pw False (replicate (length p) True)) prompts;
          pos = map (\<lambda>p. pad_to pw 0 [0..<length p]) prompts;
          mtw = max_list (map (\<lambda>p. gc_budget cfg (length p)) prompts) + 1;
          c0 = prepare_prefill (dense_init (gc_shared cfg) (en_layers E) n pw max_new mtw)
      in res_bind (backbone_guard (en_layers E) (gc_hidden_indices cfg)) (\<lambda>_.
         case en_prefill E ids attn pos of (hidden, kvs, sources) \<Rightarrow>
         res_bind (forward_updates [] (Some [0..<pw]) (enumerate 0 kvs) c0) (\<lambda>c1.
           let firsts = map (\<lambda>(p, row). int (argmax_first (en_head E (row ! (length p - 1))))) (zip prompts hidden);
               reqs = first_requests cfg max_new prompts firsts;
               entries = order_entries (\<lambda>i. length (rq_prompt (reqs ! i))) (positions (\<lambda>r. \<not> rq_finished r) reqs);
               act = map (\<lambda>i. reqs ! i) entries;
               st = \<lparr>gs_reqs = reqs, gs_active = entries, gs_cache = c1,
                     gs_dcache = draft_cache_init 0 0 0 False, gs_dstate = d, gs_sizes = []\<rparr>
           in if entries = [] then Inr st
              else res_bind (build_initial_drafts (en_store E) (gc_draft_layers cfg) (gc_K cfg) max_new (n = 1)
                     (map (\<lambda>r. (rq_prompt r, the (rq_current r))) act)) (\<lambda>ist.
                   res_bind (en_draft E d (map (\<lambda>i. initial_draft_request
                       (initial_hidden sources i (length (rq_prompt (reqs ! i)))) (reqs ! i)) entries)) (\<lambda>(trees, d').
                   res_bind (compact_cache_rows entries c1) (\<lambda>c2.
                     let drafted = map (\<lambda>(r, b). r\<lparr>rq_draft_pos := length (rq_prompt r) + 1, rq_tree := Some b\<rparr>) (zip act trees)
                     in Inr (st\<lparr>gs_reqs := put_rows entries drafted reqs,
                               gs_cache := c2, gs_dcache := is_cache ist, gs_dstate := d'\<rparr>)))))))"

section \<open>The entry point\<close>

record gen_result =
  gr_tokens :: "token list"
  gr_iterations :: nat
  gr_accepts :: "nat list"

definition request_result :: "request \<Rightarrow> gen_result" where
  "request_result r = \<lparr>gr_tokens = rq_output r, gr_iterations = rq_iterations r, gr_accepts = rq_accepts r\<rparr>"

definition empty_result :: gen_result where
  "empty_result = \<lparr>gr_tokens = [], gr_iterations = 0, gr_accepts = []\<rparr>"

definition generate_conversations ::
  "('h, 'l::linorder, 'd, 'k) engine \<Rightarrow> gen_config \<Rightarrow> 'd \<Rightarrow> token list list \<Rightarrow> int \<Rightarrow> gen_result list res option" where
  "generate_conversations E cfg d prompts max_new =
     (if gc_adapt_hooks cfg \<or> \<not> gc_draft_cuda_128 cfg \<or> \<not> gc_tree_attn_3way cfg \<or> gc_cache_modes cfg \<noteq> []
      then Some (Inl NotImplementedError)
      else if prompts = [] then Some (Inr [])
      else if max_new \<le> 0 then Some (Inr (map (\<lambda>_. empty_result) prompts))
      else if 1 < length prompts \<and> gc_draft_quantize cfg then Some (Inl NotImplementedError)
      else case prefill E cfg (nat max_new) d prompts of
             Inl e \<Rightarrow> Some (Inl e)
           | Inr st \<Rightarrow> map_option (\<lambda>r. res_bind r (\<lambda>st. Inr (map request_result (gs_reqs st))))
               (decode_loop E cfg (nat max_new) st))"

section \<open>Accepted tokens\<close>

lemma take_eos_append:
  "take_eos eos (xs @ ys) = (if set xs \<inter> set eos = {} then xs @ take_eos eos ys else take_eos eos xs)"
  by (induction xs) auto

lemma take_eos_id: "set xs \<inter> set eos = {} \<Longrightarrow> take_eos eos xs = xs"
  using take_eos_append[of eos xs "[]"] by simp

lemma take_eos_facts:
  "take_eos eos xs = [] \<longleftrightarrow> xs = []" "length (take_eos eos xs) \<le> length xs"
  "set (butlast (take_eos eos xs)) \<inter> set eos = {}"
  "xs \<noteq> [] \<Longrightarrow> last (take_eos eos xs) \<notin> set eos \<Longrightarrow> take_eos eos xs = xs \<and> set xs \<inter> set eos = {}"
  by (induction xs) auto

text \<open>An unfinished request with at least \<open>t\<close> tokens, and the shape every request keeps.\<close>

definition open_request :: "token list \<Rightarrow> nat \<Rightarrow> nat \<Rightarrow> request \<Rightarrow> bool" where
  "open_request eos max_new t r \<longleftrightarrow> t \<le> length (rq_output r) \<and> length (rq_output r) < max_new \<and> set (rq_output r) \<inter> set eos = {}"

definition request_shape :: "token list \<Rightarrow> nat \<Rightarrow> request \<Rightarrow> bool" where
  "request_shape eos max_new r \<longleftrightarrow> rq_output r \<noteq> [] \<and> length (rq_output r) \<le> max_new
     \<and> set (butlast (rq_output r)) \<inter> set eos = {} \<and> rq_iterations r = length (rq_accepts r)
     \<and> rq_iterations r < length (rq_output r)"

text \<open>What one round adds to an open request.\<close>

lemma step_request_output:
  fixes a :: "'h accepted"
  assumes "open_request eos max_new t r"
  defines "taken \<equiv> take_eos eos (take (max_new - length (rq_output r)) (ac_tokens a @ [ac_next a]))"
  shows "rq_output (step_request eos max_new r a) = rq_output r @ taken" "taken \<noteq> []"
    "length (rq_output r @ taken) \<le> max_new"
    "rq_finished (step_request eos max_new r a) \<longleftrightarrow> max_new \<le> length (rq_output r @ taken) \<or> last taken \<in> set eos
        \<or> length taken < length (ac_tokens a @ [ac_next a])"
proof -
  have m: "0 < max_new - length (rq_output r)" using assms(1) by (simp add: open_request_def)
  then have ne: "take (max_new - length (rq_output r)) (ac_tokens a @ [ac_next a]) \<noteq> []" by simp
  show tn: "taken \<noteq> []" using ne unfolding taken_def take_eos_facts(1) .
  show "rq_output (step_request eos max_new r a) = rq_output r @ taken"
    by (simp add: step_request_def Let_def taken_def)
  show "rq_finished (step_request eos max_new r a) \<longleftrightarrow> max_new \<le> length (rq_output r @ taken) \<or> last taken \<in> set eos
        \<or> length taken < length (ac_tokens a @ [ac_next a])"
    using tn by (auto simp add: step_request_def Let_def taken_def)
  have "length taken \<le> max_new - length (rq_output r)"
    unfolding taken_def by (rule order.trans[OF take_eos_facts(2)]) simp
  then show "length (rq_output r @ taken) \<le> max_new" using m by simp
qed

lemma step_request_shape:
  assumes "open_request eos max_new t r" "request_shape eos max_new r"
  shows "request_shape eos max_new (step_request eos max_new r a)"
proof -
  note o = step_request_output[OF assms(1), of a]
  let ?t = "take_eos eos (take (max_new - length (rq_output r)) (ac_tokens a @ [ac_next a]))"
  have "set (butlast (rq_output r @ ?t)) \<inter> set eos = {}"
    using o(2) take_eos_facts(3)[of eos] assms(1) by (auto simp: butlast_append open_request_def)
  moreover have "rq_iterations (step_request eos max_new r a) = length (rq_accepts (step_request eos max_new r a))"
    "rq_iterations (step_request eos max_new r a) \<le> length (rq_output r)"
    using assms(2) by (simp_all add: step_request_def Let_def request_shape_def)
  moreover have "length (rq_output r) < length (rq_output r @ ?t)"
    using o(2) by (metis length_append length_greater_0_conv less_add_same_cancel1)
  ultimately show ?thesis using o(2,3) unfolding request_shape_def o(1)
    by (metis append_is_Nil_conv le_less_trans)
qed

lemma step_request_open:
  assumes "open_request eos max_new t r" "\<not> rq_finished (step_request eos max_new r a)"
  shows "open_request eos max_new (Suc t) (step_request eos max_new r a)"
    "rq_output (step_request eos max_new r a) = rq_output r @ ac_tokens a @ [ac_next a]"
proof -
  note o = step_request_output[OF assms(1), of a]
  let ?p = "ac_tokens a @ [ac_next a]"
  let ?t = "take_eos eos (take (max_new - length (rq_output r)) ?p)"
  have f: "\<not> max_new \<le> length (rq_output r @ ?t)" "last ?t \<notin> set eos" "\<not> length ?t < length ?p"
    using assms(2) unfolding o(4) by blast+
  have ne: "take (max_new - length (rq_output r)) ?p \<noteq> []" using o(2) take_eos_facts(1) by blast
  note e = take_eos_facts(4)[OF ne f(2)]
  then have "length (take (max_new - length (rq_output r)) ?p) = length ?p" using f(3) by simp
  then have tp: "take (max_new - length (rq_output r)) ?p = ?p" by simp
  then have t: "?t = ?p" and d: "set ?p \<inter> set eos = {}" using e by simp_all
  show "rq_output (step_request eos max_new r a) = rq_output r @ ac_tokens a @ [ac_next a]" unfolding o(1) t by simp
  show "open_request eos max_new (Suc t) (step_request eos max_new r a)"
    using assms(1) f(1) d unfolding open_request_def o(1) t by auto
qed

section \<open>The round as a function of the accepted paths\<close>

lemma put_rows_Nil [simp]: "put_rows [] new xs = xs" "put_rows idxs [] xs = xs"
  by (simp_all add: put_rows_def)

lemma put_rows_Cons [simp]: "put_rows (i # idxs) (r # new) xs = put_rows idxs new (xs[i := r])"
  by (simp add: put_rows_def)

lemma length_put_rows [simp]: "length (put_rows idxs new xs) = length xs"
proof (induction idxs arbitrary: new xs)
  case (Cons i idxs)
  then show ?case by (cases new) auto
qed simp

lemma put_rows_other: "k \<notin> set idxs \<Longrightarrow> put_rows idxs new xs ! k = xs ! k"
proof (induction idxs arbitrary: new xs)
  case (Cons i idxs)
  then show ?case by (cases new) auto
qed simp

lemma put_rows_nth:
  "distinct idxs \<Longrightarrow> set idxs \<subseteq> {..<length xs} \<Longrightarrow> j < length idxs \<Longrightarrow>
     put_rows idxs new xs ! (idxs ! j) = (if j < length new then new ! j else xs ! (idxs ! j))"
proof (induction idxs arbitrary: new xs j)
  case (Cons i idxs)
  show ?case
  proof (cases new)
    case (Cons r rs)
    have "i \<noteq> idxs ! (j - 1)" if "j \<noteq> 0" using that Cons.prems nth_mem[of "j - 1" idxs] by auto
    then show ?thesis using Cons.prems Cons.IH[of "xs[i := r]" "j - 1" rs] put_rows_other[of i idxs rs "xs[i := r]"]
      by (cases j) (auto simp: \<open>new = r # rs\<close>)
  qed simp
qed simp

lemma verify_round_length: "verify_round E cfg states c = Inr (accs, c2) \<Longrightarrow> length accs = length states"
  by (auto simp: verify_round_def Let_def res_bind_def accept_active_batch_def
      dest!: res_map_Inr_length split: sum.splits prod.splits if_splits)

lemma build_next_drafts_output:
  assumes "build_next_drafts E K pairs dc d = Inr (drafted, dc', d')" "j < length drafted"
  shows "j < length pairs" "rq_output (drafted ! j) = rq_output (fst (pairs ! j))"
    "rq_finished (drafted ! j) = rq_finished (fst (pairs ! j))"
    "rq_iterations (drafted ! j) = rq_iterations (fst (pairs ! j))" "rq_accepts (drafted ! j) = rq_accepts (fst (pairs ! j))"
  using assms by (auto simp: build_next_drafts_def Let_def res_bind_def set_drafted_def case_prod_unfold split: sum.splits prod.splits)

lemma decode_round_step:
  assumes "decode_round E cfg max_new st = Inr st'"
  obtains accs c2 where
    "verify_round E cfg (map (\<lambda>i. (the (rq_tree (gs_reqs st ! i)), rq_prefix (gs_reqs st ! i))) (gs_active st)) (gs_cache st) = Inr (accs, c2)"
    "length accs = length (gs_active st)"
    "surviving (round_step (gc_eos cfg) max_new st accs) = [] \<longrightarrow> gs_active st' = []
       \<and> gs_reqs st' = put_rows (gs_active st) (round_step (gc_eos cfg) max_new st accs) (gs_reqs st)"
    "surviving (round_step (gc_eos cfg) max_new st accs) \<noteq> [] \<longrightarrow> (\<exists>dc drafted dc' d'.
       gs_active st' = map (\<lambda>j. gs_active st ! j) (surviving (round_step (gc_eos cfg) max_new st accs))
       \<and> build_next_drafts E (gc_K cfg) (map (\<lambda>j. (round_step (gc_eos cfg) max_new st accs ! j, accs ! j))
            (surviving (round_step (gc_eos cfg) max_new st accs))) dc (gs_dstate st) = Inr (drafted, dc', d')
       \<and> gs_reqs st' = put_rows (gs_active st') drafted
            (put_rows (gs_active st) (round_step (gc_eos cfg) max_new st accs) (gs_reqs st)))"
proof -
  let ?states = "map (\<lambda>i. (the (rq_tree (gs_reqs st ! i)), rq_prefix (gs_reqs st ! i))) (gs_active st)"
  obtain accs c2 where v: "verify_round E cfg ?states (gs_cache st) = Inr (accs, c2)"
    using assms by (auto simp: decode_round_def Let_def res_bind_def comp_def split: sum.splits)
  show ?thesis
  proof (rule that[OF v])
    show "length accs = length (gs_active st)" using verify_round_length[OF v] by simp
  qed (use assms v in \<open>auto simp: decode_round_def Let_def res_bind_def comp_def split: sum.splits prod.splits if_splits\<close>, blast)
qed

section \<open>Invariant of the batch\<close>

definition batch_inv :: "token list \<Rightarrow> nat \<Rightarrow> nat \<Rightarrow> ('d, 'k) gen_state \<Rightarrow> bool" where
  "batch_inv eos max_new t st \<longleftrightarrow> distinct (gs_active st) \<and> set (gs_active st) \<subseteq> {..<length (gs_reqs st)}
     \<and> (\<forall>r \<in> set (gs_reqs st). request_shape eos max_new r)
     \<and> (\<forall>i \<in> set (gs_active st). open_request eos max_new t (gs_reqs st ! i))"

lemma surviving_facts: "distinct (surviving new)" "j \<in> set (surviving new) \<longleftrightarrow> j < length new \<and> \<not> rq_finished (new ! j)"
  by (auto simp: surviving_def positions_def)

lemma batch_inv_round:
  assumes inv: "batch_inv (gc_eos cfg) max_new t st" and r: "decode_round E cfg max_new st = Inr st'"
  shows "batch_inv (gc_eos cfg) max_new (Suc t) st'" "length (gs_reqs st') = length (gs_reqs st)"
    "set (gs_active st') \<subseteq> set (gs_active st)"
proof -
  let ?eos = "gc_eos cfg" and ?act = "gs_active st"
  obtain accs c2 where A: "length accs = length ?act"
    and fin: "surviving (round_step ?eos max_new st accs) = [] \<longrightarrow> gs_active st' = []
       \<and> gs_reqs st' = put_rows ?act (round_step ?eos max_new st accs) (gs_reqs st)"
    and cont: "surviving (round_step ?eos max_new st accs) \<noteq> [] \<longrightarrow> (\<exists>dc drafted dc' d'.
       gs_active st' = map (\<lambda>j. ?act ! j) (surviving (round_step ?eos max_new st accs))
       \<and> build_next_drafts E (gc_K cfg) (map (\<lambda>j. (round_step ?eos max_new st accs ! j, accs ! j))
            (surviving (round_step ?eos max_new st accs))) dc (gs_dstate st) = Inr (drafted, dc', d')
       \<and> gs_reqs st' = put_rows (gs_active st') drafted (put_rows ?act (round_step ?eos max_new st accs) (gs_reqs st)))"
    by (rule decode_round_step[OF r])
  define new where "new = round_step ?eos max_new st accs"
  define reqs1 where "reqs1 = put_rows ?act new (gs_reqs st)"
  have ln: "length new = length ?act" using A by (simp add: new_def round_step_def)
  have newj: "new ! j = step_request ?eos max_new (gs_reqs st ! (?act ! j)) (accs ! j)" if "j < length ?act" for j
    using that A by (simp add: new_def round_step_def)
  have D: "distinct ?act" "set ?act \<subseteq> {..<length (gs_reqs st)}" using inv by (simp_all add: batch_inv_def)
  have op: "open_request ?eos max_new t (gs_reqs st ! (?act ! j))" "request_shape ?eos max_new (gs_reqs st ! (?act ! j))" if "j < length ?act" for j
    using that inv D(2) nth_mem[OF that] unfolding batch_inv_def by (auto simp: subset_iff)
  have at: "reqs1 ! (?act ! j) = new ! j" if "j < length ?act" for j
    using put_rows_nth[OF D that, of new] that ln by (simp add: reqs1_def)
  have sh1: "request_shape ?eos max_new (reqs1 ! i)" if "i < length (gs_reqs st)" for i
  proof (cases "i \<in> set ?act")
    case True
    then obtain j where "j < length ?act" "i = ?act ! j" by (auto simp: in_set_conv_nth)
    then show ?thesis using at newj step_request_shape[OF op] by simp
  next
    case False
    then show ?thesis using inv that put_rows_other[OF False, of new "gs_reqs st"] by (simp add: reqs1_def batch_inv_def)
  qed
  have l1: "length reqs1 = length (gs_reqs st)" by (simp add: reqs1_def)
  have "batch_inv ?eos max_new (Suc t) st' \<and> length (gs_reqs st') = length (gs_reqs st) \<and> set (gs_active st') \<subseteq> set ?act"
  proof (cases "surviving new = []")
    case True
    then show ?thesis using fin sh1 l1
      by (auto simp: batch_inv_def in_set_conv_nth simp flip: new_def reqs1_def)
  next
    case False
    let ?sv = "surviving new"
    obtain dc drafted dc' d' where C: "gs_active st' = map (\<lambda>j. ?act ! j) ?sv"
      "build_next_drafts E (gc_K cfg) (map (\<lambda>j. (new ! j, accs ! j)) ?sv) dc (gs_dstate st) = Inr (drafted, dc', d')"
      "gs_reqs st' = put_rows (gs_active st') drafted reqs1"
      using cont False unfolding new_def reqs1_def by blast
    have sv: "j < length ?act" "\<not> rq_finished (new ! j)" if "j \<in> set ?sv" for j
      using that surviving_facts(2)[of j new] ln by auto
    have sub: "set (gs_active st') \<subseteq> set ?act" using C(1) sv by auto
    have dist: "distinct (gs_active st')" unfolding C(1)
      by (simp add: distinct_map surviving_facts(1)) (auto intro!: inj_onI simp: nth_eq_iff_index_eq[OF D(1)] sv)
    have sub': "set (gs_active st') \<subseteq> {..<length reqs1}" using sub D(2) l1 by auto
    note dr = build_next_drafts_output[OF C(2)]
    have at': "rq_output (gs_reqs st' ! (gs_active st' ! k)) = rq_output (new ! (?sv ! k))
        \<and> rq_iterations (gs_reqs st' ! (gs_active st' ! k)) = rq_iterations (new ! (?sv ! k))
        \<and> rq_accepts (gs_reqs st' ! (gs_active st' ! k)) = rq_accepts (new ! (?sv ! k))" if "k < length ?sv" for k
    proof (cases "k < length drafted")
      case True
      then show ?thesis using put_rows_nth[OF dist sub', of k drafted] dr[OF True] that C(1,3) by simp
    next
      case nd: False
      then show ?thesis using put_rows_nth[OF dist sub', of k drafted] that C(1,3) at[OF sv(1)[OF nth_mem[OF that]]] by simp
    qed
    have nshape: "request_shape ?eos max_new (new ! j)" "open_request ?eos max_new (Suc t) (new ! j)" if "j \<in> set ?sv" for j
      using sv[OF that] newj step_request_shape[OF op] step_request_open(1)[OF op(1)] by simp_all
    have op': "open_request ?eos max_new (Suc t) (gs_reqs st' ! i)" "request_shape ?eos max_new (gs_reqs st' ! i)"
      if i: "i \<in> set (gs_active st')" for i
    proof -
      obtain k where k: "k < length ?sv" "i = gs_active st' ! k" using i C(1) by (auto simp: in_set_conv_nth)
      then show "open_request ?eos max_new (Suc t) (gs_reqs st' ! i)" "request_shape ?eos max_new (gs_reqs st' ! i)"
        using at'[OF k(1)] nshape[OF nth_mem[OF k(1)]] by (simp_all add: open_request_def request_shape_def)
    qed
    have l': "length (gs_reqs st') = length (gs_reqs st)" using C(3) l1 by simp
    have "request_shape ?eos max_new (gs_reqs st' ! i)" if "i < length (gs_reqs st)" for i
      using op'(2) sh1[OF that] put_rows_other[of i "gs_active st'" drafted reqs1] C(3) by metis
    then show ?thesis using dist sub sub' l1 l' op'(1) by (auto simp: batch_inv_def in_set_conv_nth)
  qed
  then show "batch_inv ?eos max_new (Suc t) st'" "length (gs_reqs st') = length (gs_reqs st)" "set (gs_active st') \<subseteq> set ?act"
    by blast+
qed

lemma decode_round_sizes: "decode_round E cfg max_new st = Inr st' \<Longrightarrow> length (gs_sizes st') = Suc (length (gs_sizes st))"
  by (auto simp: decode_round_def Let_def res_bind_def split: sum.splits prod.splits if_splits)

lemma decode_loop_simps:
  "gs_active st = [] \<Longrightarrow> decode_loop E cfg max_new st = Some (Inr st)"
  "gs_active st \<noteq> [] \<Longrightarrow> decode_round E cfg max_new st = Inl e \<Longrightarrow> decode_loop E cfg max_new st = Some (Inl e)"
  "gs_active st \<noteq> [] \<Longrightarrow> decode_round E cfg max_new st = Inr st' \<Longrightarrow> decode_loop E cfg max_new st = decode_loop E cfg max_new st'"
  by (simp_all add: decode_loop.simps)

lemma decode_loop_ends:
  assumes "batch_inv (gc_eos cfg) max_new t st"
  shows "\<exists>r. decode_loop E cfg max_new st = Some r \<and> (\<forall>st'. r = Inr st' \<longrightarrow>
    gs_active st' = [] \<and> length (gs_reqs st') = length (gs_reqs st) \<and> (\<forall>r \<in> set (gs_reqs st'). request_shape (gc_eos cfg) max_new r)
    \<and> length (gs_sizes st') \<le> length (gs_sizes st) + (max_new - t))"
  using assms
proof (induction "max_new - t" arbitrary: t st)
  case 0
  then have "gs_active st = []" by (cases "gs_active st") (auto simp: batch_inv_def open_request_def)
  then show ?case using 0 by (auto simp: decode_loop_simps(1) batch_inv_def)
next
  case (Suc n)
  show ?case
  proof (cases "gs_active st = []")
    case True
    then show ?thesis using Suc.prems by (auto simp: decode_loop_simps(1) batch_inv_def)
  next
    case act: False
    show ?thesis
    proof (cases "decode_round E cfg max_new st")
      case (Inl e)
      then show ?thesis using decode_loop_simps(2)[OF act Inl] by simp
    next
      case (Inr st1)
      have m: "n = max_new - Suc t" using Suc.hyps(2) by simp
      have ps: "Suc (max_new - Suc t) = max_new - t" using Suc.hyps(2) m by simp
      show ?thesis
        using Suc.hyps(1)[OF m batch_inv_round(1)[OF Suc.prems Inr]] batch_inv_round(2)[OF Suc.prems Inr]
          decode_round_sizes[OF Inr] ps
        unfolding decode_loop_simps(3)[OF act Inr] by fastforce
    qed
  qed
qed

text \<open>The requests after prefill, and the rows that are drafted.\<close>

lemma prefill_step:
  assumes "prefill E cfg max_new d prompts = Inr st"
  obtains firsts entries drafted where
    "gs_active st = order_entries (\<lambda>i. length (rq_prompt (first_requests cfg max_new prompts firsts ! i)))
       (positions (\<lambda>r. \<not> rq_finished r) (first_requests cfg max_new prompts firsts))"
    "gs_reqs st = put_rows (gs_active st) drafted (first_requests cfg max_new prompts firsts)"
    "\<forall>j<length drafted. j < length (gs_active st) \<and> (\<exists>b. drafted ! j = (first_requests cfg max_new prompts firsts ! (gs_active st ! j))\<lparr>rq_draft_pos := length (rq_prompt (first_requests cfg max_new prompts firsts ! (gs_active st ! j))) + 1, rq_tree := Some b\<rparr>)"
    "gs_sizes st = []"
proof -
  obtain hidden kvs sources where M: "en_prefill E (map (pad_to (max_list (map length prompts)) (gc_pad cfg)) prompts)
      (map (\<lambda>p. pad_to (max_list (map length prompts)) False (replicate (length p) True)) prompts)
      (map (\<lambda>p. pad_to (max_list (map length prompts)) 0 [0..<length p]) prompts) = (hidden, kvs, sources)"
    by (metis prod_cases3)
  define firsts where "firsts = map (\<lambda>(p, row). int (argmax_first (en_head E (row ! (length p - 1))))) (zip prompts hidden)"
  define reqs where "reqs = first_requests cfg max_new prompts firsts"
  define entries where "entries = order_entries (\<lambda>i. length (rq_prompt (reqs ! i))) (positions (\<lambda>r. \<not> rq_finished r) reqs)"
  have base: "\<exists>drafted. gs_active st = entries \<and> gs_reqs st = put_rows (gs_active st) drafted reqs \<and> gs_sizes st = []
    \<and> (\<forall>j<length drafted. j < length entries \<and> (\<exists>b. drafted ! j =
          (reqs ! (entries ! j))\<lparr>rq_draft_pos := length (rq_prompt (reqs ! (entries ! j))) + 1, rq_tree := Some b\<rparr>))"
  proof (cases "entries = []")
    case True
    then have "gs_active st = entries \<and> gs_reqs st = put_rows (gs_active st) [] reqs \<and> gs_sizes st = []"
      using assms unfolding prefill_def Let_def M prod.case firsts_def[symmetric] reqs_def[symmetric] entries_def[symmetric]
      by (auto simp: res_bind_def split: sum.splits)
    then show ?thesis by (intro exI[of _ "[]"]) simp
  next
    case False
    then obtain trees :: "tree_buf list" where "gs_active st = entries \<and> gs_sizes st = []
       \<and> gs_reqs st = put_rows entries (map (\<lambda>(r, b). r\<lparr>rq_draft_pos := length (rq_prompt r) + 1, rq_tree := Some b\<rparr>)
           (zip (map (\<lambda>i. reqs ! i) entries) trees)) reqs"
      using assms unfolding prefill_def Let_def M prod.case firsts_def[symmetric] reqs_def[symmetric] entries_def[symmetric]
      by (auto simp: res_bind_def split: sum.splits prod.splits)
    then show ?thesis
      by (intro exI[of _ "map (\<lambda>(r, b). r\<lparr>rq_draft_pos := length (rq_prompt r) + 1, rq_tree := Some b\<rparr>)
           (zip (map (\<lambda>i. reqs ! i) entries) trees)"]) auto
  qed
  then show ?thesis using that[of firsts] unfolding reqs_def entries_def by metis
qed

lemma prefill_inv:
  assumes "prefill E cfg max_new d prompts = Inr st" "1 \<le> max_new"
  shows "batch_inv (gc_eos cfg) max_new 1 st" "gs_sizes st = []"
proof -
  obtain firsts drafted where P: "gs_active st = order_entries (\<lambda>i. length (rq_prompt (first_requests cfg max_new prompts firsts ! i)))
       (positions (\<lambda>r. \<not> rq_finished r) (first_requests cfg max_new prompts firsts))"
    and R: "gs_reqs st = put_rows (gs_active st) drafted (first_requests cfg max_new prompts firsts)"
    and dr: "\<forall>j<length drafted. j < length (gs_active st) \<and> (\<exists>b. drafted ! j = (first_requests cfg max_new prompts firsts ! (gs_active st ! j))\<lparr>rq_draft_pos := length (rq_prompt (first_requests cfg max_new prompts firsts ! (gs_active st ! j))) + 1, rq_tree := Some b\<rparr>)"
    and sz: "gs_sizes st = []"
    by (rule prefill_step[OF assms(1)])
  define reqs where "reqs = first_requests cfg max_new prompts firsts"
  have act: "set (gs_active st) = {i. i < length reqs \<and> \<not> rq_finished (reqs ! i)}" "distinct (gs_active st)"
    unfolding P reqs_def[symmetric] by (auto simp: positions_def intro!: distinct_order_entries)
  have same: "\<exists>p b. gs_reqs st ! i = (reqs ! i)\<lparr>rq_draft_pos := p, rq_tree := b\<rparr>" if i: "i < length reqs" for i
  proof (cases "i \<in> set (gs_active st)")
    case True
    then obtain j where j: "j < length (gs_active st)" "i = gs_active st ! j" by (auto simp: in_set_conv_nth)
    have "set (gs_active st) \<subseteq> {..<length reqs}" using act(1) by auto
    note n = put_rows_nth[OF act(2) this j(1), of drafted]
    show ?thesis
    proof (cases "j < length drafted")
      case True
      then show ?thesis using n j(2) R dr[rule_format, OF True] unfolding reqs_def[symmetric] by auto
    next
      case False
      then show ?thesis using n j(2) R by (auto simp: reqs_def[symmetric] intro!: exI[of _ "rq_draft_pos (reqs ! i)"] exI[of _ "rq_tree (reqs ! i)"])
    qed
  next
    case False
    then show ?thesis using put_rows_other[OF False, of drafted reqs] R
      by (auto simp: reqs_def[symmetric] intro!: exI[of _ "rq_draft_pos (reqs ! i)"] exI[of _ "rq_tree (reqs ! i)"])
  qed
  have new: "\<exists>p t. reqs ! i = new_request cfg max_new p t" if "i < length reqs" for i
    using that by (auto simp: reqs_def first_requests_def case_prod_unfold)
  have len: "length (gs_reqs st) = length reqs" using R by (simp add: reqs_def)
  have sh: "request_shape (gc_eos cfg) max_new (gs_reqs st ! i)
      \<and> (\<not> rq_finished (reqs ! i) \<longrightarrow> open_request (gc_eos cfg) max_new 1 (gs_reqs st ! i))" if i: "i < length reqs" for i
  proof -
    obtain p b where s: "gs_reqs st ! i = (reqs ! i)\<lparr>rq_draft_pos := p, rq_tree := b\<rparr>" using same[OF i] by blast
    obtain q t where n: "reqs ! i = new_request cfg max_new q t" using new[OF i] by blast
    show ?thesis unfolding s n using assms(2) by (simp add: request_shape_def open_request_def new_request_def)
  qed
  then have op: "open_request (gc_eos cfg) max_new 1 (gs_reqs st ! i)" if "i \<in> set (gs_active st)" for i
    using that act(1) by simp
  show "batch_inv (gc_eos cfg) max_new 1 st"
    using act sh op len by (auto simp: batch_inv_def in_set_conv_nth)
  show "gs_sizes st = []" by (rule sz)
qed

section \<open>Termination and bounds\<close>

definition result_ok :: "token list \<Rightarrow> int \<Rightarrow> gen_result \<Rightarrow> bool" where
  "result_ok eos max_new r \<longleftrightarrow> length (gr_tokens r) \<le> nat max_new \<and> (gr_tokens r = [] \<longleftrightarrow> max_new \<le> 0)
     \<and> set (butlast (gr_tokens r)) \<inter> set eos = {} \<and> gr_iterations r = length (gr_accepts r)
     \<and> gr_iterations r \<le> length (gr_tokens r) - 1"

text \<open>
  C7.  Batched generation always returns, for every target model, draft network, cache mode
  and settings: each decoding round appends at least one token to every active request, so
  the loop ends, with an error or with the results.
  Every result holds between one and \<open>max_new_tokens\<close> tokens (none when no token was asked
  for), an end-of-sequence token only at its end, one accept length per iteration and fewer
  iterations than tokens.
\<close>

theorem generate_terminates:
  "\<exists>r. generate_conversations E cfg d prompts max_new = Some r
     \<and> (case r of Inl e \<Rightarrow> True | Inr rs \<Rightarrow> list_all (result_ok (gc_eos cfg) max_new) rs)"
proof (cases "prefill E cfg (nat max_new) d prompts")
  case (Inl e)
  then show ?thesis by (auto simp: generate_conversations_def empty_result_def result_ok_def list_all_iff)
next
  case (Inr st)
  show ?thesis
  proof (cases "max_new \<le> 0")
    case True
    then show ?thesis by (auto simp: generate_conversations_def empty_result_def result_ok_def list_all_iff)
  next
    case False
    then have "batch_inv (gc_eos cfg) (nat max_new) 1 st" by (intro prefill_inv(1)[OF Inr]) simp
    from decode_loop_ends[OF this] obtain r where
      r: "decode_loop E cfg (nat max_new) st = Some r"
      "\<forall>st'. r = Inr st' \<longrightarrow> (\<forall>q \<in> set (gs_reqs st'). request_shape (gc_eos cfg) (nat max_new) q)" by blast
    have "result_ok (gc_eos cfg) max_new (request_result q)" if "request_shape (gc_eos cfg) (nat max_new) q" for q
      using that False by (auto simp: result_ok_def request_shape_def request_result_def)
    then show ?thesis using False r Inr
      by (auto simp: generate_conversations_def list_all_iff res_bind_def split: sum.split)
  qed
qed

end
