(* ===== verification/Batch_Round.thy ===== *)
theory Batch_Round
  imports Batch_Generate
begin

text \<open>
  The contract of the batched target model and of the draft network, and the invariant that
  one decoding round of \<open>generate_conversations\<close> keeps under it: the outputs are greedy
  decodings of their prompts, the target cache holds exactly the committed contexts, and the
  draft cache fits its capacity.

  The contract of the target model is the locale \<open>batch_model\<close>; it speaks about the padded
  batches, position ids, attention masks and cached entries that the code really passes.
\<close>

section \<open>The batched target model\<close>

definition batch_shape ::
  "nat \<Rightarrow> nat \<Rightarrow> nat \<Rightarrow> 'h list list \<Rightarrow> token list list list list \<Rightarrow> 'h list list list \<Rightarrow> bool" where
  "batch_shape layers n w hidden kvs sources \<longleftrightarrow> map length hidden = replicate n w
     \<and> length kvs = layers \<and> (\<forall>kv \<in> set kvs. map length kv = replicate n w)
     \<and> length sources = 3 \<and> (\<forall>src \<in> set sources. map length src = replicate n w)"

text \<open>
  The visibility of one row: \<open>p\<close> is a chain of tree nodes ending in i at consecutive positions
  after n committed entries; every node of the chain sees exactly the committed entries and
  the chain up to itself, among the slots before \<open>start\<close> and the staged tree after it.
\<close>

definition row_sees :: "nat \<Rightarrow> nat \<Rightarrow> nat list \<Rightarrow> bool list list \<Rightarrow> nat \<Rightarrow> nat list \<Rightarrow> bool" where
  "row_sees n start pos vis i p \<longleftrightarrow>
     p \<noteq> [] \<and> last p = i \<and> distinct p \<and> set p \<subseteq> {..<length pos} \<and> n \<le> start
     \<and> map length vis = replicate (length pos) (start + length pos)
     \<and> (\<forall>k<length p. pos ! (p ! k) = n + k
          \<and> (\<forall>j<start + length pos. vis ! (p ! k) ! j \<longleftrightarrow> j < n \<or> start \<le> j \<and> j - start \<in> set (take (Suc k) p)))"

locale batch_model =
  fixes E :: "('h, 'l::linorder, 'd, 'k) engine" and tgt :: "token list \<Rightarrow> 'l list"
  assumes layers_pos: "0 < en_layers E"
    and tgt_ne: "tgt ctx \<noteq> []"
    and head_ne: "en_head E h \<noteq> []"
    and topk: "topk_op (en_topk E)"
    and stored: "None \<notin> set (en_store E ls fed)"
    and prefill_shape: "map length ids = replicate n w \<Longrightarrow> en_prefill E ids attn pos = (hidden, kvs, sources) \<Longrightarrow>
      batch_shape (en_layers E) n w hidden kvs sources"
    and prefill_row: "en_prefill E ids attn pos = (hidden, kvs, sources) \<Longrightarrow> r < length ids \<Longrightarrow> n \<le> length (ids ! r) \<Longrightarrow>
      \<forall>j<length (ids ! r). attn ! r ! j \<longleftrightarrow> j < n \<Longrightarrow> \<forall>j<n. pos ! r ! j = j \<Longrightarrow> i < n \<Longrightarrow>
      en_head E (hidden ! r ! i) = tgt (take (Suc i) (ids ! r))
      \<and> (\<forall>l<en_layers E. kvs ! l ! r ! i = take (Suc i) (ids ! r))"
    and tree_shape: "map length ids = replicate n w \<Longrightarrow> en_tree E views ids pos vis = (hidden, kvs, sources) \<Longrightarrow>
      batch_shape (en_layers E) n w hidden kvs sources"
    and tree_row: "en_tree E views ids pos vis = (hidden, kvs, sources) \<Longrightarrow> r < length ids \<Longrightarrow> i < length (ids ! r) \<Longrightarrow>
      length (pos ! r) = length (ids ! r) \<Longrightarrow>
      \<forall>l<en_layers E. length (views ! l ! r) = start \<and> valid_cache (take (length ctx) (views ! l ! r)) ctx \<Longrightarrow>
      row_sees (length ctx) start (pos ! r) (vis ! r) i p \<Longrightarrow>
      en_head E (hidden ! r ! i) = tgt (ctx @ map (\<lambda>j. ids ! r ! j) p)
      \<and> (\<forall>l<en_layers E. kvs ! l ! r ! i = ctx @ map (\<lambda>j. ids ! r ! j) p)"

section \<open>One row\<close>

lemma tree_verify_best:
  "tree_verify topk acc fwd b ctx cache = Inr v \<Longrightarrow> vf_best v < length (tb_retrieve b)"
proof -
  assume v: "tree_verify topk acc fwd b ctx cache = Inr v"
  then obtain lg cd lens where g: "gather_rows (fst (fwd cache (tb_tokens b) (map (\<lambda>d. d + length ctx) (tb_pos b)) (tb_mask b))) (tb_retrieve b) = Inr lg"
    "gather_rows (tb_tokens b @ [- 1]) (tb_retrieve b) = Inr cd" "tb_retrieve b \<noteq> []"
    "lens = map (\<lambda>(c, l). run_length (match_mask topk acc c l)) (zip cd lg)"
    "vf_best v = (if lens ! argmax_first lens = 0 then 0 else argmax_first lens)"
    by (auto simp: tree_verify_def Let_def case_prod_unfold split: if_splits)
  have "length lens = length (tb_retrieve b)" using res_map_Inr_length[OF g(1)[unfolded gather_rows_def]] res_map_Inr_length[OF g(2)[unfolded gather_rows_def]] g(4) by simp
  then show ?thesis using g(3,5) argmax_first_less[of lens] by (cases "lens = []") auto
qed

lemma root_path_length_le: "wf_par par \<Longrightarrow> i < length par \<Longrightarrow> length (root_path par i) \<le> length par"
proof -
  assume a: "wf_par par" "i < length par"
  have "length (root_path par i) = card (set (root_path par i))" using distinct_card[OF root_path_distinct[OF a]] by simp
  also have "\<dots> \<le> card {..<length par}" using root_path_bound[of _ par i] a(2) by (intro card_mono) (auto intro: le_less_trans)
  finally show ?thesis by simp
qed

text \<open>
  What accepting a row means once its logits are those of the target model: the tokens are
  the greedy continuation and the entries of the accepted nodes extend the cache.
\<close>

lemma accepted_row:
  assumes b: "buf_for par b" and ne: "\<And>ctx. tgt ctx \<noteq> []"
    and L: "length L = length par" "\<forall>i<length par. L ! i = tgt (ctx @ map (\<lambda>j. tb_tokens b ! j) (root_path par i))"
    and v: "tree_verify topk 1 (\<lambda>_ _ _ _. (L, K)) b ctx0 cache0 = Inr v" and m: "matches_scalar b v a"
  shows "ac_tokens a @ [ac_next a] = greedy_decode tgt (ctx @ [tb_tokens b ! 0]) (Suc (ac_length a))"
    "length (ac_tokens a) = ac_length a" "length (ac_path a) = Suc (ac_length a)"
    "\<forall>x \<in> set (ac_path a). 0 \<le> x \<and> nat x < length par" "length (ac_path a) \<le> length par" "length (ac_path a) \<le> retrieve_width b"
    "\<forall>i<length par. kv ! i = ctx @ map (\<lambda>j. tb_tokens b ! j) (root_path par i) \<Longrightarrow> valid_cache old ctx \<Longrightarrow>
       valid_cache (old @ map (\<lambda>x. kv ! nat x) (ac_path a)) (ctx @ tb_tokens b ! 0 # ac_tokens a)"
proof -
  have wf: "wf_par par" and lt: "length (tb_tokens b) = length par" using b by (simp_all add: buf_for_def)
  let ?c = "map (\<lambda>n. take (Suc n) ctx) [0..<length ctx]"
  let ?F = "ref_forward tgt ?c (tb_tokens b) (map (\<lambda>d. d + length ctx) (tb_pos b)) (tb_mask b)"
  have tm: "target_model (ref_forward tgt) tgt" by (rule ref_target_model[OF ne])
  have vc: "valid_cache ?c ctx" by (simp add: valid_cache_def)
  obtain v' where V: "tree_verify topk 1 (ref_forward tgt) b ctx ?c = Inr v'" "length (vf_tokens v') = vf_accept v'"
    "vf_tokens v' @ [vf_next v'] = greedy_decode tgt (ctx @ [tb_tokens b ! 0]) (Suc (vf_accept v'))"
    "valid_cache (vf_cache v') (ctx @ tb_tokens b ! 0 # vf_tokens v')"
    by (rule target_model.verify_greedy[OF tm b vc, of 1 topk]) auto
  have "fst ?F = L"
    using target_model.node_logits[OF tm b vc] L target_model.fwd_length[OF tm] lt by (intro nth_equalityI) auto
  note eq = tree_verify_logits[OF v this V(1)]
  have M: "ac_length a = vf_accept v'" "ac_tokens a = vf_tokens v'" "ac_next a = vf_next v'"
    "ac_path a = take (vf_accept v' + 1) (tb_retrieve b ! vf_best v')"
    using m eq(1-4) by (simp_all add: matches_scalar_def)
  show "ac_tokens a @ [ac_next a] = greedy_decode tgt (ctx @ [tb_tokens b ! 0]) (Suc (ac_length a))"
    "length (ac_tokens a) = ac_length a" using V(2,3) M by simp_all
  have sel: "vf_cache v' = select_cache (length ctx) (ac_path a) (snd ?F)" using eq(5) M(4) by simp
  have lenF: "length (snd ?F) = length ctx + length par" using target_model.fwd_cache_length[OF tm] lt by simp
  have "length (vf_cache v') = length ctx + Suc (vf_accept v')" using V(2,4) by (simp add: valid_cache_def)
  then have fl: "length (filter (\<lambda>i. 0 \<le> i) (ac_path a)) = Suc (vf_accept v')" unfolding sel select_cache_def using lenF by simp
  have le: "length (ac_path a) \<le> Suc (vf_accept v')" using M(4) by simp
  then have pl: "length (ac_path a) = Suc (vf_accept v')"
    using fl length_filter_le[of "\<lambda>i. 0 \<le> i" "ac_path a"] by linarith
  have nn: "filter (\<lambda>i. 0 \<le> i) (ac_path a) = ac_path a"
    unfolding filter_id_conv by (metis fl le length_filter_less not_le)
  show lp: "length (ac_path a) = Suc (ac_length a)" using pl M(1) by simp
  have bl: "tb_retrieve b ! vf_best v' \<in> set (tb_retrieve b)" using tree_verify_best[OF V(1)] by simp
  then obtain leaf where leaf: "leaf < length par" "tb_retrieve b ! vf_best v' = leaf_row par (tree_height par) leaf"
    using b unfolding buf_for_def by (elim conjE) (metis buffer_leaves_less imageE)
  have row: "length (tb_retrieve b ! vf_best v') = retrieve_width b"
    "\<And>x. x \<in> set (tb_retrieve b ! vf_best v') \<Longrightarrow> x < int (length (tb_tokens b))"
    using row_facts[OF buf_for_retrieve_ok[OF b] bl] by auto
  have nn': "\<forall>x \<in> set (ac_path a). 0 \<le> x" using nn by (metis filter_id_conv)
  show "\<forall>x \<in> set (ac_path a). 0 \<le> x \<and> nat x < length par"
  proof
    fix x assume x: "x \<in> set (ac_path a)"
    then have "x < int (length par)" using row(2)[of x] M(4) lt in_set_takeD by metis
    then show "0 \<le> x \<and> nat x < length par" using nn' x by auto
  qed
  show "length (ac_path a) \<le> retrieve_width b" using row(1) M(4) by simp
  have "length (ac_path a) = length (filter (\<lambda>i. 0 \<le> i) (take (vf_accept v' + 1) (leaf_row par (tree_height par) leaf)))"
    using nn M(4) leaf(2) by simp
  also have "\<dots> \<le> length (filter (\<lambda>i. 0 \<le> i) (leaf_row par (tree_height par) leaf))"
    by (metis append_take_drop_id filter_append length_append le_add1)
  also have "\<dots> = length (root_path par leaf)" by (simp add: leaf_row_eq filter_True)
  finally show "length (ac_path a) \<le> length par" using root_path_length_le[OF wf leaf(1)] by simp
  show "valid_cache (old @ map (\<lambda>x. kv ! nat x) (ac_path a)) (ctx @ tb_tokens b ! 0 # ac_tokens a)"
    if kv: "\<forall>i<length par. kv ! i = ctx @ map (\<lambda>j. tb_tokens b ! j) (root_path par i)" and old: "valid_cache old ctx"
  proof -
    have "take (length ctx) (snd ?F) = ?c"
      using target_model.fwd_cache_old[OF tm, of _ ?c] lenF by (intro nth_equalityI) auto
    moreover have "?c = old" using old by (simp add: valid_cache_def)
    moreover have "snd ?F ! (length ctx + nat x) = kv ! nat x" if "x \<in> set (ac_path a)" for x
      using target_model.node_cache[OF tm b vc, of "nat x"] kv that \<open>\<forall>x \<in> set (ac_path a). 0 \<le> x \<and> nat x < length par\<close> by simp
    ultimately have "vf_cache v' = old @ map (\<lambda>x. kv ! nat x) (ac_path a)"
      unfolding sel select_cache_def nn by simp
    then show ?thesis using V(4) M(2) by simp
  qed
qed

section \<open>One verification pass\<close>

text \<open>The packed row of a request lets every node see its root path.\<close>

lemma packed_row_sees:
  assumes b: "buf_for par b" and w: "length par \<le> w" and n: "plen \<le> start" and i: "i < length par"
  shows "row_sees plen start (pad_to w plen (map (\<lambda>d. d + plen) (take (length (tb_tokens b)) (tb_pos b))))
    (map (\<lambda>q. map (mask_entry b plen start q) [0..<start + w]) [0..<w]) i (root_path par i)"
proof -
  have wf: "wf_par par" and lt: "length (tb_tokens b) = length par" "tb_pos b = map (node_depth par) [0..<length par]"
    and vis: "\<And>q j. q < length par \<Longrightarrow> j < length par \<Longrightarrow> tb_mask b ! q ! j \<longleftrightarrow> j \<in> set (root_path par q)"
    using b by (auto simp: buf_for_def)
  let ?p = "root_path par i" and ?pos = "pad_to w plen (map (\<lambda>d. d + plen) (take (length (tb_tokens b)) (tb_pos b)))"
  have lp: "length ?pos = w" using w by (simp add: lt)
  have "?pos ! (?p ! k) = plen + k \<and> (\<forall>j<start + w. mask_entry b plen start (?p ! k) j \<longleftrightarrow>
      j < plen \<or> start \<le> j \<and> j - start \<in> set (take (Suc k) ?p))" if k: "k < length ?p" for k
  proof -
    have kd: "k \<le> node_depth par i" using k by (simp add: length_root_path)
    have q: "?p ! k < length par" by (rule root_path_nth_less[OF wf i kd])
    have bound: "j \<in> set (root_path par (?p ! k)) \<Longrightarrow> j < length par" for j
      using root_path_bound[of j par "?p ! k"] q by simp
    have "mask_entry b plen start (?p ! k) j \<longleftrightarrow> j < plen \<or> start \<le> j \<and> j - start \<in> set (root_path par (?p ! k))"
      if "j < start + w" for j
      using that q vis[OF q, of "j - start"] bound[of "j - start"] by (auto simp: mask_entry_def lt)
    then show ?thesis using q w node_depth_on_path[OF wf i kd] root_path_prefix[OF wf i kd] by (simp add: lt)
  qed
  moreover have "?p ! k < w" if "k < length ?p" for k
    using that root_path_nth_less[OF wf i, of k] w by (simp add: length_root_path)
  moreover have "set ?p \<subseteq> {..<w}" using root_path_bound[of _ par i] i w by force
  moreover have "map length (map (\<lambda>q. map (mask_entry b plen start q) [0..<start + w]) [0..<w]) = replicate w (start + w)"
    by (simp add: comp_def map_replicate_const)
  ultimately show ?thesis
    unfolding row_sees_def lp using n root_path_last[OF wf i] root_path_distinct[OF wf i] by (simp del: pad_to_simps)
qed

lemma pack_trees_eq:
  "pack_trees pad states = (map (\<lambda>j. pad_to (max_list (tree_widths (map fst states))) pad (tb_tokens (fst (states ! j)))) [0..<length states],
     map (\<lambda>j. pad_to (max_list (tree_widths (map fst states))) (snd (states ! j)) (map (\<lambda>d. d + snd (states ! j))
        (take (length (tb_tokens (fst (states ! j)))) (tb_pos (fst (states ! j)))))) [0..<length states],
     tree_widths (map fst states), max_list (tree_widths (map fst states)))"
  unfolding pack_trees_def Let_def by (auto simp: case_prod_unfold intro!: nth_equalityI)

lemma max_list_le_Max: "xs \<noteq> [] \<Longrightarrow> max_list xs \<le> Max (set xs)"
  using max_list_in[of xs] by auto

text \<open>The committed prefix of every request, as the layers offer it to the tree.\<close>

lemma views_row:
  assumes "cache_ok c1" "r < dc_active c1" "l < length (dc_layers c1)" "dc_tree_start c1 \<le> dc_capacity c1"
    "n \<le> dc_tree_start c1" "\<forall>i<n. cache_row c1 l r ! i = old ! i" "n \<le> length old"
  shows "length (cache_views c1 ! l ! r) = dc_tree_start c1" "take n (cache_views c1 ! l ! r) = take n old"
proof -
  obtain rs where rs: "cl_rows (dc_layers c1 ! l) = Some rs" "length rs = dc_max_batch c1"
    "\<And>r. r < dc_max_batch c1 \<Longrightarrow> length (rs ! r) = dc_capacity c1" "\<And>r. cache_row c1 l r = rs ! r"
    using cache_ok_row[OF assms(1,3)] by metis
  have r: "r < dc_max_batch c1" using assms(1,2) by (simp add: cache_ok_def)
  have v: "cache_views c1 ! l ! r = take (dc_tree_start c1) (rs ! r)"
    using assms(2,3) r rs by (simp add: cache_views_def)
  show "length (cache_views c1 ! l ! r) = dc_tree_start c1" using v rs(3)[OF r] assms(4) by simp
  show "take n (cache_views c1 ! l ! r) = take n old"
    unfolding v using rs(3,4) r assms(4-7) by (intro nth_equalityI) auto
qed

definition row_accepts :: "(token list \<Rightarrow> 'l::linorder list) \<Rightarrow> tree_buf \<Rightarrow> token list \<Rightarrow> 'h accepted \<Rightarrow> bool" where
  "row_accepts tgt b ctx a \<longleftrightarrow> ac_tokens a @ [ac_next a] = greedy_decode tgt (ctx @ [tb_tokens b ! 0]) (Suc (ac_length a))
     \<and> length (ac_tokens a) = ac_length a \<and> length (ac_path a) = Suc (ac_length a)"

text \<open>A verification state: the tree, the committed length, the context and a layer row per layer.\<close>

definition states_ok ::
  "nat \<Rightarrow> token list dense_cache \<Rightarrow> (tree_buf \<times> nat) list \<Rightarrow> token list list \<Rightarrow> nat list list \<Rightarrow> bool" where
  "states_ok layers c states ctxs pars \<longleftrightarrow> cache_ok c \<and> dc_active c = length states \<and> length (dc_layers c) = layers
     \<and> dc_committed_capacity c \<le> dc_capacity c \<and> states \<noteq> []
     \<and> (\<forall>j<length states. buf_for (pars ! j) (fst (states ! j)) \<and> snd (states ! j) = length (ctxs ! j)
          \<and> length (ctxs ! j) \<le> dc_committed_capacity c
          \<and> (\<forall>l<layers. valid_cache (take (length (ctxs ! j)) (cache_row c l j)) (ctxs ! j)))"

definition tree_pass ::
  "('h, 'l, 'd, 'k) engine \<Rightarrow> token \<Rightarrow> (tree_buf \<times> nat) list \<Rightarrow> token list dense_cache
     \<Rightarrow> 'h list list \<times> token list list list list \<times> 'h list list list" where
  "tree_pass E pad states c1 =
     (let w = max_list (tree_widths (map fst states)) in en_tree E (cache_views c1) (fst (pack_trees pad states))
        (fst (snd (pack_trees pad states)))
        (map (\<lambda>(b, plen). map (\<lambda>q. map (mask_entry b plen (dc_tree_start c1) q) [0..<dc_tree_start c1 + w]) [0..<w]) states))"

context batch_model
begin

text \<open>The forward pass of a round computes, at every real node, the target model after its root path.\<close>

lemma tree_pass_rows:
  assumes ok: "states_ok (en_layers E) c states ctxs pars"
    and c1: "cache_ok c1" "dc_active c1 = dc_active c" "length (dc_layers c1) = length (dc_layers c)"
      "dc_tree_start c1 \<le> dc_capacity c1" "\<forall>p \<in> set (map snd states). p \<le> dc_tree_start c1"
      "\<forall>l<en_layers E. \<forall>r<length states. \<forall>i<snd (states ! r). cache_row c1 l r ! i = cache_row c l r ! i"
    and pass: "tree_pass E pad states c1 = (hidden, kvs, sources)"
    and w: "w = max_list (tree_widths (map fst states))"
  shows "batch_shape (en_layers E) (length states) w hidden kvs sources"
    "r < length states \<Longrightarrow> i < length (pars ! r) \<Longrightarrow>
       en_head E (hidden ! r ! i) = tgt (ctxs ! r @ map (\<lambda>j. tb_tokens (fst (states ! r)) ! j) (root_path (pars ! r) i))
       \<and> (\<forall>l<en_layers E. kvs ! l ! r ! i = ctxs ! r @ map (\<lambda>j. tb_tokens (fst (states ! r)) ! j) (root_path (pars ! r) i))"
proof -
  let ?ids = "fst (pack_trees pad states)" and ?pos = "fst (snd (pack_trees pad states))"
  let ?vis = "map (\<lambda>(b, plen). map (\<lambda>q. map (mask_entry b plen (dc_tree_start c1) q) [0..<dc_tree_start c1 + w]) [0..<w]) states"
  have st: "buf_for (pars ! r) (fst (states ! r))" "snd (states ! r) = length (ctxs ! r)"
    "\<And>l. l < en_layers E \<Longrightarrow> valid_cache (take (length (ctxs ! r)) (cache_row c l r)) (ctxs ! r)" if "r < length states" for r
    using ok that by (auto simp: states_ok_def)
  have F: "en_tree E (cache_views c1) ?ids ?pos ?vis = (hidden, kvs, sources)"
    using pass by (simp add: tree_pass_def Let_def w)
  have wl: "length (tb_tokens (fst (states ! r))) \<le> w" if "r < length states" for r
    unfolding w by (rule max_list_ge) (use that in \<open>auto simp: tree_widths_def\<close>)
  have ids: "length ?ids = length states" "\<And>r. r < length states \<Longrightarrow> ?ids ! r = pad_to w pad (tb_tokens (fst (states ! r)))"
    by (simp_all add: pack_trees_eq w)
  have lids: "map length ?ids = replicate (length states) w" using ids wl by (intro nth_equalityI) auto
  show "batch_shape (en_layers E) (length states) w hidden kvs sources" by (rule tree_shape[OF lids F])
  assume r: "r < length states" and i: "i < length (pars ! r)"
  let ?b = "fst (states ! r)" and ?p = "root_path (pars ! r) i" and ?n = "length (ctxs ! r)"
  have lt: "length (tb_tokens ?b) = length (pars ! r)" using st(1)[OF r] by (simp add: buf_for_def)
  have posr: "?pos ! r = pad_to w ?n (map (\<lambda>d. d + ?n) (take (length (tb_tokens ?b)) (tb_pos ?b)))"
    using r st(2)[OF r] by (simp add: pack_trees_eq w)
  have visr: "?vis ! r = map (\<lambda>q. map (mask_entry ?b ?n (dc_tree_start c1) q) [0..<dc_tree_start c1 + w]) [0..<w]"
    using r st(2)[OF r] by (simp add: case_prod_unfold)
  have ns: "?n \<le> dc_tree_start c1" using c1(5) r st(2)[OF r] by (force simp: in_set_conv_nth)
  have sees: "row_sees ?n (dc_tree_start c1) (?pos ! r) (?vis ! r) i ?p"
    unfolding posr visr using wl[OF r] lt by (intro packed_row_sees[OF st(1)[OF r] _ ns i]) simp
  have view: "length (cache_views c1 ! l ! r) = dc_tree_start c1 \<and> valid_cache (take ?n (cache_views c1 ! l ! r)) (ctxs ! r)"
    if l: "l < en_layers E" for l
  proof -
    have ly: "length (dc_layers c1) = en_layers E" "dc_active c1 = length states" using ok c1(2,3) by (simp_all add: states_ok_def)
    have "length (take ?n (cache_row c l r)) = ?n"
      using arg_cong[OF st(3)[OF r l, unfolded valid_cache_def], of length] by simp
    then have le: "?n \<le> length (cache_row c l r)" by simp
    have same: "\<forall>i<?n. cache_row c1 l r ! i = cache_row c l r ! i" using c1(6) l r st(2)[OF r] by simp
    have rl: "r < dc_active c1" "l < length (dc_layers c1)" using ly r l by simp_all
    show ?thesis using views_row[OF c1(1) rl c1(4) ns same le] st(3)[OF r l] by simp
  qed
  have il: "i < length (?ids ! r)" "length (?pos ! r) = length (?ids ! r)"
    using i lt wl[OF r] ids(2)[OF r] posr st(1)[OF r] by (simp_all add: buf_for_def)
  have eq: "map (\<lambda>j. ?ids ! r ! j) ?p = map (\<lambda>j. tb_tokens ?b ! j) ?p"
    using root_path_bound[of _ "pars ! r" i] i lt wl[OF r] ids(2)[OF r] by (force intro!: map_cong)
  show "en_head E (hidden ! r ! i) = tgt (ctxs ! r @ map (\<lambda>j. tb_tokens ?b ! j) ?p)
       \<and> (\<forall>l<en_layers E. kvs ! l ! r ! i = ctxs ! r @ map (\<lambda>j. tb_tokens ?b ! j) ?p)"
    using tree_row[OF F _ il _ sees] view r ids(1) unfolding eq by simp
qed

end

section \<open>A verified round\<close>

text \<open>The commits of the surviving rows and what the cache holds afterwards.\<close>

definition commits_extend ::
  "nat \<Rightarrow> token list dense_cache \<Rightarrow> token list dense_cache \<Rightarrow> (tree_buf \<times> nat) list \<Rightarrow> token list list
     \<Rightarrow> 'h accepted list \<Rightarrow> nat list \<Rightarrow> bool" where
  "commits_extend layers c c2 states ctxs accs ks \<longleftrightarrow> (\<exists>c3 cnt c4.
     commit_paths (map (\<lambda>j. (int j, int (snd (states ! j)), ac_path (accs ! j))) ks) c2 = Inr (c3, cnt)
     \<and> compact_cache_rows ks c3 = Inr c4 \<and> cache_ok c4 \<and> dc_active c4 = length ks \<and> length (dc_layers c4) = layers
     \<and> dc_committed_capacity c4 = dc_committed_capacity c \<and> dc_capacity c \<le> dc_capacity c4
     \<and> (\<forall>l<layers. \<forall>i<length ks. valid_cache
          (take (length (ctxs ! (ks ! i)) + length (ac_path (accs ! (ks ! i)))) (cache_row c4 l i))
          (ctxs ! (ks ! i) @ tb_tokens (fst (states ! (ks ! i))) ! 0 # ac_tokens (accs ! (ks ! i)))))"

context batch_model
begin

lemma verify_round_ok:
  assumes ok: "states_ok (en_layers E) c states ctxs pars" and cfg: "gc_accept_topk cfg = 1"
    "backbone_guard (en_layers E) (gc_hidden_indices cfg) = Inr ()"
  obtains accs c2 where "verify_round E cfg states c = Inr (accs, c2)" "length accs = length states"
    "\<forall>j<length states. row_accepts tgt (fst (states ! j)) (ctxs ! j) (accs ! j)"
    "\<forall>ks. distinct ks \<and> (\<forall>j \<in> set ks. j < length states
        \<and> length (ctxs ! j) + length (ac_path (accs ! j)) \<le> dc_committed_capacity c)
      \<longrightarrow> commits_extend (en_layers E) c c2 states ctxs accs ks"
proof -
  let ?trees = "map fst states" and ?pre = "map snd states"
  define w where "w = max_list (tree_widths ?trees)"
  define res where "res = min w (max_list (map (\<lambda>(b, _). retrieve_width b) states))"
  have C: "cache_ok c" "length ?pre = dc_active c" "?pre \<noteq> []" "length (dc_layers c) = en_layers E" "states \<noteq> []"
    and st: "\<And>r. r < length states \<Longrightarrow> buf_for (pars ! r) (fst (states ! r))"
      "\<And>r. r < length states \<Longrightarrow> snd (states ! r) = length (ctxs ! r)"
      "\<And>l r. r < length states \<Longrightarrow> l < en_layers E \<Longrightarrow> valid_cache (take (length (ctxs ! r)) (cache_row c l r)) (ctxs ! r)"
    using ok by (auto simp: states_ok_def)
  have cap: "p \<le> dc_committed_capacity c" "p \<le> dc_capacity c" if p: "p \<in> set ?pre" for p
  proof -
    obtain j where "j < length states" "p = snd (states ! j)" using p unfolding in_set_conv_nth by auto
    then show "p \<le> dc_committed_capacity c" "p \<le> dc_capacity c" using ok by (auto simp: states_ok_def)
  qed
  have ret: "retrieve_ok b" if "b \<in> set ?trees" for b
    using that st(1) buf_for_retrieve_ok unfolding in_set_conv_nth by fastforce
  have wl: "length (tb_tokens (fst (states ! r))) \<le> w" if "r < length states" for r
    unfolding w_def by (rule max_list_ge) (use that in \<open>auto simp: tree_widths_def\<close>)
  have "0 < length (tb_tokens (fst (states ! 0)))" using tokens_ne[OF ret, of "fst (states ! 0)"] C(5) by simp
  then have w: "0 < w" "res \<le> w" using less_le_trans[OF _ wl[of 0]] C(5) by (auto simp: res_def)
  obtain c1 where c1: "prepare_tree [] (int w) (map int ?pre) (int res) c = Inr c1" "cache_ok c1"
    "dc_active c1 = dc_active c" "dc_tree_start c1 = Max (set ?pre) + res" "dc_tree_width c1 = w"
    "dc_tree_start c1 + w \<le> dc_capacity c1" "length (dc_layers c1) = length (dc_layers c)"
    "\<forall>l<length (dc_layers c). layer_ready [] ?pre (Max (set ?pre) + res) w (cache_row c l) (dc_layers c1 ! l)"
    by (rule prepare_tree_ok[where z = "[]", OF C(1-3) cap w]) blast+
  obtain hidden kvs sources where P: "tree_pass E (gc_pad cfg) states c1 = (hidden, kvs, sources)" by (metis prod_cases3)
  have start: "\<forall>p \<in> set ?pre. p \<le> dc_tree_start c1" unfolding c1(4) by (simp add: Max_ge le_trans[OF _ le_add1])
  have old: "\<forall>l<en_layers E. \<forall>r<length states. \<forall>i<snd (states ! r). cache_row c1 l r ! i = cache_row c l r ! i"
    using c1(8) C(4) by (simp add: layer_ready_def cache_row_def)
  have scap: "dc_tree_start c1 \<le> dc_capacity c1" using c1(6) by simp
  note R = tree_pass_rows[OF ok c1(2,3,7) scap start old P w_def]
  have sh: "length hidden = length states" "\<And>r. r < length states \<Longrightarrow> length (hidden ! r) = w" "length kvs = en_layers E"
    "\<And>l. l < en_layers E \<Longrightarrow> length (kvs ! l) = length states \<and> (\<forall>r<length states. length (kvs ! l ! r) = w)"
    "length sources = 3" "\<And>h. h \<in> set sources \<Longrightarrow> map length h = replicate (length ?trees) w"
    using R(1) unfolding batch_shape_def
    by (auto dest: arg_cong[of _ _ length]) (metis length_map length_replicate nth_map nth_mem nth_replicate)+
  obtain ids pos where PK: "pack_trees (gc_pad cfg) states = (ids, pos, tree_widths ?trees, w)" by (simp add: pack_trees_eq w_def)
  have zp: "zip ?trees ?pre = states" by (rule zip_map_fst_snd)
  obtain argm topks n accs where A: "project_tree_decisions (en_topk E) (int 1) (en_head E) w (tree_widths ?trees) hidden = Inr (argm, topks, n)"
    "accept_active_batch 1 ?trees ids argm topks sources = Inr accs" "length accs = length ?trees"
    "\<forall>i<length ?trees. \<exists>v. tree_verify (en_topk E) 1 (\<lambda>_ _ _ _. (row_logits (en_head E) (?trees ! i) (hidden ! i), [])) (?trees ! i) [] [] = Inr v
       \<and> matches_scalar (?trees ! i) v (accs ! i)"
  proof (rule accept_batch_ok[where head = "en_head E" and acc = 1 and trees = ?trees and plens = ?pre and pad = "gc_pad cfg"
        and hs = sources and hidden = hidden and K = "[]" and ctx = "[]" and cache = "[]" and topk = "en_topk E", unfolded zp, OF _ ret PK])
    show "1 \<le> length (en_head E h)" for h using head_ne[of h] by (cases "en_head E h") auto
  qed (use C(5) sh topk in auto)
  let ?mask = "map (\<lambda>(b, plen). map (\<lambda>q. map (mask_entry b plen (dc_tree_start c1) q) [0..<dc_tree_start c1 + w]) [0..<w]) states"
  have mk: "build_additive_mask states (dc_tree_start c1) w = Inr ?mask"
    using max_list_le_Max[OF C(3)] C(5) unfolding build_additive_mask_def c1(4) by simp
  have F: "en_tree E (cache_views c1) ids pos ?mask = (hidden, kvs, sources)"
    using P by (simp add: tree_pass_def Let_def PK w_def[symmetric])
  have kv: "length kvs = length (dc_layers c)" "\<And>l. l < length kvs \<Longrightarrow> length (kvs ! l) = length ?pre \<and> (\<forall>r<length ?pre. length (kvs ! l ! r) = w)"
    using sh(3,4) C(4) by auto
  note round = cache_round_ok[where z = "[]", OF C(1-3) cap w kv]
  have cp: "tree_cache_position (int w) c1 = Inr [dc_tree_start c1..<dc_tree_start c1 + w]"
    using c1(5) by (simp add: tree_cache_position_def)
  have "keep_ok c ?pre w res []" by (simp add: keep_ok_def)
  then obtain c2 where c2: "forward_updates [] (Some [dc_tree_start c1..<dc_tree_start c1 + w]) (enumerate 0 kvs) c1 = Inr c2"
    using round[of "[]"] c1(1) by (metis Inr_inject)
  have V: "verify_round E cfg states c = Inr (accs, c2)"
  proof -
    have pre: "map (\<lambda>(_, plen). int plen) states = map int ?pre" by auto
    show ?thesis
      unfolding verify_round_def PK prod.case Let_def res_def[symmetric] pre c1(1) res_bind_simps cp mk cfg F c2
      using A(1,2) by simp
  qed
  have rows: "ac_tokens (accs ! j) @ [ac_next (accs ! j)] = greedy_decode tgt (ctxs ! j @ [tb_tokens (fst (states ! j)) ! 0]) (Suc (ac_length (accs ! j)))"
    "length (ac_tokens (accs ! j)) = ac_length (accs ! j)" "length (ac_path (accs ! j)) = Suc (ac_length (accs ! j))"
    "\<forall>x \<in> set (ac_path (accs ! j)). 0 \<le> x \<and> nat x < w" "length (ac_path (accs ! j)) \<le> res"
    "\<forall>l<en_layers E. valid_cache (take (length (ctxs ! j)) (cache_row c l j) @ map (\<lambda>x. kvs ! l ! j ! nat x) (ac_path (accs ! j)))
        (ctxs ! j @ tb_tokens (fst (states ! j)) ! 0 # ac_tokens (accs ! j))" if j: "j < length states" for j
  proof -
    let ?b = "fst (states ! j)" and ?L = "row_logits (en_head E) (fst (states ! j)) (hidden ! j)"
    have lt: "length (tb_tokens ?b) = length (pars ! j)" using st(1)[OF j] by (simp add: buf_for_def)
    have L: "length ?L = length (pars ! j)"
      "\<forall>i<length (pars ! j). ?L ! i = tgt (ctxs ! j @ map (\<lambda>q. tb_tokens ?b ! q) (root_path (pars ! j) i))"
      using lt wl[OF j] sh(2)[OF j] R(2)[OF j] by (simp_all add: row_logits_def)
    obtain v where v: "tree_verify (en_topk E) 1 (\<lambda>_ _ _ _. (?L, [])) ?b [] [] = Inr v" "matches_scalar ?b v (accs ! j)"
      using A(4) j by auto
    note X = accepted_row[OF st(1)[OF j] tgt_ne L v]
    show "ac_tokens (accs ! j) @ [ac_next (accs ! j)] = greedy_decode tgt (ctxs ! j @ [tb_tokens ?b ! 0]) (Suc (ac_length (accs ! j)))"
      "length (ac_tokens (accs ! j)) = ac_length (accs ! j)" "length (ac_path (accs ! j)) = Suc (ac_length (accs ! j))"
      by (rule X(1-3))+
    show "\<forall>x \<in> set (ac_path (accs ! j)). 0 \<le> x \<and> nat x < w" using X(4) lt wl[OF j] by auto
    have "retrieve_width ?b \<le> max_list (map (\<lambda>(b, _). retrieve_width b) states)"
      using j by (intro max_list_ge) (auto simp: case_prod_unfold)
    then show "length (ac_path (accs ! j)) \<le> res" unfolding res_def using X(5,6) lt wl[OF j] by linarith
    show "\<forall>l<en_layers E. valid_cache (take (length (ctxs ! j)) (cache_row c l j) @ map (\<lambda>x. kvs ! l ! j ! nat x) (ac_path (accs ! j)))
        (ctxs ! j @ tb_tokens ?b ! 0 # ac_tokens (accs ! j))"
    proof (intro allI impI X(7))
      fix l assume l: "l < en_layers E"
      show "valid_cache (take (length (ctxs ! j)) (cache_row c l j)) (ctxs ! j)" by (rule st(3)[OF j l])
      show "kvs ! l ! j ! i = ctxs ! j @ map (\<lambda>q. tb_tokens ?b ! q) (root_path (pars ! j) i)" if "i < length (pars ! j)" for i
        using R(2)[OF j that] l by blast
    qed
  qed
  have "commits_extend (en_layers E) c c2 states ctxs accs ks"
    if d: "distinct ks" and ks: "\<forall>j \<in> set ks. j < length states
        \<and> length (ctxs ! j) + length (ac_path (accs ! j)) \<le> dc_committed_capacity c" for ks
  proof -
    define keep where "keep = map (\<lambda>j. (j, map nat (ac_path (accs ! j)))) ks"
    have kp: "keep_ok c ?pre w res keep"
      using d ks rows(4,5) C(2) st(2) by (auto simp: keep_ok_def keep_def comp_def)
    obtain c1' c2' c3 c4 where Q: "prepare_tree [] (int w) (map int ?pre) (int res) c = Inr c1'"
      "tree_cache_position (int w) c1' = Inr [dc_tree_start c1'..<dc_tree_start c1' + w]"
      "forward_updates [] (Some [dc_tree_start c1'..<dc_tree_start c1' + w]) (enumerate 0 kvs) c1' = Inr c2'"
      "commit_paths (round_requests ?pre keep) c2' = Inr (c3, map (\<lambda>(r, sel). length sel) keep)"
      "compact_cache_rows (map fst keep) c3 = Inr c4" "cache_ok c4" "dc_active c4 = length keep"
      "dc_max_batch c4 = dc_max_batch c" "dc_committed_capacity c4 = dc_committed_capacity c"
      "dc_capacity c \<le> dc_capacity c4" "length (dc_layers c4) = length (dc_layers c)"
      "\<forall>l<length (dc_layers c). \<forall>j<length keep. case keep ! j of (r, sel) \<Rightarrow>
         take (?pre ! r + length sel) (cache_row c4 l j) = take (?pre ! r) (cache_row c l r) @ map (\<lambda>s. kvs ! l ! r ! s) sel"
      by (rule cache_round_ok[where z = "[]", OF C(1-3) cap w kv kp])
    have same: "c1' = c1" "c2' = c2" using Q(1,3) c1(1) c2 by auto
    have rq: "round_requests ?pre keep = map (\<lambda>j. (int j, int (snd (states ! j)), ac_path (accs ! j))) ks"
      using ks rows(4) by (auto simp: round_requests_def keep_def map_idI)
    have kf: "map fst keep = ks" "length keep = length ks" by (simp_all add: keep_def comp_def)
    have val: "valid_cache (take (length (ctxs ! (ks ! i)) + length (ac_path (accs ! (ks ! i)))) (cache_row c4 l i))
        (ctxs ! (ks ! i) @ tb_tokens (fst (states ! (ks ! i))) ! 0 # ac_tokens (accs ! (ks ! i)))"
      if l: "l < en_layers E" and i: "i < length ks" for l i
    proof -
      have j: "ks ! i < length states" using ks i by simp
      show ?thesis using Q(12)[rule_format, of l i] rows(6)[OF j] l i C(4) j st(2)[OF j] by (simp add: keep_def comp_def)
    qed
    have "dc_active c4 = length ks" "length (dc_layers c4) = en_layers E" using Q(7,11) C(4) kf(2) by simp_all
    then show ?thesis unfolding commits_extend_def
      using Q(4,5)[unfolded same rq kf] Q(6,9,10) val by blast
  qed
  then show ?thesis using A(3) rows(1-3) by (intro that[OF V]) (auto simp: row_accepts_def)
qed

end

section \<open>Drafting after a round\<close>

lemma positions_facts: "distinct (positions P xs)" "j \<in> set (positions P xs) \<longleftrightarrow> j < length xs \<and> P (xs ! j)"
  by (auto simp: positions_def)

text \<open>The draft cache of a request grows by the accepted path, or is rolled back and rewritten.\<close>

lemma build_next_drafts_ok:
  assumes ne: "pairs \<noteq> []" and len: "length (db_lengths dc) = length pairs"
    and K: "\<forall>j<length pairs. K \<le> db_lengths dc ! j"
    and cap: "\<forall>j<length pairs. db_lengths dc ! j
      + (if ac_length (snd (pairs ! j)) = 0 then 0 else (ac_length (snd (pairs ! j)) + 1) * K) \<le> db_cap dc"
  obtains dc' where "db_cap dc' = db_cap dc" "length (db_lengths dc') = length pairs"
    "\<forall>j<length pairs. db_lengths dc' ! j = db_lengths dc ! j
      + (if ac_length (snd (pairs ! j)) = 0 then 0 else (ac_length (snd (pairs ! j)) + 1) * K)"
    "build_next_drafts E K pairs dc d = res_bind (en_draft E d (map (\<lambda>(r, a). next_draft_request r a) pairs))
       (\<lambda>(trees, d'). Inr (map (\<lambda>((r, a), b). set_drafted r a b) (zip pairs trees), dc', d'))"
proof -
  let ?rb = "positions (\<lambda>(r, a). ac_length a = 0) pairs" and ?in = "map (\<lambda>(r, a). next_draft_input r a) pairs"
  let ?starts = "map (\<lambda>(_, _, s, _). s) ?in" and ?valid = "map (\<lambda>(_, _, _, v). v) ?in"
  have rb: "j \<in> set ?rb \<longleftrightarrow> j < length pairs \<and> ac_length (snd (pairs ! j)) = 0" for j
    by (simp add: positions_facts(2) case_prod_unfold)
  have "\<forall>r \<in> set ?rb. r < length (db_lengths dc) \<and> K \<le> db_lengths dc ! r" using K len by (auto simp: rb)
  then obtain dc1 where D: "rollback_rows ?rb K dc = Inr dc1" "db_cap dc1 = db_cap dc" "length (db_lengths dc1) = length (db_lengths dc)"
    "\<forall>j<length (db_lengths dc). db_lengths dc1 ! j = (if j \<in> set ?rb then db_lengths dc ! j - K else db_lengths dc ! j)"
    using rollback_rows_ok[OF positions_facts(1)] by blast
  have v: "?valid ! j = (if ac_length (snd (pairs ! j)) = 0 then 1 else ac_length (snd (pairs ! j)) + 1)" if "j < length pairs" for j
    using that by (simp add: next_draft_input_def case_prod_unfold)
  have vp: "\<forall>x \<in> set ?valid. 0 < x" by (auto simp: next_draft_input_def case_prod_unfold)
  have new: "db_lengths dc1 ! j + ?valid ! j * K = db_lengths dc ! j
      + (if ac_length (snd (pairs ! j)) = 0 then 0 else (ac_length (snd (pairs ! j)) + 1) * K)" if "j < length pairs" for j
    using that D(4) len K v[OF that] by (simp add: positions_facts(2) case_prod_unfold)
  have rf: "ragged_forward K [length pairs, length pairs] ?starts ?valid dc1 = Inr (length pairs)"
    using ragged_forward_ok[of "[length pairs, length pairs]" ?valid ?starts dc1 K] vp new cap D(2,3) len ne by simp
  let ?dc2 = "dc1\<lparr>db_layers := en_store E (db_layers dc1) (take (length pairs) (map (\<lambda>(_, toks, _, v). take v toks) ?in)),
      db_lengths := map (\<lambda>(n, v). n + v * K) (zip (db_lengths dc1) ?valid)\<rparr>"
  have ad: "draft_advance ?valid K (dc1\<lparr>db_layers := en_store E (db_layers dc1) (take (length pairs) (map (\<lambda>(_, toks, _, v). take v toks) ?in))\<rparr>)
      = Inr ?dc2" using D(3) len by (simp add: draft_advance_def active_batch_size_def)
  show ?thesis
  proof (rule that[of ?dc2])
    show "\<forall>j<length pairs. db_lengths ?dc2 ! j = db_lengths dc ! j
        + (if ac_length (snd (pairs ! j)) = 0 then 0 else (ac_length (snd (pairs ! j)) + 1) * K)"
      using new D(3) len by simp
    show "build_next_drafts E K pairs dc d = res_bind (en_draft E d (map (\<lambda>(r, a). next_draft_request r a) pairs))
       (\<lambda>(trees, d'). Inr (map (\<lambda>((r, a), b). set_drafted r a b) (zip pairs trees), ?dc2, d'))"
      unfolding build_next_drafts_def Let_def D(1) res_bind_simps rf ad by (rule refl)
  qed (use D len in simp_all)
qed

section \<open>The output of a request\<close>

lemma take_eos_prefix: "take_eos eos xs = take (length (take_eos eos xs)) xs"
  by (induction xs) auto

text \<open>One round extends a greedy output greedily, and a finished request is complete.\<close>

lemma step_request_greedy:
  assumes op: "open_request eos max_new t r" and out: "rq_output r = greedy_decode tgt p (length (rq_output r))"
    and acc: "ac_tokens a @ [ac_next a] = greedy_decode tgt (p @ rq_output r) (Suc A)"
  defines "r' \<equiv> step_request eos max_new r a"
  shows "rq_output r' = greedy_decode tgt p (length (rq_output r'))"
    "rq_finished r' \<Longrightarrow> rq_output r' = take_eos eos (greedy_decode tgt p max_new)"
proof -
  note o = step_request_output[OF op, of a]
  define rem where "rem = max_new - length (rq_output r)"
  define X where "X = greedy_decode tgt (p @ rq_output r) (Suc A)"
  define D where "D = greedy_decode tgt (p @ rq_output r) rem"
  define taken where "taken = take_eos eos (take rem X)"
  have out': "rq_output r' = rq_output r @ taken" and fin: "rq_finished r' \<longleftrightarrow> max_new \<le> length (rq_output r @ taken)
      \<or> last taken \<in> set eos \<or> length taken < Suc A"
    using o(1,4) by (simp_all add: r'_def taken_def rem_def X_def acc del: greedy_decode.simps)
  have noeos: "set (rq_output r) \<inter> set eos = {}" and lt: "length (rq_output r) < max_new" using op by (auto simp: open_request_def)
  have G: "greedy_decode tgt p max_new = rq_output r @ D"
    using greedy_decode_add[of tgt p "length (rq_output r)" rem] lt out by (simp add: D_def rem_def)
  have tX: "take rem X = take (min rem (Suc A)) D"
  proof (cases "rem \<le> Suc A")
    case True
    then show ?thesis unfolding X_def D_def take_greedy_decode[OF True] by simp
  next
    case False
    then have le: "Suc A \<le> rem" by simp
    have "take rem X = X" using le by (simp add: X_def del: greedy_decode.simps)
    also have "\<dots> = take (Suc A) D" unfolding X_def D_def take_greedy_decode[OF le] by (rule refl)
    finally show ?thesis using le by (simp add: min_absorb2)
  qed
  have "taken = take (length taken) (take rem X)" unfolding taken_def by (rule take_eos_prefix)
  then obtain n where n: "taken = take n D" unfolding tX take_take by blast
  have "greedy_decode tgt p max_new = rq_output r' @ drop n D" unfolding G out' n by simp
  then have "rq_output r' = take (length (rq_output r')) (greedy_decode tgt p max_new)" by simp
  also have "\<dots> = greedy_decode tgt p (length (rq_output r'))"
    using o(1,3) by (intro take_greedy_decode) (simp add: r'_def)
  finally show "rq_output r' = greedy_decode tgt p (length (rq_output r'))" .
  have goal: "taken = take_eos eos D" if f: "rq_finished r'"
  proof (cases "rem \<le> Suc A")
    case True
    then show ?thesis unfolding taken_def tX by (simp add: D_def min_absorb1)
  next
    case False
    then have tk: "taken = take_eos eos (take (Suc A) D)" unfolding taken_def tX by (simp add: min_absorb2)
    have DX: "D = take (Suc A) D @ drop (Suc A) D" and lX: "length (take (Suc A) D) = Suc A" using False by (simp_all add: D_def)
    show ?thesis
    proof (cases "set (take (Suc A) D) \<inter> set eos = {}")
      case True
      then have t: "taken = take (Suc A) D" unfolding tk by (rule take_eos_id)
      have "last taken \<in> set (take (Suc A) D)" unfolding t by (rule last_in_set) (use lX in auto)
      moreover have "length (rq_output r @ taken) < max_new" unfolding t length_append lX using False by (simp add: rem_def)
      ultimately show ?thesis using f True lX unfolding fin t by auto
    next
      case nx: False
      then show ?thesis unfolding tk by (subst (2) DX) (simp only: take_eos_append if_False)
    qed
  qed
  show "rq_output r' = take_eos eos (greedy_decode tgt p max_new)" if "rq_finished r'"
    unfolding out' G goal[OF that] take_eos_append if_P[OF noeos] by (rule refl)
qed

section \<open>The invariant of lossless decoding\<close>

text \<open>
  The drafting contract: every request gets one well-formed tree that starts at its root
  token.  Nothing is assumed about the drafted tokens.
\<close>

locale batch_decoder = batch_model E tgt
  for E :: "('h, 'l::linorder, 'd, 'k) engine" and tgt :: "token list \<Rightarrow> 'l list" +
  assumes drafted: "en_draft E d reqs = Inr (trees, d') \<Longrightarrow> length trees = length reqs
    \<and> (\<forall>i<length reqs. tb_tokens (trees ! i) ! 0 = dq_root (reqs ! i) \<and> (\<exists>par. buf_for par (trees ! i)))"

definition verify_states :: "('d, 'k) gen_state \<Rightarrow> (tree_buf \<times> nat) list" where
  "verify_states st = map (\<lambda>i. (the (rq_tree (gs_reqs st ! i)), rq_prefix (gs_reqs st ! i))) (gs_active st)"

definition verify_contexts :: "token list list \<Rightarrow> ('d, 'k) gen_state \<Rightarrow> token list list" where
  "verify_contexts prompts st = map (\<lambda>i. prompts ! i @ butlast (rq_output (gs_reqs st ! i))) (gs_active st)"

definition outputs_inv ::
  "(token list \<Rightarrow> 'l::linorder list) \<Rightarrow> token list \<Rightarrow> token list list \<Rightarrow> nat \<Rightarrow> ('d, 'k) gen_state \<Rightarrow> bool" where
  "outputs_inv tgt eos prompts max_new st \<longleftrightarrow> length (gs_reqs st) = length prompts
     \<and> (\<forall>i<length prompts. rq_output (gs_reqs st ! i) = greedy_decode tgt (prompts ! i) (length (rq_output (gs_reqs st ! i)))
          \<and> (i \<notin> set (gs_active st) \<longrightarrow> rq_output (gs_reqs st ! i) = take_eos eos (greedy_decode tgt (prompts ! i) max_new)))"

definition caches_inv :: "nat \<Rightarrow> nat \<Rightarrow> token list list \<Rightarrow> nat \<Rightarrow> ('d, 'k) gen_state \<Rightarrow> bool" where
  "caches_inv layers K prompts max_new st \<longleftrightarrow>
     (\<exists>pars. states_ok layers (gs_cache st) (verify_states st) (verify_contexts prompts st) pars)
     \<and> length (db_lengths (gs_dcache st)) = length (gs_active st)
     \<and> (\<forall>j<length (gs_active st). let i = gs_active st ! j; r = gs_reqs st ! i; n = db_lengths (gs_dcache st) ! j in
          tb_tokens (the (rq_tree r)) ! 0 = last (rq_output r)
          \<and> length (prompts ! i) + max_new \<le> dc_committed_capacity (gs_cache st)
          \<and> (length (prompts ! i) + max_new) * K \<le> db_cap (gs_dcache st)
          \<and> K \<le> n \<and> n \<le> (length (prompts ! i) + length (rq_output r)) * K)"

text \<open>The updated requests of a round, by position in the batch.\<close>

lemma round_step_nth:
  assumes "length accs = length (gs_active st)" "j < length (gs_active st)"
  shows "round_step eos max_new st accs ! j = step_request eos max_new (gs_reqs st ! (gs_active st ! j)) (accs ! j)"
    "length (round_step eos max_new st accs) = length (gs_active st)"
  using assms by (simp_all add: round_step_def)

text \<open>Outputs after a round, whatever the survivors' new trees are.\<close>

lemma outputs_round:
  assumes inv: "outputs_inv tgt eos prompts max_new st" and b: "batch_inv eos max_new t st"
    and accs: "length accs = length (gs_active st)"
      "\<forall>j<length (gs_active st). ac_tokens (accs ! j) @ [ac_next (accs ! j)] = greedy_decode tgt
          (prompts ! (gs_active st ! j) @ rq_output (gs_reqs st ! (gs_active st ! j))) (Suc (ac_length (accs ! j)))"
    and act: "gs_active st' = map (\<lambda>j. gs_active st ! j) (surviving (round_step eos max_new st accs))"
    and reqs: "length (gs_reqs st') = length (gs_reqs st)" "\<And>i. rq_output (gs_reqs st' ! i)
      = rq_output (put_rows (gs_active st) (round_step eos max_new st accs) (gs_reqs st) ! i)"
  shows "outputs_inv tgt eos prompts max_new st'"
proof -
  let ?act = "gs_active st" and ?new = "round_step eos max_new st accs"
  have D: "distinct ?act" "set ?act \<subseteq> {..<length (gs_reqs st)}" using b by (simp_all add: batch_inv_def)
  have L: "length (gs_reqs st) = length prompts" using inv by (simp add: outputs_inv_def)
  have "rq_output (gs_reqs st' ! i) = greedy_decode tgt (prompts ! i) (length (rq_output (gs_reqs st' ! i)))
      \<and> (i \<notin> set (gs_active st') \<longrightarrow> rq_output (gs_reqs st' ! i) = take_eos eos (greedy_decode tgt (prompts ! i) max_new))"
    if i: "i < length prompts" for i
  proof (cases "i \<in> set ?act")
    case False
    then have "rq_output (gs_reqs st' ! i) = rq_output (gs_reqs st ! i)" using reqs(2) by (simp add: put_rows_other)
    then show ?thesis using inv i False unfolding outputs_inv_def by metis
  next
    case True
    then obtain j where j: "j < length ?act" "i = ?act ! j" by (auto simp: in_set_conv_nth)
    have op: "open_request eos max_new t (gs_reqs st ! i)" using b True by (simp add: batch_inv_def)
    have out: "rq_output (gs_reqs st ! i) = greedy_decode tgt (prompts ! i) (length (rq_output (gs_reqs st ! i)))"
      using inv i by (simp add: outputs_inv_def)
    have new: "?new ! j = step_request eos max_new (gs_reqs st ! i) (accs ! j)" using round_step_nth(1)[OF accs(1) j(1)] j(2) by simp
    have eq: "rq_output (gs_reqs st' ! i) = rq_output (?new ! j)"
      using reqs(2) put_rows_nth[OF D j(1), of ?new] j accs(1) by (simp add: round_step_def)
    have "j \<in> set (surviving ?new) \<Longrightarrow> i \<in> set (gs_active st')" using act j by auto
    then have fin: "i \<notin> set (gs_active st') \<Longrightarrow> rq_finished (?new ! j)"
      using surviving_facts(2)[of j ?new] j(1) round_step_nth(2)[OF accs(1) j(1)] by auto
    note g = step_request_greedy[OF op out accs(2)[rule_format, OF j(1), folded j(2)]]
    show ?thesis using g fin unfolding eq new by blast
  qed
  then show ?thesis using L reqs(1) by (simp add: outputs_inv_def)
qed

context batch_decoder
begin

lemma lossless_round:
  assumes out: "outputs_inv tgt (gc_eos cfg) prompts max_new st" and ca: "caches_inv (en_layers E) (gc_K cfg) prompts max_new st"
    and b: "batch_inv (gc_eos cfg) max_new t st" and act: "gs_active st \<noteq> []" and t: "1 \<le> t"
    and cfg: "gc_accept_topk cfg = 1" "backbone_guard (en_layers E) (gc_hidden_indices cfg) = Inr ()"
  shows "case decode_round E cfg max_new st of Inl e \<Rightarrow> \<exists>d reqs. en_draft E d reqs = Inl e
    | Inr st' \<Rightarrow> outputs_inv tgt (gc_eos cfg) prompts max_new st'
        \<and> (gs_active st' \<noteq> [] \<longrightarrow> caches_inv (en_layers E) (gc_K cfg) prompts max_new st')"
proof -
  let ?eos = "gc_eos cfg" and ?act = "gs_active st" and ?S = "verify_states st" and ?X = "verify_contexts prompts st"
  let ?r = "\<lambda>j. gs_reqs st ! (?act ! j)" and ?p = "\<lambda>j. prompts ! (?act ! j)" and ?K = "gc_K cfg"
  have L: "length ?S = length ?act" "length ?X = length ?act" by (simp_all add: verify_states_def verify_contexts_def)
  have S: "?S ! j = (the (rq_tree (?r j)), rq_prefix (?r j))" "?X ! j = ?p j @ butlast (rq_output (?r j))" if "j < length ?act" for j
    using that by (simp_all add: verify_states_def verify_contexts_def)
  obtain pars where so: "states_ok (en_layers E) (gs_cache st) ?S ?X pars" using ca by (auto simp: caches_inv_def)
  have cj: "tb_tokens (the (rq_tree (?r j))) ! 0 = last (rq_output (?r j))"
    "length (?p j) + max_new \<le> dc_committed_capacity (gs_cache st)"
    "(length (?p j) + max_new) * ?K \<le> db_cap (gs_dcache st)"
    "?K \<le> db_lengths (gs_dcache st) ! j" "db_lengths (gs_dcache st) ! j \<le> (length (?p j) + length (rq_output (?r j))) * ?K"
    if "j < length ?act" for j
    using ca that by (simp_all add: caches_inv_def Let_def)
  have op: "open_request ?eos max_new t (?r j)" if "j < length ?act" for j using b that by (simp add: batch_inv_def)
  have one: "rq_output (?r j) \<noteq> []" if "j < length ?act" for j using op[OF that] t by (auto simp: open_request_def)
  have pre: "rq_prefix (?r j) = length (?X ! j)" if "j < length ?act" for j using so that L S by (simp add: states_ok_def)
  have root: "?X ! j @ [tb_tokens (fst (?S ! j)) ! 0] = ?p j @ rq_output (?r j)" if "j < length ?act" for j
    using S[OF that] cj(1)[OF that] one[OF that] by simp
  obtain accs c2 where V: "verify_round E cfg ?S (gs_cache st) = Inr (accs, c2)" "length accs = length ?S"
    "\<forall>j<length ?S. row_accepts tgt (fst (?S ! j)) (?X ! j) (accs ! j)"
    "\<forall>ks. distinct ks \<and> (\<forall>j \<in> set ks. j < length ?S
        \<and> length (?X ! j) + length (ac_path (accs ! j)) \<le> dc_committed_capacity (gs_cache st))
      \<longrightarrow> commits_extend (en_layers E) (gs_cache st) c2 ?S ?X accs ks"
    by (rule verify_round_ok[OF so cfg])
  have la: "length accs = length ?act" using V(2) L by simp
  have greedy: "\<forall>j<length ?act. ac_tokens (accs ! j) @ [ac_next (accs ! j)]
      = greedy_decode tgt (?p j @ rq_output (?r j)) (Suc (ac_length (accs ! j)))"
    and lens: "\<And>j. j < length ?act \<Longrightarrow> length (ac_tokens (accs ! j)) = ac_length (accs ! j)"
      "\<And>j. j < length ?act \<Longrightarrow> length (ac_path (accs ! j)) = Suc (ac_length (accs ! j))"
    using V(3) root L by (auto simp: row_accepts_def simp del: greedy_decode.simps)
  define new where "new = round_step ?eos max_new st accs"
  define ks where "ks = surviving new"
  have newj: "new ! j = step_request ?eos max_new (?r j) (accs ! j)" if "j < length ?act" for j
    unfolding new_def by (rule round_step_nth(1)[OF la that])
  have ksj: "j < length ?act" "\<not> rq_finished (new ! j)" if "j \<in> set ks" for j
    using that surviving_facts(2)[of j new] la by (auto simp: ks_def new_def round_step_def)
  have so': "open_request ?eos max_new (Suc t) (new ! j)"
    "rq_output (new ! j) = rq_output (?r j) @ ac_tokens (accs ! j) @ [ac_next (accs ! j)]"
    "rq_prefix (new ! j) = rq_prefix (?r j) + length (ac_path (accs ! j))" if "j \<in> set ks" for j
  proof -
    note k = ksj[OF that]
    have nf: "\<not> rq_finished (step_request ?eos max_new (?r j) (accs ! j))" using k newj by simp
    note q = step_request_open[OF op[OF k(1)] nf]
    show "open_request ?eos max_new (Suc t) (new ! j)" "rq_output (new ! j) = rq_output (?r j) @ ac_tokens (accs ! j) @ [ac_next (accs ! j)]"
      using q newj[OF k(1)] by simp_all
    show "rq_prefix (new ! j) = rq_prefix (?r j) + length (ac_path (accs ! j))"
      using nf unfolding newj[OF k(1)] by (auto simp: step_request_def Let_def split: if_splits)
  qed
  have fit: "length (rq_output (?r j)) + Suc (ac_length (accs ! j)) < max_new" if "j \<in> set ks" for j
    using so'(1,2)[OF that] lens(1)[OF ksj(1)[OF that]] by (simp add: open_request_def)
  have xl: "length (?X ! j) + length (ac_path (accs ! j)) = length (?p j) + length (rq_output (?r j)) + ac_length (accs ! j)"
    if "j < length ?act" for j using S(2)[OF that] one[OF that] lens(2)[OF that] by (cases "rq_output (?r j)") simp_all
  have kd: "distinct ks" by (simp add: ks_def surviving_facts(1))
  have "commits_extend (en_layers E) (gs_cache st) c2 ?S ?X accs ks"
    using V(4)[rule_format, of ks] kd ksj(1) L xl fit cj(2) by (fastforce dest: less_imp_le)
  then obtain c3 cnt c4 where C: "commit_paths (map (\<lambda>j. (int j, int (snd (?S ! j)), ac_path (accs ! j))) ks) c2 = Inr (c3, cnt)"
    "compact_cache_rows ks c3 = Inr c4" "cache_ok c4" "dc_active c4 = length ks" "length (dc_layers c4) = en_layers E"
    "dc_committed_capacity c4 = dc_committed_capacity (gs_cache st)" "dc_capacity (gs_cache st) \<le> dc_capacity c4"
    "\<forall>l<en_layers E. \<forall>i<length ks. valid_cache
          (take (length (?X ! (ks ! i)) + length (ac_path (accs ! (ks ! i)))) (cache_row c4 l i))
          (?X ! (ks ! i) @ tb_tokens (fst (?S ! (ks ! i))) ! 0 # ac_tokens (accs ! (ks ! i)))"
    unfolding commits_extend_def by blast
  define reqs1 where "reqs1 = put_rows ?act new (gs_reqs st)"
  define st1 where "st1 = st\<lparr>gs_reqs := reqs1, gs_sizes := gs_sizes st @ [length ?act]\<rparr>"
  have vs: "map (\<lambda>r. (the (rq_tree r), rq_prefix r)) (map (\<lambda>i. gs_reqs st ! i) ?act) = ?S"
    by (simp add: verify_states_def comp_def)
  have cm: "map (\<lambda>j. (int j, int (rq_prefix (map (\<lambda>i. gs_reqs st ! i) ?act ! j)), ac_path (accs ! j))) ks
      = map (\<lambda>j. (int j, int (snd (?S ! j)), ac_path (accs ! j))) ks"
    using ksj(1) S(1) by simp
  have D: "distinct ?act" "set ?act \<subseteq> {..<length (gs_reqs st)}" using b by (simp_all add: batch_inv_def)
  have l1: "length reqs1 = length (gs_reqs st)" by (simp add: reqs1_def)
  have at1: "reqs1 ! (?act ! j) = new ! j" if "j < length ?act" for j
    using put_rows_nth[OF D that, of new] that la by (simp add: reqs1_def new_def round_step_def)
  have outp: "outputs_inv tgt ?eos prompts max_new st'" if "gs_active st' = map (\<lambda>j. ?act ! j) ks"
    "length (gs_reqs st') = length (gs_reqs st)" "\<And>i. rq_output (gs_reqs st' ! i) = rq_output (reqs1 ! i)" for st' :: "('d, 'k) gen_state"
    using that unfolding reqs1_def ks_def new_def by (intro outputs_round[OF out b la greedy])
  show ?thesis
  proof (cases "ks = []")
    case True
    have "decode_round E cfg max_new st = Inr (st1\<lparr>gs_active := [], gs_cache := c3\<rparr>)"
      unfolding decode_round_def Let_def vs V(1) res_bind_simps prod.case new_def[symmetric] ks_def[symmetric] cm C(1)
      using True by (simp add: st1_def reqs1_def)
    then show ?thesis using outp[of "st1\<lparr>gs_active := [], gs_cache := c3\<rparr>"] True l1 by (simp add: st1_def)
  next
    case False
    have "\<forall>i \<in> set ks. i < length (db_lengths (gs_dcache st))" using ksj(1) ca by (simp add: caches_inv_def)
    from draft_compact_lengths[OF this] obtain dc1 where dc1: "draft_compact_rows ks (gs_dcache st) = Inr dc1"
      "db_lengths dc1 = map (\<lambda>i. db_lengths (gs_dcache st) ! i) ks" "db_cap dc1 = db_cap (gs_dcache st)" by blast
    define pairs where "pairs = map (\<lambda>j. (new ! j, accs ! j)) ks"
    have grow: "db_lengths dc1 ! i + (if ac_length (snd (pairs ! i)) = 0 then 0 else (ac_length (snd (pairs ! i)) + 1) * ?K)
        \<le> (length (?p (ks ! i)) + length (rq_output (new ! (ks ! i)))) * ?K" if "i < length ks" for i
    proof -
      have j: "ks ! i \<in> set ks" using that by simp
      have "length (rq_output (new ! (ks ! i))) = length (rq_output (?r (ks ! i))) + Suc (ac_length (accs ! (ks ! i)))"
        using so'(2)[OF j] lens(1)[OF ksj(1)[OF j]] by simp
      moreover have "db_lengths dc1 ! i \<le> (length (?p (ks ! i)) + length (rq_output (?r (ks ! i)))) * ?K"
        using cj(5)[OF ksj(1)[OF j]] dc1(2) that by simp
      ultimately show ?thesis using that by (simp add: pairs_def algebra_simps)
    qed
    have room: "(length (?p (ks ! i)) + length (rq_output (new ! (ks ! i)))) * ?K \<le> db_cap dc1" if "i < length ks" for i
    proof -
      have j: "ks ! i \<in> set ks" using that by simp
      have "length (?p (ks ! i)) + length (rq_output (new ! (ks ! i))) \<le> length (?p (ks ! i)) + max_new"
        using so'(1)[OF j] by (simp add: open_request_def)
      then have "(length (?p (ks ! i)) + length (rq_output (new ! (ks ! i)))) * ?K \<le> (length (?p (ks ! i)) + max_new) * ?K"
        by (rule mult_le_mono1)
      from order.trans[OF this cj(3)[OF ksj(1)[OF j]]] show ?thesis unfolding dc1(3) .
    qed
    have pne: "pairs \<noteq> []" "length (db_lengths dc1) = length pairs" "length pairs = length ks"
      using False dc1(2) by (simp_all add: pairs_def)
    have pK: "\<forall>i<length pairs. ?K \<le> db_lengths dc1 ! i" using cj(4) ksj(1) dc1(2) pne(3) by simp
    have pcap: "\<forall>i<length pairs. db_lengths dc1 ! i + (if ac_length (snd (pairs ! i)) = 0 then 0 else (ac_length (snd (pairs ! i)) + 1) * ?K) \<le> db_cap dc1"
      unfolding pne(3) by (intro allI impI order.trans[OF grow room])
    obtain dc' where dc': "db_cap dc' = db_cap dc1" "length (db_lengths dc') = length pairs"
      "\<forall>i<length pairs. db_lengths dc' ! i = db_lengths dc1 ! i
         + (if ac_length (snd (pairs ! i)) = 0 then 0 else (ac_length (snd (pairs ! i)) + 1) * ?K)"
      "build_next_drafts E ?K pairs dc1 (gs_dstate st) = res_bind (en_draft E (gs_dstate st) (map (\<lambda>(r, a). next_draft_request r a) pairs))
         (\<lambda>(trees, d'). Inr (map (\<lambda>((r, a), b). set_drafted r a b) (zip pairs trees), dc', d'))"
      by (rule build_next_drafts_ok[where E = E and d = "gs_dstate st", OF pne(1,2) pK pcap])
    have dec: "decode_round E cfg max_new st = res_bind (en_draft E (gs_dstate st) (map (\<lambda>(r, a). next_draft_request r a) pairs))
        (\<lambda>(trees, d'). Inr (st1\<lparr>gs_reqs := put_rows (map (\<lambda>j. ?act ! j) ks) (map (\<lambda>((r, a), b). set_drafted r a b) (zip pairs trees)) reqs1,
            gs_active := map (\<lambda>j. ?act ! j) ks, gs_cache := c4, gs_dcache := dc', gs_dstate := d'\<rparr>))"
      unfolding decode_round_def Let_def vs V(1) res_bind_simps prod.case new_def[symmetric] ks_def[symmetric] cm C(1,2) if_not_P[OF False]
        dc1(1) pairs_def[symmetric] dc'(4)
      by (auto simp: res_bind_def st1_def reqs1_def split: sum.split)
    show ?thesis
    proof (cases "en_draft E (gs_dstate st) (map (\<lambda>(r, a). next_draft_request r a) pairs)")
      case (Inl e)
      then show ?thesis unfolding dec by auto
    next
      case (Inr td)
      obtain trees d' where td: "td = (trees, d')" by (cases td)
      define drafted where "drafted = map (\<lambda>((r, a), b). set_drafted r a b) (zip pairs trees)"
      define st' where "st' = st1\<lparr>gs_reqs := put_rows (map (\<lambda>j. ?act ! j) ks) drafted reqs1,
            gs_active := map (\<lambda>j. ?act ! j) ks, gs_cache := c4, gs_dcache := dc', gs_dstate := d'\<rparr>"
      have run: "decode_round E cfg max_new st = Inr st'" unfolding dec Inr td st'_def drafted_def by simp
      have tl: "length trees = length ks" and tr: "\<And>i. i < length ks \<Longrightarrow> tb_tokens (trees ! i) ! 0 = ac_next (accs ! (ks ! i))"
        "\<And>i. i < length ks \<Longrightarrow> \<exists>par. buf_for par (trees ! i)"
        using drafted[OF Inr[unfolded td]] pne(3) by (auto simp: pairs_def next_draft_request_def case_prod_unfold)
      obtain pars' where pars': "\<And>i. i < length ks \<Longrightarrow> buf_for (pars' i) (trees ! i)" using tr(2) by metis
      have dn: "drafted ! i = set_drafted (new ! (ks ! i)) (accs ! (ks ! i)) (trees ! i)" "length drafted = length ks" if "i < length ks" for i
        using that tl by (simp_all add: drafted_def pairs_def)
      have "set (map (\<lambda>j. ?act ! j) ks) \<subseteq> set ?act" using ksj(1) by auto
      then have da: "distinct (map (\<lambda>j. ?act ! j) ks)" "set (map (\<lambda>j. ?act ! j) ks) \<subseteq> {..<length reqs1}"
        using kd ksj(1) D l1 by (auto simp: distinct_map inj_on_def nth_eq_iff_index_eq)
      have req': "gs_reqs st' ! (?act ! (ks ! i)) = set_drafted (new ! (ks ! i)) (accs ! (ks ! i)) (trees ! i)" if "i < length ks" for i
        using put_rows_nth[OF da, of i drafted] dn that by (simp add: st'_def)
      have o1: "rq_output (gs_reqs st' ! i) = rq_output (reqs1 ! i)" for i
      proof (cases "i \<in> set (map (\<lambda>j. ?act ! j) ks)")
        case True
        then obtain k where k: "k < length ks" "i = ?act ! (ks ! k)" by (auto simp: in_set_conv_nth)
        show ?thesis using req'[OF k(1)] at1[OF ksj(1)[OF nth_mem[OF k(1)]]] k(2) by (simp add: set_drafted_def)
      qed (simp add: st'_def put_rows_other)
      have a': "gs_active st' = map (\<lambda>j. ?act ! j) ks" by (simp add: st'_def)
      have O: "outputs_inv tgt ?eos prompts max_new st'" by (rule outp[OF a' _ o1]) (simp add: st'_def l1)
      let ?S' = "verify_states st'" and ?X' = "verify_contexts prompts st'"
      have S': "?S' ! i = (trees ! i, length (?X ! (ks ! i)) + length (ac_path (accs ! (ks ! i))))"
        "?X' ! i = ?X ! (ks ! i) @ tb_tokens (fst (?S ! (ks ! i))) ! 0 # ac_tokens (accs ! (ks ! i))" if i: "i < length ks" for i
      proof -
        note k = nth_mem[OF i]
        show "?S' ! i = (trees ! i, length (?X ! (ks ! i)) + length (ac_path (accs ! (ks ! i))))"
          using i req'[OF i] so'(3)[OF k] pre[OF ksj(1)[OF k]] by (simp add: verify_states_def a' set_drafted_def)
        have "?X' ! i = ?p (ks ! i) @ rq_output (?r (ks ! i)) @ ac_tokens (accs ! (ks ! i))"
          using i req'[OF i] so'(2)[OF k] by (simp add: verify_contexts_def a' set_drafted_def butlast_append)
        then show "?X' ! i = ?X ! (ks ! i) @ tb_tokens (fst (?S ! (ks ! i))) ! 0 # ac_tokens (accs ! (ks ! i))"
          using root[OF ksj(1)[OF k]] by (metis append.assoc append_Cons append_Nil)
      qed
      have xl': "length (?X' ! i) = length (?X ! (ks ! i)) + length (ac_path (accs ! (ks ! i)))" if "i < length ks" for i
        using S'(2)[OF that] lens[OF ksj(1)[OF nth_mem[OF that]]] by simp
      have states: "states_ok (en_layers E) (gs_cache st') ?S' ?X' (map pars' [0..<length ks])"
      proof -
        have c': "gs_cache st' = c4" "length ?S' = length ks" by (simp_all add: st'_def verify_states_def)
        have le: "length (?X' ! i) \<le> dc_committed_capacity c4" if "i < length ks" for i
          using xl'[OF that] xl[OF ksj(1)[OF nth_mem[OF that]]] fit[OF nth_mem[OF that]] cj(2)[OF ksj(1)[OF nth_mem[OF that]]] C(6) by simp
        have vl: "valid_cache (take (length (?X' ! i)) (cache_row c4 l i)) (?X' ! i)" if "i < length ks" "l < en_layers E" for i l
          using C(8) that S'(2)[OF that(1)] xl'[OF that(1)] by simp
        have "dc_committed_capacity c4 \<le> dc_capacity c4" using so C(6,7) by (simp add: states_ok_def)
        moreover have "?S' \<noteq> []" using False c'(2) by auto
        moreover have "\<forall>j<length ks. buf_for (map pars' [0..<length ks] ! j) (fst (?S' ! j)) \<and> snd (?S' ! j) = length (?X' ! j)
          \<and> length (?X' ! j) \<le> dc_committed_capacity c4 \<and> (\<forall>l<en_layers E. valid_cache (take (length (?X' ! j)) (cache_row c4 l j)) (?X' ! j))"
          using S'(1) xl' le vl pars' by simp
        ultimately show ?thesis unfolding states_ok_def c' using C(3-5) by blast
      qed
      have each: "let i' = gs_active st' ! i; r = gs_reqs st' ! i'; n = db_lengths (gs_dcache st') ! i in
          tb_tokens (the (rq_tree r)) ! 0 = last (rq_output r)
          \<and> length (prompts ! i') + max_new \<le> dc_committed_capacity (gs_cache st')
          \<and> (length (prompts ! i') + max_new) * ?K \<le> db_cap (gs_dcache st')
          \<and> ?K \<le> n \<and> n \<le> (length (prompts ! i') + length (rq_output r)) * ?K" if i: "i < length ks" for i
      proof -
        note k = nth_mem[OF i]
        have ai: "gs_active st' ! i = ?act ! (ks ! i)" using i by (simp add: a')
        have "tb_tokens (trees ! i) ! 0 = last (rq_output (new ! (ks ! i)))" using tr(1)[OF i] so'(2)[OF k] by simp
        moreover have "db_lengths dc' ! i \<le> (length (?p (ks ! i)) + length (rq_output (new ! (ks ! i)))) * ?K"
          using dc'(3) grow[OF i] i pne(3) by simp
        moreover have "?K \<le> db_lengths dc' ! i" using dc'(3) pK i pne(3) by (simp add: trans_le_add1)
        ultimately show ?thesis
          using cj(2,3)[OF ksj(1)[OF k]] C(6) dc'(1) dc1(3) req'[OF i]
          by (simp add: Let_def ai set_drafted_def) (simp add: st'_def)
      qed
      have la': "length (db_lengths (gs_dcache st')) = length (gs_active st')" "length (gs_active st') = length ks"
        using dc'(2) pne(3) by (simp_all add: st'_def)
      have "caches_inv (en_layers E) ?K prompts max_new st'"
        unfolding caches_inv_def la'(2)
        by (intro conjI allI impI exI[of _ "map pars' [0..<length ks]"] states each) (simp add: la')
      then show ?thesis unfolding run using O by simp
    qed
  qed
qed

end

end
