(* ===== verification/Batch_Lossless.thy ===== *)
theory Batch_Lossless
  imports Batch_Round
begin

text \<open>
  Request-batched speculative decoding is lossless: every request of
  \<open>generate_conversations\<close> receives the greedy decoding of its own prompt, cut at the first
  end-of-sequence token.  The theory starts the invariant of a decoding round at the end of
  prefill, carries it through the loop and provides a reference engine that satisfies the
  contract.
\<close>

section \<open>Prefill\<close>

lemma valid_cache_upt: "n \<le> length xs \<Longrightarrow> length row = n \<Longrightarrow> \<forall>i<n. row ! i = take (Suc i) xs \<Longrightarrow> valid_cache row (take n xs)"
  unfolding valid_cache_def by (intro nth_equalityI) auto

context batch_decoder
begin

text \<open>The prefill pass: first tokens are the target's choices and every row holds its prompt.\<close>

lemma prefill_pass:
  assumes ne: "prompts \<noteq> []" "\<forall>p \<in> set prompts. p \<noteq> []" and pw: "pw = max_list (map length prompts)"
    and pass: "en_prefill E (map (pad_to pw pad) prompts) (map (\<lambda>p. pad_to pw False (replicate (length p) True)) prompts)
      (map (\<lambda>p. pad_to pw 0 [0..<length p]) prompts) = (hidden, kvs, sources)"
  obtains c1 where
    "forward_updates [] (Some [0..<pw]) (enumerate 0 kvs)
       (prepare_prefill (dense_init shared (en_layers E) (length prompts) pw max_new mtw)) = Inr c1"
    "map (\<lambda>(p, row). int (argmax_first (en_head E (row ! (length p - 1))))) (zip prompts hidden)
       = map (\<lambda>p. int (argmax_first (tgt p))) prompts"
    "cache_ok c1" "dc_active c1 = length prompts" "dc_max_batch c1 = length prompts" "dc_committed_capacity c1 = pw + max_new"
    "pw + max_new \<le> dc_capacity c1" "dc_committed c1 = pw" "length (dc_layers c1) = en_layers E"
    "\<forall>l<en_layers E. \<forall>r<length prompts. valid_cache (take (length (prompts ! r)) (cache_row c1 l r)) (prompts ! r)"
proof -
  let ?ids = "map (pad_to pw pad) prompts" and ?n = "length prompts"
  have le: "length (prompts ! r) \<le> pw" if "r < ?n" for r
    unfolding pw by (rule max_list_ge) (use that in auto)
  have "map length ?ids = replicate ?n pw" using le by (intro nth_equalityI) auto
  note sh = prefill_shape[OF this pass]
  have hid: "length hidden = ?n" using sh unfolding batch_shape_def by (metis length_map length_replicate)
  have kv: "length kvs = en_layers E" "\<And>l. l < en_layers E \<Longrightarrow> length (kvs ! l) = ?n \<and> (\<forall>r<?n. length (kvs ! l ! r) = pw)"
    using sh unfolding batch_shape_def by auto (metis length_map length_replicate nth_map nth_mem nth_replicate)+
  have row: "en_head E (hidden ! r ! i) = tgt (take (Suc i) (prompts ! r))
      \<and> (\<forall>l<en_layers E. kvs ! l ! r ! i = take (Suc i) (prompts ! r))" if r: "r < ?n" and i: "i < length (prompts ! r)" for r i
  proof -
    have idr: "?ids ! r = pad_to pw pad (prompts ! r)" "length (?ids ! r) = pw" using r le[OF r] by simp_all
    have "take (Suc i) (?ids ! r) = take (Suc i) (prompts ! r)" using i r by simp
    then show ?thesis
      using prefill_row[OF pass, of r "length (prompts ! r)" i] r i le[OF r] idr by simp
  qed
  have first: "map (\<lambda>(p, row). int (argmax_first (en_head E (row ! (length p - 1))))) (zip prompts hidden)
       = map (\<lambda>p. int (argmax_first (tgt p))) prompts"
  proof (rule nth_equalityI)
    fix r assume "r < length (map (\<lambda>(p, row). int (argmax_first (en_head E (row ! (length p - 1))))) (zip prompts hidden))"
    then have r: "r < ?n" by simp
    then have "0 < length (prompts ! r)" using ne(2) by simp
    then show "map (\<lambda>(p, row). int (argmax_first (en_head E (row ! (length p - 1))))) (zip prompts hidden) ! r
        = map (\<lambda>p. int (argmax_first (tgt p))) prompts ! r"
      using row[OF r, of "length (prompts ! r) - 1"] r hid by simp
  qed (simp add: hid)
  obtain c1 where c1: "forward_updates [] (Some [0..<pw]) (enumerate 0 kvs)
      (prepare_prefill (dense_init shared (en_layers E) ?n pw max_new mtw)) = Inr c1" "cache_ok c1"
    "dc_active c1 = ?n" "dc_max_batch c1 = ?n" "dc_committed_capacity c1 = pw + max_new"
    "dc_capacity c1 = pw + max_new + 2 * mtw" "dc_committed c1 = pw" "length (dc_layers c1) = en_layers E"
    "\<forall>l r. l < en_layers E \<longrightarrow> r < ?n \<longrightarrow> take pw (cache_row c1 l r) = kvs ! l ! r"
    by (rule prefill_ok[where z = "[]", OF refl kv]) (use ne(1) in auto)
  have "valid_cache (take (length (prompts ! r)) (cache_row c1 l r)) (prompts ! r)" if l: "l < en_layers E" and r: "r < ?n" for l r
  proof -
    have eq: "take (length (prompts ! r)) (cache_row c1 l r) = take (length (prompts ! r)) (kvs ! l ! r)"
      using c1(9)[rule_format, OF l r] le[OF r] by (metis min.absorb1 take_take)
    have "valid_cache (take (length (prompts ! r)) (kvs ! l ! r)) (take (length (prompts ! r)) (prompts ! r))"
      using row[OF r] l kv(2)[OF l] r le[OF r] by (intro valid_cache_upt) auto
    then show ?thesis unfolding eq by simp
  qed
  then show ?thesis using that[OF c1(1) first c1(2-5)] c1(6-8) by simp
qed

end

text \<open>The first request states, by position.\<close>

lemma first_requests_nth:
  "length firsts = length prompts \<Longrightarrow> i < length prompts \<Longrightarrow> first_requests cfg max_new prompts firsts ! i = new_request cfg max_new (prompts ! i) (firsts ! i)"
  "length firsts = length prompts \<Longrightarrow> length (first_requests cfg max_new prompts firsts) = length prompts"
  by (simp_all add: first_requests_def)

lemma greedy_decode_one: "0 < n \<Longrightarrow> greedy_decode tgt p n = int (argmax_first (tgt p)) # greedy_decode tgt (p @ [int (argmax_first (tgt p))]) (n - 1)"
  by (cases n) (simp_all add: Let_def)

lemma outputs_first:
  assumes firsts: "firsts = map (\<lambda>p. int (argmax_first (tgt p))) prompts" and m: "1 \<le> max_new"
    and len: "length (gs_reqs st) = length prompts"
    and out: "\<forall>i<length prompts. rq_output (gs_reqs st ! i) = rq_output (first_requests cfg max_new prompts firsts ! i)"
    and act: "\<forall>i<length prompts. i \<notin> set (gs_active st) \<longrightarrow> rq_finished (first_requests cfg max_new prompts firsts ! i)"
  shows "outputs_inv tgt (gc_eos cfg) prompts max_new st"
proof -
  have "rq_output (gs_reqs st ! i) = greedy_decode tgt (prompts ! i) (length (rq_output (gs_reqs st ! i)))
      \<and> (i \<notin> set (gs_active st) \<longrightarrow> rq_output (gs_reqs st ! i) = take_eos (gc_eos cfg) (greedy_decode tgt (prompts ! i) max_new))"
    if i: "i < length prompts" for i
  proof -
    have new: "first_requests cfg max_new prompts firsts ! i = new_request cfg max_new (prompts ! i) (int (argmax_first (tgt (prompts ! i))))"
      using i by (simp add: first_requests_nth firsts)
    have "rq_finished (first_requests cfg max_new prompts firsts ! i) \<Longrightarrow>
        take_eos (gc_eos cfg) (greedy_decode tgt (prompts ! i) max_new) = [int (argmax_first (tgt (prompts ! i)))]"
      unfolding new using m by (auto simp: new_request_def greedy_decode_one[of max_new])
    moreover have "rq_output (gs_reqs st ! i) = [int (argmax_first (tgt (prompts ! i)))]"
      using out i unfolding new[symmetric] by (simp add: new) (simp add: new_request_def)
    ultimately show ?thesis using act i by (simp add: Let_def)
  qed
  then show ?thesis using len by (simp add: outputs_inv_def)
qed

context batch_decoder
begin

lemma prefill_lossless:
  assumes ne: "prompts \<noteq> []" "\<forall>p \<in> set prompts. p \<noteq> []" and m: "1 \<le> max_new"
    and cfg: "backbone_guard (en_layers E) (gc_hidden_indices cfg) = Inr ()"
  shows "case prefill E cfg max_new d prompts of Inl e \<Rightarrow> \<exists>d reqs. en_draft E d reqs = Inl e
    | Inr st \<Rightarrow> outputs_inv tgt (gc_eos cfg) prompts max_new st
        \<and> (gs_active st \<noteq> [] \<longrightarrow> caches_inv (en_layers E) (gc_K cfg) prompts max_new st)"
proof -
  let ?K = "gc_K cfg" and ?n = "length prompts"
  define pw where "pw = max_list (map length prompts)"
  obtain hidden kvs sources where M: "en_prefill E (map (pad_to pw (gc_pad cfg)) prompts)
      (map (\<lambda>p. pad_to pw False (replicate (length p) True)) prompts)
      (map (\<lambda>p. pad_to pw 0 [0..<length p]) prompts) = (hidden, kvs, sources)" by (metis prod_cases3)
  define firsts where "firsts = map (\<lambda>p. int (argmax_first (tgt p))) prompts"
  obtain c1 where c1:
    "forward_updates [] (Some [0..<pw]) (enumerate 0 kvs) (prepare_prefill (dense_init (gc_shared cfg) (en_layers E) ?n pw max_new
       (max_list (map (\<lambda>p. gc_budget cfg (length p)) prompts) + 1))) = Inr c1"
    "map (\<lambda>(p, row). int (argmax_first (en_head E (row ! (length p - 1))))) (zip prompts hidden) = firsts"
    "cache_ok c1" "dc_active c1 = ?n" "dc_max_batch c1 = ?n" "dc_committed_capacity c1 = pw + max_new"
    "pw + max_new \<le> dc_capacity c1" "dc_committed c1 = pw" "length (dc_layers c1) = en_layers E"
    "\<forall>l<en_layers E. \<forall>r<?n. valid_cache (take (length (prompts ! r)) (cache_row c1 l r)) (prompts ! r)"
    unfolding firsts_def by (rule prefill_pass[OF ne pw_def M])
  define reqs where "reqs = first_requests cfg max_new prompts firsts"
  define entries where "entries = order_entries (\<lambda>i. length (rq_prompt (reqs ! i))) (positions (\<lambda>r. \<not> rq_finished r) reqs)"
  have lf: "length firsts = ?n" "length reqs = ?n" by (simp_all add: firsts_def reqs_def first_requests_def)
  have rq: "reqs ! i = new_request cfg max_new (prompts ! i) (firsts ! i)" if "i < ?n" for i
    using that lf by (simp add: reqs_def first_requests_nth)
  have es: "set entries = {i. i < ?n \<and> \<not> rq_finished (reqs ! i)}" "distinct entries"
    unfolding entries_def using lf by (auto simp: positions_def intro!: distinct_order_entries)
  have en: "entries ! j < ?n" if "j < length entries" for j using nth_mem[OF that] es(1) by blast
  define st0 where "st0 = \<lparr>gs_reqs = reqs, gs_active = entries, gs_cache = c1,
      gs_dcache = draft_cache_init 0 0 0 False :: 'k draft_cache, gs_dstate = d, gs_sizes = []\<rparr>"
  show ?thesis
  proof (cases "entries = []")
    case True
    have "prefill E cfg max_new d prompts = Inr st0"
      unfolding prefill_def Let_def pw_def[symmetric] cfg res_bind_simps M prod.case c1(1,2) reqs_def[symmetric] entries_def[symmetric]
      using True by (simp add: st0_def)
    moreover have "outputs_inv tgt (gc_eos cfg) prompts max_new st0"
      by (rule outputs_first[OF firsts_def m]) (use es True lf in \<open>auto simp: st0_def reqs_def\<close>)
    ultimately show ?thesis using True by (simp add: st0_def)
  next
    case False
    define g where "g = (\<lambda>i. (prompts ! i, firsts ! i))"
    have gi: "(rq_prompt (reqs ! i), the (rq_current (reqs ! i))) = g i" "rq_prompt (reqs ! i) = prompts ! i"
      "rq_current (reqs ! i) = Some (firsts ! i)" if "i < ?n" for i
      using rq[OF that] by (simp_all add: new_request_def g_def)
    have pos: "set (positions (\<lambda>r. \<not> rq_finished r) reqs) \<subseteq> {..<?n}" using lf by (auto simp: positions_def)
    define E0 where "E0 = map g (positions (\<lambda>r. \<not> rq_finished r) reqs)"
    have ord: "map g entries = order_entries (\<lambda>(prompt, first). length prompt) E0"
    proof -
      have "entries = order_entries (\<lambda>i. (\<lambda>(prompt, first). length prompt) (g i)) (positions (\<lambda>r. \<not> rq_finished r) reqs)"
        unfolding entries_def using pos gi(2) by (intro order_entries_cong) (auto simp: g_def)
      then show ?thesis unfolding E0_def by (simp only: map_order_entries)
    qed
    have E0: "E0 \<noteq> []" "\<forall>(prompt, first) \<in> set E0. prompt \<noteq> []"
    proof -
      show "E0 \<noteq> []" using False unfolding E0_def entries_def by (metis list.map_disc_iff set_empty set_order_entries)
      have "fst (g i) \<noteq> []" if "i < ?n" for i using ne(2) that by (simp add: g_def)
      then show "\<forall>(prompt, first) \<in> set E0. prompt \<noteq> []" using pos by (auto simp: E0_def case_prod_unfold)
    qed
    have wr: "\<forall>ls fed. None \<notin> set (en_store E ls fed)" using stored by blast
    have states: "map (\<lambda>r. (rq_prompt r, the (rq_current r))) (map (\<lambda>i. reqs ! i) entries) = map g entries"
      using es gi(1) by simp
    obtain ist where ist: "build_initial_drafts (en_store E) (gc_draft_layers cfg) ?K max_new (?n = 1) (map g entries) = Inr ist"
      "db_lengths (is_cache ist) = map (\<lambda>(prompt, first). (length prompt + 1) * ?K) (map g entries)"
      "db_cap (is_cache ist) = (fold max (map (\<lambda>(prompt, _). length prompt) (map g entries)) 0 + max_new) * ?K"
      using build_initial_drafts_run[OF E0 m wr ord] by blast
    have idx: "length entries \<le> dc_max_batch c1" "i \<in> set entries \<Longrightarrow> i < dc_max_batch c1" for i
    proof -
      have "length entries = card (set entries)" using es(2) by (rule distinct_card[symmetric])
      also have "\<dots> \<le> card {..<?n}" by (rule card_mono) (use es in auto)
      finally show "length entries \<le> dc_max_batch c1" using c1(5) by simp
    qed (use es c1(5) in auto)
    obtain c2 where c2: "compact_cache_rows entries c1 = Inr c2" "cache_ok c2" "dc_active c2 = length entries"
      "dc_capacity c2 = dc_capacity c1" "dc_committed_capacity c2 = dc_committed_capacity c1" "length (dc_layers c2) = en_layers E"
      "\<forall>l<en_layers E. \<forall>r<length entries. \<forall>n\<le>pw. take n (cache_row c2 l r) = take n (cache_row c1 l (entries ! r))"
      using compact_rows_ok[OF c1(3) idx] c1(7-9) by (metis add_leD1)
    show ?thesis
    proof (cases "en_draft E d (map (\<lambda>i. initial_draft_request (initial_hidden sources i (length (rq_prompt (reqs ! i)))) (reqs ! i)) entries)")
      case (Inl e)
      have "prefill E cfg max_new d prompts = Inl e"
        unfolding prefill_def Let_def pw_def[symmetric] cfg res_bind_simps M prod.case c1(1,2) reqs_def[symmetric] entries_def[symmetric]
          if_not_P[OF False] states ist(1) Inl by (rule refl)
      then show ?thesis using Inl by auto
    next
      case (Inr td)
      obtain trees d' where td: "td = (trees, d')" by (cases td)
      define upd where "upd = map (\<lambda>(r, b). r\<lparr>rq_draft_pos := length (rq_prompt r) + 1, rq_tree := Some b\<rparr>) (zip (map (\<lambda>i. reqs ! i) entries) trees)"
      define st where "st = st0\<lparr>gs_reqs := put_rows entries upd reqs, gs_cache := c2, gs_dcache := is_cache ist, gs_dstate := d'\<rparr>"
      have run: "prefill E cfg max_new d prompts = Inr st"
        unfolding prefill_def Let_def pw_def[symmetric] cfg res_bind_simps M prod.case c1(1,2) reqs_def[symmetric] entries_def[symmetric]
          if_not_P[OF False] states ist(1) Inr td c2(1) by (simp add: st_def st0_def upd_def)
      have tl: "length trees = length entries" and tr: "\<And>j. j < length entries \<Longrightarrow> tb_tokens (trees ! j) ! 0 = firsts ! (entries ! j)"
        "\<And>j. j < length entries \<Longrightarrow> \<exists>par. buf_for par (trees ! j)"
        using drafted[OF Inr[unfolded td]] gi(3) en by (simp_all add: initial_draft_request_def)
      obtain pars where pars: "\<And>j. j < length entries \<Longrightarrow> buf_for (pars j) (trees ! j)" using tr(2) by metis
      have ud: "upd ! j = (reqs ! (entries ! j))\<lparr>rq_draft_pos := length (rq_prompt (reqs ! (entries ! j))) + 1, rq_tree := Some (trees ! j)\<rparr>"
        "length upd = length entries" if "j < length entries" for j
        using that tl by (simp_all add: upd_def)
      have sub: "set entries \<subseteq> {..<length reqs}" using es lf by auto
      have at: "gs_reqs st ! (entries ! j) = (reqs ! (entries ! j))\<lparr>rq_draft_pos := length (rq_prompt (reqs ! (entries ! j))) + 1, rq_tree := Some (trees ! j)\<rparr>"
        if "j < length entries" for j
        using put_rows_nth[OF es(2) sub that, of upd] ud[OF that] that by (simp add: st_def)
      have o1: "rq_output (gs_reqs st ! i) = rq_output (reqs ! i)" for i
      proof (cases "i \<in> set entries")
        case True
        then obtain j where "j < length entries" "i = entries ! j" by (auto simp: in_set_conv_nth)
        then show ?thesis using at by simp
      qed (simp add: st_def put_rows_other)
      have ac: "gs_active st = entries" by (simp add: st_def st0_def)
      have O: "outputs_inv tgt (gc_eos cfg) prompts max_new st"
        by (rule outputs_first[OF firsts_def m]) (use es lf o1 in \<open>auto simp: ac reqs_def[symmetric]\<close>, simp add: st_def lf)
      have row: "verify_states st ! j = (trees ! j, length (prompts ! (entries ! j)))" "verify_contexts prompts st ! j = prompts ! (entries ! j)"
        if j: "j < length entries" for j
        using j at[OF j] rq[OF en[OF j]] by (simp_all add: verify_states_def verify_contexts_def ac new_request_def)
      have pl: "length (prompts ! (entries ! j)) \<le> pw" if "j < length entries" for j
        unfolding pw_def by (rule max_list_ge) (use en[OF that] in auto)
      have "states_ok (en_layers E) (gs_cache st) (verify_states st) (verify_contexts prompts st) (map pars [0..<length entries])"
      proof -
        have c': "gs_cache st = c2" "length (verify_states st) = length entries" by (simp_all add: verify_states_def ac) (simp add: st_def)
        have "verify_states st \<noteq> []" using False c'(2) by auto
        moreover have "\<forall>j<length entries. buf_for (map pars [0..<length entries] ! j) (fst (verify_states st ! j))
          \<and> snd (verify_states st ! j) = length (verify_contexts prompts st ! j)
          \<and> length (verify_contexts prompts st ! j) \<le> dc_committed_capacity c2
          \<and> (\<forall>l<en_layers E. valid_cache (take (length (verify_contexts prompts st ! j)) (cache_row c2 l j)) (verify_contexts prompts st ! j))"
          using row pars pl c1(6,10) c2(5,7) en by (simp add: trans_le_add1)
        moreover have "dc_committed_capacity c2 \<le> dc_capacity c2" using c1(6,7) c2(4,5) by simp
        ultimately show ?thesis unfolding states_ok_def c' using c2(2,3,6) by blast
      qed
      moreover have "let i = entries ! j; r = gs_reqs st ! i; n = db_lengths (gs_dcache st) ! j in
          tb_tokens (the (rq_tree r)) ! 0 = last (rq_output r)
          \<and> length (prompts ! i) + max_new \<le> dc_committed_capacity (gs_cache st)
          \<and> (length (prompts ! i) + max_new) * ?K \<le> db_cap (gs_dcache st)
          \<and> ?K \<le> n \<and> n \<le> (length (prompts ! i) + length (rq_output r)) * ?K" if j: "j < length entries" for j
      proof -
        have "length (prompts ! (entries ! j)) \<le> fold max (map (\<lambda>(prompt, _). length prompt) (map g entries)) 0"
          using j by (intro fold_max_ge(1)) (auto simp: g_def)
        then have "(length (prompts ! (entries ! j)) + max_new) * ?K \<le> db_cap (is_cache ist)"
          unfolding ist(3) by (intro mult_le_mono1) simp
        then show ?thesis using tr(1)[OF j] at[OF j] rq[OF en[OF j]] pl[OF j] c1(6) c2(5) ist(2) j
          by (simp add: Let_def new_request_def g_def) (simp add: st_def g_def)
      qed
      moreover have "length (db_lengths (gs_dcache st)) = length entries" using ist(2) by (simp add: st_def)
      ultimately have "caches_inv (en_layers E) ?K prompts max_new st" unfolding caches_inv_def ac by blast
      then show ?thesis unfolding run using O by simp
    qed
  qed
qed

end

section \<open>The whole loop\<close>

context batch_decoder
begin

lemma decode_loop_lossless:
  assumes cfg: "gc_accept_topk cfg = 1" "backbone_guard (en_layers E) (gc_hidden_indices cfg) = Inr ()"
  shows "batch_inv (gc_eos cfg) max_new t st \<Longrightarrow> 1 \<le> t \<Longrightarrow> outputs_inv tgt (gc_eos cfg) prompts max_new st \<Longrightarrow>
    (gs_active st \<noteq> [] \<Longrightarrow> caches_inv (en_layers E) (gc_K cfg) prompts max_new st) \<Longrightarrow>
    case decode_loop E cfg max_new st of None \<Rightarrow> False | Some (Inl e) \<Rightarrow> \<exists>d reqs. en_draft E d reqs = Inl e
      | Some (Inr st') \<Rightarrow> gs_active st' = [] \<and> outputs_inv tgt (gc_eos cfg) prompts max_new st'"
proof (induction "max_new - t" arbitrary: t st)
  case 0
  then have "gs_active st = []" by (cases "gs_active st") (auto simp: batch_inv_def open_request_def)
  then show ?case using 0 by (simp add: decode_loop_simps(1))
next
  case (Suc n)
  show ?case
  proof (cases "gs_active st = []")
    case True
    then show ?thesis using Suc.prems by (simp add: decode_loop_simps(1))
  next
    case act: False
    note r = lossless_round[OF Suc.prems(3) Suc.prems(4)[OF act] Suc.prems(1) act Suc.prems(2) cfg]
    show ?thesis
    proof (cases "decode_round E cfg max_new st")
      case (Inl e)
      then show ?thesis using r unfolding decode_loop_simps(2)[OF act Inl] by simp
    next
      case (Inr st1)
      have m: "n = max_new - Suc t" "1 \<le> Suc t" using Suc.hyps(2) by simp_all
      have r1: "outputs_inv tgt (gc_eos cfg) prompts max_new st1"
        "gs_active st1 \<noteq> [] \<Longrightarrow> caches_inv (en_layers E) (gc_K cfg) prompts max_new st1" using r Inr by simp_all
      show ?thesis unfolding decode_loop_simps(3)[OF act Inr]
        by (rule Suc.hyps(1)[OF m(1) batch_inv_round(1)[OF Suc.prems(1) Inr] m(2) r1])
    qed
  qed
qed

end

text \<open>The settings that the batched engine supports.\<close>

definition batch_supported :: "gen_config \<Rightarrow> token list list \<Rightarrow> bool" where
  "batch_supported cfg prompts \<longleftrightarrow> \<not> gc_adapt_hooks cfg \<and> gc_draft_cuda_128 cfg \<and> gc_tree_attn_3way cfg
     \<and> gc_cache_modes cfg = [] \<and> (1 < length prompts \<longrightarrow> \<not> gc_draft_quantize cfg)"

context batch_decoder
begin

lemma generate_lossless_lemma:
  assumes ne: "prompts \<noteq> []" "\<forall>p \<in> set prompts. p \<noteq> []" and sup: "batch_supported cfg prompts"
    and cfg: "gc_accept_topk cfg = 1" "backbone_guard (en_layers E) (gc_hidden_indices cfg) = Inr ()"
  shows "case generate_conversations E cfg d prompts max_new of None \<Rightarrow> False
    | Some (Inl e) \<Rightarrow> \<exists>d reqs. en_draft E d reqs = Inl e
    | Some (Inr rs) \<Rightarrow> map gr_tokens rs = map (\<lambda>p. take_eos (gc_eos cfg) (greedy_decode tgt p (nat max_new))) prompts"
proof (cases "max_new \<le> 0")
  case True
  then show ?thesis using sup ne by (simp add: generate_conversations_def batch_supported_def empty_result_def map_replicate_const)
next
  case False
  then have m: "1 \<le> nat max_new" by simp
  have gen: "generate_conversations E cfg d prompts max_new = (case prefill E cfg (nat max_new) d prompts of
      Inl e \<Rightarrow> Some (Inl e) | Inr st \<Rightarrow> map_option (\<lambda>r. res_bind r (\<lambda>st. Inr (map request_result (gs_reqs st)))) (decode_loop E cfg (nat max_new) st))"
    using sup ne False by (auto simp: generate_conversations_def batch_supported_def)
  note p = prefill_lossless[OF ne m cfg(2), of d]
  show ?thesis
  proof (cases "prefill E cfg (nat max_new) d prompts")
    case (Inl e)
    then show ?thesis using p unfolding gen by simp
  next
    case (Inr st)
    note l = decode_loop_lossless[OF cfg prefill_inv(1)[OF Inr m], of prompts]
    have o: "case decode_loop E cfg (nat max_new) st of None \<Rightarrow> False | Some (Inl e) \<Rightarrow> \<exists>d reqs. en_draft E d reqs = Inl e
      | Some (Inr st') \<Rightarrow> gs_active st' = [] \<and> outputs_inv tgt (gc_eos cfg) prompts (nat max_new) st'"
      using l p Inr by simp
    have "map gr_tokens (map request_result (gs_reqs st')) = map (\<lambda>p. take_eos (gc_eos cfg) (greedy_decode tgt p (nat max_new))) prompts"
      if "gs_active st' = []" "outputs_inv tgt (gc_eos cfg) prompts (nat max_new) st'" for st'
      using that by (intro nth_equalityI) (auto simp: outputs_inv_def request_result_def)
    then show ?thesis using o unfolding gen Inr by (auto simp: res_bind_def split: option.splits sum.splits)
  qed
qed

end

section \<open>A reference engine\<close>

text \<open>
  The passes of a causal transformer over padded batches: a prompt token reads the attended
  positions up to itself, a staged node reads the last visible committed entry and the
  visible nodes in the order of their position ids.  Hidden states are the sequences read.
  Drafting runs the NumPy builder for every request with the request's budget.
\<close>

definition ref_prefill :: "nat \<Rightarrow> token list list \<Rightarrow> bool list list \<Rightarrow> nat list list
    \<Rightarrow> token list list list \<times> token list list list list \<times> token list list list list" where
  "ref_prefill layers ids attn pos =
     (let hid = map (\<lambda>r. map (\<lambda>i. map (\<lambda>j. ids ! r ! j) (filter (\<lambda>j. attn ! r ! j) [0..<Suc i]))
            [0..<length (ids ! r)]) [0..<length ids]
      in (hid, replicate layers hid, replicate 3 hid))"

definition ref_context :: "token list list \<Rightarrow> bool list \<Rightarrow> token list" where
  "ref_context view vis = (case filter (\<lambda>j. vis ! j) [0..<length view] of [] \<Rightarrow> [] | js \<Rightarrow> view ! last js)"

definition ref_tree :: "nat \<Rightarrow> token list list list list \<Rightarrow> token list list \<Rightarrow> nat list list \<Rightarrow> bool list list list
    \<Rightarrow> token list list list \<times> token list list list list \<times> token list list list list" where
  "ref_tree layers views ids pos vis =
     (let hid = map (\<lambda>r. let view = views ! 0 ! r in map (\<lambda>i. ref_context view (vis ! r ! i)
              @ map (\<lambda>j. ids ! r ! j) (visible_order (pos ! r) (map (drop (length view)) (vis ! r)) i))
            [0..<length (ids ! r)]) [0..<length ids]
      in (hid, replicate layers hid, replicate 3 hid))"

definition builder_draft ::
  "('p::linordered_ab_group_add, 's) draft_env \<Rightarrow> algo \<Rightarrow> ('h draft_request \<Rightarrow> 's \<times> 'p list list \<times> 'p list list)
     \<Rightarrow> 'd \<Rightarrow> 'h draft_request list \<Rightarrow> (tree_buf list \<times> 'd) res" where
  "builder_draft env a net d reqs =
     res_bind (res_map (\<lambda>rq. case net rq of (s, logits, rank_logits) \<Rightarrow>
        (case build_tree env (a\<lparr>total_tokens := dq_budget rq\<rparr>) 0 s logits rank_logits (dq_root rq) of
           None \<Rightarrow> Inl RuntimeError | Some r \<Rightarrow> res_bind r (\<lambda>b. Inr (bt_buf b)))) reqs)
       (\<lambda>trees. Inr (trees, d))"

definition ref_engine ::
  "nat \<Rightarrow> (token list \<Rightarrow> 'l list) \<Rightarrow> ('d \<Rightarrow> token list draft_request list \<Rightarrow> (tree_buf list \<times> 'd) res)
     \<Rightarrow> (token list, 'l::linorder, 'd, 'k) engine" where
  "ref_engine layers tgt draft = \<lparr>en_layers = Suc layers, en_prefill = ref_prefill (Suc layers), en_tree = ref_tree (Suc layers),
     en_head = tgt, en_topk = sort_topk, en_draft = draft,
     en_store = (\<lambda>ls fed. map (\<lambda>l. Some (case l of None \<Rightarrow> [] | Some rows \<Rightarrow> rows)) ls)\<rparr>"

lemma ref_shape: "map length ids = replicate n w \<Longrightarrow> hid = map (\<lambda>r. map (f r) [0..<length (ids ! r)]) [0..<length ids] \<Longrightarrow>
    batch_shape layers n w hid (replicate layers hid) (replicate 3 hid)"
proof -
  assume a: "map length ids = replicate n w" and h: "hid = map (\<lambda>r. map (f r) [0..<length (ids ! r)]) [0..<length ids]"
  have "map length hid = map length ids" unfolding h by (intro nth_equalityI) auto
  then show ?thesis using a by (auto simp: batch_shape_def)
qed

lemma row_sees_path:
  assumes "row_sees n start pos vis i p"
  shows "sees_path n pos (map (drop start) vis) i p" "i < length vis"
    "filter (\<lambda>j. vis ! i ! j) [0..<start] = [0..<n]"
proof -
  have a: "p \<noteq> []" "last p = i" "distinct p" "set p \<subseteq> {..<length pos}" "n \<le> start"
    "length vis = length pos" "\<And>q. q < length pos \<Longrightarrow> length (vis ! q) = start + length pos"
    using assms unfolding row_sees_def by (auto dest: arg_cong[of _ _ length]) (metis nth_map nth_replicate length_map length_replicate)
  have b: "pos ! (p ! k) = n + k" "\<And>j. j < start + length pos \<Longrightarrow> vis ! (p ! k) ! j \<longleftrightarrow> j < n \<or> start \<le> j \<and> j - start \<in> set (take (Suc k) p)"
    if "k < length p" for k using assms that unfolding row_sees_def by blast+
  have pk: "p ! k < length pos" if "k < length p" for k using a(4) that nth_mem by blast
  show "sees_path n pos (map (drop start) vis) i p"
    unfolding sees_path_def using a b pk by simp
  have ip: "i = p ! (length p - 1)" "length p - 1 < length p" using a(1,2) by (simp_all add: last_conv_nth)
  then show "i < length vis" using pk a(6) by simp
  have "filter (\<lambda>j. vis ! i ! j) [0..<start] = filter (\<lambda>j. j < n) [0..<start]"
    using b(2)[OF ip(2)] ip(1) by (intro filter_cong) auto
  also have "\<dots> = filter (\<lambda>j. j < n) ([0..<n] @ [n..<start])"
    using upt_add_eq_append[of 0 n "start - n"] a(5) by simp
  also have "\<dots> = [0..<n]" by (simp add: filter_empty_conv filter_id_conv)
  finally show "filter (\<lambda>j. vis ! i ! j) [0..<start] = [0..<n]" .
qed

lemma ref_context_prefix:
  assumes "valid_cache (take (length ctx) view) ctx" "filter (\<lambda>j. vis ! j) [0..<length view] = [0..<length ctx]"
  shows "ref_context view vis = ctx"
proof (cases "ctx = []")
  case False
  then obtain n where n: "length ctx = Suc n" by (cases ctx) auto
  have "take (length ctx) view ! n = map (\<lambda>n. take (Suc n) ctx) [0..<length ctx] ! n"
    using assms(1) unfolding valid_cache_def by simp
  then have "view ! n = ctx" using n by (simp del: upt_Suc)
  then show ?thesis using assms(2) n by (simp add: ref_context_def split: list.split) (metis last.simps last_snoc upt_Suc_append zero_le)
qed (use assms(2) in \<open>simp add: ref_context_def\<close>)

lemma ref_batch_model:
  assumes ne: "\<And>ctx. tgt ctx \<noteq> []"
  shows "batch_model (ref_engine layers tgt draft) tgt" (is "batch_model ?E tgt")
proof (rule batch_model.intro)
  show "0 < en_layers ?E" by (simp add: ref_engine_def)
  show "tgt ctx \<noteq> []" for ctx by (rule ne)
  show "en_head ?E h \<noteq> []" for h using ne by (simp add: ref_engine_def)
  show "topk_op (en_topk ?E)" by (simp add: ref_engine_def sorttopk.topk_op_axioms)
  show "None \<notin> set (en_store ?E ls fed)" for ls fed by (auto simp: ref_engine_def)
next
  fix ids n w attn pos hidden kvs sources
  assume a: "map length ids = replicate n w" and e: "en_prefill ?E ids attn pos = (hidden, kvs, sources)"
  have "kvs = replicate (Suc layers) hidden" "sources = replicate 3 hidden" "en_layers ?E = Suc layers"
    using e by (auto simp: ref_engine_def ref_prefill_def Let_def)
  then show "batch_shape (en_layers ?E) n w hidden kvs sources"
    using ref_shape[OF a, of hidden] e by (auto simp: ref_engine_def ref_prefill_def Let_def simp del: upt_Suc replicate_Suc)
next
  fix ids :: "token list list" and attn pos hidden kvs sources r n i
  assume e: "en_prefill ?E ids attn pos = (hidden, kvs, sources)"
    and r: "r < length ids" "n \<le> length (ids ! r)" and at: "\<forall>j<length (ids ! r). attn ! r ! j \<longleftrightarrow> j < n" and i: "i < n"
  have "filter (\<lambda>j. attn ! r ! j) [0..<Suc i] = [0..<Suc i]" unfolding filter_id_conv using at i r(2) by auto
  then have "hidden ! r ! i = map (\<lambda>j. ids ! r ! j) [0..<Suc i]"
    using e r i by (auto simp: ref_engine_def ref_prefill_def Let_def simp del: upt_Suc)
  also have "\<dots> = take (Suc i) (ids ! r)" using i r(2) by (intro nth_equalityI) (auto simp del: upt_Suc)
  finally have h: "hidden ! r ! i = take (Suc i) (ids ! r)" .
  moreover have "kvs = replicate (Suc layers) hidden" using e by (auto simp: ref_engine_def ref_prefill_def Let_def)
  ultimately show "en_head ?E (hidden ! r ! i) = tgt (take (Suc i) (ids ! r))
      \<and> (\<forall>l<en_layers ?E. kvs ! l ! r ! i = take (Suc i) (ids ! r))"
    by (simp add: ref_engine_def del: replicate_Suc)
next
  fix ids n w views pos vis hidden kvs sources
  assume a: "map length ids = replicate n w" and e: "en_tree ?E views ids pos vis = (hidden, kvs, sources)"
  have "kvs = replicate (Suc layers) hidden" "sources = replicate 3 hidden" "en_layers ?E = Suc layers"
    using e by (auto simp: ref_engine_def ref_tree_def Let_def)
  then show "batch_shape (en_layers ?E) n w hidden kvs sources"
    using ref_shape[OF a, of hidden] e by (auto simp: ref_engine_def ref_tree_def Let_def simp del: upt_Suc replicate_Suc)
next
  fix views and ids :: "token list list" and pos vis hidden kvs sources r i start ctx p
  assume e: "en_tree ?E views ids pos vis = (hidden, kvs, sources)"
    and r: "r < length ids" "i < length (ids ! r)" "length (pos ! r) = length (ids ! r)"
    and v: "\<forall>l<en_layers ?E. length (views ! l ! r) = start \<and> valid_cache (take (length ctx) (views ! l ! r)) ctx"
    and s: "row_sees (length ctx) start (pos ! r) (vis ! r) i p"
  have v0: "length (views ! 0 ! r) = start" "valid_cache (take (length ctx) (views ! 0 ! r)) ctx" using v by (simp_all add: ref_engine_def)
  note q = row_sees_path[OF s]
  have "ref_context (views ! 0 ! r) (vis ! r ! i) = ctx"
    using q(3) v0 by (intro ref_context_prefix) simp_all
  moreover have "visible_order (pos ! r) (map (drop (length (views ! 0 ! r))) (vis ! r)) i = p"
    unfolding v0(1) by (rule visible_order_path[OF q(1)])
  ultimately have "hidden ! r ! i = ctx @ map (\<lambda>j. ids ! r ! j) p"
    using e r by (auto simp: ref_engine_def ref_tree_def Let_def)
  moreover have "kvs = replicate (Suc layers) hidden" using e by (auto simp: ref_engine_def ref_tree_def Let_def)
  ultimately show "en_head ?E (hidden ! r ! i) = tgt (ctx @ map (\<lambda>j. ids ! r ! j) p)
      \<and> (\<forall>l<en_layers ?E. kvs ! l ! r ! i = ctx @ map (\<lambda>j. ids ! r ! j) p)"
    by (simp add: ref_engine_def del: replicate_Suc)
qed

text \<open>
  The NumPy builder meets the drafting contract for every draft network of the right shape,
  within the depth bound of the buffer kernels.
\<close>

definition drafting_cfg ::
  "('p::linordered_ab_group_add, 's) draft_env \<Rightarrow> algo \<Rightarrow> ('h draft_request \<Rightarrow> 's \<times> 'p list list \<times> 'p list list) \<Rightarrow> bool" where
  "drafting_cfg env a net \<longleftrightarrow> env_ok env a \<and> 0 < beam_width a \<and> strict_linear_budget a \<le> MAX_TREE_DEPTH
     \<and> (\<forall>rq. length (fst (snd (net rq))) = cfg_K a \<and> length (snd (snd (net rq))) = cfg_K a)"

lemma built_buf_for:
  assumes "built_ok a s b" "strict_linear_budget a \<le> MAX_TREE_DEPTH"
  shows "\<exists>par. buf_for par (bt_buf b)" "tb_tokens (bt_buf b) ! 0 = s"
proof -
  let ?ps = "tree_parents (bt_tree b)"
  have buf: "bt_buf b = build_tree_buffers s (map nd_token (bt_tree b)) ?ps" using assms(1) by (simp add: built_ok_def)
  have "shallow (shift_parents ?ps)"
    using assms by (auto simp: built_ok_def shallow_def list_all_iff shift_parents_def)
  then have "buf_for (shift_parents ?ps) (bt_buf b)"
    unfolding buf using assms(1) by (intro build_buf_for) (auto simp: built_ok_def)
  then show "\<exists>par. buf_for par (bt_buf b)" by blast
  show "tb_tokens (bt_buf b) ! 0 = s" unfolding buf by (simp add: build_tree_buffers_def Let_def)
qed

lemma builder_draft_ok:
  assumes cfg: "drafting_cfg env a net" and run: "builder_draft env a net d reqs = Inr (trees, d')"
  shows "length trees = length reqs
    \<and> (\<forall>i<length reqs. tb_tokens (trees ! i) ! 0 = dq_root (reqs ! i) \<and> (\<exists>par. buf_for par (trees ! i)))"
proof -
  let ?f = "\<lambda>rq. case net rq of (s, logits, rank_logits) \<Rightarrow>
        (case build_tree env (a\<lparr>total_tokens := dq_budget rq\<rparr>) 0 s logits rank_logits (dq_root rq) of
           None \<Rightarrow> Inl RuntimeError | Some r \<Rightarrow> res_bind r (\<lambda>b. Inr (bt_buf b)))"
  have ts: "res_map ?f reqs = Inr trees" using run by (auto simp: builder_draft_def)
  have "tb_tokens (trees ! i) ! 0 = dq_root (reqs ! i) \<and> (\<exists>par. buf_for par (trees ! i))" if i: "i < length reqs" for i
  proof -
    let ?a = "a\<lparr>total_tokens := dq_budget (reqs ! i)\<rparr>"
    obtain s lg rl where n: "net (reqs ! i) = (s, lg, rl)" by (metis prod_cases3)
    have k: "cfg_K ?a = cfg_K a" "linear_k0 ?a = linear_k0 a" "linear_kb ?a = linear_kb a"
      by (simp_all add: linear_k0_def linear_kb_def split: option.split)
    have e: "env_ok env ?a" "0 < beam_width ?a" "strict_linear_budget ?a \<le> MAX_TREE_DEPTH"
      using cfg by (simp_all add: drafting_cfg_def env_ok_def strict_linear_budget_def k)
    have l: "length lg = cfg_K ?a" "length rl = cfg_K ?a" using cfg n unfolding drafting_cfg_def k by (metis fst_conv snd_conv)+
    obtain b where b: "build_tree env ?a 0 s lg rl (dq_root (reqs ! i)) = Some (Inr b)" "trees ! i = bt_buf b"
      using res_map_Inr_nth[OF ts i] n by (auto split: option.splits)
    have "built_ok ?a (dq_root (reqs ! i)) b" using build_tree_facts[OF e(1,2) l, of 0 s "dq_root (reqs ! i)"] b(1) by auto
    from built_buf_for[OF this e(3)] show ?thesis unfolding b(2) by blast
  qed
  then show ?thesis using res_map_Inr_length[OF ts] by simp
qed

definition checked_draft ::
  "('p::linordered_ab_group_add, 's) draft_env \<Rightarrow> algo \<Rightarrow> ('h draft_request \<Rightarrow> 's \<times> 'p list list \<times> 'p list list)
     \<Rightarrow> 'd \<Rightarrow> 'h draft_request list \<Rightarrow> (tree_buf list \<times> 'd) res" where
  "checked_draft env a net d reqs = (if drafting_cfg env a net then builder_draft env a net d reqs else Inl ValueError)"

interpretation refbatch: batch_model "ref_engine layers (nonempty_logits tgt) draft" "nonempty_logits tgt"
  for layers and tgt :: "token list \<Rightarrow> 'l::{linorder, zero} list" and draft
  by (rule ref_batch_model) (rule nonempty_logits_ne)

interpretation refdecoder: batch_decoder "ref_engine layers (nonempty_logits tgt) (checked_draft env a net)" "nonempty_logits tgt"
  for layers and tgt :: "token list \<Rightarrow> 'l::{linorder, zero} list" and env :: "('p::linordered_ab_group_add, 's) draft_env" and a net
  by unfold_locales (auto simp: ref_engine_def checked_draft_def dest!: builder_draft_ok split: if_splits)

section \<open>Batched decoding is lossless\<close>

text \<open>
  C1.  Request-batched speculative decoding is lossless.  The target: any model whose batched
  passes compute an autoregressive model, row by row, whenever a row's mask and cache show it its
  own context (\<open>batch_model\<close>: at least one layer, non-empty logits, no lazily unset layer, a
  sound top-k).  The drafting: any code that, when it returns, returns per request the buffers of
  one tree (parents before children; mask, depths and retrieve rows those of the tree), rooted at
  its last verified token, with whatever other tokens (\<open>batch_decoder\<close>).  The settings: top-1 acceptance (\<open>ACCEPT_TOPK = 1\<close>; with a larger value the
  relaxed acceptance takes tokens that greedy decoding would not, and the statement is false),
  the settings the batched engine supports (\<open>batch_supported\<close>: no adaptation hooks, CUDA draft
  attention, three-way tree attention, no alternative cache mode, no draft quantisation for more
  than one prompt) and three hidden layers within the model (\<open>backbone_guard\<close>); other settings
  are refused with errors of their own.  Then \<open>generate_conversations\<close>, from the padded prefill
  through verification, acceptance, cache commits, row compaction and drafting, for any batch of
  one or more non-empty prompts, tree budgets and number of tokens, returns for every request
  exactly the target's greedy decoding of its own prompt, cut after its first end-of-sequence
  token.  No guard of the caches or of the batched passes raises: the only error it can return
  is one that drafting itself raised.
\<close>

theorem generate_lossless:
  assumes "batch_decoder E tgt" "prompts \<noteq> []" "\<forall>p \<in> set prompts. p \<noteq> []" "batch_supported cfg prompts"
    and "gc_accept_topk cfg = 1" "backbone_guard (en_layers E) (gc_hidden_indices cfg) = Inr ()"
  shows "case generate_conversations E cfg d prompts max_new of None \<Rightarrow> False
    | Some (Inl e) \<Rightarrow> \<exists>d reqs. en_draft E d reqs = Inl e
    | Some (Inr rs) \<Rightarrow> map gr_tokens rs = map (\<lambda>p. take_eos (gc_eos cfg) (greedy_decode tgt p (nat max_new))) prompts"
  by (rule batch_decoder.generate_lossless_lemma[OF assms])

definition witness_draft :: "unit \<Rightarrow> token list draft_request list \<Rightarrow> (tree_buf list \<times> unit) res" where
  "witness_draft d reqs = Inr (map (\<lambda>rq. build_tree_buffers (dq_root rq) [4, 3, 1, 2] [- 1, 0, - 1, 1]) reqs, d)"

definition witness_engine :: "(token list, int, unit, unit) engine" where
  "witness_engine = ref_engine 1 (nonempty_logits witness_tgt) witness_draft"

definition witness_cfg :: gen_config where
  "witness_cfg = \<lparr>gc_eos = [2], gc_pad = 0, gc_K = 2, gc_draft_layers = 1, gc_accept_topk = 1, gc_shared = True,
     gc_hidden_indices = [1, 2, 2], gc_budget = (\<lambda>_. 4), gc_adapt_hooks = False, gc_draft_cuda_128 = True,
     gc_tree_attn_3way = True, gc_cache_modes = [], gc_draft_quantize = False\<rparr>"

lemma witness_decoder: "batch_decoder witness_engine (nonempty_logits witness_tgt)"
proof (rule batch_decoder.intro)
  show "batch_model witness_engine (nonempty_logits witness_tgt)"
    unfolding witness_engine_def by (rule refbatch.batch_model_axioms)
  have "wf_parents [- 1, 0, - 1, 1]" "shallow (shift_parents [- 1, 0, - 1, 1])" by code_simp+
  then have "buf_for (shift_parents [- 1, 0, - 1, 1]) (build_tree_buffers s [4, 3, 1, 2] [- 1, 0, - 1, 1])" for s
    by (intro build_buf_for) simp_all
  moreover have "tb_tokens (build_tree_buffers s [4, 3, 1, 2] [- 1, 0, - 1, 1]) ! 0 = s" for s
    by (simp add: build_tree_buffers_def Let_def)
  ultimately show "batch_decoder_axioms witness_engine"
    by (intro batch_decoder_axioms.intro) (auto simp: witness_engine_def ref_engine_def witness_draft_def, blast)
qed

theorem generate_lossless_witness:
  "\<exists>rs. generate_conversations witness_engine witness_cfg () [[1], [1, 4, 4]] 6 = Some (Inr rs)
     \<and> map gr_tokens rs = [[1, 2], [4, 3, 1, 2]]"
proof -
  have h: "[[1], [1, 4, 4]] \<noteq> ([] :: token list list)" "\<forall>p \<in> set [[1], [1, 4, 4 :: token]]. p \<noteq> []"
    "batch_supported witness_cfg [[1], [1, 4, 4]]" "gc_accept_topk witness_cfg = 1"
    "backbone_guard (en_layers witness_engine) (gc_hidden_indices witness_cfg) = Inr ()"
    by (simp_all add: batch_supported_def witness_cfg_def witness_engine_def ref_engine_def backbone_guard_def)
  have t: "greedy_decode (nonempty_logits witness_tgt) [1] 6 = [1, 2, 4, 3, 1, 2]"
    "greedy_decode (nonempty_logits witness_tgt) [1, 4, 4] 6 = [4, 3, 1, 2, 4, 3]" by code_simp+
  have g: "map (\<lambda>p. take_eos (gc_eos witness_cfg) (greedy_decode (nonempty_logits witness_tgt) p (nat 6))) [[1], [1, 4, 4]]
      = [[1, 2], [4, 3, 1, 2]]" by (simp add: t witness_cfg_def del: greedy_decode.simps)
  have nd: "en_draft witness_engine d reqs \<noteq> Inl e" for d reqs e
    by (simp add: witness_engine_def ref_engine_def witness_draft_def)
  show ?thesis
    using generate_lossless[where d = "()" and max_new = 6, OF witness_decoder h] nd unfolding g by (auto split: option.splits sum.splits)
qed

end
