(* ===== verification/Tree_Links.thy ===== *)
theory Tree_Links
  imports Prelude
begin

text \<open>
  The first-child and next-sibling pointers of a draft tree, which the paged verifier walks.  The
  code computes them in three ways: a sequential pass over the parents on the CPU
  (\<open>parents_to_next_token_and_sibling\<close>), scattered minima over a whole batch
  (\<open>build_retrieve_links_gpu\<close>), and one Triton program per node (\<open>_topology_links_row_kernel\<close>).
  All three are modelled and shown to compute the same pointers, and the pointers are shown to
  enumerate the children of every node, in order.
\<close>

section \<open>The sequential pass\<close>

record link_state =
  ls_last :: "int list"
  ls_token :: "int list"
  ls_sibling :: "int list"

definition link_step :: "int list \<Rightarrow> nat \<Rightarrow> link_state \<Rightarrow> link_state res" where
  "link_step parents i st =
     (let p = parents ! i in
      if p < 0 then Inr st
      else if length parents \<le> nat p then Inl IndexError
      else
        (let prev = ls_last st ! nat p;
             st' = (if prev < 0 then st\<lparr>ls_token := (ls_token st)[nat p := int i]\<rparr>
                    else st\<lparr>ls_sibling := (ls_sibling st)[nat prev := int i]\<rparr>)
         in Inr (st'\<lparr>ls_last := (ls_last st')[nat p := int i]\<rparr>)))"

fun link_loop :: "int list \<Rightarrow> nat list \<Rightarrow> link_state \<Rightarrow> link_state res" where
  "link_loop parents [] st = Inr st"
| "link_loop parents (i # is) st = res_bind (link_step parents i st) (link_loop parents is)"

definition parents_to_next_token_and_sibling :: "int list \<Rightarrow> (int list \<times> int list) res" where
  "parents_to_next_token_and_sibling parents =
     (let n = length parents; none = replicate n (- 1) in
      res_bind (link_loop parents [0..<n] \<lparr>ls_last = none, ls_token = none, ls_sibling = none\<rparr>)
        (\<lambda>st. Inr (ls_token st, ls_sibling st)))"

section \<open>The scattered minima\<close>

text \<open>\<open>topo_parents\<close>: parents in tree coordinates, where \<open>-1\<close> (a child of the root) becomes 0.\<close>

definition topo_of_raw :: "int list \<Rightarrow> int list" where
  "topo_of_raw raw = map (\<lambda>p. if p = - 1 then 0 else p + 1) raw"

definition scatter_amin :: "(nat \<times> int) list \<Rightarrow> int list \<Rightarrow> int list" where
  "scatter_amin writes buf = fold (\<lambda>(i, x) b. b[i := min (b ! i) x]) writes buf"

definition build_retrieve_links_gpu :: "nat \<Rightarrow> int list list \<Rightarrow> int list list \<times> int list list" where
  "build_retrieve_links_gpu N trees =
     (let topo = map (\<lambda>t. topo_of_raw (take N t)) trees;
          bs = length trees;
          inf = int N + 1;
          writes = concat (map (\<lambda>b. map (\<lambda>j. (nat (int (b * N) + topo ! b ! j), if 1 \<le> j then int j else inf)) [0..<N]) [0..<bs]);
          buf = scatter_amin writes (replicate (bs * N) inf);
          unset = (\<lambda>x. if x = inf then - 1 else x);
          tokens = map (\<lambda>b. map (\<lambda>p. unset (buf ! (b * N + p))) [0..<N]) [0..<bs];
          siblings = map (\<lambda>b. map (\<lambda>j. unset (Min (set (map (\<lambda>k. if j < k \<and> topo ! b ! j = topo ! b ! k \<and> 1 \<le> j
                        then int k else inf) [0..<N])))) [0..<N]) [0..<bs]
      in (tokens, siblings))"

section \<open>The row kernel\<close>

text \<open>
  One program per node \<open>q\<close>: \<open>valid ! (c - 1)\<close> tells whether the candidate \<open>c\<close> is a kept node, and
  a node that is not kept has the topology parent \<open>-1\<close>.
\<close>

definition links_row_kernel :: "nat \<Rightarrow> int list \<Rightarrow> bool list \<Rightarrow> nat \<Rightarrow> int \<times> int" where
  "links_row_kernel N topo valid q =
     (let inf = int N + 1;
          q_valid = (q = 0 \<or> valid ! (q - 1));
          child = Min (set (map (\<lambda>c. if 0 < c \<and> valid ! (c - 1) \<and> topo ! c = int q then int c else inf) [0..<N]));
          sibling = Min (set (map (\<lambda>c. if 0 < c \<and> valid ! (c - 1) \<and> q < c \<and> 0 < q \<and> q_valid \<and> topo ! c = topo ! q
                      then int c else inf) [0..<N]))
      in (if child < inf then child else - 1, if sibling < inf then sibling else - 1))"

section \<open>What the pointers are\<close>

definition first_where :: "(nat \<Rightarrow> bool) \<Rightarrow> nat list \<Rightarrow> int" where
  "first_where P xs = (case find P xs of None \<Rightarrow> - 1 | Some j \<Rightarrow> int j)"

definition first_child :: "int list \<Rightarrow> nat \<Rightarrow> int" where
  "first_child parents p = first_where (\<lambda>j. parents ! j = int p) [0..<length parents]"

definition next_sibling :: "int list \<Rightarrow> nat \<Rightarrow> int" where
  "next_sibling parents i =
     (if parents ! i < 0 then - 1 else first_where (\<lambda>j. parents ! j = parents ! i) [Suc i..<length parents])"

lemma find_append: "find P (xs @ ys) = (case find P xs of None \<Rightarrow> find P ys | Some x \<Rightarrow> Some x)"
  by (induction xs) auto

lemma find_none_iff: "find P xs = None \<longleftrightarrow> (\<forall>x\<in>set xs. \<not> P x)"
  by (induction xs) auto

lemma first_where_append:
  "first_where P (xs @ ys) = (if first_where P xs < 0 then first_where P ys else first_where P xs)"
  by (simp add: first_where_def find_append split: option.split)

lemma first_where_neg: "first_where P xs < 0 \<longleftrightarrow> (\<forall>x\<in>set xs. \<not> P x)"
  by (simp add: first_where_def find_none_iff[symmetric] split: option.split)

lemma first_where_none: "(\<forall>x\<in>set xs. \<not> P x) \<Longrightarrow> first_where P xs = - 1"
  by (simp add: first_where_def find_none_iff[symmetric])

lemma first_where_Cons: "first_where P (x # xs) = (if P x then int x else first_where P xs)"
  by (simp add: first_where_def)

lemma first_where_ge: "- 1 \<le> first_where P xs"
  by (simp add: first_where_def split: option.split)

lemma find_Some_mem: "find P xs = Some j \<Longrightarrow> j \<in> set xs \<and> P j"
  by (induction xs) (auto split: if_splits)

lemma find_upt_least: "find P [a..<b] = Some j \<Longrightarrow> \<forall>k. a \<le> k \<longrightarrow> k < j \<longrightarrow> \<not> P k"
proof (induction b)
  case (Suc b)
  show ?case
  proof (cases "a \<le> b \<and> find P [a..<b] = None")
    case True
    then have "j = b" using Suc.prems by (auto simp: find_append split: if_splits)
    then show ?thesis using True by (auto simp: find_none_iff)
  next
    case False
    then show ?thesis using Suc by (auto simp: find_append split: option.splits if_splits)
  qed
qed simp

section \<open>The sequential pass computes them\<close>

definition parents_ok :: "int list \<Rightarrow> bool" where
  "parents_ok parents \<longleftrightarrow> (\<forall>p\<in>set parents. p < int (length parents))"

text \<open>After the nodes below \<open>k\<close>, the state describes the tree of these nodes.\<close>

definition link_inv :: "int list \<Rightarrow> nat \<Rightarrow> link_state \<Rightarrow> bool" where
  "link_inv parents k st \<longleftrightarrow>
     length (ls_last st) = length parents \<and> length (ls_token st) = length parents
     \<and> length (ls_sibling st) = length parents
     \<and> (\<forall>p<length parents. ls_last st ! p = first_where (\<lambda>j. parents ! j = int p) (rev [0..<k])
         \<and> ls_token st ! p = first_where (\<lambda>j. parents ! j = int p) [0..<k]
         \<and> ls_sibling st ! p = (if parents ! p < 0 then - 1
             else first_where (\<lambda>j. parents ! j = parents ! p) [Suc p..<k]))"

lemma first_where_rev:
  assumes "first_where P (rev [0..<k]) = int m"
  shows "m < k" "P m" "\<forall>j. m < j \<longrightarrow> j < k \<longrightarrow> \<not> P j"
  using assms
proof (induction k)
  case (Suc k)
  { case 1 then show ?case using Suc.IH(1) by (auto simp: first_where_Cons split: if_splits) }
  { case 2 then show ?case using Suc.IH(2) by (auto simp: first_where_Cons split: if_splits) }
  { case 3
    then show ?case using Suc.IH(3) by (auto simp: first_where_Cons less_Suc_eq split: if_splits) }
qed (simp_all add: first_where_def)

lemma link_step_inv:
  assumes inv: "link_inv parents k st" and ok: "parents_ok parents" and k: "k < length parents"
  shows "\<exists>st'. link_step parents k st = Inr st' \<and> link_inv parents (Suc k) st'"
proof (cases "parents ! k < 0")
  case True
  have "link_inv parents (Suc k) st" unfolding link_inv_def
  proof (intro conjI allI impI)
    fix p assume p: "p < length parents"
    have ne: "parents ! k \<noteq> int q" for q using True by simp
    have "ls_sibling st ! p = (if parents ! p < 0 then - 1
        else first_where (\<lambda>j. parents ! j = parents ! p) [Suc p..<k])" using inv p by (simp add: link_inv_def)
    then show "ls_sibling st ! p = (if parents ! p < 0 then - 1
        else first_where (\<lambda>j. parents ! j = parents ! p) [Suc p..<Suc k])"
      using True by (cases "Suc p \<le> k") (auto simp: first_where_append first_where_Cons first_where_none first_where_neg)
    show "ls_last st ! p = first_where (\<lambda>j. parents ! j = int p) (rev [0..<Suc k])"
      "ls_token st ! p = first_where (\<lambda>j. parents ! j = int p) [0..<Suc k]"
      using inv p ne by (auto simp: link_inv_def first_where_Cons first_where_append first_where_none first_where_neg)
  qed (use inv in \<open>simp_all add: link_inv_def\<close>)
  then show ?thesis using True by (simp add: link_step_def Let_def)
next
  case False
  define p where "p = nat (parents ! k)"
  have pk: "parents ! k = int p" using False by (simp add: p_def)
  have p: "p < length parents" using ok nth_mem[OF k] pk by (auto simp: parents_ok_def)
  define prev where "prev = ls_last st ! p"
  have prev: "prev = first_where (\<lambda>j. parents ! j = int p) (rev [0..<k])" using inv p by (simp add: link_inv_def prev_def)
  have len: "length (ls_last st) = length parents" "length (ls_token st) = length parents"
    "length (ls_sibling st) = length parents" using inv by (simp_all add: link_inv_def)
  have L: "ls_last st ! q = first_where (\<lambda>j. parents ! j = int q) (rev [0..<k])"
    and T: "ls_token st ! q = first_where (\<lambda>j. parents ! j = int q) [0..<k]"
    and S: "ls_sibling st ! q = (if parents ! q < 0 then - 1 else first_where (\<lambda>j. parents ! j = parents ! q) [Suc q..<k])"
    if "q < length parents" for q using inv that by (simp_all add: link_inv_def)
  define st1 where "st1 = (if prev < 0 then st\<lparr>ls_token := (ls_token st)[p := int k]\<rparr>
                    else st\<lparr>ls_sibling := (ls_sibling st)[nat prev := int k]\<rparr>)"
  let ?st' = "st1\<lparr>ls_last := (ls_last st1)[p := int k]\<rparr>"
  have step: "link_step parents k st = Inr ?st'"
    using False p pk unfolding st1_def prev_def by (simp add: link_step_def Let_def)
  have tok: "ls_token ?st' ! q = first_where (\<lambda>j. parents ! j = int q) [0..<Suc k]" if q: "q < length parents" for q
  proof (cases "q = p")
    case True
    have "prev < 0 \<longleftrightarrow> first_where (\<lambda>j. parents ! j = int p) [0..<k] < 0"
      unfolding prev first_where_neg by simp
    then show ?thesis using True T[OF p] pk len p by (auto simp: st1_def first_where_append first_where_Cons)
  next
    case False
    then have "parents ! k \<noteq> int q" using pk by simp
    then show ?thesis using False T[OF q] len first_where_none[of "[]"]
      by (auto simp: st1_def first_where_append first_where_Cons first_where_neg first_where_none)
  qed
  have last: "ls_last ?st' ! q = first_where (\<lambda>j. parents ! j = int q) (rev [0..<Suc k])" if q: "q < length parents" for q
    using L[OF q] pk len p by (cases "q = p") (auto simp: st1_def first_where_Cons)
  have sib: "ls_sibling ?st' ! q = (if parents ! q < 0 then - 1
      else first_where (\<lambda>j. parents ! j = parents ! q) [Suc q..<Suc k])" if q: "q < length parents" for q
  proof (cases "parents ! q = int p")
    case other: False
    have "ls_sibling ?st' ! q = ls_sibling st ! q"
    proof (cases "prev < 0")
      case False
      have "parents ! nat prev = int p" using first_where_rev(2)[of "\<lambda>j. parents ! j = int p" k "nat prev"] False prev by simp
      then have "q \<noteq> nat prev" using other by auto
      then show ?thesis using False by (simp add: st1_def)
    qed (simp add: st1_def)
    then show ?thesis using other S[OF q] pk
      by (cases "Suc q \<le> k") (auto simp: first_where_append first_where_Cons first_where_none first_where_neg)
  next
    case same: True
    show ?thesis
    proof (cases "prev < 0")
      case True
      then have none: "\<forall>j<k. parents ! j \<noteq> int p" unfolding prev first_where_neg by simp
      then have "k \<le> q" using same not_le by blast
      then show ?thesis using True S[OF q] by (simp add: st1_def)
    next
      case False
      have eq: "first_where (\<lambda>j. parents ! j = int p) (rev [0..<k]) = int (nat prev)"
        using False unfolding prev[symmetric] by simp
      have m: "nat prev < k" "parents ! nat prev = int p" "\<forall>j. nat prev < j \<longrightarrow> j < k \<longrightarrow> parents ! j \<noteq> int p"
        using first_where_rev[OF eq] by blast+
      show ?thesis
      proof (cases "q = nat prev")
        case True
        have "first_where (\<lambda>j. parents ! j = int p) [Suc q..<Suc k] = int k"
        proof -
          have "first_where (\<lambda>j. parents ! j = int p) [Suc q..<k] < 0"
            unfolding first_where_neg using m(3) True by auto
          then show ?thesis using m(1) True pk by (auto simp: first_where_append first_where_Cons)
        qed
        then show ?thesis using True False same len q by (simp add: st1_def)
      next
        case ne: False
        have "ls_sibling ?st' ! q = ls_sibling st ! q" using ne False by (simp add: st1_def)
        moreover have "first_where (\<lambda>j. parents ! j = int p) [Suc q..<Suc k] = first_where (\<lambda>j. parents ! j = int p) [Suc q..<k]"
        proof (cases "q < k")
          case True
          then have "q < nat prev" using m(3) same ne by (metis linorder_neqE_nat)
          then have "\<not> first_where (\<lambda>j. parents ! j = int p) [Suc q..<k] < 0"
            unfolding first_where_neg using m(1,2) by (auto intro!: bexI[of _ "nat prev"])
          then show ?thesis using True by (simp add: first_where_append)
        next
          case False
          then show ?thesis by simp
        qed
        ultimately show ?thesis using S[OF q] same by simp
      qed
    qed
  qed
  have "length (ls_last ?st') = length parents" "length (ls_token ?st') = length parents"
    "length (ls_sibling ?st') = length parents" using len by (simp_all add: st1_def)
  then have "link_inv parents (Suc k) ?st'" unfolding link_inv_def using tok last sib by blast
  with step show ?thesis by blast
qed
lemma link_loop_inv:
  "link_inv parents k st \<Longrightarrow> parents_ok parents \<Longrightarrow> k + m = length parents
    \<Longrightarrow> \<exists>st'. link_loop parents [k..<length parents] st = Inr st' \<and> link_inv parents (length parents) st'"
proof (induction m arbitrary: k st)
  case (Suc m)
  then have k: "k < length parents" by simp
  from link_step_inv[OF Suc.prems(1,2) k] obtain st' where
    "link_step parents k st = Inr st'" "link_inv parents (Suc k) st'" by blast
  with Suc.IH[of "Suc k" st'] Suc.prems k show ?case by (auto simp: upt_conv_Cons)
qed auto

lemma links_spec:
  assumes "parents_ok parents"
  shows "parents_to_next_token_and_sibling parents
    = Inr (map (first_child parents) [0..<length parents], map (next_sibling parents) [0..<length parents])"
proof -
  let ?n = "length parents"
  let ?st = "\<lparr>ls_last = replicate ?n (- 1), ls_token = replicate ?n (- 1), ls_sibling = replicate ?n (- 1)\<rparr>"
  have "link_inv parents 0 ?st" by (simp add: link_inv_def first_where_none)
  from link_loop_inv[OF this assms, of ?n] obtain st' where
    st: "link_loop parents [0..<?n] ?st = Inr st'" "link_inv parents ?n st'" by auto
  have "ls_token st' = map (first_child parents) [0..<?n]" "ls_sibling st' = map (next_sibling parents) [0..<?n]"
    using st(2) by (auto intro!: nth_equalityI simp: link_inv_def first_child_def next_sibling_def)
  then show ?thesis using st(1) by (simp add: parents_to_next_token_and_sibling_def Let_def)
qed

section \<open>The minima compute them\<close>

lemma Min_first_where:
  assumes "0 < N"
  shows "(let m = Min (set (map (\<lambda>c. if P c then int c else int N + 1) [0..<N])) in if m = int N + 1 then - 1 else m)
      = first_where P [0..<N]"
    and "(let m = Min (set (map (\<lambda>c. if P c then int c else int N + 1) [0..<N])) in if m < int N + 1 then m else - 1)
      = first_where P [0..<N]"
proof -
  let ?S = "set (map (\<lambda>c. if P c then int c else int N + 1) [0..<N])"
  have "Min ?S = (case find P [0..<N] of None \<Rightarrow> int N + 1 | Some j \<Rightarrow> int j)"
  proof (cases "find P [0..<N]")
    case None
    then have "?S = {int N + 1}" using assms by (auto simp: find_none_iff image_iff intro: bexI[of _ 0])
    then show ?thesis using None by simp
  next
    case (Some j)
    have j: "j < N" "P j" using find_Some_mem[OF Some] by simp_all
    have "\<forall>k<j. \<not> P k" using find_upt_least[OF Some] by simp
    then have "\<forall>x\<in>?S. int j \<le> x" using j by (auto simp: not_less[symmetric])
    moreover have "int j \<in> ?S" using j by force
    ultimately have "Min ?S = int j" by (intro Min_eqI) (simp_all del: set_map)
    then show ?thesis using Some by simp
  qed
  moreover have "find P [0..<N] = Some j \<Longrightarrow> int j < int N + 1" for j using find_Some_mem by fastforce
  ultimately show "(let m = Min ?S in if m = int N + 1 then - 1 else m) = first_where P [0..<N]"
    "(let m = Min ?S in if m < int N + 1 then m else - 1) = first_where P [0..<N]"
    by (auto simp: first_where_def Let_def split: option.split)
qed

lemma first_where_guard:
  "first_where (\<lambda>k. j < k \<and> P k) [0..<N] = first_where P [Suc j..<N]"
proof (cases "Suc j \<le> N")
  case True
  then have "[0..<N] = [0..<Suc j] @ [Suc j..<N]" using upt_add_eq_append[of 0 "Suc j" "N - Suc j"] by simp
  moreover have "first_where (\<lambda>k. j < k \<and> P k) [0..<Suc j] < 0" unfolding first_where_neg by auto
  moreover have "first_where (\<lambda>k. j < k \<and> P k) [Suc j..<N] = first_where P [Suc j..<N]"
  proof -
    have "find (\<lambda>k. j < k \<and> P k) xs = find P xs" if "\<forall>x\<in>set xs. j < x" for xs
      using that by (induction xs) auto
    then show ?thesis by (simp add: first_where_def)
  qed
  ultimately show ?thesis by (simp add: first_where_append del: upt_Suc)
next
  case False
  then show ?thesis by (simp add: first_where_none)
qed

lemma first_where_cong: "(\<And>x. x \<in> set xs \<Longrightarrow> P x = Q x) \<Longrightarrow> first_where P xs = first_where Q xs"
  unfolding first_where_def by (metis find_cong)

text \<open>A scattered minimum leaves at every place the least value written there.\<close>

lemma length_scatter_amin [simp]: "length (scatter_amin writes buf) = length buf"
  unfolding scatter_amin_def by (induction writes arbitrary: buf) (auto split: prod.split)

lemma Min_insert_min: "finite S \<Longrightarrow> Min (insert (min a x) S) = Min (insert a (insert x S))" for a :: int
  by (cases "S = {}") (simp_all add: min.assoc)

lemma scatter_amin_nth:
  assumes "i < length buf" "\<forall>w\<in>set writes. fst w < length buf"
  shows "scatter_amin writes buf ! i = Min (insert (buf ! i) (snd ` {w \<in> set writes. fst w = i}))"
  using assms
proof (induction writes arbitrary: buf)
  case Nil
  then show ?case by (simp add: scatter_amin_def)
next
  case (Cons w writes)
  let ?S = "snd ` {w \<in> set writes. fst w = i}"
  let ?b = "buf[fst w := min (buf ! fst w) (snd w)]"
  have fin: "finite ?S" by simp
  have "scatter_amin (w # writes) buf ! i = scatter_amin writes ?b ! i"
    by (simp add: scatter_amin_def case_prod_beta)
  also have "\<dots> = Min (insert (?b ! i) ?S)" using Cons.IH[of ?b] Cons.prems by simp
  also have "\<dots> = Min (insert (buf ! i) (snd ` {v \<in> set (w # writes). fst v = i}))"
  proof (cases "fst w = i")
    case True
    have "{v \<in> set (w # writes). fst v = i} = insert w {v \<in> set writes. fst v = i}" using True by auto
    then show ?thesis using True Cons.prems Min_insert_min[OF fin, of "buf ! i" "snd w"] by simp
  next
    case False
    then have "{v \<in> set (w # writes). fst v = i} = {v \<in> set writes. fst v = i}" by auto
    then show ?thesis using False by simp
  qed
  finally show ?case .
qed
text \<open>
  The row of a raw tree in tree coordinates: the root has no parent (the worker stores \<open>-1\<close>), and
  a raw parent of \<open>-1\<close> is the root.
\<close>

definition worker_parents :: "int list \<Rightarrow> int list" where
  "worker_parents raw = (case raw of [] \<Rightarrow> [] | r # rest \<Rightarrow> - 1 # map (\<lambda>p. if 0 \<le> p then p + 1 else 0) rest)"

definition raw_ok :: "nat \<Rightarrow> int list \<Rightarrow> bool" where
  "raw_ok N raw \<longleftrightarrow> length raw = N \<and> (\<forall>p\<in>set raw. - 1 \<le> p \<and> p < int N - 1)"

lemma worker_parents_nth:
  assumes "raw_ok N raw" "j < N"
  shows "worker_parents raw ! j = (if j = 0 then - 1 else topo_of_raw (take N raw) ! j)"
    "topo_of_raw (take N raw) ! j \<in> {0..<int N}" "length (worker_parents raw) = N"
proof -
  have len: "length raw = N" using assms by (simp add: raw_ok_def)
  have r: "- 1 \<le> raw ! j \<and> raw ! j < int N - 1" using assms len nth_mem[of j raw] by (auto simp: raw_ok_def)
  show "topo_of_raw (take N raw) ! j \<in> {0..<int N}" using r len assms(2) by (auto simp: topo_of_raw_def)
  show "length (worker_parents raw) = N" using len assms(2) by (cases raw) (auto simp: worker_parents_def)
  show "worker_parents raw ! j = (if j = 0 then - 1 else topo_of_raw (take N raw) ! j)"
  proof (cases raw)
    case (Cons r0 rest)
    show ?thesis
    proof (cases j)
      case (Suc m)
      have m: "m < length rest" using Suc Cons len assms(2) by simp
      have "- 1 \<le> rest ! m" using r Suc Cons by simp
      then show ?thesis using Suc Cons m len by (auto simp: worker_parents_def topo_of_raw_def)
    qed (simp add: worker_parents_def Cons)
  qed (use assms(2) len in simp)
qed

lemma set_concat_grid:
  "w \<in> set (concat (map (\<lambda>b. map (f b) [0..<n]) [0..<m])) \<longleftrightarrow> (\<exists>a j. a < m \<and> j < n \<and> w = f a j)"
proof
  assume "w \<in> set (concat (map (\<lambda>b. map (f b) [0..<n]) [0..<m]))"
  then obtain b where b: "b < m" "w \<in> set (map (f b) [0..<n])" by auto
  then obtain j where "j < n" "w = f b j" by auto
  with b(1) show "\<exists>a j. a < m \<and> j < n \<and> w = f a j" by blast
next
  assume "\<exists>a j. a < m \<and> j < n \<and> w = f a j"
  then obtain a j where aj: "a < m" "j < n" "w = f a j" by blast
  then have "w \<in> set (map (f a) [0..<n])" by simp
  with aj(1) show "w \<in> set (concat (map (\<lambda>b. map (f b) [0..<n]) [0..<m]))" by auto
qed

definition gpu_writes :: "nat \<Rightarrow> int list list \<Rightarrow> (nat \<times> int) list" where
  "gpu_writes N trees = concat (map (\<lambda>b. map (\<lambda>j. (nat (int (b * N) + map (\<lambda>t. topo_of_raw (take N t)) trees ! b ! j),
      if 1 \<le> j then int j else int N + 1)) [0..<N]) [0..<length trees])"

lemma gpu_token_buf:
  assumes ok: "\<forall>t\<in>set trees. raw_ok N t" and b: "b < length trees" and p: "p < N"
  shows "scatter_amin (gpu_writes N trees) (replicate (length trees * N) (int N + 1)) ! (b * N + p)
    = Min (set (map (\<lambda>c. if worker_parents (trees ! b) ! c = int p then int c else int N + 1) [0..<N]))"
proof -
  have topo: "topo_of_raw (take N (trees ! a)) ! j \<in> {0..<int N}" if "a < length trees" "j < N" for a j
    using worker_parents_nth(2)[of N "trees ! a" j] ok that by simp
  have addr: "nat (int (a * N) + topo_of_raw (take N (trees ! a)) ! j) = a * N + nat (topo_of_raw (take N (trees ! a)) ! j)"
    if "a < length trees" "j < N" for a j
  proof -
    have "0 \<le> topo_of_raw (take N (trees ! a)) ! j" using topo[OF that] by simp
    then show ?thesis by (simp only: nat_add_distrib nat_int of_nat_0_le_iff)
  qed
  have writes: "w \<in> set (gpu_writes N trees) \<longleftrightarrow> (\<exists>a j. a < length trees \<and> j < N
      \<and> w = (a * N + nat (topo_of_raw (take N (trees ! a)) ! j), if 1 \<le> j then int j else int N + 1))" for w
  proof -
    have "w \<in> set (gpu_writes N trees) \<longleftrightarrow> (\<exists>a j. a < length trees \<and> j < N
      \<and> w = (nat (int (a * N) + topo_of_raw (take N (trees ! a)) ! j), if 1 \<le> j then int j else int N + 1))"
      unfolding gpu_writes_def set_concat_grid by (simp cong: conj_cong)
    also have "\<dots> \<longleftrightarrow> (\<exists>a j. a < length trees \<and> j < N
      \<and> w = (a * N + nat (topo_of_raw (take N (trees ! a)) ! j), if 1 \<le> j then int j else int N + 1))"
      by (rule iffI; elim exE conjE; intro exI conjI; assumption?) (simp_all only: addr)
    finally show ?thesis .
  qed
  have inside: "a * N + x < length trees * N" if "a < length trees" "x < N" for a x
  proof -
    have "Suc a * N \<le> length trees * N" using that(1) by (simp only: mult_le_mono1 Suc_leI)
    then show ?thesis using that(2) by simp
  qed
  have sel: "snd ` {w \<in> set (gpu_writes N trees). fst w = b * N + p}
      = (\<lambda>j. if 1 \<le> j then int j else int N + 1) ` {j. j < N \<and> topo_of_raw (take N (trees ! b)) ! j = int p}"
  proof (intro equalityI subsetI)
    fix x assume "x \<in> snd ` {w \<in> set (gpu_writes N trees). fst w = b * N + p}"
    then obtain a j where aj: "a < length trees" "j < N" "x = (if 1 \<le> j then int j else int N + 1)"
        "a * N + nat (topo_of_raw (take N (trees ! a)) ! j) = b * N + p"
      using writes by force
    have t: "nat (topo_of_raw (take N (trees ! a)) ! j) < N" using topo[OF aj(1,2)] by auto
    have "(a * N + nat (topo_of_raw (take N (trees ! a)) ! j)) div N = a" "(b * N + p) div N = b" using t p by simp_all
    then have "a = b" using aj(4) by simp
    then have "topo_of_raw (take N (trees ! b)) ! j = int p" using aj(4) topo[OF aj(1,2)] by auto
    then show "x \<in> (\<lambda>j. if 1 \<le> j then int j else int N + 1) ` {j. j < N \<and> topo_of_raw (take N (trees ! b)) ! j = int p}"
      using aj(2,3) by blast
  next
    fix x assume "x \<in> (\<lambda>j. if 1 \<le> j then int j else int N + 1) ` {j. j < N \<and> topo_of_raw (take N (trees ! b)) ! j = int p}"
    then obtain j where j: "j < N" "topo_of_raw (take N (trees ! b)) ! j = int p" "x = (if 1 \<le> j then int j else int N + 1)"
      by blast
    then have "(b * N + p, x) \<in> set (gpu_writes N trees)" using writes b by (intro iffD2[OF writes] exI[of _ b] exI[of _ j]) simp
    then show "x \<in> snd ` {w \<in> set (gpu_writes N trees). fst w = b * N + p}" by force
  qed
  have wp: "worker_parents (trees ! b) ! c = (if c = 0 then - 1 else topo_of_raw (take N (trees ! b)) ! c)" if "c < N" for c
    using worker_parents_nth(1)[of N "trees ! b" c] ok b that by simp
  have img: "insert (int N + 1) ((\<lambda>j. if 1 \<le> j then int j else int N + 1) ` {j. j < N \<and> topo_of_raw (take N (trees ! b)) ! j = int p})
    = set (map (\<lambda>c. if worker_parents (trees ! b) ! c = int p then int c else int N + 1) [0..<N])" (is "?A = ?B")
  proof (intro equalityI subsetI)
    fix x assume "x \<in> ?A"
    then consider "x = int N + 1" | j where "1 \<le> j" "j < N" "topo_of_raw (take N (trees ! b)) ! j = int p" "x = int j"
      by (auto split: if_splits)
    then show "x \<in> ?B"
    proof cases
      case 1
      have "x = (if worker_parents (trees ! b) ! 0 = int p then int 0 else int N + 1)" using 1 wp[of 0] p by simp
      then show ?thesis unfolding set_map by (rule image_eqI) (use p in simp)
    next
      case 2
      then have "x = (if worker_parents (trees ! b) ! j = int p then int j else int N + 1)" using wp by simp
      then show ?thesis unfolding set_map by (rule image_eqI) (use 2(2) in simp)
    qed
  next
    fix x assume "x \<in> ?B"
    then obtain c where c: "c < N" "x = (if worker_parents (trees ! b) ! c = int p then int c else int N + 1)" by auto
    show "x \<in> ?A"
    proof (cases "worker_parents (trees ! b) ! c = int p")
      case True
      then have "1 \<le> c" "topo_of_raw (take N (trees ! b)) ! c = int p" using wp[OF c(1)] by (auto split: if_splits)
      then show ?thesis using c True by auto
    qed (use c in simp)
  qed
  have fits: "\<forall>w\<in>set (gpu_writes N trees). fst w < length (replicate (length trees * N) (int N + 1))"
  proof
    fix w assume "w \<in> set (gpu_writes N trees)"
    then obtain a j where aj: "a < length trees" "j < N" "fst w = a * N + nat (topo_of_raw (take N (trees ! a)) ! j)"
      using writes by auto
    have "nat (topo_of_raw (take N (trees ! a)) ! j) < N" using topo[OF aj(1,2)] by auto
    from inside[OF aj(1) this] aj(3) show "fst w < length (replicate (length trees * N) (int N + 1))" by simp
  qed
  let ?buf = "replicate (length trees * N) (int N + 1)"
  have at: "b * N + p < length ?buf" using inside[OF b p] by simp
  have "?buf ! (b * N + p) = int N + 1" using inside[OF b p] by simp
  with scatter_amin_nth[OF at fits] show ?thesis by (simp only: sel img)
qed

lemma gpu_links_spec:
  assumes ok: "\<forall>t\<in>set trees. raw_ok N t"
  shows "build_retrieve_links_gpu N trees
    = (map (\<lambda>t. map (first_child (worker_parents t)) [0..<N]) trees,
       map (\<lambda>t. map (next_sibling (worker_parents t)) [0..<N]) trees)"
proof -
  let ?topo = "map (\<lambda>t. topo_of_raw (take N t)) trees" and ?inf = "int N + 1"
  let ?un = "\<lambda>x :: int. if x = ?inf then - 1 else x"
  let ?buf = "scatter_amin (gpu_writes N trees) (replicate (length trees * N) ?inf)"
  have len: "length (worker_parents (trees ! b)) = N" if "b < length trees" "j < N" for b j
    using worker_parents_nth(3)[of N "trees ! b" j] ok that by simp
  have tok: "map (\<lambda>b. map (\<lambda>p. ?un (?buf ! (b * N + p))) [0..<N]) [0..<length trees]
    = map (\<lambda>t. map (first_child (worker_parents t)) [0..<N]) trees"
  proof (rule nth_equalityI)
    fix b assume "b < length (map (\<lambda>b. map (\<lambda>p. ?un (?buf ! (b * N + p))) [0..<N]) [0..<length trees])"
    then have b: "b < length trees" by simp
    have nb: "[0..<length trees] ! b = b" using b by simp
    have un: "?un (?buf ! (b * N + p)) = first_child (worker_parents (trees ! b)) p" if p: "p < N" for p
      using Min_first_where(1)[of N "\<lambda>c. worker_parents (trees ! b) ! c = int p"] p len[OF b p]
      unfolding gpu_token_buf[OF ok b p] first_child_def Let_def by simp
    have "map (\<lambda>p. ?un (?buf ! (b * N + p))) [0..<N] = map (first_child (worker_parents (trees ! b))) [0..<N]"
      by (rule map_cong[OF refl], rule un) simp
    then show "map (\<lambda>b. map (\<lambda>p. ?un (?buf ! (b * N + p))) [0..<N]) [0..<length trees] ! b
      = map (\<lambda>t. map (first_child (worker_parents t)) [0..<N]) trees ! b"
      using b by (simp only: nth_map length_map length_upt diff_zero nb)
  qed simp
  have sib: "map (\<lambda>b. map (\<lambda>j. ?un (Min (set (map (\<lambda>k. if j < k \<and> ?topo ! b ! j = ?topo ! b ! k \<and> 1 \<le> j
                        then int k else ?inf) [0..<N])))) [0..<N]) [0..<length trees]
    = map (\<lambda>t. map (next_sibling (worker_parents t)) [0..<N]) trees"
  proof (rule nth_equalityI)
    fix b assume "b < length (map (\<lambda>b. map (\<lambda>j. ?un (Min (set (map (\<lambda>k. if j < k \<and> ?topo ! b ! j = ?topo ! b ! k \<and> 1 \<le> j
                        then int k else ?inf) [0..<N])))) [0..<N]) [0..<length trees])"
    then have b: "b < length trees" by simp
    have nb: "[0..<length trees] ! b = b" using b by simp
    have un: "?un (Min (set (map (\<lambda>k. if j < k \<and> ?topo ! b ! j = ?topo ! b ! k \<and> 1 \<le> j then int k else ?inf) [0..<N])))
      = next_sibling (worker_parents (trees ! b)) j" if j: "j < N" for j
    proof -
      let ?wp = "worker_parents (trees ! b)"
      have wp: "?wp ! c = (if c = 0 then - 1 else ?topo ! b ! c)" if "c < N" for c
        using worker_parents_nth(1)[of N "trees ! b" c] ok b that by simp
      have nn: "0 \<le> ?topo ! b ! j" using worker_parents_nth(2)[of N "trees ! b" j] ok b j by simp
      have "?un (Min (set (map (\<lambda>k. if j < k \<and> ?topo ! b ! j = ?topo ! b ! k \<and> 1 \<le> j then int k else ?inf) [0..<N])))
        = first_where (\<lambda>k. j < k \<and> ?topo ! b ! j = ?topo ! b ! k \<and> 1 \<le> j) [0..<N]"
        using Min_first_where(1)[of N "\<lambda>k. j < k \<and> ?topo ! b ! j = ?topo ! b ! k \<and> 1 \<le> j"] j unfolding Let_def by simp
      also have "\<dots> = first_where (\<lambda>k. ?topo ! b ! j = ?topo ! b ! k \<and> 1 \<le> j) [Suc j..<N]"
        by (rule first_where_guard)
      also have "\<dots> = next_sibling ?wp j"
      proof (cases "j = 0")
        case True
        then show ?thesis using wp[of 0] j by (simp add: next_sibling_def first_where_none)
      next
        case False
        then have "?wp ! j = ?topo ! b ! j" "\<not> ?wp ! j < 0" using wp[OF j] nn by simp_all
        then show ?thesis using False wp len[OF b j] unfolding next_sibling_def
          by (auto intro!: first_where_cong)
      qed
      finally show ?thesis .
    qed
    have "map (\<lambda>j. ?un (Min (set (map (\<lambda>k. if j < k \<and> ?topo ! b ! j = ?topo ! b ! k \<and> 1 \<le> j
                        then int k else ?inf) [0..<N])))) [0..<N] = map (next_sibling (worker_parents (trees ! b))) [0..<N]"
      by (rule map_cong[OF refl], rule un) simp
    then show "map (\<lambda>b. map (\<lambda>j. ?un (Min (set (map (\<lambda>k. if j < k \<and> ?topo ! b ! j = ?topo ! b ! k \<and> 1 \<le> j
                        then int k else ?inf) [0..<N])))) [0..<N]) [0..<length trees] ! b
      = map (\<lambda>t. map (next_sibling (worker_parents t)) [0..<N]) trees ! b"
      using b by (simp only: nth_map length_map length_upt diff_zero nb)
  qed simp
  show ?thesis using tok sib unfolding build_retrieve_links_gpu_def Let_def gpu_writes_def by simp
qed

lemma row_kernel_spec:
  assumes "length topo = N" "length valid = N - 1" "q < N"
    and "\<forall>c<N. topo ! c < 0 \<longleftrightarrow> c = 0 \<or> \<not> valid ! (c - 1)"
  shows "links_row_kernel N topo valid q = (first_child topo q, next_sibling topo q)"
proof -
  have child: "first_where (\<lambda>c. 0 < c \<and> valid ! (c - 1) \<and> topo ! c = int q) [0..<N] = first_child topo q"
    unfolding first_child_def assms(1) using assms(4) by (intro first_where_cong) auto
  have "first_where (\<lambda>c. 0 < c \<and> valid ! (c - 1) \<and> q < c \<and> 0 < q \<and> (q = 0 \<or> valid ! (q - 1)) \<and> topo ! c = topo ! q) [0..<N]
    = first_where (\<lambda>c. q < c \<and> (0 < c \<and> valid ! (c - 1) \<and> 0 < q \<and> (q = 0 \<or> valid ! (q - 1)) \<and> topo ! c = topo ! q)) [0..<N]"
    by (rule first_where_cong) auto
  also have "\<dots> = first_where (\<lambda>c. 0 < c \<and> valid ! (c - 1) \<and> 0 < q \<and> (q = 0 \<or> valid ! (q - 1)) \<and> topo ! c = topo ! q) [Suc q..<N]"
    by (rule first_where_guard)
  also have "\<dots> = next_sibling topo q"
  proof (cases "topo ! q < 0")
    case True
    then have "\<not> (0 < q \<and> (q = 0 \<or> valid ! (q - 1)))" using assms(3,4) by auto
    then show ?thesis using True by (auto simp: next_sibling_def intro!: first_where_none)
  next
    case False
    then have "0 < q \<and> (q = 0 \<or> valid ! (q - 1))" using assms(3,4) by auto
    then show ?thesis using False assms(1,4) unfolding next_sibling_def
      by (auto intro!: first_where_cong)
  qed
  finally have sib: "first_where (\<lambda>c. 0 < c \<and> valid ! (c - 1) \<and> q < c \<and> 0 < q \<and> (q = 0 \<or> valid ! (q - 1)) \<and> topo ! c = topo ! q) [0..<N]
    = next_sibling topo q" .
  have N: "0 < N" using assms(3) by simp
  show ?thesis
    using Min_first_where(2)[OF N, of "\<lambda>c. 0 < c \<and> valid ! (c - 1) \<and> topo ! c = int q"]
      Min_first_where(2)[OF N, of "\<lambda>c. 0 < c \<and> valid ! (c - 1) \<and> q < c \<and> 0 < q \<and> (q = 0 \<or> valid ! (q - 1)) \<and> topo ! c = topo ! q"]
    unfolding child sib links_row_kernel_def Let_def by simp
qed
section \<open>Following the pointers\<close>

text \<open>\<open>chain_from\<close>: the nodes met by following the sibling pointers from a node (fuel \<open>n\<close> suffices).\<close>

fun chain_from :: "nat \<Rightarrow> int list \<Rightarrow> int \<Rightarrow> nat list" where
  "chain_from 0 siblings c = []"
| "chain_from (Suc fuel) siblings c = (if c < 0 then [] else nat c # chain_from fuel siblings (siblings ! nat c))"

lemma filter_upt_first:
  "first_where P [a..<n] = int j \<Longrightarrow> filter P [a..<n] = j # filter P [Suc j..<n]"
proof (induction "n - a" arbitrary: a)
  case 0
  then show ?case by (simp add: first_where_def)
next
  case (Suc m)
  then have a: "a < n" by simp
  show ?case
  proof (cases "P a")
    case True
    then show ?thesis using Suc.prems a by (simp add: upt_conv_Cons first_where_Cons)
  next
    case False
    then show ?thesis using Suc.hyps(1)[of "Suc a"] Suc.hyps(2) Suc.prems a by (simp add: upt_conv_Cons first_where_Cons)
  qed
qed

lemma first_where_mem: "first_where P xs = int j \<Longrightarrow> j \<in> set xs \<and> P j"
  using find_Some_mem[of P xs j] by (auto simp: first_where_def split: option.splits)

lemma chain_from_children:
  assumes "\<forall>j<n. parents ! j = q \<longrightarrow> siblings ! j = first_where (\<lambda>k. parents ! k = q) [Suc j..<n]"
    and "n \<le> fuel + a"
  shows "chain_from fuel siblings (first_where (\<lambda>k. parents ! k = q) [a..<n]) = filter (\<lambda>k. parents ! k = q) [a..<n]"
  using assms(2)
proof (induction fuel arbitrary: a)
  case 0
  then show ?case by simp
next
  case (Suc fuel)
  let ?P = "\<lambda>k. parents ! k = q"
  show ?case
  proof (cases "first_where ?P [a..<n] < 0")
    case True
    then have "filter ?P [a..<n] = []" unfolding first_where_neg by (simp add: filter_empty_conv)
    with True show ?thesis by simp
  next
    case False
    then obtain j where j: "first_where ?P [a..<n] = int j" by (metis nat_0_le not_le)
    from first_where_mem[OF j] have mem: "a \<le> j" "j < n" "parents ! j = q" by auto
    have "chain_from fuel siblings (siblings ! j) = filter ?P [Suc j..<n]"
      using assms(1) mem Suc.IH[of "Suc j"] Suc.prems by simp
    then show ?thesis using j filter_upt_first[OF j] by simp
  qed
qed

lemma links_chain:
  assumes "p < length parents"
  shows "chain_from (length parents) (map (next_sibling parents) [0..<length parents]) (first_child parents p)
    = filter (\<lambda>k. parents ! k = int p) [0..<length parents]"
  unfolding first_child_def by (rule chain_from_children) (simp_all add: next_sibling_def)

section \<open>Properties\<close>

text \<open>
  C23.  The three implementations of the tree links agree: for every batch of raw trees of the
  common width, with parents in range, the scattered minima of the GPU path give for every row
  exactly the pointers of the sequential CPU pass on the worker's parents of that row -- no row
  writes into another -- and the row kernel gives the same pointers node by node.
\<close>

theorem tree_links_agree:
  assumes "\<forall>t\<in>set trees. raw_ok N t" "b < length trees"
  shows "parents_to_next_token_and_sibling (worker_parents (trees ! b))
      = Inr (fst (build_retrieve_links_gpu N trees) ! b, snd (build_retrieve_links_gpu N trees) ! b)
    \<and> map (links_row_kernel N (worker_parents (trees ! b)) (replicate (N - 1) True)) [0..<N]
      = zip (fst (build_retrieve_links_gpu N trees) ! b) (snd (build_retrieve_links_gpu N trees) ! b)"
proof -
  let ?wp = "worker_parents (trees ! b)"
  have ok: "raw_ok N (trees ! b)" using assms by simp
  have len: "length ?wp = N"
  proof (cases N)
    case 0
    then show ?thesis using ok by (simp add: raw_ok_def worker_parents_def)
  qed (use worker_parents_nth(3)[OF ok, of 0] in simp)
  have wp: "?wp ! c = (if c = 0 then - 1 else topo_of_raw (take N (trees ! b)) ! c)"
    "topo_of_raw (take N (trees ! b)) ! c \<in> {0..<int N}" if "c < N" for c
    using worker_parents_nth(1,2)[OF ok that] by simp_all
  have pok: "parents_ok ?wp" unfolding parents_ok_def
  proof
    fix p assume "p \<in> set ?wp"
    then obtain c where "c < N" "p = ?wp ! c" using len by (auto simp: in_set_conv_nth)
    then show "p < int (length ?wp)" using wp[of c] len by auto
  qed
  have neg: "\<forall>c<N. ?wp ! c < 0 \<longleftrightarrow> c = 0 \<or> \<not> replicate (N - 1) True ! (c - 1)"
    using wp by (auto simp: not_less)
  have "map (links_row_kernel N ?wp (replicate (N - 1) True)) [0..<N] = map (\<lambda>q. (first_child ?wp q, next_sibling ?wp q)) [0..<N]"
    by (rule map_cong[OF refl], rule row_kernel_spec[OF len _ _ neg]) simp_all
  then show ?thesis using links_spec[OF pok] assms(2) unfolding gpu_links_spec[OF assms(1)]
    by (simp add: len zip_map_map zip_same_conv_map)
qed

theorem tree_links_agree_witness:
  "parents_to_next_token_and_sibling (worker_parents [- 1, - 1, 0, - 1])
     = Inr (fst (build_retrieve_links_gpu 4 [[- 1, - 1, - 1, 1], [- 1, - 1, 0, - 1]]) ! 1,
            snd (build_retrieve_links_gpu 4 [[- 1, - 1, - 1, 1], [- 1, - 1, 0, - 1]]) ! 1)
   \<and> parents_to_next_token_and_sibling (worker_parents [- 1, - 1, 0, - 1]) = Inr ([1, 2, - 1, - 1], [- 1, 3, - 1, - 1])"
proof -
  have ok: "\<forall>t\<in>set [[- 1, - 1, - 1, 1], [- 1, - 1, 0, - 1]]. raw_ok 4 t" by (simp add: raw_ok_def)
  have "parents_to_next_token_and_sibling (worker_parents [- 1, - 1, 0, - 1]) = Inr ([1, 2, - 1, - 1], [- 1, 3, - 1, - 1])"
    by (simp add: parents_to_next_token_and_sibling_def worker_parents_def link_step_def upt_rec Let_def)
  then show ?thesis using tree_links_agree[OF ok, of 1] by simp
qed

text \<open>
  C24.  The pointers are a faithful encoding of the tree: when every parent lies in the tree (or is
  negative), the pass succeeds, and following the sibling pointers from the first child of any
  node lists exactly the children of that node in ascending order; so the parents of all nodes
  can be read back from the pointers.
\<close>

theorem tree_links_roundtrip:
  assumes "parents_ok parents"
  shows "\<exists>token sibling. parents_to_next_token_and_sibling parents = Inr (token, sibling)
    \<and> (\<forall>p<length parents. chain_from (length parents) sibling (token ! p) = filter (\<lambda>c. parents ! c = int p) [0..<length parents]
        \<and> (\<forall>c<length parents. parents ! c = int p \<longleftrightarrow> c \<in> set (chain_from (length parents) sibling (token ! p))))"
proof -
  have "chain_from (length parents) (map (next_sibling parents) [0..<length parents]) (map (first_child parents) [0..<length parents] ! p)
      = filter (\<lambda>c. parents ! c = int p) [0..<length parents]" if "p < length parents" for p
    using links_chain[OF that] that by simp
  then show ?thesis using links_spec[OF assms] by simp
qed

theorem tree_links_roundtrip_witness:
  "\<exists>token sibling. parents_to_next_token_and_sibling [- 1, 0, 0, 1, 0] = Inr (token, sibling)
    \<and> chain_from 5 sibling (token ! 0) = [1, 2, 4]"
proof -
  have ok: "parents_ok [- 1, 0, 0, 1, 0]" by (simp add: parents_ok_def)
  have "filter (\<lambda>c. [- 1, 0, 0, 1, 0] ! c = int 0) [0..<length [- 1, 0, 0, 1, 0 :: int]] = [1, 2, 4]"
    by (simp add: upt_rec)
  moreover obtain token sibling where ts: "parents_to_next_token_and_sibling [- 1, 0, 0, 1, 0] = Inr (token, sibling)"
      "\<forall>p<length [- 1, 0, 0, 1, 0 :: int]. chain_from (length [- 1, 0, 0, 1, 0 :: int]) sibling (token ! p)
          = filter (\<lambda>c. [- 1, 0, 0, 1, 0] ! c = int p) [0..<length [- 1, 0, 0, 1, 0 :: int]]"
    using tree_links_roundtrip[OF ok] by blast
  moreover have "0 < length [- 1, 0, 0, 1, 0 :: int]" "length [- 1, 0, 0, 1, 0 :: int] = 5" by simp_all
  ultimately show ?thesis by metis
qed

end
