(* ===== verification/Paged_Verify.thy ===== *)
theory Paged_Verify
  imports Tree_Verify Tree_Links
begin

text \<open>
  Greedy verification on the paged path: the kernel \<open>_verify_tree_greedy_kernel\<close>
  (\<open>sgl-kernel/python/sgl_kernel/metax_speculative.py\<close>), which walks the tree along the
  first-child and next-sibling pointers, and the method around it
  (\<open>SpecBlockVerifyInput._greedy_verify\<close>, \<open>_fill_requests\<close> and \<open>_free_cache\<close> in
  \<open>specblock_info.py\<close>).  Tensors over a batch are flat lists; \<open>retrive_index\<close> maps the node of a
  row to its flat position.  A \<open>while\<close> loop of the kernel is fuelled and returns \<open>None\<close> without
  enough fuel; the width of the tree is always enough.
\<close>

section \<open>The kernel\<close>

text \<open>\<open>x.to(tl.int32)\<close>: the two's complement value of the low 32 bits.\<close>

definition to_int32 :: "int \<Rightarrow> int" where
  "to_int32 x = (x + 2 ^ 31) mod 2 ^ 32 - 2 ^ 31"

record verify_state =
  vs_predicts :: "int list"
  vs_accept :: "int list"
  vs_accepted :: nat
  vs_last :: int
  vs_current :: int
  vs_matched :: int

fun verify_scan :: "nat \<Rightarrow> int list \<Rightarrow> int list \<Rightarrow> int list \<Rightarrow> int list \<Rightarrow> verify_state \<Rightarrow> verify_state option" where
  "verify_scan 0 ri sibling cand target st = (if vs_current st < 0 then Some st else None)"
| "verify_scan (Suc fuel) ri sibling cand target st =
     (if vs_current st < 0 then Some st
      else
        (let c = nat (vs_current st);
             draft_index = ri ! c;
             target_token = target ! nat (vs_last st);
             matched = (cand ! c = target_token);
             accepted = vs_accepted st + (if matched then 1 else 0)
         in verify_scan fuel ri sibling cand target
              (st\<lparr>vs_predicts := (if matched then (vs_predicts st)[nat (vs_last st) := to_int32 target_token] else vs_predicts st),
                  vs_accept := (if matched then (vs_accept st)[accepted := to_int32 draft_index] else vs_accept st),
                  vs_accepted := accepted,
                  vs_last := (if matched then draft_index else vs_last st),
                  vs_matched := (if matched then vs_current st else vs_matched st),
                  vs_current := (if matched then - 1 else sibling ! c)\<rparr>)))"

text \<open>One level of the tree: descend to the first child, scan its siblings, go on from the match.\<close>

definition verify_level ::
    "nat \<Rightarrow> int list \<Rightarrow> int list \<Rightarrow> int list \<Rightarrow> int list \<Rightarrow> int list \<Rightarrow> verify_state \<Rightarrow> verify_state option" where
  "verify_level fuel ri child sibling cand target st =
     (let current = (if 0 \<le> vs_current st then child ! nat (vs_current st) else - 1) in
      map_option (\<lambda>s. s\<lparr>vs_current := vs_matched s\<rparr>)
        (verify_scan fuel ri sibling cand target (st\<lparr>vs_current := current, vs_matched := - 1\<rparr>)))"

fun verify_levels ::
    "nat \<Rightarrow> nat \<Rightarrow> int list \<Rightarrow> int list \<Rightarrow> int list \<Rightarrow> int list \<Rightarrow> int list \<Rightarrow> verify_state \<Rightarrow> verify_state option" where
  "verify_levels 0 fuel ri child sibling cand target st = Some st"
| "verify_levels (Suc k) fuel ri child sibling cand target st =
     Option.bind (verify_level fuel ri child sibling cand target st) (verify_levels k fuel ri child sibling cand target)"

definition verify_row ::
    "nat \<Rightarrow> nat \<Rightarrow> int list \<Rightarrow> int list \<Rightarrow> int list \<Rightarrow> int list \<Rightarrow> int list \<Rightarrow> int list \<Rightarrow> int list
      \<Rightarrow> (int list \<times> int list \<times> nat) option" where
  "verify_row steps fuel ri child sibling cand target predicts accept =
     (let last = ri ! 0 in
      map_option (\<lambda>s. ((vs_predicts s)[nat (vs_last s) := to_int32 (target ! nat (vs_last s))], vs_accept s, vs_accepted s))
        (verify_levels (steps - 1) fuel ri child sibling cand target
          \<lparr>vs_predicts = predicts, vs_accept = accept[0 := to_int32 last], vs_accepted = 0, vs_last = last,
           vs_current = 0, vs_matched = - 1\<rparr>))"

text \<open>The grid: one program per request; every program stores to its own rows.\<close>

fun verify_tree_greedy ::
    "nat \<Rightarrow> nat \<Rightarrow> (int list \<times> int list \<times> int list \<times> int list) list \<Rightarrow> int list \<Rightarrow> int list \<Rightarrow> int list list
      \<Rightarrow> (int list \<times> int list list \<times> nat list) option" where
  "verify_tree_greedy steps fuel ((ri, child, sibling, cand) # rows) target predicts (acc # accs) =
     Option.bind (verify_row steps fuel ri child sibling cand target predicts acc) (\<lambda>(predicts', acc', n).
     map_option (\<lambda>(p, as, ns). (p, acc' # as, n # ns)) (verify_tree_greedy steps fuel rows target predicts' accs))"
| "verify_tree_greedy steps fuel _ target predicts _ = Some (predicts, [], [])"

section \<open>The walk the kernel performs\<close>

text \<open>
  \<open>greedy_walk par cand best k c\<close>: from node \<open>c\<close>, at most \<open>k\<close> times descend to the first child
  that carries the token the target chose at the current node.
\<close>

definition tree_parents :: "nat list \<Rightarrow> int list" where
  "tree_parents par = (case par of [] \<Rightarrow> [] | r # rest \<Rightarrow> - 1 # map int rest)"

definition matching_child :: "nat list \<Rightarrow> int list \<Rightarrow> int list \<Rightarrow> nat \<Rightarrow> nat option" where
  "matching_child par cand best c = find (\<lambda>j. tree_parents par ! j = int c \<and> cand ! j = best ! c) [0..<length par]"

fun greedy_walk :: "nat list \<Rightarrow> int list \<Rightarrow> int list \<Rightarrow> nat \<Rightarrow> nat \<Rightarrow> nat list" where
  "greedy_walk par cand best 0 c = []"
| "greedy_walk par cand best (Suc k) c =
     (case matching_child par cand best c of None \<Rightarrow> [] | Some j \<Rightarrow> j # greedy_walk par cand best k j)"

lemma to_int32_small: "- (2 ^ 31) \<le> x \<Longrightarrow> x < 2 ^ 31 \<Longrightarrow> to_int32 x = x"
  by (simp add: to_int32_def)

lemma find_first_where_Suc:
  "first_where P [a..<n] = int j \<Longrightarrow>
     find (\<lambda>k. P k \<and> Q k) [a..<n] = (if Q j then Some j else find (\<lambda>k. P k \<and> Q k) [Suc j..<n])"
proof (induction "n - a" arbitrary: a)
  case 0
  then show ?case by (simp add: first_where_def)
next
  case (Suc m)
  then have a: "a < n" by simp
  show ?case
  proof (cases "P a")
    case True
    then show ?thesis using Suc.prems a by (simp add: upt_conv_Cons first_where_Cons)
  next
    case False
    then show ?thesis using Suc.hyps(1)[of "Suc a"] Suc.hyps(2) Suc.prems a by (simp add: upt_conv_Cons first_where_Cons)
  qed
qed

lemma verify_scan_eq:
  assumes "\<forall>j<n. P j \<longrightarrow> sibling ! j = first_where P [Suc j..<n]"
    and "n \<le> fuel + a" "vs_current st = first_where P [a..<n]"
  shows "verify_scan fuel ri sibling cand target st
    = Some (case find (\<lambda>j. P j \<and> cand ! j = target ! nat (vs_last st)) [a..<n] of
        None \<Rightarrow> st\<lparr>vs_current := - 1\<rparr>
      | Some j \<Rightarrow> st\<lparr>vs_predicts := (vs_predicts st)[nat (vs_last st) := to_int32 (target ! nat (vs_last st))],
                    vs_accept := (vs_accept st)[Suc (vs_accepted st) := to_int32 (ri ! j)],
                    vs_accepted := Suc (vs_accepted st), vs_last := ri ! j, vs_matched := int j, vs_current := - 1\<rparr>)"
  using assms(2,3)
proof (induction fuel arbitrary: a st)
  case 0
  then have "first_where P [a..<n] = - 1" by (simp add: first_where_none)
  then show ?case using 0 by (cases st) simp
next
  case (Suc fuel)
  let ?Q = "\<lambda>j. cand ! j = target ! nat (vs_last st)"
  show ?case
  proof (cases "vs_current st < 0")
    case True
    then have none: "\<forall>x\<in>set [a..<n]. \<not> P x" using Suc.prems(2) first_where_neg by metis
    then have "find (\<lambda>j. P j \<and> ?Q j) [a..<n] = None" by (simp add: find_none_iff)
    moreover have "vs_current st = - 1" using none Suc.prems(2) by (simp add: first_where_none)
    ultimately show ?thesis by (cases st) simp
  next
    case False
    then obtain j where j: "first_where P [a..<n] = int j" "vs_current st = int j" using Suc.prems(2) by (metis nat_0_le not_le)
    from first_where_mem[OF j(1)] have mem: "a \<le> j" "j < n" "P j" by auto
    show ?thesis
    proof (cases "?Q j")
      case True
      then show ?thesis using j find_first_where_Suc[OF j(1), of ?Q]
        by (cases fuel) (simp_all add: Let_def)
    next
      case q: False
      let ?st = "st\<lparr>vs_current := sibling ! j\<rparr>"
      have step: "verify_scan (Suc fuel) ri sibling cand target st = verify_scan fuel ri sibling cand target ?st"
        using j q by (cases st) (simp add: Let_def)
      have "vs_current ?st = first_where P [Suc j..<n]" using assms(1) mem by simp
      from Suc.IH[OF _ this] Suc.prems(1) mem(1) show ?thesis
        unfolding step using find_first_where_Suc[OF j(1), of ?Q] q by (simp split: option.split)
    qed
  qed
qed
text \<open>The pointers of the tree, as the code computes them from \<open>tree_parents\<close>.\<close>

definition row_links :: "nat list \<Rightarrow> int list \<Rightarrow> int list \<Rightarrow> bool" where
  "row_links par child sibling \<longleftrightarrow> parents_to_next_token_and_sibling (tree_parents par) = Inr (child, sibling)"

lemma length_tree_parents [simp]: "length (tree_parents par) = length par"
  by (cases par) (simp_all add: tree_parents_def)

lemma tree_parents_nth:
  "wf_par par \<Longrightarrow> j < length par \<Longrightarrow> tree_parents par ! j = (if j = 0 then - 1 else int (par ! j))"
  by (cases par; cases j) (simp_all add: tree_parents_def)

lemma tree_parents_ok: "wf_par par \<Longrightarrow> parents_ok (tree_parents par)"
proof -
  assume wf: "wf_par par"
  have "tree_parents par ! j < int (length par)" if "j < length par" for j
    using tree_parents_nth[OF wf that] wf_parD[OF wf _ that] that by auto
  then show ?thesis by (auto simp: parents_ok_def in_set_conv_nth)
qed

lemma row_links_nth:
  assumes "wf_par par" "row_links par child sibling"
  shows "length child = length par" "length sibling = length par"
    "p < length par \<Longrightarrow> child ! p = first_where (\<lambda>j. tree_parents par ! j = int p) [0..<length par]"
    "\<forall>j<length par. tree_parents par ! j = int p \<longrightarrow> sibling ! j = first_where (\<lambda>k. tree_parents par ! k = int p) [Suc j..<length par]"
  using assms(2) links_spec[OF tree_parents_ok[OF assms(1)]]
  by (auto simp: row_links_def first_child_def next_sibling_def)

lemma matching_childD:
  assumes "wf_par par" "matching_child par cand best c = Some j"
  shows "0 < j" "j < length par" "par ! j = c" "cand ! j = best ! c"
proof -
  from find_Some_mem[OF assms(2)[unfolded matching_child_def]]
  have j: "j < length par" "tree_parents par ! j = int c" "cand ! j = best ! c" by auto
  then show "0 < j" "j < length par" "par ! j = c" "cand ! j = best ! c"
    using tree_parents_nth[OF assms(1) j(1)] by (auto split: if_splits)
qed

lemma greedy_walk_bound:
  "wf_par par \<Longrightarrow> j \<in> set (greedy_walk par cand best k c) \<Longrightarrow> 0 < j \<and> j < length par"
proof (induction k arbitrary: c)
  case (Suc k)
  then show ?case using matching_childD(1,2)[OF Suc.prems(1)]
    by (cases "matching_child par cand best c") auto
qed simp

lemma length_greedy_walk: "length (greedy_walk par cand best k c) \<le> k"
  by (induction k arbitrary: c) (auto split: option.splits)

definition store_best :: "nat \<Rightarrow> int list \<Rightarrow> nat list \<Rightarrow> int list \<Rightarrow> int list" where
  "store_best base target nodes predicts = fold (\<lambda>i p. p[base + i := to_int32 (target ! (base + i))]) nodes predicts"

definition store_path :: "nat \<Rightarrow> nat \<Rightarrow> nat list \<Rightarrow> int list \<Rightarrow> int list" where
  "store_path base a nodes acc = fold (\<lambda>(m, i) as. as[m := to_int32 (int (base + i))]) (zip [a..<a + length nodes] nodes) acc"

lemma verify_level_idle:
  "vs_current st < 0 \<Longrightarrow> verify_level fuel ri child sibling cand target st = Some (st\<lparr>vs_current := - 1, vs_matched := - 1\<rparr>)"
  by (cases fuel; cases st) (simp_all add: verify_level_def Let_def)

lemma verify_levels_idle:
  "vs_current st < 0 \<Longrightarrow> \<exists>s. verify_levels k fuel ri child sibling cand target st = Some s \<and> vs_predicts s = vs_predicts st
    \<and> vs_accept s = vs_accept st \<and> vs_accepted s = vs_accepted st \<and> vs_last s = vs_last st"
proof (induction k arbitrary: st)
  case (Suc k)
  let ?st = "st\<lparr>vs_current := - 1, vs_matched := - 1\<rparr>"
  show ?case using Suc.IH[of ?st] verify_level_idle[OF Suc.prems] by simp
qed simp

lemma verify_levels_eq:
  assumes wf: "wf_par par" and links: "row_links par child sibling"
    and ri: "\<forall>i<length par. ri ! i = int (base + i)"
    and best: "\<forall>i<length par. best ! i = target ! (base + i)"
  shows "c < length par \<Longrightarrow> vs_current st = int c \<Longrightarrow> vs_last st = int (base + c) \<Longrightarrow>
    \<exists>s. verify_levels k (length par) ri child sibling cand target st = Some s
      \<and> vs_predicts s = store_best base target (butlast (c # greedy_walk par cand best k c)) (vs_predicts st)
      \<and> vs_accept s = store_path base (Suc (vs_accepted st)) (greedy_walk par cand best k c) (vs_accept st)
      \<and> vs_accepted s = vs_accepted st + length (greedy_walk par cand best k c)
      \<and> vs_last s = int (base + last (c # greedy_walk par cand best k c))"
proof (induction k arbitrary: c st)
  case 0
  then show ?case by (simp add: store_best_def store_path_def)
next
  case (Suc k)
  let ?P = "\<lambda>j. tree_parents par ! j = int c"
  let ?st = "st\<lparr>vs_current := child ! c, vs_matched := - 1\<rparr>"
  note L = row_links_nth[OF wf links]
  have tb: "target ! nat (vs_last st) = best ! c" "nat (vs_last st) = base + c" using Suc.prems best by (simp_all add: nat_int_add)
  have mc: "find (\<lambda>j. ?P j \<and> cand ! j = target ! nat (vs_last ?st)) [0..<length par] = matching_child par cand best c"
    using tb by (simp add: matching_child_def)
  have cur: "vs_current ?st = first_where ?P [0..<length par]" using L(3)[OF Suc.prems(1)] by simp
  have scan: "verify_scan (length par) ri sibling cand target ?st
    = Some (case matching_child par cand best c of
        None \<Rightarrow> ?st\<lparr>vs_current := - 1\<rparr>
      | Some j \<Rightarrow> ?st\<lparr>vs_predicts := (vs_predicts st)[base + c := to_int32 (target ! (base + c))],
                    vs_accept := (vs_accept st)[Suc (vs_accepted st) := to_int32 (ri ! j)],
                    vs_accepted := Suc (vs_accepted st), vs_last := ri ! j, vs_matched := int j, vs_current := - 1\<rparr>)"
    using verify_scan_eq[OF L(4) _ cur, of "length par" ri cand target] unfolding mc using tb
    by (simp cong: option.case_cong)
  have level: "verify_level (length par) ri child sibling cand target st = map_option (\<lambda>s. s\<lparr>vs_current := vs_matched s\<rparr>)
      (verify_scan (length par) ri sibling cand target ?st)"
    using Suc.prems(2) by (simp add: verify_level_def)
  show ?case
  proof (cases "matching_child par cand best c")
    case None
    let ?s = "st\<lparr>vs_current := - 1, vs_matched := - 1\<rparr>"
    have "verify_level (length par) ri child sibling cand target st = Some ?s"
      unfolding level scan None by (cases st) simp
    then show ?thesis using verify_levels_idle[of ?s k "length par" ri child sibling cand target] None Suc.prems(3)
      by (simp add: store_best_def store_path_def)
  next
    case (Some j)
    note j = matching_childD[OF wf Some]
    let ?s = "st\<lparr>vs_predicts := (vs_predicts st)[base + c := to_int32 (target ! (base + c))],
                vs_accept := (vs_accept st)[Suc (vs_accepted st) := to_int32 (int (base + j))],
                vs_accepted := Suc (vs_accepted st), vs_last := int (base + j), vs_matched := int j, vs_current := int j\<rparr>"
    have "verify_level (length par) ri child sibling cand target st = Some ?s"
      unfolding level scan Some using ri j(2) by (cases st) simp
    moreover from Suc.IH[OF j(2), of ?s] obtain s where
      "verify_levels k (length par) ri child sibling cand target ?s = Some s"
      "vs_predicts s = store_best base target (butlast (j # greedy_walk par cand best k j)) (vs_predicts ?s)"
      "vs_accept s = store_path base (Suc (vs_accepted ?s)) (greedy_walk par cand best k j) (vs_accept ?s)"
      "vs_accepted s = vs_accepted ?s + length (greedy_walk par cand best k j)"
      "vs_last s = int (base + last (j # greedy_walk par cand best k j))" by auto
    moreover have "[Suc (vs_accepted st)..<Suc (vs_accepted st) + length (j # greedy_walk par cand best k j)]
      = Suc (vs_accepted st) # [Suc (Suc (vs_accepted st))..<Suc (Suc (vs_accepted st)) + length (greedy_walk par cand best k j)]"
      by (subst upt_conv_Cons) simp_all
    ultimately show ?thesis using Some
      by (simp add: store_best_def store_path_def del: upt_Suc)
  qed
qed

lemma store_best_nth:
  "distinct nodes \<Longrightarrow> \<forall>i\<in>set nodes. base + i < length predicts \<Longrightarrow> length (store_best base target nodes predicts) = length predicts
    \<and> (\<forall>i\<in>set nodes. store_best base target nodes predicts ! (base + i) = to_int32 (target ! (base + i)))
    \<and> (\<forall>m<length predicts. (\<forall>i\<in>set nodes. m \<noteq> base + i) \<longrightarrow> store_best base target nodes predicts ! m = predicts ! m)"
  unfolding store_best_def
proof (induction nodes arbitrary: predicts)
  case (Cons i nodes)
  let ?p = "predicts[base + i := to_int32 (target ! (base + i))]"
  from Cons.IH[of ?p] Cons.prems show ?case by (auto simp: nth_list_update)
qed simp

lemma store_path_eq:
  assumes "a + length nodes \<le> length acc"
  shows "store_path base a nodes acc = take a acc @ map (\<lambda>i. to_int32 (int (base + i))) nodes @ drop (a + length nodes) acc"
  using assms unfolding store_path_def
proof (induction nodes arbitrary: a acc)
  case (Cons i nodes)
  have u: "[a..<a + length (i # nodes)] = a # [Suc a..<Suc a + length nodes]" by (subst upt_conv_Cons) simp_all
  let ?v = "to_int32 (int (base + i))"
  have "take (Suc a) (acc[a := ?v]) = take a acc @ [?v]" using Cons.prems by (simp add: take_Suc_conv_app_nth)
  then show ?case using Cons.IH[of "Suc a" "acc[a := ?v]"] Cons.prems unfolding u by simp
qed simp

text \<open>The nodes of a walk form the root path of its last node.\<close>

lemma walk_root_path:
  assumes "wf_par par"
  shows "c < length par \<Longrightarrow> n \<le> length (greedy_walk par cand best k c) \<Longrightarrow>
    root_path par ((c # greedy_walk par cand best k c) ! n) = root_path par c @ take n (greedy_walk par cand best k c)"
proof (induction k arbitrary: c n)
  case (Suc k)
  show ?case
  proof (cases "matching_child par cand best c")
    case (Some j)
    note j = matching_childD[OF assms Some]
    show ?thesis
    proof (cases n)
      case (Suc m)
      have "m \<le> length (greedy_walk par cand best k j)" using Suc.prems(2) Some Suc by simp
      from Suc.IH[OF j(2) this] show ?thesis
        using Some Suc root_path_step[OF assms j(1,2)] j(3) by simp
    qed simp
  qed (use Suc.prems in simp)
qed simp
lemma walk_distinct:
  assumes "wf_par par" "0 < length par"
  shows "distinct (0 # greedy_walk par cand best k 0)" "set (0 # greedy_walk par cand best k 0) \<subseteq> {..<length par}"
proof -
  let ?w = "greedy_walk par cand best k 0"
  have "root_path par ((0 # ?w) ! length ?w) = 0 # ?w"
    using walk_root_path[OF assms(1), of 0 "length ?w" cand best k] assms(2) by simp
  moreover have "(0 # ?w) ! length ?w < length par"
    using greedy_walk_bound[OF assms(1), of _ cand best k 0] assms(2) nth_mem[of "length ?w" "0 # ?w"] by auto
  ultimately show "distinct (0 # ?w)" using root_path_distinct[OF assms(1)] by metis
  show "set (0 # ?w) \<subseteq> {..<length par}" using greedy_walk_bound[OF assms(1), of _ cand best k 0] assms(2) by auto
qed

lemma walk_last_path:
  assumes "wf_par par" "0 < length par"
  shows "root_path par (last (0 # greedy_walk par cand best k 0)) = 0 # greedy_walk par cand best k 0"
proof -
  let ?w = "greedy_walk par cand best k 0"
  have "last (0 # ?w) = (0 # ?w) ! length ?w" by (simp add: last_conv_nth)
  then show ?thesis using walk_root_path[OF assms(1), of 0 "length ?w" cand best k] assms(2) by simp
qed

lemma verify_row_eq:
  fixes cand :: "int list"
  assumes wf: "wf_par par" and links: "row_links par child sibling"
    and ri: "\<forall>i<length par. ri ! i = int (base + i)"
    and best: "\<forall>i<length par. best ! i = target ! (base + i)"
    and room: "base + length par \<le> length predicts" and S: "0 < S"
  defines "w \<equiv> greedy_walk par cand best (S - 1) 0"
  shows "\<exists>p. verify_row S (length par) ri child sibling cand target predicts (replicate S (- 1))
      = Some (p, map (\<lambda>i. to_int32 (int (base + i))) (0 # w) @ replicate (S - Suc (length w)) (- 1), length w)
    \<and> length p = length predicts
    \<and> (\<forall>i\<in>set (0 # w). p ! (base + i) = to_int32 (best ! i))
    \<and> (\<forall>m<length predicts. m < base \<or> base + length par \<le> m \<longrightarrow> p ! m = predicts ! m)"
proof -
  have N: "0 < length par" using wf by (auto simp: wf_par_def)
  let ?st = "\<lparr>vs_predicts = predicts, vs_accept = (replicate S (- 1))[0 := to_int32 (ri ! 0)], vs_accepted = 0,
      vs_last = ri ! 0, vs_current = 0, vs_matched = - 1\<rparr>"
  note dist = walk_distinct[OF wf N, of cand best "S - 1", folded w_def]
  have lw: "length w \<le> S - 1" by (simp add: w_def length_greedy_walk)
  obtain s where s: "verify_levels (S - 1) (length par) ri child sibling cand target ?st = Some s"
      "vs_predicts s = store_best base target (butlast (0 # w)) predicts"
      "vs_accept s = store_path base 1 w ((replicate S (- 1))[0 := to_int32 (ri ! 0)])"
      "vs_accepted s = length w" "vs_last s = int (base + last (0 # w))"
    using verify_levels_eq[OF wf links ri best N, of ?st "S - 1" cand] ri N unfolding w_def by auto
  let ?p = "(vs_predicts s)[nat (vs_last s) := to_int32 (target ! nat (vs_last s))]"
  have nl: "nat (vs_last s) = base + last (0 # w)" using s(5) by (simp add: nat_int_add)
  have all: "?p = store_best base target (butlast (0 # w) @ [last (0 # w)]) predicts"
    unfolding nl s(2) by (simp add: store_best_def)
  have "butlast (0 # w) @ [last (0 # w)] = 0 # w" by (rule append_butlast_last_id) simp
  then have p: "?p = store_best base target (0 # w) predicts" using all by simp
  have inside: "\<forall>i\<in>set (0 # w). base + i < length predicts"
  proof
    fix i assume "i \<in> set (0 # w)"
    then have "i < length par" using dist(2) by blast
    then show "base + i < length predicts" using room by linarith
  qed
  note sb = store_best_nth[OF dist(1) inside, of target]
  have "\<forall>i\<in>set (0 # w). ?p ! (base + i) = to_int32 (best ! i)" unfolding p using sb best dist(2) by auto
  moreover have "\<forall>m<length predicts. m < base \<or> base + length par \<le> m \<longrightarrow> ?p ! m = predicts ! m"
  proof (intro allI impI)
    fix m assume m: "m < length predicts" "m < base \<or> base + length par \<le> m"
    then have "\<forall>i\<in>set (0 # w). m \<noteq> base + i" using dist(2) by auto
    then show "?p ! m = predicts ! m" unfolding p using sb m(1) by blast
  qed
  moreover have "vs_accept s = map (\<lambda>i. to_int32 (int (base + i))) (0 # w) @ replicate (S - Suc (length w)) (- 1)"
  proof -
    obtain m where m: "S = Suc m" using S by (cases S) auto
    show ?thesis unfolding s(3) m using ri N lw m by (subst store_path_eq) (simp_all)
  qed
  moreover have "length ?p = length predicts" unfolding p using sb by blast
  ultimately show ?thesis using s(1,4) by (intro exI[of _ ?p]) (simp add: verify_row_def Let_def)
qed

lemma walk_decodes:
  assumes wf: "wf_par par"
    and best: "\<forall>i<length par. best ! i = int (argmax_first (tgt (ctx @ map (\<lambda>j. cand ! j) (root_path par i))))"
  shows "c < length par \<Longrightarrow> map (\<lambda>i. best ! i) (c # greedy_walk par cand best k c)
    = greedy_decode tgt (ctx @ map (\<lambda>j. cand ! j) (root_path par c)) (Suc (length (greedy_walk par cand best k c)))"
proof (induction k arbitrary: c)
  case (Suc k)
  show ?case
  proof (cases "matching_child par cand best c")
    case (Some j)
    note j = matching_childD[OF wf Some]
    have "ctx @ map (\<lambda>j. cand ! j) (root_path par j) = (ctx @ map (\<lambda>j. cand ! j) (root_path par c)) @ [best ! c]"
      using root_path_step[OF wf j(1,2)] j(3,4) by simp
    then show ?thesis using Suc.IH[OF j(2)] Some best Suc.prems by (simp add: Let_def)
  qed (use best Suc.prems in \<open>simp add: Let_def\<close>)
qed (use best in \<open>simp add: Let_def\<close>)

lemma walk_stops:
  "length (greedy_walk par cand best k c) < k \<Longrightarrow>
    matching_child par cand best (last (c # greedy_walk par cand best k c)) = None"
proof (induction k arbitrary: c)
  case (Suc k)
  show ?case
  proof (cases "matching_child par cand best c")
    case (Some j)
    then show ?thesis using Suc.IH[of j] Suc.prems by simp
  qed simp
qed simp

section \<open>The methods around the kernel\<close>

text \<open>
  \<open>_greedy_verify\<close>.  The outer \<open>Inl\<close> is an exception; \<open>Inr None\<close> would be a kernel that does not
  return.  \<open>blank\<close> is the uninitialised memory of \<open>torch.empty\<close>.
\<close>

definition greedy_verify ::
    "nat \<Rightarrow> nat \<Rightarrow> int \<Rightarrow> (int list \<times> int list \<times> int list) list \<Rightarrow> int list \<Rightarrow> 'l::linorder list list \<Rightarrow> int list
      \<Rightarrow> (int list \<times> int list list \<times> nat list) option res" where
  "greedy_verify bs N max_depth links draft_token logits blank =
     (if length logits \<noteq> bs * N then Inl RuntimeError
      else
        (let target = map (\<lambda>row. int (argmax_first row)) logits;
             cap = max_depth + 1;
             rows = map (\<lambda>b. case links ! b of (ri, child, sibling) \<Rightarrow>
                      (ri, child, sibling, take N (drop (b * N) draft_token))) [0..<bs]
         in if int N < cap then Inl RuntimeError
            else Inr (verify_tree_greedy (nat cap) N rows target blank (replicate bs (replicate (nat cap) (- 1))))))"

text \<open>The host loop of \<open>_fill_requests\<close> over one path: append, check for the end, stop at the end.\<close>

fun emit_tokens :: "(token list \<Rightarrow> bool) \<Rightarrow> token list \<Rightarrow> token list \<Rightarrow> token list \<times> nat \<times> bool" where
  "emit_tokens finished out [] = (out, 0, False)"
| "emit_tokens finished out (t # ts) =
     (let out' = out @ [t] in
      if finished out' then (out', 1, True)
      else (case emit_tokens finished out' ts of (res, n, f) \<Rightarrow> (res, Suc n, f)))"

fun fill_loop :: "(token list \<Rightarrow> bool) \<Rightarrow> token list \<Rightarrow> nat \<Rightarrow> nat list \<Rightarrow> token list list \<Rightarrow> (token list \<times> nat \<times> bool) list" where
  "fill_loop finished verified offset (n # ns) (out # outs) =
     emit_tokens finished out (take n (drop offset verified)) # fill_loop finished verified (offset + n) ns outs"
| "fill_loop finished verified offset _ _ = []"

definition mask_path :: "int list \<Rightarrow> nat \<Rightarrow> int list" where
  "mask_path row n = map (\<lambda>i. if n \<le> i then - 1 else row ! i) [0..<length row]"

definition compact_index :: "int list list \<Rightarrow> int list" where
  "compact_index accept_index = concat (map (filter (\<lambda>x. x \<noteq> - 1)) accept_index)"

record fill_result =
  fr_index :: "int list"
  fr_verified :: "int list"
  fr_lens :: "nat list"
  fr_outputs :: "token list list"

definition fill_requests :: "(token list \<Rightarrow> bool) \<Rightarrow> int list \<Rightarrow> int list list \<Rightarrow> nat list \<Rightarrow> token list list \<Rightarrow> fill_result" where
  "fill_requests finished predicts accept_index accept_length outputs =
     (let compact = compact_index accept_index;
          verified = map (\<lambda>i. predicts ! nat i) compact;
          results = fill_loop finished verified 0 (map Suc accept_length) outputs;
          final = map (\<lambda>(res, n, f). n) results;
          has_finished = list_ex (\<lambda>(res, n, f). f) results;
          index' = compact_index (map2 mask_path accept_index final)
      in if has_finished
         then \<lparr>fr_index = index', fr_verified = map (\<lambda>i. predicts ! nat i) index', fr_lens = final,
               fr_outputs = map fst results\<rparr>
         else \<lparr>fr_index = compact, fr_verified = verified, fr_lens = map Suc accept_length, fr_outputs = map fst results\<rparr>)"

text \<open>\<open>_free_cache\<close> for pages of one token: evicted locations, kept locations.\<close>

definition free_cache :: "int list \<Rightarrow> 'a list \<Rightarrow> 'a list \<times> 'a list" where
  "free_cache index out_cache_loc =
     (map (\<lambda>i. out_cache_loc ! i) (filter (\<lambda>i. int i \<notin> set index) [0..<length out_cache_loc]),
      map (\<lambda>i. out_cache_loc ! nat i) index)"
section \<open>The batch\<close>

definition verify_input_ok :: "nat \<Rightarrow> nat \<Rightarrow> nat list \<Rightarrow> int list \<times> int list \<times> int list \<Rightarrow> bool" where
  "verify_input_ok N b par links \<longleftrightarrow> (case links of (ri, child, sibling) \<Rightarrow>
     wf_par par \<and> length par = N \<and> row_links par child sibling \<and> ri = map (\<lambda>i. int (b * N + i)) [0..<N])"

definition row_best :: "nat \<Rightarrow> int list \<Rightarrow> nat \<Rightarrow> int list" where
  "row_best N target b = map (\<lambda>i. target ! (b * N + i)) [0..<N]"

lemma verify_batch_eq:
  fixes target :: "int list"
  assumes "\<forall>b<length rows. \<exists>ri child sibling. rows ! b = (ri, child, sibling, cand (b0 + b))
      \<and> verify_input_ok N (b0 + b) (par (b0 + b)) (ri, child, sibling)"
    and "length accs = length rows" "\<forall>acc\<in>set accs. acc = replicate S (- 1)"
    and "(b0 + length rows) * N \<le> length predicts" "0 < S"
  defines "w \<equiv> (\<lambda>b. greedy_walk (par b) (cand b) (row_best N target b) (S - 1) 0)"
  shows "\<exists>p accs' ns. verify_tree_greedy S N rows target predicts accs = Some (p, accs', ns)
    \<and> length p = length predicts \<and> length accs' = length rows \<and> length ns = length rows
    \<and> (\<forall>b<length rows. accs' ! b = map (\<lambda>i. to_int32 (int ((b0 + b) * N + i))) (0 # w (b0 + b))
            @ replicate (S - Suc (length (w (b0 + b)))) (- 1)
        \<and> ns ! b = length (w (b0 + b))
        \<and> (\<forall>i\<in>set (0 # w (b0 + b)). p ! ((b0 + b) * N + i) = to_int32 (row_best N target (b0 + b) ! i)))
    \<and> (\<forall>m<length predicts. m < b0 * N \<longrightarrow> p ! m = predicts ! m)"
  using assms(1-4)
proof (induction rows arbitrary: b0 predicts accs)
  case Nil
  then show ?case by simp
next
  case (Cons row rows)
  obtain ri child sibling where row: "row = (ri, child, sibling, cand b0)"
      "verify_input_ok N b0 (par b0) (ri, child, sibling)"
    using Cons.prems(1)[rule_format, of 0] by auto
  obtain accs1 where accs: "accs = replicate S (- 1) # accs1" "length accs1 = length rows" "\<forall>acc\<in>set accs1. acc = replicate S (- 1)"
    using Cons.prems(2,3) by (cases accs) auto
  have ok: "wf_par (par b0)" "length (par b0) = N" "row_links (par b0) child sibling" "ri = map (\<lambda>i. int (b0 * N + i)) [0..<N]"
    using row(2) by (simp_all add: verify_input_ok_def)
  have ri: "\<forall>i<length (par b0). ri ! i = int (b0 * N + i)" using ok(2,4) by simp
  have best: "\<forall>i<length (par b0). row_best N target b0 ! i = target ! (b0 * N + i)" using ok(2) by (simp add: row_best_def)
  have room: "b0 * N + length (par b0) \<le> length predicts" using Cons.prems(4) ok(2) by (simp add: algebra_simps)
  obtain p1 where p1: "verify_row S (length (par b0)) ri child sibling (cand b0) target predicts (replicate S (- 1))
      = Some (p1, map (\<lambda>i. to_int32 (int (b0 * N + i))) (0 # w b0) @ replicate (S - Suc (length (w b0))) (- 1), length (w b0))"
      "length p1 = length predicts" "\<forall>i\<in>set (0 # w b0). p1 ! (b0 * N + i) = to_int32 (row_best N target b0 ! i)"
      "\<forall>m<length predicts. m < b0 * N \<or> b0 * N + length (par b0) \<le> m \<longrightarrow> p1 ! m = predicts ! m"
    using verify_row_eq[OF ok(1,3) ri best room assms(5), of "cand b0"] unfolding w_def by blast
  have shift: "b0 + Suc b = Suc b0 + b" for b by simp
  have rest: "\<forall>b<length rows. \<exists>ri child sibling. rows ! b = (ri, child, sibling, cand (Suc b0 + b))
      \<and> verify_input_ok N (Suc b0 + b) (par (Suc b0 + b)) (ri, child, sibling)"
  proof (intro allI impI)
    fix b assume "b < length rows"
    then show "\<exists>ri child sibling. rows ! b = (ri, child, sibling, cand (Suc b0 + b))
      \<and> verify_input_ok N (Suc b0 + b) (par (Suc b0 + b)) (ri, child, sibling)"
      using Cons.prems(1)[rule_format, of "Suc b"] unfolding shift by simp
  qed
  have "(Suc b0 + length rows) * N \<le> length p1" using Cons.prems(4) p1(2) by simp
  from Cons.IH[OF rest accs(2,3) this] obtain p accs' ns where r:
      "verify_tree_greedy S N rows target p1 accs1 = Some (p, accs', ns)"
      "length p = length p1" "length accs' = length rows" "length ns = length rows"
      "\<forall>b<length rows. accs' ! b = map (\<lambda>i. to_int32 (int ((Suc b0 + b) * N + i))) (0 # w (Suc b0 + b))
            @ replicate (S - Suc (length (w (Suc b0 + b)))) (- 1)
        \<and> ns ! b = length (w (Suc b0 + b))
        \<and> (\<forall>i\<in>set (0 # w (Suc b0 + b)). p ! ((Suc b0 + b) * N + i) = to_int32 (row_best N target (Suc b0 + b) ! i))"
      "\<forall>m<length p1. m < Suc b0 * N \<longrightarrow> p ! m = p1 ! m"
    by blast
  have run: "verify_tree_greedy S N (row # rows) target predicts accs
    = Some (p, (map (\<lambda>i. to_int32 (int (b0 * N + i))) (0 # w b0) @ replicate (S - Suc (length (w b0))) (- 1)) # accs', length (w b0) # ns)"
    using p1(1) r(1) unfolding row(1) accs(1) ok(2) by simp
  have dist: "set (0 # w b0) \<subseteq> {..<N}"
  proof -
    have "0 < length (par b0)" using ok(1) by (auto simp: wf_par_def)
    from walk_distinct(2)[OF ok(1) this] show ?thesis unfolding w_def ok(2) .
  qed
  have here: "\<forall>i\<in>set (0 # w b0). p ! (b0 * N + i) = to_int32 (row_best N target b0 ! i)"
  proof
    fix i assume i: "i \<in> set (0 # w b0)"
    then have "i < N" using dist by blast
    then have "b0 * N + i < Suc b0 * N" "b0 * N + i < length p1" using room ok(2) p1(2) by simp_all
    then show "p ! (b0 * N + i) = to_int32 (row_best N target b0 ! i)" using r(6) p1(3) i by metis
  qed
  let ?A = "(map (\<lambda>i. to_int32 (int (b0 * N + i))) (0 # w b0) @ replicate (S - Suc (length (w b0))) (- 1)) # accs'"
  let ?B = "length (w b0) # ns"
  have entries: "\<forall>b<length (row # rows).
      ?A ! b = map (\<lambda>i. to_int32 (int ((b0 + b) * N + i))) (0 # w (b0 + b)) @ replicate (S - Suc (length (w (b0 + b)))) (- 1)
        \<and> ?B ! b = length (w (b0 + b))
        \<and> (\<forall>i\<in>set (0 # w (b0 + b)). p ! ((b0 + b) * N + i) = to_int32 (row_best N target (b0 + b) ! i))"
  proof (intro allI impI)
    fix b assume b: "b < length (row # rows)"
    show "?A ! b = map (\<lambda>i. to_int32 (int ((b0 + b) * N + i))) (0 # w (b0 + b)) @ replicate (S - Suc (length (w (b0 + b)))) (- 1)
        \<and> ?B ! b = length (w (b0 + b))
        \<and> (\<forall>i\<in>set (0 # w (b0 + b)). p ! ((b0 + b) * N + i) = to_int32 (row_best N target (b0 + b) ! i))"
    proof (cases b)
      case 0
      then show ?thesis using here unfolding 0 by simp
    next
      case (Suc c)
      then show ?thesis using r(5)[rule_format, of c] b unfolding Suc shift by simp
    qed
  qed
  have low: "\<forall>m<length predicts. m < b0 * N \<longrightarrow> p ! m = predicts ! m"
  proof (intro allI impI)
    fix m assume m: "m < length predicts" "m < b0 * N"
    then have "m < Suc b0 * N" "m < length p1" using p1(2) by simp_all
    then show "p ! m = predicts ! m" using r(6) p1(4) m by metis
  qed
  have lens: "length p = length predicts" "length ?A = length (row # rows)" "length ?B = length (row # rows)"
    using r(2,3,4) p1(2) by simp_all
  show ?case by (intro exI[of _ p] exI[of _ ?A] exI[of _ ?B] conjI) (fact run lens entries low)+
qed

text \<open>
  The hypothesis on the target forward: the logits of node \<open>i\<close> of request \<open>b\<close> are the target's
  logits after the context and the tokens of the root path of the node (tree attention).
\<close>

definition tree_logits ::
    "(token list \<Rightarrow> 'l list) \<Rightarrow> nat \<Rightarrow> (nat \<Rightarrow> token list) \<Rightarrow> (nat \<Rightarrow> nat list) \<Rightarrow> int list \<Rightarrow> 'l list list \<Rightarrow> nat \<Rightarrow> bool" where
  "tree_logits tgt N ctx par draft_token logits b \<longleftrightarrow>
     (\<forall>i<N. logits ! (b * N + i) = tgt (ctx b @ map (\<lambda>j. draft_token ! (b * N + j)) (root_path (par b) i)))"

lemma greedy_verify_paths:
  assumes len: "length logits = bs * N" "length draft_token = bs * N" "length links = bs" "bs * N \<le> length blank"
    and depth: "0 \<le> depth" "depth + 1 \<le> int N"
    and rows: "\<forall>b<bs. verify_input_ok N b (par b) (links ! b)"
    and tgt: "\<forall>b<bs. tree_logits tgt N ctx par draft_token logits b"
    and vocab: "\<forall>c. tgt c \<noteq> [] \<and> length (tgt c) \<le> 2 ^ 31" and small: "bs * N \<le> 2 ^ 31"
  shows "\<exists>p accs ns. greedy_verify bs N depth links draft_token logits blank = Inr (Some (p, accs, ns))
    \<and> length accs = bs \<and> length ns = bs \<and> (\<forall>b<bs. \<exists>w. ns ! b = length w \<and> length w \<le> nat depth
        \<and> distinct (0 # w) \<and> set (0 # w) \<subseteq> {..<N}
        \<and> accs ! b = map (\<lambda>i. int (b * N + i)) (0 # w) @ replicate (nat depth - length w) (- 1)
        \<and> root_path (par b) (last (0 # w)) = 0 # w
        \<and> map (\<lambda>i. p ! (b * N + i)) (0 # w) = greedy_decode tgt (ctx b @ [draft_token ! (b * N)]) (Suc (length w))
        \<and> (length w < nat depth \<longrightarrow> (\<forall>j<N. 0 < j \<and> par b ! j = last (0 # w)
              \<longrightarrow> draft_token ! (b * N + j) \<noteq> int (argmax_first (logits ! (b * N + last (0 # w)))))))"
proof -
  let ?S = "nat (depth + 1)" and ?target = "map (\<lambda>row. int (argmax_first row)) logits"
  let ?cand = "\<lambda>b. take N (drop (b * N) draft_token)"
  let ?rows = "map (\<lambda>b. case links ! b of (ri, child, sibling) \<Rightarrow> (ri, child, sibling, ?cand b)) [0..<bs]"
  have S: "?S = Suc (nat depth)" using depth(1) by simp
  have rows_ok: "\<forall>b<length ?rows. \<exists>ri child sibling. ?rows ! b = (ri, child, sibling, ?cand (0 + b))
      \<and> verify_input_ok N (0 + b) (par (0 + b)) (ri, child, sibling)"
    using rows by (auto split: prod.split)
  have l0: "length (replicate bs (replicate ?S (- 1 :: int))) = length ?rows" by simp
  have a0: "\<forall>acc\<in>set (replicate bs (replicate ?S (- 1 :: int))). acc = replicate ?S (- 1)" by auto
  have r0: "(0 + length ?rows) * N \<le> length blank" using len(4) by simp
  define w where "w = (\<lambda>b. greedy_walk (par b) (?cand b) (row_best N ?target b) (?S - 1) 0)"
  obtain p accs ns where k: "verify_tree_greedy ?S N ?rows ?target blank (replicate bs (replicate ?S (- 1))) = Some (p, accs, ns)"
      "length accs = bs" "length ns = bs"
      "\<forall>b<bs. accs ! b = map (\<lambda>i. to_int32 (int (b * N + i))) (0 # w b) @ replicate (?S - Suc (length (w b))) (- 1)
        \<and> ns ! b = length (w b) \<and> (\<forall>i\<in>set (0 # w b). p ! (b * N + i) = to_int32 (row_best N ?target b ! i))"
  proof -
    have pos: "0 < ?S" by (simp add: S)
    have lr: "length ?rows = bs" by simp
    from verify_batch_eq[OF rows_ok l0 a0 r0 pos, of ?target, unfolded lr add_0] show thesis
      by (elim exE conjE) (rule that[unfolded w_def], assumption+)
  qed
  have inner: "\<exists>w. ns ! b = length w \<and> length w \<le> nat depth
        \<and> distinct (0 # w) \<and> set (0 # w) \<subseteq> {..<N}
        \<and> accs ! b = map (\<lambda>i. int (b * N + i)) (0 # w) @ replicate (nat depth - length w) (- 1)
        \<and> root_path (par b) (last (0 # w)) = 0 # w
        \<and> map (\<lambda>i. p ! (b * N + i)) (0 # w) = greedy_decode tgt (ctx b @ [draft_token ! (b * N)]) (Suc (length w))
        \<and> (length w < nat depth \<longrightarrow> (\<forall>j<N. 0 < j \<and> par b ! j = last (0 # w)
              \<longrightarrow> draft_token ! (b * N + j) \<noteq> int (argmax_first (logits ! (b * N + last (0 # w))))))" if b: "b < bs" for b
  proof -
    obtain ri child sibling where "links ! b = (ri, child, sibling)" by (cases "links ! b")
    then have ok: "wf_par (par b)" "length (par b) = N" using rows b by (auto simp: verify_input_ok_def)
    have N: "0 < N" using depth by simp
    have off: "b * N + i < bs * N" if "i < N" for i
    proof -
      have "Suc b * N \<le> bs * N" using b by (simp only: mult_le_mono1 Suc_leI)
      then show ?thesis using that by simp
    qed
    have cand: "?cand b ! i = draft_token ! (b * N + i)" if "i < N" for i
    proof -
      have "b * N \<le> length draft_token" using off[OF that] len(2) by linarith
      then show ?thesis using that by simp
    qed
    have best_am: "row_best N ?target b ! i = int (argmax_first (logits ! (b * N + i)))" if "i < N" for i
      using that off[OF that] len(1) by (simp add: row_best_def)
    have path: "map (\<lambda>j. ?cand b ! j) (root_path (par b) i) = map (\<lambda>j. draft_token ! (b * N + j)) (root_path (par b) i)" if "i < N" for i
    proof (rule map_cong[OF refl], rule cand)
      fix j assume "j \<in> set (root_path (par b) i)"
      then show "j < N" using root_path_bound[of j "par b" i] that by simp
    qed
    have logit: "logits ! (b * N + i) = tgt (ctx b @ map (\<lambda>j. ?cand b ! j) (root_path (par b) i))" if "i < N" for i
      unfolding path[OF that] using tgt b that unfolding tree_logits_def by blast
    have best: "\<forall>i<length (par b). row_best N ?target b ! i
        = int (argmax_first (tgt (ctx b @ map (\<lambda>j. ?cand b ! j) (root_path (par b) i))))"
      using best_am logit ok(2) by simp
    have small_best: "to_int32 (row_best N ?target b ! i) = row_best N ?target b ! i" if "i < N" for i
    proof -
      have "argmax_first (logits ! (b * N + i)) < 2 ^ 31"
        unfolding logit[OF that] using vocab argmax_first_less le_trans less_le_trans by metis
      then show ?thesis unfolding best_am[OF that] by (intro to_int32_small) simp_all
    qed
    note dist = walk_distinct[OF ok(1), of "?cand b" "row_best N ?target b" "?S - 1"]
    have sub: "set (0 # w b) \<subseteq> {..<N}" using dist(2) ok(2) N unfolding w_def by simp
    have kb: "accs ! b = map (\<lambda>i. to_int32 (int (b * N + i))) (0 # w b) @ replicate (?S - Suc (length (w b))) (- 1)"
      "ns ! b = length (w b)" "\<forall>i\<in>set (0 # w b). p ! (b * N + i) = to_int32 (row_best N ?target b ! i)"
      using k(4) b by blast+
    have acc: "accs ! b = map (\<lambda>i. int (b * N + i)) (0 # w b) @ replicate (nat depth - length (w b)) (- 1)"
    proof -
      have "to_int32 (int (b * N + i)) = int (b * N + i)" if "i \<in> set (0 # w b)" for i
      proof -
        have "i < N" using that sub by blast
        then have "b * N + i < 2 ^ 31" using off small by (metis less_le_trans)
        then have "int (b * N + i) < 2 ^ 31" by (metis of_nat_less_iff of_nat_numeral of_nat_power)
        moreover have "- (2 ^ 31) \<le> int (b * N + i)" by (rule order.trans[of _ 0]) simp_all
        ultimately show ?thesis by (intro to_int32_small)
      qed
      then have "map (\<lambda>i. to_int32 (int (b * N + i))) (0 # w b) = map (\<lambda>i. int (b * N + i)) (0 # w b)"
        by (rule map_cong[OF refl])
      then show ?thesis unfolding kb(1) S by simp
    qed
    have lenw: "length (w b) \<le> nat depth" using length_greedy_walk[of "par b" "?cand b" "row_best N ?target b" "?S - 1" 0]
      unfolding w_def S by simp
    have pm: "map (\<lambda>i. p ! (b * N + i)) (0 # w b) = map (\<lambda>i. row_best N ?target b ! i) (0 # w b)"
    proof (rule map_cong[OF refl])
      fix i assume i: "i \<in> set (0 # w b)"
      then have "i < N" using sub by blast
      then show "p ! (b * N + i) = row_best N ?target b ! i" using kb(3) i small_best by metis
    qed
    have "map (\<lambda>i. row_best N ?target b ! i) (0 # w b)
      = greedy_decode tgt (ctx b @ map (\<lambda>j. ?cand b ! j) (root_path (par b) 0)) (Suc (length (w b)))"
      unfolding w_def by (rule walk_decodes[OF ok(1) best]) (simp add: ok(2) N)
    then have dec: "map (\<lambda>i. p ! (b * N + i)) (0 # w b) = greedy_decode tgt (ctx b @ [draft_token ! (b * N)]) (Suc (length (w b)))"
      using pm cand[OF N] by simp
    have rp: "root_path (par b) (last (0 # w b)) = 0 # w b"
      unfolding w_def by (rule walk_last_path[OF ok(1)]) (simp add: ok(2) N)
    have stop: "draft_token ! (b * N + j) \<noteq> int (argmax_first (logits ! (b * N + last (0 # w b))))"
      if a: "length (w b) < nat depth" and j: "j < N" "0 < j" "par b ! j = last (0 # w b)" for j
    proof -
      have "matching_child (par b) (?cand b) (row_best N ?target b) (last (0 # w b)) = None"
        unfolding w_def by (rule walk_stops) (use a in \<open>simp add: w_def S\<close>)
      moreover have "tree_parents (par b) ! j = int (last (0 # w b))" using tree_parents_nth[OF ok(1)] j ok(2) by simp
      moreover have "last (0 # w b) < N" using sub last_in_set[of "0 # w b"] by blast
      ultimately show ?thesis using j(1) ok(2) cand[OF j(1)] best_am by (auto simp: matching_child_def find_none_iff)
    qed
    have "distinct (0 # w b)" using dist(1) ok(2) N unfolding w_def by simp
    then show ?thesis using kb(2) lenw sub acc rp dec stop by blast
  qed
  have "greedy_verify bs N depth links draft_token logits blank = Inr (Some (p, accs, ns))"
    unfolding greedy_verify_def Let_def using len(1) depth(2) k(1) by simp
  then show ?thesis using k(2,3) inner by blast
qed
section \<open>Filling the requests\<close>

lemma emit_tokens_spec:
  "emit_tokens finished out ts = (res, n, f) \<Longrightarrow>
     res = out @ take n ts \<and> n \<le> length ts \<and> (\<forall>m. 0 < m \<longrightarrow> m < n \<longrightarrow> \<not> finished (out @ take m ts))
     \<and> (if f then 0 < n \<and> finished (out @ take n ts) else n = length ts \<and> (\<forall>m. 0 < m \<longrightarrow> m \<le> n \<longrightarrow> \<not> finished (out @ take m ts)))"
proof (induction ts arbitrary: out res n f)
  case (Cons t ts)
  show ?case
  proof (cases "finished (out @ [t])")
    case True
    then show ?thesis using Cons.prems by (auto simp: Let_def)
  next
    case False
    obtain res' n' f' where e: "emit_tokens finished (out @ [t]) ts = (res', n', f')" by (metis prod_cases3)
    then have n: "res = res'" "n = Suc n'" "f = f'" using Cons.prems False by (auto simp: Let_def)
    note IH = Cons.IH[OF e]
    have step: "\<not> finished (out @ take m (t # ts))"
      if m: "0 < m" "0 < m - 1 \<Longrightarrow> \<not> finished ((out @ [t]) @ take (m - 1) ts)" for m
      using m False by (cases m; cases "m - 1") auto
    have A: "\<forall>m. 0 < m \<longrightarrow> m < Suc n' \<longrightarrow> \<not> finished (out @ take m (t # ts))"
    proof (intro allI impI)
      fix m assume m: "0 < m" "m < Suc n'"
      show "\<not> finished (out @ take m (t # ts))"
        by (rule step[OF m(1)]) (use IH m in auto)
    qed
    have B: "\<forall>m. 0 < m \<longrightarrow> m \<le> Suc n' \<longrightarrow> \<not> finished (out @ take m (t # ts))" if nf: "\<not> f'"
    proof (intro allI impI)
      fix m assume m: "0 < m" "m \<le> Suc n'"
      show "\<not> finished (out @ take m (t # ts))"
        by (rule step[OF m(1)]) (use IH m nf in auto)
    qed
    show ?thesis unfolding n using IH A B by (cases f') simp_all
  qed
qed auto

lemma emit_tokens_facts:
  shows "fst (emit_tokens finished out ts) = out @ take (fst (snd (emit_tokens finished out ts))) ts"
    and "fst (snd (emit_tokens finished out ts)) \<le> length ts"
    and "\<not> snd (snd (emit_tokens finished out ts)) \<Longrightarrow> fst (snd (emit_tokens finished out ts)) = length ts"
proof -
  obtain res n f where e: "emit_tokens finished out ts = (res, n, f)" by (metis prod_cases3)
  from emit_tokens_spec[OF e]
  show "fst (emit_tokens finished out ts) = out @ take (fst (snd (emit_tokens finished out ts))) ts"
    "fst (snd (emit_tokens finished out ts)) \<le> length ts"
    "\<not> snd (snd (emit_tokens finished out ts)) \<Longrightarrow> fst (snd (emit_tokens finished out ts)) = length ts"
    unfolding e by auto
qed

lemma fill_loop_eq:
  "length outs = length vs \<Longrightarrow>
     fill_loop finished (pre @ concat vs) (length pre) (map length vs) outs = map2 (\<lambda>v out. emit_tokens finished out v) vs outs"
proof (induction vs arbitrary: pre outs)
  case (Cons v vs)
  obtain out outs' where outs: "outs = out # outs'" "length outs' = length vs" using Cons.prems by (cases outs) auto
  show ?case using Cons.IH[OF outs(2), of "pre @ v"] by (simp add: outs(1))
qed simp

text \<open>An accept row: a path of flat indices, then padding.\<close>

definition accept_rows :: "nat \<Rightarrow> int list list \<Rightarrow> int list list" where
  "accept_rows S paths = map (\<lambda>P. P @ replicate (S - length P) (- 1)) paths"

definition paths_ok :: "nat \<Rightarrow> int list list \<Rightarrow> bool" where
  "paths_ok S paths \<longleftrightarrow> (\<forall>P\<in>set paths. P \<noteq> [] \<and> length P \<le> S \<and> (\<forall>i\<in>set P. 0 \<le> i))"

lemma filter_accept: "\<forall>i\<in>set P. 0 \<le> (i :: int) \<Longrightarrow> filter (\<lambda>x. x \<noteq> - 1) (P @ replicate k (- 1)) = P"
  by (induction P) auto

lemma filter_mask:
  assumes "\<forall>i\<in>set P. 0 \<le> (i :: int)" "n \<le> length P"
  shows "filter (\<lambda>x. x \<noteq> - 1) (mask_path (P @ replicate k (- 1)) n) = take n P"
proof -
  have "mask_path (P @ replicate k (- 1)) n = take n P @ replicate (length P + k - n) (- 1)"
    using assms(2) by (intro nth_equalityI) (auto simp: mask_path_def nth_append)
  moreover have "\<forall>i\<in>set (take n P). 0 \<le> i" using assms(1) set_take_subset[of n P] by blast
  ultimately show ?thesis using filter_accept[of "take n P"] by simp
qed

lemma compact_accept_rows: "paths_ok S paths \<Longrightarrow> compact_index (accept_rows S paths) = concat paths"
proof -
  assume "paths_ok S paths"
  then have "map (\<lambda>P. filter (\<lambda>x. x \<noteq> - 1) (P @ replicate (S - length P) (- 1))) paths = map (\<lambda>P. P) paths"
    by (intro map_cong[OF refl] filter_accept) (simp add: paths_ok_def)
  then show ?thesis by (simp add: compact_index_def accept_rows_def comp_def)
qed

lemma compact_masked_rows:
  "paths_ok S paths \<Longrightarrow> length ks = length paths \<Longrightarrow> \<forall>b<length paths. ks ! b \<le> length (paths ! b) \<Longrightarrow>
     compact_index (map2 mask_path (accept_rows S paths) ks) = concat (map2 take ks paths)"
proof -
  assume a: "paths_ok S paths" "length ks = length paths" "\<forall>b<length paths. ks ! b \<le> length (paths ! b)"
  have "map (filter (\<lambda>x. x \<noteq> - 1)) (map2 mask_path (accept_rows S paths) ks) = map2 take ks paths"
  proof (rule nth_equalityI)
    fix b assume "b < length (map (filter (\<lambda>x. x \<noteq> - 1)) (map2 mask_path (accept_rows S paths) ks))"
    then have b: "b < length paths" using a(2) by (simp add: accept_rows_def)
    have "\<forall>i\<in>set (paths ! b). 0 \<le> i" using a(1) nth_mem[OF b] unfolding paths_ok_def by blast
    from filter_mask[OF this, of "ks ! b"] a(2,3) b
    show "map (filter (\<lambda>x. x \<noteq> - 1)) (map2 mask_path (accept_rows S paths) ks) ! b = map2 take ks paths ! b"
      by (simp add: accept_rows_def)
  qed (use a(2) in \<open>simp add: accept_rows_def\<close>)
  then show ?thesis by (simp add: compact_index_def)
qed

lemma fill_requests_eq:
  fixes finished :: "token list \<Rightarrow> bool" and predicts :: "int list"
  assumes ok: "paths_ok S paths" and outs: "length outs = length paths"
  defines "emit \<equiv> \<lambda>b. emit_tokens finished (outs ! b) (map (\<lambda>i. predicts ! nat i) (paths ! b))"
  defines "ks \<equiv> map (\<lambda>b. fst (snd (emit b))) [0..<length paths]"
  shows "fill_requests finished predicts (accept_rows S paths) (map (\<lambda>P. length P - 1) paths) outs
    = \<lparr>fr_index = concat (map2 take ks paths), fr_verified = map (\<lambda>i. predicts ! nat i) (concat (map2 take ks paths)),
       fr_lens = ks, fr_outputs = map (\<lambda>b. fst (emit b)) [0..<length paths]\<rparr>"
proof -
  let ?vs = "map (map (\<lambda>i. predicts ! nat i)) paths"
  have compact: "compact_index (accept_rows S paths) = concat paths" by (rule compact_accept_rows[OF ok])
  have lens: "map Suc (map (\<lambda>P. length P - 1) paths) = map length ?vs"
    using ok by (auto simp: paths_ok_def Suc_diff_le)
  have results: "fill_loop finished (map (\<lambda>i. predicts ! nat i) (concat paths)) 0 (map Suc (map (\<lambda>P. length P - 1) paths)) outs
    = map emit [0..<length paths]"
  proof -
    have "fill_loop finished (concat ?vs) 0 (map length ?vs) outs = map2 (\<lambda>v out. emit_tokens finished out v) ?vs outs"
      using fill_loop_eq[of outs ?vs finished "[]"] outs by simp
    also have "\<dots> = map emit [0..<length paths]"
      by (rule nth_equalityI) (use outs in \<open>simp_all add: emit_def\<close>)
    finally show ?thesis unfolding lens by (simp add: map_concat)
  qed
  have n_le: "fst (snd (emit b)) \<le> length (paths ! b)" for b
    using emit_tokens_facts(2)[of finished "outs ! b" "map (\<lambda>i. predicts ! nat i) (paths ! b)"] by (simp add: emit_def)
  have ks: "length ks = length paths" "\<forall>b<length paths. ks ! b \<le> length (paths ! b)" using n_le by (simp_all add: ks_def)
  have final: "map (\<lambda>(res, n, f). n) (map emit [0..<length paths]) = ks"
    by (simp add: ks_def case_prod_beta comp_def)
  have out: "map fst (map emit [0..<length paths]) = map (\<lambda>b. fst (emit b)) [0..<length paths]" by simp
  have masked: "compact_index (map2 mask_path (accept_rows S paths) ks) = concat (map2 take ks paths)"
    by (rule compact_masked_rows[OF ok ks])
  show ?thesis
  proof (cases "list_ex (\<lambda>(res, n, f). f) (map emit [0..<length paths])")
    case True
    then show ?thesis unfolding fill_requests_def Let_def compact results final masked out by simp
  next
    case False
    have full: "ks ! b = length (paths ! b)" if b: "b < length paths" for b
    proof -
      have "\<not> snd (snd (emit b))" using False b by (auto simp: list_ex_iff case_prod_beta)
      then show ?thesis
        using emit_tokens_facts(3)[of finished "outs ! b" "map (\<lambda>i. predicts ! nat i) (paths ! b)"] b
        by (simp add: emit_def ks_def)
    qed
    have "map2 take ks paths = paths" by (rule nth_equalityI) (use ks full in auto)
    moreover have "map Suc (map (\<lambda>P. length P - 1) paths) = ks"
      unfolding lens by (rule nth_equalityI) (use ks full in auto)
    ultimately show ?thesis using False unfolding fill_requests_def Let_def compact results final out by simp
  qed
qed
lemma emit_tokens_pos: "ts \<noteq> [] \<Longrightarrow> 0 < fst (snd (emit_tokens finished out ts))"
  by (cases ts) (auto simp: Let_def split: prod.splits)

lemma flat_index_less: "b < bs \<Longrightarrow> i < N \<Longrightarrow> b * N + i < bs * N" for b i N :: nat
proof -
  assume a: "b < bs" "i < N"
  then have "Suc b * N \<le> bs * N" by (simp only: mult_le_mono1 Suc_leI)
  with a show ?thesis by simp
qed

lemma distinct_concat_rows:
  assumes "\<forall>b<bs. distinct (rows b) \<and> set (rows b) \<subseteq> {int (b * N)..<int (b * N + N)}"
  shows "distinct (concat (map rows [0..<bs])) \<and> set (concat (map rows [0..<bs])) \<subseteq> {0..<int (bs * N)}"
  using assms
proof (induction bs)
  case (Suc bs)
  then have IH: "distinct (concat (map rows [0..<bs]))" "set (concat (map rows [0..<bs])) \<subseteq> {0..<int (bs * N)}" by auto
  have "distinct (rows bs)" and sub: "set (rows bs) \<subseteq> {int (bs * N)..<int (bs * N + N)}" using Suc.prems by auto
  moreover have "set (concat (map rows [0..<bs])) \<inter> set (rows bs) = {}"
    using IH(2) sub by (meson atLeastLessThan_iff disjoint_iff not_le subsetD)
  moreover have "set (concat (map rows [0..<Suc bs])) \<subseteq> {0..<int (Suc bs * N)}"
  proof
    fix x assume "x \<in> set (concat (map rows [0..<Suc bs]))"
    then consider "x \<in> set (concat (map rows [0..<bs]))" | "x \<in> set (rows bs)" by auto
    then show "x \<in> {0..<int (Suc bs * N)}"
    proof cases
      case 1
      with IH(2) show ?thesis by (force simp: algebra_simps)
    next
      case 2
      with sub have "int (bs * N) \<le> x" "x < int (bs * N + N)" by auto
      moreover have "int (Suc bs * N) = int (bs * N + N)" by simp
      moreover have "0 \<le> int (bs * N)" by simp
      ultimately show ?thesis by (metis atLeastLessThan_iff order_trans)
    qed
  qed
  ultimately show ?case using IH(1) by simp
qed simp

section \<open>Properties\<close>

text \<open>Filling the requests from accepted walks \<open>0 # w b\<close> of tree nodes.\<close>

lemma walk_positions:
  assumes "distinct (0 # w)" "set (0 # w) \<subseteq> {..<N}"
  shows "distinct (take k (map (\<lambda>i. int (b * N + i)) (0 # w)))"
    "set (take k (map (\<lambda>i. int (b * N + i)) (0 # w))) \<subseteq> {int (b * N)..<int (b * N + N)}"
proof -
  let ?P = "map (\<lambda>i. int (b * N + i)) (0 # w)"
  have "distinct ?P" unfolding distinct_map using assms(1) by (simp add: inj_on_def)
  then show "distinct (take k ?P)" by (rule distinct_take)
  have "set ?P \<subseteq> {int (b * N)..<int (b * N + N)}"
  proof
    fix x assume "x \<in> set ?P"
    then obtain i where "i \<in> set (0 # w)" "x = int (b * N + i)" unfolding set_map by blast
    then show "x \<in> {int (b * N)..<int (b * N + N)}" using assms(2) by auto
  qed
  then show "set (take k ?P) \<subseteq> {int (b * N)..<int (b * N + N)}" using set_take_subset[of k ?P] by blast
qed

lemma fill_walks:
  fixes finished :: "int list \<Rightarrow> bool" and p :: "int list"
  assumes lens: "length accs = bs" "length ns = bs" "length outs = bs"
    and walks: "\<forall>b<bs. ns ! b = length (w b) \<and> length (w b) \<le> m \<and> distinct (0 # w b) \<and> set (0 # w b) \<subseteq> {..<N}
        \<and> accs ! b = map (\<lambda>i. int (b * N + i)) (0 # w b) @ replicate (m - length (w b)) (- 1)"
  defines "r \<equiv> fill_requests finished p accs ns outs"
  defines "E \<equiv> (\<lambda>b. emit_tokens finished (outs ! b) (map (\<lambda>i. p ! (b * N + i)) (0 # w b)))"
  shows "\<And>b. b < bs \<Longrightarrow> fr_lens r ! b = fst (snd (E b))" "\<And>b. b < bs \<Longrightarrow> fr_outputs r ! b = fst (E b)"
    "distinct (fr_index r)" "set (fr_index r) \<subseteq> {0..<int (bs * N)}"
    "fr_index r = concat (map (\<lambda>b. take (fst (snd (E b))) (map (\<lambda>i. int (b * N + i)) (0 # w b))) [0..<bs])"
proof -
  have w: "ns ! b = length (w b)" "length (w b) \<le> m" "distinct (0 # w b)" "set (0 # w b) \<subseteq> {..<N}"
    "accs ! b = map (\<lambda>i. int (b * N + i)) (0 # w b) @ replicate (m - length (w b)) (- 1)" if "b < bs" for b
    using walks that by blast+
  define path where "path = (\<lambda>b. map (\<lambda>i. int (b * N + i)) (0 # w b))"
  define paths where "paths = map path [0..<bs]"
  have lp: "length paths = bs" and pb: "\<And>b. b < bs \<Longrightarrow> paths ! b = path b" by (simp_all add: paths_def)
  have accs: "accs = accept_rows (Suc m) paths"
    by (rule nth_equalityI) (use w lens in \<open>simp_all add: accept_rows_def paths_def path_def\<close>)
  have ns: "ns = map (\<lambda>P. length P - 1) paths"
    by (rule nth_equalityI) (use w lens in \<open>simp_all add: paths_def path_def\<close>)
  have ok: "paths_ok (Suc m) paths" using w(2) by (auto simp: paths_ok_def paths_def path_def)
  have toks: "map (\<lambda>i. p ! nat i) (path b) = map (\<lambda>i. p ! (b * N + i)) (0 # w b)" for b
    unfolding path_def map_map by (rule map_cong[OF refl]) (simp add: nat_int_add del: of_nat_add of_nat_mult)
  have em: "map (\<lambda>b. fst (snd (emit_tokens finished (outs ! b) (map (\<lambda>i. p ! nat i) (paths ! b))))) [0..<length paths]
      = map (\<lambda>b. fst (snd (E b))) [0..<bs]"
    "map (\<lambda>b. fst (emit_tokens finished (outs ! b) (map (\<lambda>i. p ! nat i) (paths ! b)))) [0..<length paths] = map (\<lambda>b. fst (E b)) [0..<bs]"
    unfolding lp E_def toks[symmetric] by (simp_all add: pb)
  have r: "fr_lens r = map (\<lambda>b. fst (snd (E b))) [0..<bs]" "fr_outputs r = map (\<lambda>b. fst (E b)) [0..<bs]"
    "fr_index r = concat (map2 take (map (\<lambda>b. fst (snd (E b))) [0..<bs]) paths)"
    using fill_requests_eq[OF ok, of outs finished p] lens(3) lp unfolding r_def accs ns em by simp_all
  show "\<And>b. b < bs \<Longrightarrow> fr_lens r ! b = fst (snd (E b))" "\<And>b. b < bs \<Longrightarrow> fr_outputs r ! b = fst (E b)"
    by (simp_all add: r(1,2))
  have "map2 take (map (\<lambda>b. fst (snd (E b))) [0..<bs]) paths = map (\<lambda>b. take (fst (snd (E b))) (path b)) [0..<bs]"
    by (rule nth_equalityI) (simp_all add: paths_def)
  then have idx: "fr_index r = concat (map (\<lambda>b. take (fst (snd (E b))) (path b)) [0..<bs])" using r(3) by simp
  then show "fr_index r = concat (map (\<lambda>b. take (fst (snd (E b))) (map (\<lambda>i. int (b * N + i)) (0 # w b))) [0..<bs])"
    by (simp only: path_def)
  show "distinct (fr_index r)" "set (fr_index r) \<subseteq> {0..<int (bs * N)}"
    using distinct_concat_rows[of bs "\<lambda>b. take (fst (snd (E b))) (path b)" N] walk_positions[OF w(3,4)]
    unfolding idx path_def by blast+
qed

lemma emit_take:
  assumes "emit_tokens finished out D = (res, k, f)" "D \<noteq> []"
  shows "res = out @ take k D \<and> 0 < k \<and> k \<le> length D \<and> (\<forall>m. 0 < m \<longrightarrow> m < k \<longrightarrow> \<not> finished (out @ take m D))
    \<and> (k < length D \<longrightarrow> finished (out @ take k D))"
  using emit_tokens_spec[OF assms(1)] emit_tokens_pos[OF assms(2), of finished out] assms(1) by (auto split: if_splits)

text \<open>
  C20.  Greedy verification on the paged path is lossless for a whole batch.  Given trees in which
  every node but the root has a parent with a smaller index (so without the invalid places of a
  fixed-width tree and without the reordered parents that a merge can leave) and whose pointers were
  computed by the code, a target forward that returns for every tree node the target's logits
  after the context and the tokens of the node's root path, a vocabulary and a batch that fit
  32-bit integers, and room for the deepest path, the kernel returns.  The accepted positions of a
  request are those of the path from the root to one node \<open>leaf b\<close>, which lies at the depth bound or
  has no child that carries the target's choice at it; and after filling, the request has received
  a prefix of the target's own greedy continuation of its context and root token -- one token per
  accepted position, the last one being the bonus, cut right after the first token at which the
  request finishes.  The retained flat positions are the accepted ones up to that cut, request by
  request; they are distinct and lie inside the batch.
\<close>

theorem paged_verify_lossless:
  assumes len: "length logits = bs * N" "length draft_token = bs * N" "length links = bs" "bs * N \<le> length blank"
    and depth: "0 \<le> depth" "depth + 1 \<le> int N"
    and rows: "\<forall>b<bs. verify_input_ok N b (par b) (links ! b)"
    and tgt: "\<forall>b<bs. tree_logits tgt N ctx par draft_token logits b"
    and vocab: "\<forall>c. tgt c \<noteq> [] \<and> length (tgt c) \<le> 2 ^ 31" and small: "bs * N \<le> 2 ^ 31"
    and outs: "length outs = bs"
  shows "\<exists>p accs ns r leaf. greedy_verify bs N depth links draft_token logits blank = Inr (Some (p, accs, ns))
    \<and> r = fill_requests finished p accs ns outs
    \<and> (\<forall>b<bs. leaf b < N \<and> length (root_path (par b) (leaf b)) = Suc (ns ! b) \<and> ns ! b \<le> nat depth
        \<and> accs ! b = map (\<lambda>i. int (b * N + i)) (root_path (par b) (leaf b)) @ replicate (nat depth - ns ! b) (- 1)
        \<and> (ns ! b < nat depth \<longrightarrow> (\<forall>j<N. 0 < j \<and> par b ! j = leaf b
              \<longrightarrow> draft_token ! (b * N + j) \<noteq> int (argmax_first (logits ! (b * N + leaf b))))))
    \<and> (\<forall>b<bs. \<exists>D k. D = greedy_decode tgt (ctx b @ [draft_token ! (b * N)]) (Suc (ns ! b))
        \<and> fr_lens r ! b = k \<and> 0 < k \<and> k \<le> Suc (ns ! b) \<and> fr_outputs r ! b = outs ! b @ take k D
        \<and> (\<forall>m. 0 < m \<longrightarrow> m < k \<longrightarrow> \<not> finished (outs ! b @ take m D))
        \<and> (k < Suc (ns ! b) \<longrightarrow> finished (outs ! b @ take k D)))
    \<and> fr_index r = concat (map (\<lambda>b. take (fr_lens r ! b) (map (\<lambda>i. int (b * N + i)) (root_path (par b) (leaf b)))) [0..<bs])
    \<and> distinct (fr_index r) \<and> set (fr_index r) \<subseteq> {0..<int (bs * N)}"
proof -
  obtain p accs ns where run: "greedy_verify bs N depth links draft_token logits blank = Inr (Some (p, accs, ns))"
    and lens: "length accs = bs" "length ns = bs"
    and all: "\<forall>b<bs. \<exists>w. ns ! b = length w \<and> length w \<le> nat depth
        \<and> distinct (0 # w) \<and> set (0 # w) \<subseteq> {..<N}
        \<and> accs ! b = map (\<lambda>i. int (b * N + i)) (0 # w) @ replicate (nat depth - length w) (- 1)
        \<and> root_path (par b) (last (0 # w)) = 0 # w
        \<and> map (\<lambda>i. p ! (b * N + i)) (0 # w) = greedy_decode tgt (ctx b @ [draft_token ! (b * N)]) (Suc (length w))
        \<and> (length w < nat depth \<longrightarrow> (\<forall>j<N. 0 < j \<and> par b ! j = last (0 # w)
              \<longrightarrow> draft_token ! (b * N + j) \<noteq> int (argmax_first (logits ! (b * N + last (0 # w))))))"
    using greedy_verify_paths[OF len depth rows tgt vocab small] by blast
  define D where "D b = greedy_decode tgt (ctx b @ [draft_token ! (b * N)]) (Suc (ns ! b))" for b
  obtain w where W: "\<forall>b<bs. ns ! b = length (w b) \<and> length (w b) \<le> nat depth
        \<and> distinct (0 # w b) \<and> set (0 # w b) \<subseteq> {..<N}
        \<and> accs ! b = map (\<lambda>i. int (b * N + i)) (0 # w b) @ replicate (nat depth - length (w b)) (- 1)
        \<and> root_path (par b) (last (0 # w b)) = 0 # w b
        \<and> map (\<lambda>i. p ! (b * N + i)) (0 # w b) = greedy_decode tgt (ctx b @ [draft_token ! (b * N)]) (Suc (length (w b)))
        \<and> (length (w b) < nat depth \<longrightarrow> (\<forall>j<N. 0 < j \<and> par b ! j = last (0 # w b)
              \<longrightarrow> draft_token ! (b * N + j) \<noteq> int (argmax_first (logits ! (b * N + last (0 # w b))))))"
    using all by metis
  have w: "ns ! b = length (w b)" "length (w b) \<le> nat depth" "distinct (0 # w b)" "set (0 # w b) \<subseteq> {..<N}"
    "accs ! b = map (\<lambda>i. int (b * N + i)) (0 # w b) @ replicate (nat depth - length (w b)) (- 1)"
    "root_path (par b) (last (0 # w b)) = 0 # w b" "map (\<lambda>i. p ! (b * N + i)) (0 # w b) = D b"
    "ns ! b < nat depth \<longrightarrow> (\<forall>j<N. 0 < j \<and> par b ! j = last (0 # w b)
              \<longrightarrow> draft_token ! (b * N + j) \<noteq> int (argmax_first (logits ! (b * N + last (0 # w b)))))"
    if b: "b < bs" for b
    using W[rule_format, OF b] unfolding D_def by metis+
  define r where "r = fill_requests finished p accs ns outs"
  have "\<forall>b<bs. ns ! b = length (w b) \<and> length (w b) \<le> nat depth \<and> distinct (0 # w b) \<and> set (0 # w b) \<subseteq> {..<N}
      \<and> accs ! b = map (\<lambda>i. int (b * N + i)) (0 # w b) @ replicate (nat depth - length (w b)) (- 1)" using W by blast
  note fill = fill_walks[where finished = finished and p = p, OF lens outs this, folded r_def]
  define leaf where "leaf b = last (0 # w b)" for b
  have path: "root_path (par b) (leaf b) = 0 # w b" if "b < bs" for b using w(6)[OF that] by (simp only: leaf_def)
  have one: "leaf b < N \<and> length (root_path (par b) (leaf b)) = Suc (ns ! b) \<and> ns ! b \<le> nat depth
        \<and> accs ! b = map (\<lambda>i. int (b * N + i)) (root_path (par b) (leaf b)) @ replicate (nat depth - ns ! b) (- 1)
        \<and> (ns ! b < nat depth \<longrightarrow> (\<forall>j<N. 0 < j \<and> par b ! j = leaf b
              \<longrightarrow> draft_token ! (b * N + j) \<noteq> int (argmax_first (logits ! (b * N + leaf b)))))"
    if b: "b < bs" for b
  proof -
    have "leaf b < N" unfolding leaf_def using w(4)[OF b] last_in_set[of "0 # w b"] by blast
    moreover have "length (root_path (par b) (leaf b)) = Suc (ns ! b)" unfolding path[OF b] by (simp add: w(1)[OF b])
    moreover have "accs ! b = map (\<lambda>i. int (b * N + i)) (root_path (par b) (leaf b)) @ replicate (nat depth - ns ! b) (- 1)"
      unfolding path[OF b] w(1)[OF b] by (rule w(5)[OF b])
    ultimately show ?thesis using w(2)[OF b] w(8)[OF b, folded leaf_def] unfolding w(1)[OF b, symmetric] by blast
  qed
  have two: "\<exists>D k. D = greedy_decode tgt (ctx b @ [draft_token ! (b * N)]) (Suc (ns ! b))
        \<and> fr_lens r ! b = k \<and> 0 < k \<and> k \<le> Suc (ns ! b) \<and> fr_outputs r ! b = outs ! b @ take k D
        \<and> (\<forall>m. 0 < m \<longrightarrow> m < k \<longrightarrow> \<not> finished (outs ! b @ take m D))
        \<and> (k < Suc (ns ! b) \<longrightarrow> finished (outs ! b @ take k D))"
    if b: "b < bs" for b
  proof -
    obtain res k f where e: "emit_tokens finished (outs ! b) (D b) = (res, k, f)" by (metis prod_cases3)
    have lD: "length (D b) = Suc (ns ! b)" unfolding D_def by (rule length_greedy_decode)
    then have ne: "D b \<noteq> []" by (metis length_0_conv nat.distinct(1))
    have "fr_lens r ! b = k" "fr_outputs r ! b = res" using fill(1,2)[OF b] unfolding w(7)[OF b] e by simp_all
    then show ?thesis using emit_take[OF e ne, unfolded lD] unfolding D_def[symmetric] by blast
  qed
  have three: "fr_index r = concat (map (\<lambda>b. take (fr_lens r ! b) (map (\<lambda>i. int (b * N + i)) (root_path (par b) (leaf b)))) [0..<bs])"
    unfolding fill(5)
  proof (rule arg_cong[where f = concat], rule map_cong[OF refl])
    fix b assume "b \<in> set [0..<bs]"
    then have b: "b < bs" by simp
    show "take (fst (snd (emit_tokens finished (outs ! b) (map (\<lambda>i. p ! (b * N + i)) (0 # w b))))) (map (\<lambda>i. int (b * N + i)) (0 # w b))
        = take (fr_lens r ! b) (map (\<lambda>i. int (b * N + i)) (root_path (par b) (leaf b)))"
      unfolding path[OF b] fill(1)[OF b] by (rule refl)
  qed
  show ?thesis
    by (intro exI[of _ p] exI[of _ accs] exI[of _ ns] exI[of _ r] exI[of _ leaf] conjI,
      rule run, rule r_def, intro allI impI, erule one, intro allI impI, erule two, rule three, rule fill(3), rule fill(4))
qed

text \<open>
  Releasing rejected cache slots neither leaks nor frees twice: when the retained flat
  positions are distinct and inside the batch, the evicted and the kept locations together are
  exactly the allocated ones, and the kept ones are listed in the order of the accepted paths.
\<close>

theorem free_cache_partitions:
  assumes "distinct index" "set index \<subseteq> {0..<int (length locs)}"
  shows "mset (fst (free_cache index locs)) + mset (snd (free_cache index locs)) = mset locs
    \<and> length (snd (free_cache index locs)) = length index
    \<and> (\<forall>j<length index. snd (free_cache index locs) ! j = locs ! nat (index ! j))"
proof -
  let ?keep = "map nat index" and ?drop = "filter (\<lambda>i. int i \<notin> set index) [0..<length locs]"
  have inj: "inj_on nat (set index)" using assms(2) by (intro inj_onI) (metis atLeastLessThan_iff nat_eq_iff2 subsetD)
  have d: "distinct (?drop @ ?keep)" using assms inj by (auto simp: distinct_map)
  have "set (?drop @ ?keep) = set [0..<length locs]"
  proof (intro equalityI subsetI)
    fix i assume "i \<in> set (?drop @ ?keep)"
    then show "i \<in> set [0..<length locs]" by (auto dest!: assms(2)[THEN subsetD])
  next
    fix i assume "i \<in> set [0..<length locs]"
    then show "i \<in> set (?drop @ ?keep)" by (cases "int i \<in> set index") (force simp: image_iff)+
  qed
  then have "mset (?drop @ ?keep) = mset [0..<length locs]"
    using set_eq_iff_mset_eq_distinct[OF d, of "[0..<length locs]"] by simp
  then have "mset ?drop + mset ?keep = mset [0..<length locs]" by (simp only: mset_append)
  then have "image_mset (\<lambda>i. locs ! i) (mset ?drop + mset ?keep) = image_mset (\<lambda>i. locs ! i) (mset [0..<length locs])" by simp
  also have "\<dots> = mset locs" by (metis map_nth mset_map)
  finally have "mset (map (\<lambda>i. locs ! i) ?drop) + mset (map (\<lambda>i. locs ! i) ?keep) = mset locs"
    by (simp only: mset_map image_mset_union)
  moreover have "map (\<lambda>i. locs ! nat i) index = map (\<lambda>i. locs ! i) ?keep" by simp
  ultimately show ?thesis unfolding free_cache_def fst_conv snd_conv by (simp only: length_map nth_map) simp
qed
theorem free_cache_partitions_witness:
  "mset (fst (free_cache [0, 2] [10, 11, 12, 13 :: nat])) + mset (snd (free_cache [0, 2] [10, 11, 12, 13])) = mset [10, 11, 12, 13]
   \<and> free_cache [0, 2] [10, 11, 12, 13] = ([11, 13], [10, 12 :: nat])"
  using free_cache_partitions[of "[0, 2]" "[10, 11, 12, 13 :: nat]"]
  by (simp add: free_cache_def upt_rec)

definition witness_links :: "(int list \<times> int list \<times> int list) list" where
  "witness_links = [([0, 1, 2], [1, - 1, - 1], [- 1, 2, - 1])]"

theorem paged_verify_lossless_witness:
  "\<exists>p accs ns r leaf. greedy_verify 1 3 1 witness_links [4, 1, 2] (map witness_tgt [[3, 4], [3, 4, 1], [3, 4, 2]]) [0, 0, 0, 0]
        = Inr (Some (p, accs, ns))
     \<and> r = fill_requests (\<lambda>out. last out = 0) p accs ns [[9]]
     \<and> accs ! 0 = map int (root_path [0, 0, 0] leaf) @ replicate (1 - ns ! 0) (- 1)
     \<and> fr_outputs r ! 0 = [9] @ take (fr_lens r ! 0) (greedy_decode witness_tgt [3, 4] (Suc (ns ! 0)))"
proof -
  have links: "\<forall>b<1. verify_input_ok 3 b [0, 0, 0] (witness_links ! b)"
    by (simp add: verify_input_ok_def witness_links_def wf_par_def row_links_def tree_parents_def upt_rec
        parents_to_next_token_and_sibling_def link_step_def Let_def)
  have step: "root_path [0, 0, 0] 1 = [0, 1]" "root_path [0, 0, 0] 2 = [0, 2]"
    using root_path_step[of "[0, 0, 0]" 1] root_path_step[of "[0, 0, 0]" 2] by (simp_all add: wf_par_def upt_rec)
  have tl: "\<forall>b<1. tree_logits witness_tgt 3 (\<lambda>b. [3]) (\<lambda>b. [0, 0, 0]) [4, 1, 2] (map witness_tgt [[3, 4], [3, 4, 1], [3, 4, 2]]) b"
    unfolding tree_logits_def
  proof (intro allI impI)
    fix b i :: nat assume "b < 1" "i < 3"
    then consider "b = 0" "i = 0" | "b = 0" "i = 1" | "b = 0" "i = 2" by linarith
    then show "map witness_tgt [[3, 4], [3, 4, 1], [3, 4, 2]] ! (b * 3 + i)
      = witness_tgt ([3] @ map (\<lambda>j. [4, 1, 2] ! (b * 3 + j)) (root_path [0, 0, 0] i))"
      by cases (simp_all add: step step[unfolded One_nat_def])
  qed
  have vocab: "\<forall>c. witness_tgt c \<noteq> [] \<and> length (witness_tgt c) \<le> 2 ^ 31" by (simp add: witness_tgt_def)
  obtain p accs ns r leaf where r: "greedy_verify 1 3 1 witness_links [4, 1, 2] (map witness_tgt [[3, 4], [3, 4, 1], [3, 4, 2]]) [0, 0, 0, 0]
        = Inr (Some (p, accs, ns))" "r = fill_requests (\<lambda>out. last out = 0) p accs ns [[9]]"
      "\<forall>b<1. \<exists>D k. D = greedy_decode witness_tgt ([3] @ [[4, 1, 2] ! (b * 3)]) (Suc (ns ! b)) \<and> fr_lens r ! b = k
        \<and> fr_outputs r ! b = [[9]] ! b @ take k D"
      "\<forall>b<1. accs ! b = map (\<lambda>i. int (b * 3 + i)) (root_path [0, 0, 0] (leaf b)) @ replicate (1 - ns ! b) (- 1)"
    using paged_verify_lossless[OF _ _ _ _ _ _ links tl vocab, of "[0, 0, 0, 0]" 1 "[[9]]" "\<lambda>out. last out = 0"]
    by (simp add: witness_links_def) metis
  then show ?thesis using r(3)[rule_format, of 0] r(4)[rule_format, of 0]
    by (intro exI[of _ p] exI[of _ accs] exI[of _ ns] exI[of _ r] exI[of _ "leaf 0"]) auto
qed

end
