(* ===== verification/KV_Pool.thy ===== *)
theory KV_Pool
  imports Prelude "HOL-Library.Multiset"
begin

text \<open>
  The worker-local paged pool of the cross-attention keys and values
  (\<open>sglang/srt/speculative/spec_kv_pool.py\<close>): slot allocation with incremental growth, release,
  the capture mode that forbids growth, and the two writers \<open>set_kv\<close> and \<open>set_kv_padded\<close> (with
  its Triton kernel).  Slots are Python integers (\<open>int\<close>); a tensor is a nested list.  Slot 0 is
  the zero sentinel: \<open>pool_ok\<close> states that it is never handed out and stays zero, and that free
  and owned slots together are exactly the other slots, each once.
\<close>

section \<open>The pool\<close>

record 'v kv_pool =
  kp_layers :: nat
  kp_heads :: nat
  kp_dim :: nat
  kp_max :: int
  kp_size :: int
  kp_k :: "'v list list list list"
  kp_v :: "'v list list list list"
  kp_free :: "int list"
  kp_n_alloc :: int
  kp_high_water :: int
  kp_capture :: bool
  kp_version :: int

definition GROW_CHUNK :: int where
  "GROW_CHUNK = 65536"

definition zero_slots :: "nat \<Rightarrow> nat \<Rightarrow> nat \<Rightarrow> 'v::zero list list list" where
  "zero_slots n heads dim = replicate n (replicate heads (replicate dim 0))"

definition kv_init :: "int \<Rightarrow> int \<Rightarrow> nat \<Rightarrow> nat \<Rightarrow> nat \<Rightarrow> 'v::zero kv_pool res" where
  "kv_init initial mx layers heads dim =
     (if initial < 2 then Inl ValueError
      else
        (let zeros = replicate layers (zero_slots (nat initial) heads dim) in
         Inr \<lparr>kp_layers = layers, kp_heads = heads, kp_dim = dim,
              kp_max = (if mx < initial then initial else mx), kp_size = initial,
              kp_k = zeros, kp_v = zeros, kp_free = [1..initial - 1],
              kp_n_alloc = 0, kp_high_water = 0, kp_capture = False, kp_version = 0\<rparr>))"

definition enter_capture :: "'v kv_pool \<Rightarrow> 'v kv_pool res" where
  "enter_capture p = (if kp_capture p then Inl RuntimeError else Inr (p\<lparr>kp_capture := True\<rparr>))"

definition exit_capture :: "'v kv_pool \<Rightarrow> 'v kv_pool" where
  "exit_capture p = p\<lparr>kp_capture := False\<rparr>"

text \<open>\<open>_grow\<close>: the new storage is zero and receives the old slots; the new slots join the queue.\<close>

definition kv_grow :: "int \<Rightarrow> 'v::zero kv_pool \<Rightarrow> 'v kv_pool res" where
  "kv_grow new_size p =
     (if kp_max p < new_size then Inl RuntimeError
      else if new_size \<le> kp_size p then Inr p
      else
        (let extend = (\<lambda>slots. slots @ zero_slots (nat (new_size - kp_size p)) (kp_heads p) (kp_dim p)) in
         Inr (p\<lparr>kp_k := map extend (kp_k p), kp_v := map extend (kp_v p),
                kp_free := kp_free p @ [kp_size p..new_size - 1],
                kp_size := new_size, kp_version := kp_version p + 1\<rparr>)))"

text \<open>\<open>[self._free.popleft() for _ in range(n)]\<close>: popping an empty deque raises.\<close>

fun pop_many :: "nat \<Rightarrow> 'a list \<Rightarrow> ('a list \<times> 'a list) res" where
  "pop_many 0 xs = Inr ([], xs)"
| "pop_many (Suc n) [] = Inl IndexError"
| "pop_many (Suc n) (x # xs) = res_bind (pop_many n xs) (\<lambda>(ys, rest). Inr (x # ys, rest))"

definition kv_alloc :: "int \<Rightarrow> 'v::zero kv_pool \<Rightarrow> (int list \<times> 'v kv_pool) res" where
  "kv_alloc n p =
     (if n \<le> 0 then Inr ([], p)
      else
        res_bind
          (if int (length (kp_free p)) < n
           then if kp_capture p then Inl RuntimeError else kv_grow (kp_size p + max n GROW_CHUNK) p
           else Inr p) (\<lambda>q.
        res_bind (pop_many (nat n) (kp_free q)) (\<lambda>(popped, rest).
        let n_alloc = kp_n_alloc q + n in
        Inr (sort popped,
             q\<lparr>kp_free := rest, kp_n_alloc := n_alloc,
               kp_high_water := (if kp_high_water q < n_alloc then n_alloc else kp_high_water q)\<rparr>))))"

definition kv_free :: "int list \<Rightarrow> 'v kv_pool \<Rightarrow> 'v kv_pool" where
  "kv_free indices p =
     (if indices = [] then p
      else p\<lparr>kp_free := kp_free p @ filter (\<lambda>i. i \<noteq> 0) indices,
             kp_n_alloc := kp_n_alloc p - int (length indices)\<rparr>)"

definition kv_reset :: "'v kv_pool \<Rightarrow> 'v kv_pool" where
  "kv_reset p = p\<lparr>kp_free := [1..kp_size p - 1], kp_n_alloc := 0\<rparr>"

section \<open>Invariant\<close>

text \<open>\<open>tensor_ok\<close>: the shape \<open>[layers, size, heads, dim]\<close> of a buffer, with a zero sentinel.\<close>

definition slots_ok :: "nat \<Rightarrow> nat \<Rightarrow> nat \<Rightarrow> 'v::zero list list list \<Rightarrow> bool" where
  "slots_ok n heads dim slots \<longleftrightarrow>
     length slots = n \<and> (\<forall>s\<in>set slots. length s = heads \<and> (\<forall>h\<in>set s. length h = dim))
     \<and> slots ! 0 = replicate heads (replicate dim 0)"

definition buffers_ok :: "'v::zero kv_pool \<Rightarrow> bool" where
  "buffers_ok p \<longleftrightarrow>
     length (kp_k p) = kp_layers p \<and> length (kp_v p) = kp_layers p
     \<and> (\<forall>slots \<in> set (kp_k p) \<union> set (kp_v p). slots_ok (nat (kp_size p)) (kp_heads p) (kp_dim p) slots)"

definition pool_ok :: "'v::zero kv_pool \<Rightarrow> int list \<Rightarrow> bool" where
  "pool_ok p owned \<longleftrightarrow>
     2 \<le> kp_size p \<and> kp_size p \<le> kp_max p
     \<and> mset (kp_free p @ owned) = mset [1..kp_size p - 1]
     \<and> kp_n_alloc p = int (length owned) \<and> kp_n_alloc p \<le> kp_high_water p
     \<and> kp_high_water p < kp_size p \<and> buffers_ok p"

text \<open>The contents of a slot: its key and its value in every layer.\<close>

definition slot_data :: "'v kv_pool \<Rightarrow> int \<Rightarrow> ('v list list \<times> 'v list list) list" where
  "slot_data p s = zip (map (\<lambda>slots. slots ! nat s) (kp_k p)) (map (\<lambda>slots. slots ! nat s) (kp_v p))"

lemma pool_ok_owned:
  assumes "pool_ok p owned"
  shows "distinct owned" "set owned \<subseteq> {1..<kp_size p}" "0 \<notin> set owned"
    "set (kp_free p) \<inter> set owned = {}" "distinct (kp_free p)"
proof -
  have m: "mset (kp_free p @ owned) = mset [1..kp_size p - 1]" using assms by (simp add: pool_ok_def)
  have d: "distinct (kp_free p @ owned)" by (rule mset_eq_imp_distinct_iff[THEN iffD2, OF m]) simp
  have s: "set (kp_free p @ owned) = {1..kp_size p - 1}" using mset_eq_setD[OF m] by simp
  show "distinct owned" "set (kp_free p) \<inter> set owned = {}" "distinct (kp_free p)" using d by auto
  show sub: "set owned \<subseteq> {1..<kp_size p}" using s by auto
  show "0 \<notin> set owned" using sub by force
qed

lemma pool_ok_length: "pool_ok p owned \<Longrightarrow> int (length (kp_free p)) + int (length owned) = kp_size p - 1"
proof -
  assume a: "pool_ok p owned"
  then have "mset (kp_free p @ owned) = mset [1..kp_size p - 1]" by (simp add: pool_ok_def)
  from mset_eq_length[OF this] have "length (kp_free p) + length owned = nat (kp_size p - 1)" by simp
  moreover have "2 \<le> kp_size p" using a by (simp add: pool_ok_def)
  ultimately show ?thesis by linarith
qed

lemma pool_ok_mset: "pool_ok p owned \<Longrightarrow> mset owned' = mset owned \<Longrightarrow> pool_ok p owned'"
  using mset_eq_length[of owned' owned] by (simp add: pool_ok_def)

lemma slots_ok_zero: "0 < n \<Longrightarrow> slots_ok n heads dim (zero_slots n heads dim)"
  by (auto simp: slots_ok_def zero_slots_def)

lemma kv_init_ok: "kv_init initial mx layers heads dim = Inr p \<Longrightarrow> pool_ok p []"
  by (auto simp: kv_init_def pool_ok_def buffers_ok_def Let_def slots_ok_zero split: if_splits)

section \<open>Allocation and release\<close>

lemma pop_many_enough: "n \<le> length xs \<Longrightarrow> pop_many n xs = Inr (take n xs, drop n xs)"
  by (induction n xs rule: pop_many.induct) auto

lemma slots_ok_extend:
  "slots_ok (nat n) heads dim slots \<Longrightarrow> 0 < n \<Longrightarrow> n \<le> m
    \<Longrightarrow> slots_ok (nat m) heads dim (slots @ zero_slots (nat (m - n)) heads dim)"
  by (auto simp: slots_ok_def zero_slots_def nth_append nat_diff_distrib)

lemma kv_grow_ok:
  assumes "pool_ok p owned" "kv_grow m p = Inr q"
  shows "pool_ok q owned" "\<exists>new. kp_free q = kp_free p @ new" "kp_size q = max (kp_size p) m"
    "s < kp_size p \<Longrightarrow> slot_data q s = slot_data p s"
proof -
  let ?ext = "\<lambda>slots. slots @ zero_slots (nat (m - kp_size p)) (kp_heads p) (kp_dim p)"
  consider "q = p" "m \<le> kp_size p"
    | "kp_size p < m" "m \<le> kp_max p"
      "q = p\<lparr>kp_k := map ?ext (kp_k p), kp_v := map ?ext (kp_v p),
             kp_free := kp_free p @ [kp_size p..m - 1], kp_size := m, kp_version := kp_version p + 1\<rparr>"
    using assms(2) by (force simp: kv_grow_def Let_def split: if_splits)
  note cases = this
  have p: "2 \<le> kp_size p" "kp_high_water p < kp_size p" "buffers_ok p"
    "mset (kp_free p @ owned) = mset [1..kp_size p - 1]"
    using assms(1) by (simp_all add: pool_ok_def)
  have ext: "[1..m - 1] = [1..kp_size p - 1] @ [kp_size p..m - 1]" if "kp_size p < m"
    using that p(1) upto_split1[of 1 "kp_size p - 1" "m - 1"] upto_split2[of 1 "kp_size p - 1" "m - 1"] by simp
  have len: "length slots = nat (kp_size p)" if "slots \<in> set (kp_k p) \<union> set (kp_v p)" for slots
    using that p(3) by (auto simp: buffers_ok_def slots_ok_def)
  show "pool_ok q owned"
  proof (cases rule: cases)
    case 2
    have "buffers_ok q" using p(1,3) 2 by (auto simp: buffers_ok_def slots_ok_extend)
    then show ?thesis using assms(1) p(4) ext[OF 2(1)] 2
      by (simp add: pool_ok_def union_assoc add.commute add.left_commute)
  qed (use assms in simp)
  show "\<exists>new. kp_free q = kp_free p @ new" by (cases rule: cases) auto
  show "kp_size q = max (kp_size p) m" by (cases rule: cases) auto
  assume s: "s < kp_size p"
  show "slot_data q s = slot_data p s"
  proof (cases rule: cases)
    case 2
    have *: "map (\<lambda>slots. slots ! nat s) (map ?ext (kp_k p)) = map (\<lambda>slots. slots ! nat s) (kp_k p)"
      "map (\<lambda>slots. slots ! nat s) (map ?ext (kp_v p)) = map (\<lambda>slots. slots ! nat s) (kp_v p)"
      using s p(1) len by (auto simp: nth_append)
    show ?thesis unfolding slot_data_def 2(3) by (simp del: map_map add: *)
  qed simp
qed

text \<open>
  What allocation does when it returns: the slots come from the front of the queue (after the
  growth, if one was needed), sorted; the rest of the queue keeps its order.
\<close>

lemma kv_alloc_cases:
  assumes "kv_alloc n p = Inr (ids, q)" "0 < n"
  obtains r where "r = p \<and> n \<le> int (length (kp_free p))
      \<or> int (length (kp_free p)) < n \<and> \<not> kp_capture p \<and> kv_grow (kp_size p + max n GROW_CHUNK) p = Inr r"
    "pop_many (nat n) (kp_free r) = Inr (take (nat n) (kp_free r), drop (nat n) (kp_free r))"
    "ids = sort (take (nat n) (kp_free r))" "nat n \<le> length (kp_free r)"
    "q = r\<lparr>kp_free := drop (nat n) (kp_free r), kp_n_alloc := kp_n_alloc r + n,
           kp_high_water := max (kp_high_water r) (kp_n_alloc r + n)\<rparr>"
proof -
  obtain r popped rest where r: "(if int (length (kp_free p)) < n
           then if kp_capture p then Inl RuntimeError else kv_grow (kp_size p + max n GROW_CHUNK) p
           else Inr p) = Inr r" "pop_many (nat n) (kp_free r) = Inr (popped, rest)" "ids = sort popped"
      "q = r\<lparr>kp_free := rest, kp_n_alloc := kp_n_alloc r + n,
           kp_high_water := (if kp_high_water r < kp_n_alloc r + n then kp_n_alloc r + n else kp_high_water r)\<rparr>"
    using assms by (auto simp: kv_alloc_def Let_def)
  have short: "pop_many k xs = Inr y \<Longrightarrow> k \<le> length xs" for k y and xs :: "int list"
    by (induction k xs arbitrary: y rule: pop_many.induct) auto
  from short[OF r(2)] have le: "nat n \<le> length (kp_free r)" .
  with r(2) have pr: "popped = take (nat n) (kp_free r)" "rest = drop (nat n) (kp_free r)"
    by (simp_all add: pop_many_enough)
  show thesis
    by (rule that[of r]) (use r le pr in \<open>auto simp: pop_many_enough split: if_splits\<close>)
qed

lemma kv_alloc_ok:
  assumes "pool_ok p owned" "kv_alloc n p = Inr (ids, q)"
  shows "pool_ok q (owned @ ids)" "length ids = nat n" "sorted ids"
    "s < kp_size p \<Longrightarrow> slot_data q s = slot_data p s" "kp_size p \<le> kp_size q"
proof -
  have "pool_ok q (owned @ ids) \<and> length ids = nat n \<and> sorted ids \<and> kp_size p \<le> kp_size q
    \<and> (s < kp_size p \<longrightarrow> slot_data q s = slot_data p s)"
  proof (cases "0 < n")
    case True
    obtain r where r: "r = p \<and> n \<le> int (length (kp_free p))
      \<or> int (length (kp_free p)) < n \<and> \<not> kp_capture p \<and> kv_grow (kp_size p + max n GROW_CHUNK) p = Inr r"
      "ids = sort (take (nat n) (kp_free r))" "nat n \<le> length (kp_free r)"
      "q = r\<lparr>kp_free := drop (nat n) (kp_free r), kp_n_alloc := kp_n_alloc r + n,
           kp_high_water := max (kp_high_water r) (kp_n_alloc r + n)\<rparr>"
      using kv_alloc_cases[OF assms(2) True] by metis
    have ok: "pool_ok r owned" and sz: "kp_size p \<le> kp_size r"
      and data: "s < kp_size p \<Longrightarrow> slot_data r s = slot_data p s"
      using r(1) assms(1) kv_grow_ok[OF assms(1)] by auto
    have "mset (take (nat n) (kp_free r)) + mset (drop (nat n) (kp_free r)) = mset (kp_free r)"
      by (metis append_take_drop_id mset_append)
    then have m: "mset (drop (nat n) (kp_free r)) + (mset owned + mset ids) = mset (kp_free r) + mset owned"
      by (simp add: r(2) ac_simps)
    have "kp_n_alloc r + n < kp_size r" using pool_ok_length[OF ok] ok r(3) True by (simp add: pool_ok_def)
    moreover have "buffers_ok q = buffers_ok r" by (simp add: r(4) buffers_ok_def)
    ultimately have "pool_ok q (owned @ ids)" using ok m r(2,3) True
      by (simp add: pool_ok_def r(4))
    moreover have "slot_data q s = slot_data r s" by (simp add: r(4) slot_data_def)
    ultimately show ?thesis using r sz data by simp
  qed (use assms in \<open>auto simp: kv_alloc_def\<close>)
  then show "pool_ok q (owned @ ids)" "length ids = nat n" "sorted ids" "kp_size p \<le> kp_size q"
    "s < kp_size p \<Longrightarrow> slot_data q s = slot_data p s" by auto
qed

lemma kv_free_ok:
  assumes "pool_ok p owned" "mset owned = mset (ids @ rest)"
  shows "pool_ok (kv_free ids p) rest"
proof -
  have "0 \<notin> set ids" using pool_ok_owned(3)[OF assms(1)] mset_eq_setD[OF assms(2)] by auto
  then have f: "filter (\<lambda>i. i \<noteq> 0) ids = ids" by (auto simp: filter_id_conv)
  have len: "length owned = length ids + length rest" using mset_eq_length[OF assms(2)] by simp
  have "mset (kp_free p) + mset ids + mset rest = mset [1..kp_size p - 1]"
    using assms by (simp add: pool_ok_def ac_simps)
  then show ?thesis using assms(1) f len
    by (auto simp: pool_ok_def kv_free_def buffers_ok_def ac_simps)
qed

lemma slot_data_free [simp]: "slot_data (kv_free ids p) s = slot_data p s"
  by (simp add: kv_free_def slot_data_def)
lemma kv_reset_ok: "pool_ok p owned \<Longrightarrow> pool_ok (kv_reset p) []"
  by (auto simp: pool_ok_def kv_reset_def buffers_ok_def)

lemma kv_alloc_error_iff:
  assumes "pool_ok p owned"
  shows "kv_alloc n p = Inl e \<longleftrightarrow> e = RuntimeError \<and> 0 < n \<and> kp_size p - 1 - kp_n_alloc p < n
    \<and> (kp_capture p \<or> kp_max p < kp_size p + max n GROW_CHUNK)"
proof -
  have len: "kp_size p - 1 - kp_n_alloc p = int (length (kp_free p))"
    using pool_ok_length[OF assms] assms by (simp add: pool_ok_def)
  show ?thesis
  proof (cases "0 < n \<and> int (length (kp_free p)) < n")
    case False
    then have "\<exists>r. kv_alloc n p = Inr r"
      by (cases "n \<le> 0") (auto simp: kv_alloc_def pop_many_enough Let_def)
    with False len show ?thesis by auto
  next
    case True
    let ?m = "kp_size p + max n GROW_CHUNK"
    show ?thesis
    proof (cases "kp_capture p \<or> kp_max p < ?m")
      case True
      with \<open>0 < n \<and> _\<close> len show ?thesis by (auto simp: kv_alloc_def kv_grow_def)
    next
      case room: False
      then have "\<exists>q. kv_grow ?m p = Inr q" by (simp add: kv_grow_def Let_def)
      then obtain q where q: "kv_grow ?m p = Inr q" by blast
      note g = kv_grow_ok[OF assms q]
      have "kp_size p + n \<le> kp_size q" "kp_n_alloc q = kp_n_alloc p"
        using g(3) True assms g(1) by (auto simp: pool_ok_def)
      then have "n \<le> int (length (kp_free q))"
        using pool_ok_length[OF g(1)] pool_ok_length[OF assms] by linarith
      then have "nat n \<le> length (kp_free q)" by linarith
      with True room q have "\<exists>r. kv_alloc n p = Inr r"
        by (auto simp: kv_alloc_def pop_many_enough Let_def)
      with room show ?thesis by auto
    qed
  qed
qed

section \<open>Writing keys and values\<close>

text \<open>
  \<open>self.k_buffer[layer_id, indices] = cache_k\<close>: the source is broadcast to the shape
  \<open>[N, heads, dim]\<close> of the target, the indices may count from the end, and a repeated index
  keeps the last row.
\<close>

definition expand_dim :: "nat \<Rightarrow> 'a list \<Rightarrow> 'a list res" where
  "expand_dim n xs =
     (if length xs = n then Inr xs else if length xs = 1 then Inr (replicate n (hd xs)) else Inl RuntimeError)"

definition expand_rows :: "nat \<Rightarrow> nat \<Rightarrow> nat \<Rightarrow> 'v list list list \<Rightarrow> 'v list list list res" where
  "expand_rows n heads dim rows =
     res_bind (expand_dim n rows) (res_map (\<lambda>row. res_bind (expand_dim heads row) (res_map (expand_dim dim))))"

fun put_slots :: "int list \<Rightarrow> 'a list \<Rightarrow> 'a list \<Rightarrow> 'a list res" where
  "put_slots (i # is) (r # rs) slots =
     (if i \<in> {- int (length slots)..<int (length slots)}
      then put_slots is rs (slots[nat (i mod int (length slots)) := r]) else Inl IndexError)"
| "put_slots _ _ slots = Inr slots"

definition put_layer ::
    "'v kv_pool \<Rightarrow> nat \<Rightarrow> int list \<Rightarrow> 'v list list list \<Rightarrow> 'v list list list list \<Rightarrow> 'v list list list list res" where
  "put_layer p layer indices rows buf =
     (if length buf \<le> layer then Inl IndexError
      else
        res_bind (expand_rows (length indices) (kp_heads p) (kp_dim p) rows) (\<lambda>rows'.
        res_bind (put_slots indices rows' (buf ! layer)) (\<lambda>slots. Inr (buf[layer := slots]))))"

text \<open>
  The values of the model are those of the pool's own type: the cast of \<open>cache_k\<close> and \<open>cache_v\<close> to
  \<open>self.dtype\<close>, which does nothing when the caller's tensors have that type already, is the identity here.
\<close>

definition tensor_shape :: "'v list list list \<Rightarrow> nat \<times> nat list \<times> nat list list" where
  "tensor_shape t = (length t, map length t, map (map length) t)"

definition set_kv ::
    "nat \<Rightarrow> int list \<Rightarrow> 'v list list list \<Rightarrow> 'v list list list \<Rightarrow> 'v kv_pool \<Rightarrow> 'v kv_pool res" where
  "set_kv layer indices cache_k cache_v p =
     (if indices = [] then Inr p
      else if tensor_shape cache_k \<noteq> tensor_shape cache_v then Inl ValueError
      else
        res_bind (put_layer p layer indices cache_k (kp_k p)) (\<lambda>k.
        res_bind (put_layer p layer indices cache_v (kp_v p)) (\<lambda>v.
        Inr (p\<lparr>kp_k := k, kp_v := v\<rparr>))))"

text \<open>
  The Triton kernel \<open>_set_kv_padded_kernel\<close>: program \<open>(row, blk)\<close> stores the lanes
  \<open>blk * BLOCK_HD + j\<close> of the heads-and-dimension axis of slot \<open>row mod slots_per_row\<close> of batch row
  \<open>row div slots_per_row\<close>.  A masked lane stores nothing.  \<open>store_lane\<close> is one store.
\<close>

type_synonym 'v slots = "'v list list list"

definition store_lane :: "nat \<times> nat \<times> nat \<Rightarrow> 'v \<Rightarrow> 'v slots \<Rightarrow> 'v slots" where
  "store_lane a x slots =
     (case a of (i, h, d) \<Rightarrow> slots[i := (slots ! i)[h := (slots ! i ! h)[d := x]]])"

definition lane :: "'v slots \<Rightarrow> nat \<times> nat \<times> nat \<Rightarrow> 'v" where
  "lane slots a = (case a of (i, h, d) \<Rightarrow> slots ! i ! h ! d)"

definition padded_program ::
    "nat \<Rightarrow> int list list \<Rightarrow> 'v list list list list \<Rightarrow> int list \<Rightarrow> nat \<Rightarrow> nat \<Rightarrow> nat
      \<Rightarrow> nat \<times> nat \<Rightarrow> 'v slots \<Rightarrow> 'v slots" where
  "padded_program slots_per_row indices cache valid heads dim block = (\<lambda>(row, blk) slots.
     let b = row div slots_per_row;
         s = row - b * slots_per_row;
         slot_valid = int s < valid ! b;
         pool_idx = (if slot_valid then indices ! b ! s else 0)
     in fold (\<lambda>j slots.
          let hd = blk * block + j;
              h = hd div dim;
              d = hd - h * dim
          in if slot_valid \<and> hd < heads * dim
             then store_lane (nat pool_idx, h, d) (cache ! b ! h ! s ! d) slots else slots)
        [0..<block] slots)"

definition cdiv :: "nat \<Rightarrow> nat \<Rightarrow> nat" where
  "cdiv a b = (a + b - 1) div b"

definition BLOCK_HD :: nat where
  "BLOCK_HD = 256"

definition padded_grid :: "nat \<Rightarrow> nat \<Rightarrow> nat \<Rightarrow> nat \<Rightarrow> (nat \<times> nat) list" where
  "padded_grid rows slots_per_row heads dim =
     List.product [0..<rows * slots_per_row] [0..<cdiv (heads * dim) BLOCK_HD]"

definition shape4 :: "'v list list list list \<Rightarrow> (nat \<times> nat \<times> nat \<times> nat) \<Rightarrow> bool" where
  "shape4 t shape = (case shape of (a, b, c, d) \<Rightarrow>
     length t = a \<and> (\<forall>x\<in>set t. length x = b \<and> (\<forall>y\<in>set x. length y = c \<and> (\<forall>z\<in>set y. length z = d))))"

definition set_kv_padded ::
    "nat \<Rightarrow> int list list \<Rightarrow> nat \<times> nat \<times> nat \<times> nat \<Rightarrow> 'v list list list list
      \<Rightarrow> nat \<times> nat \<times> nat \<times> nat \<Rightarrow> 'v list list list list \<Rightarrow> int list \<Rightarrow> 'v kv_pool \<Rightarrow> 'v kv_pool res" where
  "set_kv_padded layer indices shape_k cache_k shape_v cache_v valid p =
     (if concat indices = [] then Inr p
      else if shape_k \<noteq> shape_v then Inl ValueError
      else
        (case shape_k of (rows, heads, max_slots, dim) \<Rightarrow>
          if \<not> (length indices = rows \<and> (\<forall>r\<in>set indices. length r = max_slots)) then Inl ValueError
          else if heads \<noteq> kp_heads p \<or> dim \<noteq> kp_dim p then Inl ValueError
          else if length valid \<noteq> rows then Inl ValueError
          else if length (kp_k p) \<le> layer then Inl IndexError
          else
            (let run = (\<lambda>cache slots.
                   fold (padded_program max_slots indices cache valid heads dim BLOCK_HD)
                     (padded_grid rows max_slots heads dim) slots)
             in Inr (p\<lparr>kp_k := (kp_k p)[layer := run cache_k (kp_k p ! layer)],
                       kp_v := (kp_v p)[layer := run cache_v (kp_v p ! layer)]\<rparr>))))"
section \<open>The padded kernel, in any schedule\<close>

text \<open>
  The kernel is a set of scalar stores.  When every address is stored with one value only, the
  final buffer does not depend on the order of the stores.
\<close>

definition lane_ok :: "nat \<Rightarrow> nat \<Rightarrow> nat \<Rightarrow> nat \<times> nat \<times> nat \<Rightarrow> bool" where
  "lane_ok n heads dim a \<longleftrightarrow> (case a of (i, h, d) \<Rightarrow> i < n \<and> h < heads \<and> d < dim)"

definition block_ok :: "nat \<Rightarrow> nat \<Rightarrow> nat \<Rightarrow> 'v slots \<Rightarrow> bool" where
  "block_ok n heads dim slots \<longleftrightarrow>
     length slots = n \<and> (\<forall>s\<in>set slots. length s = heads \<and> (\<forall>h\<in>set s. length h = dim))"

definition store_all :: "((nat \<times> nat \<times> nat) \<times> 'v) list \<Rightarrow> 'v slots \<Rightarrow> 'v slots" where
  "store_all ws slots = fold (\<lambda>(a, x). store_lane a x) ws slots"

lemma block_ok_nth:
  "block_ok n heads dim slots \<Longrightarrow> i < n \<Longrightarrow> length (slots ! i) = heads"
  "block_ok n heads dim slots \<Longrightarrow> i < n \<Longrightarrow> h < heads \<Longrightarrow> length (slots ! i ! h) = dim"
  unfolding block_ok_def by (metis nth_mem)+

lemma block_ok_row:
  "block_ok n heads dim slots \<Longrightarrow> i < n \<Longrightarrow> length (slots ! i) = heads \<and> (\<forall>h\<in>set (slots ! i). length h = dim)"
  unfolding block_ok_def by (metis nth_mem)

lemma block_ok_store:
  assumes "block_ok n heads dim slots" "lane_ok n heads dim a"
  shows "block_ok n heads dim (store_lane a x slots)"
proof -
  obtain i h d where a: "a = (i, h, d)" by (cases a)
  have r: "i < n" "h < heads" "d < dim" using assms(2) by (simp_all add: lane_ok_def a)
  note sh = block_ok_nth(1)[OF assms(1) r(1)] block_ok_nth(2)[OF assms(1) r(1,2)]
  have "\<forall>g\<in>set ((slots ! i)[h := (slots ! i ! h)[d := x]]). length g = dim"
    using block_ok_nth[OF assms(1) r(1)] sh r by (auto simp: in_set_conv_nth nth_list_update)
  then show ?thesis using assms(1) sh(1)
    by (auto simp: store_lane_def a block_ok_def dest!: set_update_subset_insert[THEN subsetD])
qed

lemma lane_store:
  assumes "block_ok n heads dim slots" "lane_ok n heads dim a" "lane_ok n heads dim b"
  shows "lane (store_lane a x slots) b = (if b = a then x else lane slots b)"
proof -
  obtain i h d j k e where ab: "a = (i, h, d)" "b = (j, k, e)" by (cases a, cases b)
  have r: "i < n" "h < heads" "d < dim" using assms(2) by (simp_all add: lane_ok_def ab)
  note sh = block_ok_nth(1)[OF assms(1) r(1)] block_ok_nth(2)[OF assms(1) r(1,2)]
  have "length slots = n" using assms(1) by (simp add: block_ok_def)
  then show ?thesis using r sh
    by (auto simp: lane_def store_lane_def ab nth_list_update)
qed

lemma lane_store_all:
  assumes "block_ok n heads dim slots" "\<forall>w\<in>set ws. lane_ok n heads dim (fst w)"
    and "lane_ok n heads dim a" "\<forall>w\<in>set ws. fst w = a \<longrightarrow> snd w = x"
  shows "block_ok n heads dim (store_all ws slots)
    \<and> lane (store_all ws slots) a = (if a \<in> fst ` set ws then x else lane slots a)"
  using assms(1,2,4)
proof (induction ws arbitrary: slots)
  case (Cons w ws)
  have ok: "block_ok n heads dim (store_lane (fst w) (snd w) slots)"
    using Cons.prems by (simp add: block_ok_store)
  have "store_all (w # ws) slots = store_all ws (store_lane (fst w) (snd w) slots)"
    by (simp add: store_all_def case_prod_beta)
  then show ?case using Cons.IH[OF ok] Cons.prems lane_store[OF Cons.prems(1) _ assms(3), of "fst w" "snd w"]
    by (auto split: if_splits)
qed (simp add: store_all_def)

text \<open>The stores of one program, and of a schedule of programs.\<close>

definition program_stores ::
    "nat \<Rightarrow> int list list \<Rightarrow> 'v list list list list \<Rightarrow> int list \<Rightarrow> nat \<Rightarrow> nat \<Rightarrow> nat
      \<Rightarrow> nat \<times> nat \<Rightarrow> ((nat \<times> nat \<times> nat) \<times> 'v) list" where
  "program_stores S indices cache valid heads dim block = (\<lambda>(row, blk).
     let b = row div S; s = row mod S in
     map (\<lambda>hd. ((nat (indices ! b ! s), hd div dim, hd mod dim), cache ! b ! (hd div dim) ! s ! (hd mod dim)))
       (filter (\<lambda>hd. int s < valid ! b \<and> hd < heads * dim) (map (\<lambda>j. blk * block + j) [0..<block])))"

lemma program_stores_eq:
  "padded_program S indices cache valid heads dim block g slots
    = store_all (program_stores S indices cache valid heads dim block g) slots"
proof -
  obtain row blk where g: "g = (row, blk)" by (cases g)
  have *: "fold (\<lambda>j slots. let hd = blk * block + j; h = hd div dim; d = hd - h * dim in
        if P \<and> hd < heads * dim then store_lane (f h d) (v h d) slots else slots) js slots
    = store_all (map (\<lambda>hd. (f (hd div dim) (hd mod dim), v (hd div dim) (hd mod dim)))
        (filter (\<lambda>hd. P \<and> hd < heads * dim) (map (\<lambda>j. blk * block + j) js))) slots"
    for P f and v :: "nat \<Rightarrow> nat \<Rightarrow> 'a" and js slots
    by (induction js arbitrary: slots) (auto simp: store_all_def Let_def minus_div_mult_eq_mod)
  show ?thesis
  proof (cases "int (row mod S) < valid ! (row div S)")
    case True
    then show ?thesis
      using *[of True "\<lambda>h d. (nat (indices ! (row div S) ! (row mod S)), h, d)"
          "\<lambda>h d. cache ! (row div S) ! h ! (row mod S) ! d" "[0..<block]" slots]
      unfolding g padded_program_def program_stores_def Let_def prod.case minus_div_mult_eq_mod
      by simp
  next
    case False
    have "fold (\<lambda>j slots. slots) js slots = slots" for js :: "nat list" and slots :: "'a slots"
      by (induction js) auto
    with False show ?thesis unfolding g padded_program_def program_stores_def Let_def prod.case
      by (simp add: minus_div_mult_eq_mod store_all_def)
  qed
qed

lemma fold_programs:
  "fold (padded_program S indices cache valid heads dim block) grid slots
    = store_all (concat (map (program_stores S indices cache valid heads dim block) grid)) slots"
proof (induction grid arbitrary: slots)
  case (Cons g grid)
  then show ?case by (simp add: program_stores_eq store_all_def)
qed (simp add: store_all_def)
definition live_slot :: "nat \<Rightarrow> nat \<Rightarrow> int list \<Rightarrow> nat \<times> nat \<Rightarrow> bool" where
  "live_slot B S valid bs \<longleftrightarrow> (case bs of (b, s) \<Rightarrow> b < B \<and> s < S \<and> int s < valid ! b)"

definition padded_row :: "nat \<Rightarrow> nat \<Rightarrow> 'v list list list list \<Rightarrow> nat \<Rightarrow> nat \<Rightarrow> 'v list list" where
  "padded_row heads dim cache b s = map (\<lambda>h. map (\<lambda>d. cache ! b ! h ! s ! d) [0..<dim]) [0..<heads]"

lemma cdiv_covers: "0 < n \<Longrightarrow> x < m \<Longrightarrow> x div n < cdiv m n"
proof -
  assume n: "0 < n" "x < m"
  then have "(x + n) div n \<le> (m + n - 1) div n" by (intro div_le_mono) simp
  moreover have "(x + n) div n = x div n + 1" by (rule div_add_self2) (use n in simp)
  ultimately show ?thesis unfolding cdiv_def by linarith
qed

lemma block_nth_eq:
  "block_ok n heads dim A \<Longrightarrow> block_ok n heads dim C \<Longrightarrow> i < n
    \<Longrightarrow> (\<And>h d. h < heads \<Longrightarrow> d < dim \<Longrightarrow> lane A (i, h, d) = lane C (i, h, d)) \<Longrightarrow> A ! i = C ! i"
  by (rule nth_equalityI) (auto simp: block_ok_nth lane_def intro: nth_equalityI)

lemma block_row_eq:
  "block_ok n heads dim A \<Longrightarrow> i < n
    \<Longrightarrow> (\<And>h d. h < heads \<Longrightarrow> d < dim \<Longrightarrow> lane A (i, h, d) = cache ! b ! h ! s ! d)
    \<Longrightarrow> A ! i = padded_row heads dim cache b s"
  by (rule nth_equalityI) (auto simp: block_ok_nth lane_def padded_row_def intro: nth_equalityI)

lemma set_grid_stores:
  assumes "set grid = set (padded_grid B S heads dim)" "0 < dim"
  shows "set (concat (map (program_stores S indices cache valid heads dim BLOCK_HD) grid))
    = {((nat (indices ! b ! s), h, d), cache ! b ! h ! s ! d) | b s h d.
        live_slot B S valid (b, s) \<and> h < heads \<and> d < dim}" (is "?L = ?R")
proof (rule set_eqI)
  fix w
  have pos: "0 < BLOCK_HD" by (simp add: BLOCK_HD_def)
  show "w \<in> ?L \<longleftrightarrow> w \<in> ?R"
  proof
    assume "w \<in> ?L"
    then obtain row blk where grid: "(row, blk) \<in> set grid"
      and ps: "w \<in> set (program_stores S indices cache valid heads dim BLOCK_HD (row, blk))" by auto
    have rB: "row < B * S" using grid assms(1) by (simp add: padded_grid_def)
    obtain j where g: "row < B * S" "j < BLOCK_HD"
      and l: "int (row mod S) < valid ! (row div S)" "blk * BLOCK_HD + j < heads * dim"
      and w: "w = ((nat (indices ! (row div S) ! (row mod S)), (blk * BLOCK_HD + j) div dim, (blk * BLOCK_HD + j) mod dim),
        cache ! (row div S) ! ((blk * BLOCK_HD + j) div dim) ! (row mod S) ! ((blk * BLOCK_HD + j) mod dim))"
      using ps rB unfolding program_stores_def Let_def prod.case by (auto simp del: image_add_atLeastLessThan image_add_atLeastLessThan')
    have S: "0 < S" using g(1) by (cases S) auto
    have "row div S < B" "row mod S < S" using g(1) S by (simp_all add: less_mult_imp_div_less)
    moreover have "(blk * BLOCK_HD + j) div dim < heads" using l(2) by (simp add: less_mult_imp_div_less)
    ultimately show "w \<in> ?R" using l(1) w assms(2) by (force simp: live_slot_def)
  next
    assume "w \<in> ?R"
    then obtain b s h d where w: "w = ((nat (indices ! b ! s), h, d), cache ! b ! h ! s ! d)"
      and l: "b < B" "s < S" "int s < valid ! b" "h < heads" "d < dim"
      by (auto simp: live_slot_def)
    define row hd where "row = b * S + s" and "hd = h * dim + d"
    have rd: "row div S = b" "row mod S = s" "hd div dim = h" "hd mod dim = d"
      using l by (simp_all add: row_def hd_def)
    have "Suc b * S \<le> B * S" "Suc h * dim \<le> heads * dim" using l by (simp_all only: mult_le_mono1 Suc_leI)
    then have "row < B * S" and hd: "hd < heads * dim" using l by (simp_all add: row_def hd_def)
    then have "(row, hd div BLOCK_HD) \<in> set grid"
      using assms(1) cdiv_covers[OF pos hd] by (simp add: padded_grid_def)
    moreover have "w \<in> set (program_stores S indices cache valid heads dim BLOCK_HD (row, hd div BLOCK_HD))"
    proof -
      have "hd \<in> (\<lambda>j. hd div BLOCK_HD * BLOCK_HD + j) ` {0..<BLOCK_HD}"
        by (rule image_eqI[of _ _ "hd mod BLOCK_HD"]) (use pos in simp_all)
      then show ?thesis using l hd rd by (auto simp: program_stores_def Let_def w)
    qed
    ultimately show "w \<in> ?L" by auto
  qed
qed

lemma padded_kernel_spec:
  fixes cache :: "'v list list list list"
  assumes slots: "block_ok n heads dim slots"
    and grid: "set grid = set (padded_grid B S heads dim)"
    and range0: "\<forall>b s. live_slot B S valid (b, s) \<longrightarrow> 0 \<le> indices ! b ! s \<and> indices ! b ! s < int n"
    and inj0: "\<forall>b s b' s'. live_slot B S valid (b, s) \<longrightarrow> live_slot B S valid (b', s')
      \<longrightarrow> indices ! b ! s = indices ! b' ! s' \<longrightarrow> b = b' \<and> s = s'"
  defines "out \<equiv> fold (padded_program S indices cache valid heads dim BLOCK_HD) grid slots"
  shows "block_ok n heads dim out"
    and "\<forall>b s. live_slot B S valid (b, s) \<longrightarrow> out ! nat (indices ! b ! s) = padded_row heads dim cache b s"
    and "\<forall>i<n. (\<forall>b s. live_slot B S valid (b, s) \<longrightarrow> indices ! b ! s \<noteq> int i) \<longrightarrow> out ! i = slots ! i"
proof -
  note range = range0[rule_format] and inj = inj0[rule_format]
  define ws where "ws = concat (map (program_stores S indices cache valid heads dim BLOCK_HD) grid)"
  have out: "out = store_all ws slots" by (simp add: out_def ws_def fold_programs)
  have set: "(a, x) \<in> set ws \<longleftrightarrow> (\<exists>b s h d. a = (nat (indices ! b ! s), h, d) \<and> x = cache ! b ! h ! s ! d
      \<and> live_slot B S valid (b, s) \<and> h < heads \<and> d < dim)" for a x
  proof (cases "0 < dim")
    case True
    show ?thesis unfolding ws_def set_grid_stores[OF grid True] by blast
  next
    case False
    have "program_stores S indices cache valid heads dim BLOCK_HD g = []" for g
      using False by (cases g) (simp add: program_stores_def Let_def)
    then have "ws = []" by (simp add: ws_def)
    with False show ?thesis by simp
  qed
  have ok: "\<forall>w\<in>set ws. lane_ok n heads dim (fst w)"
  proof
    fix w assume "w \<in> set ws"
    then obtain a x where w: "w = (a, x)" "(a, x) \<in> set ws" by (metis surj_pair)
    then obtain b s h d where "a = (nat (indices ! b ! s), h, d)" "live_slot B S valid (b, s)" "h < heads" "d < dim"
      using set by blast
    then show "lane_ok n heads dim (fst w)" using range[of b s] w(1) by (auto simp: lane_ok_def)
  qed
  have ex: "\<forall>w\<in>set ws. fst w = a \<longrightarrow> snd w = (case a of (i, h, d) \<Rightarrow> SOME x. (a, x) \<in> set ws)" for a
  proof (intro ballI impI)
    fix w assume w: "w \<in> set ws" "fst w = a"
    obtain x where wx: "w = (a, x)" using w(2) by (cases w) auto
    have mems: "(a, x) \<in> set ws" using w(1) wx by simp
    have uniq: "y = x" if y: "(a, y) \<in> set ws" for y
    proof -
      obtain b s h d where 1: "a = (nat (indices ! b ! s), h, d)" "x = cache ! b ! h ! s ! d" "live_slot B S valid (b, s)"
        using mems[unfolded set] by blast
      obtain b' s' h' d' where 2: "a = (nat (indices ! b' ! s'), h', d')" "y = cache ! b' ! h' ! s' ! d'" "live_slot B S valid (b', s')"
        using y[unfolded set] by blast
      have "nat (indices ! b ! s) = nat (indices ! b' ! s')" "h = h'" "d = d'"
        using trans[OF sym[OF 1(1)] 2(1)] by simp_all
      moreover from this(1) have "indices ! b ! s = indices ! b' ! s'"
        using range[OF 1(3)] range[OF 2(3)] by linarith
      ultimately have hd': "h = h'" "d = d'" and eq: "indices ! b ! s = indices ! b' ! s'" by simp_all
      from inj[OF 1(3) 2(3) eq] hd' show ?thesis using 1(2) 2(2) by simp
    qed
    obtain i h d where a: "a = (i, h, d)" by (cases a)
    have "(SOME y. (a, y) \<in> set ws) = x" by (rule some_equality, rule mems, rule uniq)
    then show "snd w = (case a of (i, h, d) \<Rightarrow> SOME x. (a, x) \<in> set ws)" unfolding wx a by simp
  qed
  show blk: "block_ok n heads dim out"
  proof -
    have "block_ok n heads dim (store_all vs s)" if "\<forall>w\<in>set vs. lane_ok n heads dim (fst w)" "block_ok n heads dim s"
      for vs and s :: "'v slots"
      using that by (induction vs arbitrary: s) (auto simp: store_all_def block_ok_store)
    then show ?thesis using ok slots by (simp add: out)
  qed
  show "\<forall>b s. live_slot B S valid (b, s) \<longrightarrow> out ! nat (indices ! b ! s) = padded_row heads dim cache b s"
  proof (intro allI impI, rule block_row_eq[OF blk])
    fix b s assume l: "live_slot B S valid (b, s)"
    show "nat (indices ! b ! s) < n" using range[OF l] by linarith
  next
    fix b s h d assume l: "live_slot B S valid (b, s)" assume hd: "h < heads" "d < dim"
    let ?a = "(nat (indices ! b ! s), h, d)"
    have in_ws: "(?a, cache ! b ! h ! s ! d) \<in> set ws" using l hd set by blast
    then have "?a \<in> fst ` set ws" by force
    moreover have "lane_ok n heads dim ?a" using ok in_ws by force
    moreover have "(SOME x. (?a, x) \<in> set ws) = cache ! b ! h ! s ! d" using ex[of ?a] in_ws by force
    ultimately show "lane out ?a = cache ! b ! h ! s ! d"
      using lane_store_all[OF slots ok _ ex[of ?a]] by (simp add: out)
  qed
  show "\<forall>i<n. (\<forall>b s. live_slot B S valid (b, s) \<longrightarrow> indices ! b ! s \<noteq> int i) \<longrightarrow> out ! i = slots ! i"
  proof (intro allI impI, rule block_nth_eq[OF blk slots])
    fix i assume i: "i < n" "\<forall>b s. live_slot B S valid (b, s) \<longrightarrow> indices ! b ! s \<noteq> int i"
    show "i < n" by (rule i(1))
    fix h d assume hd: "h < heads" "d < dim"
    have "(i, h, d) \<notin> fst ` set ws"
    proof
      assume "(i, h, d) \<in> fst ` set ws"
      then obtain x where "((i, h, d), x) \<in> set ws" by force
      then obtain b s where bs: "i = nat (indices ! b ! s)" "live_slot B S valid (b, s)" using set by blast
      with i(2) range[OF bs(2)] show False by auto
    qed
    moreover have "lane_ok n heads dim (i, h, d)" using i hd by (simp add: lane_ok_def)
    ultimately show "lane out (i, h, d) = lane slots (i, h, d)"
      using lane_store_all[OF slots ok _ ex[of "(i, h, d)"]] by (simp add: out)
  qed
qed
section \<open>The writers keep the pool and touch only their slots\<close>

text \<open>\<open>layer_data p l s\<close>: the key and value of slot \<open>s\<close> in layer \<open>l\<close>.\<close>

definition layer_data :: "'v kv_pool \<Rightarrow> nat \<Rightarrow> int \<Rightarrow> 'v list list \<times> 'v list list" where
  "layer_data p l s = (kp_k p ! l ! nat s, kp_v p ! l ! nat s)"

lemma slot_data_layers:
  "pool_ok p owned \<Longrightarrow> slot_data p s = map (\<lambda>l. layer_data p l s) [0..<kp_layers p]"
  by (rule nth_equalityI) (auto simp: pool_ok_def buffers_ok_def slot_data_def layer_data_def)

lemma slots_ok_block: "slots_ok n heads dim slots \<Longrightarrow> block_ok n heads dim slots"
  by (simp add: slots_ok_def block_ok_def)

lemma put_slots_ok:
  assumes "length rs = length is" "set is \<subseteq> {0..<int (length slots)}" "distinct is"
  shows "\<exists>out. put_slots is rs slots = Inr out \<and> length out = length slots
    \<and> (\<forall>k<length is. out ! nat (is ! k) = rs ! k)
    \<and> (\<forall>i<length slots. int i \<notin> set is \<longrightarrow> out ! i = slots ! i)"
  using assms
proof (induction "is" rs slots rule: put_slots.induct)
  case (1 i "is" r rs slots)
  let ?s = "slots[nat (i mod int (length slots)) := r]"
  have i: "0 \<le> i" "i < int (length slots)" and m: "i mod int (length slots) = i" using "1.prems" by auto
  have "i \<in> {- int (length slots)..<int (length slots)}" using i by simp
  from "1.IH"[OF this] "1.prems" obtain out where out: "put_slots is rs ?s = Inr out" "length out = length slots"
      "\<forall>k<length is. out ! nat (is ! k) = rs ! k" "\<forall>j<length slots. int j \<notin> set is \<longrightarrow> out ! j = ?s ! j"
    by auto
  have "out ! nat i = r" using out(4)[rule_format, of "nat i"] "1.prems"(3) i m by simp
  then have "\<forall>k<Suc (length is). out ! nat ((i # is) ! k) = (r # rs) ! k"
    using out(3) by (auto simp: less_Suc_eq_0_disj)
  moreover have "\<forall>j<length slots. int j \<notin> set (i # is) \<longrightarrow> out ! j = slots ! j"
    using out(4) m i(1) by (metis int_nat_eq list.set_intros(1) list.set_intros(2) nth_list_update_neq)
  ultimately show ?case using out(1,2) i by simp
qed auto

lemma res_map_id: "(\<And>x. x \<in> set xs \<Longrightarrow> f x = Inr x) \<Longrightarrow> res_map f xs = Inr xs"
  by (induction xs) auto

lemma expand_rows_exact:
  assumes "length rows = n" "\<forall>r\<in>set rows. length r = heads \<and> (\<forall>h\<in>set r. length h = dim)"
  shows "expand_rows n heads dim rows = Inr rows"
  using assms by (auto simp: expand_rows_def expand_dim_def intro!: res_map_id)

lemma slots_ok_write:
  assumes "slots_ok n heads dim slots" "block_ok n heads dim out" "0 < n" "out ! 0 = slots ! 0"
  shows "slots_ok n heads dim out"
  using assms by (simp add: slots_ok_def block_ok_def)

text \<open>A layer may be replaced by slots of the same shape that keep the sentinel.\<close>

lemma pool_ok_layer:
  assumes p: "pool_ok p owned" and l: "layer < kp_layers p"
    and k: "block_ok (nat (kp_size p)) (kp_heads p) (kp_dim p) k" "k ! 0 = kp_k p ! layer ! 0"
    and v: "block_ok (nat (kp_size p)) (kp_heads p) (kp_dim p) v" "v ! 0 = kp_v p ! layer ! 0"
  shows "pool_ok (p\<lparr>kp_k := (kp_k p)[layer := k], kp_v := (kp_v p)[layer := v]\<rparr>) owned"
proof -
  have b: "buffers_ok p" and n: "0 < nat (kp_size p)" using p by (simp_all add: pool_ok_def)
  have "slots_ok (nat (kp_size p)) (kp_heads p) (kp_dim p) (kp_k p ! layer)"
    "slots_ok (nat (kp_size p)) (kp_heads p) (kp_dim p) (kp_v p ! layer)"
    using b l by (simp_all add: buffers_ok_def)
  from slots_ok_write[OF this(1) k(1) n k(2)] slots_ok_write[OF this(2) v(1) n v(2)]
  have "buffers_ok (p\<lparr>kp_k := (kp_k p)[layer := k], kp_v := (kp_v p)[layer := v]\<rparr>)"
    using b by (auto simp: buffers_ok_def dest!: set_update_subset_insert[THEN subsetD])
  then show ?thesis using p by (simp add: pool_ok_def)
qed

lemma pool_layer_block:
  assumes "pool_ok p owned" "layer < kp_layers p"
  shows "block_ok (nat (kp_size p)) (kp_heads p) (kp_dim p) (kp_k p ! layer)"
    "block_ok (nat (kp_size p)) (kp_heads p) (kp_dim p) (kp_v p ! layer)"
    "layer < length (kp_k p)" "layer < length (kp_v p)"
  using assms by (auto simp: pool_ok_def buffers_ok_def intro: slots_ok_block)

lemma tensor_shape_exact:
  fixes a b :: "'v slots"
  assumes "block_ok n heads dim a" "block_ok n heads dim b"
  shows "tensor_shape a = tensor_shape b"
proof -
  have *: "tensor_shape t = (n, replicate n heads, replicate n (replicate heads dim))" if t: "block_ok n heads dim t" for t :: "'v slots"
  proof -
    have "map (map length) t = replicate n (replicate heads dim)"
      by (rule nth_equalityI) (use t block_ok_nth[OF t] in \<open>auto simp: block_ok_def intro!: nth_equalityI\<close>)
    moreover have "map length t = replicate n heads"
      by (rule nth_equalityI) (use t block_ok_nth(1)[OF t] in \<open>auto simp: block_ok_def\<close>)
    ultimately show ?thesis using t by (simp add: tensor_shape_def block_ok_def)
  qed
  show ?thesis using *[OF assms(1)] *[OF assms(2)] by simp
qed

lemma put_layer_ok:
  assumes "layer < length buf" "block_ok (length ids) (kp_heads p) (kp_dim p) rows"
    and slots: "block_ok n (kp_heads p) (kp_dim p) (buf ! layer)"
    and ids: "set ids \<subseteq> {1..<int n}" "distinct ids" and n: "0 < n"
  shows "\<exists>out. put_layer p layer ids rows buf = Inr (buf[layer := out])
    \<and> block_ok n (kp_heads p) (kp_dim p) out \<and> out ! 0 = buf ! layer ! 0
    \<and> (\<forall>k<length ids. out ! nat (ids ! k) = rows ! k)
    \<and> (\<forall>i<n. int i \<notin> set ids \<longrightarrow> out ! i = buf ! layer ! i)"
proof -
  have len: "length (buf ! layer) = n" using slots by (simp add: block_ok_def)
  have e: "expand_rows (length ids) (kp_heads p) (kp_dim p) rows = Inr rows"
    using assms(2) by (intro expand_rows_exact) (auto simp: block_ok_def)
  have "length rows = length ids" using assms(2) by (simp add: block_ok_def)
  moreover have "set ids \<subseteq> {0..<int (length (buf ! layer))}" using ids(1) len by force
  ultimately obtain out where out: "put_slots ids rows (buf ! layer) = Inr out" "length out = n"
      "\<forall>k<length ids. out ! nat (ids ! k) = rows ! k" "\<forall>i<n. int i \<notin> set ids \<longrightarrow> out ! i = buf ! layer ! i"
    using put_slots_ok[of rows ids "buf ! layer"] ids(2) len by auto
  have "\<forall>i<n. length (out ! i) = kp_heads p \<and> (\<forall>h\<in>set (out ! i). length h = kp_dim p)"
  proof (intro allI impI)
    fix i assume i: "i < n"
    show "length (out ! i) = kp_heads p \<and> (\<forall>h\<in>set (out ! i). length h = kp_dim p)"
    proof (cases "int i \<in> set ids")
      case True
      then obtain k where k: "k < length ids" "ids ! k = int i" by (auto simp: in_set_conv_nth)
      have "out ! i = rows ! k" using out(3) k by force
      then show ?thesis using block_ok_row[OF assms(2) k(1)] by simp
    next
      case False
      then show ?thesis using out(4) i block_ok_row[OF slots i] by simp
    qed
  qed
  then have "block_ok n (kp_heads p) (kp_dim p) out"
    unfolding block_ok_def using out(2) by (metis in_set_conv_nth)
  moreover have "int 0 \<notin> set ids" using ids(1) by force
  then have "out ! 0 = buf ! layer ! 0" using out(4) n by blast
  ultimately show ?thesis using out assms(1) e by (auto simp: put_layer_def)
qed

lemma set_kv_ok:
  assumes p: "pool_ok p owned" and l: "layer < kp_layers p"
    and ids: "ids \<noteq> []" "set ids \<subseteq> set owned" "distinct ids"
    and k: "block_ok (length ids) (kp_heads p) (kp_dim p) ck" and v: "block_ok (length ids) (kp_heads p) (kp_dim p) cv"
  shows "\<exists>q. set_kv layer ids ck cv p = Inr q \<and> pool_ok q owned \<and> kp_layers q = kp_layers p
    \<and> kp_heads q = kp_heads p \<and> kp_dim q = kp_dim p \<and> kp_size q = kp_size p
    \<and> (\<forall>i<length ids. layer_data q layer (ids ! i) = (ck ! i, cv ! i))
    \<and> (\<forall>m s. 0 \<le> s \<longrightarrow> s < kp_size p \<longrightarrow> m \<noteq> layer \<or> s \<notin> set ids \<longrightarrow> layer_data q m s = layer_data p m s)"
proof -
  note blk = pool_layer_block[OF p l]
  have sz: "0 < nat (kp_size p)" "int (nat (kp_size p)) = kp_size p" using p by (simp_all add: pool_ok_def)
  have ran: "set ids \<subseteq> {1..<int (nat (kp_size p))}" using pool_ok_owned(2)[OF p] ids(2) sz by auto
  obtain ok where ok: "put_layer p layer ids ck (kp_k p) = Inr ((kp_k p)[layer := ok])"
      "block_ok (nat (kp_size p)) (kp_heads p) (kp_dim p) ok" "ok ! 0 = kp_k p ! layer ! 0"
      "\<forall>i<length ids. ok ! nat (ids ! i) = ck ! i" "\<forall>i<nat (kp_size p). int i \<notin> set ids \<longrightarrow> ok ! i = kp_k p ! layer ! i"
    using put_layer_ok[OF blk(3) k blk(1) ran ids(3) sz(1)] by blast
  obtain ov where ov: "put_layer p layer ids cv (kp_v p) = Inr ((kp_v p)[layer := ov])"
      "block_ok (nat (kp_size p)) (kp_heads p) (kp_dim p) ov" "ov ! 0 = kp_v p ! layer ! 0"
      "\<forall>i<length ids. ov ! nat (ids ! i) = cv ! i" "\<forall>i<nat (kp_size p). int i \<notin> set ids \<longrightarrow> ov ! i = kp_v p ! layer ! i"
    using put_layer_ok[OF blk(4) v blk(2) ran ids(3) sz(1)] by blast
  let ?q = "p\<lparr>kp_k := (kp_k p)[layer := ok], kp_v := (kp_v p)[layer := ov]\<rparr>"
  have "set_kv layer ids ck cv p = Inr ?q"
    using ok(1) ov(1) ids(1) tensor_shape_exact[OF k v] by (simp add: set_kv_def)
  moreover have "pool_ok ?q owned" by (rule pool_ok_layer[OF p l ok(2,3) ov(2,3)])
  moreover have "\<forall>i<length ids. layer_data ?q layer (ids ! i) = (ck ! i, cv ! i)"
    using ok(4) ov(4) blk(3,4) by (simp add: layer_data_def)
  moreover have "layer_data ?q m s = layer_data p m s"
    if "0 \<le> s" "s < kp_size p" "m \<noteq> layer \<or> s \<notin> set ids" for m s
  proof (cases "m = layer")
    case True
    then have "int (nat s) \<notin> set ids" "nat s < nat (kp_size p)" using that by auto
    then show ?thesis using ok(5) ov(5) blk(3,4) True by (simp add: layer_data_def)
  qed (simp add: layer_data_def)
  ultimately show ?thesis by (intro exI[of _ ?q]) simp
qed

lemma set_kv_padded_ok:
  assumes p: "pool_ok p owned" and l: "layer < kp_layers p"
    and shape: "shape = (B, kp_heads p, S, kp_dim p)"
    and ind: "length indices = B" "\<forall>r\<in>set indices. length r = S" and val: "length valid = B" and ne: "0 < B" "0 < S"
    and range: "\<forall>b s. live_slot B S valid (b, s) \<longrightarrow> indices ! b ! s \<in> set owned"
    and inj: "\<forall>b s b' s'. live_slot B S valid (b, s) \<longrightarrow> live_slot B S valid (b', s')
      \<longrightarrow> indices ! b ! s = indices ! b' ! s' \<longrightarrow> b = b' \<and> s = s'"
  shows "\<exists>q. set_kv_padded layer indices shape ck shape cv valid p = Inr q \<and> pool_ok q owned
    \<and> kp_layers q = kp_layers p \<and> kp_heads q = kp_heads p \<and> kp_dim q = kp_dim p \<and> kp_size q = kp_size p
    \<and> (\<forall>b s. live_slot B S valid (b, s) \<longrightarrow> layer_data q layer (indices ! b ! s)
          = (padded_row (kp_heads p) (kp_dim p) ck b s, padded_row (kp_heads p) (kp_dim p) cv b s))
    \<and> (\<forall>m s. 0 \<le> s \<longrightarrow> s < kp_size p
          \<longrightarrow> m \<noteq> layer \<or> (\<forall>b t. live_slot B S valid (b, t) \<longrightarrow> indices ! b ! t \<noteq> s)
          \<longrightarrow> layer_data q m s = layer_data p m s)"
proof -
  note blk = pool_layer_block[OF p l]
  let ?n = "nat (kp_size p)"
  have sz: "0 < ?n" "int ?n = kp_size p" using p by (simp_all add: pool_ok_def)
  have ran1: "\<forall>b s. live_slot B S valid (b, s) \<longrightarrow> 1 \<le> indices ! b ! s \<and> indices ! b ! s < int ?n"
    using range pool_ok_owned(2)[OF p] sz(2) by (metis atLeastLessThan_iff subsetD)
  then have ran: "\<forall>b s. live_slot B S valid (b, s) \<longrightarrow> 0 \<le> indices ! b ! s \<and> indices ! b ! s < int ?n" by force
  let ?run = "\<lambda>cache. fold (padded_program S indices cache valid (kp_heads p) (kp_dim p) BLOCK_HD)
                 (padded_grid B S (kp_heads p) (kp_dim p))"
  note kk = padded_kernel_spec[OF blk(1) refl ran inj, where cache = ck]
  note vv = padded_kernel_spec[OF blk(2) refl ran inj, where cache = cv]
  have no0: "\<forall>b s. live_slot B S valid (b, s) \<longrightarrow> indices ! b ! s \<noteq> int 0" using ran1 by force
  let ?q = "p\<lparr>kp_k := (kp_k p)[layer := ?run ck (kp_k p ! layer)],
              kp_v := (kp_v p)[layer := ?run cv (kp_v p ! layer)]\<rparr>"
  have "concat indices \<noteq> []" using ind ne by (cases indices) auto
  then have "set_kv_padded layer indices shape ck shape cv valid p = Inr ?q"
    using ind val blk(3) unfolding set_kv_padded_def shape Let_def by (simp del: concat_eq_Nil_conv)
  moreover have "pool_ok ?q owned"
    by (rule pool_ok_layer[OF p l kk(1) kk(3)[rule_format, OF sz(1) no0[rule_format]] vv(1) vv(3)[rule_format, OF sz(1) no0[rule_format]]])
  moreover have "\<forall>b s. live_slot B S valid (b, s) \<longrightarrow> layer_data ?q layer (indices ! b ! s)
          = (padded_row (kp_heads p) (kp_dim p) ck b s, padded_row (kp_heads p) (kp_dim p) cv b s)"
    using kk(2) vv(2) blk(3,4) by (simp add: layer_data_def)
  moreover have "layer_data ?q m s = layer_data p m s"
    if s: "0 \<le> s" "s < kp_size p" "m \<noteq> layer \<or> (\<forall>b t. live_slot B S valid (b, t) \<longrightarrow> indices ! b ! t \<noteq> s)" for m s
  proof (cases "m = layer")
    case True
    then have "\<forall>b t. live_slot B S valid (b, t) \<longrightarrow> indices ! b ! t \<noteq> int (nat s)" and "nat s < ?n" using s by auto
    then show ?thesis using kk(3) vv(3) blk(3,4) True by (simp add: layer_data_def)
  qed (simp add: layer_data_def)
  ultimately show ?thesis by (intro exI[of _ ?q]) simp
qed
section \<open>The allocator as an interface\<close>

text \<open>
  What the clients of a slot allocator rely on: an allocation adds fresh slots to the owned ones
  and changes no owned data, a release takes slots away.  \<open>alloc_each\<close> and \<open>release_each\<close> are the
  loops of the clients.
\<close>

fun alloc_each :: "(int \<Rightarrow> 'p \<Rightarrow> (int list \<times> 'p) res) \<Rightarrow> int list \<Rightarrow> 'p \<Rightarrow> (int list list \<times> 'p) res" where
  "alloc_each al [] p = Inr ([], p)"
| "alloc_each al (n # ns) p =
     res_bind (al n p) (\<lambda>(ids, q). res_bind (alloc_each al ns q) (\<lambda>(rest, r). Inr (ids # rest, r)))"

definition release_each :: "(int list \<Rightarrow> 'p \<Rightarrow> 'p) \<Rightarrow> int list list \<Rightarrow> 'p \<Rightarrow> 'p" where
  "release_each rel locs p = fold (\<lambda>loc q. if loc = [] then q else rel loc q) locs p"

locale slot_allocator =
  fixes al :: "int \<Rightarrow> 'p \<Rightarrow> (int list \<times> 'p) res"
    and rel :: "int list \<Rightarrow> 'p \<Rightarrow> 'p"
    and ok :: "'p \<Rightarrow> int list \<Rightarrow> bool"
    and contents :: "'p \<Rightarrow> int \<Rightarrow> 'd"
  assumes alloc_ok: "ok p owned \<Longrightarrow> al n p = Inr (ids, q) \<Longrightarrow> ok q (owned @ ids)"
    and alloc_length: "ok p owned \<Longrightarrow> al n p = Inr (ids, q) \<Longrightarrow> length ids = nat n"
    and alloc_keeps: "ok p owned \<Longrightarrow> al n p = Inr (ids, q) \<Longrightarrow> s \<in> insert 0 (set owned) \<Longrightarrow> contents q s = contents p s"
    and release_ok: "ok p owned \<Longrightarrow> mset owned = mset (ids @ rest) \<Longrightarrow> ok (rel ids p) rest"
    and release_keeps: "contents (rel ids p) s = contents p s"
    and owned_distinct: "ok p owned \<Longrightarrow> distinct owned"
    and owned_mset: "ok p owned \<Longrightarrow> mset owned' = mset owned \<Longrightarrow> ok p owned'"
begin

lemma alloc_fresh: "ok p owned \<Longrightarrow> al n p = Inr (ids, q) \<Longrightarrow> distinct ids \<and> set ids \<inter> set owned = {}"
  using owned_distinct[OF alloc_ok] by (metis Int_commute distinct_append)

lemma alloc_each_ok:
  assumes "ok p owned" "alloc_each al ns p = Inr (locs, q)"
  shows "ok q (owned @ concat locs) \<and> map length locs = map nat ns
    \<and> (\<forall>s\<in>insert 0 (set owned). contents q s = contents p s)"
  using assms
proof (induction ns arbitrary: p owned locs q)
  case (Cons n ns)
  obtain ids r rest where s: "al n p = Inr (ids, r)" "alloc_each al ns r = Inr (rest, q)" "locs = ids # rest"
    using Cons.prems(2) by auto
  note ok1 = alloc_ok[OF Cons.prems(1) s(1)]
  from Cons.IH[OF ok1 s(2)] alloc_length[OF Cons.prems(1) s(1)] alloc_keeps[OF Cons.prems(1) s(1)]
  show ?case by (auto simp: s(3))
qed auto

lemma release_each_ok:
  "ok p owned \<Longrightarrow> mset owned = mset (concat locs @ rest)
    \<Longrightarrow> ok (release_each rel locs p) rest \<and> contents (release_each rel locs p) s = contents p s"
proof (induction locs arbitrary: p owned)
  case Nil
  then show ?case using owned_mset[of p owned rest] by (simp add: release_each_def)
next
  case (Cons loc locs)
  show ?case
  proof (cases "loc = []")
    case True
    then show ?thesis using Cons.IH[OF Cons.prems(1)] Cons.prems(2) by (simp add: release_each_def)
  next
    case False
    have "ok (rel loc p) (concat locs @ rest)"
      by (rule release_ok[OF Cons.prems(1)]) (use Cons.prems(2) in simp)
    from Cons.IH[OF this refl] False show ?thesis by (simp add: release_each_def release_keeps)
  qed
qed

end

interpretation kvp: slot_allocator kv_alloc kv_free "pool_ok :: 'v::zero kv_pool \<Rightarrow> int list \<Rightarrow> bool" slot_data
proof
  fix p q :: "'v kv_pool" and owned ids rest n s
  show "pool_ok p owned \<Longrightarrow> kv_alloc n p = Inr (ids, q) \<Longrightarrow> pool_ok q (owned @ ids)"
    by (rule kv_alloc_ok(1))
  show "pool_ok p owned \<Longrightarrow> kv_alloc n p = Inr (ids, q) \<Longrightarrow> length ids = nat n"
    by (rule kv_alloc_ok(2))
  show "slot_data q s = slot_data p s"
    if "pool_ok p owned" "kv_alloc n p = Inr (ids, q)" "s \<in> insert 0 (set owned)"
  proof -
    have "s < kp_size p" using that(3) pool_ok_owned(2)[OF that(1)] that(1) by (auto simp: pool_ok_def)
    from kv_alloc_ok(4)[OF that(1,2) this] show ?thesis .
  qed
  show "pool_ok p owned \<Longrightarrow> mset owned = mset (ids @ rest) \<Longrightarrow> pool_ok (kv_free ids p) rest"
    by (rule kv_free_ok)
  show "slot_data (kv_free ids p) s = slot_data p s" by simp
  show "pool_ok p owned \<Longrightarrow> distinct owned" by (rule pool_ok_owned(1))
  show "pool_ok p owned \<Longrightarrow> mset rest = mset owned \<Longrightarrow> pool_ok p rest" by (rule pool_ok_mset)
qed

section \<open>Properties\<close>

text \<open>
  C21.  Allocation, completely: on a pool whose free and owned slots partition the usable ones, it
  fails exactly when the request is positive, exceeds the free slots, and either a graph capture
  is active or the chunked growth would exceed the maximum; the only error is \<open>RuntimeError\<close>.
  Otherwise it returns the requested number of slots, ascending, distinct, none of them the
  sentinel and none of them already owned; the contents of every owned slot and of the sentinel
  are unchanged, and the pool invariant holds with the new slots owned.
\<close>

theorem kv_alloc_outcome:
  assumes "pool_ok p owned"
  shows "case kv_alloc n p of
      Inl e \<Rightarrow> e = RuntimeError \<and> 0 < n \<and> kp_size p - 1 - kp_n_alloc p < n
        \<and> (kp_capture p \<or> kp_max p < kp_size p + max n GROW_CHUNK)
    | Inr (ids, q) \<Rightarrow>
        \<not> (0 < n \<and> kp_size p - 1 - kp_n_alloc p < n \<and> (kp_capture p \<or> kp_max p < kp_size p + max n GROW_CHUNK))
        \<and> length ids = nat n \<and> sorted ids \<and> distinct ids \<and> set ids \<inter> set owned = {} \<and> 0 \<notin> set ids
        \<and> pool_ok q (owned @ ids) \<and> (\<forall>s\<in>insert 0 (set owned). slot_data q s = slot_data p s)"
proof (cases "kv_alloc n p")
  case (Inl e)
  then show ?thesis using kv_alloc_error_iff[OF assms, of n e] by simp
next
  case (Inr r)
  obtain ids q where r: "r = (ids, q)" by (cases r)
  note al = Inr[unfolded r]
  have "0 \<notin> set ids" using pool_ok_owned(3)[OF kv_alloc_ok(1)[OF assms al]] by simp
  then show ?thesis
    using kv_alloc_error_iff[OF assms, of n RuntimeError] kvp.alloc_fresh[OF assms al]
      kv_alloc_ok(1,2,3)[OF assms al] kvp.alloc_keeps[OF assms al] by (simp add: al)
qed

definition witness_pool :: "int kv_pool" where
  "witness_pool = \<lparr>kp_layers = 1, kp_heads = 1, kp_dim = 2, kp_max = 10, kp_size = 6,
     kp_k = [[[[0, 0]], [[1, 2]], [[3, 4]], [[5, 6]], [[7, 8]], [[9, 10]]]],
     kp_v = [[[[0, 0]], [[2, 1]], [[4, 3]], [[6, 5]], [[8, 7]], [[10, 9]]]],
     kp_free = [4, 1, 5], kp_n_alloc = 2, kp_high_water = 4, kp_capture = False, kp_version = 0\<rparr>"

lemma witness_pool_ok: "pool_ok witness_pool [3, 2]"
  by (simp add: pool_ok_def witness_pool_def buffers_ok_def slots_ok_def upto_rec1 numeral_2_eq_2)

theorem kv_alloc_outcome_witness:
  "kv_alloc 2 witness_pool = Inr ([1, 4], witness_pool\<lparr>kp_free := [5], kp_n_alloc := 4\<rparr>)
   \<and> pool_ok (witness_pool\<lparr>kp_free := [5], kp_n_alloc := 4\<rparr>) [3, 2, 1, 4]
   \<and> kv_alloc 4 witness_pool = Inl RuntimeError"
proof -
  have 1: "kv_alloc 2 witness_pool = Inr ([1, 4], witness_pool\<lparr>kp_free := [5], kp_n_alloc := 4\<rparr>)"
    by (simp add: kv_alloc_def witness_pool_def numeral_2_eq_2)
  have 2: "kv_alloc 4 witness_pool = Inl RuntimeError"
    by (simp add: kv_alloc_def witness_pool_def kv_grow_def GROW_CHUNK_def)
  show ?thesis using kv_alloc_outcome[OF witness_pool_ok, of 2] 1 2 by simp
qed

text \<open>
  The free list is a queue: slots that have just been released are the last to be handed
  out.  As long as the slots that were free before the release suffice, the next allocation takes
  the front of that queue and none of the released slots.
\<close>

theorem kv_pool_is_fifo:
  assumes "pool_ok p owned" "set ids \<subseteq> set owned" "0 < n" "n \<le> int (length (kp_free p))"
  shows "\<exists>q. kv_alloc n (kv_free ids p) = Inr (sort (take (nat n) (kp_free p)), q)
    \<and> set (sort (take (nat n) (kp_free p))) \<inter> set ids = {}"
proof -
  have 0: "filter (\<lambda>i. i \<noteq> 0) ids = ids" using pool_ok_owned(3)[OF assms(1)] assms(2) by (auto simp: filter_id_conv)
  have f: "kp_free (kv_free ids p) = kp_free p @ ids" by (simp add: kv_free_def 0)
  have n: "nat n \<le> length (kp_free p)" using assms(4) by linarith
  have "set (take (nat n) (kp_free p)) \<inter> set ids = {}"
    using pool_ok_owned(4)[OF assms(1)] assms(2) set_take_subset[of "nat n" "kp_free p"] by blast
  then show ?thesis using assms(3,4) n by (simp add: kv_alloc_def f pop_many_enough Let_def)
qed

theorem kv_pool_is_fifo_witness:
  "(\<exists>q. kv_alloc 2 (kv_free [3] witness_pool) = Inr ([1, 4], q)) \<and> set [1, 4] \<inter> set [3 :: int] = {}"
proof -
  have "\<exists>q. kv_alloc 2 (kv_free [3] witness_pool) = Inr (sort (take (nat 2) (kp_free witness_pool)), q)
    \<and> set (sort (take (nat 2) (kp_free witness_pool))) \<inter> set [3] = {}"
    by (rule kv_pool_is_fifo[OF witness_pool_ok]) (simp_all add: witness_pool_def)
  then show ?thesis by (simp add: witness_pool_def numeral_2_eq_2)
qed

text \<open>
  C22.  The padded writer is correct under every schedule of its kernel programs: when the live
  entries name distinct owned slots, any order of the grid (even with programs repeated) gives
  the same buffer, the writer succeeds and keeps the pool invariant, every live slot of the layer
  holds exactly its cache entry, and every other slot of every layer -- the zero sentinel and the
  slots of the padding included -- is unchanged.
\<close>

theorem set_kv_padded_correct:
  assumes "pool_ok p owned" "layer < kp_layers p" "shape = (B, kp_heads p, S, kp_dim p)"
    and "length indices = B" "\<forall>r\<in>set indices. length r = S" "length valid = B" "0 < B" "0 < S"
    and "\<forall>b s. live_slot B S valid (b, s) \<longrightarrow> indices ! b ! s \<in> set owned"
    and "\<forall>b s b' s'. live_slot B S valid (b, s) \<longrightarrow> live_slot B S valid (b', s')
      \<longrightarrow> indices ! b ! s = indices ! b' ! s' \<longrightarrow> b = b' \<and> s = s'"
    and "set schedule = set (padded_grid B S (kp_heads p) (kp_dim p))"
  shows "\<exists>q. set_kv_padded layer indices shape ck shape cv valid p = Inr q \<and> pool_ok q owned
    \<and> kp_k q ! layer = fold (padded_program S indices ck valid (kp_heads p) (kp_dim p) BLOCK_HD) schedule (kp_k p ! layer)
    \<and> (\<forall>b s. live_slot B S valid (b, s) \<longrightarrow> layer_data q layer (indices ! b ! s)
          = (padded_row (kp_heads p) (kp_dim p) ck b s, padded_row (kp_heads p) (kp_dim p) cv b s))
    \<and> (\<forall>m s. 0 \<le> s \<longrightarrow> s < kp_size p
          \<longrightarrow> m \<noteq> layer \<or> (\<forall>b t. live_slot B S valid (b, t) \<longrightarrow> indices ! b ! t \<noteq> s)
          \<longrightarrow> layer_data q m s = layer_data p m s)"
proof -
  note blk = pool_layer_block[OF assms(1,2)]
  let ?n = "nat (kp_size p)"
  let ?run = "fold (padded_program S indices ck valid (kp_heads p) (kp_dim p) BLOCK_HD)"
  have "int ?n = kp_size p" using assms(1) by (simp add: pool_ok_def)
  then have ran: "\<forall>b s. live_slot B S valid (b, s) \<longrightarrow> 0 \<le> indices ! b ! s \<and> indices ! b ! s < int ?n"
    using assms(9) pool_ok_owned(2)[OF assms(1)] by force
  note any = padded_kernel_spec[OF blk(1) assms(11) ran assms(10), where cache = ck]
    and fixed = padded_kernel_spec[OF blk(1) refl ran assms(10), where cache = ck]
  have same: "?run schedule (kp_k p ! layer) = ?run (padded_grid B S (kp_heads p) (kp_dim p)) (kp_k p ! layer)"
  proof (rule nth_equalityI)
    fix i assume "i < length (?run schedule (kp_k p ! layer))"
    then have i: "i < ?n" using any(1) by (simp add: block_ok_def)
    show "?run schedule (kp_k p ! layer) ! i = ?run (padded_grid B S (kp_heads p) (kp_dim p)) (kp_k p ! layer) ! i"
    proof (cases "\<exists>b s. live_slot B S valid (b, s) \<and> indices ! b ! s = int i")
      case True
      then obtain b s where bs: "live_slot B S valid (b, s)" "indices ! b ! s = int i" by blast
      show ?thesis using any(2)[rule_format, OF bs(1)] fixed(2)[rule_format, OF bs(1)] bs(2) by simp
    next
      case False
      then have "\<forall>b s. live_slot B S valid (b, s) \<longrightarrow> indices ! b ! s \<noteq> int i" by blast
      then show ?thesis using any(3)[rule_format, OF i] fixed(3)[rule_format, OF i] by presburger
    qed
  qed (use any(1) fixed(1) in \<open>simp add: block_ok_def\<close>)
  obtain q where q: "set_kv_padded layer indices shape ck shape cv valid p = Inr q" "pool_ok q owned"
      "\<forall>b s. live_slot B S valid (b, s) \<longrightarrow> layer_data q layer (indices ! b ! s)
          = (padded_row (kp_heads p) (kp_dim p) ck b s, padded_row (kp_heads p) (kp_dim p) cv b s)"
      "\<forall>m s. 0 \<le> s \<longrightarrow> s < kp_size p
          \<longrightarrow> m \<noteq> layer \<or> (\<forall>b t. live_slot B S valid (b, t) \<longrightarrow> indices ! b ! t \<noteq> s)
          \<longrightarrow> layer_data q m s = layer_data p m s"
    using set_kv_padded_ok[OF assms(1-10)] by blast
  have "concat indices \<noteq> []" using assms(4-8) by (cases indices) auto
  then have "kp_k q ! layer = ?run (padded_grid B S (kp_heads p) (kp_dim p)) (kp_k p ! layer)"
    using q(1) assms(4-6) blk(3) unfolding set_kv_padded_def assms(3) Let_def
    by (auto simp del: concat_eq_Nil_conv)
  then show ?thesis using q same by auto
qed

theorem set_kv_padded_correct_witness:
  "\<exists>q. set_kv_padded 0 [[2, 3]] (1, 1, 2, 2) [[[[11, 12], [13, 14]]]] (1, 1, 2, 2) [[[[21, 22], [23, 24]]]] [1] witness_pool
     = Inr q \<and> layer_data q 0 2 = ([[11, 12]], [[21, 22]]) \<and> layer_data q 0 3 = ([[5, 6]], [[6, 5]])
     \<and> layer_data q 0 0 = ([[0, 0]], [[0, 0]])"
proof -
  have live: "live_slot 1 2 [1] (b, s) \<longleftrightarrow> b = 0 \<and> s = 0" for b s
    by (cases "b = 0") (auto simp: live_slot_def)
  have w: "kp_layers witness_pool = 1" "kp_heads witness_pool = 1" "kp_dim witness_pool = 2" "kp_size witness_pool = 6"
    by (simp_all add: witness_pool_def)
  have u: "[0..<2] = [0, 1::nat]" by (simp add: upt_rec numeral_2_eq_2)
  obtain q where q: "set_kv_padded 0 [[2, 3]] (1, 1, 2, 2) [[[[11, 12], [13, 14]]]] (1, 1, 2, 2) [[[[21, 22], [23, 24]]]] [1] witness_pool
      = Inr q" "\<forall>b s. live_slot 1 2 [1] (b, s) \<longrightarrow> layer_data q 0 ([[2, 3]] ! b ! s)
          = (padded_row 1 2 [[[[11, 12], [13, 14]]]] b s, padded_row 1 2 [[[[21, 22], [23, 24]]]] b s)"
      "\<forall>m s. 0 \<le> s \<longrightarrow> s < 6 \<longrightarrow> m \<noteq> 0 \<or> (\<forall>b t. live_slot 1 2 [1] (b, t) \<longrightarrow> [[2, 3]] ! b ! t \<noteq> s)
          \<longrightarrow> layer_data q m s = layer_data witness_pool m s"
  proof -
    have pre: "0 < kp_layers witness_pool" "(1, 1, 2, 2) = (1::nat, kp_heads witness_pool, 2::nat, kp_dim witness_pool)"
      "length [[2, 3 :: int]] = 1" "\<forall>r\<in>set [[2, 3 :: int]]. length r = 2" "length [1 :: int] = 1"
      "0 < (1 :: nat)" "0 < (2 :: nat)"
      "\<forall>b s. live_slot 1 2 [1] (b, s) \<longrightarrow> [[2, 3]] ! b ! s \<in> set [3, 2 :: int]"
      "\<forall>b s b' s'. live_slot 1 2 [1] (b, s) \<longrightarrow> live_slot 1 2 [1] (b', s')
        \<longrightarrow> [[2, 3 :: int]] ! b ! s = [[2, 3]] ! b' ! s' \<longrightarrow> b = b' \<and> s = s'"
      using live w by simp_all
    from set_kv_padded_correct[OF witness_pool_ok pre refl, where ck = "[[[[11, 12], [13, 14]]]]"
        and cv = "[[[[21, 22], [23, 24]]]]", unfolded w]
    show thesis by (elim exE conjE) (rule that, assumption+)
  qed
  have "layer_data q 0 2 = ([[11, 12]], [[21, 22]])" using q(2) live u by (simp add: padded_row_def)
  moreover have "layer_data q 0 3 = layer_data witness_pool 0 3" "layer_data q 0 0 = layer_data witness_pool 0 0"
    using q(3) live by simp_all
  ultimately show ?thesis using q(1) by (simp add: layer_data_def witness_pool_def)
qed

end
