(* ===== verification/Refresh_Plan.thy ===== *)
theory Refresh_Plan
  imports Prelude
begin

text \<open>
  The refresh plan of the paged worker (\<open>sglang/srt/speculative/specblock_refresh_tensor_plan.py\<close>):
  the ragged accepted chains of a batch are packed into rows of fixed capacity, with the token
  stream shifted by one, the position ids of the draft blocks, the slot counts, and optionally
  the appended cross-slot table.  There are two routes, tensor operations and two Triton kernels;
  both are modelled and shown equal.  Lane values of the kernels are given per output lane, since
  every lane of an output buffer is stored by exactly one program.
\<close>

section \<open>The plan\<close>

record 'h refresh_plan =
  rp_hidden :: "'h list list"
  rp_tokens :: "int list list"
  rp_pos_ids :: "int list list"
  rp_n_per_req :: "int list"
  rp_chain_mask :: "bool list list"
  rp_accept_overflow :: "bool list"
  rp_start_positions :: "int list"
  rp_cross_loc :: "int list list option"
  rp_cross_counts :: "int list"
  rp_new_slots :: "int list"
  rp_cross_overflow :: "bool list option"

definition chain_offsets :: "int list \<Rightarrow> int list" where
  "chain_offsets counts = map2 (-) (cumsum_from 0 counts) counts"

text \<open>\<open>_pack_flat_chains\<close>: row \<open>b\<close>, column \<open>c\<close> is \<open>flat[min(offset b + c, len - 1)]\<close>, zero when masked.\<close>

definition clamp_max :: "int \<Rightarrow> int \<Rightarrow> int" where
  "clamp_max x m = min x m"

definition pack_flat_chains :: "'a \<Rightarrow> 'a list \<Rightarrow> int list \<Rightarrow> nat \<Rightarrow> 'a list list \<times> bool list list \<times> int list" where
  "pack_flat_chains zero flat counts capacity =
     (let offsets = chain_offsets counts;
          valid = map (\<lambda>n. map (\<lambda>c. int c < n) [0..<capacity]) counts;
          packed = map2 (\<lambda>off row. map2 (\<lambda>c live. if live
                     then flat ! nat (clamp_max (off + int c) (int (length flat) - 1)) else zero) [0..<capacity] row)
                   offsets valid
      in (packed, valid, offsets))"

text \<open>
  The append of the new slots to the slot table.  \<open>scatter_\<close> leaves the order of writes to a
  repeated column open; \<open>order\<close> is the order in which the lanes of a row are written.
\<close>

definition scatter_row :: "nat list \<Rightarrow> nat list \<Rightarrow> int list \<Rightarrow> int list \<Rightarrow> int list" where
  "scatter_row order columns vals row = fold (\<lambda>j r. r[columns ! j := vals ! j]) order row"

definition append_row :: "nat list \<Rightarrow> nat \<Rightarrow> int list \<Rightarrow> int \<Rightarrow> int list \<Rightarrow> int \<Rightarrow> int list" where
  "append_row order capacity existing count allocated new_slots =
     (let width = min (length existing) capacity;
          base = take width existing @ replicate (capacity - width) 0;
          columns = map (\<lambda>j. nat (clamp_max (count + int j) (int capacity - 1))) [0..<length allocated];
          prior = map (\<lambda>c. base ! c) columns;
          vals = map (\<lambda>j. if int j < new_slots then allocated ! j else prior ! j) [0..<length allocated]
      in scatter_row order columns vals base)"

definition torch_plan ::
    "'h \<Rightarrow> nat list \<Rightarrow> int list \<Rightarrow> 'h list \<Rightarrow> int list \<Rightarrow> int list \<Rightarrow> int list list \<Rightarrow> int list \<Rightarrow> int list list
      \<Rightarrow> nat \<Rightarrow> nat \<Rightarrow> nat option \<Rightarrow> 'h refresh_plan" where
  "torch_plan zero order flat_tokens flat_hidden accept_lengths cross_positions existing_loc existing_counts
      allocated K capacity out_capacity =
     (let n_per_req = map (\<lambda>a. a + 1) accept_lengths;
          (hidden, chain_mask, offsets) = pack_flat_chains zero flat_hidden n_per_req capacity;
          token_indices = map2 (\<lambda>off n. map (\<lambda>c. clamp_max (off + min (int c + 1) (n - 1)) (int (length flat_tokens) - 1))
                            [0..<capacity]) offsets n_per_req;
          tokens = map2 (map2 (\<lambda>i live. if live then flat_tokens ! nat i else 0)) token_indices chain_mask;
          start = map2 (\<lambda>p a. p + (if 0 < a then 1 else 0)) cross_positions accept_lengths;
          pos_columns = concat (map (\<lambda>j. map (\<lambda>s. int j + int s) [0..<K]) [0..<capacity]);
          pos_ids = map (\<lambda>s. map (\<lambda>c. s + 1 + c) pos_columns) start;
          new_slots = map (\<lambda>n. n * int K) n_per_req;
          counts = map2 (+) existing_counts new_slots
      in \<lparr>rp_hidden = hidden, rp_tokens = tokens, rp_pos_ids = pos_ids, rp_n_per_req = n_per_req,
          rp_chain_mask = chain_mask, rp_accept_overflow = map (\<lambda>n. int capacity < n) n_per_req,
          rp_start_positions = start,
          rp_cross_loc = map_option (\<lambda>C. map (\<lambda>b. append_row order C (existing_loc ! b) (existing_counts ! b)
                             (allocated ! b) (new_slots ! b)) [0..<length accept_lengths]) out_capacity,
          rp_cross_counts = counts, rp_new_slots = new_slots,
          rp_cross_overflow = map_option (\<lambda>C. map (\<lambda>n. int C < n) counts) out_capacity\<rparr>)"

section \<open>The kernels\<close>

text \<open>
  Both kernels add up the counts of the earlier rows over a power-of-two block of batch lanes;
  a lane that is not an earlier row loads \<open>-1\<close> and contributes 0.
\<close>

fun next_pow2_from :: "nat \<Rightarrow> nat \<Rightarrow> nat \<Rightarrow> nat" where
  "next_pow2_from 0 p n = p"
| "next_pow2_from (Suc fuel) p n = (if n \<le> p then p else next_pow2_from fuel (2 * p) n)"

definition next_power_of_2 :: "nat \<Rightarrow> nat" where
  "next_power_of_2 n = (if n = 0 then 0 else next_pow2_from n 1 n)"

definition prior_count :: "int list \<Rightarrow> nat \<Rightarrow> int" where
  "prior_count accept_lengths b =
     (\<Sum>i\<leftarrow>[0..<next_power_of_2 (length accept_lengths)]. (if i < b then accept_lengths ! i else - 1) + 1)"

definition pack_hidden_lane :: "'v \<Rightarrow> 'v list list \<Rightarrow> int list \<Rightarrow> nat \<Rightarrow> nat \<Rightarrow> nat \<Rightarrow> 'v" where
  "pack_hidden_lane zero flat accept_lengths capacity row lane =
     (let b = row div capacity; column = row mod capacity;
          source_row = prior_count accept_lengths b + int column;
          n = accept_lengths ! b + 1
      in if int column < n then flat ! nat source_row ! lane else zero)"

definition pack_hidden_kernel :: "'v \<Rightarrow> nat \<Rightarrow> 'v list list \<Rightarrow> int list \<Rightarrow> nat \<Rightarrow> 'v list list list" where
  "pack_hidden_kernel zero hidden_size flat accept_lengths capacity =
     map (\<lambda>b. map (\<lambda>c. map (\<lambda>lane. pack_hidden_lane zero flat accept_lengths capacity (b * capacity + c) lane)
        [0..<hidden_size]) [0..<capacity]) [0..<length accept_lengths]"

definition token_lane :: "int list \<Rightarrow> int list \<Rightarrow> nat \<Rightarrow> nat \<Rightarrow> int" where
  "token_lane flat_tokens accept_lengths b column =
     (let n = accept_lengths ! b + 1
      in if int column < n
         then flat_tokens ! nat (prior_count accept_lengths b + min (int column + 1) (n - 1)) else 0)"

definition position_lane :: "int list \<Rightarrow> int list \<Rightarrow> nat \<Rightarrow> nat \<Rightarrow> nat \<Rightarrow> int" where
  "position_lane cross_positions accept_lengths K b column =
     cross_positions ! b + (if 0 < accept_lengths ! b then 1 else 0) + 1 + int (column div K) + int (column mod K)"

definition cuda_plan ::
    "'v \<Rightarrow> nat \<Rightarrow> int list \<Rightarrow> 'v list list \<Rightarrow> int list \<Rightarrow> int list \<Rightarrow> int list \<Rightarrow> nat \<Rightarrow> nat \<Rightarrow> 'v list refresh_plan" where
  "cuda_plan zero hidden_size flat_tokens flat_hidden accept_lengths cross_positions existing_counts K capacity =
     (let rows = [0..<length accept_lengths]
      in \<lparr>rp_hidden = pack_hidden_kernel zero hidden_size flat_hidden accept_lengths capacity,
          rp_tokens = map (\<lambda>b. map (token_lane flat_tokens accept_lengths b) [0..<capacity]) rows,
          rp_pos_ids = map (\<lambda>b. map (position_lane cross_positions accept_lengths K b) [0..<capacity * K]) rows,
          rp_n_per_req = map (\<lambda>b. accept_lengths ! b + 1) rows,
          rp_chain_mask = map (\<lambda>b. map (\<lambda>c. int c < accept_lengths ! b + 1) [0..<capacity]) rows,
          rp_accept_overflow = map (\<lambda>b. int capacity < accept_lengths ! b + 1) rows,
          rp_start_positions = map (\<lambda>b. cross_positions ! b + (if 0 < accept_lengths ! b then 1 else 0)) rows,
          rp_cross_loc = None,
          rp_cross_counts = map (\<lambda>b. existing_counts ! b + (accept_lengths ! b + 1) * int K) rows,
          rp_new_slots = map (\<lambda>b. (accept_lengths ! b + 1) * int K) rows,
          rp_cross_overflow = None\<rparr>)"

text \<open>\<open>build_specblock_refresh_tensor_plan\<close>: the guards, and the choice of the route.\<close>

definition build_refresh_plan ::
    "bool \<Rightarrow> 'v \<Rightarrow> nat \<Rightarrow> nat list \<Rightarrow> int list \<Rightarrow> 'v list list \<Rightarrow> int list \<Rightarrow> int list \<Rightarrow> int list list \<Rightarrow> int list
      \<Rightarrow> nat \<Rightarrow> int list list \<Rightarrow> int \<Rightarrow> int option \<Rightarrow> 'v list refresh_plan res" where
  "build_refresh_plan on_cuda zero hidden_size order flat_tokens flat_hidden accept_lengths cross_positions existing_loc
      existing_counts alloc_width allocated K out_capacity =
     (if K \<le> 0 then Inl ValueError
      else if out_capacity \<noteq> None \<and> the out_capacity \<le> 0 then Inl ValueError
      else if length flat_hidden \<noteq> length flat_tokens \<or> length cross_positions \<noteq> length accept_lengths
        \<or> length existing_counts \<noteq> length accept_lengths \<or> length existing_loc \<noteq> length accept_lengths
        \<or> length allocated \<noteq> length accept_lengths then Inl ValueError
      else if int alloc_width mod K \<noteq> 0 then Inl ValueError
      else
        (let capacity = alloc_width div nat K in
         if on_cuda \<and> out_capacity = None
         then Inr (cuda_plan zero hidden_size flat_tokens flat_hidden accept_lengths cross_positions existing_counts
                (nat K) capacity)
         else Inr (torch_plan (replicate hidden_size zero) order flat_tokens flat_hidden accept_lengths cross_positions
                existing_loc existing_counts allocated (nat K) capacity (map_option nat out_capacity))))"

section \<open>Both routes agree\<close>

lemma length_chain_offsets [shape_simps, simp]: "length (chain_offsets counts) = length counts"
  by (simp add: chain_offsets_def)

lemma cumsum_from_sum: "b < length xs \<Longrightarrow> cumsum_from a xs ! b = a + sum_list (take (Suc b) xs)" for a :: int
proof (induction xs arbitrary: a b)
  case (Cons x xs)
  then show ?case by (cases b) auto
qed simp

lemma chain_offsets_nth: "b < length counts \<Longrightarrow> chain_offsets counts ! b = sum_list (take b counts)"
  by (simp add: chain_offsets_def cumsum_from_sum take_Suc_conv_app_nth)

lemma next_pow2_from_le: "p * 2 ^ fuel \<ge> n \<Longrightarrow> n \<le> next_pow2_from fuel p n"
  by (induction fuel p n rule: next_pow2_from.induct) (auto simp: ac_simps)

lemma next_power_of_2_le: "n \<le> next_power_of_2 n"
  unfolding next_power_of_2_def using next_pow2_from_le[of n 1 n] by (simp add: less_exp less_imp_le)

lemma prior_count_sum:
  assumes "b \<le> length accept_lengths"
  shows "prior_count accept_lengths b = sum_list (take b (map (\<lambda>a. a + 1) accept_lengths))"
proof -
  let ?N = "next_power_of_2 (length accept_lengths)"
  have N: "b \<le> ?N" using assms next_power_of_2_le le_trans by blast
  let ?f = "\<lambda>i. (if i < b then accept_lengths ! i else - 1) + 1"
  have "prior_count accept_lengths b = sum_list (map ?f [0..<b]) + sum_list (map ?f [b..<?N])"
    unfolding prior_count_def using upt_add_eq_append[of 0 b "?N - b"] N by simp
  also have "map ?f [0..<b] = map (\<lambda>i. accept_lengths ! i + 1) [0..<b]" by simp
  also have "map ?f [b..<?N] = map (\<lambda>i. 0) [b..<?N]" by simp
  also have "map (\<lambda>i. accept_lengths ! i + 1) [0..<b] = take b (map (\<lambda>a. a + 1) accept_lengths)"
    using assms by (intro nth_equalityI) auto
  finally show ?thesis by simp
qed

lemma sum_take_le:
  "\<forall>x\<in>set xs. 0 \<le> (x :: int) \<Longrightarrow> b < length xs \<Longrightarrow> 0 \<le> sum_list (take b xs)
    \<and> sum_list (take b xs) + xs ! b \<le> sum_list xs"
proof (induction xs arbitrary: b)
  case (Cons x xs)
  have "0 \<le> sum_list xs" using Cons.prems(1) by (intro sum_list_nonneg) auto
  then show ?case using Cons by (cases b) auto
qed simp

lemma nth_block_concat:
  "i < m * k \<Longrightarrow> concat (map (\<lambda>j. map (f j) [0..<k]) [0..<m]) ! i = f (i div k) (i mod k)"
proof (induction m arbitrary: i)
  case (Suc m)
  have len: "length (concat (map (\<lambda>j. map (f j) [0..<k]) [0..<m])) = m * k"
    by (induction m) auto
  have k: "0 < k" using Suc.prems by (cases k) auto
  show ?case
  proof (cases "i < m * k")
    case True
    then show ?thesis using Suc.IH[OF True] len by (simp add: nth_append)
  next
    case False
    then obtain r where r: "i = m * k + r" "r < k" using Suc.prems by (metis add_less_imp_less_left le_Suc_ex mult_Suc not_less add.commute)
    then show ?thesis using len k by (simp add: nth_append)
  qed
qed simp

lemma length_block_concat: "length (concat (map (\<lambda>j. map (f j) [0..<k]) [0..<m])) = m * k"
  by (induction m) auto
lemma pack_flat_chains_nth:
  assumes "b < length counts" "c < capacity"
  shows "fst (pack_flat_chains zero flat counts capacity) ! b ! c
      = (if int c < counts ! b
         then flat ! nat (clamp_max (sum_list (take b counts) + int c) (int (length flat) - 1)) else zero)"
    and "fst (snd (pack_flat_chains zero flat counts capacity)) ! b ! c = (int c < counts ! b)"
  using assms by (simp_all add: pack_flat_chains_def Let_def chain_offsets_nth)

lemma pack_flat_chains_length:
  "length (fst (pack_flat_chains zero flat counts capacity)) = length counts"
  "b < length counts \<Longrightarrow> length (fst (pack_flat_chains zero flat counts capacity) ! b) = capacity"
  "fst (snd (pack_flat_chains zero flat counts capacity)) = map (\<lambda>n. map (\<lambda>c. int c < n) [0..<capacity]) counts"
  "snd (snd (pack_flat_chains zero flat counts capacity)) = chain_offsets counts"
  by (simp_all add: pack_flat_chains_def Let_def)

text \<open>The rows of a ragged batch end inside the flat data.\<close>

definition chains_fit :: "int list \<Rightarrow> nat \<Rightarrow> bool" where
  "chains_fit accept_lengths n \<longleftrightarrow>
     (\<forall>a\<in>set accept_lengths. 0 \<le> a) \<and> sum_list (map (\<lambda>a. a + 1) accept_lengths) \<le> int n"

lemma chains_fit_offset:
  assumes "chains_fit accept_lengths n" "b < length accept_lengths" "c \<le> accept_lengths ! b" "0 \<le> c"
  shows "0 \<le> prior_count accept_lengths b" "clamp_max (prior_count accept_lengths b + c) (int n - 1) = prior_count accept_lengths b + c"
    "nat (prior_count accept_lengths b + c) < n"
proof -
  let ?c = "map (\<lambda>a. a + 1) accept_lengths"
  have pos: "\<forall>x\<in>set ?c. 0 \<le> x" and le: "sum_list ?c \<le> int n" using assms(1) by (auto simp: chains_fit_def)
  have "0 \<le> sum_list (take b ?c) \<and> sum_list (take b ?c) + ?c ! b \<le> sum_list ?c"
    by (rule sum_take_le[OF pos]) (simp add: assms(2))
  moreover have "?c ! b = accept_lengths ! b + 1" using assms(2) by simp
  moreover have "prior_count accept_lengths b = sum_list (take b ?c)"
    by (rule prior_count_sum) (use assms(2) in simp)
  ultimately show "0 \<le> prior_count accept_lengths b"
    "clamp_max (prior_count accept_lengths b + c) (int n - 1) = prior_count accept_lengths b + c"
    "nat (prior_count accept_lengths b + c) < n"
    using assms(3,4) le by (auto simp: clamp_max_def)
qed

lemma hidden_routes_agree:
  assumes "chains_fit accept_lengths (length flat)" "\<forall>h\<in>set flat. length h = hidden_size"
  shows "pack_hidden_kernel zero hidden_size flat accept_lengths capacity
    = fst (pack_flat_chains (replicate hidden_size zero) flat (map (\<lambda>a. a + 1) accept_lengths) capacity)"
    (is "?K = ?T")
proof (rule nth_equalityI)
  show "length ?K = length ?T" by (simp add: pack_hidden_kernel_def pack_flat_chains_length)
  fix b assume "b < length ?K"
  then have b: "b < length accept_lengths" by (simp add: pack_hidden_kernel_def)
  show "?K ! b = ?T ! b"
  proof (rule nth_equalityI)
    show "length (?K ! b) = length (?T ! b)" using b by (simp add: pack_hidden_kernel_def pack_flat_chains_length)
    fix c assume "c < length (?K ! b)"
    then have c: "c < capacity" using b by (simp add: pack_hidden_kernel_def)
    have dm: "(b * capacity + c) div capacity = b" "(b * capacity + c) mod capacity = c" using c by simp_all
    have K: "?K ! b ! c = map (\<lambda>lane. pack_hidden_lane zero flat accept_lengths capacity (b * capacity + c) lane) [0..<hidden_size]"
      using b c by (simp add: pack_hidden_kernel_def)
    have T: "?T ! b ! c = (if int c < accept_lengths ! b + 1
         then flat ! nat (clamp_max (prior_count accept_lengths b + int c) (int (length flat) - 1)) else replicate hidden_size zero)"
      using b c by (simp add: pack_flat_chains_nth(1) prior_count_sum)
    show "?K ! b ! c = ?T ! b ! c"
    proof (cases "int c < accept_lengths ! b + 1")
      case True
      note off = chains_fit_offset[OF assms(1) b, of "int c"]
      have "length (flat ! nat (prior_count accept_lengths b + int c)) = hidden_size"
        using off(3) True assms(2) by (simp add: nth_mem)
      with True off(2) show ?thesis unfolding K T pack_hidden_lane_def dm Let_def
        by (auto intro: nth_equalityI)
    next
      case False
      then show ?thesis unfolding K T pack_hidden_lane_def dm Let_def by (auto intro: nth_equalityI)
    qed
  qed
qed

lemma map2_as_upt: "length xs = n \<Longrightarrow> length ys = n \<Longrightarrow> map2 f xs ys = map (\<lambda>b. f (xs ! b) (ys ! b)) [0..<n]"
  by (rule nth_equalityI) simp_all

lemma map_as_upt: "length xs = n \<Longrightarrow> map f xs = map (\<lambda>b. f (xs ! b)) [0..<n]"
  by (rule nth_equalityI) simp_all

lemma token_routes_agree:
  assumes "chains_fit accept_lengths (length flat)"
  shows "map (\<lambda>b. map (token_lane flat accept_lengths b) [0..<capacity]) [0..<length accept_lengths]
    = map2 (map2 (\<lambda>i live. if live then flat ! nat i else 0))
        (map2 (\<lambda>off n. map (\<lambda>c. clamp_max (off + min (int c + 1) (n - 1)) (int (length flat) - 1)) [0..<capacity])
           (chain_offsets (map (\<lambda>a. a + 1) accept_lengths)) (map (\<lambda>a. a + 1) accept_lengths))
        (map (\<lambda>n. map (\<lambda>c. int c < n) [0..<capacity]) (map (\<lambda>a. a + 1) accept_lengths))"
proof (rule nth_equalityI)
  fix b assume "b < length (map (\<lambda>b. map (token_lane flat accept_lengths b) [0..<capacity]) [0..<length accept_lengths])"
  then have b: "b < length accept_lengths" by simp
  have off: "chain_offsets (map (\<lambda>a. a + 1) accept_lengths) ! b = prior_count accept_lengths b"
    using b by (simp add: chain_offsets_nth prior_count_sum)
  have tok: "token_lane flat accept_lengths b c
      = (if int c < accept_lengths ! b + 1
         then flat ! nat (clamp_max (prior_count accept_lengths b + min (int c + 1) (accept_lengths ! b)) (int (length flat) - 1))
         else 0)" for c
    using chains_fit_offset(2)[OF assms b, of "min (int c + 1) (accept_lengths ! b)"] assms b
    by (auto simp: token_lane_def Let_def chains_fit_def)
  show "map (\<lambda>b. map (token_lane flat accept_lengths b) [0..<capacity]) [0..<length accept_lengths] ! b
    = map2 (map2 (\<lambda>i live. if live then flat ! nat i else 0))
        (map2 (\<lambda>off n. map (\<lambda>c. clamp_max (off + min (int c + 1) (n - 1)) (int (length flat) - 1)) [0..<capacity])
           (chain_offsets (map (\<lambda>a. a + 1) accept_lengths)) (map (\<lambda>a. a + 1) accept_lengths))
        (map (\<lambda>n. map (\<lambda>c. int c < n) [0..<capacity]) (map (\<lambda>a. a + 1) accept_lengths)) ! b"
    using b off by (auto simp: tok intro!: nth_equalityI)
qed simp

lemma plan_routes_agree:
  assumes "chains_fit accept_lengths (length flat_tokens)" "length flat_hidden = length flat_tokens"
    and "\<forall>h\<in>set flat_hidden. length h = hidden_size"
    and "length cross_positions = length accept_lengths" "length existing_counts = length accept_lengths"
  shows "cuda_plan zero hidden_size flat_tokens flat_hidden accept_lengths cross_positions existing_counts K capacity
    = torch_plan (replicate hidden_size zero) order flat_tokens flat_hidden accept_lengths cross_positions existing_loc
        existing_counts allocated K capacity None"
proof -
  let ?n = "map (\<lambda>a. a + 1) accept_lengths"
  obtain hid msk off where pf: "pack_flat_chains (replicate hidden_size zero) flat_hidden ?n capacity = (hid, msk, off)"
    by (metis prod.exhaust)
  have hid: "hid = pack_hidden_kernel zero hidden_size flat_hidden accept_lengths capacity"
    using hidden_routes_agree[of accept_lengths flat_hidden hidden_size zero capacity] assms(1-3) pf by simp
  have msk: "msk = map (\<lambda>n. map (\<lambda>c. int c < n) [0..<capacity]) ?n" and off: "off = chain_offsets ?n"
    using pack_flat_chains_length(3,4)[of "replicate hidden_size zero" flat_hidden ?n capacity] pf by simp_all
  have start: "map2 (\<lambda>p a. p + (if 0 < a then 1 else 0)) cross_positions accept_lengths
    = map (\<lambda>b. cross_positions ! b + (if 0 < accept_lengths ! b then 1 else 0)) [0..<length accept_lengths]"
    by (rule map2_as_upt) (simp_all add: assms(4))
  have pos: "map (\<lambda>b. map (position_lane cross_positions accept_lengths K b) [0..<capacity * K]) [0..<length accept_lengths]
    = map (\<lambda>s. map (\<lambda>c. s + 1 + c) (concat (map (\<lambda>j. map (\<lambda>s. int j + int s) [0..<K]) [0..<capacity])))
       (map (\<lambda>b. cross_positions ! b + (if 0 < accept_lengths ! b then 1 else 0)) [0..<length accept_lengths])"
    by (auto intro!: nth_equalityI simp: position_lane_def length_block_concat nth_block_concat)
  have n: "?n = map (\<lambda>b. accept_lengths ! b + 1) [0..<length accept_lengths]" by (rule map_as_upt) simp
  have cnt: "map2 (+) existing_counts (map (\<lambda>n. n * int K) ?n)
    = map (\<lambda>b. existing_counts ! b + (accept_lengths ! b + 1) * int K) [0..<length accept_lengths]"
    by (rule nth_equalityI) (simp_all add: assms(5))
  show ?thesis
    unfolding cuda_plan_def torch_plan_def Let_def pf prod.case start cnt
    unfolding pos token_routes_agree[OF assms(1)] hid[symmetric] off msk
    by (simp add: n[symmetric]) (auto intro!: nth_equalityI)
qed
section \<open>What the plan holds\<close>

lemma sum_list_chains:
  "sum_list (map (\<lambda>a. a + 1) (map (\<lambda>c. int (length c) - 1) segs)) = int (length (concat segs))"
  by (induction segs) auto

lemma chains_fit_concat:
  "\<forall>c\<in>set segs. c \<noteq> [] \<Longrightarrow> chains_fit (map (\<lambda>c. int (length c) - 1) segs) (length (concat segs))"
  unfolding chains_fit_def sum_list_chains by (auto simp: Suc_le_eq)

lemma nth_concat_chains:
  "b < length segs \<Longrightarrow> j < length (segs ! b) \<Longrightarrow>
     concat segs ! (length (concat (take b segs)) + j) = segs ! b ! j"
proof (induction segs arbitrary: b)
  case (Cons c segs)
  then show ?case by (cases b) (auto simp: nth_append)
qed simp

lemma prior_count_chains:
  assumes "b \<le> length segs"
  shows "prior_count (map (\<lambda>c. int (length c) - 1) segs) b = int (length (concat (take b segs)))"
proof -
  have "prior_count (map (\<lambda>c. int (length c) - 1) segs) b
    = sum_list (map (\<lambda>a. a + 1) (map (\<lambda>c. int (length c) - 1) (take b segs)))"
    using assms by (subst prior_count_sum) (simp_all add: take_map comp_def)
  then show ?thesis unfolding sum_list_chains .
qed

lemma sum_list_lengths: "sum_list (map (\<lambda>c. int (length c)) cs) = int (length (concat cs))"
  by (induction cs) auto

lemma pack_chains_row:
  assumes "\<forall>c\<in>set segs. length c \<le> capacity" "b < length segs"
  shows "fst (pack_flat_chains zero (concat segs) (map (\<lambda>c. int (length c)) segs) capacity) ! b
    = segs ! b @ replicate (capacity - length (segs ! b)) zero" (is "?L = ?R")
proof (rule nth_equalityI)
  have le: "length (segs ! b) \<le> capacity" using assms by simp
  show "length ?L = length ?R" using assms(2) le by (simp add: pack_flat_chains_length)
  fix c assume "c < length ?L"
  then have c: "c < capacity" using assms(2) by (simp add: pack_flat_chains_length)
  have off: "sum_list (take b (map (\<lambda>c. int (length c)) segs)) = int (length (concat (take b segs)))"
    unfolding take_map by (rule sum_list_lengths)
  show "?L ! c = ?R ! c"
  proof (cases "c < length (segs ! b)")
    case True
    have "length (concat (take b segs)) + length (segs ! b) \<le> length (concat segs)"
      using arg_cong[OF id_take_nth_drop[OF assms(2)], of "\<lambda>cs. length (concat cs)"] by simp
    then have "clamp_max (int (length (concat (take b segs))) + int c) (int (length (concat segs)) - 1)
        = int (length (concat (take b segs)) + c)" using True by (simp add: clamp_max_def)
    then show ?thesis using pack_flat_chains_nth(1)[of b "map (\<lambda>c. int (length c)) segs" c capacity zero "concat segs"]
        assms(2) c True nth_concat_chains[OF assms(2) True] unfolding off by (simp add: nth_append nat_int_add)
  qed (use pack_flat_chains_nth(1)[of b "map (\<lambda>c. int (length c)) segs" c capacity zero "concat segs"] assms(2) c
       in \<open>simp add: nth_append\<close>)
qed

lemma token_row_chain:
  assumes "\<forall>c\<in>set segs. c \<noteq> [] \<and> length c \<le> capacity" "b < length segs"
  shows "map (token_lane (concat segs) (map (\<lambda>c. int (length c) - 1) segs) b) [0..<capacity]
    = tl (segs ! b) @ [last (segs ! b)] @ replicate (capacity - length (segs ! b)) 0" (is "?L = ?R")
proof (rule nth_equalityI)
  have ne: "segs ! b \<noteq> []" and le: "length (segs ! b) \<le> capacity" using assms by auto
  show "length ?L = length ?R" using ne le by (cases "segs ! b") auto
  fix c assume "c < length ?L"
  then have c: "c < capacity" by simp
  have lane: "token_lane (concat segs) (map (\<lambda>c. int (length c) - 1) segs) b c
    = (if c < length (segs ! b) then segs ! b ! min (Suc c) (length (segs ! b) - 1) else 0)"
  proof (cases "c < length (segs ! b)")
    case True
    have "min (int c + 1) (int (length (segs ! b)) - 1) = int (min (Suc c) (length (segs ! b) - 1))"
      using ne by (cases "segs ! b") auto
    then have "nat (prior_count (map (\<lambda>c. int (length c) - 1) segs) b + min (int c + 1) (int (length (segs ! b)) - 1))
      = length (concat (take b segs)) + min (Suc c) (length (segs ! b) - 1)"
      using assms(2) by (simp add: prior_count_chains nat_int_add)
    moreover have "min (Suc c) (length (segs ! b) - 1) < length (segs ! b)" using ne by (cases "segs ! b") auto
    ultimately show ?thesis using True nth_concat_chains[OF assms(2)] assms(2) by (simp add: token_lane_def Let_def)
  next
    case False
    then show ?thesis using assms(2) by (simp add: token_lane_def Let_def)
  qed
  show "?L ! c = ?R ! c"
  proof (cases "c < length (segs ! b)")
    case True
    moreover have "0 < length (segs ! b)" using ne by simp
    ultimately show ?thesis using c lane
      by (cases "c = length (segs ! b) - 1") (auto simp: nth_append nth_tl last_conv_nth min_def)
  next
    case False
    then show ?thesis using c lane ne by (auto simp: nth_append nth_Cons')
  qed
qed

lemma length_scatter_row [simp]: "length (scatter_row order columns vals row) = length row"
  unfolding scatter_row_def by (induction order arbitrary: row) auto

text \<open>Writes that agree on every column do not depend on their order.\<close>

lemma scatter_row_ok:
  assumes "\<forall>j\<in>set order. columns ! j < length row" "\<forall>j\<in>set order. columns ! j = c \<longrightarrow> vals ! j = x" "c < length row"
  shows "length (scatter_row order columns vals row) = length row
    \<and> scatter_row order columns vals row ! c = (if \<exists>j\<in>set order. columns ! j = c then x else row ! c)"
  using assms unfolding scatter_row_def
  by (induction order arbitrary: row) (auto simp: nth_list_update)

lemma append_row_ok:
  assumes count: "0 \<le> count" "count \<le> int (length existing)" and slots: "0 \<le> n" "n \<le> int (length allocated)"
    and fit: "count + n \<le> int capacity" and room: "count + n < int capacity \<or> count + int (length allocated) \<le> int capacity"
    and tail: "\<forall>i<length existing. count \<le> int i \<longrightarrow> existing ! i = 0"
    and order: "set order = {..<length allocated}"
  shows "append_row order capacity existing count allocated n
    = take (nat count) existing @ take (nat n) allocated @ replicate (capacity - nat (count + n)) 0" (is "?L = ?R")
proof -
  define base where "base = take (min (length existing) capacity) existing @ replicate (capacity - min (length existing) capacity) 0"
  define columns where "columns = map (\<lambda>j. nat (clamp_max (count + int j) (int capacity - 1))) [0..<length allocated]"
  define vals where "vals = map (\<lambda>j. if int j < n then allocated ! j else base ! (columns ! j)) [0..<length allocated]"
  have L: "?L = scatter_row order columns vals base"
    unfolding append_row_def Let_def base_def vals_def columns_def
    by (intro arg_cong2[where f = "\<lambda>v r. scatter_row order _ v r"]) auto
  have lenb: "length base = capacity" by (simp add: base_def)
  have base: "base ! i = (if int i < count then existing ! i else 0)" if i: "i < capacity" for i
    using i count tail by (auto simp: base_def nth_append min_def)
  have col: "columns ! j = nat (min (count + int j) (int capacity - 1))" if "j < length allocated" for j
    using that by (simp add: columns_def clamp_max_def)
  have val: "vals ! j = (if int j < n then allocated ! j else base ! (columns ! j))" if "j < length allocated" for j
    using that by (simp add: vals_def)
  have lenR: "length ?R = capacity" using count slots fit by (simp add: nat_add_distrib)
  have R: "?R ! i = (if int i < count then existing ! i else if int i < count + n then allocated ! (i - nat count) else 0)"
    if i: "i < capacity" for i
  proof -
    have len: "length (take (nat count) existing) = nat count" "length (take (nat n) allocated) = nat n"
      using count slots by simp_all
    consider "i < nat count" | "nat count \<le> i" "i < nat count + nat n" | "nat count + nat n \<le> i" by linarith
    then show ?thesis
    proof cases
      case 3
      then have "\<not> i - nat count < nat n" by linarith
      with 3 have "?R ! i = replicate (capacity - nat (count + n)) 0 ! (i - (nat count + nat n))"
        using len by (simp add: nth_append)
      also have "\<dots> = 0" using 3 i count(1) slots(1) by (intro nth_replicate) (simp add: nat_add_distrib diff_less_mono)
      finally have "?R ! i = 0" .
      moreover have "\<not> int i < count" "\<not> int i < count + n" using 3 count(1) slots(1) by linarith+
      ultimately show ?thesis by simp
    qed (use count slots fit len in \<open>auto simp: nth_append\<close>)
  qed
  show ?thesis
  proof (rule nth_equalityI)
    show "length ?L = length ?R" unfolding L lenR by (simp add: lenb)
    fix i assume "i < length ?L"
    then have i: "i < capacity" unfolding L by (simp add: lenb)
    have in_row: "\<forall>j\<in>set order. columns ! j < length base"
      using i count(1) by (auto simp: order col lenb)
    have hit: "vals ! j = ?R ! i" if j: "j < length allocated" "columns ! j = i" for j
    proof (cases "count + int j < int capacity")
      case True
      then have ji: "int i = count + int j" using j count(1) by (simp add: col)
      then have "i - nat count = j" using count(1) by simp
      then show ?thesis using ji j True R[OF i] base[OF i] by (auto simp: val)
    next
      case False
      then have ci: "int i = int capacity - 1" using j i by (simp add: col)
      have "count + n < int capacity" "\<not> int j < n" using room False fit j(1) by auto
      then show ?thesis using ci R[OF i] base[OF i] j by (auto simp: val)
    qed
    show "?L ! i = ?R ! i"
    proof (cases "\<exists>j\<in>set order. columns ! j = i")
      case True
      then show ?thesis
        using scatter_row_ok[OF in_row, of i vals "?R ! i"] hit i unfolding L by (simp add: order lenb)
    next
      case False
      have "\<not> (count \<le> int i \<and> int i < count + n)"
      proof
        assume a: "count \<le> int i \<and> int i < count + n"
        then have j: "nat (int i - count) < length allocated" using slots(2) by linarith
        have "min (count + int (nat (int i - count))) (int capacity - 1) = int i" using a i by linarith
        then have "columns ! nat (int i - count) = i" by (simp add: col[OF j])
        with j False order show False by blast
      qed
      then have "?R ! i = base ! i" using R[OF i] base[OF i] by auto
      with False show ?thesis
        using scatter_row_ok[OF in_row, of i vals 0] i unfolding L by (auto simp: lenb)
    qed
  qed
qed

section \<open>Properties\<close>

text \<open>
  C26.  The two routes of the refresh plan agree: without an output table, the two Triton kernels
  and the tensor operations return the same plan, or the same error, for every batch whose ragged
  rows lie inside the flat data -- rows over the capacity included, which both flag as overflow.
\<close>

theorem refresh_plan_routes_agree:
  assumes "chains_fit accept_lengths (length flat_tokens)" "\<forall>h\<in>set flat_hidden. length h = hidden_size"
  shows "build_refresh_plan True zero hidden_size order flat_tokens flat_hidden accept_lengths cross_positions existing_loc
      existing_counts alloc_width allocated K None
    = build_refresh_plan False zero hidden_size order flat_tokens flat_hidden accept_lengths cross_positions existing_loc
      existing_counts alloc_width allocated K None"
proof -
  let ?len = "length flat_hidden = length flat_tokens \<and> length cross_positions = length accept_lengths
      \<and> length existing_counts = length accept_lengths"
  show ?thesis
  proof (cases ?len)
    case True
    then show ?thesis
      using plan_routes_agree[OF assms(1) _ assms(2), of cross_positions existing_counts zero "nat K" "alloc_width div nat K"
          order existing_loc allocated]
      unfolding build_refresh_plan_def Let_def by simp
  next
    case False
    then show ?thesis unfolding build_refresh_plan_def Let_def by auto
  qed
qed

theorem refresh_plan_routes_agree_witness:
  "build_refresh_plan True 0 1 [] [7, 8, 9] [[1], [2], [3 :: int]] [1, 0] [4, 6] [[], []] [0, 0] 2 [[1, 2], [3, 0]] 1 None
    = build_refresh_plan False 0 1 [] [7, 8, 9] [[1], [2], [3]] [1, 0] [4, 6] [[], []] [0, 0] 2 [[1, 2], [3, 0]] 1 None
   \<and> (\<exists>r. build_refresh_plan True 0 1 [] [7, 8, 9] [[1], [2], [3 :: int]] [1, 0] [4, 6] [[], []] [0, 0] 2 [[1, 2], [3, 0]] 1 None
        = Inr r)"
proof -
  have fit: "chains_fit [1, 0] (length [7, 8, 9 :: int])" by (simp add: chains_fit_def)
  have h: "\<forall>h\<in>set [[1], [2], [3 :: int]]. length h = 1" by simp
  show ?thesis
    by (intro conjI, rule refresh_plan_routes_agree[OF fit h]) (simp add: build_refresh_plan_def Let_def)
qed

text \<open>
  C25.  Packing the accepted chains loses nothing and shifts the tokens as documented.  For chains
  that are not empty and fit the capacity, on either route: each hidden row is its chain of
  hidden vectors followed by zero vectors up to the capacity, so that the valid prefixes of the
  rows concatenate back to the flat data; each token row is the
  chain without its first token, the last token once more, then zeros; no row overflows; and
  draft position \<open>j\<close>, slot \<open>s\<close> has position id \<open>start + 1 + j + s\<close>, where \<open>start\<close> advances by
  one exactly when something was accepted.
\<close>

theorem refresh_plan_packs_chains:
  assumes "\<forall>c\<in>set segs. c \<noteq> [] \<and> length c \<le> alloc_width div nat K"
    and "map length hsegs = map length segs" "\<forall>h\<in>set (concat hsegs). length h = hidden_size"
    and "0 < K" "int alloc_width mod K = 0"
    and "length cross_positions = length segs" "length existing_loc = length segs"
    and "length existing_counts = length segs" "length allocated = length segs"
  shows "\<exists>r. build_refresh_plan on_cuda zero hidden_size order (concat segs) (concat hsegs)
        (map (\<lambda>c. int (length c) - 1) segs) cross_positions existing_loc existing_counts alloc_width allocated K None = Inr r
    \<and> rp_n_per_req r = map (\<lambda>c. int (length c)) segs \<and> True \<notin> set (rp_accept_overflow r)
    \<and> rp_hidden r = map (\<lambda>h. h @ replicate (alloc_width div nat K - length h) (replicate hidden_size zero)) hsegs
    \<and> concat (map2 (\<lambda>n row. take (nat n) row) (rp_n_per_req r) (rp_hidden r)) = concat hsegs
    \<and> (\<forall>b<length segs. rp_tokens r ! b
          = tl (segs ! b) @ [last (segs ! b)] @ replicate (alloc_width div nat K - length (segs ! b)) 0
        \<and> (\<forall>j s. j < alloc_width div nat K \<longrightarrow> s < nat K \<longrightarrow> rp_pos_ids r ! b ! (j * nat K + s)
            = cross_positions ! b + (if 1 < length (segs ! b) then 1 else 0) + 1 + int j + int s))"
proof -
  let ?acc = "map (\<lambda>c. int (length c) - 1) segs" and ?cap = "alloc_width div nat K"
  define r where "r = cuda_plan zero hidden_size (concat segs) (concat hsegs) ?acc cross_positions existing_counts (nat K) ?cap"
  have ne: "\<forall>c\<in>set segs. c \<noteq> []" using assms(1) by simp
  note fit = chains_fit_concat[OF ne]
  have lenh: "length (concat hsegs) = length (concat segs)" by (simp add: length_concat assms(2))
  have same: "torch_plan (replicate hidden_size zero) order (concat segs) (concat hsegs) ?acc cross_positions existing_loc
      existing_counts allocated (nat K) ?cap None = r"
    unfolding r_def by (rule plan_routes_agree[symmetric, OF fit lenh assms(3)]) (simp_all add: assms(6,8))
  have run: "build_refresh_plan on_cuda zero hidden_size order (concat segs) (concat hsegs) ?acc cross_positions
      existing_loc existing_counts alloc_width allocated K None = Inr r"
    using assms(4-9) lenh same by (simp add: build_refresh_plan_def Let_def r_def[symmetric])
  have n: "rp_n_per_req r = map (\<lambda>c. int (length c)) segs"
    by (rule nth_equalityI) (simp_all add: r_def cuda_plan_def Let_def)
  have over: "True \<notin> set (rp_accept_overflow r)"
    using assms(1) by (auto simp: r_def cuda_plan_def Let_def not_less)
  have segs_len: "length hsegs = length segs" using arg_cong[OF assms(2), of length] by simp
  have len_eq: "length (hsegs ! b) = length (segs ! b)" if "b < length segs" for b
    using arg_cong[OF assms(2), of "\<lambda>l. l ! b"] that segs_len by simp
  have hcap: "\<forall>c\<in>set hsegs. length c \<le> ?cap" 
  proof -
    have "\<forall>b<length segs. length (segs ! b) \<le> ?cap" using assms(1) nth_mem by blast
    then show ?thesis using len_eq segs_len by (auto simp: in_set_conv_nth)
  qed
  have fit': "chains_fit ?acc (length (concat hsegs))" using fit lenh by simp
  have hlen: "map (\<lambda>a. a + 1) ?acc = map (\<lambda>c. int (length c)) hsegs"
    by (rule nth_equalityI) (simp_all add: segs_len len_eq)
  have hid: "rp_hidden r ! b = hsegs ! b @ replicate (?cap - length (hsegs ! b)) (replicate hidden_size zero)"
    if b: "b < length segs" for b
    using hidden_routes_agree[OF fit' assms(3), of zero ?cap] pack_chains_row[OF hcap, of b "replicate hidden_size zero"]
      b segs_len unfolding hlen by (simp add: r_def cuda_plan_def Let_def)
  have hl: "length (rp_hidden r) = length segs" by (simp add: r_def cuda_plan_def Let_def pack_hidden_kernel_def)
  then have rows: "rp_hidden r = map (\<lambda>h. h @ replicate (?cap - length h) (replicate hidden_size zero)) hsegs"
    using hid by (intro nth_equalityI) (simp_all add: segs_len)
  have "map2 (\<lambda>n row. take (nat n) row) (rp_n_per_req r) (rp_hidden r) = hsegs"
  proof (rule nth_equalityI)
    show "length (map2 (\<lambda>n row. take (nat n) row) (rp_n_per_req r) (rp_hidden r)) = length hsegs"
      by (simp add: n segs_len) (simp add: r_def cuda_plan_def Let_def pack_hidden_kernel_def)
    fix b assume "b < length (map2 (\<lambda>n row. take (nat n) row) (rp_n_per_req r) (rp_hidden r))"
    then have b: "b < length segs" "b < length (rp_hidden r)" by (simp_all add: n)
    then show "map2 (\<lambda>n row. take (nat n) row) (rp_n_per_req r) (rp_hidden r) ! b = hsegs ! b"
      using hid[OF b(1)] len_eq[OF b(1)] by (simp add: n)
  qed
  moreover have "rp_tokens r ! b = tl (segs ! b) @ [last (segs ! b)] @ replicate (?cap - length (segs ! b)) 0"
    if "b < length segs" for b
    using token_row_chain[OF assms(1) that] that by (simp add: r_def cuda_plan_def Let_def)
  moreover have "rp_pos_ids r ! b ! (j * nat K + s)
      = cross_positions ! b + (if 1 < length (segs ! b) then 1 else 0) + 1 + int j + int s"
    if b: "b < length segs" and js: "j < ?cap" "s < nat K" for b j s
  proof -
    have "Suc j * nat K \<le> ?cap * nat K" using js(1) by (simp only: mult_le_mono1 Suc_leI)
    then have "j * nat K + s < ?cap * nat K" using js(2) by simp
    then show ?thesis using b js(2) by (simp add: r_def cuda_plan_def Let_def position_lane_def)
  qed
  ultimately show ?thesis using run n over rows by auto
qed

theorem refresh_plan_packs_chains_witness:
  "\<exists>r. build_refresh_plan True 0 1 [] [7, 8, 9] [[1], [2], [3 :: int]] [1, 0] [4, 6] [[], []] [0, 0] 4 [[1, 2, 3, 4], [5, 6, 0, 0]] 2 None
      = Inr r
    \<and> rp_hidden r = [[[1], [2]], [[3], [0]]]
    \<and> rp_tokens r ! 0 = [8, 8] \<and> rp_tokens r ! 1 = [9, 0] \<and> rp_pos_ids r ! 0 ! 3 = 8"
proof -
  have div2: "(4 :: nat) div nat 2 = 2" by simp
  have p1: "\<forall>c\<in>set [[7, 8], [9 :: int]]. c \<noteq> [] \<and> length c \<le> 4 div nat 2" by (simp add: div2)
  obtain r where r: "build_refresh_plan True 0 1 [] (concat [[7, 8], [9]]) (concat [[[1], [2]], [[3 :: int]]])
        (map (\<lambda>c. int (length c) - 1) [[7, 8], [9 :: int]]) [4, 6] [[], []] [0, 0] 4 [[1, 2, 3, 4], [5, 6, 0, 0]] 2 None = Inr r"
      "rp_hidden r = [[[1], [2]], [[3], [0]]]"
      "\<forall>b<length [[7, 8], [9 :: int]]. rp_tokens r ! b
          = tl ([[7, 8], [9]] ! b) @ [last ([[7, 8], [9]] ! b)] @ replicate (4 div nat 2 - length ([[7, 8], [9 :: int]] ! b)) 0
        \<and> (\<forall>j s. j < 4 div nat 2 \<longrightarrow> s < nat 2 \<longrightarrow> rp_pos_ids r ! b ! (j * nat 2 + s)
            = [4, 6] ! b + (if 1 < length ([[7, 8], [9 :: int]] ! b) then 1 else 0) + 1 + int j + int s)"
    using refresh_plan_packs_chains[OF p1, of "[[[1], [2]], [[3 :: int]]]" 1 "[4, 6]" "[[], []]" "[0, 0]"
        "[[1, 2, 3, 4], [5, 6, 0, 0]]" True 0 "[]"] by (force simp: div2)
  have "rp_tokens r ! 0 = [8, 8]" "rp_tokens r ! 1 = [9, 0]" using r(3)[rule_format, of 0] r(3)[rule_format, of 1] by (simp_all add: div2)
  moreover have "rp_pos_ids r ! 0 ! 3 = 8"
    using r(3)[rule_format, of 0, THEN conjunct2, rule_format, of 1 1] by (simp add: div2)
  ultimately show ?thesis using r(1,2) by (intro exI[of _ r]) simp
qed

text \<open>
  Appending to the slot table is exact when the appended row leaves a free column or the
  whole allocation block fits: whatever the order of the scattered writes, the row is the live old
  slots, then the live new slots, then the zero sentinel.  (The side condition is needed: see
  \<open>append_row_exact_fit_drops\<close>.)
\<close>

theorem append_row_exact:
  assumes "0 \<le> count" "count \<le> int (length existing)" "0 \<le> n" "n \<le> int (length allocated)"
    and "count + n \<le> int capacity" "count + n < int capacity \<or> count + int (length allocated) \<le> int capacity"
    and "\<forall>i<length existing. count \<le> int i \<longrightarrow> existing ! i = 0" "set order = {..<length allocated}"
  shows "append_row order capacity existing count allocated n
    = take (nat count) existing @ take (nat n) allocated @ replicate (capacity - nat (count + n)) 0"
  by (rule append_row_ok[OF assms])

theorem append_row_exact_witness:
  "append_row [2, 0, 1, 3] 5 [8, 0] 1 [3, 4, 0, 0] 2 = [8, 3, 4, 0, 0]"
proof -
  have "append_row [2, 0, 1, 3] 5 [8, 0] 1 [3, 4, 0, 0] 2
    = take (nat 1) [8, 0] @ take (nat 2) [3, 4, 0, 0] @ replicate (5 - nat (1 + 2)) 0"
    by (rule append_row_exact) (auto simp: nth_Cons' less_Suc_eq lessThan_def)
  then show ?thesis by (simp add: numeral_2_eq_2 numeral_3_eq_3 eval_nat_numeral)
qed

text \<open>
  A row that fills the table exactly, from a block with a masked tail: the masked lanes are
  clamped to the last column and write back what was there before, so in ascending order the last
  live slot is lost -- although the row did not overflow.
\<close>

lemma append_row_exact_fit_drops:
  "append_row [0, 1, 2, 3] 2 [] 0 [5, 6, 0, 0] 2 = [5, 0]" "\<not> (0 + 2 :: int) > int 2"
  by (simp_all add: append_row_def scatter_row_def clamp_max_def Let_def eval_nat_numeral)

end
