(* ===== verification/Refresh_Graphs.thy ===== *)
theory Refresh_Graphs
  imports KV_Pool "HOL-Library.AList"
begin

text \<open>
  The CUDA graph runner of the refresh step
  (\<open>sglang/srt/speculative/specblock_refresh_cuda_graph_runner.py\<close>): the bucket capacities, the
  dictionary of captured graphs with the pool version each was captured at, capture,
  invalidation and replay.  A captured graph holds pointers into the pool storage of its capture
  time; since storage is replaced exactly when the pool gets larger, the captured storage is
  identified by its size.  Dictionaries are association lists.
\<close>

type_synonym bucket = "nat \<times> nat \<times> nat"

record graph_runner =
  gr_capture_bs :: "nat list"
  gr_cross :: "nat list"
  gr_accept :: "nat list"
  gr_graphs :: "(bucket \<times> int) list"
  gr_versions :: "(bucket \<times> int) list"

definition CROSS_BUCKETS :: "nat list" where
  "CROSS_BUCKETS = [32, 64, 128, 256, 512, 1024, 2048, 3072, 4096, 6144, 8192, 12288, 16384]"

definition ACCEPT_BUCKETS :: "nat list" where
  "ACCEPT_BUCKETS = [1, 2, 4, 8, 16]"

definition MAX_BATCH_CAPACITY :: nat where
  "MAX_BATCH_CAPACITY = 16"

text \<open>\<open>while capacity < configured_max: append; capacity *= 2\<close>, then the maximum itself.\<close>

function capture_sizes :: "nat \<Rightarrow> nat \<Rightarrow> nat list" where
  "capture_sizes capacity mx =
     (if 0 < capacity \<and> capacity < mx then capacity # capture_sizes (2 * capacity) mx else [mx])"
  by pat_completeness auto
termination by (relation "measure (\<lambda>(c, m). m - c)") auto

declare capture_sizes.simps [simp del]

definition runner_init :: "int list \<Rightarrow> bool \<Rightarrow> graph_runner" where
  "runner_init cuda_graph_bs metax =
     (let configured = map nat (filter (\<lambda>b. 0 < b) cuda_graph_bs);
          configured_max = min (if configured = [] then 1 else Max (set configured)) MAX_BATCH_CAPACITY
      in \<lparr>gr_capture_bs = capture_sizes 1 configured_max, gr_cross = CROSS_BUCKETS,
          gr_accept = (if metax then [1..<17] else ACCEPT_BUCKETS), gr_graphs = [], gr_versions = []\<rparr>)"

definition resolve_first :: "nat list \<Rightarrow> nat \<Rightarrow> nat option" where
  "resolve_first buckets n = find (\<lambda>b. n \<le> b) buckets"

definition resolve_buckets :: "graph_runner \<Rightarrow> nat \<Rightarrow> nat \<Rightarrow> nat \<Rightarrow> bucket option" where
  "resolve_buckets g active_bs max_cross max_n =
     (case (resolve_first (gr_capture_bs g) active_bs, resolve_first (gr_cross g) max_cross, resolve_first (gr_accept g) max_n) of
        (Some b, Some c, Some a) \<Rightarrow> Some (b, c, a) | _ \<Rightarrow> None)"

definition invalidate_all :: "graph_runner \<Rightarrow> graph_runner" where
  "invalidate_all g = g\<lparr>gr_graphs := [], gr_versions := []\<rparr>"

definition can_run :: "'v kv_pool \<Rightarrow> bucket \<Rightarrow> graph_runner \<Rightarrow> bool \<times> graph_runner" where
  "can_run p key g =
     (if gr_graphs g \<noteq> [] \<and> (set (map fst (gr_versions g)) \<noteq> set (map fst (gr_graphs g))
          \<or> list_ex (\<lambda>(k, v). v \<noteq> kp_version p) (gr_versions g))
      then (False, invalidate_all g)
      else (key \<in> set (map fst (gr_graphs g)), g))"

definition capture_one :: "'v kv_pool \<Rightarrow> bucket \<Rightarrow> graph_runner \<Rightarrow> graph_runner res" where
  "capture_one p key g =
     (case key of (bcap, cross_bucket, accept_bucket) \<Rightarrow>
        if bcap \<notin> set (gr_capture_bs g) \<or> cross_bucket \<notin> set (gr_cross g) \<or> accept_bucket \<notin> set (gr_accept g)
        then Inl RuntimeError
        else if key \<in> set (map fst (gr_graphs g)) then Inr g
        else
          res_bind (enter_capture p) (\<lambda>_.
          Inr (g\<lparr>gr_graphs := AList.update key (kp_size p) (gr_graphs g),
                 gr_versions := AList.update key (kp_version p) (gr_versions g)\<rparr>)))"

text \<open>\<open>replay\<close> returns the storage the replayed graph reads; a stale graph is dropped and raises.\<close>

definition replay :: "'v kv_pool \<Rightarrow> bucket \<Rightarrow> graph_runner \<Rightarrow> int res \<times> graph_runner" where
  "replay p key g =
     (case map_of (gr_graphs g) key of
        None \<Rightarrow> (Inl RuntimeError, g)
      | Some storage \<Rightarrow>
          (case map_of (gr_versions g) key of
             None \<Rightarrow> (Inl KeyError, g)
           | Some v \<Rightarrow> if v \<noteq> kp_version p then (Inl RuntimeError, invalidate_all g) else (Inr storage, g)))"

text \<open>The use of the runner by the worker: capture the bucket when it cannot run, then replay.\<close>

definition run_bucket :: "'v kv_pool \<Rightarrow> bucket \<Rightarrow> graph_runner \<Rightarrow> int res \<times> graph_runner" where
  "run_bucket p key g =
     (case can_run p key g of (ok, g1) \<Rightarrow>
        if ok then replay p key g1
        else (case capture_one p key g1 of Inl e \<Rightarrow> (Inl e, g1) | Inr g2 \<Rightarrow> replay p key g2))"

text \<open>\<open>precapture_up_to\<close>: every bucket combination with a slot capacity up to the given one, in order.\<close>

definition precapture_keys :: "nat \<Rightarrow> graph_runner \<Rightarrow> bucket list" where
  "precapture_keys max_cross_bucket g =
     concat (map (\<lambda>b. concat (map (\<lambda>c. if c \<le> max_cross_bucket then map (\<lambda>a. (b, c, a)) (gr_accept g) else [])
        (gr_cross g))) (gr_capture_bs g))"

fun capture_all :: "'v kv_pool \<Rightarrow> bucket list \<Rightarrow> graph_runner \<Rightarrow> graph_runner res" where
  "capture_all p [] g = Inr g"
| "capture_all p (key # keys) g = res_bind (capture_one p key g) (capture_all p keys)"

definition precapture_up_to :: "'v kv_pool \<Rightarrow> int \<Rightarrow> graph_runner \<Rightarrow> graph_runner res" where
  "precapture_up_to p max_cross_bucket g =
     (if max_cross_bucket \<le> 0 then Inr g else capture_all p (precapture_keys (nat max_cross_bucket) g) g)"

section \<open>The fixed-capacity inputs of a graph\<close>

record 'v graph_inputs =
  gi_hidden :: "'v list list list"
  gi_tokens :: "int list list"
  gi_pos_ids :: "int list list"
  gi_cross_loc :: "int list list"
  gi_cross_mask :: "bool list list"
  gi_n_per_req :: "int list"

definition shape2 :: "nat \<Rightarrow> nat \<Rightarrow> 'a list list \<Rightarrow> bool" where
  "shape2 rows columns t \<longleftrightarrow> length t = rows \<and> (\<forall>r\<in>set t. length r = columns)"

definition shape3 :: "nat \<Rightarrow> nat \<Rightarrow> nat \<Rightarrow> 'a list list list \<Rightarrow> bool" where
  "shape3 a b c t \<longleftrightarrow> length t = a \<and> (\<forall>m\<in>set t. shape2 b c m)"

text \<open>The buffers of a bucket as \<open>capture_one\<close> makes them: zeros, and one position per dummy request.\<close>

definition new_inputs :: "nat \<Rightarrow> nat \<Rightarrow> bucket \<Rightarrow> 'v::zero graph_inputs" where
  "new_inputs hidden3 K key =
     (case key of (bcap, cross_bucket, accept_bucket) \<Rightarrow>
        \<lparr>gi_hidden = replicate bcap (replicate accept_bucket (replicate hidden3 0)),
         gi_tokens = replicate bcap (replicate accept_bucket 0),
         gi_pos_ids = replicate bcap (replicate (accept_bucket * K) 0),
         gi_cross_loc = replicate bcap (replicate cross_bucket 0),
         gi_cross_mask = replicate bcap (replicate cross_bucket False),
         gi_n_per_req = replicate bcap 1\<rparr>)"

text \<open>\<open>t[n:].zero_()\<close> followed by \<open>t[:n].copy_(new)\<close>.\<close>

definition put_active :: "('a \<Rightarrow> 'a) \<Rightarrow> nat \<Rightarrow> 'a list \<Rightarrow> 'a list \<Rightarrow> 'a list" where
  "put_active clear n new t = new @ (if n < length t then map clear (drop n t) else [])"

definition copy_inputs ::
    "nat \<Rightarrow> nat \<Rightarrow> 'v::zero graph_inputs \<Rightarrow> 'v graph_inputs \<Rightarrow> bucket \<times> nat \<Rightarrow> 'v graph_inputs res" where
  "copy_inputs K n x buf = (\<lambda>((bcap, cross_bucket, accept_bucket), hidden3).
     if \<not> (0 < n \<and> n \<le> bcap) then Inl RuntimeError
     else if \<not> shape3 n accept_bucket hidden3 (gi_hidden x) then Inl RuntimeError
     else if \<not> shape2 n accept_bucket (gi_tokens x) then Inl RuntimeError
     else if \<not> shape2 n (accept_bucket * K) (gi_pos_ids x) then Inl RuntimeError
     else if \<not> shape2 n cross_bucket (gi_cross_loc x) then Inl RuntimeError
     else if \<not> shape2 n cross_bucket (gi_cross_mask x) then Inl RuntimeError
     else if length (gi_n_per_req x) \<noteq> n then Inl RuntimeError
     else Inr \<lparr>gi_hidden = put_active (map (map (\<lambda>_. 0))) n (gi_hidden x) (gi_hidden buf),
               gi_tokens = put_active (map (\<lambda>_. 0)) n (gi_tokens x) (gi_tokens buf),
               gi_pos_ids = put_active (map (\<lambda>_. 0)) n (gi_pos_ids x) (gi_pos_ids buf),
               gi_cross_loc = put_active (map (\<lambda>_. 0)) n (gi_cross_loc x) (gi_cross_loc buf),
               gi_cross_mask = put_active (map (\<lambda>_. False)) n (gi_cross_mask x) (gi_cross_mask buf),
               gi_n_per_req = put_active (\<lambda>_. 1) n (gi_n_per_req x) (gi_n_per_req buf)\<rparr>)"

section \<open>Buckets\<close>

lemma resolve_first_SomeD: "resolve_first bs n = Some b \<Longrightarrow> b \<in> set bs \<and> n \<le> b"
  by (auto simp: resolve_first_def find_Some_iff)

lemma resolve_first_least: "resolve_first bs n = Some b \<Longrightarrow> sorted bs \<Longrightarrow> c \<in> set bs \<Longrightarrow> n \<le> c \<Longrightarrow> b \<le> c"
  by (induction bs) (auto simp: resolve_first_def split: if_splits)

lemma resolve_first_None: "resolve_first bs n = None \<longleftrightarrow> (\<forall>b\<in>set bs. b < n)"
  by (auto simp: resolve_first_def find_None_iff not_le)

lemma capture_sizes_ok:
  "0 < c \<Longrightarrow> sorted (capture_sizes c m) \<and> m \<in> set (capture_sizes c m) \<and> (\<forall>b\<in>set (capture_sizes c m). b \<le> m \<and> min c m \<le> b)"
proof (induction c m rule: capture_sizes.induct)
  case (1 c m)
  show ?case
  proof (cases "c < m")
    case True
    note IH = "1.IH"[OF conjI[OF "1.prems" True]]
    have e: "capture_sizes c m = c # capture_sizes (2 * c) m" using True "1.prems" by (subst capture_sizes.simps) simp
    have "\<forall>b\<in>set (capture_sizes (2 * c) m). c \<le> b"
    proof
      fix b assume "b \<in> set (capture_sizes (2 * c) m)"
      then have "min (2 * c) m \<le> b" using IH "1.prems" by simp
      then show "c \<le> b" using True by simp
    qed
    then show ?thesis using IH "1.prems" True unfolding e by auto
  next
    case False
    then have "capture_sizes c m = [m]" by (subst capture_sizes.simps) simp
    then show ?thesis by simp
  qed
qed

text \<open>The buffers of a bucket keep their shape, and after a copy they hold nothing of an earlier replay.\<close>

definition inputs_ok :: "nat \<Rightarrow> nat \<Rightarrow> bucket \<Rightarrow> 'v graph_inputs \<Rightarrow> bool" where
  "inputs_ok hidden3 K key x \<longleftrightarrow>
     (case key of (bcap, cross_bucket, accept_bucket) \<Rightarrow>
        shape3 bcap accept_bucket hidden3 (gi_hidden x) \<and> shape2 bcap accept_bucket (gi_tokens x)
        \<and> shape2 bcap (accept_bucket * K) (gi_pos_ids x) \<and> shape2 bcap cross_bucket (gi_cross_loc x)
        \<and> shape2 bcap cross_bucket (gi_cross_mask x) \<and> length (gi_n_per_req x) = bcap)"

lemma new_inputs_ok: "inputs_ok hidden3 K key (new_inputs hidden3 K key)"
  by (auto simp: inputs_ok_def new_inputs_def shape2_def shape3_def split: prod.splits)

lemma map_const_shape: "length r = c \<Longrightarrow> map (\<lambda>_. z) r = replicate c z"
  by (simp add: map_replicate_const)

lemma put_active_shape2:
  assumes "shape2 b c t" "n \<le> b"
  shows "put_active (map (\<lambda>_. z)) n new t = new @ replicate (b - n) (replicate c z)"
proof -
  have "map (map (\<lambda>_. z)) (drop n t) = replicate (b - n) (replicate c z)"
    using assms by (intro nth_equalityI) (auto simp: shape2_def map_replicate_const)
  then show ?thesis using assms by (auto simp: put_active_def shape2_def)
qed

lemma put_active_shape3:
  assumes "shape3 b m c t" "n \<le> b"
  shows "put_active (map (map (\<lambda>_. z))) n new t = new @ replicate (b - n) (replicate m (replicate c z))"
proof -
  have row: "map (map (\<lambda>_. z)) x = replicate m (replicate c z)" if "x \<in> set t" for x
    using that assms(1) by (intro nth_equalityI) (auto simp: shape3_def shape2_def map_replicate_const)
  have "map (map (map (\<lambda>_. z))) (drop n t) = replicate (b - n) (replicate m (replicate c z))"
  proof (rule nth_equalityI)
    fix i assume "i < length (map (map (map (\<lambda>_. z))) (drop n t))"
    then show "map (map (map (\<lambda>_. z))) (drop n t) ! i = replicate (b - n) (replicate m (replicate c z)) ! i"
      using assms row[of "t ! (n + i)"] by (simp add: shape3_def)
  qed (use assms in \<open>simp add: shape3_def\<close>)
  then show ?thesis using assms by (auto simp: put_active_def shape3_def)
qed

lemma put_active_list: "length t = b \<Longrightarrow> n \<le> b \<Longrightarrow> put_active (\<lambda>_. z) n new t = new @ replicate (b - n) z"
  by (auto simp: put_active_def map_replicate_const)

section \<open>No graph is replayed against a replaced storage\<close>

definition runner_ok :: "'v kv_pool \<Rightarrow> graph_runner \<Rightarrow> bool" where
  "runner_ok p g \<longleftrightarrow>
     distinct (map fst (gr_graphs g)) \<and> map fst (gr_versions g) = map fst (gr_graphs g)
     \<and> (\<forall>key storage v. map_of (gr_graphs g) key = Some storage \<longrightarrow> map_of (gr_versions g) key = Some v \<longrightarrow>
          v \<le> kp_version p \<and> (v = kp_version p \<longrightarrow> storage = kp_size p))"

lemma runner_okD:
  "runner_ok p g \<Longrightarrow> map_of (gr_graphs g) key = Some storage \<Longrightarrow> map_of (gr_versions g) key = Some v \<Longrightarrow>
     v \<le> kp_version p \<and> (v = kp_version p \<longrightarrow> storage = kp_size p)"
  unfolding runner_ok_def by blast

text \<open>The steps that involve the runner or the storage of the pool, in any order.\<close>

inductive runner_step :: "'v::zero kv_pool \<times> graph_runner \<Rightarrow> 'v kv_pool \<times> graph_runner \<Rightarrow> bool" where
  allocated: "kv_alloc n p = Inr (ids, q) \<Longrightarrow> runner_step (p, g) (q, g)"
| released: "runner_step (p, g) (kv_free ids p, g)"
| reset: "runner_step (p, g) (kv_reset p, g)"
| entered: "enter_capture p = Inr q \<Longrightarrow> runner_step (p, g) (q, g)"
| left: "runner_step (p, g) (exit_capture p, g)"
| checked: "can_run p key g = (ok, g') \<Longrightarrow> runner_step (p, g) (p, g')"
| captured: "capture_one p key g = Inr g' \<Longrightarrow> runner_step (p, g) (p, g')"
| replayed: "replay p key g = (r, g') \<Longrightarrow> runner_step (p, g) (p, g')"

inductive runner_reach :: "'v::zero kv_pool \<Rightarrow> graph_runner \<Rightarrow> 'v kv_pool \<times> graph_runner \<Rightarrow> bool" for p0 g0 where
  init: "runner_reach p0 g0 (p0, g0)"
| step: "runner_reach p0 g0 s \<Longrightarrow> runner_step s s' \<Longrightarrow> runner_reach p0 g0 s'"

inductive_cases runner_stepE: "runner_step s s'"

text \<open>An allocation keeps the storage and its version, or replaces both by larger ones.\<close>

lemma kv_grow_version:
  "kv_grow m p = Inr q \<Longrightarrow> q = p \<or> kp_version q = kp_version p + 1"
  by (auto simp: kv_grow_def Let_def split: if_splits)

lemma kv_alloc_version:
  assumes "kv_alloc n p = Inr (ids, q)"
  shows "kp_version q = kp_version p \<and> kp_size q = kp_size p \<or> kp_version q = kp_version p + 1"
proof (cases "0 < n")
  case True
  obtain r where "r = p \<and> n \<le> int (length (kp_free p))
      \<or> int (length (kp_free p)) < n \<and> \<not> kp_capture p \<and> kv_grow (kp_size p + max n GROW_CHUNK) p = Inr r"
      "q = r\<lparr>kp_free := drop (nat n) (kp_free r), kp_n_alloc := kp_n_alloc r + n,
           kp_high_water := max (kp_high_water r) (kp_n_alloc r + n)\<rparr>"
    using kv_alloc_cases[OF assms True] by metis
  then show ?thesis using kv_grow_version[of "kp_size p + max n GROW_CHUNK" p r] by auto
qed (use assms in \<open>auto simp: kv_alloc_def\<close>)

lemma runner_ok_pool:
  assumes "runner_ok p g" "kp_version q = kp_version p \<and> kp_size q = kp_size p \<or> kp_version q = kp_version p + 1"
  shows "runner_ok q g"
  using assms unfolding runner_ok_def by fastforce

lemma runner_ok_invalidate: "runner_ok p (invalidate_all g)"
  by (simp add: runner_ok_def invalidate_all_def)

lemma capture_one_new:
  assumes "capture_one p key g = Inr g'" "key \<notin> set (map fst (gr_graphs g))"
  shows "g' = g\<lparr>gr_graphs := AList.update key (kp_size p) (gr_graphs g),
                 gr_versions := AList.update key (kp_version p) (gr_versions g)\<rparr>"
  using assms by (auto simp: capture_one_def split: prod.splits if_splits)

lemma runner_ok_capture:
  assumes "runner_ok p g" "capture_one p key g = Inr g'"
  shows "runner_ok p g'"
proof (cases "key \<in> set (map fst (gr_graphs g))")
  case True
  then have "g' = g" using assms(2) by (auto simp: capture_one_def split: prod.splits if_splits)
  then show ?thesis using assms(1) by simp
next
  case False
  note g' = capture_one_new[OF assms(2) False]
  have "distinct (map fst (AList.update key (kp_size p) (gr_graphs g)))"
    using assms(1) by (intro distinct_update) (simp add: runner_ok_def)
  moreover have "map fst (AList.update key (kp_version p) (gr_versions g)) = map fst (AList.update key (kp_size p) (gr_graphs g))"
    using assms(1) by (simp add: runner_ok_def update_keys)
  ultimately show ?thesis using assms(1) unfolding g' runner_ok_def by (auto simp: update_conv' split: if_splits)
qed

lemma runner_step_ok: "runner_step s s' \<Longrightarrow> runner_ok (fst s) (snd s) \<Longrightarrow> runner_ok (fst s') (snd s')"
proof (induction rule: runner_step.induct)
  case (allocated n p ids q g)
  then show ?case using runner_ok_pool[OF _ kv_alloc_version[OF allocated(1)]] by simp
next
  case (released p g ids)
  then show ?case using runner_ok_pool[of p g "kv_free ids p"] by (simp add: kv_free_def)
next
  case (reset p g)
  then show ?case using runner_ok_pool[of p g "kv_reset p"] by (simp add: kv_reset_def)
next
  case (entered p q g)
  then show ?case using runner_ok_pool[of p g q] by (auto simp: enter_capture_def split: if_splits)
next
  case (left p g)
  then show ?case using runner_ok_pool[of p g "exit_capture p"] by (simp add: exit_capture_def)
next
  case (checked p key g ok g')
  then show ?case by (auto simp: can_run_def runner_ok_invalidate split: if_splits)
next
  case (captured p key g g')
  then show ?case using runner_ok_capture by simp
next
  case (replayed p key g r g')
  then show ?case by (auto simp: replay_def runner_ok_invalidate split: option.splits if_splits)
qed

lemma runner_reach_ok: "runner_reach p0 g0 s \<Longrightarrow> runner_ok p0 g0 \<Longrightarrow> runner_ok (fst s) (snd s)"
  by (induction rule: runner_reach.induct) (auto dest: runner_step_ok)

lemma runner_ok_init: "runner_ok p (runner_init bs metax)"
  by (simp add: runner_ok_def runner_init_def Let_def)

lemma replay_current: "runner_ok p g \<Longrightarrow> replay p key g = (Inr storage, g') \<Longrightarrow> storage = kp_size p"
  by (auto simp: replay_def split: option.splits if_splits dest: runner_okD)

text \<open>The buckets are never changed by a step, and a resolved bucket can always be captured.\<close>

lemma runner_step_buckets:
  "runner_step s s' \<Longrightarrow> gr_capture_bs (snd s') = gr_capture_bs (snd s) \<and> gr_cross (snd s') = gr_cross (snd s)
    \<and> gr_accept (snd s') = gr_accept (snd s)"
  by (erule runner_stepE)
    (auto simp: can_run_def capture_one_def replay_def invalidate_all_def split: if_splits prod.splits option.splits)

lemma run_bucket_ok:
  assumes ok: "runner_ok p g" and key: "resolve_buckets g n c a = Some key" and free: "\<not> kp_capture p"
  shows "\<exists>g'. run_bucket p key g = (Inr (kp_size p), g') \<and> runner_ok p g'"
proof -
  obtain b cb ab where k: "key = (b, cb, ab)" by (cases key)
  have mem: "b \<in> set (gr_capture_bs g)" "cb \<in> set (gr_cross g)" "ab \<in> set (gr_accept g)"
    using key resolve_first_SomeD unfolding resolve_buckets_def k by (auto split: option.splits)
  have keys: "map_of (gr_graphs g) key = Some s \<Longrightarrow> \<exists>v. map_of (gr_versions g) key = Some v" for s
    using ok by (metis map_of_SomeD map_of_eq_None_iff not_Some_eq option.distinct(1) runner_ok_def set_map)
  obtain can g1 where c: "can_run p key g = (can, g1)" by (cases "can_run p key g")
  show ?thesis
  proof (cases can)
    case True
    then have g1: "g1 = g" and cur: "list_all (\<lambda>(k, v). v = kp_version p) (gr_versions g)" and kin: "key \<in> set (map fst (gr_graphs g))"
      using c by (auto simp: can_run_def list_all_iff list_ex_iff split: if_splits)
    then obtain s where s: "map_of (gr_graphs g) key = Some s" by (metis map_of_eq_None_iff not_Some_eq set_map)
    then obtain v where v: "map_of (gr_versions g) key = Some v" using keys by blast
    then have "v = kp_version p" using cur by (auto simp: list_all_iff dest!: map_of_SomeD)
    moreover from this have "s = kp_size p" using runner_okD[OF ok s v] by simp
    ultimately show ?thesis using s v c True ok g1 by (simp add: run_bucket_def replay_def)
  next
    case False
    have ok1: "runner_ok p g1" using c ok by (auto simp: can_run_def runner_ok_invalidate split: if_splits)
    have nin: "key \<notin> set (map fst (gr_graphs g1))"
      using c False by (auto simp: can_run_def invalidate_all_def split: if_splits)
    have same: "gr_capture_bs g1 = gr_capture_bs g" "gr_cross g1 = gr_cross g" "gr_accept g1 = gr_accept g"
      using c by (auto simp: can_run_def invalidate_all_def split: if_splits)
    let ?g2 = "g1\<lparr>gr_graphs := AList.update key (kp_size p) (gr_graphs g1),
                 gr_versions := AList.update key (kp_version p) (gr_versions g1)\<rparr>"
    have cap: "capture_one p key g1 = Inr ?g2"
      using mem same nin free by (auto simp: capture_one_def k enter_capture_def)
    have "replay p key ?g2 = (Inr (kp_size p), ?g2)" by (simp add: replay_def update_conv')
    then show ?thesis using c False cap runner_ok_capture[OF ok1 cap] by (simp add: run_bucket_def)
  qed
qed
section \<open>Properties\<close>

text \<open>
  C35.  A captured graph is never replayed against storage that has been replaced.  From a state
  with no captured graph, after any interleaving of allocations, releases, resets, captures,
  checks and replays, a replay that succeeds reads the current storage of the pool: growing the
  pool makes every earlier graph unusable until it is captured again.
\<close>

theorem replay_never_stale:
  assumes "runner_reach p (runner_init bs metax) (q, g)" "replay q key g = (Inr storage, g')"
  shows "storage = kp_size q"
  using replay_current[OF _ assms(2)] runner_reach_ok[OF assms(1) runner_ok_init] by simp

definition witness_runner :: graph_runner where
  "witness_runner = runner_init [2] False"

theorem replay_never_stale_witness:
  "\<exists>g g'. runner_reach witness_pool witness_runner (witness_pool, g) \<and> replay witness_pool (1, 32, 2) g = (Inr 6, g')
    \<and> (6 :: int) = kp_size witness_pool"
proof -
  have "\<exists>g. capture_one witness_pool (1, 32, 2) witness_runner = Inr g"
    by (simp add: capture_one_def witness_runner_def runner_init_def Let_def capture_sizes.simps enter_capture_def
        witness_pool_def CROSS_BUCKETS_def ACCEPT_BUCKETS_def MAX_BATCH_CAPACITY_def)
  then obtain g where g: "capture_one witness_pool (1, 32, 2) witness_runner = Inr g" by blast
  have "g = witness_runner\<lparr>gr_graphs := [((1, 32, 2), 6)], gr_versions := [((1, 32, 2), 0)]\<rparr>"
    using capture_one_new[OF g] by (simp add: witness_runner_def runner_init_def Let_def witness_pool_def)
  then have r: "replay witness_pool (1, 32, 2) g = (Inr 6, g)" by (simp add: replay_def witness_pool_def)
  have reach: "runner_reach witness_pool witness_runner (witness_pool, g)"
    by (rule runner_reach.step[OF runner_reach.init captured[OF g]])
  show ?thesis using replay_never_stale[OF reach[unfolded witness_runner_def] r] reach r by blast
qed

text \<open>
  C36.  The refresh step always makes progress: in every reachable state outside a capture, for
  every batch size covered by a capacity of the runner, every slot count up to 16384 and every
  path length up to 16, checking, capturing if needed and replaying succeeds on the current
  storage -- whatever the pool did before -- and each of the three buckets it uses is the least of
  the runner's capacities that covers the request.
\<close>

theorem refresh_always_replays:
  assumes "runner_reach p (runner_init bs metax) (q, g)" "\<not> kp_capture q"
    and "n \<in> {1..x}" "x \<in> set (gr_capture_bs g)" "c \<le> 16384" "a \<le> 16"
  shows "\<exists>b cb ab g'. resolve_buckets g n c a = Some (b, cb, ab) \<and> run_bucket q (b, cb, ab) g = (Inr (kp_size q), g')
    \<and> (b \<in> set (gr_capture_bs g) \<and> n \<le> b \<and> (\<forall>y\<in>set (gr_capture_bs g). n \<le> y \<longrightarrow> b \<le> y))
    \<and> (cb \<in> set (gr_cross g) \<and> c \<le> cb \<and> (\<forall>y\<in>set (gr_cross g). c \<le> y \<longrightarrow> cb \<le> y))
    \<and> (ab \<in> set (gr_accept g) \<and> a \<le> ab \<and> (\<forall>y\<in>set (gr_accept g). a \<le> y \<longrightarrow> ab \<le> y))"
proof -
  have ok: "runner_ok q g" using runner_reach_ok[OF assms(1) runner_ok_init] by simp
  have same: "gr_capture_bs g = gr_capture_bs (runner_init bs metax) \<and> gr_cross g = gr_cross (runner_init bs metax)
      \<and> gr_accept g = gr_accept (runner_init bs metax)"
    using assms(1)
  proof (induction "(q, g)" arbitrary: q g rule: runner_reach.induct)
    case (step s)
    then show ?case using runner_step_buckets[OF step(3)] by (cases s) auto
  qed simp
  define m where "m = min (if map nat (filter (\<lambda>b. 0 < b) bs) = [] then 1 else Max (set (map nat (filter (\<lambda>b. 0 < b) bs)))) MAX_BATCH_CAPACITY"
  have cb: "gr_capture_bs g = capture_sizes 1 m" "gr_cross g = CROSS_BUCKETS" "gr_accept g = (if metax then [1..<17] else ACCEPT_BUCKETS)"
    using same by (simp_all add: runner_init_def Let_def m_def)
  have srt: "sorted (gr_capture_bs g)" "sorted (gr_cross g)" "sorted (gr_accept g)"
    unfolding cb using capture_sizes_ok[of 1 m] by (simp_all add: CROSS_BUCKETS_def ACCEPT_BUCKETS_def)
  have "resolve_first (gr_capture_bs g) n \<noteq> None" using assms(3,4) unfolding resolve_first_None by (metis atLeastAtMost_iff not_le)
  moreover have "resolve_first (gr_cross g) c \<noteq> None" using assms(5) unfolding resolve_first_None cb(2) by (auto simp: CROSS_BUCKETS_def not_less)
  moreover have "resolve_first (gr_accept g) a \<noteq> None" using assms(6) unfolding resolve_first_None cb(3)
    by (auto simp: ACCEPT_BUCKETS_def not_less intro!: bexI[of _ 16])
  ultimately obtain b cb ab where r: "resolve_first (gr_capture_bs g) n = Some b" "resolve_first (gr_cross g) c = Some cb"
      "resolve_first (gr_accept g) a = Some ab" by blast
  have key: "resolve_buckets g n c a = Some (b, cb, ab)" using r by (simp add: resolve_buckets_def)
  note least = resolve_first_least[OF r(1) srt(1)] resolve_first_least[OF r(2) srt(2)] resolve_first_least[OF r(3) srt(3)]
  show ?thesis using run_bucket_ok[OF ok key assms(2)] key r[THEN resolve_first_SomeD] least by blast
qed

theorem refresh_always_replays_witness:
  "\<exists>g'. resolve_buckets witness_runner 2 40 3 = Some (2, 64, 4)
     \<and> run_bucket witness_pool (2, 64, 4) witness_runner = (Inr (kp_size witness_pool), g')"
proof -
  have reach: "runner_reach witness_pool (runner_init [2] False) (witness_pool, witness_runner)"
    unfolding witness_runner_def by (rule runner_reach.init)
  have "(2 :: nat) \<in> set (gr_capture_bs witness_runner)" "resolve_buckets witness_runner 2 40 3 = Some (2, 64, 4)"
    by (simp_all add: witness_runner_def runner_init_def Let_def capture_sizes.simps MAX_BATCH_CAPACITY_def
        resolve_buckets_def resolve_first_def CROSS_BUCKETS_def ACCEPT_BUCKETS_def)
  moreover have "\<not> kp_capture witness_pool" by (simp add: witness_pool_def)
  ultimately show ?thesis using refresh_always_replays[OF reach, of 2 2 40 3] by auto
qed

text \<open>
  C37.  A replay never sees data of an earlier one.  The copy into the fixed-capacity buffers of a
  bucket succeeds exactly when the batch is non-empty, within the capacity, and every input has the
  shape of the bucket (the only error is \<open>RuntimeError\<close>); then the buffers hold the inputs
  followed by dummy requests that are zero, masked and one position long, whatever the buffers
  held before, and they keep the shape of the bucket.
\<close>

theorem copy_inputs_sanitizes:
  assumes "inputs_ok hidden3 K (b, c, a) buf"
  shows "case copy_inputs K n x buf ((b, c, a), hidden3) of
      Inl e \<Rightarrow> e = RuntimeError \<and> (n = 0 \<or> b < n \<or> \<not> inputs_ok hidden3 K (n, c, a) x)
    | Inr y \<Rightarrow> 0 < n \<and> n \<le> b \<and> inputs_ok hidden3 K (n, c, a) x \<and> inputs_ok hidden3 K (b, c, a) y
        \<and> gi_hidden y = gi_hidden x @ replicate (b - n) (replicate a (replicate hidden3 0))
        \<and> gi_tokens y = gi_tokens x @ replicate (b - n) (replicate a 0)
        \<and> gi_pos_ids y = gi_pos_ids x @ replicate (b - n) (replicate (a * K) 0)
        \<and> gi_cross_loc y = gi_cross_loc x @ replicate (b - n) (replicate c 0)
        \<and> gi_cross_mask y = gi_cross_mask x @ replicate (b - n) (replicate c False)
        \<and> gi_n_per_req y = gi_n_per_req x @ replicate (b - n) 1"
proof (cases "0 < n \<and> n \<le> b \<and> inputs_ok hidden3 K (n, c, a) x")
  case True
  have sh: "shape3 b a hidden3 (gi_hidden buf)" "shape2 b a (gi_tokens buf)" "shape2 b (a * K) (gi_pos_ids buf)"
    "shape2 b c (gi_cross_loc buf)" "shape2 b c (gi_cross_mask buf)" "length (gi_n_per_req buf) = b"
    using assms by (simp_all add: inputs_ok_def)
  let ?y = "\<lparr>gi_hidden = gi_hidden x @ replicate (b - n) (replicate a (replicate hidden3 0)),
      gi_tokens = gi_tokens x @ replicate (b - n) (replicate a 0),
      gi_pos_ids = gi_pos_ids x @ replicate (b - n) (replicate (a * K) 0),
      gi_cross_loc = gi_cross_loc x @ replicate (b - n) (replicate c 0),
      gi_cross_mask = gi_cross_mask x @ replicate (b - n) (replicate c False),
      gi_n_per_req = gi_n_per_req x @ replicate (b - n) 1\<rparr>"
  have "copy_inputs K n x buf ((b, c, a), hidden3) = Inr ?y"
    using True sh by (simp add: copy_inputs_def inputs_ok_def put_active_shape2 put_active_shape3 put_active_list)
  moreover have "inputs_ok hidden3 K (b, c, a) ?y"
    using True by (auto simp: inputs_ok_def shape2_def shape3_def)
  ultimately show ?thesis using True by simp
next
  case False
  then have "copy_inputs K n x buf ((b, c, a), hidden3) = Inl RuntimeError"
    by (auto simp: copy_inputs_def inputs_ok_def)
  then show ?thesis using False by (auto simp: not_le)
qed

theorem copy_inputs_sanitizes_witness:
  "\<exists>y. copy_inputs 1 1 \<lparr>gi_hidden = [[[7]]], gi_tokens = [[5]], gi_pos_ids = [[3]], gi_cross_loc = [[4, 0]],
        gi_cross_mask = [[True, False]], gi_n_per_req = [1]\<rparr> (new_inputs 1 1 (2, 2, 1)) ((2, 2, 1), 1) = Inr (y :: int graph_inputs)
     \<and> gi_tokens y = [[5], [0]] \<and> gi_cross_mask y = [[True, False], [False, False]]"
proof -
  let ?x = "\<lparr>gi_hidden = [[[7]]], gi_tokens = [[5]], gi_pos_ids = [[3]], gi_cross_loc = [[4, 0]],
        gi_cross_mask = [[True, False]], gi_n_per_req = [1]\<rparr> :: int graph_inputs"
  have "inputs_ok 1 1 (1, 2, 1) ?x" by (simp add: inputs_ok_def shape2_def shape3_def)
  note spec = copy_inputs_sanitizes[OF new_inputs_ok[of 1 1 "(2, 2, 1)"], where n = 1 and x = ?x]
  show ?thesis
  proof (cases "copy_inputs 1 1 ?x (new_inputs 1 1 (2, 2, 1)) ((2, 2, 1), 1)")
    case (Inl e)
    then show ?thesis using spec \<open>inputs_ok 1 1 (1, 2, 1) ?x\<close> by simp
  next
    case (Inr y)
    then have "gi_tokens y = [[5], [0]]" "gi_cross_mask y = [[True, False], [False, False]]"
      using spec by (simp_all add: numeral_2_eq_2)
    then show ?thesis using Inr by blast
  qed
qed

end
