(* ===== verification/Cross_State.thy ===== *)
theory Cross_State
  imports KV_Pool Refresh_Plan Refresh_Graphs
begin

text \<open>
  The per-request cross-attention state of the paged worker and the operations that move pool
  slots between requests: filtering, merging and releasing the state of a batch
  (\<open>SpecBlockDraftInput\<close> and \<open>SpecBlockVerifyInput\<close> in \<open>specblock_info.py\<close>), the transfer of a dense
  prefill cache into the pool and the refresh after verification (\<open>specblock_worker.py\<close>).
  An operation that raises returns its error together with the state it left behind.
\<close>

section \<open>State and errors\<close>

type_synonym ('a, 's) st = "'s \<Rightarrow> 'a res \<times> 's"

definition st_bind :: "('a, 's) st \<Rightarrow> ('a \<Rightarrow> ('b, 's) st) \<Rightarrow> ('b, 's) st" where
  "st_bind m f s = (case m s of (Inl e, t) \<Rightarrow> (Inl e, t) | (Inr x, t) \<Rightarrow> f x t)"

definition st_res :: "'a res \<Rightarrow> ('a, 's) st" where
  "st_res r s = (r, s)"

text \<open>A fallible update that leaves the state alone when it raises.\<close>

definition st_update :: "('s \<Rightarrow> ('a \<times> 's) res) \<Rightarrow> ('a, 's) st" where
  "st_update f s = (case f s of Inl e \<Rightarrow> (Inl e, s) | Inr (x, t) \<Rightarrow> (Inr x, t))"

definition on_fst :: "('a, 's) st \<Rightarrow> ('a, 's \<times> 't) st" where
  "on_fst m = (\<lambda>(s, t). case m s of (r, s') \<Rightarrow> (r, s', t))"

lemma st_bind_Inr [simp]: "st_bind m f s = (Inr y, u) \<longleftrightarrow> (\<exists>x t. m s = (Inr x, t) \<and> f x t = (Inr y, u))"
  by (auto simp: st_bind_def split: prod.splits sum.splits)

lemma st_bindI: "m s = (Inr x, t) \<Longrightarrow> st_bind m f s = f x t"
  by (simp add: st_bind_def)

lemma st_bindE:
  assumes "st_bind m f s = (Inr y, u)"
  obtains x t where "m s = (Inr x, t)" "f x t = (Inr y, u)"
  using assms by auto

lemma st_bind_Inl:
  "st_bind m f s = (Inl e, u) \<longleftrightarrow> m s = (Inl e, u) \<or> (\<exists>x t. m s = (Inr x, t) \<and> f x t = (Inl e, u))"
  by (auto simp: st_bind_def split: prod.splits sum.splits)

lemma st_res_eq [simp]: "st_res r s = (x, t) \<longleftrightarrow> r = x \<and> s = t"
  by (auto simp: st_res_def)

lemma st_update_Inr [simp]: "st_update f s = (Inr x, t) \<longleftrightarrow> f s = Inr (x, t)"
  by (auto simp: st_update_def split: sum.splits)

lemma st_update_Inl [simp]: "st_update f s = (Inl e, t) \<longleftrightarrow> f s = Inl e \<and> t = s"
  by (auto simp: st_update_def split: sum.splits)

lemma on_fst_eq [simp]: "on_fst m (s, t) = (r, s', t') \<longleftrightarrow> m s = (r, s') \<and> t' = t"
  by (auto simp: on_fst_def split: prod.splits)

section \<open>The state of a batch\<close>

record 'x cross_state =
  cs_loc :: "int list list"
  cs_count :: "int list"
  cs_position :: "int list"
  cs_ttt_k :: "'x list"
  cs_ttt_v :: "'x list"
  cs_pool :: bool

text \<open>
  The draft input of the next iteration; \<open>di_future\<close> is \<open>future_indices\<close> with its interval.  A
  \<open>None\<close> field is an unset tensor.
\<close>

record ('h, 'w, 'x) draft_input = "'x cross_state" +
  di_hidden_states :: "'h list option"
  di_verified_id :: "int list option"
  di_accept_length :: "int list option"
  di_b0_logits :: "'w list option"
  di_b0_hidden :: "'w list option"
  di_b0_input_id :: "int list option"
  di_b0_rank_logits :: "'w list option"
  di_b0_top_indices :: "'w list option"
  di_future :: "(int list \<times> int \<times> int) option"

record ('h, 'r, 'x) verify_input = "'x cross_state" +
  vi_retrive_index :: "'r list option"
  vi_retrive_next_token :: "'r list option"
  vi_retrive_next_sibling :: "'r list option"
  vi_tree_parents :: "'r list option"
  vi_hidden_states :: "'h list option"
  vi_tree_sizes :: "int list option"

definition gather :: "int list \<Rightarrow> 'a list \<Rightarrow> 'a list res" where
  "gather keep xs = res_map (py_nth xs) keep"

definition gather_tensor :: "int list \<Rightarrow> 'a list option \<Rightarrow> 'a list option res" where
  "gather_tensor keep t = (case t of None \<Rightarrow> Inr None | Some xs \<Rightarrow> res_bind (gather keep xs) (\<lambda>ys. Inr (Some ys)))"

definition gather_list :: "int list \<Rightarrow> 'a list \<Rightarrow> 'a list res" where
  "gather_list keep xs = (if xs = [] then Inr [] else gather keep xs)"

text \<open>The per-request lists; dropped requests give their slots back before the lists are gathered.\<close>

definition filter_lists :: "int list \<Rightarrow> ('x, 'z) cross_state_scheme \<Rightarrow> ('x, 'z) cross_state_scheme res" where
  "filter_lists keep s =
     res_bind (gather_list keep (cs_loc s)) (\<lambda>locs.
     res_bind (gather_list keep (cs_count s)) (\<lambda>counts.
     res_bind (gather_list keep (cs_position s)) (\<lambda>position.
     res_bind (gather_list keep (cs_ttt_k s)) (\<lambda>tk.
     res_bind (gather_list keep (cs_ttt_v s)) (\<lambda>tv.
     Inr (s\<lparr>cs_loc := locs, cs_count := counts, cs_position := position, cs_ttt_k := tk, cs_ttt_v := tv\<rparr>))))))"

definition dropped_locs :: "int list \<Rightarrow> int list list \<Rightarrow> int list list" where
  "dropped_locs keep locs = map (\<lambda>i. locs ! i) (filter (\<lambda>i. int i \<notin> set keep) [0..<length locs])"

definition filter_cross ::
    "int list \<Rightarrow> ('x, 'z) cross_state_scheme \<Rightarrow> (('x, 'z) cross_state_scheme, 'v kv_pool) st" where
  "filter_cross keep s p =
     (filter_lists keep s, if cs_pool s then release_each kv_free (dropped_locs keep (cs_loc s)) p else p)"

definition filter_tensors :: "int list \<Rightarrow> ('h, 'w, 'x) draft_input \<Rightarrow> ('h, 'w, 'x) draft_input res" where
  "filter_tensors keep d =
     (case di_future d of
        Some (ids, interval) \<Rightarrow> res_bind (gather keep ids) (\<lambda>ids'. Inr (d\<lparr>di_future := Some (ids', interval)\<rparr>))
      | None \<Rightarrow>
          res_bind (gather_tensor keep (di_hidden_states d)) (\<lambda>h.
          res_bind (gather_tensor keep (di_verified_id d)) (\<lambda>v.
          res_bind (gather_tensor keep (di_accept_length d)) (\<lambda>a.
          res_bind (gather_tensor keep (di_b0_logits d)) (\<lambda>bl.
          res_bind (gather_tensor keep (di_b0_hidden d)) (\<lambda>bh.
          res_bind (gather_tensor keep (di_b0_input_id d)) (\<lambda>bi.
          res_bind (gather_tensor keep (di_b0_rank_logits d)) (\<lambda>br.
          res_bind (gather_tensor keep (di_b0_top_indices d)) (\<lambda>bt.
          Inr (d\<lparr>di_hidden_states := h, di_verified_id := v, di_accept_length := a, di_b0_logits := bl,
                 di_b0_hidden := bh, di_b0_input_id := bi, di_b0_rank_logits := br, di_b0_top_indices := bt\<rparr>))))))))))"

definition filter_batch :: "int list \<Rightarrow> ('h, 'w, 'x) draft_input \<Rightarrow> (('h, 'w, 'x) draft_input, 'v kv_pool) st" where
  "filter_batch keep d = st_bind (st_res (filter_tensors keep d)) (filter_cross keep)"

text \<open>The verify input: a tensor with fewer rows than requests are kept is left alone.\<close>

definition gather_wide :: "int list \<Rightarrow> 'a list option \<Rightarrow> 'a list option res" where
  "gather_wide keep t =
     (case t of None \<Rightarrow> Inr None | Some xs \<Rightarrow> if length keep \<le> length xs then gather_tensor keep t else Inr t)"

definition filter_sizes :: "int list \<Rightarrow> ('h, 'r, 'x) verify_input \<Rightarrow> ('h, 'r, 'x) verify_input res" where
  "filter_sizes keep v = res_bind (gather_tensor keep (vi_tree_sizes v)) (\<lambda>sizes. Inr (v\<lparr>vi_tree_sizes := sizes\<rparr>))"

definition filter_verify :: "int list \<Rightarrow> ('h, 'r, 'x) verify_input \<Rightarrow> (('h, 'r, 'x) verify_input, 'v kv_pool) st" where
  "filter_verify keep v =
     st_bind (st_res
       (res_bind (gather_wide keep (vi_retrive_index v)) (\<lambda>ri.
        res_bind (gather_wide keep (vi_retrive_next_token v)) (\<lambda>rt.
        res_bind (gather_wide keep (vi_retrive_next_sibling v)) (\<lambda>rs.
        res_bind (gather_wide keep (vi_tree_parents v)) (\<lambda>tp.
        res_bind (gather_wide keep (vi_hidden_states v)) (\<lambda>h.
        Inr (v\<lparr>vi_retrive_index := ri, vi_retrive_next_token := rt, vi_retrive_next_sibling := rs,
               vi_tree_parents := tp, vi_hidden_states := h\<rparr>)))))))) (\<lambda>w.
     st_bind (filter_cross keep w) (\<lambda>u. st_res (filter_sizes keep u)))"

definition merge_list :: "'a list \<Rightarrow> 'a list \<Rightarrow> 'a list" where
  "merge_list mine theirs = (if mine = [] then theirs else if theirs \<noteq> [] then mine @ theirs else mine)"

definition merge_tensor :: "'a list option \<Rightarrow> 'a list option \<Rightarrow> 'a list option" where
  "merge_tensor mine theirs =
     (case mine of None \<Rightarrow> theirs | Some xs \<Rightarrow> (case theirs of None \<Rightarrow> Some xs | Some ys \<Rightarrow> Some (xs @ ys)))"

definition merge_cross :: "('x, 'z) cross_state_scheme \<Rightarrow> ('x, 'y) cross_state_scheme \<Rightarrow> ('x, 'z) cross_state_scheme" where
  "merge_cross s t =
     s\<lparr>cs_pool := cs_pool s \<or> cs_pool t, cs_loc := merge_list (cs_loc s) (cs_loc t),
       cs_count := merge_list (cs_count s) (cs_count t), cs_position := merge_list (cs_position s) (cs_position t),
       cs_ttt_k := merge_list (cs_ttt_k s) (cs_ttt_k t), cs_ttt_v := merge_list (cs_ttt_v s) (cs_ttt_v t)\<rparr>"

definition merge_batch ::
    "('h, 'w, 'x) draft_input \<Rightarrow> ('h, 'w, 'x) draft_input option \<Rightarrow> ('h, 'w, 'x) draft_input res" where
  "merge_batch d other =
     (case other of
        None \<Rightarrow> Inr d
      | Some e \<Rightarrow>
          (case di_future d of
             Some (ids, interval) \<Rightarrow>
               (case di_future e of
                  None \<Rightarrow> Inr (merge_cross d e)
                | Some (ids', interval') \<Rightarrow>
                    (if ids @ ids' = [] then Inl IndexError
                     else Inr (merge_cross (d\<lparr>di_future := Some (ids @ ids', hd (ids @ ids'), last (ids @ ids') + 1)\<rparr>) e)))
           | None \<Rightarrow>
               Inr (merge_cross
                 (d\<lparr>di_hidden_states := merge_tensor (di_hidden_states d) (di_hidden_states e),
                    di_verified_id := merge_tensor (di_verified_id d) (di_verified_id e),
                    di_accept_length := merge_tensor (di_accept_length d) (di_accept_length e),
                    di_b0_logits := merge_tensor (di_b0_logits d) (di_b0_logits e),
                    di_b0_hidden := merge_tensor (di_b0_hidden d) (di_b0_hidden e),
                    di_b0_input_id := merge_tensor (di_b0_input_id d) (di_b0_input_id e),
                    di_b0_rank_logits := merge_tensor (di_b0_rank_logits d) (di_b0_rank_logits e),
                    di_b0_top_indices := merge_tensor (di_b0_top_indices d) (di_b0_top_indices e)\<rparr>) e)))"

definition merge_verify ::
    "('h, 'r, 'x) verify_input \<Rightarrow> ('h, 'r, 'x) verify_input option \<Rightarrow> ('h, 'r, 'x) verify_input" where
  "merge_verify v other =
     (case other of
        None \<Rightarrow> v
      | Some w \<Rightarrow> merge_cross (v\<lparr>vi_hidden_states := merge_tensor (vi_hidden_states v) (vi_hidden_states w)\<rparr>) w)"

definition release_resources :: "('x, 'z) cross_state_scheme \<Rightarrow> 'v kv_pool \<Rightarrow> ('x, 'z) cross_state_scheme \<times> 'v kv_pool" where
  "release_resources s p =
     (s\<lparr>cs_loc := [], cs_count := [], cs_position := [], cs_ttt_k := [], cs_ttt_v := []\<rparr>,
      if cs_pool s then release_each kv_free (cs_loc s) p else p)"

section \<open>From a dense prefill cache to the pool\<close>

text \<open>\<open>cache[0, :, :count, :].permute(1, 0, 2)\<close>: slot-major rows of a heads-major dense buffer.\<close>

definition dense_rows :: "nat \<Rightarrow> 'v list list list \<Rightarrow> 'v list list list" where
  "dense_rows n buf =
     map (\<lambda>s. map (\<lambda>head. head ! s) buf) [0..<min n (if buf = [] then 0 else length (hd buf))]"

type_synonym 'v dense_cache = "('v list list list \<times> 'v list list list) list"

fun write_dense :: "'v dense_cache \<Rightarrow> int list \<Rightarrow> nat \<Rightarrow> nat list \<Rightarrow> (unit, 'v kv_pool) st" where
  "write_dense cache indices n [] = st_res (Inr ())"
| "write_dense cache indices n (layer # layers) =
     st_bind (st_res (py_nth cache (int layer))) (\<lambda>(k, v).
     st_bind (st_update (\<lambda>p. res_bind (set_kv layer indices (dense_rows n k) (dense_rows n v) p) (\<lambda>q. Inr ((), q))))
       (\<lambda>_. write_dense cache indices n layers))"

definition dense_to_paged :: "nat \<Rightarrow> 'v::zero dense_cache \<Rightarrow> int \<Rightarrow> (int list, 'v kv_pool) st" where
  "dense_to_paged num_layers cache n =
     (if n \<le> 0 then st_res (Inr [])
      else
        st_bind (st_update (kv_alloc n)) (\<lambda>indices.
        st_bind (write_dense cache indices (nat n) [0..<num_layers]) (\<lambda>_. st_res (Inr indices))))"
text \<open>What the draft network returns for one prompt: the dense cache of every layer with its slot count.\<close>

record ('v, 'w, 'y) prefill_output =
  po_cache :: "('v list list list \<times> 'v list list list \<times> int) list"
  po_position :: int
  po_logits :: 'w
  po_rank_logits :: 'w
  po_hidden :: 'w
  po_kv :: "('y list \<times> 'y list) list"
  po_top_indices :: 'w

type_synonym ('v, 'w, 'y) prefill_net = "'v list list \<Rightarrow> int list \<Rightarrow> 'v list \<Rightarrow> int \<Rightarrow> ('v, 'w, 'y) prefill_output"

record ('v, 'w, 'y) prefilled =
  pr_loc :: "int list"
  pr_count :: int
  pr_out :: "('v, 'w, 'y) prefill_output"
  pr_first :: int
  pr_last_hidden :: "'v list"

text \<open>
  \<open>forward_draft_extend\<close>.  \<open>prefill_and_draft\<close> is the parameter \<open>net\<close>.  A prompt is not empty: the
  stacking of the last hidden rows has no row for it.
\<close>

fun extend_loop ::
    "('v::zero, 'w, 'y) prefill_net \<Rightarrow> nat \<Rightarrow> 'v list list \<Rightarrow> int list \<Rightarrow> int list \<Rightarrow> nat \<Rightarrow> nat \<Rightarrow> nat list
      \<Rightarrow> (('v, 'w, 'y) prefilled list, 'v kv_pool) st" where
  "extend_loop net num_layers hidden input_ids next_ids offset i [] = st_res (Inr [])"
| "extend_loop net num_layers hidden input_ids next_ids offset i (n # ns) =
     (let hidden_i = take n (drop offset hidden);
          prompt_i = take n (drop offset input_ids) in
      if hidden_i = [] \<or> length next_ids \<le> i then st_res (Inl RuntimeError)
      else
        (let out = net hidden_i (drop 1 prompt_i @ [next_ids ! i]) (last hidden_i) (next_ids ! i);
             n_slots = (case po_cache out of [] \<Rightarrow> 0 | (k, v, c) # _ \<Rightarrow> c) in
         st_bind (dense_to_paged num_layers (map (\<lambda>(k, v, c). (k, v)) (po_cache out)) n_slots) (\<lambda>indices.
         st_bind (extend_loop net num_layers hidden input_ids next_ids (offset + n) (Suc i) ns) (\<lambda>rest.
         st_res (Inr (\<lparr>pr_loc = indices, pr_count = n_slots, pr_out = out, pr_first = next_ids ! i,
                       pr_last_hidden = last hidden_i\<rparr> # rest))))))"

definition draft_input_of :: "int list \<Rightarrow> ('v, 'w, 'y) prefilled list \<Rightarrow> ('v list, 'w, 'y list list) draft_input" where
  "draft_input_of next_ids reqs =
     \<lparr>cs_loc = map pr_loc reqs, cs_count = map pr_count reqs, cs_position = map (\<lambda>r. po_position (pr_out r)) reqs,
      cs_ttt_k = map (\<lambda>r. map fst (po_kv (pr_out r))) reqs, cs_ttt_v = map (\<lambda>r. map snd (po_kv (pr_out r))) reqs,
      cs_pool = True, di_hidden_states = Some (map pr_last_hidden reqs), di_verified_id = Some next_ids,
      di_accept_length = Some (map (\<lambda>_. 0) reqs), di_b0_logits = Some (map (\<lambda>r. po_logits (pr_out r)) reqs),
      di_b0_hidden = Some (map (\<lambda>r. po_hidden (pr_out r)) reqs), di_b0_input_id = Some (map pr_first reqs),
      di_b0_rank_logits = Some (map (\<lambda>r. po_rank_logits (pr_out r)) reqs),
      di_b0_top_indices = Some (map (\<lambda>r. po_top_indices (pr_out r)) reqs), di_future = None\<rparr>"

definition forward_draft_extend ::
    "('v::zero, 'w, 'y) prefill_net \<Rightarrow> nat \<Rightarrow> nat \<Rightarrow> 'v list list option \<Rightarrow> int list \<Rightarrow> int list \<Rightarrow> nat list
      \<Rightarrow> (('v list, 'w, 'y list list) draft_input, 'v kv_pool) st" where
  "forward_draft_extend net num_layers hidden3 hidden input_ids next_ids extend_lens =
     (case hidden of None \<Rightarrow> st_res (Inl RuntimeError) | Some h \<Rightarrow>
        if list_ex (\<lambda>r. length r \<noteq> hidden3) h then st_res (Inl RuntimeError)
        else
          st_bind (extend_loop net num_layers h input_ids next_ids 0 0 extend_lens) (\<lambda>reqs.
          if reqs = [] then st_res (Inl RuntimeError) else st_res (Inr (draft_input_of next_ids reqs))))"

text \<open>\<open>draft\<close> carries the state of the requests into the verify input.\<close>

definition carry_state :: "('h, 'w, 'x) draft_input \<Rightarrow> ('h, 'r, 'x) verify_input \<Rightarrow> ('h, 'r, 'x) verify_input" where
  "carry_state d v =
     v\<lparr>cs_loc := cs_loc d, cs_count := cs_count d, cs_position := cs_position d, cs_ttt_k := cs_ttt_k d,
       cs_ttt_v := cs_ttt_v d, cs_pool := True, vi_hidden_states := di_hidden_states d\<rparr>"

section \<open>The refresh after verification\<close>

text \<open>\<open>row[:n] = source\<close> on a row of zeros: a source of one element is broadcast, any other length raises.\<close>

definition fill_row :: "nat \<Rightarrow> int \<Rightarrow> int list \<Rightarrow> int list res" where
  "fill_row width n source =
     (let stop = nat (if n < 0 then max 0 (int width + n) else min n (int width))
      in if length source = stop then Inr (source @ replicate (width - stop) 0)
         else if length source = 1 then Inr (replicate stop (hd source) @ replicate (width - stop) 0)
         else Inl RuntimeError)"

text \<open>\<open>xs[-n:]\<close> and \<open>xs[:-n]\<close>.\<close>

definition last_n :: "nat \<Rightarrow> 'a list \<Rightarrow> 'a list" where
  "last_n n xs = (if n = 0 then xs else drop (length xs - n) xs)"

definition but_last_n :: "nat \<Rightarrow> 'a list \<Rightarrow> 'a list" where
  "but_last_n n xs = (if n = 0 then [] else take (length xs - n) xs)"

text \<open>A request that accepted nothing gives back the slots of its failed block.\<close>

fun rollback :: "nat \<Rightarrow> nat \<Rightarrow> int list \<Rightarrow> int list list \<times> int list \<Rightarrow> (int list list \<times> int list, 'v kv_pool) st" where
  "rollback K i [] lc = st_res (Inr lc)"
| "rollback K i (a # as) lc =
     (if a \<noteq> 0 then rollback K (Suc i) as lc
      else if length (snd lc) \<le> i then st_res (Inl IndexError)
      else if snd lc ! i < int K then st_res (Inl RuntimeError)
      else if length (fst lc) \<le> i then st_res (Inl IndexError)
      else st_bind (\<lambda>p. (Inr (), kv_free (last_n K (fst lc ! i)) p)) (\<lambda>_.
             rollback K (Suc i) as ((fst lc)[i := but_last_n K (fst lc ! i)], (snd lc)[i := snd lc ! i - int K])))"

text \<open>The padded slot table and its mask, row by row.\<close>

definition cross_rows :: "nat \<Rightarrow> nat \<Rightarrow> int list list \<times> int list \<Rightarrow> (int list \<times> bool list) list res" where
  "cross_rows bucket bs lc =
     res_map (\<lambda>i. if length (snd lc) \<le> i then Inl IndexError
                  else if snd lc ! i \<le> 0 then Inr (replicate bucket 0, replicate bucket False)
                  else if length (fst lc) \<le> i then Inl IndexError
                  else res_bind (fill_row bucket (snd lc ! i) (fst lc ! i)) (\<lambda>row.
                       Inr (row, map (\<lambda>j. int j < snd lc ! i) [0..<bucket]))) [0..<bs]"

fun alloc_rows :: "nat \<Rightarrow> int list \<Rightarrow> ((int list \<times> int list) list, 'v::zero kv_pool) st" where
  "alloc_rows width [] = st_res (Inr [])"
| "alloc_rows width (n # ns) =
     st_bind (st_update (kv_alloc n)) (\<lambda>ids.
     st_bind (st_res (fill_row width n ids)) (\<lambda>row.
     st_bind (alloc_rows width ns) (\<lambda>rest. st_res (Inr ((ids, row) # rest)))))"

text \<open>A cache tensor with its shape, and \<open>t[:n]\<close>.\<close>

type_synonym 'v tensor4 = "(nat \<times> nat \<times> nat \<times> nat) \<times> 'v list list list list"

definition first_rows :: "nat \<Rightarrow> 'v tensor4 \<Rightarrow> 'v tensor4" where
  "first_rows n t = (case t of ((b, h, s, d), rows) \<Rightarrow> ((min n b, h, s, d), take n rows))"

text \<open>What a replayed graph leaves in its output buffers.\<close>

record ('v, 'w, 'y) draft_output =
  do_logits :: "'w list"
  do_rank_logits :: "'w list"
  do_hidden :: "'w list"
  do_cross_kv :: "('v tensor4 \<times> 'v tensor4) list"
  do_ttt_kv :: "('y list \<times> 'y list) list"
  do_top_indices :: "'w list"

fun write_layers :: "nat \<Rightarrow> nat \<Rightarrow> int list list \<Rightarrow> int list \<Rightarrow> ('v tensor4 \<times> 'v tensor4) list \<Rightarrow> (unit, 'v kv_pool) st" where
  "write_layers layer bs indices valid [] = st_res (Inr ())"
| "write_layers layer bs indices valid ((k, v) # kvs) =
     st_bind (st_update (\<lambda>p. res_bind
         (set_kv_padded layer indices (fst (first_rows bs k)) (snd (first_rows bs k))
            (fst (first_rows bs v)) (snd (first_rows bs v)) valid p) (\<lambda>q. Inr ((), q))))
       (\<lambda>_. write_layers (Suc layer) bs indices valid kvs)"

definition ttt_rows :: "nat \<Rightarrow> nat \<Rightarrow> ('y list \<times> 'y list) list \<Rightarrow> (('y list \<times> 'y list) list) list res" where
  "ttt_rows num_layers bs ttt =
     (if length ttt < num_layers then Inl IndexError
      else Inr (map (\<lambda>i. map (\<lambda>l. (take 1 (drop i (take bs (fst (ttt ! l)))), take 1 (drop i (take bs (snd (ttt ! l))))))
                     [0..<num_layers]) [0..<bs]))"

definition plan_inputs :: "'v list refresh_plan \<Rightarrow> (int list \<times> bool list) list \<Rightarrow> 'v graph_inputs" where
  "plan_inputs plan rows =
     \<lparr>gi_hidden = rp_hidden plan, gi_tokens = rp_tokens plan, gi_pos_ids = rp_pos_ids plan,
      gi_cross_loc = map fst rows, gi_cross_mask = map snd rows, gi_n_per_req = rp_n_per_req plan\<rparr>"

text \<open>
  Capture if needed, then replay.  The inputs are copied into the buffers of the bucket; those are
  taken as new ones, since \<open>copy_inputs\<close> leaves nothing of their earlier contents.
\<close>

definition replay_draft ::
    "(bucket \<Rightarrow> 'v::zero graph_inputs \<Rightarrow> 'v kv_pool \<Rightarrow> ('v, 'w, 'y) draft_output) \<Rightarrow> nat \<Rightarrow> nat \<Rightarrow> bucket \<Rightarrow> nat \<Rightarrow> 'v graph_inputs
      \<Rightarrow> (('v, 'w, 'y) draft_output, 'v kv_pool \<times> graph_runner) st" where
  "replay_draft net hidden3 K key bs x =
     st_bind (\<lambda>(p, g). case run_bucket p key g of (r, g') \<Rightarrow> (r, p, g')) (\<lambda>_.
     st_bind (st_res (copy_inputs K bs x (new_inputs hidden3 K key) (key, hidden3))) (\<lambda>y.
     (\<lambda>s. (Inr (net key y (fst s)), s))))"

definition refresh_result ::
    "nat \<Rightarrow> nat \<Rightarrow> int list \<Rightarrow> int list list \<times> int list \<Rightarrow> int list \<Rightarrow> int list list \<Rightarrow> 'v list refresh_plan
      \<Rightarrow> ('v, 'w, 'y) draft_output \<Rightarrow> (('y list \<times> 'y list) list) list \<Rightarrow> ('v list, 'w, 'y list list) draft_input" where
  "refresh_result K bs accepts lc old_positions new plan out ttt =
     \<lparr>cs_loc = map (\<lambda>i. fst lc ! i @ new ! i) [0..<bs],
      cs_count = map (\<lambda>i. snd lc ! i + (accepts ! i + 1) * int K) [0..<bs],
      cs_position = map (\<lambda>i. if accepts ! i = 0 then old_positions ! i
                             else old_positions ! i + 1 + (accepts ! i + 1)) [0..<bs],
      cs_ttt_k = map (map fst) ttt, cs_ttt_v = map (map snd) ttt, cs_pool = True,
      di_hidden_states = Some (map2 (\<lambda>h n. h ! nat (n - 1)) (rp_hidden plan) (rp_n_per_req plan)),
      di_verified_id = Some (map2 (\<lambda>t n. t ! nat (n - 1)) (rp_tokens plan) (rp_n_per_req plan)),
      di_accept_length = Some accepts,
      di_b0_logits = Some (take bs (do_logits out)), di_b0_hidden = Some (take bs (do_hidden out)),
      di_b0_input_id = Some (map2 (\<lambda>t n. t ! nat (n - 1)) (rp_tokens plan) (rp_n_per_req plan)),
      di_b0_rank_logits = Some (take bs (do_rank_logits out)),
      di_b0_top_indices = Some (take bs (do_top_indices out)), di_future = None\<rparr>"

definition pick_bucket :: "nat \<Rightarrow> int list \<Rightarrow> int \<Rightarrow> (bucket, 'v kv_pool \<times> graph_runner) st" where
  "pick_bucket bs counts max_n s =
     (case resolve_buckets (snd s) bs (nat (if counts = [] then 0 else Max (set counts))) (nat max_n) of
        None \<Rightarrow> Inl RuntimeError | Some key \<Rightarrow> Inr key, s)"

lemma pick_bucket_Inr: "pick_bucket bs counts max_n (p, g) = (Inr key, s) \<longleftrightarrow>
    resolve_buckets g bs (nat (if counts = [] then 0 else Max (set counts))) (nat max_n) = Some key \<and> s = (p, g)"
  by (auto simp: pick_bucket_def split: option.splits)

definition refresh_draft_state ::
    "(bucket \<Rightarrow> 'v::zero graph_inputs \<Rightarrow> 'v kv_pool \<Rightarrow> ('v, 'w, 'y) draft_output) \<Rightarrow> bool \<Rightarrow> nat \<Rightarrow> nat \<Rightarrow> nat
      \<Rightarrow> int list \<Rightarrow> 'v list list option \<Rightarrow> int list \<Rightarrow> ('x, 'z) cross_state_scheme
      \<Rightarrow> (('v list, 'w, 'y list list) draft_input, 'v kv_pool \<times> graph_runner) st" where
  "refresh_draft_state net on_cuda num_layers hidden3 K verified_id verified_h3 accepts vi =
     (case verified_h3 of None \<Rightarrow> st_res (Inl RuntimeError) | Some hidden \<Rightarrow>
        (let bs = length accepts; Ns = map (\<lambda>a. a + 1) accepts in
         st_bind (on_fst (rollback K 0 accepts (cs_loc vi, cs_count vi))) (\<lambda>lc.
         st_bind (st_res (if Ns = [] then Inl ValueError else Inr (Max (set Ns)))) (\<lambda>max_n.
         st_bind (pick_bucket bs (snd lc) max_n) (\<lambda>key.
         st_bind (st_res (cross_rows (fst (snd key)) bs lc)) (\<lambda>rows.
         st_bind (on_fst (alloc_rows (snd (snd key) * K) (map (\<lambda>n. n * int K) Ns))) (\<lambda>new.
         st_bind (st_res (build_refresh_plan on_cuda 0 hidden3 [] verified_id hidden accepts (cs_position vi)
             (map fst rows) (snd lc) (snd (snd key) * K) (map snd new) (int K) None)) (\<lambda>plan.
         st_bind (replay_draft net hidden3 K key bs (plan_inputs plan rows)) (\<lambda>out.
         st_bind (on_fst (write_layers 0 bs (map snd new) (rp_new_slots plan) (do_cross_kv out))) (\<lambda>_.
         st_bind (st_res (ttt_rows num_layers bs (do_ttt_kv out))) (\<lambda>ttt.
         st_res (Inr (refresh_result K bs accepts lc (cs_position vi) (map fst new) plan out ttt)))))))))))))"
section \<open>Filtering\<close>

text \<open>Every per-request list and every tensor of a batch has one entry per request.\<close>

definition cross_ok :: "nat \<Rightarrow> ('x, 'z) cross_state_scheme \<Rightarrow> bool" where
  "cross_ok n s \<longleftrightarrow> length (cs_loc s) = n \<and> length (cs_count s) = n \<and> length (cs_position s) = n
     \<and> length (cs_ttt_k s) = n \<and> length (cs_ttt_v s) = n \<and> cs_pool s"

definition tensor_len :: "nat \<Rightarrow> 'a list option \<Rightarrow> bool" where
  "tensor_len n t \<longleftrightarrow> (\<forall>xs. t = Some xs \<longrightarrow> length xs = n)"

definition draft_ok :: "nat \<Rightarrow> ('h, 'w, 'x) draft_input \<Rightarrow> bool" where
  "draft_ok n d \<longleftrightarrow> cross_ok n d \<and>
     (case di_future d of Some (ids, _) \<Rightarrow> length ids = n
      | None \<Rightarrow> tensor_len n (di_hidden_states d) \<and> tensor_len n (di_verified_id d) \<and> tensor_len n (di_accept_length d)
          \<and> tensor_len n (di_b0_logits d) \<and> tensor_len n (di_b0_hidden d) \<and> tensor_len n (di_b0_input_id d)
          \<and> tensor_len n (di_b0_rank_logits d) \<and> tensor_len n (di_b0_top_indices d))"

definition keeps :: "nat \<Rightarrow> int list \<Rightarrow> bool" where
  "keeps n keep \<longleftrightarrow> distinct keep \<and> set keep \<subseteq> {0..<int n}"

abbreviation picked :: "int list \<Rightarrow> 'a list \<Rightarrow> 'a list" where
  "picked keep xs \<equiv> map (\<lambda>i. xs ! nat i) keep"

abbreviation pick_cross :: "int list \<Rightarrow> ('x, 'z) cross_state_scheme \<Rightarrow> ('x, 'z) cross_state_scheme" where
  "pick_cross keep s \<equiv> s\<lparr>cs_loc := picked keep (cs_loc s), cs_count := picked keep (cs_count s),
      cs_position := picked keep (cs_position s), cs_ttt_k := picked keep (cs_ttt_k s), cs_ttt_v := picked keep (cs_ttt_v s)\<rparr>"

text \<open>The tensors of the kept requests; under a future map only its index list is per request.\<close>

abbreviation pick_tensors :: "int list \<Rightarrow> ('h, 'w, 'x) draft_input \<Rightarrow> ('h, 'w, 'x) draft_input" where
  "pick_tensors keep d \<equiv>
     (case di_future d of
        Some (ids, interval) \<Rightarrow> d\<lparr>di_future := Some (picked keep ids, interval)\<rparr>
      | None \<Rightarrow> d\<lparr>di_hidden_states := map_option (picked keep) (di_hidden_states d),
          di_verified_id := map_option (picked keep) (di_verified_id d),
          di_accept_length := map_option (picked keep) (di_accept_length d),
          di_b0_logits := map_option (picked keep) (di_b0_logits d),
          di_b0_hidden := map_option (picked keep) (di_b0_hidden d),
          di_b0_input_id := map_option (picked keep) (di_b0_input_id d),
          di_b0_rank_logits := map_option (picked keep) (di_b0_rank_logits d),
          di_b0_top_indices := map_option (picked keep) (di_b0_top_indices d)\<rparr>)"

lemma gather_ok:
  assumes "keeps n keep" "length xs = n"
  shows "gather keep xs = Inr (picked keep xs)"
proof -
  have "res_map (py_nth xs) ks = Inr (picked ks xs)" if "set ks \<subseteq> {0..<int n}" for ks
    using that assms(2) by (induction ks) (auto simp: py_nth_nonneg)
  then show ?thesis using assms(1) by (simp add: gather_def keeps_def)
qed

lemma gather_list_ok: "keeps n keep \<Longrightarrow> length xs = n \<Longrightarrow> gather_list keep xs = Inr (picked keep xs)"
  using gather_ok[of n keep xs] by (auto simp: gather_list_def keeps_def)

lemma gather_tensor_ok:
  "keeps n keep \<Longrightarrow> tensor_len n t \<Longrightarrow> gather_tensor keep t = Inr (map_option (picked keep) t)"
  by (auto simp: gather_tensor_def tensor_len_def gather_ok split: option.split)

lemma tensor_len_picked: "tensor_len (length keep) (map_option (picked keep) t)"
  by (auto simp: tensor_len_def)

lemma filter_lists_ok:
  assumes "keeps n keep" "cross_ok n s"
  shows "filter_lists keep s = Inr (pick_cross keep s)"
  using assms(2) by (simp add: filter_lists_def cross_ok_def gather_list_ok[OF assms(1)])

text \<open>The kept and the dropped requests own together what the batch owned.\<close>

lemma picked_dropped_mset:
  assumes "keeps n keep" "length locs = n"
  shows "mset (concat locs) = mset (concat (dropped_locs keep locs) @ concat (picked keep locs))"
proof -
  let ?drop = "filter (\<lambda>i. int i \<notin> set keep) [0..<n]"
  have "set (?drop @ map nat keep) = set [0..<n]" using assms(1) by (force simp: keeps_def)
  moreover have "inj_on nat (set keep)"
  proof (rule inj_onI)
    fix x y assume "x \<in> set keep" "y \<in> set keep" "nat x = nat y"
    moreover have "\<forall>z\<in>set keep. 0 \<le> z" using assms(1) by (auto simp: keeps_def)
    ultimately show "x = y" by (metis int_nat_eq)
  qed
  then have "distinct (?drop @ map nat keep)"
    using assms(1) by (fastforce simp: keeps_def distinct_map)
  ultimately have "mset (?drop @ map nat keep) = mset [0..<n]"
    using set_eq_iff_mset_eq_distinct[of "?drop @ map nat keep" "[0..<n]"] by simp
  then have "mset (map ((!) locs) (?drop @ map nat keep)) = mset (map ((!) locs) [0..<n])"
    by (simp only: mset_map)
  also have "map ((!) locs) [0..<n] = locs" using assms(2) map_nth by blast
  also have "map ((!) locs) (?drop @ map nat keep) = dropped_locs keep locs @ picked keep locs"
    using assms(2) by (simp add: dropped_locs_def)
  finally have "sum_mset (image_mset mset (mset (dropped_locs keep locs @ picked keep locs))) = sum_mset (image_mset mset (mset locs))"
    by simp
  then show ?thesis by (simp add: mset_concat sum_mset_sum_list[symmetric] image_mset.compositionality comp_def)
qed

text \<open>Filtering the shared part: the dropped slots are free again, nothing else moves.\<close>

lemma filter_cross_ok:
  assumes "keeps n keep" "cross_ok n s" "pool_ok p (concat (cs_loc s) @ rest)"
  obtains q where "filter_cross keep s p = (Inr (pick_cross keep s), q)"
    "pool_ok q (concat (picked keep (cs_loc s)) @ rest)" "\<forall>x. slot_data q x = slot_data p x"
proof
  let ?q = "release_each kv_free (dropped_locs keep (cs_loc s)) p"
  have len: "length (cs_loc s) = n" and pl: "cs_pool s" using assms(2) by (simp_all add: cross_ok_def)
  have m: "mset (concat (cs_loc s) @ rest) = mset (concat (dropped_locs keep (cs_loc s)) @ concat (picked keep (cs_loc s)) @ rest)"
    using picked_dropped_mset[OF assms(1) len] by simp
  show "filter_cross keep s p = (Inr (pick_cross keep s), ?q)"
    unfolding filter_cross_def filter_lists_ok[OF assms(1,2)] using pl by simp
  show "pool_ok ?q (concat (picked keep (cs_loc s)) @ rest)" "\<forall>x. slot_data ?q x = slot_data p x"
    using kvp.release_each_ok[OF assms(3) m] by simp_all
qed

lemma filter_tensors_ok:
  assumes "keeps n keep" "draft_ok n d"
  shows "filter_tensors keep d = Inr (pick_tensors keep d) \<and> cs_loc (pick_tensors keep d) = cs_loc d
    \<and> cross_ok n (pick_tensors keep d) \<and> draft_ok (length keep) (pick_cross keep (pick_tensors keep d))"
proof (cases "di_future d")
  case None
  then show ?thesis using assms(2)
    by (simp add: filter_tensors_def draft_ok_def cross_ok_def gather_tensor_ok[OF assms(1)] tensor_len_picked)
next
  case (Some f)
  then show ?thesis using assms(2)
    by (cases f) (simp add: filter_tensors_def draft_ok_def cross_ok_def gather_ok[OF assms(1)])
qed

lemma filter_tensors_cross:
  "filter_tensors keep d = Inr d' \<Longrightarrow> cs_loc d' = cs_loc d \<and> (cross_ok n d' = cross_ok n d)"
  by (auto simp: filter_tensors_def cross_ok_def split: option.splits)

lemma filter_batch_owned:
  assumes "keeps (length (cs_loc d)) keep" "cross_ok (length (cs_loc d)) d" "filter_batch keep d p = (Inr d', q)"
    and "pool_ok p (concat (cs_loc d) @ rest)"
  shows "pool_ok q (concat (cs_loc d') @ rest) \<and> cross_ok (length (cs_loc d')) d'"
proof -
  let ?n = "length (cs_loc d)"
  obtain e where e: "filter_tensors keep d = Inr e" "filter_cross keep e p = (Inr d', q)"
    using assms(3) by (auto simp: filter_batch_def)
  have same: "cs_loc e = cs_loc d" "cross_ok ?n e" using filter_tensors_cross[OF e(1)] assms(2) by auto
  from assms(4) have "pool_ok p (concat (cs_loc e) @ rest)" by (simp add: same(1))
  from filter_cross_ok[OF assms(1) same(2) this] obtain q' where
    "filter_cross keep e p = (Inr (pick_cross keep e), q')" "pool_ok q' (concat (picked keep (cs_loc e)) @ rest)" by blast
  then show ?thesis using e(2) same(2) by (auto simp: cross_ok_def)
qed

lemma filter_verify_owned:
  assumes "keeps (length (cs_loc v)) keep" "cross_ok (length (cs_loc v)) v" "filter_verify keep v p = (Inr v', q)"
    and "pool_ok p (concat (cs_loc v) @ rest)"
  shows "pool_ok q (concat (cs_loc v') @ rest) \<and> cross_ok (length (cs_loc v')) v'"
proof -
  let ?n = "length (cs_loc v)"
  obtain ri rt rs tp h u where u: "filter_cross keep (v\<lparr>vi_retrive_index := ri, vi_retrive_next_token := rt,
      vi_retrive_next_sibling := rs, vi_tree_parents := tp, vi_hidden_states := h\<rparr>) p = (Inr u, q)" "filter_sizes keep u = Inr v'"
    using assms(3) unfolding filter_verify_def by auto
  define e where "e = v\<lparr>vi_retrive_index := ri, vi_retrive_next_token := rt,
      vi_retrive_next_sibling := rs, vi_tree_parents := tp, vi_hidden_states := h\<rparr>"
  have e: "cs_loc e = cs_loc v" "cross_ok ?n e" "filter_cross keep e p = (Inr u, q)" "filter_sizes keep u = Inr v'"
    using assms(2) u by (simp_all add: e_def cross_ok_def)
  from assms(4) have "pool_ok p (concat (cs_loc e) @ rest)" by (simp add: e(1))
  from filter_cross_ok[OF assms(1) e(2) this] obtain q' where
    "filter_cross keep e p = (Inr (pick_cross keep e), q')" "pool_ok q' (concat (picked keep (cs_loc e)) @ rest)" by blast
  then show ?thesis using e by (auto simp: cross_ok_def filter_sizes_def)
qed

section \<open>Merging and releasing\<close>

lemma merge_list_append [simp]: "merge_list mine theirs = mine @ theirs"
  by (auto simp: merge_list_def)

lemma merge_cross_ok:
  "cross_ok n s \<Longrightarrow> cross_ok m t \<Longrightarrow> cs_loc (merge_cross s t) = cs_loc s @ cs_loc t \<and> cross_ok (n + m) (merge_cross s t)"
  by (simp add: cross_ok_def merge_cross_def)

lemma merge_batch_cross:
  assumes "merge_batch d (Some e) = Inr d'" "cross_ok n d" "cross_ok m e"
  shows "cs_loc d' = cs_loc d @ cs_loc e \<and> cross_ok (n + m) d'"
proof -
  obtain u where "d' = merge_cross u e" "cs_loc u = cs_loc d" "cross_ok n u"
    using assms(1,2) by (auto simp: merge_batch_def cross_ok_def split: option.splits if_splits)
  then show ?thesis using merge_cross_ok[of n u m e] assms(3) by simp
qed

lemma merge_verify_cross:
  assumes "cross_ok n v" "cross_ok m w"
  shows "cs_loc (merge_verify v (Some w)) = cs_loc v @ cs_loc w \<and> cross_ok (n + m) (merge_verify v (Some w))"
proof -
  have "cross_ok n (v\<lparr>vi_hidden_states := merge_tensor (vi_hidden_states v) (vi_hidden_states w)\<rparr>)"
    using assms(1) by (simp add: cross_ok_def)
  from merge_cross_ok[OF this assms(2)] show ?thesis by (simp add: merge_verify_def)
qed

lemma release_resources_owned:
  assumes "cross_ok n s" "pool_ok p (concat (cs_loc s) @ rest)"
  shows "pool_ok (snd (release_resources s p)) rest \<and> slot_data (snd (release_resources s p)) x = slot_data p x
    \<and> cs_loc (fst (release_resources s p)) = []"
  using kvp.release_each_ok[OF assms(2) refl] assms(1) by (simp add: release_resources_def cross_ok_def)

section \<open>The dense cache moves into the pool\<close>

text \<open>A source that the writer accepts is broadcast to the shape of its target.\<close>

lemma expand_dim_length: "expand_dim n xs = Inr ys \<Longrightarrow> length ys = n"
  by (auto simp: expand_dim_def split: if_splits)

lemma expand_rows_block: "expand_rows n heads dim rows = Inr rows' \<Longrightarrow> block_ok n heads dim rows'"
proof -
  have inv: "res_map f xs = Inr ys \<Longrightarrow> y \<in> set ys \<Longrightarrow> \<exists>x. f x = Inr y" for f :: "'b \<Rightarrow> 'c res" and xs ys y
    by (induction xs arbitrary: ys) auto
  assume "expand_rows n heads dim rows = Inr rows'"
  then obtain rs where rs: "expand_dim n rows = Inr rs"
    "res_map (\<lambda>row. res_bind (expand_dim heads row) (res_map (expand_dim dim))) rs = Inr rows'"
    by (auto simp: expand_rows_def)
  have "length row = heads \<and> (\<forall>h\<in>set row. length h = dim)" if "row \<in> set rows'" for row
  proof -
    obtain x hs where "expand_dim heads x = Inr hs" "res_map (expand_dim dim) hs = Inr row" using inv[OF rs(2) \<open>row \<in> set rows'\<close>] by auto
    then show ?thesis using expand_dim_length[of heads x hs] res_map_Inr_length[of _ hs row] inv[of "expand_dim dim" hs row]
      by (auto dest: expand_dim_length)
  qed
  then show ?thesis using expand_dim_length[OF rs(1)] res_map_Inr_length[OF rs(2)] by (simp add: block_ok_def)
qed

lemma put_layer_expand:
  assumes "put_layer p layer ids rows buf = Inr out"
  obtains rows' where "block_ok (length ids) (kp_heads p) (kp_dim p) rows'" "put_layer p layer ids rows' buf = Inr out" "layer < length buf"
proof -
  obtain rows' where r: "expand_rows (length ids) (kp_heads p) (kp_dim p) rows = Inr rows'" "layer < length buf"
    using assms by (auto simp: put_layer_def split: if_splits)
  note b = expand_rows_block[OF r(1)]
  have "expand_rows (length ids) (kp_heads p) (kp_dim p) rows' = Inr rows'"
    using b by (intro expand_rows_exact) (auto simp: block_ok_def)
  then have "put_layer p layer ids rows' buf = Inr out" using assms r by (simp add: put_layer_def)
  from that[OF b this r(2)] show thesis .
qed

lemma set_kv_success:
  assumes p: "pool_ok p owned" and s: "set_kv layer ids ck cv p = Inr q" and ids: "set ids \<subseteq> set owned" "distinct ids"
  shows "pool_ok q owned \<and> kp_layers q = kp_layers p \<and> kp_heads q = kp_heads p \<and> kp_dim q = kp_dim p \<and> kp_size q = kp_size p
    \<and> kp_version q = kp_version p \<and> kp_capture q = kp_capture p
    \<and> (\<forall>m s. 0 \<le> s \<longrightarrow> s < kp_size p \<longrightarrow> m \<noteq> layer \<or> s \<notin> set ids \<longrightarrow> layer_data q m s = layer_data p m s)"
proof (cases "ids = []")
  case True
  then show ?thesis using s p by (simp add: set_kv_def)
next
  case False
  then obtain k v where kv: "put_layer p layer ids ck (kp_k p) = Inr k" "put_layer p layer ids cv (kp_v p) = Inr v"
      "q = p\<lparr>kp_k := k, kp_v := v\<rparr>" using s by (auto simp: set_kv_def split: if_splits)
  from put_layer_expand[OF kv(1)] obtain rk where rk: "block_ok (length ids) (kp_heads p) (kp_dim p) rk"
    "put_layer p layer ids rk (kp_k p) = Inr k" "layer < length (kp_k p)" by blast
  from put_layer_expand[OF kv(2)] obtain rv where rv: "block_ok (length ids) (kp_heads p) (kp_dim p) rv"
    "put_layer p layer ids rv (kp_v p) = Inr v" "layer < length (kp_v p)" by blast
  have "layer < kp_layers p" using rk(3) p by (simp add: pool_ok_def buffers_ok_def)
  from set_kv_ok[OF p this False ids rk(1) rv(1)] rk(2) rv(2) kv(3) False tensor_shape_exact[OF rk(1) rv(1)]
  show ?thesis by (simp add: set_kv_def)
qed
text \<open>The geometry of a pool, and the slots outside a set, are untouched.\<close>

definition same_pool :: "int set \<Rightarrow> 'v kv_pool \<Rightarrow> 'v kv_pool \<Rightarrow> bool" where
  "same_pool written p q \<longleftrightarrow> kp_layers q = kp_layers p \<and> kp_heads q = kp_heads p \<and> kp_dim q = kp_dim p
     \<and> kp_size q = kp_size p \<and> kp_version q = kp_version p \<and> kp_capture q = kp_capture p
     \<and> (\<forall>m s. 0 \<le> s \<longrightarrow> s < kp_size p \<longrightarrow> s \<notin> written \<longrightarrow> layer_data q m s = layer_data p m s)"

lemma same_pool_refl: "same_pool W p p"
  by (simp add: same_pool_def)

lemma same_pool_trans: "same_pool W p q \<Longrightarrow> same_pool W q r \<Longrightarrow> same_pool W p r"
  by (simp add: same_pool_def)

lemma same_pool_slot:
  assumes "pool_ok p owned" "same_pool W p q" "s \<in> insert 0 (set owned)" "s \<notin> W" "pool_ok q owned'"
  shows "slot_data q s = slot_data p s"
proof -
  have "0 \<le> s" "s < kp_size p" using assms(1,3) pool_ok_owned(2)[OF assms(1)] by (auto simp: pool_ok_def)
  then show ?thesis using assms(2,4) unfolding slot_data_layers[OF assms(1)] slot_data_layers[OF assms(5)]
    by (simp add: same_pool_def)
qed

lemma write_dense_owned:
  assumes "pool_ok p owned" "set ids \<subseteq> set owned" "distinct ids" "write_dense cache ids n layers p = (r, q)"
  shows "pool_ok q owned \<and> same_pool (set ids) p q"
  using assms(1,4)
proof (induction layers arbitrary: p)
  case (Cons layer layers)
  show ?case
  proof (cases "py_nth cache (int layer)")
    case (Inl e)
    then show ?thesis using Cons.prems by (simp add: st_bind_def st_res_def same_pool_refl)
  next
    case (Inr kv)
    obtain k v where kv: "kv = (k, v)" by (cases kv)
    show ?thesis
    proof (cases "set_kv layer ids (dense_rows n k) (dense_rows n v) p")
      case (Inl e)
      then show ?thesis using Cons.prems Inr kv by (simp add: st_bind_def st_res_def st_update_def same_pool_refl)
    next
      case p1: (Inr p1)
      then have "write_dense cache ids n layers p1 = (r, q)"
        using Cons.prems(2) Inr kv by (simp add: st_bind_def st_res_def st_update_def)
      moreover note s = set_kv_success[OF Cons.prems(1) p1 assms(2,3)]
      ultimately show ?thesis using Cons.IH[of p1] same_pool_trans[of "set ids" p p1 q] by (auto simp: same_pool_def)
    qed
  qed
qed (simp add: same_pool_refl)

lemma dense_to_paged_owned:
  assumes p: "pool_ok p owned" and d: "dense_to_paged L cache n p = (Inr ids, q)"
  shows "pool_ok q (owned @ ids) \<and> length ids = nat n \<and> (\<forall>s\<in>insert 0 (set owned). slot_data q s = slot_data p s)
    \<and> (kp_capture q = kp_capture p)"
proof (cases "n \<le> 0")
  case True
  then show ?thesis using d p by (simp add: dense_to_paged_def)
next
  case False
  then obtain r u where r: "kv_alloc n p = Inr (ids, r)" "write_dense cache ids (nat n) [0..<L] r = (Inr u, q)"
    using d by (auto simp: dense_to_paged_def)
  note al = kv_alloc_ok[OF p r(1)]
  have cap: "kp_capture r = kp_capture p" using r(1)
    by (auto simp: kv_alloc_def kv_grow_def Let_def split: if_splits)
  have "distinct (owned @ ids)" by (rule pool_ok_owned(1)[OF al(1)])
  then have w: "pool_ok q (owned @ ids)" "same_pool (set ids) r q" using write_dense_owned[OF al(1) _ _ r(2)] by auto
  have "slot_data q s = slot_data p s" if "s \<in> insert 0 (set owned)" for s
  proof -
    have "s \<notin> set ids" using that pool_ok_owned(1,3)[OF al(1)] by auto
    then have "slot_data q s = slot_data r s"
      using same_pool_slot[OF al(1) w(2), of s "owned @ ids"] w(1) that by auto
    then show ?thesis using kvp.alloc_keeps[OF p r(1) that] by simp
  qed
  then show ?thesis using w al(2) cap by (auto simp: same_pool_def)
qed

text \<open>A dense cache with the shape of the pool arrives slot by slot.\<close>

definition dense_ok :: "'v kv_pool \<Rightarrow> nat \<Rightarrow> 'v list list list \<Rightarrow> bool" where
  "dense_ok p n buf \<longleftrightarrow> 0 < kp_heads p \<and> length buf = kp_heads p
     \<and> (\<forall>head\<in>set buf. n \<le> length head \<and> (\<forall>row\<in>set head. length row = kp_dim p))"

lemma dense_rows_block:
  assumes "dense_ok p n buf"
  shows "block_ok n (kp_heads p) (kp_dim p) (dense_rows n buf)"
    and "i < n \<Longrightarrow> dense_rows n buf ! i = map (\<lambda>head. head ! i) buf"
proof -
  have ne: "buf \<noteq> []" using assms by (auto simp: dense_ok_def)
  then have "n \<le> length (hd buf)" using assms by (auto simp: dense_ok_def)
  then have r: "dense_rows n buf = map (\<lambda>s. map (\<lambda>head. head ! s) buf) [0..<n]"
    using ne by (simp add: dense_rows_def)
  show "block_ok n (kp_heads p) (kp_dim p) (dense_rows n buf)"
    unfolding r using assms by (auto simp: block_ok_def dense_ok_def)
  show "i < n \<Longrightarrow> dense_rows n buf ! i = map (\<lambda>head. head ! i) buf" by (simp add: r)
qed

lemma write_dense_complete:
  assumes "pool_ok p owned" "set ids \<subseteq> set owned" "distinct ids" "ids \<noteq> []" "length ids = n"
    and "distinct layers" "\<forall>l\<in>set layers. l < kp_layers p \<and> l < length cache"
    and "\<forall>c\<in>set cache. dense_ok p n (fst c) \<and> dense_ok p n (snd c)"
  shows "\<exists>q. write_dense cache ids n layers p = (Inr (), q)
    \<and> (\<forall>l\<in>set layers. \<forall>i<n. layer_data q l (ids ! i)
          = (map (\<lambda>head. head ! i) (fst (cache ! l)), map (\<lambda>head. head ! i) (snd (cache ! l))))
    \<and> (\<forall>l s. l \<notin> set layers \<longrightarrow> 0 \<le> s \<longrightarrow> s < kp_size p \<longrightarrow> layer_data q l s = layer_data p l s)"
  using assms(1,6-8)
proof (induction layers arbitrary: p)
  case (Cons layer layers)
  have l: "layer < kp_layers p" "layer < length cache" using Cons.prems(3) by simp_all
  obtain k v where kv: "cache ! layer = (k, v)" by (cases "cache ! layer")
  then have ok: "dense_ok p n k" "dense_ok p n v" using Cons.prems(4) nth_mem[OF l(2)] by force+
  have nth: "py_nth cache (int layer) = Inr (k, v)" using l(2) kv by (simp add: py_nth_nonneg)
  note blk = dense_rows_block(1)[OF ok(1)] dense_rows_block(1)[OF ok(2)]
  obtain p1 where p1: "set_kv layer ids (dense_rows n k) (dense_rows n v) p = Inr p1" "pool_ok p1 owned"
      "kp_layers p1 = kp_layers p" "kp_heads p1 = kp_heads p" "kp_dim p1 = kp_dim p" "kp_size p1 = kp_size p"
      "\<forall>i<n. layer_data p1 layer (ids ! i) = (dense_rows n k ! i, dense_rows n v ! i)"
      "\<forall>m s. 0 \<le> s \<longrightarrow> s < kp_size p \<longrightarrow> m \<noteq> layer \<or> s \<notin> set ids \<longrightarrow> layer_data p1 m s = layer_data p m s"
    using set_kv_ok[OF Cons.prems(1) l(1) assms(4,2,3) blk[folded assms(5)]] assms(5) by auto
  have "\<forall>c\<in>set cache. dense_ok p1 n (fst c) \<and> dense_ok p1 n (snd c)"
    using Cons.prems(4) unfolding dense_ok_def p1(4,5) .
  with Cons.prems(2,3) p1(3) obtain q where q: "write_dense cache ids n layers p1 = (Inr (), q)"
     "\<forall>l\<in>set layers. \<forall>i<n. layer_data q l (ids ! i)
          = (map (\<lambda>head. head ! i) (fst (cache ! l)), map (\<lambda>head. head ! i) (snd (cache ! l)))"
     "\<forall>l s. l \<notin> set layers \<longrightarrow> 0 \<le> s \<longrightarrow> s < kp_size p \<longrightarrow> layer_data q l s = layer_data p1 l s"
    using Cons.IH[OF p1(2)] p1(6) by auto
  have run: "write_dense cache ids n (layer # layers) p = (Inr (), q)"
    using nth p1(1) q(1) by (simp add: st_bind_def st_res_def st_update_def)
  have ran: "\<forall>i<n. 0 \<le> ids ! i \<and> ids ! i < kp_size p"
    using pool_ok_owned(2)[OF Cons.prems(1)] assms(2,5) nth_mem by force
  have "layer_data q layer (ids ! i) = (map (\<lambda>head. head ! i) k, map (\<lambda>head. head ! i) v)" if "i < n" for i
    using q(3) p1(7) ran dense_rows_block(2)[OF ok(1)] dense_rows_block(2)[OF ok(2)] that Cons.prems(2) by simp
  then show ?case using run q(2,3) p1(8) kv by (intro exI[of _ q]) auto
qed simp

lemma extend_loop_owned:
  assumes "pool_ok p owned" "extend_loop net L hidden ids nxt offset i ns p = (Inr reqs, q)"
  shows "pool_ok q (owned @ concat (map pr_loc reqs)) \<and> length reqs = length ns \<and> kp_capture q = kp_capture p
    \<and> (\<forall>s\<in>insert 0 (set owned). slot_data q s = slot_data p s)
    \<and> (\<forall>r\<in>set reqs. length (pr_loc r) = nat (pr_count r))"
  using assms
proof (induction ns arbitrary: p owned offset i reqs)
  case (Cons n ns)
  define h where "h = take n (drop offset hidden)"
  define out where "out = net h (drop 1 (take n (drop offset ids)) @ [nxt ! i]) (last h) (nxt ! i)"
  define c where "c = (case po_cache out of [] \<Rightarrow> 0 | (k, v, c) # _ \<Rightarrow> c)"
  define cache where "cache = map (\<lambda>(k, v, c). (k, v)) (po_cache out)"
  obtain ids' rest p1 where s: "dense_to_paged L cache c p = (Inr ids', p1)"
    "extend_loop net L hidden ids nxt (offset + n) (Suc i) ns p1 = (Inr rest, q)"
    "reqs = \<lparr>pr_loc = ids', pr_count = c, pr_out = out, pr_first = nxt ! i, pr_last_hidden = last h\<rparr> # rest"
    using Cons.prems(2) unfolding extend_loop.simps Let_def h_def[symmetric] out_def[symmetric] c_def[symmetric] cache_def[symmetric]
    by (auto split: if_splits)
  define r where "r = \<lparr>pr_loc = ids', pr_count = c, pr_out = out, pr_first = nxt ! i, pr_last_hidden = last h\<rparr>"
  have r: "dense_to_paged L cache c p = (Inr (pr_loc r), p1)" "pr_count r = c"
    "extend_loop net L hidden ids nxt (offset + n) (Suc i) ns p1 = (Inr rest, q)" "reqs = r # rest"
    using s by (simp_all add: r_def)
  note d = dense_to_paged_owned[OF Cons.prems(1) r(1)]
  have "pool_ok q ((owned @ pr_loc r) @ concat (map pr_loc rest)) \<and> length rest = length ns \<and> kp_capture q = kp_capture p1
    \<and> (\<forall>s\<in>insert 0 (set (owned @ pr_loc r)). slot_data q s = slot_data p1 s)
    \<and> (\<forall>r\<in>set rest. length (pr_loc r) = nat (pr_count r))"
    by (rule Cons.IH[OF _ r(3)]) (use d in blast)
  then show ?case using d r(2,4) by auto
qed simp
section \<open>Rollback and allocation\<close>

lemma last_but_last: "mset xs = mset (last_n n xs) + mset (but_last_n n xs)"
proof (cases "n = 0")
  case False
  have "mset xs = mset (take (length xs - n) xs) + mset (drop (length xs - n) xs)"
    by (metis append_take_drop_id mset_append)
  then show ?thesis using False by (simp add: last_n_def but_last_n_def add.commute)
qed (simp add: last_n_def but_last_n_def)

lemma concat_update_mset:
  assumes "i < length locs" "mset (locs ! i) = mset a + mset b"
  shows "mset (concat locs) = mset a + mset (concat (locs[i := b]))"
proof -
  have "concat locs = concat (take i locs) @ locs ! i @ concat (drop (Suc i) locs)"
    by (subst id_take_nth_drop[OF assms(1)]) simp
  moreover have "concat (locs[i := b]) = concat (take i locs) @ b @ concat (drop (Suc i) locs)"
    by (simp add: upd_conv_take_nth_drop[OF assms(1)])
  ultimately show ?thesis using assms(2) by (simp add: ac_simps)
qed

text \<open>What a request keeps: all its slots, or all but those of the failed block.\<close>

definition rolled :: "nat \<Rightarrow> int \<Rightarrow> int list \<Rightarrow> int list" where
  "rolled K a loc = (if a = 0 then but_last_n K loc else loc)"

definition rolled_count :: "nat \<Rightarrow> int \<Rightarrow> int \<Rightarrow> int" where
  "rolled_count K a c = (if a = 0 then c - int K else c)"

lemma rollback_spec:
  assumes "length locs = i + length as" "length counts = i + length as" "pool_ok p (concat locs @ rest)"
  shows "case rollback K i as (locs, counts) p of
      (Inl e, q) \<Rightarrow> e = RuntimeError \<and> (\<exists>j<length as. as ! j = 0 \<and> counts ! (i + j) < int K)
    | (Inr (ls, cs), q) \<Rightarrow> ls = take i locs @ map2 (rolled K) as (drop i locs)
        \<and> cs = take i counts @ map2 (rolled_count K) as (drop i counts)
        \<and> (\<forall>j<length as. as ! j = 0 \<longrightarrow> int K \<le> counts ! (i + j))
        \<and> pool_ok q (concat ls @ rest) \<and> (\<forall>s. slot_data q s = slot_data p s)
        \<and> kp_version q = kp_version p \<and> kp_capture q = kp_capture p \<and> kp_size q = kp_size p
        \<and> kp_heads q = kp_heads p \<and> kp_dim q = kp_dim p"
  using assms
proof (induction as arbitrary: i locs counts p)
  case Nil
  then show ?case by (simp add: st_res_def)
next
  case (Cons a as)
  note len = Cons.prems(1,2)
  have i: "i < length locs" "i < length counts" using len by simp_all
  have dr: "drop i locs = locs ! i # drop (Suc i) locs" "drop i counts = counts ! i # drop (Suc i) counts"
    using i by (simp_all add: Cons_nth_drop_Suc)
  have tk: "take (Suc i) locs = take i locs @ [locs ! i]" "take (Suc i) counts = take i counts @ [counts ! i]"
    using i by (simp_all add: take_Suc_conv_app_nth)
  have idx: "(\<exists>j<Suc m. P j) \<longleftrightarrow> P 0 \<or> (\<exists>j<m. P (Suc j))" "(\<forall>j<Suc m. P j) \<longleftrightarrow> P 0 \<and> (\<forall>j<m. P (Suc j))" for m P
    by (auto simp: less_Suc_eq_0_disj)
  show ?case
  proof (cases "a = 0")
    case False
    have r: "rollback K i (a # as) (locs, counts) p = rollback K (Suc i) as (locs, counts) p" using False by simp
    have "length locs = Suc i + length as" "length counts = Suc i + length as" using len by simp_all
    from Cons.IH[OF this Cons.prems(3)] show ?thesis unfolding r
      using False by (auto simp: idx dr tk rolled_def rolled_count_def split: prod.splits sum.splits)
  next
    case True
    show ?thesis
    proof (cases "counts ! i < int K")
      case lt: True
      then show ?thesis using True i by (auto simp: st_res_def idx)
    next
      case False
      let ?l = "locs[i := but_last_n K (locs ! i)]" and ?c = "counts[i := counts ! i - int K]"
      let ?p = "kv_free (last_n K (locs ! i)) p"
      have r: "rollback K i (a # as) (locs, counts) p = rollback K (Suc i) as (?l, ?c) ?p"
        using True False i by (simp add: st_bind_def)
      have "mset (concat locs @ rest) = mset (last_n K (locs ! i) @ concat ?l @ rest)"
        using concat_update_mset[OF i(1) last_but_last[of "locs ! i" K]] by simp
      from kv_free_ok[OF Cons.prems(3) this] have ok: "pool_ok ?p (concat ?l @ rest)" .
      have l: "length ?l = Suc i + length as" "length ?c = Suc i + length as" using len by simp_all
      have tl: "take (Suc i) ?l = take i locs @ [but_last_n K (locs ! i)]" "take (Suc i) ?c = take i counts @ [counts ! i - int K]"
        using i by (simp_all add: take_Suc_conv_app_nth)
      have dl: "drop (Suc i) ?l = drop (Suc i) locs" "drop (Suc i) ?c = drop (Suc i) counts" by simp_all
      have fr: "kp_version ?p = kp_version p" "kp_capture ?p = kp_capture p" "kp_size ?p = kp_size p"
        "kp_heads ?p = kp_heads p" "kp_dim ?p = kp_dim p" by (simp_all add: kv_free_def)
      from Cons.IH[OF l ok] show ?thesis unfolding r tl dl fr
        using True False by (auto simp: idx dr rolled_def rolled_count_def split: prod.splits sum.splits)
    qed
  qed
qed

lemma fill_row_exact: "length ids = nat n \<Longrightarrow> 0 \<le> n \<Longrightarrow> nat n \<le> width \<Longrightarrow> fill_row width n ids = Inr (ids @ replicate (width - nat n) 0)"
proof -
  assume a: "length ids = nat n" "0 \<le> n" "nat n \<le> width"
  then have "min n (int width) = n" by linarith
  then show ?thesis using a by (simp add: fill_row_def Let_def)
qed

lemma alloc_rows_each:
  assumes "pool_ok p owned" "\<forall>n\<in>set ns. 0 \<le> n \<and> nat n \<le> width"
  shows "case alloc_rows width ns p of
      (Inl e, q) \<Rightarrow> alloc_each kv_alloc ns p = Inl e
    | (Inr new, q) \<Rightarrow> alloc_each kv_alloc ns p = Inr (map fst new, q)
        \<and> map snd new = map (\<lambda>ids. ids @ replicate (width - length ids) 0) (map fst new)"
  using assms
proof (induction ns arbitrary: p owned)
  case (Cons n ns)
  show ?case
  proof (cases "kv_alloc n p")
    case (Inl e)
    then show ?thesis by (simp add: st_bind_def st_update_def)
  next
    case (Inr r)
    obtain ids p1 where r: "r = (ids, p1)" by (cases r)
    note al = kv_alloc_ok[OF Cons.prems(1) Inr[unfolded r]]
    have "fill_row width n ids = Inr (ids @ replicate (width - nat n) 0)"
      by (rule fill_row_exact) (use al(2) Cons.prems(2) in simp_all)
    with Inr r have e: "alloc_rows width (n # ns) p
      = st_bind (alloc_rows width ns) (\<lambda>rest. st_res (Inr ((ids, ids @ replicate (width - nat n) 0) # rest))) p1"
      by (simp add: st_bind_def st_update_def st_res_def)
    have "\<forall>n\<in>set ns. 0 \<le> n \<and> nat n \<le> width" using Cons.prems(2) by simp
    from Cons.IH[OF al(1) this] show ?thesis unfolding e using Inr r al(2)
      by (auto simp: st_bind_def st_res_def split: prod.splits sum.splits)
  qed
qed (simp add: st_res_def)
section \<open>Plan, replay and the writes\<close>

lemma build_refresh_plan_fields:
  assumes "build_refresh_plan cuda z h order tok hid accepts pos loc counts w al K None = Inr plan"
  shows "rp_new_slots plan = map (\<lambda>a. (a + 1) * K) accepts" "rp_n_per_req plan = map (\<lambda>a. a + 1) accepts"
    "0 < K" "length pos = length accepts" "length counts = length accepts"
proof -
  have g: "0 < K" "length pos = length accepts" "length counts = length accepts"
    using assms unfolding build_refresh_plan_def by (auto split: if_split_asm)
  then show "0 < K" "length pos = length accepts" "length counts = length accepts" by simp_all
  have up: "map (\<lambda>b. accepts ! b) [0..<length accepts] = accepts" by (rule map_nth)
  have ups: "map (\<lambda>b. f (accepts ! b)) [0..<length accepts] = map f accepts" for f :: "int \<Rightarrow> int"
    using map_as_upt[OF refl, of f accepts] by simp
  have c: "rp_new_slots (cuda_plan z h tok hid accepts pos counts k c) = map (\<lambda>a. (a + 1) * int k) accepts"
    "rp_n_per_req (cuda_plan z h tok hid accepts pos counts k c) = map (\<lambda>a. a + 1) accepts" for k c
    using ups[of "\<lambda>a. (a + 1) * int k"] ups[of "\<lambda>a. a + 1"] by (simp_all add: cuda_plan_def Let_def)
  have t: "rp_new_slots (torch_plan z' order tok hid accepts pos loc counts al k c out) = map (\<lambda>a. (a + 1) * int k) accepts"
    "rp_n_per_req (torch_plan z' order tok hid accepts pos loc counts al k c out) = map (\<lambda>a. a + 1) accepts" for z' k c out
    by (simp_all add: torch_plan_def Let_def split: prod.split)
  obtain k c z' where "int k = K" "plan = cuda_plan z h tok hid accepts pos counts k c
      \<or> plan = torch_plan z' order tok hid accepts pos loc counts al k c None"
  proof
    show "int (nat K) = K" using g(1) by simp
    show "plan = cuda_plan z h tok hid accepts pos counts (nat K) (w div nat K)
      \<or> plan = torch_plan (replicate h z) order tok hid accepts pos loc counts al (nat K) (w div nat K) None"
      using assms unfolding build_refresh_plan_def by (auto simp: Let_def split: if_split_asm)
  qed
  then show "rp_new_slots plan = map (\<lambda>a. (a + 1) * K) accepts" "rp_n_per_req plan = map (\<lambda>a. a + 1) accepts"
    using c t by auto
qed

lemma run_bucket_runner_ok:
  assumes "runner_ok p g" "run_bucket p key g = (r, g')"
  shows "runner_ok p g'"
proof -
  obtain ok g1 where c: "can_run p key g = (ok, g1)" by (cases "can_run p key g")
  have g1: "runner_ok p g1" using c assms(1) by (auto simp: can_run_def runner_ok_invalidate split: if_splits)
  have rep: "runner_ok p g2 \<Longrightarrow> replay p key g2 = (r, g') \<Longrightarrow> runner_ok p g'" for g2
    by (auto simp: replay_def runner_ok_invalidate split: option.splits if_splits)
  show ?thesis
  proof (cases "ok \<or> (\<exists>e. capture_one p key g1 = Inl e)")
    case True
    then show ?thesis using assms(2) c g1 rep by (auto simp: run_bucket_def split: if_splits)
  next
    case False
    then obtain g2 where "capture_one p key g1 = Inr g2" by (cases "capture_one p key g1") auto
    with False assms(2) c show ?thesis using rep[OF runner_ok_capture[OF g1]] by (simp add: run_bucket_def)
  qed
qed

lemma replay_draft_state:
  assumes "replay_draft net h3 K key bs x (p, g) = (r, q, g')" "runner_ok p g"
  shows "q = p \<and> runner_ok p g' \<and> (\<forall>out. r = Inr out \<longrightarrow>
    (\<exists>y. copy_inputs K bs x (new_inputs h3 K key) (key, h3) = Inr y \<and> out = net key y p))"
proof -
  obtain r0 g1 where r0: "run_bucket p key g = (r0, g1)" by (cases "run_bucket p key g")
  note ok = run_bucket_runner_ok[OF assms(2) r0]
  show ?thesis using assms(1) r0 ok
    by (cases r0; cases "copy_inputs K bs x (new_inputs h3 K key) (key, h3)") (auto simp: replay_draft_def st_bind_def st_res_def)
qed

lemma guard_Inr: "(if b then Inl e else x) = Inr y \<longleftrightarrow> \<not> b \<and> x = Inr y"
  by simp

text \<open>The live entries of the padded index table are exactly the new slots.\<close>

lemma distinct_concat_nth:
  "distinct (concat xss) \<Longrightarrow> b < length xss \<Longrightarrow> s < length (xss ! b) \<Longrightarrow> c < length xss \<Longrightarrow> t < length (xss ! c)
    \<Longrightarrow> xss ! b ! s = xss ! c ! t \<Longrightarrow> b = c \<and> s = t"
proof (induction xss arbitrary: b c)
  case (Cons xs xss)
  have no: "xs ! i = xss ! j ! k \<Longrightarrow> i < length xs \<Longrightarrow> j < length xss \<Longrightarrow> k < length (xss ! j) \<Longrightarrow> False" for i j k
  proof -
    assume "xs ! i = xss ! j ! k" "i < length xs" "j < length xss" "k < length (xss ! j)"
    then have "xs ! i \<in> set xs" "xss ! j \<in> set xss" "xs ! i \<in> set (xss ! j)" by (metis nth_mem)+
    then show False using Cons.prems(1) by auto
  qed
  show ?case
  proof (cases b)
    case 0
    then show ?thesis using Cons.prems no[of s "c - 1" t] by (cases c) (auto simp: nth_eq_iff_index_eq)
  next
    case (Suc b')
    show ?thesis
    proof (cases c)
      case 0
      then show ?thesis using Suc Cons.prems no[of t b' s] by auto
    next
      case c: (Suc c')
      then show ?thesis using Suc Cons.prems Cons.IH[of b' c'] by auto
    qed
  qed
qed simp

lemma set_kv_padded_success:
  assumes p: "pool_ok p owned" and run: "set_kv_padded layer indices shk ck shv cv valid p = Inr q"
    and ind: "indices = map (\<lambda>ids. ids @ replicate (S - length ids) 0) new" "\<forall>ids\<in>set new. length ids \<le> S" "0 < S"
    and val: "valid = map (\<lambda>ids. int (length ids)) new" and own: "set (concat new) \<subseteq> set owned" "distinct (concat new)"
  shows "pool_ok q owned \<and> same_pool (set (concat new)) p q
    \<and> (\<forall>b<length new. \<forall>s<length (new ! b). layer_data q layer (new ! b ! s)
          = (padded_row (kp_heads p) (kp_dim p) ck b s, padded_row (kp_heads p) (kp_dim p) cv b s))
    \<and> (\<forall>m s. 0 \<le> s \<longrightarrow> s < kp_size p \<longrightarrow> m \<noteq> layer \<longrightarrow> layer_data q m s = layer_data p m s)"
proof (cases "new = []")
  case True
  then show ?thesis using p run ind(1) by (simp add: set_kv_padded_def same_pool_refl)
next
  case False
  let ?B = "length new"
  have rows: "\<forall>r\<in>set indices. length r = S" using ind(1,2) by auto
  have ne: "concat indices \<noteq> []" using rows ind(3) False ind(1) by (cases new) auto
  have li: "length indices = ?B" by (simp add: ind(1))
  then have row: "\<exists>r\<in>set indices. length r = S" using rows False by (cases indices) auto
  obtain x1 x2 x3 x4 where shk: "shk = (x1, x2, x3, x4)" by (cases shk)
  have same: "shk = shv" and geo: "length indices = x1" "\<forall>r\<in>set indices. length r = x3" "x2 = kp_heads p" "x4 = kp_dim p" "layer < length (kp_k p)"
    using run ne unfolding set_kv_padded_def shk by (auto simp del: concat_eq_Nil_conv simp: guard_Inr)
  have sh: "shk = (?B, kp_heads p, S, kp_dim p)" "shv = shk" "layer < length (kp_k p)"
    using geo li row same shk by auto
  have live: "live_slot ?B S valid (b, s) \<longleftrightarrow> b < ?B \<and> s < length (new ! b)" for b s
    using ind(2) nth_mem[of b new] by (fastforce simp: live_slot_def val)
  have at: "indices ! b ! s = new ! b ! s" if "b < ?B" "s < length (new ! b)" for b s
    using that by (simp add: ind(1) nth_append)
  have mem: "new ! b ! s \<in> set (concat new)" if "b < ?B" "s < length (new ! b)" for b s
    using that by (auto intro!: bexI[of _ "new ! b"])
  have l: "layer < kp_layers p" using sh(3) p by (simp add: pool_ok_def buffers_ok_def)
  have pre: "length indices = ?B" "length valid = ?B" "0 < ?B"
    "\<forall>b s. live_slot ?B S valid (b, s) \<longrightarrow> indices ! b ! s \<in> set owned"
    "\<forall>b s b' s'. live_slot ?B S valid (b, s) \<longrightarrow> live_slot ?B S valid (b', s')
      \<longrightarrow> indices ! b ! s = indices ! b' ! s' \<longrightarrow> b = b' \<and> s = s'"
    using False ind(1) own(1) live at mem distinct_concat_nth[OF own(2)] by (auto simp: val)
  have upd: "kp_version q = kp_version p" "kp_capture q = kp_capture p"
    using run by (auto simp: set_kv_padded_def Let_def split: if_splits prod.splits)
  obtain q' where q': "set_kv_padded layer indices shk ck shk cv valid p = Inr q'" "pool_ok q' owned"
     "kp_layers q' = kp_layers p" "kp_heads q' = kp_heads p" "kp_dim q' = kp_dim p" "kp_size q' = kp_size p"
     "\<forall>b s. live_slot ?B S valid (b, s) \<longrightarrow> layer_data q' layer (indices ! b ! s)
          = (padded_row (kp_heads p) (kp_dim p) ck b s, padded_row (kp_heads p) (kp_dim p) cv b s)"
     "\<forall>m s. 0 \<le> s \<longrightarrow> s < kp_size p
          \<longrightarrow> m \<noteq> layer \<or> (\<forall>b t. live_slot ?B S valid (b, t) \<longrightarrow> indices ! b ! t \<noteq> s)
          \<longrightarrow> layer_data q' m s = layer_data p m s"
    using set_kv_padded_ok[OF p l sh(1) pre(1) rows pre(2,3) ind(3) pre(4,5), where ck = ck and cv = cv] by blast
  have "q' = q" using q'(1) run sh(2) by simp
  moreover have "\<forall>b t. live_slot ?B S valid (b, t) \<longrightarrow> indices ! b ! t \<noteq> s" if "s \<notin> set (concat new)" for s
    using that live at mem by metis
  ultimately show ?thesis using q' upd live at by (simp add: same_pool_def)
qed
lemma write_layers_success:
  assumes "pool_ok p owned" "write_layers layer bs indices valid kvs p = (Inr u, q)"
    and ind: "indices = map (\<lambda>ids. ids @ replicate (S - length ids) 0) new" "\<forall>ids\<in>set new. length ids \<le> S" "0 < S"
    and val: "valid = map (\<lambda>ids. int (length ids)) new" and own: "set (concat new) \<subseteq> set owned" "distinct (concat new)"
  shows "pool_ok q owned \<and> same_pool (set (concat new)) p q
    \<and> (\<forall>l<length kvs. \<forall>b<length new. \<forall>s<length (new ! b). layer_data q (layer + l) (new ! b ! s)
          = (padded_row (kp_heads p) (kp_dim p) (snd (first_rows bs (fst (kvs ! l)))) b s,
             padded_row (kp_heads p) (kp_dim p) (snd (first_rows bs (snd (kvs ! l)))) b s))
    \<and> (\<forall>m s. m < layer \<longrightarrow> 0 \<le> s \<longrightarrow> s < kp_size p \<longrightarrow> layer_data q m s = layer_data p m s)"
  using assms(1,2)
proof (induction kvs arbitrary: p layer)
  case (Cons kv kvs)
  obtain k v where kv: "kv = (k, v)" by (cases kv)
  obtain p1 where p1: "set_kv_padded layer indices (fst (first_rows bs k)) (snd (first_rows bs k))
            (fst (first_rows bs v)) (snd (first_rows bs v)) valid p = Inr p1"
    "write_layers (Suc layer) bs indices valid kvs p1 = (Inr u, q)"
    using Cons.prems(2) by (auto simp: kv)
  note w = set_kv_padded_success[OF Cons.prems(1) p1(1) ind val own]
  have ok1: "pool_ok p1 owned" using w by blast
  note IH = Cons.IH[OF ok1 p1(2)]
  have geo: "kp_heads p1 = kp_heads p" "kp_dim p1 = kp_dim p" "kp_size p1 = kp_size p" using w by (simp_all add: same_pool_def)
  have ran: "0 \<le> new ! b ! s \<and> new ! b ! s < kp_size p" if "b < length new" "s < length (new ! b)" for b s
  proof -
    have "new ! b ! s \<in> set (concat new)" using that by (auto intro!: bexI[of _ "new ! b"])
    then show ?thesis using own(1) pool_ok_owned(2)[OF Cons.prems(1)] by force
  qed
  have "layer_data q (layer + l) (new ! b ! s)
          = (padded_row (kp_heads p) (kp_dim p) (snd (first_rows bs (fst ((kv # kvs) ! l)))) b s,
             padded_row (kp_heads p) (kp_dim p) (snd (first_rows bs (snd ((kv # kvs) ! l)))) b s)"
    if "l < Suc (length kvs)" "b < length new" "s < length (new ! b)" for l b s
  proof (cases l)
    case 0
    then show ?thesis using IH w ran[OF that(2,3)] that geo by (simp add: kv)
  next
    case (Suc l')
    then show ?thesis using IH that geo by simp
  qed
  moreover have "same_pool (set (concat new)) p q" using w IH same_pool_trans by blast
  ultimately show ?case using IH w geo by auto
qed (auto simp: same_pool_refl)

text \<open>What the draft network sees of the slots: every request's retained slots, padded and masked.\<close>

lemma cross_rows_exact:
  assumes "cross_rows cb bs (ls, map (\<lambda>l. int (length l)) ls) = Inr rows" "length ls = bs" "\<forall>l\<in>set ls. length l \<le> cb"
  shows "rows = map (\<lambda>l. (l @ replicate (cb - length l) 0, map (\<lambda>j. j < length l) [0..<cb])) ls"
proof (rule nth_equalityI)
  show len: "length rows = length (map (\<lambda>l. (l @ replicate (cb - length l) 0, map (\<lambda>j. j < length l) [0..<cb])) ls)"
    using res_map_Inr_length[OF assms(1)[unfolded cross_rows_def]] assms(2) by simp
  fix i assume "i < length rows"
  then have i: "i < bs" "i < length ls" using len assms(2) by simp_all
  then have "length (ls ! i) \<le> cb" using assms(3) by simp
  note f = fill_row_exact[of "ls ! i" "int (length (ls ! i))" cb]
  show "rows ! i = map (\<lambda>l. (l @ replicate (cb - length l) 0, map (\<lambda>j. j < length l) [0..<cb])) ls ! i"
  proof (cases "ls ! i = []")
    case True
    then show ?thesis using res_map_Inr_nth[OF assms(1)[unfolded cross_rows_def], of i] i
      by (auto simp: map_replicate_const)
  next
    case False
    then have "0 < length (ls ! i)" by simp
    then show ?thesis using res_map_Inr_nth[OF assms(1)[unfolded cross_rows_def], of i] i f \<open>length (ls ! i) \<le> cb\<close>
      by (auto simp: not_le)
  qed
qed

lemma put_active_take: "length new = n \<Longrightarrow> take n (put_active f n new t) = new"
  by (simp add: put_active_def)

lemma copy_inputs_take:
  assumes "copy_inputs K n x buf ((b, c, a), h3) = Inr y"
  shows "take n (gi_hidden y) = gi_hidden x" "take n (gi_tokens y) = gi_tokens x" "take n (gi_pos_ids y) = gi_pos_ids x"
    "take n (gi_cross_loc y) = gi_cross_loc x" "take n (gi_cross_mask y) = gi_cross_mask x" "take n (gi_n_per_req y) = gi_n_per_req x"
  using assms by (auto simp: copy_inputs_def guard_Inr put_active_take shape2_def shape3_def)

lemma rolled_lengths:
  assumes "length locs = length accepts" "0 < K" "\<forall>i<length accepts. accepts ! i = 0 \<longrightarrow> int K \<le> int (length (locs ! i))"
  shows "map2 (rolled_count K) accepts (map (\<lambda>l. int (length l)) locs) = map (\<lambda>l. int (length l)) (map2 (rolled K) accepts locs)"
  using assms by (intro nth_equalityI) (auto simp: rolled_def rolled_count_def but_last_n_def)

section \<open>The refresh keeps the pool\<close>

lemma alloc_rows_runner:
  "runner_ok p g \<Longrightarrow> alloc_rows w ns p = (r, q) \<Longrightarrow> runner_ok q g \<and> kp_capture q = kp_capture p
    \<and> kp_heads q = kp_heads p \<and> kp_dim q = kp_dim p \<and> kp_layers q = kp_layers p"
proof (induction ns arbitrary: p r)
  case (Cons n ns)
  show ?case
  proof (cases "kv_alloc n p")
    case (Inl e)
    then show ?thesis using Cons.prems by (simp add: st_bind_def st_update_def)
  next
    case (Inr x)
    obtain ids p1 where x: "x = (ids, p1)" by (cases x)
    have g1: "runner_ok p1 g" by (rule runner_ok_pool[OF Cons.prems(1) kv_alloc_version[OF Inr[unfolded x]]])
    have same: "kp_capture p1 = kp_capture p" "kp_heads p1 = kp_heads p" "kp_dim p1 = kp_dim p" "kp_layers p1 = kp_layers p"
      using Inr x by (auto simp: kv_alloc_def kv_grow_def Let_def split: if_splits)
    show ?thesis
    proof (cases "fill_row w n ids")
      case (Inl e)
      then show ?thesis using Cons.prems Inr x g1 same
        by (simp add: st_bind_def st_update_def st_res_def)
    next
      case row: (Inr row)
      obtain r1 q1 where a: "alloc_rows w ns p1 = (r1, q1)" by (cases "alloc_rows w ns p1")
      have "q1 = q" using Cons.prems(2) Inr x row a
        by (cases r1) (simp_all add: st_bind_def st_update_def st_res_def)
      then show ?thesis using Cons.IH[OF g1, of r1] a same by simp
    qed
  qed
qed (simp add: st_res_def)

lemma concat_map2_append_mset:
  "length xs = length ys \<Longrightarrow> mset (concat (map2 (@) xs ys)) = mset (concat xs) + mset (concat ys)"
  by (induction xs ys rule: list_induct2) (auto simp: ac_simps)

lemma resolve_buckets_covers:
  "resolve_buckets g n c a = Some (b, cb, ab) \<Longrightarrow> n \<le> b \<and> c \<le> cb \<and> a \<le> ab"
  by (auto simp: resolve_buckets_def split: option.splits dest!: resolve_first_SomeD)

lemma map2_upt: "length xs = n \<Longrightarrow> length ys = n \<Longrightarrow> map (\<lambda>i. f (xs ! i) (ys ! i)) [0..<n] = map2 f xs ys"
  by (rule nth_equalityI) simp_all

lemma refresh_success:
  fixes net :: "bucket \<Rightarrow> 'v::zero graph_inputs \<Rightarrow> 'v kv_pool \<Rightarrow> ('v, 'w, 'y) draft_output"
  assumes pool: "pool_ok p (concat (cs_loc vi) @ rest)" and run: "runner_ok p g"
    and len: "length (cs_loc vi) = length accepts" "length (cs_count vi) = length accepts" and pos: "\<forall>a\<in>set accepts. 0 \<le> a"
    and ref: "refresh_draft_state net cuda L h3 K verified_id h accepts vi (p, g) = (Inr d, q, g')"
  obtains new and out :: "('v, 'w, 'y) draft_output" where
    "map length new = map (\<lambda>a. nat ((a + 1) * int K)) accepts"
    "cs_loc d = map2 (@) (map2 (rolled K) accepts (cs_loc vi)) new"
    "cs_count d = map2 (\<lambda>c a. c + (a + 1) * int K) (map2 (rolled_count K) accepts (cs_count vi)) accepts"
    "cs_position d = map2 (\<lambda>pos a. if a = 0 then pos else pos + 1 + (a + 1)) (cs_position vi) accepts"
    "cross_ok (length accepts) d" "pool_ok q (concat (cs_loc d) @ rest)" "runner_ok q g'" "kp_capture q = kp_capture p"
    "\<forall>s\<in>insert 0 (set (concat (map2 (rolled K) accepts (cs_loc vi)) @ rest)). slot_data q s = slot_data p s"
    "\<forall>l<length (do_cross_kv out). \<forall>b<length new. \<forall>s<length (new ! b). layer_data q l (new ! b ! s)
          = (padded_row (kp_heads p) (kp_dim p) (snd (first_rows (length accepts) (fst (do_cross_kv out ! l)))) b s,
             padded_row (kp_heads p) (kp_dim p) (snd (first_rows (length accepts) (snd (do_cross_kv out ! l)))) b s)"
    "\<forall>i<length accepts. accepts ! i = 0 \<longrightarrow> int K \<le> cs_count vi ! i"
    "length (cs_position vi) = length accepts" "0 < K"
    "\<exists>key y r. out = net key y r \<and> (\<forall>s\<in>insert 0 (set (concat (map2 (rolled K) accepts (cs_loc vi)) @ rest)). slot_data r s = slot_data p s)
      \<and> take (length accepts) (gi_n_per_req y) = map (\<lambda>a. a + 1) accepts
      \<and> (cs_count vi = map (\<lambda>l. int (length l)) (cs_loc vi) \<longrightarrow>
          take (length accepts) (gi_cross_loc y) = map (\<lambda>l. l @ replicate (fst (snd key) - length l) 0) (map2 (rolled K) accepts (cs_loc vi))
          \<and> take (length accepts) (gi_cross_mask y)
              = map (\<lambda>l. map (\<lambda>j. j < length l) [0..<fst (snd key)]) (map2 (rolled K) accepts (cs_loc vi)))"
proof -
  let ?bs = "length accepts" and ?Ns = "map (\<lambda>a. a + 1) accepts"
  obtain hidden where h: "h = Some hidden" using ref by (cases h) (auto simp: refresh_draft_state_def)
  note R = ref[unfolded refresh_draft_state_def h option.case Let_def]
  from R show thesis
  proof (elim st_bindE, goal_cases)
    case (1 lc s1 max_n s2 key s3 rows s4 new s5 plan s6 out s7 u s8 ttt s9)
    obtain bcap cb ab where key: "key = (bcap, cb, ab)" by (cases key)
    obtain p1 r where st: "s1 = (p1, g)" "s2 = s1" "s3 = s1" "s4 = s1" "s5 = (r, g)" "s6 = s5"
      using 1 by (cases s1; cases s5) (auto simp: pick_bucket_def split: if_splits)
    have rb: "rollback K 0 accepts (cs_loc vi, cs_count vi) p = (Inr lc, p1)" using 1(1) st by simp
    have mx: "resolve_buckets g ?bs (nat (if snd lc = [] then 0 else Max (set (snd lc)))) (nat (Max (set ?Ns))) = Some (bcap, cb, ab)"
      using 1(2,3) st by (simp add: pick_bucket_Inr key split: if_splits)
    have al: "alloc_rows (ab * K) (map (\<lambda>n. n * int K) ?Ns) p1 = (Inr new, r)" using 1(5) st key by simp
    obtain ls cs where lc: "lc = (ls, cs)" by (cases lc)
    note spec = rollback_spec[of "cs_loc vi" 0 accepts "cs_count vi" p rest K, unfolded rb lc prod.case sum.case]
    have rs: "ls = map2 (rolled K) accepts (cs_loc vi)" "cs = map2 (rolled_count K) accepts (cs_count vi)"
      "\<forall>j<?bs. accepts ! j = 0 \<longrightarrow> int K \<le> cs_count vi ! j" "pool_ok p1 (concat ls @ rest)" "\<forall>s. slot_data p1 s = slot_data p s"
      "kp_version p1 = kp_version p" "kp_capture p1 = kp_capture p" "kp_size p1 = kp_size p" "kp_heads p1 = kp_heads p" "kp_dim p1 = kp_dim p"
      using spec len pool by auto
    have g1: "runner_ok p1 g" by (rule runner_ok_pool[OF run]) (simp add: rs)
    have Kp: "0 < K" and plan: "rp_new_slots plan = map (\<lambda>a. (a + 1) * int K) accepts" and posl: "length (cs_position vi) = ?bs"
      using build_refresh_plan_fields[of cuda 0 h3 "[]" verified_id hidden accepts "cs_position vi" "map fst rows" "snd lc"
          "ab * K" "map snd new" "int K" plan] 1(6) key by simp_all
    have ne: "accepts \<noteq> []" using 1(2) by (auto split: if_splits)
    have mem: "1 \<le> a + 1 \<and> nat (a + 1) \<le> ab" if "a \<in> set accepts" for a
    proof -
      have "a + 1 \<le> Max (set ?Ns)" using that by (intro Max_ge) auto
      moreover have "nat (Max (set ?Ns)) \<le> ab" using resolve_buckets_covers[OF mx] by simp
      moreover have "0 \<le> a" using pos that by blast
      ultimately show ?thesis by linarith
    qed
    have ab: "0 < ab * K" using mem[of "hd accepts"] ne Kp by (cases ab) auto
    have fits: "\<forall>n\<in>set (map (\<lambda>n. n * int K) ?Ns). 0 \<le> n \<and> nat n \<le> ab * K"
    proof
      fix n assume "n \<in> set (map (\<lambda>n. n * int K) ?Ns)"
      then obtain a where a: "a \<in> set accepts" "n = (a + 1) * int K" by auto
      have "a + 1 \<le> int ab" using mem[OF a(1)] by linarith
      then have "n \<le> int ab * int K" unfolding a(2) by (intro mult_right_mono) simp_all
      then show "0 \<le> n \<and> nat n \<le> ab * K" using mem[OF a(1)] a(2) by (simp add: nat_le_iff)
    qed
    define fresh where "fresh = map fst new"
    have ae: "alloc_each kv_alloc (map (\<lambda>n. n * int K) ?Ns) p1 = Inr (fresh, r)"
      "map snd new = map (\<lambda>ids. ids @ replicate (ab * K - length ids) 0) fresh"
      using alloc_rows_each[OF rs(4) fits] al by (simp_all add: fresh_def)
    have ao: "pool_ok r ((concat ls @ rest) @ concat fresh)" "map length fresh = map nat (map (\<lambda>n. n * int K) ?Ns)"
      "\<forall>s\<in>insert 0 (set (concat ls @ rest)). slot_data r s = slot_data p1 s"
      using kvp.alloc_each_ok[OF rs(4) ae(1)] by simp_all
    have lens: "map length fresh = map (\<lambda>a. nat ((a + 1) * int K)) accepts" using ao(2) by simp
    have val: "rp_new_slots plan = map (\<lambda>ids. int (length ids)) fresh"
    proof -
      have "map (\<lambda>ids. int (length ids)) fresh = map int (map length fresh)" by simp
      also have "\<dots> = map (\<lambda>a. (a + 1) * int K) accepts" unfolding lens using pos by simp
      finally show ?thesis using plan by simp
    qed
    have nl: "length fresh = ?bs" using arg_cong[OF lens, of length] by simp
    note gr = alloc_rows_runner[OF g1 al]
    have S: "\<forall>ids\<in>set fresh. length ids \<le> ab * K"
    proof
      fix ids assume "ids \<in> set fresh"
      then have "length ids \<in> set (map nat (map (\<lambda>n. n * int K) ?Ns))" unfolding ao(2)[symmetric] by simp
      then show "length ids \<le> ab * K" using fits by auto
    qed
    have rep: "s7 = (r, snd s7)" "runner_ok r (snd s7)"
      using replay_draft_state[of net h3 K key ?bs "plan_inputs plan rows" r g "Inr out" "fst s7" "snd s7"] 1(7) st gr
      by (auto simp: prod_eq_iff)
    have wr: "write_layers 0 ?bs (map snd new) (rp_new_slots plan) (do_cross_kv out) r = (Inr u, q)" and g': "g' = snd s7"
      using 1(8-10) rep(1) by (cases s7; auto)+
    have own: "set (concat fresh) \<subseteq> set ((concat ls @ rest) @ concat fresh)" "distinct (concat fresh)"
      using pool_ok_owned(1)[OF ao(1)] by auto
    note w = write_layers_success[OF ao(1) wr ae(2) S ab val own]
    have d: "d = refresh_result K ?bs accepts lc (cs_position vi) fresh plan out ttt"
      using 1(10) by (simp add: fresh_def)
    have ll: "length ls = ?bs" "length cs = ?bs" using rs(1,2) len by simp_all
    have loc: "cs_loc d = map2 (@) ls fresh" using nl ll by (simp add: d refresh_result_def lc map2_upt)
    have tt: "length ttt = ?bs" using 1(9) by (auto simp: ttt_rows_def split: if_splits)
    have "mset ((concat ls @ rest) @ concat fresh) = mset (concat (cs_loc d) @ rest)"
      using concat_map2_append_mset[of ls fresh] ll nl by (simp add: loc)
    then have okq: "pool_ok q (concat (cs_loc d) @ rest)" using w kvp.owned_mset by metis
    have keep: "slot_data q s = slot_data p s" if s: "s \<in> insert 0 (set (concat ls @ rest))" for s
    proof -
      have "s \<notin> set (concat fresh)" using s pool_ok_owned(1,3)[OF ao(1)] by auto
      then have "slot_data q s = slot_data r s"
        using same_pool_slot[OF ao(1), of "set (concat fresh)" q s] w s by auto
      also have "\<dots> = slot_data p1 s" by (rule bspec[OF ao(3) s])
      also have "\<dots> = slot_data p s" using rs(5) by blast
      finally show ?thesis .
    qed
    obtain y where y: "copy_inputs K ?bs (plan_inputs plan rows) (new_inputs h3 K key) (key, h3) = Inr y" "out = net key y r"
      using replay_draft_state[of net h3 K key ?bs "plan_inputs plan rows" r g "Inr out" "fst s7" "snd s7"] 1(7) st gr by auto
    note tk = copy_inputs_take[OF y(1)[unfolded key], unfolded plan_inputs_def graph_inputs.simps]
    have rowe: "rows = map (\<lambda>l. (l @ replicate (cb - length l) 0, map (\<lambda>j. j < length l) [0..<cb])) ls"
      if cnt: "cs_count vi = map (\<lambda>l. int (length l)) (cs_loc vi)"
    proof (rule cross_rows_exact)
      have "cs = map (\<lambda>l. int (length l)) ls"
        unfolding rs(1,2) cnt by (rule rolled_lengths[OF len(1) Kp]) (use rs(3) cnt len(1) in simp)
      then have lcs: "lc = (ls, map (\<lambda>l. int (length l)) ls)" using lc by simp
      show "cross_rows cb ?bs (ls, map (\<lambda>l. int (length l)) ls) = Inr rows" using 1(4) st key lcs by simp
      show "length ls = ?bs" by (rule ll(1))
      have "snd lc \<noteq> []" using ne ll(1) lcs by auto
      then have mx': "nat (Max (set (snd lc))) \<le> cb" using resolve_buckets_covers[OF mx] by simp
      show "\<forall>l\<in>set ls. length l \<le> cb"
      proof
        fix l assume "l \<in> set ls"
        then have "int (length l) \<le> Max (set (snd lc))" by (intro Max_ge) (auto simp: lcs)
        then show "length l \<le> cb" using mx' by linarith
      qed
    qed
    have npr: "rp_n_per_req plan = ?Ns"
      using build_refresh_plan_fields(2)[of cuda 0 h3 "[]" verified_id hidden accepts "cs_position vi" "map fst rows" "snd lc"
          "ab * K" "map snd new" "int K" plan] 1(6) key by simp
    have rdata: "slot_data r s = slot_data p s" if s: "s \<in> insert 0 (set (concat ls @ rest))" for s
      using bspec[OF ao(3) s] rs(5) by simp
    show thesis
    proof (rule that[of fresh out])
      show "\<exists>key y r. out = net key y r \<and> (\<forall>s\<in>insert 0 (set (concat (map2 (rolled K) accepts (cs_loc vi)) @ rest)). slot_data r s = slot_data p s)
      \<and> take ?bs (gi_n_per_req y) = ?Ns
      \<and> (cs_count vi = map (\<lambda>l. int (length l)) (cs_loc vi) \<longrightarrow>
          take ?bs (gi_cross_loc y) = map (\<lambda>l. l @ replicate (fst (snd key) - length l) 0) (map2 (rolled K) accepts (cs_loc vi))
          \<and> take ?bs (gi_cross_mask y)
              = map (\<lambda>l. map (\<lambda>j. j < length l) [0..<fst (snd key)]) (map2 (rolled K) accepts (cs_loc vi)))"
        unfolding rs(1)[symmetric] using y(2) rdata tk npr rowe
        by (intro exI[of _ key] exI[of _ y] exI[of _ r]) (simp add: key comp_def)
      show "map length fresh = map (\<lambda>a. nat ((a + 1) * int K)) accepts" by (rule lens)
      show "cs_loc d = map2 (@) (map2 (rolled K) accepts (cs_loc vi)) fresh" using loc rs(1) by simp
      show "cs_count d = map2 (\<lambda>c a. c + (a + 1) * int K) (map2 (rolled_count K) accepts (cs_count vi)) accepts"
        unfolding rs(2)[symmetric] using ll map2_upt[of cs ?bs accepts "\<lambda>c a. c + (a + 1) * int K"] by (simp add: d refresh_result_def lc)
      show "cs_position d = map2 (\<lambda>pos a. if a = 0 then pos else pos + 1 + (a + 1)) (cs_position vi) accepts"
        using posl map2_upt[of "cs_position vi" ?bs accepts "\<lambda>pos a. if a = 0 then pos else pos + 1 + (a + 1)"]
        by (simp add: d refresh_result_def)
      show "cross_ok ?bs d" using tt by (simp add: d refresh_result_def cross_ok_def)
      show "pool_ok q (concat (cs_loc d) @ rest)" by (rule okq)
      show "runner_ok q g'" unfolding g' by (rule runner_ok_pool[OF rep(2)]) (use w in \<open>simp add: same_pool_def\<close>)
      show "kp_capture q = kp_capture p" using w gr rs(7) by (simp add: same_pool_def)
      show "\<forall>s\<in>insert 0 (set (concat (map2 (rolled K) accepts (cs_loc vi)) @ rest)). slot_data q s = slot_data p s"
        using keep rs(1) by blast
      show "\<forall>l<length (do_cross_kv out). \<forall>b<length fresh. \<forall>s<length (fresh ! b). layer_data q l (fresh ! b ! s)
          = (padded_row (kp_heads p) (kp_dim p) (snd (first_rows ?bs (fst (do_cross_kv out ! l)))) b s,
             padded_row (kp_heads p) (kp_dim p) (snd (first_rows ?bs (snd (do_cross_kv out ! l)))) b s)"
        using w gr rs(9,10) by simp
    qed (use Kp posl rs(3) in simp_all)
  qed
qed
lemma refreshed_counts:
  assumes len: "length locs = length accepts" and cnt: "counts = map (\<lambda>l. int (length l)) locs" and K: "0 < K"
    and room: "\<forall>i<length accepts. accepts ! i = 0 \<longrightarrow> int K \<le> int (length (locs ! i))"
    and new: "map length new = map (\<lambda>a. nat ((a + 1) * int K)) accepts"
    and loc: "locs' = map2 (@) (map2 (rolled K) accepts locs) new"
    and count: "counts' = map2 (\<lambda>c a. c + (a + 1) * int K) (map2 (rolled_count K) accepts counts) accepts"
    and pos: "\<forall>a\<in>set accepts. 0 \<le> a"
  shows "counts' = map (\<lambda>l. int (length l)) locs'"
proof (rule nth_equalityI)
  have nl: "length new = length accepts" using arg_cong[OF new, of length] by simp
  show "length counts' = length (map (\<lambda>l. int (length l)) locs')" using nl len cnt by (simp add: loc count)
  fix i assume "i < length counts'"
  then have i: "i < length accepts" using len cnt by (simp add: count)
  have "length (new ! i) = nat ((accepts ! i + 1) * int K)" using arg_cong[OF new, of "\<lambda>xs. xs ! i"] i nl by simp
  moreover have "0 \<le> accepts ! i" using pos i by simp
  moreover have "rolled_count K (accepts ! i) (counts ! i) = int (length (rolled K (accepts ! i) (locs ! i)))"
    using arg_cong[OF rolled_lengths[OF len K room], of "\<lambda>xs. xs ! i"] i len by (simp add: cnt)
  ultimately show "counts' ! i = map (\<lambda>l. int (length l)) locs' ! i" using i nl len cnt by (simp add: loc count)
qed

section \<open>Properties\<close>

text \<open>
  C38.  Filtering a batch whose per-request lists and tensors are aligned to any distinct surviving
  requests, in any order, succeeds and keeps the requests aligned: in the filtered batch entry
  \<open>j\<close> of each of the five per-request lists (slots, counts, positions and the two block caches)
  and of each of the eight tensors that is present (under a future map: of its index list, the
  only one that is filtered then) is the entry of request \<open>keep ! j\<close>, and every other field is as it
  was; exactly the slots of the dropped requests are free again (no leak and no double release
  next to any other owner \<open>rest\<close>), and no slot changes its contents.
\<close>

theorem filter_batch_keeps_pool:
  assumes "keeps n keep" "draft_ok n d" "pool_ok p (concat (cs_loc d) @ rest)"
  shows "\<exists>q. filter_batch keep d p = (Inr (pick_cross keep (pick_tensors keep d)), q)
    \<and> draft_ok (length keep) (pick_cross keep (pick_tensors keep d))
    \<and> pool_ok q (concat (picked keep (cs_loc d)) @ rest)
    \<and> kp_n_alloc q = kp_n_alloc p - int (length (concat (dropped_locs keep (cs_loc d))))
    \<and> (\<forall>x. slot_data q x = slot_data p x)"
proof -
  note e = filter_tensors_ok[OF assms(1,2)]
  then have loc: "cs_loc (pick_tensors keep d) = cs_loc d" and c: "cross_ok n (pick_tensors keep d)" by blast+
  from assms(3) have "pool_ok p (concat (cs_loc (pick_tensors keep d)) @ rest)" by (simp only: loc)
  from filter_cross_ok[OF assms(1) c this] obtain q where
    q: "filter_cross keep (pick_tensors keep d) p = (Inr (pick_cross keep (pick_tensors keep d)), q)"
      "pool_ok q (concat (picked keep (cs_loc d)) @ rest)" "\<forall>x. slot_data q x = slot_data p x"
    unfolding loc by blast
  have "mset (concat (cs_loc d)) = mset (concat (dropped_locs keep (cs_loc d)) @ concat (picked keep (cs_loc d)))"
    by (rule picked_dropped_mset[OF assms(1)]) (use assms(2) in \<open>simp add: draft_ok_def cross_ok_def\<close>)
  from mset_eq_length[OF this] have "kp_n_alloc q = kp_n_alloc p - int (length (concat (dropped_locs keep (cs_loc d))))"
    using q(2) assms(3) by (simp add: pool_ok_def)
  moreover have "filter_batch keep d p = (Inr (pick_cross keep (pick_tensors keep d)), q)"
    using e q(1) by (simp only: filter_batch_def st_bind_def st_res_def) simp
  ultimately show ?thesis using e q(2,3) by blast
qed

definition witness_draft :: "(int, int, int) draft_input" where
  "witness_draft = \<lparr>cs_loc = [[3], [2]], cs_count = [1, 1], cs_position = [0, 5], cs_ttt_k = [7, 8], cs_ttt_v = [9, 10],
     cs_pool = True, di_hidden_states = Some [1, 2], di_verified_id = Some [3, 4], di_accept_length = Some [0, 1],
     di_b0_logits = None, di_b0_hidden = None, di_b0_input_id = Some [5, 6], di_b0_rank_logits = None,
     di_b0_top_indices = None, di_future = None\<rparr>"

theorem filter_batch_keeps_pool_witness:
  "\<exists>q. filter_batch [1] witness_draft witness_pool
      = (Inr (witness_draft\<lparr>cs_loc := [[2]], cs_count := [1], cs_position := [5], cs_ttt_k := [8], cs_ttt_v := [10],
               di_hidden_states := Some [2], di_verified_id := Some [4], di_accept_length := Some [1],
               di_b0_input_id := Some [6]\<rparr>), q)
    \<and> pool_ok q [2] \<and> kp_n_alloc q = 1"
proof -
  have w: "keeps 2 [1]" "draft_ok 2 witness_draft" "pool_ok witness_pool (concat (cs_loc witness_draft) @ [])"
    using witness_pool_ok by (simp_all add: keeps_def draft_ok_def cross_ok_def tensor_len_def witness_draft_def)
  have "kp_n_alloc witness_pool = 2" "dropped_locs [1] (cs_loc witness_draft) = [[3]]"
    by (simp_all add: witness_pool_def dropped_locs_def witness_draft_def upt_rec)
  then show ?thesis using filter_batch_keeps_pool[OF w] by (simp add: witness_draft_def) blast
qed

text \<open>
  C39.  Moving a dense prefill cache into the pool is a faithful copy: the transfer either reports
  that no slots are left and changes nothing, or returns as many fresh slots as the cache has, in
  which every layer finds the key and the value of position \<open>i\<close> of the dense cache in slot \<open>i\<close>, and
  all slots owned before, and the sentinel, are unchanged.
\<close>

theorem dense_to_paged_faithful:
  assumes "pool_ok p owned" "0 < n" "kp_layers p \<le> length cache"
    and "\<forall>c\<in>set cache. dense_ok p (nat n) (fst c) \<and> dense_ok p (nat n) (snd c)"
  shows "case dense_to_paged (kp_layers p) cache n p of
      (Inl e, q) \<Rightarrow> q = p \<and> e = RuntimeError \<and> kp_size p - 1 - kp_n_alloc p < n
    | (Inr ids, q) \<Rightarrow> length ids = nat n \<and> pool_ok q (owned @ ids)
        \<and> (\<forall>l<kp_layers p. \<forall>i<nat n. layer_data q l (ids ! i)
              = (map (\<lambda>head. head ! i) (fst (cache ! l)), map (\<lambda>head. head ! i) (snd (cache ! l))))
        \<and> (\<forall>s\<in>insert 0 (set owned). slot_data q s = slot_data p s)"
proof (cases "kv_alloc n p")
  case (Inl e)
  then show ?thesis using kv_alloc_error_iff[OF assms(1), of n e] assms(2)
    by (simp add: dense_to_paged_def st_bind_def st_update_def)
next
  case (Inr x)
  obtain ids r where x: "x = (ids, r)" by (cases x)
  note al = kv_alloc_ok[OF assms(1) Inr[unfolded x]]
  have same: "kp_layers r = kp_layers p" "kp_heads r = kp_heads p" "kp_dim r = kp_dim p"
    using Inr x by (auto simp: kv_alloc_def kv_grow_def Let_def split: if_splits)
  have dn: "\<forall>c\<in>set cache. dense_ok r (nat n) (fst c) \<and> dense_ok r (nat n) (snd c)"
    using assms(4) unfolding dense_ok_def same .
  have ne: "ids \<noteq> []" using al(2) assms(2) by auto
  have di: "distinct ids" "set ids \<subseteq> set (owned @ ids)" using pool_ok_owned(1)[OF al(1)] by auto
  obtain q where q: "write_dense cache ids (nat n) [0..<kp_layers p] r = (Inr (), q)"
      "\<forall>l\<in>set [0..<kp_layers p]. \<forall>i<nat n. layer_data q l (ids ! i)
          = (map (\<lambda>head. head ! i) (fst (cache ! l)), map (\<lambda>head. head ! i) (snd (cache ! l)))"
    using write_dense_complete[OF al(1) di(2,1) ne al(2) _ _ dn, of "[0..<kp_layers p]"] same assms(3) by auto
  have run: "dense_to_paged (kp_layers p) cache n p = (Inr ids, q)"
    using Inr x q(1) assms(2) by (simp add: dense_to_paged_def st_bind_def st_update_def st_res_def)
  show ?thesis unfolding run using dense_to_paged_owned[OF assms(1) run] q(2) by simp
qed

theorem dense_to_paged_faithful_witness:
  "\<exists>q. dense_to_paged 1 [([[[11, 12], [13, 14]]], [[[21, 22], [23, 24]]])] 2 witness_pool = (Inr [1, 4], q)
    \<and> layer_data q 0 4 = ([[13, 14]], [[23, 24]])"
proof -
  let ?c = "[([[[11, 12], [13, 14]]], [[[21, 22], [23, 24]]])] :: int dense_cache"
  have w: "kp_layers witness_pool = 1" "kp_heads witness_pool = 1" "kp_dim witness_pool = 2" "kp_size witness_pool - 1 - kp_n_alloc witness_pool = 3"
    by (simp_all add: witness_pool_def)
  have pre: "kp_layers witness_pool \<le> length ?c"
    "\<forall>c\<in>set ?c. dense_ok witness_pool (nat 2) (fst c) \<and> dense_ok witness_pool (nat 2) (snd c)"
    using w by (simp_all add: dense_ok_def)
  have al: "kv_alloc 2 witness_pool = Inr ([1, 4], witness_pool\<lparr>kp_free := [5], kp_n_alloc := 4\<rparr>)"
    by (simp add: kv_alloc_def witness_pool_def numeral_2_eq_2)
  obtain r q where rq: "dense_to_paged 1 ?c 2 witness_pool = (r, q)" by (cases "dense_to_paged 1 ?c 2 witness_pool")
  note spec = dense_to_paged_faithful[OF witness_pool_ok _ pre, unfolded w(1) rq w(4)]
  show ?thesis
  proof (cases r)
    case (Inl e)
    then show ?thesis using spec by simp
  next
    case (Inr ids)
    then have "ids = [1, 4]" using rq al by (auto simp: dense_to_paged_def)
    moreover have "layer_data q 0 (ids ! 1) = (map (\<lambda>head. head ! 1) (fst (?c ! 0)), map (\<lambda>head. head ! 1) (snd (?c ! 0)))"
      using spec Inr by simp
    ultimately show ?thesis using rq Inr by simp
  qed
qed

text \<open>
  C3.  The refresh after verification, on every batch it completes: a request that accepted
  something keeps all its slots, a request whose root was rejected loses exactly the slots of its
  failed block; every request gains \<open>(accepted + 1) * K\<close> fresh slots that hold, in every layer, its
  rows of the cache the draft network returned; slot counts follow the slots, the position moves
  past the accepted path only when something was accepted; the pool stays consistent with exactly
  these owners, no retained slot changes its contents, and the captured graphs stay valid.
\<close>

theorem refresh_draft_state_correct:
  fixes net :: "bucket \<Rightarrow> 'v::zero graph_inputs \<Rightarrow> 'v kv_pool \<Rightarrow> ('v, 'w, 'y) draft_output"
  assumes "pool_ok p (concat (cs_loc vi) @ rest)" "runner_ok p g" "length (cs_loc vi) = length accepts"
    and "cs_count vi = map (\<lambda>l. int (length l)) (cs_loc vi)" "\<forall>a\<in>set accepts. 0 \<le> a"
    and "refresh_draft_state net cuda L h3 K verified_id h accepts vi (p, g) = (Inr d, q, g')"
  shows "\<exists>new out key y r. map length new = map (\<lambda>a. nat ((a + 1) * int K)) accepts
    \<and> cs_loc d = map2 (@) (map2 (rolled K) accepts (cs_loc vi)) new \<and> cs_count d = map (\<lambda>l. int (length l)) (cs_loc d)
    \<and> cs_position d = map2 (\<lambda>pos a. if a = 0 then pos else pos + a + 2) (cs_position vi) accepts
    \<and> pool_ok q (concat (cs_loc d) @ rest) \<and> runner_ok q g'
    \<and> (\<forall>s\<in>insert 0 (set (concat (map2 (rolled K) accepts (cs_loc vi)) @ rest)).
          slot_data q s = slot_data p s \<and> slot_data r s = slot_data p s)
    \<and> out = net key y r \<and> take (length accepts) (gi_n_per_req y) = map (\<lambda>a. a + 1) accepts
    \<and> take (length accepts) (gi_cross_loc y)
        = map (\<lambda>l. l @ replicate (fst (snd key) - length l) 0) (map2 (rolled K) accepts (cs_loc vi))
    \<and> take (length accepts) (gi_cross_mask y)
        = map (\<lambda>l. map (\<lambda>j. j < length l) [0..<fst (snd key)]) (map2 (rolled K) accepts (cs_loc vi))
    \<and> (\<forall>l<length (do_cross_kv out). \<forall>b<length new. \<forall>s<length (new ! b). layer_data q l (new ! b ! s)
          = (padded_row (kp_heads p) (kp_dim p) (snd (first_rows (length accepts) (fst (do_cross_kv out ! l)))) b s,
             padded_row (kp_heads p) (kp_dim p) (snd (first_rows (length accepts) (snd (do_cross_kv out ! l)))) b s))"
proof -
  have len: "length (cs_count vi) = length accepts" using assms(3,4) by simp
  obtain new and out :: "('v, 'w, 'y) draft_output" and key y r where F:
    "map length new = map (\<lambda>a. nat ((a + 1) * int K)) accepts"
    "cs_loc d = map2 (@) (map2 (rolled K) accepts (cs_loc vi)) new"
    "cs_count d = map2 (\<lambda>c a. c + (a + 1) * int K) (map2 (rolled_count K) accepts (cs_count vi)) accepts"
    "cs_position d = map2 (\<lambda>pos a. if a = 0 then pos else pos + 1 + (a + 1)) (cs_position vi) accepts"
    "pool_ok q (concat (cs_loc d) @ rest)" "runner_ok q g'"
    "\<forall>s\<in>insert 0 (set (concat (map2 (rolled K) accepts (cs_loc vi)) @ rest)). slot_data q s = slot_data p s"
    "\<forall>l<length (do_cross_kv out). \<forall>b<length new. \<forall>s<length (new ! b). layer_data q l (new ! b ! s)
          = (padded_row (kp_heads p) (kp_dim p) (snd (first_rows (length accepts) (fst (do_cross_kv out ! l)))) b s,
             padded_row (kp_heads p) (kp_dim p) (snd (first_rows (length accepts) (snd (do_cross_kv out ! l)))) b s)"
    "\<forall>i<length accepts. accepts ! i = 0 \<longrightarrow> int K \<le> cs_count vi ! i" "0 < K"
    "out = net key y r" "\<forall>s\<in>insert 0 (set (concat (map2 (rolled K) accepts (cs_loc vi)) @ rest)). slot_data r s = slot_data p s"
    "take (length accepts) (gi_n_per_req y) = map (\<lambda>a. a + 1) accepts"
    "take (length accepts) (gi_cross_loc y) = map (\<lambda>l. l @ replicate (fst (snd key) - length l) 0) (map2 (rolled K) accepts (cs_loc vi))"
    "take (length accepts) (gi_cross_mask y)
              = map (\<lambda>l. map (\<lambda>j. j < length l) [0..<fst (snd key)]) (map2 (rolled K) accepts (cs_loc vi))"
    by (rule refresh_success[OF assms(1-3) len assms(5,6)]) (use assms(4) in blast)
  have cnt: "cs_count d = map (\<lambda>l. int (length l)) (cs_loc d)"
    by (rule refreshed_counts[OF assms(3,4) F(10) _ F(1-3) assms(5)]) (use F(9) assms(3,4) in simp)
  have pos: "(\<lambda>pos a. if a = 0 then pos else pos + 1 + (a + 1)) = (\<lambda>pos a. if a = 0 then pos else pos + a + (2 :: int))"
    by (intro ext) simp
  show ?thesis
    by (rule exI[of _ new], rule exI[of _ out], rule exI[of _ key], rule exI[of _ y], rule exI[of _ r])
      (use F cnt pos in simp)
qed
definition witness_net :: "bucket \<Rightarrow> int graph_inputs \<Rightarrow> int kv_pool \<Rightarrow> (int, int, int) draft_output" where
  "witness_net key y r = \<lparr>do_logits = [], do_rank_logits = [], do_hidden = [],
     do_cross_kv = [(((1, 1, 2, 2), [[[[11, 12], [13, 14]]]]), ((1, 1, 2, 2), [[[[21, 22], [23, 24]]]]))],
     do_ttt_kv = [([1], [2])], do_top_indices = []\<rparr>"

definition witness_verify :: "(int list, int, int list list) verify_input" where
  "witness_verify = \<lparr>cs_loc = [[3, 2]], cs_count = [2], cs_position = [7], cs_ttt_k = [[[0]]], cs_ttt_v = [[[0]]], cs_pool = True,
     vi_retrive_index = None, vi_retrive_next_token = None, vi_retrive_next_sibling = None, vi_tree_parents = None,
     vi_hidden_states = None, vi_tree_sizes = None\<rparr>"

lemma witness_refresh_runs:
  "\<exists>d s. refresh_draft_state witness_net False 1 1 1 [5, 6] (Some [[1], [2]]) [1] witness_verify (witness_pool, witness_runner)
     = (Inr d, s) \<and> cs_loc d = [[3, 2, 1, 4]]"
proof -
  let ?r = "witness_pool\<lparr>kp_free := [5], kp_n_alloc := 4\<rparr>"
  have rb: "rollback 1 0 [1] (cs_loc witness_verify, cs_count witness_verify) witness_pool = (Inr ([[3, 2]], [2]), witness_pool)"
    by (simp add: witness_verify_def st_res_def)
  have key: "resolve_buckets witness_runner 1 2 2 = Some (1, 32, 2)" by code_simp
  then have pb: "pick_bucket 1 [2] 2 (witness_pool, witness_runner) = (Inr (1, 32, 2), witness_pool, witness_runner)"
    by (simp add: pick_bucket_def)
  obtain rows where cr: "cross_rows 32 1 ([[3, 2]], [2]) = Inr rows" and
    rows: "rows = [([3, 2] @ replicate 30 0, map (\<lambda>j. int j < 2) [0..<32])]"
    by (simp add: cross_rows_def fill_row_def)
  have al: "alloc_rows 2 [2] witness_pool = (Inr [([1, 4], [1, 4])], ?r)"
    by (simp add: st_bind_def st_update_def st_res_def kv_alloc_def witness_pool_def fill_row_def numeral_2_eq_2)
  define plan :: "int list refresh_plan" where "plan = torch_plan [0] [] [5, 6] [[1], [2]] [1] [7] (map fst rows) [2] [[1, 4]] 1 2 (None :: nat option)"
  have pl: "build_refresh_plan False 0 1 [] [5, 6] [[1], [2]] [1] (cs_position witness_verify) (map fst rows) [2] 2 [[1, 4]] 1 None = Inr plan"
    by (simp add: build_refresh_plan_def witness_verify_def rows plan_def)
  have new: "rp_new_slots plan = [2]" by (simp add: plan_def torch_plan_def Let_def split: prod.split)
  have "case copy_inputs 1 1 (plan_inputs plan rows) (new_inputs 1 1 (1, 32, 2)) ((1, 32, 2), 1) of Inl e \<Rightarrow> False | Inr y \<Rightarrow> True"
    unfolding plan_def rows by code_simp
  then obtain y where cp: "copy_inputs 1 1 (plan_inputs plan rows) (new_inputs 1 1 (1, 32, 2)) ((1, 32, 2), 1) = Inr y"
    by (auto split: sum.splits)
  have rok: "runner_ok ?r witness_runner" "\<not> kp_capture ?r"
    unfolding witness_runner_def by (rule runner_ok_init) (simp add: witness_pool_def)
  from run_bucket_ok[OF rok(1) key rok(2)] obtain g' where "run_bucket ?r (1, 32, 2) witness_runner = (Inr (kp_size ?r), g')" by blast
  then have rep: "replay_draft witness_net 1 1 (1, 32, 2) 1 (plan_inputs plan rows) (?r, witness_runner) = (Inr (witness_net (1, 32, 2) y ?r), ?r, g')"
    using cp by (simp add: replay_draft_def st_bind_def st_res_def)
  obtain q where wr: "write_layers 0 1 [[1, 4]] [2] (do_cross_kv (witness_net (1, 32, 2) y ?r)) ?r = (Inr (), q)"
    by (simp add: witness_net_def st_bind_def st_update_def st_res_def first_rows_def set_kv_padded_def witness_pool_def Let_def)
  have tt: "ttt_rows 1 1 (do_ttt_kv (witness_net (1, 32, 2) y ?r)) = Inr [[([1], [2])]]" by (simp add: ttt_rows_def witness_net_def)
  have ln: "length [1 :: int] = 1" "map (\<lambda>a. a + 1) [1 :: int] = [2]" "map (\<lambda>n. n * int 1) [2] = [2]"
    "fst (snd (1, 32, 2)) = (32 :: nat)" "snd (snd (1, 32, 2)) * 1 = (2 :: nat)" "int 1 = 1"
    "map fst [([1, 4], [1, 4])] = [[1, 4] :: int list]" "map snd [([1, 4], [1, 4])] = [[1, 4] :: int list]"
    "snd ([[3, 2 :: int]], [2 :: int]) = [2]" "map (\<lambda>n. n * 1) [2 :: int] = [2]" by simp_all
  have l: "on_fst (rollback 1 0 [1] (cs_loc witness_verify, cs_count witness_verify)) (witness_pool, witness_runner)
      = (Inr ([[3, 2]], [2]), witness_pool, witness_runner)"
    "on_fst (alloc_rows 2 [2]) (witness_pool, witness_runner) = (Inr [([1, 4], [1, 4])], ?r, witness_runner)"
    "on_fst (write_layers 0 1 [[1, 4]] (rp_new_slots plan) (do_cross_kv (witness_net (1, 32, 2) y ?r))) (?r, g') = (Inr (), q, g')"
    using rb al wr by (simp_all add: new del: rollback.simps alloc_rows.simps)
  have mx: "st_res (if [2 :: int] = [] then Inl ValueError else Inr (Max (set [2]))) (witness_pool, witness_runner)
      = (Inr 2, witness_pool, witness_runner)" by (simp add: st_res_def)
  have res: "st_res (Inr x) t = (Inr x, t)" for x :: 'z and t :: 's by (simp add: st_res_def)
  have "refresh_draft_state witness_net False 1 1 1 [5, 6] (Some [[1], [2]]) [1] witness_verify (witness_pool, witness_runner)
     = (Inr (refresh_result 1 1 [1] ([[3, 2]], [2]) (cs_position witness_verify) [[1, 4]] plan (witness_net (1, 32, 2) y ?r) [[([1], [2])]]), q, g')"
    unfolding refresh_draft_state_def option.case Let_def ln
    by (simp only: st_bindI[where x = "([[3, 2]], [2])"] l mx pb ln cr pl tt res rep st_bindI)
  then show ?thesis by (simp add: refresh_result_def)
qed
theorem refresh_draft_state_correct_witness:
  "\<exists>d q g'. refresh_draft_state witness_net False 1 1 1 [5, 6] (Some [[1], [2]]) [1] witness_verify (witness_pool, witness_runner)
     = (Inr d, q, g') \<and> pool_ok q [3, 2, 1, 4] \<and> cs_count d = [4] \<and> cs_position d = [10]"
proof -
  obtain d q g' where run: "refresh_draft_state witness_net False 1 1 1 [5, 6] (Some [[1], [2]]) [1] witness_verify (witness_pool, witness_runner)
     = (Inr d, q, g')" "cs_loc d = [[3, 2, 1, 4]]" using witness_refresh_runs by auto
  have pre: "pool_ok witness_pool (concat (cs_loc witness_verify) @ [])" "runner_ok witness_pool witness_runner"
    "length (cs_loc witness_verify) = length [1 :: int]" "cs_count witness_verify = map (\<lambda>l. int (length l)) (cs_loc witness_verify)"
    "\<forall>a\<in>set [1 :: int]. 0 \<le> a"
    using witness_pool_ok runner_ok_init by (simp_all add: witness_verify_def witness_runner_def)
  from refresh_draft_state_correct[OF pre run(1)] run show ?thesis
    by (auto simp: witness_verify_def)
qed

end
