(* ===== verification/Worker_Life.thy ===== *)
theory Worker_Life
  imports Cross_State
begin

text \<open>
  The life of the paged worker's batches: prefill, draft, verification with refresh, merging, and
  the scheduler's \<open>ScheduleBatch.filter_batch\<close> with the batches whose requests all finish, in any
  order (\<open>specblock_worker.py\<close>, \<open>specblock_info.py\<close>, \<open>schedule_batch.py\<close>).  The invariant says that
  at every moment each usable slot of the pool is either free or listed by exactly one request of
  one batch; a theorem shows that the slots of a batch that finishes stay allocated for ever.
\<close>

section \<open>Steps\<close>

text \<open>
  What a \<open>ScheduleBatch\<close> holds in \<open>spec_info\<close>.  \<open>Finished\<close> is the state of a batch with no requests
  left, which the scheduler drops (an empty batch is neither run nor merged).
\<close>

datatype ('h, 'w, 'r, 'x) batch =
    Drafting "('h, 'w, 'x) draft_input"
  | Verifying "('h, 'r, 'x) verify_input"
  | Finished "('h, 'w, 'x) draft_input"

fun batch_locs :: "('h, 'w, 'r, 'x) batch \<Rightarrow> int list list" where
  "batch_locs (Drafting d) = cs_loc d"
| "batch_locs (Verifying v) = cs_loc v"
| "batch_locs (Finished d) = cs_loc d"

fun running :: "('h, 'w, 'r, 'x) batch \<Rightarrow> bool" where
  "running (Finished d) \<longleftrightarrow> False"
| "running b \<longleftrightarrow> True"

fun batch_ok :: "('h, 'w, 'r, 'x) batch \<Rightarrow> bool" where
  "batch_ok (Drafting d) = cross_ok (length (cs_loc d)) d"
| "batch_ok (Verifying v) = cross_ok (length (cs_loc v)) v"
| "batch_ok (Finished d) = cross_ok (length (cs_loc d)) d"

text \<open>
  \<open>ScheduleBatch.filter_batch\<close>, its effect on the requests and on the state of the speculation:
  when no request survives it clears the list of requests and returns before the state is
  filtered; when all survive there is nothing to do.  The scheduler's own tensors and sampling
  state, which are gathered in between, are not modelled.
\<close>

definition schedule_filter ::
    "int list \<Rightarrow> 'q list \<times> ('h, 'w, 'x) draft_input option \<Rightarrow> ('q list \<times> ('h, 'w, 'x) draft_input option, 'v kv_pool) st" where
  "schedule_filter keep sb =
     (case sb of (reqs, spec_info) \<Rightarrow>
        if keep = [] then st_res (Inr ([], spec_info))
        else if length keep = length reqs then st_res (Inr (reqs, spec_info))
        else
          st_bind (st_res (gather keep reqs)) (\<lambda>reqs'.
          (case spec_info of
             None \<Rightarrow> st_res (Inr (reqs', None))
           | Some d \<Rightarrow> st_bind (filter_batch keep d) (\<lambda>d'. st_res (Inr (reqs', Some d'))))))"

type_synonym ('v, 'w, 'r, 'y) worker = "('v list, 'w, 'r, 'y list list) batch list \<times> 'v kv_pool \<times> graph_runner"

text \<open>
  One step of the worker, on the batch or the two batches that the step takes out of the list.
  The scheduler keeps distinct requests of the batch; an accepted length is at least 0 and there
  is one for every request.  Only steps that succeed are steps: an exception that leaves the
  worker ends the scheduler's process.
\<close>

inductive worker_step :: "('v::zero, 'w, 'r, 'y) worker \<Rightarrow> ('v, 'w, 'r, 'y) worker \<Rightarrow> bool" where
  prefilled: "forward_draft_extend pnet L h3 hidden input_ids next_ids lens p = (Inr d, q)
    \<Longrightarrow> worker_step (bs, p, g) (Drafting d # bs, q, g)"
| filtered: "mset bs = mset (Drafting d # rest) \<Longrightarrow> length (reqs :: nat list) = length (cs_loc d) \<Longrightarrow> keeps (length reqs) keep
    \<Longrightarrow> schedule_filter keep (reqs, Some d) p = (Inr (reqs', Some d'), q) \<Longrightarrow> reqs' \<noteq> []
    \<Longrightarrow> worker_step (bs, p, g) (Drafting d' # rest, q, g)"
| finished: "mset bs = mset (Drafting d # rest) \<Longrightarrow> length (reqs :: nat list) = length (cs_loc d) \<Longrightarrow> keeps (length reqs) keep
    \<Longrightarrow> schedule_filter keep (reqs, Some d) p = (Inr ([], Some d'), q)
    \<Longrightarrow> worker_step (bs, p, g) (Finished d' # rest, q, g)"
| merged: "mset bs = mset (Drafting d # Drafting e # rest) \<Longrightarrow> merge_batch d (Some e) = Inr d'
    \<Longrightarrow> worker_step (bs, p, g) (Drafting d' # rest, p, g)"
| drafted: "mset bs = mset (Drafting d # rest) \<Longrightarrow> worker_step (bs, p, g) (Verifying (carry_state d v) # rest, p, g)"
| verify_filtered: "mset bs = mset (Verifying v # rest) \<Longrightarrow> keeps (length (cs_loc v)) keep \<Longrightarrow> filter_verify keep v p = (Inr v', q)
    \<Longrightarrow> worker_step (bs, p, g) (Verifying v' # rest, q, g)"
| verify_merged: "mset bs = mset (Verifying v # Verifying w # rest)
    \<Longrightarrow> worker_step (bs, p, g) (Verifying (merge_verify v (Some w)) # rest, p, g)"
| refreshed: "mset bs = mset (Verifying v # rest) \<Longrightarrow> length accepts = length (cs_loc v) \<Longrightarrow> \<forall>a\<in>set accepts. 0 \<le> a
    \<Longrightarrow> refresh_draft_state net cuda L h3 K verified_id hidden accepts v (p, g) = (Inr d, q, g')
    \<Longrightarrow> worker_step (bs, p, g) (Drafting d # rest, q, g')"

inductive worker_reach :: "('v::zero, 'w, 'r, 'y) worker \<Rightarrow> ('v, 'w, 'r, 'y) worker \<Rightarrow> bool" for s0 where
  init: "worker_reach s0 s0"
| step: "worker_reach s0 s \<Longrightarrow> worker_step s s' \<Longrightarrow> worker_reach s0 s'"

definition owned_slots :: "('h, 'w, 'r, 'x) batch list \<Rightarrow> int list" where
  "owned_slots bs = concat (map (concat \<circ> batch_locs) bs)"

definition worker_ok :: "('v::zero, 'w, 'r, 'y) worker \<Rightarrow> bool" where
  "worker_ok s \<longleftrightarrow> (case s of (bs, p, g) \<Rightarrow>
     pool_ok p (owned_slots bs) \<and> (\<forall>b\<in>set bs. batch_ok b) \<and> runner_ok p g)"

section \<open>Every step keeps the ownership\<close>

lemma owned_slots_Cons [simp]: "owned_slots (b # bs) = concat (batch_locs b) @ owned_slots bs"
  by (simp add: owned_slots_def)

lemma owned_slots_mset: "mset bs = mset bs' \<Longrightarrow> mset (owned_slots bs) = mset (owned_slots bs')"
proof -
  assume "mset bs = mset bs'"
  then have "image_mset (\<lambda>b. mset (concat (batch_locs b))) (mset bs) = image_mset (\<lambda>b. mset (concat (batch_locs b))) (mset bs')"
    by simp
  then show ?thesis
    by (simp add: owned_slots_def mset_concat sum_mset_sum_list[symmetric] image_mset.compositionality comp_def)
qed

text \<open>Taking a batch out of the list: its slots and the slots of the others.\<close>

lemma worker_ok_take:
  assumes "worker_ok (bs, p, g)" "mset bs = mset (b # rest)"
  shows "pool_ok p (concat (batch_locs b) @ owned_slots rest)" "batch_ok b" "\<forall>c\<in>set rest. batch_ok c" "runner_ok p g"
proof -
  have "pool_ok p (owned_slots bs)" "\<forall>b\<in>set bs. batch_ok b" "runner_ok p g" using assms(1) by (simp_all add: worker_ok_def)
  moreover have "set bs = insert b (set rest)" using mset_eq_setD[OF assms(2)] by simp
  ultimately show "pool_ok p (concat (batch_locs b) @ owned_slots rest)" "batch_ok b" "\<forall>c\<in>set rest. batch_ok c" "runner_ok p g"
    using kvp.owned_mset[of p "owned_slots bs" "owned_slots (b # rest)"] owned_slots_mset[OF assms(2)] by auto
qed

lemma runner_ok_same: "runner_ok p g \<Longrightarrow> kp_version q = kp_version p \<Longrightarrow> kp_size q = kp_size p \<Longrightarrow> runner_ok q g"
  using runner_ok_pool by blast

lemma release_each_version: "kp_version (release_each kv_free locs p) = kp_version p \<and> kp_size (release_each kv_free locs p) = kp_size p"
  by (induction locs arbitrary: p) (simp_all add: release_each_def kv_free_def)

lemma filter_cross_version: "filter_cross keep s p = (r, q) \<Longrightarrow> kp_version q = kp_version p \<and> kp_size q = kp_size p"
  using release_each_version by (auto simp: filter_cross_def split: if_splits)

lemma filter_verify_version: "filter_verify keep v p = (Inr v', q) \<Longrightarrow> kp_version q = kp_version p \<and> kp_size q = kp_size p"
  unfolding filter_verify_def by (auto dest: filter_cross_version)

text \<open>The scheduler's filter: nothing happens to the pool unless the state is filtered.\<close>

lemma schedule_filter_cases:
  assumes "schedule_filter keep (reqs, Some d) p = (Inr (reqs', Some d'), q)"
  shows "(d' = d \<and> q = p) \<or> (\<exists>e. filter_batch keep d p = (Inr d', q) \<and> filter_cross keep e p = (Inr d', q))"
  using assms by (auto simp: schedule_filter_def filter_batch_def split: if_splits)

lemma schedule_filter_ok:
  assumes "length reqs = length (cs_loc d)" "keeps (length reqs) keep"
    and "schedule_filter keep (reqs, Some d) p = (Inr (reqs', Some d'), q)"
    and "pool_ok p (concat (cs_loc d) @ rest)" "cross_ok (length (cs_loc d)) d" "runner_ok p g"
  shows "pool_ok q (concat (cs_loc d') @ rest) \<and> cross_ok (length (cs_loc d')) d' \<and> runner_ok q g"
  using schedule_filter_cases[OF assms(3)]
proof (elim disjE exE)
  fix e assume e: "filter_batch keep d p = (Inr d', q) \<and> filter_cross keep e p = (Inr d', q)"
  then have "runner_ok q g" using runner_ok_same[OF assms(6)] filter_cross_version by blast
  then show ?thesis using filter_batch_owned[of d keep p d' q rest] assms e by simp
qed (use assms in simp)

lemma st_update_alloc_runner:
  "runner_ok p g \<Longrightarrow> kv_alloc n p = Inr (ids, q) \<Longrightarrow> runner_ok q g"
  using runner_ok_pool kv_alloc_version by blast

lemma dense_to_paged_runner:
  assumes "pool_ok p owned" "runner_ok p g" "dense_to_paged L cache n p = (Inr ids, q)"
  shows "runner_ok q g"
proof (cases "n \<le> 0")
  case False
  then obtain r where r: "kv_alloc n p = Inr (ids, r)" "write_dense cache ids (nat n) [0..<L] r = (Inr (), q)"
    using assms(3) by (auto simp: dense_to_paged_def)
  note al = kv_alloc_ok(1)[OF assms(1) r(1)]
  have "same_pool (set ids) r q" using write_dense_owned[OF al _ _ r(2)] pool_ok_owned(1)[OF al] by auto
  then show ?thesis using runner_ok_same[OF st_update_alloc_runner[OF assms(2) r(1)], of q] unfolding same_pool_def by blast
qed (use assms in \<open>simp add: dense_to_paged_def\<close>)

lemma extend_loop_runner:
  assumes "pool_ok p owned" "runner_ok p g" "extend_loop net L hidden ids nxt offset i ns p = (Inr reqs, q)"
  shows "runner_ok q g"
  using assms
proof (induction ns arbitrary: p owned offset i reqs)
  case (Cons n ns)
  obtain ids' rest p1 cache c where s: "dense_to_paged L cache c p = (Inr ids', p1)"
    "extend_loop net L hidden ids nxt (offset + n) (Suc i) ns p1 = (Inr rest, q)"
    using Cons.prems(3) unfolding extend_loop.simps Let_def by (auto split: if_splits)
  have "pool_ok p1 (owned @ ids')" using dense_to_paged_owned[OF Cons.prems(1) s(1)] by blast
  from Cons.IH[OF this dense_to_paged_runner[OF Cons.prems(1,2) s(1)] s(2)] show ?case .
qed simp

lemma prefill_step_ok:
  assumes "worker_ok (bs, p, g)" "forward_draft_extend pnet L h3 hidden input_ids next_ids lens p = (Inr d, q)"
  shows "worker_ok (Drafting d # bs, q, g)"
proof -
  obtain hid reqs where r: "extend_loop pnet L hid input_ids next_ids 0 0 lens p = (Inr reqs, q)" "d = draft_input_of next_ids reqs"
    using assms(2) by (auto simp: forward_draft_extend_def split: option.splits if_splits)
  have ok: "pool_ok p (owned_slots bs)" "runner_ok p g" "\<forall>b\<in>set bs. batch_ok b" using assms(1) by (simp_all add: worker_ok_def)
  have "pool_ok q (owned_slots bs @ concat (map pr_loc reqs))" using extend_loop_owned[OF ok(1) r(1)] by blast
  then have "pool_ok q (concat (map pr_loc reqs) @ owned_slots bs)" by (rule kvp.owned_mset) simp
  then show ?thesis using ok(3) extend_loop_runner[OF ok(1,2) r(1)]
    by (simp add: worker_ok_def r(2) draft_input_of_def cross_ok_def)
qed

lemma worker_step_ok: "worker_step s s' \<Longrightarrow> worker_ok s \<Longrightarrow> worker_ok s'"
proof (induction rule: worker_step.induct)
  case (prefilled pnet L h3 hidden input_ids next_ids lens p d q bs g)
  then show ?case by (blast intro: prefill_step_ok)
next
  case (filtered bs d rest reqs keep p reqs' d' q g)
  note t = worker_ok_take[OF filtered(6,1)]
  then show ?case using schedule_filter_ok[OF filtered(2-4), of "owned_slots rest" g] by (simp add: worker_ok_def)
next
  case (finished bs d rest reqs keep p d' q g)
  note t = worker_ok_take[OF finished(5,1)]
  then show ?case using schedule_filter_ok[OF finished(2-4), of "owned_slots rest" g] by (simp add: worker_ok_def)
next
  case (merged bs d e rest d' p g)
  note t = worker_ok_take[OF merged(3,1)]
  then have "cross_ok (length (cs_loc d)) d" "cross_ok (length (cs_loc e)) e" by auto
  from merge_batch_cross[OF merged(2) this] t show ?case by (auto simp: worker_ok_def)
next
  case (drafted bs d rest p g v)
  note t = worker_ok_take[OF drafted(2,1)]
  then show ?case by (auto simp: worker_ok_def carry_state_def cross_ok_def)
next
  case (verify_filtered bs v rest keep p v' q g)
  note t = worker_ok_take[OF verify_filtered(4,1)]
  from filter_verify_version[OF verify_filtered(3)] have "runner_ok q g" using runner_ok_same[OF t(4)] by blast
  then show ?case using filter_verify_owned[OF verify_filtered(2) _ verify_filtered(3), of "owned_slots rest"] t by (simp add: worker_ok_def)
next
  case (verify_merged bs v w rest p g)
  note t = worker_ok_take[OF verify_merged(2,1)]
  then have "cross_ok (length (cs_loc v)) v" "cross_ok (length (cs_loc w)) w" by auto
  from merge_verify_cross[OF this] t show ?case by (auto simp: worker_ok_def)
next
  case (refreshed bs v rest accepts net cuda L h3 K verified_id hidden p g d q g')
  note t = worker_ok_take[OF refreshed(5,1)]
  have len: "length (cs_loc v) = length accepts" "length (cs_count v) = length accepts"
    using refreshed(2) t(2) by (simp_all add: cross_ok_def)
  have p: "pool_ok p (concat (cs_loc v) @ owned_slots rest)" using t(1) by simp
  have "cross_ok (length accepts) d \<and> pool_ok q (concat (cs_loc d) @ owned_slots rest) \<and> runner_ok q g'"
    by (rule refresh_success[OF p t(4) len refreshed(3,4)]) blast
  then show ?case using t(3) by (auto simp: worker_ok_def cross_ok_def)
qed

lemma worker_reach_ok: "worker_reach s0 s \<Longrightarrow> worker_ok s0 \<Longrightarrow> worker_ok s"
  by (induction rule: worker_reach.induct) (auto dest: worker_step_ok)

text \<open>Releasing and filtering change no contents.\<close>

lemma release_each_data: "slot_data (release_each kv_free locs p) s = slot_data p s"
  by (induction locs arbitrary: p) (simp_all add: release_each_def)

lemma filter_cross_data: "filter_cross keep x p = (r, q) \<Longrightarrow> slot_data q s = slot_data p s"
  using release_each_data by (auto simp: filter_cross_def split: if_splits)

lemma filter_verify_data: "filter_verify keep v p = (Inr v', q) \<Longrightarrow> slot_data q s = slot_data p s"
  unfolding filter_verify_def by (auto dest: filter_cross_data)

text \<open>A step leaves the contents of the slots of the other batches, and of the sentinel, alone.\<close>

lemma worker_step_undisturbed:
  assumes "worker_ok (bs, p, g)" "worker_step (bs, p, g) (bs', q, g')" "b \<in> set bs" "b \<in> set bs'"
    and "s \<in> insert 0 (set (concat (batch_locs b)))"
  shows "slot_data q s = slot_data p s"
  using assms(2)
proof (cases rule: worker_step.cases)
  case (prefilled pnet L h3 hidden input_ids next_ids lens d)
  obtain hid reqs where r: "extend_loop pnet L hid input_ids next_ids 0 0 lens p = (Inr reqs, q)"
    using prefilled by (auto simp: forward_draft_extend_def split: option.splits if_splits)
  have "pool_ok p (owned_slots bs)" using assms(1) by (simp add: worker_ok_def)
  moreover have "s \<in> insert 0 (set (owned_slots bs))" using assms(3,5) by (auto simp: owned_slots_def)
  ultimately show ?thesis using extend_loop_owned[OF _ r] by blast
next
  case (filtered d rest reqs keep reqs' d')
  then show ?thesis using schedule_filter_cases[of keep reqs d p reqs' d' q] filter_cross_data by metis
next
  case (finished d rest reqs keep d')
  then show ?thesis using schedule_filter_cases[of keep reqs d p "[]" d' q] filter_cross_data by metis
next
  case (verify_filtered v rest keep v')
  then show ?thesis using filter_verify_data by blast
next
  case (refreshed v rest accepts net cuda L h3 K verified_id hidden d)
  have m: "mset bs = mset (Verifying v # rest)" and al: "length accepts = length (cs_loc v)" and pos: "\<forall>a\<in>set accepts. 0 \<le> a"
    and run: "refresh_draft_state net cuda L h3 K verified_id hidden accepts v (p, g) = (Inr d, q, g')"
    and bs': "bs' = Drafting d # rest" using refreshed by simp_all
  note t = worker_ok_take[OF assms(1) m]
  have len: "length (cs_loc v) = length accepts" "length (cs_count v) = length accepts"
    using al t(2) by (simp_all add: cross_ok_def)
  have p: "pool_ok p (concat (cs_loc v) @ owned_slots rest)" using t(1) by simp
  have keep: "\<forall>s\<in>insert 0 (set (concat (map2 (rolled K) accepts (cs_loc v)) @ owned_slots rest)). slot_data q s = slot_data p s"
    by (rule refresh_success[OF p t(4) len pos run])
  have "b \<in> set rest"
    using assms(3,4) bs' mset_eq_setD[OF m] by auto
  then have "s \<in> insert 0 (set (owned_slots rest))" using assms(5) by (auto simp: owned_slots_def)
  then show ?thesis using keep by auto
qed simp_all



text \<open>
  The rollback of a rejected root releases slots before the remaining checks of the refresh.  When
  one of them fails, the verify input still lists the released slots, and releasing it puts them
  into the free list a second time.
\<close>

lemma failed_refresh_double_release:
  "\<exists>q. refresh_draft_state witness_net False 1 1 2 [5] (Some [[1]]) [0]
       (witness_verify\<lparr>cs_count := [2]\<rparr>) (witness_pool, witness_runner\<lparr>gr_cross := []\<rparr>)
       = (Inl RuntimeError, q, witness_runner\<lparr>gr_cross := []\<rparr>)
     \<and> \<not> distinct (kp_free (snd (release_resources witness_verify q)))"
proof -
  let ?q = "kv_free [3, 2] witness_pool"
  have rb: "rollback 2 0 [0] (cs_loc (witness_verify\<lparr>cs_count := [2]\<rparr>), cs_count (witness_verify\<lparr>cs_count := [2]\<rparr>)) witness_pool
    = (Inr ([[]], [0]), ?q)"
    by (simp add: witness_verify_def st_bind_def st_res_def last_n_def but_last_n_def)
  have "resolve_buckets (witness_runner\<lparr>gr_cross := []\<rparr>) 1 0 1 = None"
    by (simp add: resolve_buckets_def resolve_first_def split: option.split)
  then have "refresh_draft_state witness_net False 1 1 2 [5] (Some [[1]]) [0]
       (witness_verify\<lparr>cs_count := [2]\<rparr>) (witness_pool, witness_runner\<lparr>gr_cross := []\<rparr>)
       = (Inl RuntimeError, ?q, witness_runner\<lparr>gr_cross := []\<rparr>)"
    using rb by (simp add: refresh_draft_state_def st_bind_def on_fst_def st_res_def pick_bucket_def Let_def del: rollback.simps)
  moreover have "\<not> distinct (kp_free (snd (release_resources witness_verify ?q)))"
    by (simp add: release_resources_def release_each_def witness_verify_def kv_free_def witness_pool_def)
  ultimately show ?thesis by blast
qed

section \<open>Properties\<close>

text \<open>
  C2.  Slots have one owner.  Whatever prefills, drafts, refreshes, merges and scheduler filters
  succeed, in any order and for any networks (a step that raises ends the worker's process and is
  not followed by another), every usable slot of the pool is at every moment exactly one of: free,
  listed once by one request of a running batch, or listed once by a batch whose requests have all
  finished; and the allocation counter is the number of slots of the last two kinds, so what the
  finished batches still hold is exactly what the pool has lost.
\<close>

theorem slots_have_one_owner:
  assumes "worker_ok (bs0, p0, g0)" "worker_reach (bs0, p0, g0) (bs, p, g)"
  defines "live \<equiv> owned_slots (filter running bs)" and "lost \<equiv> owned_slots (filter (\<lambda>b. \<not> running b) bs)"
  shows "distinct (kp_free p @ live @ lost) \<and> set (kp_free p) \<union> set live \<union> set lost = {1..<kp_size p}
    \<and> kp_n_alloc p = int (length live) + int (length lost)"
proof -
  have "mset (filter running bs @ filter (\<lambda>b. \<not> running b) bs) = mset bs" by simp
  from owned_slots_mset[OF this] have o: "mset (owned_slots bs) = mset (live @ lost)"
    by (simp add: live_def lost_def owned_slots_def)
  have ok: "pool_ok p (owned_slots bs)" using worker_reach_ok[OF assms(2,1)] by (simp add: worker_ok_def)
  from kvp.owned_mset[OF this o[symmetric]] have "mset (kp_free p @ live @ lost) = mset [1..kp_size p - 1]" "kp_n_alloc p = int (length (live @ lost))"
    by (simp_all add: pool_ok_def)
  then show ?thesis using mset_eq_imp_distinct_iff[of "kp_free p @ live @ lost" "[1..kp_size p - 1]"]
    mset_eq_setD[of "kp_free p @ live @ lost" "[1..kp_size p - 1]"] by auto
qed

lemma witness_worker_ok: "worker_ok ([Verifying witness_verify], witness_pool, witness_runner)"
  using witness_pool_ok runner_ok_init
  by (simp add: worker_ok_def owned_slots_def witness_verify_def cross_ok_def witness_runner_def)

theorem slots_have_one_owner_witness:
  "\<exists>d p g. worker_reach ([Verifying witness_verify], witness_pool, witness_runner) (([Finished d], p, g) :: (int, int, int, int) worker)
    \<and> kp_n_alloc p = int (length (concat (cs_loc d))) \<and> set (kp_free p) \<union> set (concat (cs_loc d)) = {1..<kp_size p}"
proof -
  obtain d q g' where run: "refresh_draft_state witness_net False 1 1 1 [5, 6] (Some [[1], [2]]) [1] witness_verify (witness_pool, witness_runner)
     = (Inr d, q, g')" using witness_refresh_runs by auto
  let ?s = "([Verifying witness_verify], witness_pool, witness_runner) :: (int, int, int, int) worker"
  have "worker_step ?s ([Drafting d], q, g')"
    by (rule refreshed[OF _ _ _ run]) (simp_all add: witness_verify_def)
  then have "worker_reach ?s ([Drafting d], q, g')" by (rule worker_reach.step[OF worker_reach.init])
  moreover have "worker_step ([Drafting d], q, g') ([Finished d], q, g')"
    by (rule finished[where keep = "[]" and reqs = "replicate (length (cs_loc d)) 0"])
       (simp_all add: keeps_def schedule_filter_def st_res_def)
  ultimately have reach: "worker_reach ?s ([Finished d], q, g')" by (rule worker_reach.step)
  from slots_have_one_owner[OF witness_worker_ok reach] reach show ?thesis by (auto simp: owned_slots_def)
qed

text \<open>
  C4.  Requests are isolated.  A step of the worker never changes the cached keys and values of a
  batch it does not work on, nor the zero sentinel: for every batch that is there before and after
  the step, the contents of all its slots are the same in all layers.
\<close>

theorem steps_do_not_disturb_others:
  assumes "worker_ok (bs, p, g)" "worker_step (bs, p, g) (bs', q, g')" "b \<in> set bs" "b \<in> set bs'"
    and "s \<in> insert 0 (set (concat (batch_locs b)))"
  shows "slot_data q s = slot_data p s"
  by (rule worker_step_undisturbed[OF assms])

theorem steps_do_not_disturb_others_witness:
  "\<exists>v' q g'. worker_step ([Verifying (witness_verify\<lparr>cs_loc := [[3]], cs_count := [1]\<rparr>),
        Verifying (witness_verify\<lparr>cs_loc := [[2]], cs_count := [1]\<rparr>)], witness_pool, witness_runner)
      (([Verifying v', Verifying (witness_verify\<lparr>cs_loc := [[2]], cs_count := [1]\<rparr>)], q, g') :: (int, int, int, int) worker)
     \<and> kp_free q \<noteq> kp_free witness_pool \<and> slot_data q 2 = [([[3, 4]], [[4, 3]])]"
proof -
  let ?v = "witness_verify\<lparr>cs_loc := [[3]], cs_count := [1]\<rparr>" and ?w = "witness_verify\<lparr>cs_loc := [[2]], cs_count := [1]\<rparr>"
  let ?s = "([Verifying ?v, Verifying ?w], witness_pool, witness_runner) :: (int, int, int, int) worker"
  have ok: "worker_ok ?s"
    using witness_pool_ok runner_ok_init
    by (simp add: worker_ok_def owned_slots_def witness_verify_def cross_ok_def witness_runner_def)
  obtain v' q where flt: "filter_verify [] ?v witness_pool = (Inr v', q)" "kp_free q \<noteq> kp_free witness_pool"
    by (simp add: filter_verify_def witness_verify_def gather_wide_def filter_cross_def filter_lists_def gather_list_def
        dropped_locs_def filter_sizes_def gather_tensor_def gather_def release_each_def kv_free_def witness_pool_def)
  have st: "worker_step ?s ([Verifying v', Verifying ?w], q, witness_runner)"
    by (rule verify_filtered[OF _ _ flt(1)]) (simp_all add: keeps_def)
  have "slot_data q 2 = slot_data witness_pool 2"
    by (rule steps_do_not_disturb_others[OF ok st, of "Verifying ?w"]) (simp_all add: witness_verify_def)
  then show ?thesis using st flt(2) by (auto simp: slot_data_def witness_pool_def)
qed




end
