(* ===== verification/Fixed_Tree.thy ===== *)
theory Fixed_Tree
  imports Rank_Walk Tree_Links Refresh_Plan "HOL-Library.Word"
begin

text \<open>
  The fixed-width finalisation of a draft tree on the device
  (\<open>specblock_tree_kernels.py\<close>): from the raw nodes of a request and the positions kept by the
  score, the kernels compute the compact tree, its depths, attention mask and pointers.  There are two
  routes, one program per request (\<open>_finalize_one_block_fixed_kernel\<close>) and three stages with one
  program per row (\<open>_finalize_one_block_fixed_metax\<close>).  A raw tree need not list parents before
  children; a path is followed for at most \<open>MAX_DEPTH\<close> links.

  A lane is a natural number below the block width; a masked load takes its default outside the
  mask, and a masked store leaves the other entries of its buffer, which is reused between calls.
  A float is its 32-bit pattern.
\<close>

section \<open>Lanes, loads and stores\<close>

type_synonym f32 = "32 word"

definition f32_neg_inf :: f32 where
  "f32_neg_inf = 0xFF800000"

definition tl_load :: "bool \<Rightarrow> 'a list \<Rightarrow> nat \<Rightarrow> 'a \<Rightarrow> 'a" where
  "tl_load act buf addr other = (if act then buf ! addr else other)"

definition tl_store :: "nat \<Rightarrow> (nat \<Rightarrow> bool) \<Rightarrow> (nat \<Rightarrow> nat) \<Rightarrow> (nat \<Rightarrow> 'a) \<Rightarrow> 'a list \<Rightarrow> 'a list" where
  "tl_store lanes act addr val buf = fold (\<lambda>l b. if act l then b[addr l := val l] else b) [0..<lanes] buf"

definition store_row :: "nat \<Rightarrow> nat \<Rightarrow> (nat \<Rightarrow> 'a) \<Rightarrow> 'a list \<Rightarrow> 'a list" where
  "store_row block_n N val buf = tl_store block_n (\<lambda>l. l < N) (\<lambda>l. l) val buf"

lemma length_tl_store [simp]: "length (tl_store lanes act addr val buf) = length buf"
proof -
  have "length (fold (\<lambda>l b. if act l then b[addr l := val l] else b) ls buf) = length buf" for ls
    by (induction ls arbitrary: buf) simp_all
  then show ?thesis by (simp add: tl_store_def)
qed

lemma tl_store_Suc:
  "tl_store (Suc lanes) act addr val buf =
     (let b = tl_store lanes act addr val buf in if act lanes then b[addr lanes := val lanes] else b)"
  by (simp add: tl_store_def Let_def)

lemma tl_store_0 [simp]: "tl_store 0 act addr val buf = buf"
  by (simp add: tl_store_def)

text \<open>A store whose active lanes have distinct addresses in range.\<close>

lemma tl_store_hit:
  assumes "inj_on addr {l. l < lanes \<and> act l}" "l < lanes" "act l" "addr l < length buf"
  shows "tl_store lanes act addr val buf ! addr l = val l"
  using assms
proof (induction lanes)
  case (Suc k)
  have inj: "inj_on addr {l. l < k \<and> act l}" using Suc.prems(1) by (rule inj_on_subset) auto
  show ?case
  proof (cases "l = k")
    case True
    then show ?thesis using Suc.prems by (simp add: tl_store_Suc Let_def)
  next
    case False
    then have "l < k" using Suc.prems by simp
    moreover have "act k \<Longrightarrow> addr k \<noteq> addr l"
      using inj_onD[OF Suc.prems(1), of k l] Suc.prems False by auto
    ultimately show ?thesis using Suc.IH[OF inj] Suc.prems by (simp add: tl_store_Suc Let_def)
  qed
qed simp

lemma tl_store_miss:
  "(\<And>l. l < lanes \<Longrightarrow> act l \<Longrightarrow> addr l \<noteq> i) \<Longrightarrow> tl_store lanes act addr val buf ! i = buf ! i"
  by (induction lanes) (simp_all add: tl_store_Suc Let_def)

lemma store_row_all:
  assumes "N \<le> lanes" "length buf = N"
  shows "store_row lanes N val buf = map val [0..<N]"
  unfolding store_row_def
proof (rule nth_equalityI)
  fix i assume "i < length (tl_store lanes (\<lambda>l. l < N) (\<lambda>l. l) val buf)"
  then have "i < N" using assms by simp
  then show "tl_store lanes (\<lambda>l. l < N) (\<lambda>l. l) val buf ! i = map val [0..<N] ! i"
    using tl_store_hit[of "\<lambda>l. l" lanes "\<lambda>l. l < N" i buf val] assms by (simp add: inj_on_def)
qed (use assms in simp)
section \<open>Rows\<close>

text \<open>The raw nodes of one request, and the buffers of one request in the batch of outputs.\<close>

record raw_row =
  rr_tokens :: "int list"
  rr_parents :: "int list"
  rr_lps :: "f32 list"

record fixed_out =
  fo_tokens :: "int list"
  fo_parents :: "int list"
  fo_topo :: "int list"
  fo_lps :: "f32 list"
  fo_depth :: "int list"
  fo_positions :: "int list"
  fo_mask :: "bool list"
  fo_retrieve_index :: "int list"
  fo_next_token :: "int list"
  fo_next_sibling :: "int list"

definition out_shape :: "nat \<Rightarrow> fixed_out \<Rightarrow> bool" where
  "out_shape N out \<longleftrightarrow> length (fo_tokens out) = N \<and> length (fo_parents out) = N \<and> length (fo_topo out) = N
     \<and> length (fo_lps out) = N \<and> length (fo_depth out) = N \<and> length (fo_positions out) = N
     \<and> length (fo_mask out) = N * N \<and> length (fo_retrieve_index out) = N
     \<and> length (fo_next_token out) = N \<and> length (fo_next_sibling out) = N"

section \<open>What every lane loads\<close>

definition lane_kept :: "nat \<Rightarrow> nat list \<Rightarrow> nat \<Rightarrow> nat" where
  "lane_kept N kept l = tl_load (0 < l \<and> l < N) kept (l - 1) 0"

definition lane_keep :: "nat \<Rightarrow> bool list \<Rightarrow> nat \<Rightarrow> bool" where
  "lane_keep N valid l = ((0 < l \<and> l < N) \<and> tl_load (0 < l \<and> l < N) valid (l - 1) False)"

definition lane_old_parent :: "nat \<Rightarrow> int list \<Rightarrow> nat list \<Rightarrow> bool list \<Rightarrow> nat \<Rightarrow> int" where
  "lane_old_parent N ps kept valid l = tl_load (lane_keep N valid l) ps (lane_kept N kept l) (- 1)"

text \<open>The parent among the kept nodes: an outer comparison, or a serial search.\<close>

definition mapped_parent_outer :: "nat \<Rightarrow> nat \<Rightarrow> int list \<Rightarrow> nat list \<Rightarrow> bool list \<Rightarrow> nat \<Rightarrow> int" where
  "mapped_parent_outer block_n N ps kept valid l =
     Max (set (map (\<lambda>c. if lane_old_parent N ps kept valid l = tl_load (c < N - 1) (map int kept) c (- 2)
                \<and> tl_load (c < N - 1) valid c False \<and> lane_keep N valid l
              then int c else - 1) [0..<block_n]))"

definition mapped_parent_serial :: "nat \<Rightarrow> int list \<Rightarrow> nat list \<Rightarrow> bool list \<Rightarrow> nat \<Rightarrow> int" where
  "mapped_parent_serial N ps kept valid l =
     fold (\<lambda>c m. if lane_keep N valid l \<and> 0 \<le> lane_old_parent N ps kept valid l \<and> valid ! c
              \<and> lane_old_parent N ps kept valid l = int (kept ! c) then int c else m) [0..<N - 1] (- 1)"

definition raw_parent_out :: "nat \<Rightarrow> int list \<Rightarrow> nat list \<Rightarrow> bool list \<Rightarrow> int \<Rightarrow> nat \<Rightarrow> int" where
  "raw_parent_out N ps kept valid mapped l =
     (if l = 0 then - 1
      else if lane_keep N valid l then (if 0 \<le> lane_old_parent N ps kept valid l then mapped else - 1)
      else - 2)"

definition lane_topo :: "nat \<Rightarrow> bool list \<Rightarrow> int \<Rightarrow> nat \<Rightarrow> int" where
  "lane_topo N valid parent l = (if lane_keep N valid l then (if 0 \<le> parent then parent + 1 else 0) else - 1)"

text \<open>The walks over raw parents, of at most \<open>MAX_DEPTH\<close> links.\<close>

definition fixed_max_depth :: nat where
  "fixed_max_depth = 20"

fun depth_walk :: "nat \<Rightarrow> int list \<Rightarrow> nat \<Rightarrow> bool \<Rightarrow> int \<Rightarrow> int" where
  "depth_walk 0 ps cur active depth = depth"
| "depth_walk (Suc m) ps cur active depth =
     (let parent = tl_load active ps cur (- 1); active' = (active \<and> 0 \<le> parent)
      in depth_walk m ps (if active' then nat parent else cur) active' (depth + (if active then 1 else 0)))"

fun visible_walk :: "nat \<Rightarrow> int list \<Rightarrow> (nat \<Rightarrow> bool) \<Rightarrow> nat \<Rightarrow> bool \<Rightarrow> bool \<Rightarrow> bool" where
  "visible_walk 0 ps hit cur active visible = visible"
| "visible_walk (Suc m) ps hit cur active visible =
     (let parent = tl_load active ps cur (- 1); active' = (active \<and> 0 \<le> parent)
      in visible_walk m ps hit (if active' then nat parent else cur) active' (visible \<or> (active \<and> hit cur)))"

definition visible_lane :: "nat \<Rightarrow> int list \<Rightarrow> nat list \<Rightarrow> bool list \<Rightarrow> nat \<Rightarrow> nat \<Rightarrow> bool" where
  "visible_lane N ps kept valid q k =
     (let k_old = tl_load (0 < k \<and> k < N) (map int kept) (k - 1) (- 2);
          q_valid = lane_keep N valid q
      in visible_walk fixed_max_depth ps (\<lambda>cur. 0 < k \<and> k < N \<and> k_old = int cur) (lane_kept N kept q) q_valid
           ((q = 0 \<and> k = 0) \<or> (0 < q \<and> \<not> q_valid \<and> k = q) \<or> (0 < q \<and> q_valid \<and> k = 0)))"

section \<open>One program per request\<close>

definition finalize_one_block_fixed_kernel ::
    "nat \<Rightarrow> nat \<Rightarrow> raw_row \<Rightarrow> nat list \<Rightarrow> bool list \<Rightarrow> int \<Rightarrow> int \<Rightarrow> fixed_out \<Rightarrow> fixed_out" where
  "finalize_one_block_fixed_kernel budget bidx row kept valid sample seq_len out =
     (let N = budget + 1; block_n = next_power_of_2 N; ps = rr_parents row;
          parent = (\<lambda>l. raw_parent_out N ps kept valid (mapped_parent_outer block_n N ps kept valid l) l);
          topo = (\<lambda>l. lane_topo N valid (parent l) l);
          depth = (\<lambda>l. depth_walk fixed_max_depth ps (lane_kept N kept l) (lane_keep N valid l) 0);
          node_valid = (\<lambda>l. l = 0 \<or> lane_keep N valid l);
          inf = int N + 1;
          next_token = (\<lambda>l. Min (set (map (\<lambda>c. if 0 < c \<and> node_valid c \<and> topo c = int l then int c else inf) [0..<block_n])));
          next_sibling = (\<lambda>l. Min (set (map (\<lambda>c. if l < c \<and> node_valid c \<and> lane_keep N valid l \<and> topo c = topo l
                                 then int c else inf) [0..<block_n])))
      in \<lparr>fo_tokens = store_row block_n N (\<lambda>l. if l = 0 then sample else tl_load (lane_keep N valid l) (rr_tokens row) (lane_kept N kept l) 0)
            (fo_tokens out),
          fo_parents = store_row block_n N parent (fo_parents out),
          fo_topo = store_row block_n N topo (fo_topo out),
          fo_lps = store_row block_n N (\<lambda>l. if l = 0 then 0 else tl_load (lane_keep N valid l) (rr_lps row) (lane_kept N kept l) f32_neg_inf)
            (fo_lps out),
          fo_depth = store_row block_n N depth (fo_depth out),
          fo_positions = store_row block_n N (\<lambda>l. depth l + seq_len) (fo_positions out),
          fo_mask = tl_store (block_n * block_n) (\<lambda>m. m div N < N \<and> m - m div N * N < N) (\<lambda>m. m)
            (\<lambda>m. visible_lane N ps kept valid (m div N) (m - m div N * N)) (fo_mask out),
          fo_retrieve_index = store_row block_n N (\<lambda>l. int l + int (bidx * N)) (fo_retrieve_index out),
          fo_next_token = store_row block_n N (\<lambda>l. if next_token l < inf then next_token l else - 1) (fo_next_token out),
          fo_next_sibling = store_row block_n N (\<lambda>l. if next_sibling l < inf then next_sibling l else - 1) (fo_next_sibling out)\<rparr>)"

section \<open>Three stages\<close>

definition pack_depth_topology_kernel ::
    "nat \<Rightarrow> nat \<Rightarrow> raw_row \<Rightarrow> nat list \<Rightarrow> bool list \<Rightarrow> int \<Rightarrow> int \<Rightarrow> fixed_out \<Rightarrow> fixed_out" where
  "pack_depth_topology_kernel budget bidx row kept valid sample seq_len out =
     (let N = budget + 1; block_n = next_power_of_2 N; ps = rr_parents row;
          parent = (\<lambda>l. raw_parent_out N ps kept valid (mapped_parent_serial N ps kept valid l) l);
          depth = (\<lambda>l. depth_walk fixed_max_depth ps (lane_kept N kept l) (lane_keep N valid l) 0)
      in out\<lparr>
          fo_tokens := store_row block_n N (\<lambda>l. if l = 0 then sample else tl_load (lane_keep N valid l) (rr_tokens row) (lane_kept N kept l) 0)
            (fo_tokens out),
          fo_parents := store_row block_n N parent (fo_parents out),
          fo_topo := store_row block_n N (\<lambda>l. lane_topo N valid (parent l) l) (fo_topo out),
          fo_lps := store_row block_n N (\<lambda>l. if l = 0 then 0 else tl_load (lane_keep N valid l) (rr_lps row) (lane_kept N kept l) f32_neg_inf)
            (fo_lps out),
          fo_depth := store_row block_n N depth (fo_depth out),
          fo_positions := store_row block_n N (\<lambda>l. depth l + seq_len) (fo_positions out),
          fo_retrieve_index := store_row block_n N (\<lambda>l. int l + int (bidx * N)) (fo_retrieve_index out)\<rparr>)"

text \<open>One program per query row \<open>q\<close> writes the \<open>N\<close> places from \<open>q * N\<close> on.\<close>

definition ancestor_mask_row_kernel :: "nat \<Rightarrow> int list \<Rightarrow> nat list \<Rightarrow> bool list \<Rightarrow> nat \<Rightarrow> bool list \<Rightarrow> bool list" where
  "ancestor_mask_row_kernel N ps kept valid q buf =
     tl_store (next_power_of_2 N) (\<lambda>k. k < N) (\<lambda>k. q * N + k) (visible_lane N ps kept valid q) buf"

definition finalize_one_block_fixed_metax ::
    "nat \<Rightarrow> nat \<Rightarrow> raw_row \<Rightarrow> nat list \<Rightarrow> bool list \<Rightarrow> int \<Rightarrow> int \<Rightarrow> fixed_out \<Rightarrow> fixed_out" where
  "finalize_one_block_fixed_metax budget bidx row kept valid sample seq_len out =
     (let N = budget + 1;
          out1 = pack_depth_topology_kernel budget bidx row kept valid sample seq_len out;
          out2 = out1\<lparr>fo_mask := fold (ancestor_mask_row_kernel N (rr_parents row) kept valid) [0..<N] (fo_mask out1)\<rparr>;
          links = links_row_kernel N (fo_topo out2) valid
      in out2\<lparr>fo_next_token := fold (\<lambda>q b. b[q := fst (links q)]) [0..<N] (fo_next_token out2),
              fo_next_sibling := fold (\<lambda>q b. b[q := snd (links q)]) [0..<N] (fo_next_sibling out2)\<rparr>)"
section \<open>Both routes agree\<close>

lemma Max_eq_last_match:
  "0 < n \<Longrightarrow> Max (set (map (\<lambda>c. if P c then int c else - 1) [0..<n])) = fold (\<lambda>c m. if P c then int c else m) [0..<n] (- 1)"
proof -
  have bound: "fold (\<lambda>c m. if P c then int c else m) [0..<n] (- 1) < int n" for n
    by (induction n) (auto intro: less_imp_le order.strict_trans)
  have "Max (insert (- 1) (set (map (\<lambda>c. if P c then int c else - 1) [0..<n])))
      = fold (\<lambda>c m. if P c then int c else m) [0..<n] (- 1)" (is "?L n = ?R n") for n
  proof (induction n)
    case (Suc n)
    have "?L (Suc n) = Max (insert (if P n then int n else - 1) (insert (- 1) (set (map (\<lambda>c. if P c then int c else - 1) [0..<n]))))"
      by (simp add: insert_commute)
    also have "\<dots> = max (if P n then int n else - 1) (?L n)" by (subst Max_insert) simp_all
    also have "\<dots> = ?R (Suc n)"
      using bound[of n] Suc.IH Max_ge[of "insert (- 1) (set (map (\<lambda>c. if P c then int c else - 1) [0..<n]))" "- 1"]
      by (auto simp: max_def)
    finally show ?case .
  qed simp
  note closed = this
  assume n: "0 < n"
  let ?S = "set (map (\<lambda>c. if P c then int c else - 1) [0..<n])"
  have "?S \<noteq> {}" unfolding set_empty map_is_Nil_conv using n by simp
  then obtain x where "x \<in> ?S" by (meson ex_in_conv)
  moreover from this have "- 1 \<le> x" by (auto split: if_splits)
  ultimately have "- 1 \<le> Max ?S" by (intro order.trans[OF _ Max_ge]) auto
  moreover have "Max (insert (- 1) ?S) = max (- 1) (Max ?S)" using \<open>?S \<noteq> {}\<close> by (subst Max_insert) auto
  ultimately show "Max ?S = fold (\<lambda>c m. if P c then int c else m) [0..<n] (- 1)" using closed[of n] by simp
qed

lemma fold_cut:
  "N \<le> M \<Longrightarrow> (\<And>c. N \<le> c \<Longrightarrow> \<not> P c) \<Longrightarrow>
   fold (\<lambda>c m. if P c then int c else m) [0..<M] (- 1) = fold (\<lambda>c m. if P c then int c else m) [0..<N] (- 1)"
  by (induction M) (auto simp: le_Suc_eq)

lemma lane_keepD: "lane_keep N valid l \<Longrightarrow> 0 < l \<and> l < N \<and> valid ! (l - 1)"
  by (auto simp: lane_keep_def tl_load_def)

lemma lane_keep_iff: "lane_keep N valid l \<longleftrightarrow> 0 < l \<and> l < N \<and> valid ! (l - 1)"
  by (auto simp: lane_keep_def tl_load_def)

lemma mapped_parents_agree:
  assumes "0 < N" "length kept = N - 1" "0 \<le> lane_old_parent N ps kept valid l"
  shows "mapped_parent_outer (next_power_of_2 N) N ps kept valid l = mapped_parent_serial N ps kept valid l"
proof -
  let ?old = "lane_old_parent N ps kept valid l"
  let ?P = "\<lambda>c. lane_keep N valid l \<and> 0 \<le> ?old \<and> c < N - 1 \<and> valid ! c \<and> ?old = int (kept ! c)"
  have lanes: "N - 1 \<le> next_power_of_2 N" "0 < next_power_of_2 N"
    using next_power_of_2_le[of N] assms(1) by linarith+
  have "(\<lambda>c. if ?old = tl_load (c < N - 1) (map int kept) c (- 2) \<and> tl_load (c < N - 1) valid c False \<and> lane_keep N valid l
      then int c else - 1) = (\<lambda>c. if ?P c then int c else - 1)"
    using assms by (auto simp: tl_load_def fun_eq_iff)
  then have "mapped_parent_outer (next_power_of_2 N) N ps kept valid l
      = Max (set (map (\<lambda>c. if ?P c then int c else - 1) [0..<next_power_of_2 N]))"
    by (simp only: mapped_parent_outer_def)
  also have "\<dots> = fold (\<lambda>c m. if ?P c then int c else m) [0..<N - 1] (- 1)"
    unfolding Max_eq_last_match[OF lanes(2)] by (rule fold_cut[OF lanes(1)]) simp
  also have "\<dots> = mapped_parent_serial N ps kept valid l"
    unfolding mapped_parent_serial_def by (rule fold_cong) auto
  finally show ?thesis .
qed
text \<open>A minimum over the lanes of the block finds the first match below \<open>N\<close>.\<close>

lemma Min_block_first:
  assumes "0 < N" "N \<le> M" "\<And>c. P c \<Longrightarrow> c < N"
  shows "(let m = Min (set (map (\<lambda>c. if P c then int c else int N + 1) [0..<M])) in if m < int N + 1 then m else - 1)
      = first_where P [0..<N]"
proof -
  let ?f = "\<lambda>c. if P c then int c else int N + 1"
  have "Min (set (map ?f [0..<k + N])) = Min (set (map ?f [0..<N]))" for k
  proof (induction k)
    case (Suc k)
    have f: "?f (k + N) = int N + 1" using assms(3)[of "k + N"] by auto
    have ne: "set (map ?f [0..<k + N]) \<noteq> {}" unfolding set_empty map_is_Nil_conv using assms(1) by simp
    have le: "\<forall>x\<in>set (map ?f [0..<k + N]). x \<le> int N + 1" by (auto dest: assms(3))
    have "Min (set (map ?f [0..<Suc k + N])) = Min (insert (?f (k + N)) (set (map ?f [0..<k + N])))" by simp
    also have "\<dots> = min (int N + 1) (Min (set (map ?f [0..<k + N])))"
      unfolding f using ne by (intro Min_insert) simp_all
    also have "\<dots> = Min (set (map ?f [0..<k + N]))"
      using le Min_in[OF _ ne] by (intro min_absorb2) blast
    finally show ?case using Suc.IH by simp
  qed simp
  from this[of "M - N"] assms(2) have "Min (set (map ?f [0..<M])) = Min (set (map ?f [0..<N]))" by simp
  then show ?thesis using Min_first_where(2)[OF assms(1), of P] by (simp only:)
qed

definition fixed_parents :: "nat \<Rightarrow> int list \<Rightarrow> nat list \<Rightarrow> bool list \<Rightarrow> int list" where
  "fixed_parents N ps kept valid = map (\<lambda>l. raw_parent_out N ps kept valid (mapped_parent_serial N ps kept valid l) l) [0..<N]"

definition fixed_topo :: "nat \<Rightarrow> int list \<Rightarrow> nat list \<Rightarrow> bool list \<Rightarrow> int list" where
  "fixed_topo N ps kept valid = map (\<lambda>l. lane_topo N valid (fixed_parents N ps kept valid ! l) l) [0..<N]"

definition fixed_result :: "nat \<Rightarrow> nat \<Rightarrow> raw_row \<Rightarrow> nat list \<Rightarrow> bool list \<Rightarrow> int \<Rightarrow> int \<Rightarrow> fixed_out" where
  "fixed_result budget bidx row kept valid sample seq_len =
     (let N = budget + 1; ps = rr_parents row;
          depth = (\<lambda>l. depth_walk fixed_max_depth ps (lane_kept N kept l) (lane_keep N valid l) 0);
          topo = fixed_topo N ps kept valid
      in \<lparr>fo_tokens = map (\<lambda>l. if l = 0 then sample
             else tl_load (lane_keep N valid l) (rr_tokens row) (lane_kept N kept l) 0) [0..<N],
          fo_parents = fixed_parents N ps kept valid,
          fo_topo = topo,
          fo_lps = map (\<lambda>l. if l = 0 then 0
             else tl_load (lane_keep N valid l) (rr_lps row) (lane_kept N kept l) f32_neg_inf) [0..<N],
          fo_depth = map depth [0..<N],
          fo_positions = map (\<lambda>l. depth l + seq_len) [0..<N],
          fo_mask = map (\<lambda>m. visible_lane N ps kept valid (m div N) (m mod N)) [0..<N * N],
          fo_retrieve_index = map (\<lambda>l. int l + int (bidx * N)) [0..<N],
          fo_next_token = map (first_child topo) [0..<N],
          fo_next_sibling = map (next_sibling topo) [0..<N]\<rparr>)"

lemma raw_parent_out_routes:
  assumes "0 < N" "length kept = N - 1"
  shows "raw_parent_out N ps kept valid (mapped_parent_outer (next_power_of_2 N) N ps kept valid l) l
     = raw_parent_out N ps kept valid (mapped_parent_serial N ps kept valid l) l"
  using mapped_parents_agree[OF assms, of ps valid l] by (simp add: raw_parent_out_def)

lemma fixed_topo_nth: "l < N \<Longrightarrow> fixed_topo N ps kept valid ! l =
    lane_topo N valid (raw_parent_out N ps kept valid (mapped_parent_serial N ps kept valid l) l) l"
  by (simp add: fixed_topo_def fixed_parents_def)

lemma length_fixed_topo [simp]: "length (fixed_topo N ps kept valid) = N"
  by (simp add: fixed_topo_def)

lemma lane_topo_neg: "lane_topo N valid p l < 0 \<longleftrightarrow> \<not> lane_keep N valid l"
  by (simp add: lane_topo_def)

lemma fixed_topo_neg: "l < N \<Longrightarrow> fixed_topo N ps kept valid ! l < 0 \<longleftrightarrow> \<not> lane_keep N valid l"
  by (simp add: fixed_topo_nth lane_topo_neg)

text \<open>The links of the single kernel.\<close>

lemma kernel_links:
  fixes topo :: "nat \<Rightarrow> int"
  assumes "0 < N" "l < N" "\<And>c. topo c < 0 \<longleftrightarrow> \<not> lane_keep N valid c"
  defines "big \<equiv> int N + 1"
  shows "(let m = Min (set (map (\<lambda>c. if 0 < c \<and> (c = 0 \<or> lane_keep N valid c) \<and> topo c = int l then int c else big)
           [0..<next_power_of_2 N])) in if m < big then m else - 1) = first_child (map topo [0..<N]) l" (is ?child)
    and "(let m = Min (set (map (\<lambda>c. if l < c \<and> (c = 0 \<or> lane_keep N valid c) \<and> lane_keep N valid l \<and> topo c = topo l
           then int c else big) [0..<next_power_of_2 N])) in if m < big then m else - 1)
         = next_sibling (map topo [0..<N]) l" (is ?sibling)
proof -
  note blk = Min_block_first[OF assms(1) next_power_of_2_le]
  have k: "lane_keep N valid c \<and> 0 < c" if "topo c = int l" for c
    using assms(3)[of c] lane_keepD[of N valid c] that by auto
  have e: "first_where (\<lambda>c. 0 < c \<and> (c = 0 \<or> lane_keep N valid c) \<and> topo c = int l) [0..<N] = first_child (map topo [0..<N]) l"
    unfolding first_child_def length_map length_upt diff_zero
    by (rule first_where_cong) (use k in auto)
  show ?child unfolding big_def by (rule trans[OF blk e]) (auto dest: lane_keepD)
  have "first_where (\<lambda>c. l < c \<and> (c = 0 \<or> lane_keep N valid c) \<and> lane_keep N valid l \<and> topo c = topo l) [0..<N]
      = first_where (\<lambda>c. (c = 0 \<or> lane_keep N valid c) \<and> lane_keep N valid l \<and> topo c = topo l) [Suc l..<N]"
    by (rule first_where_guard)
  also have "\<dots> = next_sibling (map topo [0..<N]) l"
  proof (cases "lane_keep N valid l")
    case True
    have k2: "lane_keep N valid c" if "topo c = topo l" for c using assms(3)[of c] assms(3)[of l] True that by simp
    have "\<not> map topo [0..<N] ! l < 0" using assms(2) assms(3)[of l] True by simp
    then have "next_sibling (map topo [0..<N]) l = first_where (\<lambda>c. map topo [0..<N] ! c = map topo [0..<N] ! l) [Suc l..<N]"
      by (simp add: next_sibling_def)
    also have "\<dots> = first_where (\<lambda>c. (c = 0 \<or> lane_keep N valid c) \<and> lane_keep N valid l \<and> topo c = topo l) [Suc l..<N]"
      by (rule first_where_cong) (use k2 True assms(2) in auto)
    finally show ?thesis by simp
  next
    case False
    have "map topo [0..<N] ! l < 0" using assms(2) assms(3)[of l] False by simp
    then show ?thesis using False by (simp add: next_sibling_def first_where_none)
  qed
  finally have f: "first_where (\<lambda>c. l < c \<and> (c = 0 \<or> lane_keep N valid c) \<and> lane_keep N valid l \<and> topo c = topo l) [0..<N]
      = next_sibling (map topo [0..<N]) l" .
  show ?sibling unfolding big_def by (rule trans[OF blk f]) (auto dest: lane_keepD)
qed
text \<open>The mask of the single kernel is stored flat; the row programs store one row each.\<close>

lemma mask_flat:
  assumes "0 < N" "length buf = N * N" "N \<le> bn"
  shows "tl_store (bn * bn) (\<lambda>m. m div N < N \<and> m - m div N * N < N) (\<lambda>m. m) (\<lambda>m. f (m div N) (m - m div N * N)) buf
    = map (\<lambda>m. f (m div N) (m mod N)) [0..<N * N]"
proof (rule nth_equalityI)
  fix i assume "i < length (tl_store (bn * bn) (\<lambda>m. m div N < N \<and> m - m div N * N < N) (\<lambda>m. m) (\<lambda>m. f (m div N) (m - m div N * N)) buf)"
  then have i: "i < N * N" using assms by simp
  then have "i div N < N" by (simp add: less_mult_imp_div_less)
  moreover have "i - i div N * N < N" unfolding minus_div_mult_eq_mod using assms(1) by simp
  moreover have "i < bn * bn" using i mult_le_mono[OF assms(3) assms(3)] by linarith
  ultimately show "tl_store (bn * bn) (\<lambda>m. m div N < N \<and> m - m div N * N < N) (\<lambda>m. m) (\<lambda>m. f (m div N) (m - m div N * N)) buf ! i
      = map (\<lambda>m. f (m div N) (m mod N)) [0..<N * N] ! i"
    using tl_store_hit[of "\<lambda>m. m" "bn * bn" "\<lambda>m. m div N < N \<and> m - m div N * N < N" i buf] i assms(2)
    by (simp add: inj_on_def minus_div_mult_eq_mod)
qed (use assms in simp)

lemma mask_rows:
  assumes "0 < N" "length buf = N * N"
  shows "fold (ancestor_mask_row_kernel N ps kept valid) [0..<N] buf
    = map (\<lambda>m. visible_lane N ps kept valid (m div N) (m mod N)) [0..<N * N]"
proof -
  let ?row = "ancestor_mask_row_kernel N ps kept valid"
  have len: "length (fold ?row qs buf) = N * N" for qs
  proof -
    have "length (fold ?row qs b) = length b" for b
      by (induction qs arbitrary: b) (simp_all add: ancestor_mask_row_kernel_def)
    then show ?thesis using assms(2) by simp
  qed
  have "\<forall>i<Q * N. fold ?row [0..<Q] buf ! i = visible_lane N ps kept valid (i div N) (i mod N)" if "Q \<le> N" for Q
    using that
  proof (induction Q)
    case (Suc Q)
    have "Suc Q * N \<le> N * N" using Suc.prems by (intro mult_le_mono1)
    then have top: "Q * N + N \<le> N * N" by simp
    have "fold ?row [0..<Suc Q] buf ! i = visible_lane N ps kept valid (i div N) (i mod N)" if i: "i < Suc Q * N" for i
    proof (cases "i < Q * N")
      case True
      have "?row Q (fold ?row [0..<Q] buf) ! i = fold ?row [0..<Q] buf ! i"
        unfolding ancestor_mask_row_kernel_def[of N ps kept valid Q] by (rule tl_store_miss) (use True in simp)
      then show ?thesis using Suc True by simp
    next
      case False
      then obtain k where k: "i = Q * N + k" using le_Suc_ex not_less by blast
      then have kN: "k < N" using i by simp
      have "?row Q (fold ?row [0..<Q] buf) ! (Q * N + k) = visible_lane N ps kept valid Q k"
        unfolding ancestor_mask_row_kernel_def[of N ps kept valid Q]
        by (rule tl_store_hit) (use kN top len next_power_of_2_le[of N] in \<open>auto simp: inj_on_def\<close>)
      then show ?thesis using k kN by (simp add: div_mult_self3)
    qed
    then show ?case by blast
  qed simp
  then show ?thesis using len by (intro nth_equalityI) simp_all
qed

lemma fold_rows:
  "length buf = N \<Longrightarrow> fold (\<lambda>q b. b[q := f q]) [0..<N] buf = map f [0..<N]"
proof -
  have "fold (\<lambda>q b. b[q := f q]) [0..<N] b = tl_store N (\<lambda>_. True) (\<lambda>l. l) f b" for b
    by (simp add: tl_store_def)
  moreover assume "length buf = N"
  ultimately show ?thesis
    by (intro nth_equalityI) (simp_all add: inj_on_def tl_store_hit[of "\<lambda>l. l" N "\<lambda>_. True"])
qed

lemma out_shapeD:
  assumes "out_shape N out"
  shows "length (fo_tokens out) = N" "length (fo_parents out) = N" "length (fo_topo out) = N"
    "length (fo_lps out) = N" "length (fo_depth out) = N" "length (fo_positions out) = N"
    "length (fo_mask out) = N * N" "length (fo_retrieve_index out) = N"
    "length (fo_next_token out) = N" "length (fo_next_sibling out) = N"
  using assms by (simp_all add: out_shape_def)

lemma kernel_result:
  assumes "length kept = budget" "out_shape (budget + 1) out"
  shows "finalize_one_block_fixed_kernel budget bidx row kept valid sample seq_len out
    = fixed_result budget bidx row kept valid sample seq_len"
proof -
  define N ps where "N = budget + 1" and "ps = rr_parents row"
  have N: "0 < N" "length kept = N - 1" using assms(1) by (simp_all add: N_def)
  define par where "par l = raw_parent_out N ps kept valid (mapped_parent_outer (next_power_of_2 N) N ps kept valid l) l" for l
  define topo where "topo l = lane_topo N valid (par l) l" for l
  have par: "map par [0..<N] = fixed_parents N ps kept valid"
    unfolding par_def fixed_parents_def raw_parent_out_routes[OF N] ..
  have topo: "map topo [0..<N] = fixed_topo N ps kept valid"
    by (rule nth_equalityI) (simp_all add: fixed_topo_nth topo_def par_def raw_parent_out_routes[OF N])
  note links = kernel_links[OF N(1), of _ topo valid, unfolded Let_def, unfolded topo]
  have neg: "topo c < 0 \<longleftrightarrow> \<not> lane_keep N valid c" for c by (simp add: topo_def lane_topo_neg)
  note store = store_row_all[OF next_power_of_2_le] and sh = out_shapeD[OF assms(2)[folded N_def]]
  note msk = mask_flat[OF N(1) sh(7) next_power_of_2_le]
  have maps: "map f [0..<N] = map g [0..<N]" if "\<And>l. l < N \<Longrightarrow> f l = g l" for f g :: "nat \<Rightarrow> int" using that by simp
  show ?thesis
    unfolding finalize_one_block_fixed_kernel_def fixed_result_def Let_def N_def[symmetric] ps_def[symmetric]
      par_def[symmetric] topo_def[symmetric]
    unfolding store[OF sh(1)] store[OF sh(2)] store[OF sh(3)] store[OF sh(4)] store[OF sh(5)] store[OF sh(6)]
      store[OF sh(8)] store[OF sh(9)] store[OF sh(10)] msk par topo
    by (simp only: fixed_out.ext_inject simp_thms) (intro conjI maps links[OF _ neg]; assumption)
qed
lemma metax_result:
  assumes "length kept = budget" "length valid = budget" "out_shape (budget + 1) out"
  shows "finalize_one_block_fixed_metax budget bidx row kept valid sample seq_len out
    = fixed_result budget bidx row kept valid sample seq_len"
proof -
  define N ps where "N = budget + 1" and "ps = rr_parents row"
  have N: "0 < N" "length kept = N - 1" "length valid = N - 1" using assms by (simp_all add: N_def)
  let ?topo = "fixed_topo N ps kept valid"
  let ?par = "\<lambda>l. raw_parent_out N ps kept valid (mapped_parent_serial N ps kept valid l) l"
  have topo: "map (\<lambda>l. lane_topo N valid (?par l) l) [0..<N] = ?topo"
    by (rule nth_equalityI) (simp_all add: fixed_topo_nth)
  note store = store_row_all[OF next_power_of_2_le] and sh = out_shapeD[OF assms(3)[folded N_def]]
  have neg: "\<forall>c<N. ?topo ! c < 0 \<longleftrightarrow> c = 0 \<or> \<not> valid ! (c - 1)" by (auto simp: fixed_topo_neg lane_keep_iff)
  have links: "links_row_kernel N ?topo valid q = (first_child ?topo q, next_sibling ?topo q)" if "q < N" for q
    by (rule row_kernel_spec[OF length_fixed_topo N(3) that neg])
  have child: "fold (\<lambda>q b. b[q := fst (links_row_kernel N ?topo valid q)]) [0..<N] buf = map (first_child ?topo) [0..<N]"
    if "length buf = N" for buf using fold_rows[OF that] links by simp
  have sibling: "fold (\<lambda>q b. b[q := snd (links_row_kernel N ?topo valid q)]) [0..<N] buf = map (next_sibling ?topo) [0..<N]"
    if "length buf = N" for buf using fold_rows[OF that] links by simp
  show ?thesis
    unfolding finalize_one_block_fixed_metax_def pack_depth_topology_kernel_def fixed_result_def Let_def
      N_def[symmetric] ps_def[symmetric]
    unfolding store[OF sh(1)] store[OF sh(2)] store[OF sh(3)] store[OF sh(4)] store[OF sh(5)] store[OF sh(6)]
      store[OF sh(8)] topo
    by (simp add: mask_rows[OF N(1) sh(7)] child[OF sh(9)] sibling[OF sh(10)] fixed_parents_def)
qed

section \<open>The tree of the kept nodes\<close>

text \<open>
  \<open>raw_path\<close>: a node and its ancestors, and whether the walk reaches the root within the bound.
\<close>

fun raw_path :: "nat \<Rightarrow> int list \<Rightarrow> nat \<Rightarrow> nat list" where
  "raw_path 0 ps i = []"
| "raw_path (Suc m) ps i = i # (if ps ! i < 0 then [] else raw_path m ps (nat (ps ! i)))"

fun rooted :: "nat \<Rightarrow> int list \<Rightarrow> nat \<Rightarrow> bool" where
  "rooted 0 ps i = False"
| "rooted (Suc m) ps i = (i < length ps \<and> (ps ! i < 0 \<or> rooted m ps (nat (ps ! i))))"

text \<open>A selection that contains the parent of each of its nodes, every one within the depth bound.\<close>

definition kept_ok :: "int list \<Rightarrow> nat list \<Rightarrow> bool list \<Rightarrow> bool" where
  "kept_ok ps kept valid \<longleftrightarrow> length valid = length kept \<and> distinct kept
     \<and> (\<forall>c<length kept. valid ! c \<longrightarrow> rooted fixed_max_depth ps (kept ! c)
          \<and> (0 \<le> ps ! (kept ! c) \<longrightarrow> (\<exists>d<length kept. valid ! d \<and> int (kept ! d) = ps ! (kept ! c))))"

lemma raw_path_nonempty: "0 < m \<Longrightarrow> raw_path m ps i \<noteq> []"
  by (cases m) simp_all

lemma depth_walk_inactive [simp]: "depth_walk m ps cur False d = d"
  by (induction m) simp_all

lemma depth_walk_path: "depth_walk m ps cur True d = d + int (length (raw_path m ps cur))"
proof (induction m arbitrary: cur d)
  case (Suc m)
  then show ?case by (cases "0 \<le> ps ! cur") (simp_all add: tl_load_def Let_def)
qed simp

lemma visible_walk_inactive [simp]: "visible_walk m ps hit cur False v = v"
  by (induction m) simp_all

lemma visible_walk_path:
  "visible_walk m ps hit cur True v \<longleftrightarrow> v \<or> (\<exists>x\<in>set (raw_path m ps cur). hit x)"
proof (induction m arbitrary: cur v)
  case (Suc m)
  then show ?case by (cases "0 \<le> ps ! cur") (auto simp: tl_load_def Let_def)
qed simp

text \<open>The serial search finds the position of the parent.\<close>

lemma serial_search:
  assumes "distinct kept" "d < length kept" "valid ! d" "int (kept ! d) = p"
  shows "fold (\<lambda>c m. if 0 \<le> p \<and> valid ! c \<and> p = int (kept ! c) then int c else m) [0..<length kept] (- 1) = int d"
proof -
  have "fold (\<lambda>c m. if 0 \<le> p \<and> valid ! c \<and> p = int (kept ! c) then int c else m) [0..<n] (- 1)
      = (if d < n then int d else - 1)" if "n \<le> length kept" for n
    using that
  proof (induction n)
    case (Suc n)
    have "p = int (kept ! n) \<longleftrightarrow> n = d" using assms Suc.prems nth_eq_iff_index_eq[OF assms(1), of n d] by auto
    then show ?case using Suc assms by auto
  qed simp
  then show ?thesis using assms(2) by simp
qed

lemma fixed_parents_nth:
  assumes ok: "kept_ok ps kept valid" and c: "c < length kept"
  defines "N \<equiv> length kept + 1"
  shows "\<not> valid ! c \<Longrightarrow> fixed_parents N ps kept valid ! Suc c = - 2"
    and "valid ! c \<Longrightarrow> ps ! (kept ! c) < 0 \<Longrightarrow> fixed_parents N ps kept valid ! Suc c = - 1"
    and "valid ! c \<Longrightarrow> 0 \<le> ps ! (kept ! c) \<Longrightarrow> \<exists>d<length kept. valid ! d \<and> int (kept ! d) = ps ! (kept ! c)
           \<and> fixed_parents N ps kept valid ! Suc c = int d"
proof -
  have k: "lane_keep N valid (Suc c) \<longleftrightarrow> valid ! c" "lane_kept N kept (Suc c) = kept ! c"
    using c by (simp_all add: lane_keep_iff lane_kept_def tl_load_def N_def)
  have old: "valid ! c \<Longrightarrow> lane_old_parent N ps kept valid (Suc c) = ps ! (kept ! c)"
    by (simp add: lane_old_parent_def k tl_load_def)
  have nth: "fixed_parents N ps kept valid ! Suc c
      = raw_parent_out N ps kept valid (mapped_parent_serial N ps kept valid (Suc c)) (Suc c)"
    using c by (simp add: fixed_parents_def N_def del: upt_Suc)
  show "\<not> valid ! c \<Longrightarrow> fixed_parents N ps kept valid ! Suc c = - 2"
    and "valid ! c \<Longrightarrow> ps ! (kept ! c) < 0 \<Longrightarrow> fixed_parents N ps kept valid ! Suc c = - 1"
    by (simp_all add: nth raw_parent_out_def k old)
  assume v: "valid ! c" and p: "0 \<le> ps ! (kept ! c)"
  then obtain d where d: "d < length kept" "valid ! d" "int (kept ! d) = ps ! (kept ! c)"
    using ok c by (auto simp: kept_ok_def)
  have "mapped_parent_serial N ps kept valid (Suc c) = int d"
    unfolding mapped_parent_serial_def old[OF v] using serial_search[OF _ d] ok p k(1) v
    by (simp add: N_def kept_ok_def)
  then have "fixed_parents N ps kept valid ! Suc c = int d" by (simp add: nth raw_parent_out_def k old v p)
  then show "\<exists>d<length kept. valid ! d \<and> int (kept ! d) = ps ! (kept ! c)
           \<and> fixed_parents N ps kept valid ! Suc c = int d" using d by blast
qed
lemma kept_paths:
  assumes ok: "kept_ok ps kept valid" and c: "c < length kept" "valid ! c"
  defines "cs \<equiv> List.tl (fixed_parents (length kept + 1) ps kept valid)"
  shows "map (\<lambda>d. kept ! d) (raw_path m cs c) = raw_path m ps (kept ! c)
    \<and> (\<forall>d\<in>set (raw_path m cs c). d < length kept \<and> valid ! d)"
  using c
proof (induction m arbitrary: c)
  case (Suc m)
  have cs: "cs ! c = fixed_parents (length kept + 1) ps kept valid ! Suc c"
    using Suc.prems(1) by (simp add: cs_def nth_tl fixed_parents_def del: upt_Suc)
  note par = fixed_parents_nth[OF ok Suc.prems(1), folded cs]
  show ?case
  proof (cases "ps ! (kept ! c) < 0")
    case True
    then show ?thesis using par(2) Suc.prems by simp
  next
    case False
    then obtain d where "d < length kept" "valid ! d" "int (kept ! d) = ps ! (kept ! c)" "cs ! c = int d"
      using par(3) Suc.prems by auto
    moreover from this(3) have "nat (ps ! (kept ! c)) = kept ! d" by simp
    ultimately show ?thesis using Suc.IH[of d] Suc.prems False by simp
  qed
qed simp

lemma kept_mask:
  assumes ok: "kept_ok ps kept valid" and q: "q \<le> length kept" and k: "k \<le> length kept"
  defines "cs \<equiv> List.tl (fixed_parents (length kept + 1) ps kept valid)"
  shows "visible_lane (length kept + 1) ps kept valid q k \<longleftrightarrow>
    (if q = 0 then k = 0 else if valid ! (q - 1) then k = 0 \<or> k - 1 \<in> set (raw_path fixed_max_depth cs (q - 1)) else k = q)"
proof (cases "0 < q \<and> valid ! (q - 1)")
  case True
  then have v: "lane_keep (length kept + 1) valid q" "lane_kept (length kept + 1) kept q = kept ! (q - 1)"
    using q by (simp_all add: lane_keep_iff lane_kept_def tl_load_def)
  have q1: "q - 1 < length kept" "valid ! (q - 1)" using True q by auto
  note path = kept_paths[OF ok q1, of fixed_max_depth, folded cs_def]
  have dist: "distinct kept" using ok by (simp add: kept_ok_def)
  have "visible_lane (length kept + 1) ps kept valid q k \<longleftrightarrow> k = 0 \<or>
      (\<exists>x\<in>set (raw_path fixed_max_depth ps (kept ! (q - 1))). 0 < k \<and> kept ! (k - 1) = x)"
    using True k v by (auto simp: visible_lane_def visible_walk_path tl_load_def)
  also have "raw_path fixed_max_depth ps (kept ! (q - 1)) = map (\<lambda>d. kept ! d) (raw_path fixed_max_depth cs (q - 1))"
    using path by simp
  also have "(k = 0 \<or> (\<exists>x\<in>set (map (\<lambda>d. kept ! d) (raw_path fixed_max_depth cs (q - 1))). 0 < k \<and> kept ! (k - 1) = x))
      \<longleftrightarrow> k = 0 \<or> k - 1 \<in> set (raw_path fixed_max_depth cs (q - 1))"
  proof -
    have "kept ! (k - 1) = kept ! d \<longleftrightarrow> k - 1 = d" if "0 < k" "d \<in> set (raw_path fixed_max_depth cs (q - 1))" for d
    proof -
      have "d < length kept" using path that(2) by blast
      then show ?thesis using nth_eq_iff_index_eq[OF dist, of "k - 1" d] k that(1) by simp
    qed
    then show ?thesis by (cases "k = 0") (auto simp: image_iff)
  qed
  finally show ?thesis using True by simp
next
  case False
  then have "\<not> lane_keep (length kept + 1) valid q" by (auto simp: lane_keep_iff)
  then show ?thesis using False by (auto simp: visible_lane_def)
qed

lemma lane_of_kept:
  assumes "c < length kept"
  shows "lane_keep (length kept + 1) valid (Suc c) \<longleftrightarrow> valid ! c" "lane_kept (length kept + 1) kept (Suc c) = kept ! c"
  using assms by (simp_all add: lane_keep_iff lane_kept_def tl_load_def)

lemma fixed_topo_shift:
  assumes ok: "kept_ok ps kept valid"
  shows "fixed_topo (length kept + 1) ps kept valid
    = - 1 # map (\<lambda>p. if p = - 2 then - 1 else p + 1) (List.tl (fixed_parents (length kept + 1) ps kept valid))"
    (is "?t = _ # map ?f ?cs")
proof (rule nth_equalityI)
  have len: "length ?cs = length kept" by (simp add: fixed_parents_def)
  then show "length ?t = length (- 1 # map ?f ?cs)" by simp
  fix i assume "i < length ?t"
  then have i: "i < length kept + 1" by simp
  show "?t ! i = (- 1 # map ?f ?cs) ! i"
  proof (cases i)
    case 0
    then show ?thesis by (simp add: fixed_topo_def lane_topo_def lane_keep_iff del: upt_Suc)
  next
    case (Suc c)
    then have c: "c < length kept" using i by simp
    have cs: "?cs ! c = fixed_parents (length kept + 1) ps kept valid ! Suc c"
      using c by (simp add: nth_tl fixed_parents_def del: upt_Suc)
    have t: "?t ! i = lane_topo (length kept + 1) valid (?cs ! c) (Suc c)"
      using c Suc cs by (simp add: fixed_topo_def del: upt_Suc)
    note par = fixed_parents_nth[OF ok c, folded cs]
    consider "\<not> valid ! c" | "valid ! c" "ps ! (kept ! c) < 0" | "valid ! c" "0 \<le> ps ! (kept ! c)" by linarith
    then show ?thesis
    proof cases
      case 3
      then obtain d where "?cs ! c = int d" using par(3) by blast
      then show ?thesis using t c Suc 3 len lane_of_kept(1)[OF c] by (simp add: lane_topo_def)
    qed (use t par c Suc len lane_of_kept(1)[OF c] in \<open>simp_all add: lane_topo_def\<close>)
  qed
qed
section \<open>The selection by score\<close>

text \<open>
  The order of floats that are not NaN, as an order of integers: the sign and the magnitude of the
  pattern.  Both zeros have key 0.  A float is finite when its exponent bits are not all ones.
\<close>

definition f32_key :: "f32 \<Rightarrow> int" where
  "f32_key w = (if uint w < 2 ^ 31 then uint w else - (uint w - 2 ^ 31))"

definition f32_isfinite :: "f32 \<Rightarrow> bool" where
  "f32_isfinite w \<longleftrightarrow> uint w div 2 ^ 23 mod 2 ^ 8 \<noteq> 2 ^ 8 - 1"

text \<open>
  The scores of a row: the raw scores padded to the width, \<open>- inf\<close> beyond the raw nodes.  The best
  \<open>budget\<close> of them are kept in the order of the raw nodes; a place is valid when its score is finite.
\<close>

definition select_scores :: "nat \<Rightarrow> nat \<Rightarrow> nat \<Rightarrow> f32 list \<Rightarrow> f32 list" where
  "select_scores budget raw_capacity raw_n lps =
     (let score_width = max raw_capacity budget;
          scores = take raw_capacity lps @ replicate (score_width - raw_capacity) f32_neg_inf
      in map (\<lambda>i. if i < raw_n then scores ! i else f32_neg_inf) [0..<score_width])"

definition select_kept ::
    "(nat \<Rightarrow> int list \<Rightarrow> nat list) \<Rightarrow> nat \<Rightarrow> nat \<Rightarrow> nat \<Rightarrow> f32 list \<Rightarrow> nat list \<times> bool list" where
  "select_kept topk budget raw_capacity raw_n lps =
     (let scores = select_scores budget raw_capacity raw_n lps;
          kept_idx = sort (topk budget (map f32_key scores))
      in (kept_idx, map (\<lambda>i. f32_isfinite (scores ! i)) kept_idx))"

text \<open>
  A raw tree of \<open>n\<close> nodes: every node reaches the root within the depth bound, a score is finite or
  \<open>- inf\<close>, and a node that is alive scores below its parent.
\<close>

definition raw_ok_row :: "nat \<Rightarrow> int list \<Rightarrow> f32 list \<Rightarrow> bool" where
  "raw_ok_row n ps lps \<longleftrightarrow> (\<forall>i<n. (f32_isfinite (lps ! i) \<or> lps ! i = f32_neg_inf)
     \<and> (lps ! i \<noteq> f32_neg_inf \<longrightarrow> rooted fixed_max_depth ps i
          \<and> (0 \<le> ps ! i \<longrightarrow> ps ! i < int n \<and> f32_key (lps ! i) < f32_key (lps ! nat (ps ! i)))))"

lemma neg_inf_infinite [simp]: "\<not> f32_isfinite f32_neg_inf"
  by (simp add: f32_isfinite_def f32_neg_inf_def)

lemma neg_inf_key [simp]: "f32_key f32_neg_inf = - 2139095040"
  by (simp add: f32_key_def f32_neg_inf_def)

lemma finite_above_neg_inf:
  assumes "f32_isfinite w"
  shows "f32_key f32_neg_inf < f32_key w"
proof (rule ccontr)
  assume "\<not> f32_key f32_neg_inf < f32_key w"
  then have key: "f32_key w \<le> - 2139095040" by simp
  have "511 * 8388608 \<le> uint w"
  proof (cases "uint w < 2 ^ 31")
    case True
    then have "0 \<le> f32_key w" by (simp add: f32_key_def)
    then show ?thesis using key by linarith
  next
    case False
    then show ?thesis using key by (simp add: f32_key_def)
  qed
  moreover have "uint w < 512 * 8388608" using uint_lt2p[of w] by simp
  ultimately have "uint w div 8388608 = 511"
    using int_div_pos_eq[of "uint w" 8388608 511 "uint w - 511 * 8388608"] by linarith
  then show False using assms by (simp add: f32_isfinite_def)
qed

lemma select_scores_nth:
  "i < max raw_capacity budget \<Longrightarrow> raw_n \<le> length lps \<Longrightarrow> raw_n \<le> raw_capacity \<Longrightarrow>
   select_scores budget raw_capacity raw_n lps ! i = (if i < raw_n then lps ! i else f32_neg_inf)"
  by (simp add: select_scores_def Let_def nth_append)

lemma length_select_scores [simp]: "length (select_scores budget raw_capacity raw_n lps) = max raw_capacity budget"
  by (simp add: select_scores_def Let_def)

lemma select_kept_facts:
  assumes "topk_op topk" "raw_n \<le> length lps" "raw_n \<le> raw_capacity"
    and sel: "select_kept topk budget raw_capacity raw_n lps = (kept, valid)"
  shows "length kept = budget" "length valid = budget" "distinct kept" "sorted kept"
    "\<And>c. c < budget \<Longrightarrow> valid ! c \<longleftrightarrow> kept ! c < raw_n \<and> f32_isfinite (lps ! (kept ! c))"
    "\<And>c p. c < budget \<Longrightarrow> valid ! c \<Longrightarrow> p < raw_n \<Longrightarrow> f32_key (lps ! (kept ! c)) < f32_key (lps ! p) \<Longrightarrow> p \<in> set kept"
    "\<And>c p. c < budget \<Longrightarrow> p < raw_n \<Longrightarrow> p \<notin> set kept \<Longrightarrow>
       f32_key (lps ! p) \<le> f32_key (if kept ! c < raw_n then lps ! (kept ! c) else f32_neg_inf)"
proof -
  let ?sc = "select_scores budget raw_capacity raw_n lps"
  let ?top = "topk budget (map f32_key ?sc)"
  have fit: "budget \<le> length (map f32_key ?sc)" by simp
  note top = topk_op.topk_length[OF assms(1) fit] topk_op.topk_index[OF assms(1) fit] topk_op.topk_distinct[OF assms(1) fit]
  have kept: "kept = sort ?top" and valid: "valid = map (\<lambda>i. f32_isfinite (?sc ! i)) kept"
    using sel by (auto simp: select_kept_def Let_def)
  show len: "length kept = budget" and "distinct kept" and "sorted kept" using top by (simp_all add: kept)
  then show "length valid = budget" by (simp add: valid)
  have range: "kept ! c < max raw_capacity budget" if "c < budget" for c
    using top(2)[of "kept ! c"] nth_mem[of c kept] that len by (simp add: kept)
  show v: "valid ! c \<longleftrightarrow> kept ! c < raw_n \<and> f32_isfinite (lps ! (kept ! c))" if "c < budget" for c
    using range[OF that] that len by (simp add: valid select_scores_nth assms(2,3))
  show best: "f32_key (lps ! p) \<le> f32_key (if kept ! c < raw_n then lps ! (kept ! c) else f32_neg_inf)"
    if c: "c < budget" and p: "p < raw_n" "p \<notin> set kept" for c p
  proof -
    have out: "p \<notin> set ?top" using p(2) by (simp add: kept)
    have "kept ! c \<in> set ?top" using nth_mem[of c kept] c len by (simp add: kept)
    moreover have "p < length (map f32_key ?sc)" using p(1) assms(3) by simp
    ultimately have "map f32_key ?sc ! p \<le> map f32_key ?sc ! (kept ! c)"
      using topk_op.topk_best[OF assms(1) fit _ _ out] by blast
    then show ?thesis using p(1) range[OF c] assms(2,3) by (simp add: select_scores_nth)
  qed
  show "p \<in> set kept"
    if c: "c < budget" "valid ! c" and p: "p < raw_n" "f32_key (lps ! (kept ! c)) < f32_key (lps ! p)" for c p
    using best[OF c(1) p(1)] p(2) v[OF c(1)] c(2) by (cases "p \<in> set kept") simp_all
qed

text \<open>The kept nodes contain the parents of the valid ones.\<close>

lemma select_kept_ok:
  assumes "topk_op topk" "raw_n \<le> length lps" "raw_n \<le> raw_capacity" "raw_ok_row raw_n ps lps"
    and "select_kept topk budget raw_capacity raw_n lps = (kept, valid)"
  shows "kept_ok ps kept valid"
proof -
  note sel = select_kept_facts[OF assms(1-3,5)]
  have "rooted fixed_max_depth ps (kept ! c)
      \<and> (0 \<le> ps ! (kept ! c) \<longrightarrow> (\<exists>d<length kept. valid ! d \<and> int (kept ! d) = ps ! (kept ! c)))"
    if c: "c < budget" "valid ! c" for c
  proof -
    have live: "kept ! c < raw_n" "f32_isfinite (lps ! (kept ! c))" using sel(5)[OF c(1)] c(2) by auto
    then have ne: "lps ! (kept ! c) \<noteq> f32_neg_inf" by auto
    then have r: "rooted fixed_max_depth ps (kept ! c)" using assms(4) live(1) by (auto simp: raw_ok_row_def)
    have "\<exists>d<length kept. valid ! d \<and> int (kept ! d) = ps ! (kept ! c)" if p: "0 \<le> ps ! (kept ! c)"
    proof -
      have key: "nat (ps ! (kept ! c)) < raw_n" "f32_key (lps ! (kept ! c)) < f32_key (lps ! nat (ps ! (kept ! c)))"
        using assms(4) live(1) ne p by (auto simp: raw_ok_row_def nat_less_iff)
      then obtain d where d: "d < length kept" "kept ! d = nat (ps ! (kept ! c))"
        using sel(6)[OF c] by (metis in_set_conv_nth)
      have "lps ! (kept ! d) \<noteq> f32_neg_inf" using key(2) finite_above_neg_inf[OF live(2)] d(2) by auto
      then have "f32_isfinite (lps ! (kept ! d))" using assms(4) key(1) d(2) by (auto simp: raw_ok_row_def)
      then have "valid ! d" using sel(5)[of d] d key(1) sel(1) by simp
      then show ?thesis using d p by auto
    qed
    then show ?thesis using r by blast
  qed
  then show ?thesis using sel(1-3) by (simp add: kept_ok_def)
qed
section \<open>Properties\<close>

text \<open>
  C29.  The fixed-width tree is the tree of the kept nodes.  For every raw row and every
  selection of distinct places that contains the parents of its valid ones (each at most 20 links
  from the root), the kernel fills every buffer whatever it held before: place 0 is the sampled token;
  a valid place has the token and the score of its raw node, its compact root path is the raw root path of
  that node, its depth is the length of the path, and it attends exactly to the root and to
  the path; an invalid place has depth 0, attends to itself only and has no parent; the
  pointers are the first child and the next sibling in the compact tree.
\<close>

theorem finalize_fixed_correct:
  assumes "kept_ok (rr_parents row) kept valid" "length kept = budget" "out_shape (budget + 1) out"
  shows "let t = finalize_one_block_fixed_kernel budget bidx row kept valid sample seq_len out;
             path = raw_path fixed_max_depth (List.tl (fo_parents t));
             attends = (\<lambda>q k. fo_mask t ! (q * (budget + 1) + k))
         in out_shape (budget + 1) t
          \<and> fo_tokens t ! 0 = sample \<and> fo_depth t ! 0 = 0 \<and> (\<forall>k\<le>budget. attends 0 k \<longleftrightarrow> k = 0)
          \<and> (\<forall>c<budget. valid ! c \<longrightarrow>
               fo_tokens t ! Suc c = rr_tokens row ! (kept ! c) \<and> fo_lps t ! Suc c = rr_lps row ! (kept ! c)
             \<and> map (\<lambda>d. kept ! d) (path c) = raw_path fixed_max_depth (rr_parents row) (kept ! c)
             \<and> fo_depth t ! Suc c = int (length (path c))
             \<and> (\<forall>k\<le>budget. attends (Suc c) k \<longleftrightarrow> k = 0 \<or> k - 1 \<in> set (path c)))
          \<and> (\<forall>c<budget. \<not> valid ! c \<longrightarrow>
               fo_tokens t ! Suc c = 0 \<and> fo_lps t ! Suc c = f32_neg_inf \<and> fo_parents t ! Suc c = - 2
             \<and> fo_depth t ! Suc c = 0 \<and> (\<forall>k\<le>budget. attends (Suc c) k \<longleftrightarrow> k = Suc c))
          \<and> fo_topo t = - 1 # map (\<lambda>p. if p = - 2 then - 1 else p + 1) (List.tl (fo_parents t))
          \<and> fo_positions t = map (\<lambda>d. d + seq_len) (fo_depth t)
          \<and> fo_retrieve_index t = map (\<lambda>l. int (bidx * (budget + 1) + l)) [0..<budget + 1]
          \<and> fo_next_token t = map (first_child (fo_topo t)) [0..<budget + 1]
          \<and> fo_next_sibling t = map (next_sibling (fo_topo t)) [0..<budget + 1]"
proof -
  define N ps where "N = budget + 1" and "ps = rr_parents row"
  note ok = assms(1)[folded ps_def]
  have N: "N = length kept + 1" using assms(2) by (simp add: N_def)
  let ?cs = "List.tl (fixed_parents N ps kept valid)"
  have at: "map g [0..<N * N] ! (q * N + k) = g (q * N + k)" if "q \<le> budget" "k \<le> budget" for g :: "nat \<Rightarrow> bool" and q k
  proof -
    have "q * N + k < Suc q * N" using that by (simp add: N_def)
    also have "\<dots> \<le> N * N" using that by (intro mult_le_mono1) (simp add: N_def)
    finally show ?thesis by simp
  qed
  have msk: "map (\<lambda>m. visible_lane N ps kept valid (m div N) (m mod N)) [0..<N * N] ! (q * N + k) \<longleftrightarrow>
      (if q = 0 then k = 0 else if valid ! (q - 1) then k = 0 \<or> k - 1 \<in> set (raw_path fixed_max_depth ?cs (q - 1)) else k = q)"
    if q: "q \<le> budget" and k: "k \<le> budget" for q k
  proof -
    have "k < N" using k by (simp add: N_def)
    then have "(q * N + k) div N = q" "(q * N + k) mod N = k" by simp_all
    then have "map (\<lambda>m. visible_lane N ps kept valid (m div N) (m mod N)) [0..<N * N] ! (q * N + k)
        = visible_lane N ps kept valid q k" using at[OF q k] by simp
    then show ?thesis using kept_mask[OF ok, of q k] q k assms(2) by (simp add: N)
  qed
  have lane: "lane_keep N valid (Suc c) \<longleftrightarrow> valid ! c" "lane_kept N kept (Suc c) = kept ! c" if "c < budget" for c
    using that by (simp_all add: N_def lane_keep_iff lane_kept_def tl_load_def)
  have lane0: "\<not> lane_keep N valid 0" by (simp add: lane_keep_iff)
  have path: "map (\<lambda>d. kept ! d) (raw_path fixed_max_depth ?cs c) = raw_path fixed_max_depth ps (kept ! c)"
    if "c < budget" "valid ! c" for c using kept_paths[OF ok, of c fixed_max_depth] that assms(2) by (simp add: N)
  have depth: "int (length (raw_path fixed_max_depth ps (kept ! c))) = int (length (raw_path fixed_max_depth ?cs c))"
    if "c < budget" "valid ! c" for c unfolding path[OF that, symmetric] by simp
  have none: "fixed_parents N ps kept valid ! Suc c = - 2" if "c < budget" "\<not> valid ! c" for c
    using fixed_parents_nth(1)[OF ok, of c] that assms(2) by (simp add: N)
  have nth0: "map f [0..<N] ! 0 = f 0" for f :: "nat \<Rightarrow> int" by (simp add: N_def del: upt_Suc)
  have nthS: "map f [0..<N] ! Suc c = f (Suc c)" if "c < budget" for f :: "nat \<Rightarrow> int" and c
    using that by (simp add: N_def del: upt_Suc)
  have nthS': "map f [0..<N] ! Suc c = f (Suc c)" if "c < budget" for f :: "nat \<Rightarrow> f32" and c
    using that by (simp add: N_def del: upt_Suc)
  define M where "M = map (\<lambda>m. visible_lane N ps kept valid (m div N) (m mod N)) [0..<N * N]"
  have M0: "\<forall>k\<le>budget. M ! (0 * N + k) \<longleftrightarrow> k = 0" unfolding M_def using msk[of 0] by auto
  have M: "M ! (N + c * N + k) \<longleftrightarrow> (if valid ! c then k = 0 \<or> k - Suc 0 \<in> set (raw_path fixed_max_depth ?cs c) else k = Suc c)"
    if "c < budget" "k \<le> budget" for c k unfolding M_def using msk[of "Suc c" k] that by simp
  have lens: "length (fixed_parents N ps kept valid) = N" "length M = N * N" "Suc (N - Suc 0) = N"
    by (simp_all add: fixed_parents_def M_def N_def)
  have ret: "map (\<lambda>l. int l + int (bidx * N)) [0..<N] = map (\<lambda>l. int (bidx * N + l)) [0..<N]" by simp
  show ?thesis
    unfolding kernel_result[OF assms(2,3)] Let_def fixed_result_def N_def[symmetric] ps_def[symmetric] fixed_out.simps
      fixed_topo_shift[OF ok, folded N] M_def[symmetric] ret
    by (intro conjI M0) (simp_all add: none M lane lane0 path depth nth0 nthS nthS' depth_walk_path tl_load_def
        out_shape_def lens comp_def)
qed

definition demo_row :: raw_row where
  "demo_row = \<lparr>rr_tokens = [11, 12, 13, 14], rr_parents = [- 1, 0, 0, 2],
     rr_lps = [0xBF000000, 0xBF800000, 0xC0000000, 0xC0400000]\<rparr>"

definition demo_out :: fixed_out where
  "demo_out = \<lparr>fo_tokens = [9, 9, 9], fo_parents = [9, 9, 9], fo_topo = [9, 9, 9], fo_lps = [9, 9, 9], fo_depth = [9, 9, 9],
     fo_positions = [9, 9, 9], fo_mask = replicate 9 True, fo_retrieve_index = [9, 9, 9], fo_next_token = [9, 9, 9],
     fo_next_sibling = [9, 9, 9]\<rparr>"

lemma demo_kept: "kept_ok (rr_parents demo_row) [0, 2] [True, True]" "out_shape (2 + 1) demo_out"
  by code_simp+

theorem finalize_fixed_correct_witness:
  "let t = finalize_one_block_fixed_kernel 2 0 demo_row [0, 2] [True, True] 7 50 demo_out
   in fo_tokens t ! 0 = 7 \<and> fo_depth t ! 0 = 0 \<and> fo_positions t = map (\<lambda>d. d + 50) (fo_depth t)"
  using finalize_fixed_correct[OF demo_kept(1) _ demo_kept(2), of 0 7 50] by (simp add: Let_def)

text \<open>
  C30.  The two routes agree: on every raw row and selection, closed or not, the single kernel and
  the three stages with one program per row leave the same values in every buffer.
\<close>

theorem finalize_routes_agree:
  assumes "length kept = budget" "length valid = budget" "out_shape (budget + 1) out" "out_shape (budget + 1) out'"
  shows "finalize_one_block_fixed_metax budget bidx row kept valid sample seq_len out
    = finalize_one_block_fixed_kernel budget bidx row kept valid sample seq_len out'"
  using metax_result[OF assms(1-3)] kernel_result[OF assms(1,4)] by simp

theorem finalize_routes_agree_witness:
  "finalize_one_block_fixed_metax 2 0 demo_row [1, 2] [True, False] 7 50 demo_out
    = finalize_one_block_fixed_kernel 2 0 demo_row [1, 2] [True, False] 7 50 demo_out"
  using finalize_routes_agree[of "[1, 2]" 2 "[True, False]" demo_out demo_out] demo_kept(2) by simp

end
