(* ===== verification/Dedup_Rows.thy ===== *)
theory Dedup_Rows
  imports Fixed_Tree "HOL-Library.Signed_Division" "HOL-Library.Multiset"
begin

text \<open>
  The merge of duplicate paths of a raw tree on the device (\<open>_dedup_tree_rows_by_depth_kernel\<close>).
  Depth by depth, the nodes with the same parent and token are grouped by a sort of packed 64-bit keys, the best
  score of a group wins, the losers get the score \<open>- inf\<close>, and their children are moved to the winner
  through a table in shared memory.  Integers of 64 bits are integers in the signed range: \<open>i64\<close>
  wraps.  Every program of the launch owns one row; its pass over a depth has three parts, separated by
  barriers: it clears its part of the table, fills it, and reads it.
\<close>

section \<open>One program\<close>

definition i64 :: "int \<Rightarrow> int" where
  "i64 x = signed_take_bit 63 x"

abbreviation low_mask :: int where
  "low_mask \<equiv> 0xFFFFFFFF"

definition lane_count :: "(nat \<Rightarrow> bool) \<Rightarrow> nat \<Rightarrow> nat" where
  "lane_count P i = length (filter P [0..<Suc i])"

text \<open>The depth of a lane: how many of at most 20 steps find a parent.\<close>

fun dedup_walk :: "nat \<Rightarrow> int list \<Rightarrow> nat \<Rightarrow> nat \<Rightarrow> nat" where
  "dedup_walk 0 ps cur depth = depth"
| "dedup_walk (Suc m) ps cur depth =
     (if 0 \<le> ps ! cur then dedup_walk m ps (nat (ps ! cur)) (depth + 1) else dedup_walk m ps cur depth)"

definition dedup_depths :: "nat \<Rightarrow> nat \<Rightarrow> int list \<Rightarrow> nat list" where
  "dedup_depths N n ps = map (\<lambda>i. if i < n then dedup_walk fixed_max_depth ps i 0 else 0) [0..<N]"

definition dedup_parents :: "nat \<Rightarrow> nat \<Rightarrow> int list \<Rightarrow> int list" where
  "dedup_parents N n ps = map (\<lambda>i. tl_load (i < n) ps i (- 1)) [0..<N]"

text \<open>What the passes of one row have in common.\<close>

record dedup_row =
  dr_lanes :: nat
  dr_compact :: nat
  dr_n :: nat
  dr_tokens :: "int list"
  dr_depths :: "nat list"

definition dedup_at :: "dedup_row \<Rightarrow> f32 list \<Rightarrow> nat \<Rightarrow> nat \<Rightarrow> bool" where
  "dedup_at r lps d i \<longleftrightarrow> dr_depths r ! i = d \<and> i < dr_n r \<and> tl_load (i < dr_n r) lps i f32_neg_inf \<noteq> f32_neg_inf"

definition packed_key :: "dedup_row \<Rightarrow> int list \<Rightarrow> nat \<Rightarrow> int" where
  "packed_key r parents i =
     (let token = tl_load (i < dr_n r) (dr_tokens r) i 0;
          key = i64 (i64 (i64 (parents ! i + 1) * 2 ^ 32) + token)
      in i64 (i64 (key * (int (dr_lanes r) + 1)) + int i))"

definition sorted_packed :: "dedup_row \<Rightarrow> int list \<Rightarrow> f32 list \<Rightarrow> nat \<Rightarrow> int list" where
  "sorted_packed r parents lps d =
     sort (tl_store (dr_lanes r) (dedup_at r lps d) (\<lambda>i. lane_count (dedup_at r lps d) i - 1) (packed_key r parents)
             (replicate (dr_compact r) (2 ^ 62)))"

text \<open>The score and the place of a node in one word: a smaller magnitude, then a smaller place, is larger.\<close>

definition combine :: "f32 \<Rightarrow> nat \<Rightarrow> int" where
  "combine lp pid =
     (let bits = and (sint lp) low_mask; encoded = xor bits low_mask; pid_inv = and (xor (int pid) low_mask) low_mask
      in or (i64 (push_bit 32 encoded)) pid_inv)"

record marks =
  mk_states :: "(nat \<times> int) list"
  mk_lps :: "f32 list"

definition dedup_mark :: "dedup_row \<Rightarrow> int list \<Rightarrow> f32 list \<Rightarrow> nat \<Rightarrow> marks" where
  "dedup_mark r parents lps d =
     (let sorted = sorted_packed r parents lps d; nplus = int (dr_lanes r) + 1;
          pid = (\<lambda>j. nat (sorted ! j smod nplus)); key = (\<lambda>j. sorted ! j sdiv nplus);
          n_at_d = length (filter (dedup_at r lps d) [0..<dr_lanes r]);
          valid = (\<lambda>j. j < n_at_d);
          is_first = (\<lambda>j. key j \<noteq> (if 0 < j \<and> valid j then key (j - 1) else - 1) \<and> valid j);
          grp = (\<lambda>j. lane_count is_first j - 1);
          combined = (\<lambda>j. combine (tl_load (valid j) lps (pid j) f32_neg_inf) (pid j));
          winners = fold (\<lambda>j w. if valid j then w[grp j := max (w ! grp j) (combined j)] else w)
                      [0..<dr_compact r] (replicate (dr_compact r) 0);
          winner = (\<lambda>j. tl_load (valid j) winners (grp j) 0);
          winner_pid = (\<lambda>j. xor (and (winner j) low_mask) low_mask);
          to_mask = (\<lambda>j. valid j \<and> combined j \<noteq> winner j);
          state = (\<lambda>j. or (push_bit 32 (of_bool (to_mask j))) (and (winner_pid j) low_mask))
      in \<lparr>mk_states = map (\<lambda>j. (pid j, state j)) (filter valid [0..<dr_compact r]),
          mk_lps = tl_store (dr_compact r) to_mask pid (\<lambda>_. f32_neg_inf) lps\<rparr>)"

definition redirect :: "nat \<Rightarrow> (nat \<Rightarrow> int) \<Rightarrow> int list \<Rightarrow> int list" where
  "redirect n state parents =
     map (\<lambda>i. let st = (if i < n then state (nat (max (parents ! i) 0)) else 0)
              in if 0 \<le> parents ! i \<and> drop_bit 32 st \<noteq> 0 then and st low_mask else parents ! i) [0..<length parents]"

section \<open>All programs\<close>

text \<open>
  Program \<open>b\<close> keeps its table at \<open>b * stride\<close> of the shared buffer \<open>node_state\<close>, and a step of it is
  one of the three parts of its next depth.
\<close>

record dedup_prog =
  dp_pc :: nat
  dp_parents :: "int list"
  dp_lps :: "f32 list"

definition dedup_part :: "nat \<Rightarrow> nat \<Rightarrow> dedup_row \<Rightarrow> int list \<times> dedup_prog \<Rightarrow> int list \<times> dedup_prog" where
  "dedup_part max_d base r s =
     (let (ns, p) = s; d = dp_pc p div 3 + 1 in
      if 3 * max_d \<le> dp_pc p then (ns, p)
      else if dp_pc p mod 3 = 0 then
        (tl_store (dr_lanes r) (\<lambda>_. True) (\<lambda>i. base + i) (\<lambda>_. 0) ns, p\<lparr>dp_pc := dp_pc p + 1\<rparr>)
      else if dp_pc p mod 3 = 1 then
        (let m = dedup_mark r (dp_parents p) (dp_lps p) d
         in (fold (\<lambda>(i, v) b. b[base + i := v]) (mk_states m) ns, p\<lparr>dp_pc := dp_pc p + 1, dp_lps := mk_lps m\<rparr>))
      else (ns, p\<lparr>dp_pc := dp_pc p + 1, dp_parents := redirect (dr_n r) (\<lambda>i. ns ! (base + i)) (dp_parents p)\<rparr>))"

definition dedup_step ::
    "nat \<Rightarrow> nat \<Rightarrow> dedup_row list \<Rightarrow> nat \<Rightarrow> int list \<times> dedup_prog list \<Rightarrow> int list \<times> dedup_prog list" where
  "dedup_step max_d stride rows b s =
     (let (ns, p) = dedup_part max_d (b * stride) (rows ! b) (fst s, snd s ! b) in (ns, (snd s)[b := p]))"

definition dedup_run ::
    "nat \<Rightarrow> nat \<Rightarrow> dedup_row list \<Rightarrow> nat list \<Rightarrow> int list \<times> dedup_prog list \<Rightarrow> int list \<times> dedup_prog list" where
  "dedup_run max_d stride rows sched s = fold (dedup_step max_d stride rows) sched s"

definition load_row :: "nat \<Rightarrow> nat \<Rightarrow> nat \<Rightarrow> raw_row \<Rightarrow> dedup_row" where
  "load_row N compact n row =
     \<lparr>dr_lanes = N, dr_compact = compact, dr_n = n, dr_tokens = rr_tokens row, dr_depths = dedup_depths N n (rr_parents row)\<rparr>"

definition start_prog :: "nat \<Rightarrow> nat \<Rightarrow> raw_row \<Rightarrow> dedup_prog" where
  "start_prog N n row = \<lparr>dp_pc = 0, dp_parents = dedup_parents N n (rr_parents row), dp_lps = rr_lps row\<rparr>"

text \<open>At the end a program stores its parents and leaves its scores in memory.\<close>

definition finish_row :: "nat \<Rightarrow> dedup_prog \<Rightarrow> raw_row \<Rightarrow> raw_row" where
  "finish_row n p row =
     row\<lparr>rr_parents := tl_store (length (dp_parents p)) (\<lambda>i. i < n) (\<lambda>i. i) (\<lambda>i. dp_parents p ! i) (rr_parents row),
         rr_lps := dp_lps p\<rparr>"
section \<open>Words\<close>

lemma i64_id: "- (2 ^ 63) \<le> x \<Longrightarrow> x < 2 ^ 63 \<Longrightarrow> i64 x = x"
  unfolding i64_def by (rule signed_take_bit_int_eq_self) simp_all

lemma and_low: "and x low_mask = take_bit 32 x" for x :: int
proof -
  have "low_mask = mask 32" by (simp add: mask_eq_exp_minus_1)
  then show ?thesis by (simp only: take_bit_eq_mask)
qed

lemma xor_low:
  fixes x :: int
  assumes "0 \<le> x" "x < 2 ^ 32"
  shows "xor x low_mask = low_mask - x"
proof -
  have x: "take_bit 32 x = x" using assms by (simp add: take_bit_int_eq_self)
  have m: "low_mask = mask 32" by (simp add: mask_eq_exp_minus_1)
  have "xor x (mask 32) = take_bit 32 (not x)"
  proof (rule bit_eqI)
    fix n
    have "bit x n \<Longrightarrow> n < 32" using x by (metis bit_take_bit_iff)
    then show "bit (xor x (mask 32)) n \<longleftrightarrow> bit (take_bit 32 (not x)) n" by (auto simp: bit_simps)
  qed
  also have "\<dots> = mask 32 - take_bit 32 x" by (rule take_bit_not_eq_mask_diff)
  finally show ?thesis unfolding m x .
qed

lemma or_high:
  fixes h p :: int
  assumes "0 \<le> p" "p < 2 ^ 32"
  shows "or (push_bit 32 h) p = h * 2 ^ 32 + p"
proof -
  have p: "take_bit 32 p = p" using assms by (simp add: take_bit_int_eq_self)
  have "push_bit 32 h + p = or (push_bit 32 h) p"
  proof (rule disjunctive_add)
    fix n
    show "\<not> bit (push_bit 32 h) n \<or> \<not> bit p n"
      by (metis bit_push_bit_iff bit_take_bit_iff leD p)
  qed
  then show ?thesis by (simp add: push_bit_eq_mult)
qed

lemma combine_eq:
  assumes "2 ^ 31 \<le> uint lp" "pid < 2 ^ 32"
  shows "combine lp pid = (low_mask - uint lp) * 2 ^ 32 + (low_mask - int pid)"
proof -
  have u: "0 \<le> uint lp" "uint lp < 2 ^ 32" using uint_lt2p[of lp] by simp_all
  have "and (sint lp) low_mask = take_bit 32 (signed_take_bit 31 (uint lp))" by (simp add: and_low sint_uint)
  also have "\<dots> = take_bit 32 (uint lp)" by (rule take_bit_signed_take_bit) simp
  also have "\<dots> = uint lp" using u by (simp add: take_bit_int_eq_self)
  finally have bits: "and (sint lp) low_mask = uint lp" .
  have pid: "and (xor (int pid) low_mask) low_mask = low_mask - int pid"
    using assms(2) by (simp add: xor_low and_low take_bit_int_eq_self)
  have "i64 (push_bit 32 (low_mask - uint lp)) = push_bit 32 (low_mask - uint lp)"
    using assms(1) u by (intro i64_id) (simp_all add: push_bit_eq_mult)
  then show ?thesis unfolding combine_def Let_def bits pid xor_low[OF u] using assms(2) by (simp add: or_high)
qed

lemma combine_pid:
  assumes "2 ^ 31 \<le> uint lp" "pid < 2 ^ 32"
  shows "xor (and (combine lp pid) low_mask) low_mask = int pid"
proof -
  have "and (combine lp pid) low_mask = low_mask - int pid"
    unfolding combine_eq[OF assms] and_low take_bit_eq_mod mod_mult_self3 using assms(2) by simp
  then show ?thesis using assms(2) by (simp add: xor_low)
qed

lemma combine_pos:
  assumes "2 ^ 31 \<le> uint lp" "pid < 2 ^ 31"
  shows "0 < combine lp pid"
proof -
  have "uint lp \<le> low_mask" using uint_lt2p[of lp] by simp
  moreover have "int pid < 2 ^ 31" using assms(2) by simp
  ultimately show ?thesis using combine_eq[OF assms(1), of pid] assms(2) by simp
qed

text \<open>The order of the combined words: the better score, then the smaller place.\<close>

lemma combine_le:
  assumes "2 ^ 31 \<le> uint a" "2 ^ 31 \<le> uint b" "i < 2 ^ 32" "j < 2 ^ 32"
  shows "combine a i \<le> combine b j \<longleftrightarrow> f32_key a < f32_key b \<or> f32_key a = f32_key b \<and> j \<le> i"
proof -
  have "f32_key a < f32_key b \<longleftrightarrow> uint b < uint a" "f32_key a = f32_key b \<longleftrightarrow> uint b = uint a"
    using assms(1,2) by (auto simp: f32_key_def)
  moreover have "int i < 2 ^ 32" "int j < 2 ^ 32" using assms(3,4) by simp_all
  moreover have "uint a \<le> 2 ^ 32 - 1" "uint b \<le> 2 ^ 32 - 1" using uint_lt2p[of a] uint_lt2p[of b] by simp_all
  ultimately show ?thesis unfolding combine_eq[OF assms(1,3)] combine_eq[OF assms(2,4)] by simp arith
qed
section \<open>What one pass computes\<close>

text \<open>A row whose packed keys fit: few lanes, 32-bit tokens, parents in the row, negative live scores.\<close>

definition dedup_ok :: "dedup_row \<Rightarrow> int list \<Rightarrow> f32 list \<Rightarrow> bool" where
  "dedup_ok r parents lps \<longleftrightarrow> dr_n r \<le> dr_lanes r \<and> dr_lanes r \<le> 2 ^ 14 \<and> length parents = dr_lanes r \<and> dr_n r \<le> length lps
     \<and> (\<forall>i<dr_n r. - 1 \<le> parents ! i \<and> parents ! i < int (dr_n r) \<and> 0 \<le> dr_tokens r ! i \<and> dr_tokens r ! i < 2 ^ 32
          \<and> (lps ! i \<noteq> f32_neg_inf \<longrightarrow> 2 ^ 31 \<le> uint (lps ! i)))
     \<and> (\<forall>d. length (filter (\<lambda>i. dr_depths r ! i = d) [0..<dr_n r]) \<le> dr_compact r)"

definition node_key :: "dedup_row \<Rightarrow> int list \<Rightarrow> nat \<Rightarrow> int" where
  "node_key r parents i = (parents ! i + 1) * 2 ^ 32 + dr_tokens r ! i"

lemma node_key_eq:
  assumes "dedup_ok r parents lps" "i < dr_n r" "j < dr_n r"
  shows "node_key r parents i = node_key r parents j \<longleftrightarrow> parents ! i = parents ! j \<and> dr_tokens r ! i = dr_tokens r ! j"
proof -
  have t: "0 \<le> dr_tokens r ! k \<and> dr_tokens r ! k < 2 ^ 32" if "k < dr_n r" for k
    using assms(1) that by (simp add: dedup_ok_def)
  have "node_key r parents k mod 2 ^ 32 = dr_tokens r ! k" if "k < dr_n r" for k
    unfolding node_key_def mod_mult_self3 using t[OF that] by (intro mod_pos_pos_trivial) simp_all
  then have "node_key r parents i = node_key r parents j \<Longrightarrow> dr_tokens r ! i = dr_tokens r ! j"
    using assms(2,3) by metis
  then show ?thesis by (auto simp: node_key_def)
qed

lemma packed_key_eq:
  assumes "dedup_ok r parents lps" "i < dr_n r"
  shows "packed_key r parents i = node_key r parents i * (int (dr_lanes r) + 1) + int i"
    "0 \<le> node_key r parents i" "packed_key r parents i < 2 ^ 62" "i < dr_lanes r + 1"
proof -
  have N: "dr_n r \<le> dr_lanes r" "int (dr_lanes r) \<le> 2 ^ 14" using assms(1) by (simp_all add: dedup_ok_def)
  have p: "0 \<le> parents ! i + 1" "parents ! i + 1 \<le> int (dr_n r)" using assms by (fastforce simp: dedup_ok_def)+
  have t: "0 \<le> dr_tokens r ! i" "dr_tokens r ! i < 2 ^ 32" using assms by (simp_all add: dedup_ok_def)
  show i: "i < dr_lanes r + 1" using N(1) assms(2) by simp
  have p14: "parents ! i + 1 \<le> 2 ^ 14" using p(2) N by linarith
  have m: "(parents ! i + 1) * 2 ^ 32 \<le> 2 ^ 14 * 2 ^ 32" using p14 by (rule mult_right_mono) simp
  have k: "0 \<le> node_key r parents i" "node_key r parents i < 2 ^ 47"
    using p(1) m t by (simp_all add: node_key_def)
  have "node_key r parents i * (int (dr_lanes r) + 1) \<le> 2 ^ 47 * (2 ^ 14 + 1)"
    using k N(2) by (intro mult_mono) simp_all
  moreover have "0 \<le> node_key r parents i * (int (dr_lanes r) + 1)" using k(1) by (intro mult_nonneg_nonneg) simp_all
  moreover have "int i < 2 ^ 14 + 1" using i N(2) by linarith
  ultimately have b: "0 \<le> node_key r parents i * (int (dr_lanes r) + 1)"
    "node_key r parents i * (int (dr_lanes r) + 1) + int i < 2 ^ 62"
    by simp_all
  have e1: "i64 (parents ! i + 1) = parents ! i + 1" using p(1) p14 by (intro i64_id) simp_all
  have e2: "i64 ((parents ! i + 1) * 2 ^ 32) = (parents ! i + 1) * 2 ^ 32" using p(1) m by (intro i64_id) simp_all
  have e3: "i64 (node_key r parents i) = node_key r parents i" using k by (intro i64_id) simp_all
  have e4: "i64 (node_key r parents i * (int (dr_lanes r) + 1)) = node_key r parents i * (int (dr_lanes r) + 1)"
    using b by (intro i64_id) simp_all
  have e5: "i64 (node_key r parents i * (int (dr_lanes r) + 1) + int i) = node_key r parents i * (int (dr_lanes r) + 1) + int i"
    using b by (intro i64_id) simp_all
  show e: "packed_key r parents i = node_key r parents i * (int (dr_lanes r) + 1) + int i"
  proof -
    have "(parents ! i + 1) * 2 ^ 32 + tl_load (i < dr_n r) (dr_tokens r) i 0 = node_key r parents i"
      using assms(2) by (simp add: node_key_def tl_load_def)
    then show ?thesis unfolding packed_key_def Let_def e1 e2 by (simp only: e3 e4 e5)
  qed
  show "0 \<le> node_key r parents i" "packed_key r parents i < 2 ^ 62" using k b e by simp_all
qed

lemma lane_count_Suc: "lane_count P i = length (filter P [0..<i]) + (if P i then 1 else 0)"
  by (simp add: lane_count_def)

text \<open>A compaction by ranks is a filter.\<close>

lemma store_ranks:
  assumes "length (filter P [0..<N]) \<le> C"
  shows "tl_store N P (\<lambda>i. lane_count P i - 1) val (replicate C z)
    = map val (filter P [0..<N]) @ replicate (C - length (filter P [0..<N])) z"
  using assms
proof (induction N)
  case (Suc N)
  let ?L = "filter P [0..<N]"
  have fit: "length ?L \<le> C" using Suc.prems by (simp split: if_splits)
  note IH = Suc.IH[OF fit, unfolded One_nat_def]
  show ?case
  proof (cases "P N")
    case True
    then have "C - length ?L = Suc (C - Suc (length ?L))" using Suc.prems by simp
    then have "replicate (C - length ?L) z = z # replicate (C - Suc (length ?L)) z" by simp
    moreover have "lane_count P N - 1 = length ?L" using True by (simp add: lane_count_Suc)
    ultimately show ?thesis using True by (simp add: tl_store_Suc IH list_update_append)
  qed (simp add: tl_store_Suc IH)
qed simp

lemma sort_padded:
  fixes xs :: "'a::linorder list"
  assumes "\<forall>x\<in>set xs. x \<le> z"
  shows "sort (xs @ replicate k z) = sort xs @ replicate k z"
proof (rule properties_for_sort)
  show "mset (sort xs @ replicate k z) = mset (xs @ replicate k z)" by simp
  show "sorted (sort xs @ replicate k z)" using assms by (auto simp: sorted_append)
qed
text \<open>The order in which the nodes of a depth come out of the sort.\<close>

definition at_depth :: "dedup_row \<Rightarrow> f32 list \<Rightarrow> nat \<Rightarrow> nat list" where
  "at_depth r lps d = filter (dedup_at r lps d) [0..<dr_lanes r]"

lemma at_depth_set: "dedup_ok r parents lps \<Longrightarrow>
    set (at_depth r lps d) = {i. i < dr_n r \<and> dr_depths r ! i = d \<and> lps ! i \<noteq> f32_neg_inf}"
  by (auto simp: at_depth_def dedup_at_def tl_load_def dedup_ok_def)

lemma at_depth_fits:
  assumes "dedup_ok r parents lps"
  shows "length (at_depth r lps d) \<le> dr_compact r"
proof -
  have "set (at_depth r lps d) \<subseteq> set (filter (\<lambda>i. dr_depths r ! i = d) [0..<dr_n r])"
    unfolding at_depth_set[OF assms] by auto
  moreover have "distinct (at_depth r lps d)" by (simp add: at_depth_def)
  ultimately have "length (at_depth r lps d) \<le> length (filter (\<lambda>i. dr_depths r ! i = d) [0..<dr_n r])"
    by (metis card_mono distinct_card List.finite_set distinct_filter distinct_upt)
  also have "\<dots> \<le> dr_compact r" using assms by (simp add: dedup_ok_def)
  finally show ?thesis .
qed

lemma sorted_places:
  fixes d :: nat
  assumes ok: "dedup_ok r parents lps"
  defines "L \<equiv> at_depth r lps d" and "S \<equiv> sorted_packed r parents lps d"
  defines "pid \<equiv> (\<lambda>j. nat (S ! j smod (int (dr_lanes r) + 1)))" and "key \<equiv> (\<lambda>j. S ! j sdiv (int (dr_lanes r) + 1))"
  shows "\<And>j. j < length L \<Longrightarrow> pid j \<in> set L" "\<And>j. j < length L \<Longrightarrow> key j = node_key r parents (pid j)"
    "inj_on pid {..<length L}" "pid ` {..<length L} = set L"
    "\<And>j k. j \<le> k \<Longrightarrow> k < length L \<Longrightarrow> key j \<le> key k"
proof -
  let ?packed = "packed_key r parents"
  have lt: "i < dr_n r" if "i \<in> set L" for i using that at_depth_set[OF ok] by (simp add: L_def)
  note pk = packed_key_eq[OF ok lt]
  have "S = sort (map ?packed L @ replicate (dr_compact r - length L) (2 ^ 62))"
    unfolding S_def sorted_packed_def L_def at_depth_def
    using store_ranks at_depth_fits[OF ok, unfolded at_depth_def] by metis
  also have "\<dots> = sort (map ?packed L) @ replicate (dr_compact r - length L) (2 ^ 62)"
    by (rule sort_padded) (use pk(3) in \<open>auto simp: less_imp_le\<close>)
  finally have S: "S ! j = sort (map ?packed L) ! j" if "j < length L" for j using that by (simp add: nth_append)
  have split: "nat (?packed i smod (int (dr_lanes r) + 1)) = i" "?packed i sdiv (int (dr_lanes r) + 1) = node_key r parents i"
    if i: "i \<in> set L" for i
  proof -
    let ?m = "int (dr_lanes r) + 1"
    have m: "0 < ?m" "int i < ?m" using pk(4)[OF i] by simp_all
    have e: "?packed i = int i + node_key r parents i * ?m" using pk(1)[OF i] by simp
    have nn: "0 \<le> ?packed i" unfolding e using pk(2)[OF i] m(1) by simp
    have "?packed i smod ?m = ?packed i mod ?m" "?packed i sdiv ?m = ?packed i div ?m"
      using nn m(1) by (simp_all add: signed_modulo_int_def signed_divide_int_def sgn_if)
    moreover have "?packed i mod ?m = int i" "?packed i div ?m = node_key r parents i"
      unfolding e using m by simp_all
    ultimately show "nat (?packed i smod ?m) = i" "?packed i sdiv ?m = node_key r parents i" by simp_all
  qed
  have at: "\<exists>i\<in>set L. S ! j = ?packed i \<and> pid j = i \<and> key j = node_key r parents i" if j: "j < length L" for j
  proof -
    have "sort (map ?packed L) ! j \<in> set (sort (map ?packed L))" by (rule nth_mem) (use j in simp)
    then obtain i where "i \<in> set L" "S ! j = ?packed i" using S[OF j] by auto
    then show ?thesis using split[of i] by (auto simp: pid_def key_def)
  qed
  show mem: "pid j \<in> set L" and key: "key j = node_key r parents (pid j)" if "j < length L" for j
    using at[OF that] by auto
  have inj: "inj_on ?packed (set L)" by (rule inj_on_inverseI[of _ "\<lambda>x. nat (x smod (int (dr_lanes r) + 1))"]) (rule split(1))
  have dist: "distinct (sort (map ?packed L))" using inj by (simp add: distinct_map L_def at_depth_def)
  show injp: "inj_on pid {..<length L}"
  proof (rule inj_onI)
    fix j k assume jk: "j \<in> {..<length L}" "k \<in> {..<length L}" "pid j = pid k"
    then have "S ! j = S ! k" using at[of j] at[of k] by auto
    then show "j = k" using S[of j] S[of k] jk dist by (simp add: nth_eq_iff_index_eq)
  qed
  show "pid ` {..<length L} = set L"
  proof (rule card_subset_eq)
    have "card (pid ` {..<length L}) = length L" using card_image[OF injp] by simp
    moreover have "card (set L) = length L" by (rule distinct_card) (simp add: L_def at_depth_def)
    ultimately show "card (pid ` {..<length L}) = card (set L)" by simp
  qed (use mem in auto)
  show "key j \<le> key k" if jk: "j \<le> k" "k < length L" for j k
  proof -
    let ?m = "int (dr_lanes r) + 1"
    have le: "S ! j \<le> S ! k" using jk S[of j] S[of k] sorted_nth_mono[OF sorted_sort, of j k "map ?packed L"] by simp
    have j: "j < length L" using jk by simp
    obtain a where a: "a \<in> set L" "S ! j = ?packed a" "key j = node_key r parents a" using at[OF j] by blast
    obtain b where b: "b \<in> set L" "S ! k = ?packed b" "key k = node_key r parents b" using at[OF jk(2)] by blast
    have "node_key r parents c = ?packed c div ?m" if "c \<in> set L" for c
      unfolding pk(1)[OF that] using pk(4)[OF that] by simp
    then show ?thesis using a b le zdiv_mono1[of "?packed a" "?packed b" ?m] by simp
  qed
qed
text \<open>Sorted keys fall into groups, and every group is one place of the table of winners.\<close>

lemma lane_count_step: "lane_count P (Suc i) = lane_count P i + (if P (Suc i) then 1 else 0)"
  by (simp add: lane_count_def)

lemma group_iff:
  fixes key :: "nat \<Rightarrow> int"
  assumes mono: "\<And>j k. j \<le> k \<Longrightarrow> k < n \<Longrightarrow> key j \<le> key k" and pos: "\<And>j. j < n \<Longrightarrow> 0 \<le> key j"
  defines "F \<equiv> (\<lambda>j. key j \<noteq> (if 0 < j \<and> j < n then key (j - 1) else - 1) \<and> j < n)"
  shows "\<And>j k. j < n \<Longrightarrow> k < n \<Longrightarrow> lane_count F j - 1 = lane_count F k - 1 \<longleftrightarrow> key j = key k"
    "\<And>j. j < n \<Longrightarrow> lane_count F j - 1 \<le> j"
proof -
  have one: "1 \<le> lane_count F j" if "j < n" for j
    using that
  proof (induction j)
    case 0
    then show ?case using pos[of 0] by (simp add: lane_count_def F_def)
  qed (simp add: lane_count_step)
  have ord: "lane_count F j \<le> lane_count F k \<and> (lane_count F j = lane_count F k \<longleftrightarrow> key j = key k)"
    if "j \<le> k" "k < n" for j k
    using that
  proof (induction k)
    case (Suc k)
    show ?case
    proof (cases "j = Suc k")
      case False
      then have jk: "j \<le> k" "k < n" using Suc.prems by simp_all
      have F: "F (Suc k) \<longleftrightarrow> key (Suc k) \<noteq> key k" using Suc.prems by (simp add: F_def)
      have "key j \<le> key k" "key k \<le> key (Suc k)" using mono jk Suc.prems by simp_all
      then show ?thesis using Suc.IH[OF jk] F by (auto simp: lane_count_step)
    qed simp
  qed simp
  show "lane_count F j - 1 = lane_count F k - 1 \<longleftrightarrow> key j = key k" if "j < n" "k < n" for j k
    using ord[of j k] ord[of k j] one[OF that(1)] one[OF that(2)] that by (cases "j \<le> k") auto
  show "lane_count F j - 1 \<le> j" for j
  proof -
    have "lane_count F j \<le> Suc j" unfolding lane_count_def by (metis length_filter_le length_upt diff_zero)
    then show ?thesis by simp
  qed
qed

text \<open>Atomic maxima over a table of zeros.\<close>

lemma atomic_max_nth:
  fixes c :: "nat \<Rightarrow> int"
  assumes "\<And>j. j < m \<Longrightarrow> valid j \<Longrightarrow> grp j < C" "x < C"
  shows "fold (\<lambda>j w. if valid j then w[grp j := max (w ! grp j) (c j)] else w) [0..<m] (replicate C 0) ! x
    = Max (insert 0 (c ` {j. j < m \<and> valid j \<and> grp j = x}))"
  using assms
proof (induction m arbitrary: x)
  case (Suc m)
  let ?f = "\<lambda>j w. if valid j then w[grp j := max (w ! grp j) (c j)] else w"
  let ?w = "fold ?f [0..<m] (replicate C 0)"
  have len: "length (fold ?f js w) = length w" for js w by (induction js arbitrary: w) simp_all
  have IH: "?w ! y = Max (insert 0 (c ` {j. j < m \<and> valid j \<and> grp j = y}))" if "y < C" for y
    using Suc.IH[OF _ that] Suc.prems(1) by simp
  show ?case
  proof (cases "valid m \<and> grp m = x")
    case True
    have set: "{j. j < Suc m \<and> valid j \<and> grp j = x} = insert m {j. j < m \<and> valid j \<and> grp j = x}"
      using True by (auto simp: less_Suc_eq)
    have "fold ?f [0..<Suc m] (replicate C 0) ! x = max (?w ! x) (c m)"
      using True Suc.prems(2) by (simp add: len)
    also have "\<dots> = Max (insert (c m) (insert 0 (c ` {j. j < m \<and> valid j \<and> grp j = x})))"
      unfolding IH[OF Suc.prems(2)] by (subst (2) Max_insert) (simp_all add: max.commute)
    finally show ?thesis unfolding set by (simp add: insert_commute)
  next
    case False
    then have set: "{j. j < Suc m \<and> valid j \<and> grp j = x} = {j. j < m \<and> valid j \<and> grp j = x}"
      by (auto simp: less_Suc_eq)
    have "fold ?f [0..<Suc m] (replicate C 0) ! x = ?w ! x" using False by auto
    then show ?thesis unfolding set using IH[OF Suc.prems(2)] by simp
  qed
qed simp

text \<open>The winner of the group of a node: the best score, and the first place among equal scores.\<close>

definition wins :: "dedup_row \<Rightarrow> int list \<Rightarrow> f32 list \<Rightarrow> nat \<Rightarrow> nat \<Rightarrow> nat \<Rightarrow> bool" where
  "wins r parents lps d i w \<longleftrightarrow> w \<in> set (at_depth r lps d) \<and> node_key r parents w = node_key r parents i
     \<and> (\<forall>j\<in>set (at_depth r lps d). node_key r parents j = node_key r parents i \<longrightarrow>
          f32_key (lps ! j) < f32_key (lps ! w) \<or> f32_key (lps ! j) = f32_key (lps ! w) \<and> w \<le> j)"

lemma wins_unique: "wins r parents lps d i w \<Longrightarrow> wins r parents lps d i v \<Longrightarrow> w = v"
  by (fastforce simp: wins_def)

text \<open>
  The group of a lane, the maxima of the groups, and the two writes, for any numbering \<open>pid\<close> of \<open>n\<close> places.
\<close>

lemma filter_below: "n \<le> m \<Longrightarrow> filter (\<lambda>j. j < n) [0..<m] = [0..<n]"
  by (induction m) (auto simp: le_Suc_eq filter_empty_conv)

lemma group_winner:
  fixes key comb :: "nat \<Rightarrow> int"
  assumes mono: "\<And>j k. j \<le> k \<Longrightarrow> k < n \<Longrightarrow> key j \<le> key k" and pos: "\<And>j. j < n \<Longrightarrow> 0 \<le> key j"
    and comb: "\<And>j. j < n \<Longrightarrow> 0 < comb j" and fits: "n \<le> c" and j: "j < n"
  defines "F \<equiv> (\<lambda>j. key j \<noteq> (if 0 < j \<and> j < n then key (j - 1) else - 1) \<and> j < n)"
  defines "grp \<equiv> (\<lambda>j. lane_count F j - 1)"
  defines "winners \<equiv> fold (\<lambda>j w. if j < n then w[grp j := max (w ! grp j) (comb j)] else w) [0..<c] (replicate c 0)"
  shows "\<exists>k<n. key k = key j \<and> winners ! grp j = comb k \<and> (\<forall>m<n. key m = key j \<longrightarrow> comb m \<le> comb k)"
proof -
  have same: "grp k = grp j \<longleftrightarrow> key k = key j" if "k < n" for k
    unfolding grp_def F_def by (rule group_iff(1)[of n key]) (use mono pos that j in simp_all)
  have small: "grp k < c" if "k < n" for k
  proof -
    have "grp k \<le> k" unfolding grp_def F_def by (rule group_iff(2)[of n key]) (use mono pos that in simp_all)
    then show ?thesis using that fits by simp
  qed
  let ?A = "comb ` {k. k < c \<and> k < n \<and> grp k = grp j}"
  have A: "?A = comb ` {k. k < n \<and> key k = key j}" using same fits by (intro image_cong) auto
  have w: "winners ! grp j = Max (insert 0 ?A)"
    using j atomic_max_nth[of c "\<lambda>j. j < n" grp c "grp j" comb] small by (simp add: winners_def)
  have "finite (insert 0 ?A)" by simp
  then have "winners ! grp j \<in> insert 0 ?A" unfolding w by (rule Max_in) simp
  moreover have "comb j \<le> winners ! grp j" unfolding w A using j by (intro Max_ge) auto
  ultimately obtain k where k: "k < n" "key k = key j" "winners ! grp j = comb k" using comb[OF j] unfolding A by auto
  moreover have "comb m \<le> comb k" if "m < n" "key m = key j" for m
    unfolding k(3)[symmetric] w A using that by (intro Max_ge) auto
  ultimately show ?thesis by blast
qed

lemma store_losers:
  assumes pid: "inj_on pid {..<n}" "pid ` {..<n} = A" and n: "n \<le> c" and A: "\<And>i. i \<in> A \<Longrightarrow> i < length buf"
    and loses: "\<And>j. loses j \<longleftrightarrow> j < n \<and> P (pid j)"
  shows "tl_store c loses pid (\<lambda>_. v) buf = map (\<lambda>i. if i \<in> A \<and> P i then v else buf ! i) [0..<length buf]"
proof (rule nth_equalityI)
  fix i assume "i < length (tl_store c loses pid (\<lambda>_. v) buf)"
  then have i: "i < length buf" by simp
  have inj: "inj_on pid {l. l < c \<and> loses l}" using pid(1) by (rule inj_on_subset) (auto simp: loses)
  show "tl_store c loses pid (\<lambda>_. v) buf ! i = map (\<lambda>i. if i \<in> A \<and> P i then v else buf ! i) [0..<length buf] ! i"
  proof (cases "i \<in> A \<and> P i")
    case True
    then obtain j where j: "j < n" "pid j = i" using pid(2) by blast
    then have "loses j" "j < c" using True loses n by auto
    then show ?thesis using tl_store_hit[OF inj, of j buf] j i True by simp
  next
    case False
    then have "tl_store c loses pid (\<lambda>_. v) buf ! i = buf ! i"
      using pid(2) loses by (intro tl_store_miss) blast
    then show ?thesis using False i by auto
  qed
qed simp

lemma fold_states:
  assumes pid: "inj_on pid {..<n}" "pid ` {..<n} = A" and fit: "\<And>a. a \<in> A \<Longrightarrow> base + a < length buf"
    and val: "\<And>j. j < n \<Longrightarrow> state j = v (pid j)"
  shows "fold (\<lambda>(i, v) b. b[base + i := v]) (map (\<lambda>j. (pid j, state j)) [0..<n]) buf ! i
    = (if base \<le> i \<and> i - base \<in> A then v (i - base) else buf ! i)"
proof -
  have run: "fold (\<lambda>(i, v) b. b[base + i := v]) (map (\<lambda>j. (pid j, state j)) [0..<n]) buf
      = tl_store n (\<lambda>_. True) (\<lambda>j. base + pid j) state buf"
    by (simp add: tl_store_def fold_map comp_def)
  have inj: "inj_on (\<lambda>j. base + pid j) {l. l < n \<and> True}" using pid(1) by (auto simp: inj_on_def)
  show ?thesis
  proof (cases "base \<le> i \<and> i - base \<in> A")
    case True
    then obtain j where j: "j < n" "pid j = i - base" using pid(2) by (metis imageE lessThan_iff)
    then have "base + pid j = i" "i < length buf" using True fit[of "i - base"] by auto
    then show ?thesis unfolding run using tl_store_hit[OF inj j(1), of buf state] val[OF j(1)] j True by simp
  next
    case False
    have "base + pid j \<noteq> i" if "j < n" for j using pid(2) that False by auto
    then show ?thesis unfolding run using False by (auto simp: tl_store_miss)
  qed
qed

text \<open>The words of one node: its combined score and the state it writes when \<open>w\<close> wins its group.\<close>

lemma combine_facts:
  assumes ok: "dedup_ok r parents lps" and i: "i \<in> set (at_depth r lps d)"
  shows "0 < combine (lps ! i) i" "xor (and (combine (lps ! i) i) low_mask) low_mask = int i" "int i < 2 ^ 32" "i < length lps"
    "2 ^ 31 \<le> uint (lps ! i)" "i < dr_n r" "i < dr_lanes r"
proof -
  show facts: "i < dr_n r" "i < dr_lanes r" "2 ^ 31 \<le> uint (lps ! i)" "i < length lps"
    using i ok at_depth_set[OF ok, of d] by (auto simp: dedup_ok_def)
  have "i < 2 ^ 14" using facts(2) ok by (simp add: dedup_ok_def)
  then have p: "i < 2 ^ 31" "i < 2 ^ 32" by simp_all
  show "0 < combine (lps ! i) i" "xor (and (combine (lps ! i) i) low_mask) low_mask = int i" "int i < 2 ^ 32"
    using combine_pos[OF facts(3) p(1)] combine_pid[OF facts(3) p(2)] p by simp_all
qed

lemma state_word:
  assumes "xor (and c low_mask) low_mask = int w" "int w < 2 ^ 32"
  shows "or (push_bit 32 (of_bool b)) (and (xor (and c low_mask) low_mask) low_mask) = (if b then 2 ^ 32 else 0) + int w"
  using assms by (simp add: and_low or_high take_bit_int_eq_self)

text \<open>The largest combined word of a group names its winner.\<close>

lemma best_wins:
  assumes ok: "dedup_ok r parents lps" and w: "w \<in> set (at_depth r lps d)" "node_key r parents w = node_key r parents i"
    and best: "\<And>l. l \<in> set (at_depth r lps d) \<Longrightarrow> node_key r parents l = node_key r parents i \<Longrightarrow>
                 combine (lps ! l) l \<le> combine (lps ! w) w"
  shows "wins r parents lps d i w"
  unfolding wins_def
proof (intro conjI ballI impI w)
  fix l assume l: "l \<in> set (at_depth r lps d)" "node_key r parents l = node_key r parents i"
  note lf = combine_facts[OF ok l(1)] and wf = combine_facts[OF ok w(1)]
  have "l < 2 ^ 32" "w < 2 ^ 32" using lf(3) wf(3) by simp_all
  from combine_le[OF lf(5) wf(5) this] best[OF l]
  show "f32_key (lps ! l) < f32_key (lps ! w) \<or> f32_key (lps ! l) = f32_key (lps ! w) \<and> w \<le> l" by simp
qed

lemma mark_spec:
  assumes ok: "dedup_ok r parents lps"
  obtains win where
    "\<forall>i\<in>set (at_depth r lps d). wins r parents lps d i (win i)"
    "mk_lps (dedup_mark r parents lps d)
       = map (\<lambda>i. if i \<in> set (at_depth r lps d) \<and> win i \<noteq> i then f32_neg_inf else lps ! i) [0..<length lps]"
    "\<forall>base buf i. base + dr_lanes r \<le> length buf \<longrightarrow>
       fold (\<lambda>(i, v) b. b[base + i := v]) (mk_states (dedup_mark r parents lps d)) buf ! i
         = (if base \<le> i \<and> i - base \<in> set (at_depth r lps d)
            then (if win (i - base) \<noteq> i - base then 2 ^ 32 else 0) + int (win (i - base)) else buf ! i)"
proof -
  define L where "L = at_depth r lps d"
  define S where "S = sorted_packed r parents lps d"
  define pid where "pid j = nat (S ! j smod (int (dr_lanes r) + 1))" for j
  define key where "key j = S ! j sdiv (int (dr_lanes r) + 1)" for j
  define n where "n = length L"
  note places = sorted_places[OF ok, where d = d, folded L_def S_def, folded pid_def key_def, folded n_def]
  define F where "F j \<longleftrightarrow> key j \<noteq> (if 0 < j \<and> j < n then key (j - 1) else - 1) \<and> j < n" for j
  define comb where "comb j = combine (tl_load (j < n) lps (pid j) f32_neg_inf) (pid j)" for j
  define grp where "grp j = lane_count F j - 1" for j
  define winners where "winners = fold (\<lambda>j w. if j < n then w[grp j := max (w ! grp j) (comb j)] else w)
     [0..<dr_compact r] (replicate (dr_compact r) 0)"
  define winner where "winner j = tl_load (j < n) winners (grp j) 0" for j
  define loses where "loses j \<longleftrightarrow> j < n \<and> comb j \<noteq> winner j" for j
  define state where "state j = or (push_bit 32 (of_bool (loses j))) (and (xor (and (winner j) low_mask) low_mask) low_mask)" for j
  have fits: "n \<le> dr_compact r" using at_depth_fits[OF ok, of d] by (simp add: n_def L_def)
  have mark: "dedup_mark r parents lps d = \<lparr>mk_states = map (\<lambda>j. (pid j, state j)) [0..<n],
      mk_lps = tl_store (dr_compact r) loses pid (\<lambda>_. f32_neg_inf) lps\<rparr>"
    unfolding dedup_mark_def Let_def S_def[symmetric] pid_def[symmetric] key_def[symmetric]
      L_def[unfolded at_depth_def, symmetric] n_def[symmetric] F_def[symmetric] grp_def[symmetric] comb_def[symmetric]
      winners_def[symmetric] winner_def[symmetric] loses_def[symmetric] state_def[symmetric] filter_below[OF fits] ..
  note node = combine_facts[OF ok places(1)[unfolded L_def]]
  have comb: "comb j = combine (lps ! pid j) (pid j)" if "j < n" for j using that by (simp add: comb_def tl_load_def)
  have pos: "0 \<le> key j" "0 < comb j" if "j < n" for j
    using places(2)[OF that] packed_key_eq(2)[OF ok node(6)[OF that]] node(1)[OF that] comb[OF that] by simp_all
  have "\<exists>k<n. key k = key j \<and> winner j = comb k \<and> (\<forall>m<n. key m = key j \<longrightarrow> comb m \<le> comb k)" if j: "j < n" for j
  proof -
    have "winner j = winners ! grp j" using j by (simp add: winner_def tl_load_def)
    then show ?thesis unfolding winners_def grp_def F_def
      using group_winner[of n key comb "dr_compact r" j] places(5) pos fits j by simp
  qed
  then obtain best where best: "best j < n" "key (best j) = key j" "winner j = comb (best j)"
    "m < n \<Longrightarrow> key m = key j \<Longrightarrow> comb m \<le> comb (best j)" if "j < n" for j m by metis
  define win where "win i = pid (best (inv_into {..<n} pid i))" for i
  have win: "win (pid j) = pid (best j)" if "j < n" for j
    using inv_into_f_f[OF places(3), of j] that by (simp add: win_def)
  have winner: "xor (and (winner j) low_mask) low_mask = int (win (pid j))" "int (win (pid j)) < 2 ^ 32" if "j < n" for j
    using best(1,3)[OF that] node(2,3)[of "best j"] comb[of "best j"] win[OF that] by simp_all
  have loses: "loses j \<longleftrightarrow> j < n \<and> win (pid j) \<noteq> pid j" for j
    using winner(1)[of j] node(2)[of j] comb[of j] comb[of "best j"] best(1,3)[of j] win[of j] by (auto simp: loses_def)
  have state: "state j = (if win (pid j) \<noteq> pid j then 2 ^ 32 else 0) + int (win (pid j))" if "j < n" for j
    unfolding state_def state_word[OF winner[OF that]] using loses that by simp
  have "wins r parents lps d i (win i)" if i: "i \<in> set L" for i
  proof -
    have idx: "\<exists>j<n. pid j = l" if "l \<in> set L" for l
      using that unfolding places(4)[symmetric] by (auto elim: imageE)
    obtain j where j: "j < n" "pid j = i" using idx[OF i] by blast
    note b = best[OF j(1)] and wj = win[OF j(1), unfolded j(2)]
    have nk: "node_key r parents (pid m) = key m" if "m < n" for m using places(2)[OF that] by simp
    show ?thesis
    proof (rule best_wins[OF ok])
      show "win i \<in> set (at_depth r lps d)" using places(1)[OF b(1)] by (simp add: wj L_def)
      show "node_key r parents (win i) = node_key r parents i" using nk[OF b(1)] nk[OF j(1)] b(2) by (simp add: wj j(2))
      fix l assume l: "l \<in> set (at_depth r lps d)" "node_key r parents l = node_key r parents i"
      then obtain m where m: "m < n" "pid m = l" using idx[of l] unfolding L_def by blast
      show "combine (lps ! l) l \<le> combine (lps ! win i) (win i)"
        using b(4)[OF m(1)] nk[OF m(1)] nk[OF j(1)] l(2) comb[OF m(1)] comb[OF b(1)] by (simp add: wj j(2) m(2))
    qed
  qed
  moreover have "mk_lps (dedup_mark r parents lps d)
      = map (\<lambda>i. if i \<in> set L \<and> win i \<noteq> i then f32_neg_inf else lps ! i) [0..<length lps]"
    unfolding mark by (simp, rule store_losers[OF places(3,4) fits _ loses])
      (rule combine_facts(4)[OF ok, of _ d], simp add: L_def)
  moreover have "fold (\<lambda>(i, v) b. b[base + i := v]) (mk_states (dedup_mark r parents lps d)) buf ! i
      = (if base \<le> i \<and> i - base \<in> set L then (if win (i - base) \<noteq> i - base then 2 ^ 32 else 0) + int (win (i - base)) else buf ! i)"
    if "base + dr_lanes r \<le> length buf" for base buf i
  proof -
    have "base + a < length buf" if "a \<in> set L" for a using combine_facts(7)[OF ok, of a d] that \<open>base + dr_lanes r \<le> length buf\<close> by (simp add: L_def)
    from fold_states[where v = "\<lambda>i. (if win i \<noteq> i then 2 ^ 32 else 0) + int (win i)", OF places(3,4) this state]
    show ?thesis by (simp add: mark)
  qed
  ultimately show ?thesis using that[of win] unfolding L_def by blast
qed

text \<open>The pass of one depth, on the parents and the scores of a row.\<close>

definition moved :: "dedup_row \<Rightarrow> f32 list \<Rightarrow> nat \<Rightarrow> (nat \<Rightarrow> nat) \<Rightarrow> int list \<Rightarrow> int list" where
  "moved r lps d win parents =
     map (\<lambda>i. if i < dr_n r \<and> 0 \<le> parents ! i \<and> nat (parents ! i) \<in> set (at_depth r lps d)
            then int (win (nat (parents ! i))) else parents ! i) [0..<length parents]"

definition masked :: "dedup_row \<Rightarrow> f32 list \<Rightarrow> nat \<Rightarrow> (nat \<Rightarrow> nat) \<Rightarrow> f32 list" where
  "masked r lps d win = map (\<lambda>i. if i \<in> set (at_depth r lps d) \<and> win i \<noteq> i then f32_neg_inf else lps ! i) [0..<length lps]"

lemma redirect_moved:
  assumes ok: "dedup_ok r parents lps"
    and win: "\<forall>i\<in>set (at_depth r lps d). wins r parents lps d i (win i)"
    and table: "\<And>i. i < dr_lanes r \<Longrightarrow> state i = (if i \<in> set (at_depth r lps d)
        then (if win i \<noteq> i then 2 ^ 32 else 0) + int (win i) else 0)"
  shows "redirect (dr_n r) state parents = moved r lps d win parents"
proof (rule nth_equalityI)
  fix i assume "i < length (redirect (dr_n r) state parents)"
  then have i: "i < length parents" by (simp add: redirect_def)
  show "redirect (dr_n r) state parents ! i = moved r lps d win parents ! i"
  proof (cases "i < dr_n r \<and> 0 \<le> parents ! i")
    case True
    let ?q = "nat (parents ! i)"
    have q: "?q < dr_lanes r" "nat (max (parents ! i) 0) = ?q" using ok True by (auto simp: dedup_ok_def)
    show ?thesis
    proof (cases "?q \<in> set (at_depth r lps d)")
      case in_L: True
      then have "win ?q < dr_n r" using win in_L at_depth_set[OF ok] by (auto simp: wins_def)
      then have w: "0 \<le> int (win ?q)" "int (win ?q) < 2 ^ 32" using ok by (auto simp: dedup_ok_def)
      have st: "state ?q = (if win ?q \<noteq> ?q then 2 ^ 32 else 0) + int (win ?q)" using table[OF q(1)] in_L by simp
      have low: "and (state ?q) low_mask = int (win ?q)" unfolding st and_low take_bit_eq_mod using w by simp
      have "(2 ^ 32 + int (win ?q)) div 2 ^ 32 = 1" "int (win ?q) div 2 ^ 32 = 0"
        using w div_add_self1[of "2 ^ 32" "int (win ?q)"] by simp_all
      then have "drop_bit 32 (state ?q) = (if win ?q \<noteq> ?q then 1 else 0)" unfolding st drop_bit_eq_div by simp
      then show ?thesis using True in_L i q low by (simp add: redirect_def moved_def)
    next
      case False
      then show ?thesis using True i q table[OF q(1)] by (simp add: redirect_def moved_def)
    qed
  qed (use i in \<open>auto simp: redirect_def moved_def\<close>)
qed (simp add: redirect_def moved_def)

lemma table_reset:
  assumes "base + N \<le> length ns"
  shows "tl_store N (\<lambda>_. True) (\<lambda>i. base + i) (\<lambda>_. 0) ns ! k = (if base \<le> k \<and> k < base + N then 0 else ns ! k)"
proof (cases "base \<le> k \<and> k < base + N")
  case True
  then have "k - base < N" by linarith
  then show ?thesis
    using True tl_store_hit[of "\<lambda>i. base + i" N "\<lambda>_. True" "k - base" ns "\<lambda>_. 0"] assms by (simp add: inj_on_def)
next
  case False
  then show ?thesis by (subst tl_store_miss) auto
qed

text \<open>The state of a program between passes, after \<open>d\<close> of them.\<close>

definition pass_result :: "dedup_row \<Rightarrow> nat \<Rightarrow> int list \<times> f32 list \<Rightarrow> int list \<times> f32 list" where
  "pass_result r d s =
     (let m = dedup_mark r (fst s) (snd s) d;
          table = fold (\<lambda>(i, v) b. b[i := v]) (mk_states m) (replicate (dr_lanes r) 0)
      in (redirect (dr_n r) (\<lambda>i. table ! i) (fst s), mk_lps m))"

lemma pass_result_eq:
  assumes "dedup_ok r parents lps"
  obtains win where "\<forall>i\<in>set (at_depth r lps d). wins r parents lps d i (win i)"
    "pass_result r d (parents, lps) = (moved r lps d win parents, masked r lps d win)"
proof -
  obtain win where win: "\<forall>i\<in>set (at_depth r lps d). wins r parents lps d i (win i)"
    and lps': "mk_lps (dedup_mark r parents lps d)
       = map (\<lambda>i. if i \<in> set (at_depth r lps d) \<and> win i \<noteq> i then f32_neg_inf else lps ! i) [0..<length lps]"
    and table: "\<forall>base buf i. base + dr_lanes r \<le> length buf \<longrightarrow>
       fold (\<lambda>(i, v) b. b[base + i := v]) (mk_states (dedup_mark r parents lps d)) buf ! i
         = (if base \<le> i \<and> i - base \<in> set (at_depth r lps d)
            then (if win (i - base) \<noteq> i - base then 2 ^ 32 else 0) + int (win (i - base)) else buf ! i)"
    by (rule mark_spec[OF assms])
  let ?table = "fold (\<lambda>(i, v) b. b[i := v]) (mk_states (dedup_mark r parents lps d)) (replicate (dr_lanes r) 0)"
  have "?table ! i = (if i \<in> set (at_depth r lps d) then (if win i \<noteq> i then 2 ^ 32 else 0) + int (win i) else 0)"
    if "i < dr_lanes r" for i
    using table[rule_format, of 0 "replicate (dr_lanes r) 0" i] that by simp
  from redirect_moved[OF assms win this]
  have "redirect (dr_n r) (\<lambda>i. ?table ! i) parents = moved r lps d win parents" .
  then have "pass_result r d (parents, lps) = (moved r lps d win parents, masked r lps d win)"
    by (simp add: pass_result_def masked_def lps')
  with win show ?thesis by (rule that)
qed
section \<open>What the passes preserve\<close>

definition token_path :: "dedup_row \<Rightarrow> nat \<Rightarrow> int list \<Rightarrow> nat \<Rightarrow> int list" where
  "token_path r m ps i = map (\<lambda>x. dr_tokens r ! x) (raw_path m ps i)"

abbreviation alive :: "f32 list \<Rightarrow> nat \<Rightarrow> bool" where
  "alive lps i \<equiv> lps ! i \<noteq> f32_neg_inf"

text \<open>
  The state after the passes of the depths up to \<open>d\<close>: the tree is still a raw tree, no token path has changed,
  scores have only been set to \<open>- inf\<close>, every path still has a node with a score at least as good, and no two
  nodes of a depth up to \<open>d\<close> have the same path.
\<close>

definition dedup_inv :: "dedup_row \<Rightarrow> int list \<Rightarrow> f32 list \<Rightarrow> nat \<Rightarrow> int list \<times> f32 list \<Rightarrow> bool" where
  "dedup_inv r ps0 lps0 d s \<longleftrightarrow> (case s of (ps, lps) \<Rightarrow>
     dedup_ok r ps lps \<and> length lps = length lps0 \<and> raw_ok_row (dr_n r) ps lps
     \<and> (\<forall>i<dr_n r. \<forall>m. token_path r m ps i = token_path r m ps0 i)
     \<and> (\<forall>i<dr_n r. lps ! i = lps0 ! i \<or> \<not> alive lps i)
     \<and> (\<forall>i<dr_n r. alive lps0 i \<longrightarrow> (\<exists>w<dr_n r. alive lps w \<and> f32_key (lps0 ! i) \<le> f32_key (lps ! w)
          \<and> token_path r fixed_max_depth ps0 w = token_path r fixed_max_depth ps0 i))
     \<and> (\<forall>i<dr_n r. alive lps i \<longrightarrow> length (raw_path fixed_max_depth ps i) = Suc (dr_depths r ! i))
     \<and> (\<forall>i<dr_n r. \<forall>j<dr_n r. alive lps i \<and> alive lps j \<and> dr_depths r ! i \<le> d
          \<and> token_path r fixed_max_depth ps0 i = token_path r fixed_max_depth ps0 j \<longrightarrow> i = j))"

lemma dedup_invD:
  assumes "dedup_inv r ps0 lps0 d (ps, lps)"
  shows "dedup_ok r ps lps" "length lps = length lps0" "raw_ok_row (dr_n r) ps lps"
    "\<And>i m. i < dr_n r \<Longrightarrow> token_path r m ps i = token_path r m ps0 i"
    "\<And>i. i < dr_n r \<Longrightarrow> alive lps i \<Longrightarrow> lps ! i = lps0 ! i"
    "\<And>i. i < dr_n r \<Longrightarrow> alive lps0 i \<Longrightarrow> \<exists>w<dr_n r. alive lps w \<and> f32_key (lps0 ! i) \<le> f32_key (lps ! w)
       \<and> token_path r fixed_max_depth ps0 w = token_path r fixed_max_depth ps0 i"
    "\<And>i. i < dr_n r \<Longrightarrow> alive lps i \<Longrightarrow> length (raw_path fixed_max_depth ps i) = Suc (dr_depths r ! i)"
    "\<And>i j. i < dr_n r \<Longrightarrow> j < dr_n r \<Longrightarrow> alive lps i \<Longrightarrow> alive lps j \<Longrightarrow> dr_depths r ! i \<le> d \<Longrightarrow>
       token_path r fixed_max_depth ps0 i = token_path r fixed_max_depth ps0 j \<Longrightarrow> i = j"
  using assms unfolding dedup_inv_def by (simp_all, blast+)

lemma dedup_invI:
  assumes "dedup_ok r ps lps" "length lps = length lps0" "raw_ok_row (dr_n r) ps lps"
    and "\<And>i m. i < dr_n r \<Longrightarrow> token_path r m ps i = token_path r m ps0 i"
    and "\<And>i. i < dr_n r \<Longrightarrow> alive lps i \<Longrightarrow> lps ! i = lps0 ! i"
    and "\<And>i. i < dr_n r \<Longrightarrow> alive lps0 i \<Longrightarrow> \<exists>w<dr_n r. alive lps w \<and> f32_key (lps0 ! i) \<le> f32_key (lps ! w)
       \<and> token_path r fixed_max_depth ps0 w = token_path r fixed_max_depth ps0 i"
    and "\<And>i. i < dr_n r \<Longrightarrow> alive lps i \<Longrightarrow> length (raw_path fixed_max_depth ps i) = Suc (dr_depths r ! i)"
    and "\<And>i j. i < dr_n r \<Longrightarrow> j < dr_n r \<Longrightarrow> alive lps i \<Longrightarrow> alive lps j \<Longrightarrow> dr_depths r ! i \<le> d \<Longrightarrow>
       token_path r fixed_max_depth ps0 i = token_path r fixed_max_depth ps0 j \<Longrightarrow> i = j"
  shows "dedup_inv r ps0 lps0 d (ps, lps)"
  unfolding dedup_inv_def prod.case using assms(1-3) assms(4-8) by (intro conjI allI impI) blast+

lemma rooted_path_stable: "rooted m ps i \<Longrightarrow> raw_path (Suc m) ps i = raw_path m ps i"
proof (induction m arbitrary: i)
  case (Suc m)
  then show ?case by (cases "ps ! i < 0") (simp_all del: raw_path.simps(2) add: raw_path.simps(2)[of "Suc m"] raw_path.simps(2)[of m])
qed simp

lemma fixed_max_depth_Suc: "fixed_max_depth = Suc 19"
  by (simp add: fixed_max_depth_def)

text \<open>A parent in the row has a better score, hence is alive.\<close>

lemma parent_alive:
  assumes "raw_ok_row n ps lps" "i < n" "alive lps i" "0 \<le> ps ! i"
  shows "nat (ps ! i) < n" "alive lps (nat (ps ! i))" "f32_key (lps ! i) < f32_key (lps ! nat (ps ! i))"
    "rooted 19 ps (nat (ps ! i))"
proof -
  have fin: "f32_isfinite (lps ! i)" and r: "rooted fixed_max_depth ps i"
    and p: "ps ! i < int n" "f32_key (lps ! i) < f32_key (lps ! nat (ps ! i))"
    using assms by (auto simp: raw_ok_row_def)
  show "nat (ps ! i) < n" "f32_key (lps ! i) < f32_key (lps ! nat (ps ! i))" using p assms(4) by (simp_all add: nat_less_iff)
  show "alive lps (nat (ps ! i))" using p(2) finite_above_neg_inf[OF fin] by auto
  show "rooted 19 ps (nat (ps ! i))" using r assms(4) unfolding fixed_max_depth_Suc rooted.simps(2) by auto
qed

lemma same_key_path:
  assumes "ps ! w = ps ! p" "dr_tokens r ! w = dr_tokens r ! p"
  shows "token_path r m ps w = token_path r m ps p"
  using assms by (cases m) (simp_all add: token_path_def)


lemma moved_paths:
  assumes ok: "dedup_ok r ps lps" and win: "\<forall>i\<in>set (at_depth r lps d). wins r ps lps d i (win i)"
    and i: "i < dr_n r"
  shows "token_path r m (moved r lps d win ps) i = token_path r m ps i"
    "rooted m (moved r lps d win ps) i \<longleftrightarrow> rooted m ps i"
proof -
  let ?ps' = "moved r lps d win ps"
  have both: "token_path r m ?ps' i = token_path r m ps i \<and> (rooted m ?ps' i \<longleftrightarrow> rooted m ps i)"
    using i
  proof (induction m arbitrary: i)
    case (Suc m)
    have len: "length ?ps' = length ps" "i < length ps" using ok Suc.prems by (auto simp: moved_def dedup_ok_def)
    show ?case
    proof (cases "0 \<le> ps ! i \<and> nat (ps ! i) \<in> set (at_depth r lps d)")
      case True
      let ?p = "nat (ps ! i)" and ?w = "win (nat (ps ! i))"
      have ps': "?ps' ! i = int ?w" using True Suc.prems len by (simp add: moved_def)
      have w: "wins r ps lps d ?p ?w" using win True by simp
      then have wn: "?w < dr_n r" "?p < dr_n r" using at_depth_set[OF ok] True by (auto simp: wins_def)
      then have key: "ps ! ?w = ps ! ?p" "dr_tokens r ! ?w = dr_tokens r ! ?p"
        using w node_key_eq[OF ok wn] by (simp_all add: wins_def)
      have "rooted m ps ?w \<longleftrightarrow> rooted m ps ?p" using key(1) wn ok by (cases m) (auto simp: dedup_ok_def)
      then show ?thesis
        using Suc.IH[OF wn(1)] same_key_path[OF key, of m] ps' True len by (simp add: token_path_def)
    next
      case False
      then have ps': "?ps' ! i = ps ! i" using Suc.prems len by (auto simp: moved_def)
      show ?thesis
      proof (cases "0 \<le> ps ! i")
        case True
        then have "nat (ps ! i) < dr_n r" using ok Suc.prems by (auto simp: dedup_ok_def nat_less_iff)
        then show ?thesis using Suc.IH ps' len by (simp add: token_path_def)
      qed (use ps' len in \<open>simp add: token_path_def\<close>)
    qed
  qed (simp add: token_path_def)
  then show "token_path r m ?ps' i = token_path r m ps i" "rooted m ?ps' i \<longleftrightarrow> rooted m ps i" by simp_all
qed
lemma masked_nth:
  assumes "dedup_ok r ps lps" "i < dr_n r"
  shows "masked r lps d win ! i = (if i \<in> set (at_depth r lps d) \<and> win i \<noteq> i then f32_neg_inf else lps ! i)"
  using assms by (simp add: masked_def dedup_ok_def)

lemma moved_nth:
  assumes "dedup_ok r ps lps" "i < dr_n r"
  shows "moved r lps d win ps ! i =
    (if 0 \<le> ps ! i \<and> nat (ps ! i) \<in> set (at_depth r lps d) then int (win (nat (ps ! i))) else ps ! i)"
  using assms by (simp add: moved_def dedup_ok_def)

lemma pass_ok:
  assumes ok: "dedup_ok r ps lps" and win: "\<forall>i\<in>set (at_depth r lps d). wins r ps lps d i (win i)"
  shows "dedup_ok r (moved r lps d win ps) (masked r lps d win)"
proof -
  have w: "win p < dr_n r" if "p \<in> set (at_depth r lps d)" for p
    using win that at_depth_set[OF ok] by (auto simp: wins_def)
  have "- 1 \<le> moved r lps d win ps ! i \<and> moved r lps d win ps ! i < int (dr_n r) \<and> 0 \<le> dr_tokens r ! i
      \<and> dr_tokens r ! i < 2 ^ 32 \<and> (alive (masked r lps d win) i \<longrightarrow> 2 ^ 31 \<le> uint (masked r lps d win ! i))"
    if "i < dr_n r" for i
  proof -
    have "- 1 \<le> ps ! i" "ps ! i < int (dr_n r)" "0 \<le> dr_tokens r ! i" "dr_tokens r ! i < 2 ^ 32"
      "alive lps i \<longrightarrow> 2 ^ 31 \<le> uint (lps ! i)" using ok that by (simp_all add: dedup_ok_def)
    then show ?thesis using w[of "nat (ps ! i)"] unfolding moved_nth[OF ok that] masked_nth[OF ok that] by auto
  qed
  moreover have "length (moved r lps d win ps) = length ps" "length (masked r lps d win) = length lps"
    by (simp_all add: moved_def masked_def)
  ultimately show ?thesis using ok unfolding dedup_ok_def by simp
qed

lemma wins_key: "node_key r ps w = node_key r ps i \<Longrightarrow> wins r ps lps d w v \<longleftrightarrow> wins r ps lps d i v"
  by (simp add: wins_def)

text \<open>A winner wins its own group, so it stays alive.\<close>

lemma winner_alive:
  assumes ok: "dedup_ok r ps lps" and win: "\<forall>i\<in>set (at_depth r lps d). wins r ps lps d i (win i)"
    and i: "i \<in> set (at_depth r lps d)"
  shows "win i < dr_n r" "masked r lps d win ! win i = lps ! win i" "alive lps (win i)"
    "f32_key (lps ! i) \<le> f32_key (lps ! win i)" "ps ! win i = ps ! i" "dr_tokens r ! win i = dr_tokens r ! i"
proof -
  have w: "wins r ps lps d i (win i)" using win i by simp
  then have mem: "win i \<in> set (at_depth r lps d)" and key: "node_key r ps (win i) = node_key r ps i" by (simp_all add: wins_def)
  show n: "win i < dr_n r" and al: "alive lps (win i)" using mem at_depth_set[OF ok] by simp_all
  have "wins r ps lps d (win i) (win (win i))" using win mem by blast
  then have "wins r ps lps d i (win (win i))" unfolding wins_key[OF key] .
  from wins_unique[OF this w] have "win (win i) = win i" .
  then show "masked r lps d win ! win i = lps ! win i" by (simp add: masked_nth[OF ok n])
  show "f32_key (lps ! i) \<le> f32_key (lps ! win i)" using w i by (auto simp: wins_def)
  have "i < dr_n r" using i at_depth_set[OF ok] by simp
  then show "ps ! win i = ps ! i" "dr_tokens r ! win i = dr_tokens r ! i" using key node_key_eq[OF ok n] by simp_all
qed

lemma pass_raw_ok:
  assumes ok: "dedup_ok r ps lps" and win: "\<forall>i\<in>set (at_depth r lps d). wins r ps lps d i (win i)"
    and raw: "raw_ok_row (dr_n r) ps lps"
  shows "raw_ok_row (dr_n r) (moved r lps d win ps) (masked r lps d win)"
  unfolding raw_ok_row_def
proof (intro allI impI conjI)
  let ?ps' = "moved r lps d win ps" and ?lps' = "masked r lps d win"
  fix i assume i: "i < dr_n r"
  note nth = masked_nth[OF ok i, of d win] moved_nth[OF ok i, of d win]
  show "f32_isfinite (?lps' ! i) \<or> ?lps' ! i = f32_neg_inf" using raw i by (simp add: nth raw_ok_row_def)
  assume al': "?lps' ! i \<noteq> f32_neg_inf"
  then have al: "alive lps i" and same: "?lps' ! i = lps ! i" by (simp_all add: nth split: if_splits)
  show "rooted fixed_max_depth ?ps' i" using raw i al moved_paths(2)[OF ok win i] by (simp add: raw_ok_row_def)
  assume p': "0 \<le> ?ps' ! i"
  have p: "0 \<le> ps ! i" using p' by (simp add: nth split: if_splits)
  note par = parent_alive[OF raw i al p]
  have "?ps' ! i < int (dr_n r) \<and> f32_key (lps ! i) < f32_key (?lps' ! nat (?ps' ! i))"
  proof (cases "nat (ps ! i) \<in> set (at_depth r lps d)")
    case True
    note w = winner_alive[OF ok win True]
    show ?thesis using True p w(1,2,4) par(3) by (simp add: nth)
  next
    case False
    then show ?thesis using p par by (simp add: nth masked_nth[OF ok par(1)] nat_less_iff)
  qed
  then show "?ps' ! i < int (dr_n r)" "f32_key (?lps' ! i) < f32_key (?lps' ! nat (?ps' ! i))" by (simp_all add: same)
qed

text \<open>After the pass of depth \<open>d + 1\<close>, two nodes of that depth have different paths.\<close>

lemma pass_distinct:
  assumes inv: "dedup_inv r ps0 lps0 d (ps, lps)"
    and win: "\<forall>i\<in>set (at_depth r lps (Suc d)). wins r ps lps (Suc d) i (win i)"
    and ij: "i < dr_n r" "j < dr_n r" "alive (masked r lps (Suc d) win) i" "alive (masked r lps (Suc d) win) j"
      "dr_depths r ! i \<le> Suc d" "token_path r fixed_max_depth ps0 i = token_path r fixed_max_depth ps0 j"
  shows "i = j"
proof -
  note D = dedup_invD[OF inv]
  note ok = D(1)
  have al: "alive lps i" "alive lps j" using ij(3,4) by (simp_all add: masked_nth[OF ok] ij(1,2) split: if_splits)
  have path: "token_path r fixed_max_depth ps i = token_path r fixed_max_depth ps j" using D(4) ij by simp
  then have "length (raw_path fixed_max_depth ps i) = length (raw_path fixed_max_depth ps j)"
    unfolding token_path_def by (metis length_map)
  then have depth: "dr_depths r ! i = dr_depths r ! j" using D(7) ij al by simp
  show ?thesis
  proof (cases "dr_depths r ! i \<le> d")
    case True
    then show ?thesis using D(8)[OF ij(1,2) al _ ij(6)] by simp
  next
    case False
    then have mem: "i \<in> set (at_depth r lps (Suc d))" "j \<in> set (at_depth r lps (Suc d))"
      using ij al depth at_depth_set[OF ok] by auto
    have self: "win i = i" "win j = j"
      using ij(3,4) mem by (simp_all add: masked_nth[OF ok] ij(1,2) split: if_splits)
    have up: "0 \<le> ps ! k" "dr_depths r ! nat (ps ! k) = d"
      "token_path r fixed_max_depth ps k = dr_tokens r ! k # token_path r fixed_max_depth ps (nat (ps ! k))"
      if k: "k < dr_n r" "alive lps k" "dr_depths r ! k = Suc d" for k
    proof -
      have len: "length (raw_path fixed_max_depth ps k) = Suc (Suc d)" using D(7) k by simp
      then show p: "0 \<le> ps ! k" unfolding fixed_max_depth_Suc raw_path.simps(2) by (simp split: if_splits)
      note par = parent_alive[OF D(3) k(1,2) p]
      have stable: "raw_path fixed_max_depth ps (nat (ps ! k)) = raw_path 19 ps (nat (ps ! k))"
        unfolding fixed_max_depth_Suc by (rule rooted_path_stable[OF par(4)])
      then have path: "raw_path fixed_max_depth ps k = k # raw_path fixed_max_depth ps (nat (ps ! k))"
        using p unfolding fixed_max_depth_Suc by (subst raw_path.simps(2)) simp
      then show "token_path r fixed_max_depth ps k = dr_tokens r ! k # token_path r fixed_max_depth ps (nat (ps ! k))"
        by (simp add: token_path_def)
      show "dr_depths r ! nat (ps ! k) = d" using D(7)[OF par(1,2)] len unfolding path by simp
    qed
    have di: "dr_depths r ! i = Suc d" and dj: "dr_depths r ! j = Suc d" using False ij(5) depth by simp_all
    note ui = up[OF ij(1) al(1) di] and uj = up[OF ij(2) al(2) dj]
    note pi = parent_alive[OF D(3) ij(1) al(1) ui(1)] and pj = parent_alive[OF D(3) ij(2) al(2) uj(1)]
    have tok: "dr_tokens r ! i = dr_tokens r ! j"
      and "token_path r fixed_max_depth ps (nat (ps ! i)) = token_path r fixed_max_depth ps (nat (ps ! j))"
      using path unfolding ui(3) uj(3) by simp_all
    then have same: "token_path r fixed_max_depth ps0 (nat (ps ! i)) = token_path r fixed_max_depth ps0 (nat (ps ! j))"
      unfolding D(4)[OF pi(1)] D(4)[OF pj(1)] by (simp only:)
    have "nat (ps ! i) = nat (ps ! j)" by (rule D(8)[OF pi(1) pj(1) pi(2) pj(2) _ same]) (simp add: ui(2))
    then have "ps ! i = ps ! j" using ui(1) uj(1) by linarith
    then have "node_key r ps i = node_key r ps j" using tok by (simp add: node_key_def)
    then have "wins r ps lps (Suc d) i (win i) \<longleftrightarrow> wins r ps lps (Suc d) j (win i)" by (rule wins_key)
    moreover have "wins r ps lps (Suc d) i (win i)" "wins r ps lps (Suc d) j (win j)" using win mem by blast+
    ultimately show ?thesis using wins_unique[of r ps lps "Suc d" j "win i" "win j"] self by simp
  qed
qed

lemma pass_inv:
  assumes inv: "dedup_inv r ps0 lps0 d (ps, lps)"
  shows "dedup_inv r ps0 lps0 (Suc d) (pass_result r (Suc d) (ps, lps))"
proof -
  note D = dedup_invD[OF inv]
  note ok = D(1)
  obtain win where win: "\<forall>i\<in>set (at_depth r lps (Suc d)). wins r ps lps (Suc d) i (win i)"
    and res: "pass_result r (Suc d) (ps, lps) = (moved r lps (Suc d) win ps, masked r lps (Suc d) win)"
    by (rule pass_result_eq[OF ok])
  let ?ps' = "moved r lps (Suc d) win ps" and ?lps' = "masked r lps (Suc d) win"
  have al: "alive lps i" "?lps' ! i = lps ! i" if "i < dr_n r" "alive ?lps' i" for i
    using that by (simp_all add: masked_nth[OF ok] split: if_splits)
  note paths = moved_paths(1)[OF ok win]
  have kept: "\<exists>w<dr_n r. alive ?lps' w \<and> f32_key (lps0 ! i) \<le> f32_key (?lps' ! w)
      \<and> token_path r fixed_max_depth ps0 w = token_path r fixed_max_depth ps0 i" if i: "i < dr_n r" "alive lps0 i" for i
  proof -
    obtain w where w: "w < dr_n r" "alive lps w" "f32_key (lps0 ! i) \<le> f32_key (lps ! w)"
      "token_path r fixed_max_depth ps0 w = token_path r fixed_max_depth ps0 i" using D(6)[OF i] by blast
    show ?thesis
    proof (cases "w \<in> set (at_depth r lps (Suc d))")
      case True
      note v = winner_alive[OF ok win True]
      have "token_path r fixed_max_depth ps0 (win w) = token_path r fixed_max_depth ps0 w"
        using same_key_path[OF v(5,6)] D(4)[OF v(1)] D(4)[OF w(1)] by simp
      then show ?thesis using v w by (intro exI[of _ "win w"]) simp
    next
      case False
      then show ?thesis using w by (intro exI[of _ w]) (simp add: masked_nth[OF ok])
    qed
  qed
  have len: "length (raw_path fixed_max_depth ?ps' i) = Suc (dr_depths r ! i)" if "i < dr_n r" "alive ?lps' i" for i
    using paths[OF that(1), of fixed_max_depth] D(7)[OF that(1) al(1)[OF that]] unfolding token_path_def by (metis length_map)
  have path0: "token_path r m ?ps' i = token_path r m ps0 i" if "i < dr_n r" for i m
    using paths[OF that] D(4)[OF that] by simp
  have same: "?lps' ! i = lps0 ! i" if "i < dr_n r" "alive ?lps' i" for i using al[OF that] D(5)[OF that(1)] by simp
  have "length ?lps' = length lps0" using D(2) by (simp add: masked_def)
  from dedup_invI[OF pass_ok[OF ok win] this pass_raw_ok[OF ok win D(3)] path0 same kept len pass_distinct[OF inv win]]
  show ?thesis unfolding res .
qed
section \<open>Every schedule computes the passes\<close>

definition dedup_passes :: "dedup_row \<Rightarrow> nat \<Rightarrow> int list \<times> f32 list \<Rightarrow> int list \<times> f32 list" where
  "dedup_passes r max_d s = fold (pass_result r) [1..<Suc max_d] s"

lemma dedup_passes_Suc: "dedup_passes r (Suc d) s = pass_result r (Suc d) (dedup_passes r d s)"
  by (simp add: dedup_passes_def)

lemma passes_inv: "dedup_inv r ps0 lps0 0 s \<Longrightarrow> dedup_inv r ps0 lps0 d (dedup_passes r d s)"
proof (induction d)
  case (Suc d)
  obtain ps lps where s: "dedup_passes r d s = (ps, lps)" by fastforce
  then show ?case using Suc pass_inv[of r ps0 lps0 d ps lps] by (simp add: dedup_passes_Suc)
qed (simp add: dedup_passes_def)

definition mark_table :: "dedup_row \<Rightarrow> int list \<Rightarrow> f32 list \<Rightarrow> nat \<Rightarrow> int list" where
  "mark_table r parents lps d = fold (\<lambda>(i, v) b. b[i := v]) (mk_states (dedup_mark r parents lps d)) (replicate (dr_lanes r) 0)"

text \<open>
  Where a program is: the state after the passes it has completed, and in the middle of a pass what it
  has left in its part of the table.
\<close>

definition prog_at :: "dedup_row \<Rightarrow> nat \<Rightarrow> int list \<times> f32 list \<Rightarrow> nat \<Rightarrow> int list \<Rightarrow> dedup_prog \<Rightarrow> bool" where
  "prog_at r max_d start base ns p \<longleftrightarrow>
     (let d = dp_pc p div 3; (ps, lps) = dedup_passes r d start; part = dp_pc p mod 3 in
      dp_pc p \<le> 3 * max_d \<and> dp_parents p = ps
      \<and> dp_lps p = (if part = 2 then mk_lps (dedup_mark r ps lps (d + 1)) else lps)
      \<and> (part = 1 \<longrightarrow> (\<forall>i<dr_lanes r. ns ! (base + i) = 0))
      \<and> (part = 2 \<longrightarrow> (\<forall>i<dr_lanes r. ns ! (base + i) = mark_table r ps lps (d + 1) ! i)))"

lemma redirect_cong:
  assumes "dedup_ok r ps lps" "\<And>i. i < dr_lanes r \<Longrightarrow> f i = g i"
  shows "redirect (dr_n r) f ps = redirect (dr_n r) g ps"
proof -
  have "f (nat (max (ps ! i) 0)) = g (nat (max (ps ! i) 0))" if "i < dr_n r" for i
  proof -
    have "ps ! i < int (dr_n r)" "dr_n r \<le> dr_lanes r" using assms(1) that by (simp_all add: dedup_ok_def)
    then show ?thesis using that by (intro assms(2)) (auto simp: max_def nat_less_iff)
  qed
  then have "(if i < dr_n r then f (nat (max (ps ! i) 0)) else 0) = (if i < dr_n r then g (nat (max (ps ! i) 0)) else 0)" for i
    by simp
  then show ?thesis unfolding redirect_def by (simp only:)
qed

lemma mark_effect:
  assumes ok: "dedup_ok r ps lps" and fit: "base + dr_lanes r \<le> length ns"
    and zero: "\<forall>i<dr_lanes r. ns ! (base + i) = 0"
  shows "\<And>i. i < dr_lanes r \<Longrightarrow> fold (\<lambda>(i, v) b. b[base + i := v]) (mk_states (dedup_mark r ps lps d)) ns ! (base + i)
      = mark_table r ps lps d ! i"
    "\<And>k. \<not> (base \<le> k \<and> k < base + dr_lanes r) \<Longrightarrow>
      fold (\<lambda>(i, v) b. b[base + i := v]) (mk_states (dedup_mark r ps lps d)) ns ! k = ns ! k"
proof -
  obtain win where table: "\<forall>base buf i. base + dr_lanes r \<le> length buf \<longrightarrow>
       fold (\<lambda>(i, v) b. b[base + i := v]) (mk_states (dedup_mark r ps lps d)) buf ! i
         = (if base \<le> i \<and> i - base \<in> set (at_depth r lps d)
            then (if win (i - base) \<noteq> i - base then 2 ^ 32 else 0) + int (win (i - base)) else buf ! i)"
    by (rule mark_spec[OF ok, of d]) (rule that)
  show "fold (\<lambda>(i, v) b. b[base + i := v]) (mk_states (dedup_mark r ps lps d)) ns ! (base + i) = mark_table r ps lps d ! i"
    if "i < dr_lanes r" for i
    using table[rule_format, OF fit, of "base + i"] table[rule_format, of 0 "replicate (dr_lanes r) 0" i] that zero
    by (simp add: mark_table_def)
  show "fold (\<lambda>(i, v) b. b[base + i := v]) (mk_states (dedup_mark r ps lps d)) ns ! k = ns ! k"
    if "\<not> (base \<le> k \<and> k < base + dr_lanes r)" for k
  proof -
    have "(base \<le> k \<and> k - base \<in> set (at_depth r lps d)) \<longleftrightarrow> False"
      using that at_depth_set[OF ok, of d] ok by (auto simp: dedup_ok_def)
    then show ?thesis using table[rule_format, OF fit, of k] by (simp only: if_False)
  qed
qed

lemma length_fold_update: "length (fold (\<lambda>(i, v) b. b[f i := v]) xs b) = length b"
  by (induction xs arbitrary: b) (auto split: prod.split)

lemma part_step:
  assumes at: "prog_at r max_d start base ns p" and fit: "base + dr_lanes r \<le> length ns"
    and ok: "\<And>d. dedup_ok r (fst (dedup_passes r d start)) (snd (dedup_passes r d start))"
    and step: "dedup_part max_d base r (ns, p) = (ns', p')"
  shows "prog_at r max_d start base ns' p'" "length ns' = length ns" "dp_pc p' = min (3 * max_d) (dp_pc p + 1)"
    "\<And>k. \<not> (base \<le> k \<and> k < base + dr_lanes r) \<Longrightarrow> ns' ! k = ns ! k"
proof -
  define d where "d = dp_pc p div 3"
  obtain ps lps where s: "dedup_passes r d start = (ps, lps)" by fastforce
  have ok': "dedup_ok r ps lps" using ok[of d] s by simp
  have pc: "dp_pc p \<le> 3 * max_d" "dp_parents p = ps" using at s by (simp_all add: prog_at_def Let_def d_def[symmetric])
  have next_div: "(dp_pc p + 1) div 3 = (if dp_pc p mod 3 = 2 then Suc d else d)"
    "(dp_pc p + 1) mod 3 = (if dp_pc p mod 3 = 2 then 0 else dp_pc p mod 3 + 1)"
    unfolding d_def by presburger+
  have thesis_4: "prog_at r max_d start base ns' p' \<and> length ns' = length ns \<and> dp_pc p' = min (3 * max_d) (dp_pc p + 1)
      \<and> (\<forall>k. \<not> (base \<le> k \<and> k < base + dr_lanes r) \<longrightarrow> ns' ! k = ns ! k)"
  proof (cases "3 * max_d \<le> dp_pc p")
    case True
    then show ?thesis using step at pc by (simp add: dedup_part_def)
  next
    case more: False
    consider "dp_pc p mod 3 = 0" | "dp_pc p mod 3 = 1" | "dp_pc p mod 3 = 2" by linarith
    then show ?thesis
    proof cases
      case 1
      then have p': "p' = p\<lparr>dp_pc := dp_pc p + 1\<rparr>"
        and ns': "ns' = tl_store (dr_lanes r) (\<lambda>_. True) (\<lambda>i. base + i) (\<lambda>_. 0) ns"
        using step more by (simp_all add: dedup_part_def)
      have lps: "dp_lps p = lps" using at s 1 by (simp add: prog_at_def Let_def d_def[symmetric])
      show ?thesis using more pc s 1 lps next_div unfolding p' ns' prog_at_def Let_def
        by (simp add: table_reset[OF fit])
    next
      case 2
      have lps: "dp_lps p = lps" and zero: "\<forall>i<dr_lanes r. ns ! (base + i) = 0"
        using at s 2 by (simp_all add: prog_at_def Let_def d_def[symmetric])
      let ?ns = "fold (\<lambda>(i, v) b. b[base + i := v]) (mk_states (dedup_mark r ps lps (d + 1))) ns"
      have p': "p' = p\<lparr>dp_pc := dp_pc p + 1, dp_lps := mk_lps (dedup_mark r ps lps (d + 1))\<rparr>" and ns': "ns' = ?ns"
        using step more 2 pc(2) lps by (simp_all add: dedup_part_def Let_def d_def)
      note eff = mark_effect[OF ok' fit zero, where d = "Suc d"]
      show ?thesis using more pc s 2 next_div eff unfolding p' ns' prog_at_def Let_def
        by (simp add: length_fold_update)
    next
      case 3
      have lps: "dp_lps p = mk_lps (dedup_mark r ps lps (d + 1))"
        and tab: "\<forall>i<dr_lanes r. ns ! (base + i) = mark_table r ps lps (d + 1) ! i"
        using at s 3 by (simp_all add: prog_at_def Let_def d_def[symmetric])
      have red: "redirect (dr_n r) (\<lambda>i. ns ! (base + i)) ps = redirect (dr_n r) (\<lambda>i. mark_table r ps lps (d + 1) ! i) ps"
        by (rule redirect_cong[OF ok']) (use tab in simp)
      have p': "p' = p\<lparr>dp_pc := dp_pc p + 1, dp_parents := redirect (dr_n r) (\<lambda>i. ns ! (base + i)) ps\<rparr>" and ns': "ns' = ns"
        using step more 3 pc(2) by (auto simp: dedup_part_def)
      have "dedup_passes r (Suc d) start = (redirect (dr_n r) (\<lambda>i. mark_table r ps lps (d + 1) ! i) ps, dp_lps p)"
        by (simp add: dedup_passes_Suc s pass_result_def Let_def mark_table_def lps)
      then show ?thesis using more pc s 3 next_div red unfolding p' ns' prog_at_def Let_def by simp
    qed
  qed
  then show "prog_at r max_d start base ns' p'" "length ns' = length ns" "dp_pc p' = min (3 * max_d) (dp_pc p + 1)"
    "\<And>k. \<not> (base \<le> k \<and> k < base + dr_lanes r) \<Longrightarrow> ns' ! k = ns ! k" by simp_all
qed
text \<open>All programs, each in its own part of the table.\<close>

definition progs_at ::
    "nat \<Rightarrow> nat \<Rightarrow> dedup_row list \<Rightarrow> (int list \<times> f32 list) list \<Rightarrow> int list \<times> dedup_prog list \<Rightarrow> bool" where
  "progs_at max_d stride rows starts s \<longleftrightarrow> length (snd s) = length rows
     \<and> (\<forall>b<length rows. b * stride + dr_lanes (rows ! b) \<le> length (fst s)
          \<and> prog_at (rows ! b) max_d (starts ! b) (b * stride) (fst s) (snd s ! b))"

lemma prog_at_cong:
  assumes "\<And>i. i < dr_lanes r \<Longrightarrow> ns' ! (base + i) = ns ! (base + i)" "prog_at r max_d start base ns p"
  shows "prog_at r max_d start base ns' p"
  using assms by (simp add: prog_at_def Let_def split: prod.split)

lemma step_at:
  assumes at: "progs_at max_d stride rows starts s" and b: "b < length rows"
    and ok: "\<And>b d. b < length rows \<Longrightarrow> dedup_ok (rows ! b) (fst (dedup_passes (rows ! b) d (starts ! b)))
               (snd (dedup_passes (rows ! b) d (starts ! b)))"
    and apart: "length rows \<le> 1 \<or> (\<forall>b<length rows. dr_lanes (rows ! b) \<le> stride)"
  shows "progs_at max_d stride rows starts (dedup_step max_d stride rows b s)"
    "dp_pc (snd (dedup_step max_d stride rows b s) ! c) =
       (if c = b then min (3 * max_d) (dp_pc (snd s ! b) + 1) else dp_pc (snd s ! c))"
proof -
  obtain ns' p' where step: "dedup_part max_d (b * stride) (rows ! b) (fst s, snd s ! b) = (ns', p')" by fastforce
  then have s': "dedup_step max_d stride rows b s = (ns', (snd s)[b := p'])" by (simp add: dedup_step_def)
  have at_b: "prog_at (rows ! b) max_d (starts ! b) (b * stride) (fst s) (snd s ! b)"
    and fit: "b * stride + dr_lanes (rows ! b) \<le> length (fst s)" and len: "length (snd s) = length rows"
    using at b by (simp_all add: progs_at_def)
  note eff = part_step[OF at_b fit ok[OF b] step]
  have "prog_at (rows ! c) max_d (starts ! c) (c * stride) ns' (snd s ! c)" if c: "c < length rows" "c \<noteq> b" for c
  proof (rule prog_at_cong)
    show "prog_at (rows ! c) max_d (starts ! c) (c * stride) (fst s) (snd s ! c)" using at c by (simp add: progs_at_def)
    fix i assume i: "i < dr_lanes (rows ! c)"
    have "dr_lanes (rows ! c) \<le> stride" "dr_lanes (rows ! b) \<le> stride" using apart b c by simp_all
    moreover have "c < b \<Longrightarrow> c * stride + stride \<le> b * stride" "b < c \<Longrightarrow> b * stride + stride \<le> c * stride"
      using mult_le_mono1[of "Suc c" b stride] mult_le_mono1[of "Suc b" c stride] by simp_all
    ultimately have "\<not> (b * stride \<le> c * stride + i \<and> c * stride + i < b * stride + dr_lanes (rows ! b))"
      using i c(2) by (cases "c < b") auto
    then show "ns' ! (c * stride + i) = fst s ! (c * stride + i)" by (rule eff(4))
  qed
  then show "progs_at max_d stride rows starts (dedup_step max_d stride rows b s)"
    using at eff(1,2) len b unfolding progs_at_def s' by (auto simp: nth_list_update)
  show "dp_pc (snd (dedup_step max_d stride rows b s) ! c) =
       (if c = b then min (3 * max_d) (dp_pc (snd s ! b) + 1) else dp_pc (snd s ! c))"
    using eff(3) len b by (simp add: s')
qed

lemma run_at:
  assumes "progs_at max_d stride rows starts s" "set sched \<subseteq> {..<length rows}"
    and ok: "\<And>b d. b < length rows \<Longrightarrow> dedup_ok (rows ! b) (fst (dedup_passes (rows ! b) d (starts ! b)))
               (snd (dedup_passes (rows ! b) d (starts ! b)))"
    and apart: "length rows \<le> 1 \<or> (\<forall>b<length rows. dr_lanes (rows ! b) \<le> stride)"
    and pc: "\<forall>b<length rows. dp_pc (snd s ! b) \<le> 3 * max_d"
  shows "progs_at max_d stride rows starts (dedup_run max_d stride rows sched s)
    \<and> (\<forall>c<length rows. dp_pc (snd (dedup_run max_d stride rows sched s) ! c)
          = min (3 * max_d) (dp_pc (snd s ! c) + count_list sched c))"
  using assms(1,2,5)
proof (induction sched arbitrary: s)
  case (Cons b sched)
  have b: "b < length rows" using Cons.prems by simp
  have st: "progs_at max_d stride rows starts (dedup_step max_d stride rows b s)"
    "dp_pc (snd (dedup_step max_d stride rows b s) ! c) =
       (if c = b then min (3 * max_d) (dp_pc (snd s ! b) + 1) else dp_pc (snd s ! c))" for c
    using step_at[OF Cons.prems(1) b ok apart] by simp_all
  have run: "dedup_run max_d stride rows (b # sched) s = dedup_run max_d stride rows sched (dedup_step max_d stride rows b s)"
    by (simp add: dedup_run_def)
  have "\<forall>c<length rows. dp_pc (snd (dedup_step max_d stride rows b s) ! c) \<le> 3 * max_d" using st(2) Cons.prems(3) by simp
  from Cons.IH[OF st(1) _ this] Cons.prems(2)
  have IH: "progs_at max_d stride rows starts (dedup_run max_d stride rows sched (dedup_step max_d stride rows b s))"
    "\<And>c. c < length rows \<Longrightarrow> dp_pc (snd (dedup_run max_d stride rows sched (dedup_step max_d stride rows b s)) ! c)
        = min (3 * max_d) ((if c = b then min (3 * max_d) (dp_pc (snd s ! b) + 1) else dp_pc (snd s ! c)) + count_list sched c)"
    by (auto simp: st(2))
  then show ?case unfolding run by (auto simp: min_def)
qed (fastforce simp: dedup_run_def min_def intro: order.antisym)

lemma prog_at_done:
  "prog_at r max_d start base ns p \<Longrightarrow> dp_pc p = 3 * max_d \<Longrightarrow> (dp_parents p, dp_lps p) = dedup_passes r max_d start"
  by (cases "dedup_passes r max_d start") (simp add: prog_at_def)
section \<open>Rows in memory\<close>

text \<open>
  The input of a launch: fewer than \<open>2 ^ 14\<close> lanes, 32-bit tokens, negative scores, no depth wider than the
  compact table, a raw tree in the row, and different tokens on the nodes without a parent (depth 0 is
  not merged).
\<close>

definition dedup_input :: "nat \<Rightarrow> nat \<Rightarrow> nat \<Rightarrow> raw_row \<Rightarrow> bool" where
  "dedup_input N compact n row \<longleftrightarrow> n \<le> N \<and> N \<le> 2 ^ 14 \<and> n \<le> length (rr_parents row) \<and> n \<le> length (rr_lps row)
     \<and> (\<forall>i<n. - 1 \<le> rr_parents row ! i \<and> rr_parents row ! i < int n \<and> 0 \<le> rr_tokens row ! i \<and> rr_tokens row ! i < 2 ^ 32
          \<and> (alive (rr_lps row) i \<longrightarrow> 2 ^ 31 \<le> uint (rr_lps row ! i)))
     \<and> (\<forall>i<n. length (filter (\<lambda>j. dedup_depths N n (rr_parents row) ! j = dedup_depths N n (rr_parents row) ! i) [0..<n]) \<le> compact)
     \<and> raw_ok_row n (rr_parents row) (rr_lps row)
     \<and> (\<forall>i<n. \<forall>j<n. alive (rr_lps row) i \<and> alive (rr_lps row) j \<and> rr_parents row ! i < 0 \<and> rr_parents row ! j < 0
          \<and> rr_tokens row ! i = rr_tokens row ! j \<longrightarrow> i = j)"

definition row_path :: "raw_row \<Rightarrow> nat \<Rightarrow> int list" where
  "row_path row i = map (\<lambda>x. rr_tokens row ! x) (raw_path fixed_max_depth (rr_parents row) i)"

text \<open>The row that the passes leave, one after the other.\<close>

definition dedup_out :: "nat \<Rightarrow> nat \<Rightarrow> nat \<Rightarrow> nat \<Rightarrow> raw_row \<Rightarrow> raw_row" where
  "dedup_out N compact max_d n row =
     (let (ps, lps) = dedup_passes (load_row N compact n row) max_d (dedup_parents N n (rr_parents row), rr_lps row)
      in finish_row n \<lparr>dp_pc = 3 * max_d, dp_parents = ps, dp_lps = lps\<rparr> row)"

lemma prefix_paths:
  assumes "\<forall>i<n. ps ! i < int n \<and> qs ! i = ps ! i" "n \<le> length ps" "n \<le> length qs" "i < n"
  shows "raw_path m qs i = raw_path m ps i" "rooted m qs i \<longleftrightarrow> rooted m ps i"
proof -
  have "raw_path m qs i = raw_path m ps i \<and> (rooted m qs i \<longleftrightarrow> rooted m ps i)"
    using assms(4)
  proof (induction m arbitrary: i)
    case (Suc m)
    have "qs ! i = ps ! i" "ps ! i < int n" using assms(1) Suc.prems by simp_all
    then show ?case using Suc.IH[of "nat (ps ! i)"] Suc.prems assms(2,3)
      by (cases "ps ! i < 0") (simp_all add: nat_less_iff)
  qed simp
  then show "raw_path m qs i = raw_path m ps i" "rooted m qs i \<longleftrightarrow> rooted m ps i" by simp_all
qed

lemma prefix_raw_ok:
  assumes "\<forall>i<n. ps ! i < int n \<and> qs ! i = ps ! i" "n \<le> length ps" "n \<le> length qs"
  shows "raw_ok_row n qs lps \<longleftrightarrow> raw_ok_row n ps lps"
  unfolding raw_ok_row_def using prefix_paths(2)[OF assms] assms(1) by simp

lemma walk_length:
  "rooted m ps i \<Longrightarrow> Suc (dedup_walk m ps i k) = k + length (raw_path m ps i)"
proof (induction m arbitrary: i k)
  case (Suc m)
  have stay: "dedup_walk m ps i k = k" if "ps ! i < 0" for m i k using that by (induction m) simp_all
  show ?case using Suc stay by (cases "ps ! i < 0") simp_all
qed simp

lemma dedup_start:
  assumes "dedup_input N compact n row"
  defines "r \<equiv> load_row N compact n row" and "ps \<equiv> dedup_parents N n (rr_parents row)"
  shows "dedup_inv r ps (rr_lps row) 0 (ps, rr_lps row)"
    "\<forall>i<n. rr_parents row ! i < int n \<and> ps ! i = rr_parents row ! i" "n \<le> length ps"
proof -
  have n: "n \<le> N" "N \<le> 2 ^ 14" "n \<le> length (rr_parents row)" "n \<le> length (rr_lps row)"
    using assms(1) by (simp_all add: dedup_input_def)
  show len: "n \<le> length ps" using n by (simp add: ps_def dedup_parents_def)
  have nth: "ps ! i = rr_parents row ! i" if "i < n" for i using that n by (simp add: ps_def dedup_parents_def tl_load_def)
  then show pre: "\<forall>i<n. rr_parents row ! i < int n \<and> ps ! i = rr_parents row ! i"
    using assms(1) by (simp add: dedup_input_def)
  have r: "dr_n r = n" "dr_lanes r = N" "dr_compact r = compact" "dr_tokens r = rr_tokens row"
    "dr_depths r = dedup_depths N n (rr_parents row)" by (simp_all add: r_def load_row_def)
  note paths = prefix_paths[OF pre n(3) len]
  have width: "length (filter (\<lambda>i. dr_depths r ! i = d) [0..<n]) \<le> compact" for d
  proof (cases "\<exists>i<n. dr_depths r ! i = d")
    case True
    then show ?thesis using assms(1) unfolding r dedup_input_def by blast
  next
    case False
    then have "filter (\<lambda>i. dr_depths r ! i = d) [0..<n] = []" by (simp add: filter_empty_conv)
    then show ?thesis by simp
  qed
  have ok: "dedup_ok r ps (rr_lps row)"
    unfolding dedup_ok_def r using assms(1) n nth width[unfolded r] by (simp add: dedup_input_def ps_def dedup_parents_def)
  have raw: "raw_ok_row n (rr_parents row) (rr_lps row)" using assms(1) by (simp add: dedup_input_def)
  then have raw': "raw_ok_row n ps (rr_lps row)" using prefix_raw_ok[OF pre n(3) len] by simp
  have depth: "length (raw_path fixed_max_depth ps i) = Suc (dr_depths r ! i)" if "i < n" "alive (rr_lps row) i" for i
  proof -
    have "rooted fixed_max_depth (rr_parents row) i" using raw that by (simp add: raw_ok_row_def)
    from walk_length[OF this, of 0] show ?thesis using that n by (simp add: r paths dedup_depths_def)
  qed
  have roots: "i = j" if ij: "i < n" "j < n" "alive (rr_lps row) i" "alive (rr_lps row) j" "dr_depths r ! i \<le> 0"
    "token_path r fixed_max_depth ps i = token_path r fixed_max_depth ps j" for i j
  proof -
    have "length (raw_path fixed_max_depth ps i) = length (raw_path fixed_max_depth ps j)"
      using ij(6) unfolding token_path_def by (metis length_map)
    then have "length (raw_path fixed_max_depth ps i) = 1" "length (raw_path fixed_max_depth ps j) = 1"
      using depth[OF ij(1,3)] ij(5) by simp_all
    then have "rr_parents row ! i < 0" "rr_parents row ! j < 0" "rr_tokens row ! i = rr_tokens row ! j"
      using ij(6) nth[OF ij(1)] nth[OF ij(2)] unfolding token_path_def fixed_max_depth_Suc raw_path.simps(2) r
      by (simp_all split: if_splits, (cases "ps ! i < 0"; simp add: numeral_eq_Suc)+)
    then show ?thesis using assms(1) ij unfolding dedup_input_def by blast
  qed
  show "dedup_inv r ps (rr_lps row) 0 (ps, rr_lps row)"
    by (rule dedup_invI) (use ok raw' depth roots in \<open>auto simp: r\<close>)
qed
lemma finish_row_nth:
  assumes "n \<le> length (rr_parents row)" "length (dp_parents p) = N" "n \<le> N" "i < n"
  shows "rr_parents (finish_row n p row) ! i = dp_parents p ! i"
proof -
  have "inj_on (\<lambda>i. i) {l. l < length (dp_parents p) \<and> l < n}" by simp
  from tl_store_hit[OF this, of i "rr_parents row" "\<lambda>i. dp_parents p ! i"] assms
  show ?thesis by (simp add: finish_row_def)
qed

lemma merges_paths:
  assumes "dedup_input N compact n row"
  shows "let out = dedup_out N compact max_d n row in
      length (rr_lps out) = length (rr_lps row) \<and> raw_ok_row n (rr_parents out) (rr_lps out)
    \<and> (\<forall>i<n. row_path out i = row_path row i)
    \<and> (\<forall>i<n. rr_lps out ! i = rr_lps row ! i \<or> rr_lps out ! i = f32_neg_inf)
    \<and> (\<forall>i<n. alive (rr_lps row) i \<longrightarrow> (\<exists>w<n. alive (rr_lps out) w \<and> row_path out w = row_path row i
         \<and> f32_key (rr_lps row ! i) \<le> f32_key (rr_lps out ! w)))
    \<and> (\<forall>i<n. \<forall>j<n. alive (rr_lps out) i \<and> alive (rr_lps out) j \<and> length (row_path out i) \<le> Suc max_d
         \<and> row_path out i = row_path out j \<longrightarrow> i = j)"
proof -
  define r ps0 lps0 where "r = load_row N compact n row" and "ps0 = dedup_parents N n (rr_parents row)" and "lps0 = rr_lps row"
  note start = dedup_start[OF assms, folded r_def ps0_def lps0_def]
  have r: "dr_n r = n" "dr_lanes r = N" "dr_tokens r = rr_tokens row" by (simp_all add: r_def load_row_def)
  have n: "n \<le> N" "n \<le> length (rr_parents row)" using assms by (simp_all add: dedup_input_def)
  obtain ps lps where res: "dedup_passes r max_d (ps0, lps0) = (ps, lps)" by fastforce
  have inv: "dedup_inv r ps0 lps0 max_d (ps, lps)" using passes_inv[OF start(1), of max_d] by (simp add: res)
  note D = dedup_invD[OF inv, unfolded r]
  have len: "length ps = N" and bound: "\<forall>i<n. ps ! i < int n" using D(1) by (simp_all add: dedup_ok_def r)
  let ?out = "dedup_out N compact max_d n row"
  have out: "?out = finish_row n \<lparr>dp_pc = 3 * max_d, dp_parents = ps, dp_lps = lps\<rparr> row"
    by (simp add: dedup_out_def r_def[symmetric] ps0_def[symmetric] lps0_def[symmetric] res)
  have lps': "rr_lps ?out = lps" and tok': "rr_tokens ?out = rr_tokens row" by (simp_all add: out finish_row_def)
  have "rr_parents ?out ! i = ps ! i" if "i < n" for i
    unfolding out using finish_row_nth[OF n(2), of "\<lparr>dp_pc = 3 * max_d, dp_parents = ps, dp_lps = lps\<rparr>" N i] len n(1) that by simp
  then have ps': "\<forall>i<n. ps ! i < int n \<and> rr_parents ?out ! i = ps ! i" using bound by simp
  have lens: "n \<le> length ps" "n \<le> length (rr_parents ?out)" using len n by (simp_all add: out finish_row_def)
  note paths = prefix_paths[OF ps' lens]
  have new: "row_path ?out i = token_path r fixed_max_depth ps i" if "i < n" for i
    using paths(1)[OF that, of fixed_max_depth] by (simp add: row_path_def token_path_def r tok')
  have old: "row_path row i = token_path r fixed_max_depth ps0 i" if "i < n" for i
    using prefix_paths(1)[OF start(2) n(2) start(3) that, of fixed_max_depth] by (simp add: row_path_def token_path_def r)
  have same: "row_path ?out i = row_path row i" if "i < n" for i using new[OF that] old[OF that] D(4)[OF that] by simp
  have raw: "raw_ok_row n (rr_parents ?out) (rr_lps ?out)" unfolding lps' using D(3) prefix_raw_ok[OF ps' lens] by simp
  have kept: "\<exists>w<n. alive (rr_lps ?out) w \<and> row_path ?out w = row_path row i \<and> f32_key (rr_lps row ! i) \<le> f32_key (rr_lps ?out ! w)"
    if i: "i < n" "alive (rr_lps row) i" for i
  proof -
    obtain w where "w < n" "alive lps w" "f32_key (lps0 ! i) \<le> f32_key (lps ! w)"
      "token_path r fixed_max_depth ps0 w = token_path r fixed_max_depth ps0 i" using D(6) i unfolding lps0_def by blast
    then show ?thesis unfolding lps' using same old i(1) by (auto simp: lps0_def)
  qed
  have dist: "i = j" if ij: "i < n" "j < n" "alive (rr_lps ?out) i" "alive (rr_lps ?out) j"
    "length (row_path ?out i) \<le> Suc max_d" "row_path ?out i = row_path ?out j" for i j
  proof (rule D(8)[OF ij(1,2) ij(3,4)[unfolded lps']])
    show "dr_depths r ! i \<le> max_d"
      using ij(5) D(7)[OF ij(1) ij(3)[unfolded lps']] unfolding new[OF ij(1)] by (simp add: token_path_def)
    show "token_path r fixed_max_depth ps0 i = token_path r fixed_max_depth ps0 j" using same old ij(1,2,6) by simp
  qed
  have lp: "rr_lps ?out ! i = rr_lps row ! i \<or> rr_lps ?out ! i = f32_neg_inf" if "i < n" for i
    using D(5)[OF that] unfolding lps' lps0_def by blast
  show ?thesis unfolding Let_def using raw same lp kept dist D(2)[folded lps'] unfolding lps0_def by blast
qed

lemma launch_any_schedule:
  assumes "length counts = length rows" "\<forall>b<length rows. dedup_input N compact (counts ! b) (rows ! b)"
    and "length rows \<le> 1 \<or> N \<le> stride" "\<forall>b<length rows. b * stride + N \<le> length table"
    and "set sched \<subseteq> {..<length rows}" "\<forall>b<length rows. 3 * max_d \<le> count_list sched b"
  shows "\<forall>b<length rows.
      finish_row (counts ! b)
        (snd (dedup_run max_d stride (map2 (load_row N compact) counts rows) sched (table, map2 (start_prog N) counts rows)) ! b)
        (rows ! b)
      = dedup_out N compact max_d (counts ! b) (rows ! b)"
proof -
  let ?rs = "map2 (load_row N compact) counts rows"
  define starts where "starts = map2 (\<lambda>n row. (dedup_parents N n (rr_parents row), rr_lps row)) counts rows"
  let ?s = "(table, map2 (start_prog N) counts rows)"
  have nth: "?rs ! b = load_row N compact (counts ! b) (rows ! b)"
    "starts ! b = (dedup_parents N (counts ! b) (rr_parents (rows ! b)), rr_lps (rows ! b))"
    "snd ?s ! b = start_prog N (counts ! b) (rows ! b)" if "b < length rows" for b
    using that assms(1) by (simp_all add: starts_def)
  have len: "length ?rs = length rows" using assms(1) by simp
  have lanes: "dr_lanes (?rs ! b) = N" if "b < length rows" for b using nth(1)[OF that] by (simp add: load_row_def)
  have ok: "dedup_ok (?rs ! b) (fst (dedup_passes (?rs ! b) d (starts ! b))) (snd (dedup_passes (?rs ! b) d (starts ! b)))"
    if b: "b < length ?rs" for b d
  proof -
    have b': "b < length rows" using b len by simp
    have "dedup_input N compact (counts ! b) (rows ! b)" using assms(2) b' by simp
    from passes_inv[OF dedup_start(1)[OF this], of d] show ?thesis
      unfolding nth[OF b'] by (auto simp: dedup_inv_def split: prod.splits)
  qed
  have at: "progs_at max_d stride ?rs starts ?s"
    using assms(1,4) nth lanes unfolding progs_at_def len
    by (simp add: prog_at_def start_prog_def dedup_passes_def)
  have run: "progs_at max_d stride ?rs starts (dedup_run max_d stride ?rs sched ?s)
    \<and> (\<forall>c<length ?rs. dp_pc (snd (dedup_run max_d stride ?rs sched ?s) ! c)
          = min (3 * max_d) (dp_pc (snd ?s ! c) + count_list sched c))"
    by (rule run_at[OF at _ ok]) (use assms(3,5) lanes len nth(3) in \<open>simp_all add: start_prog_def\<close>)
  show ?thesis
  proof (intro allI impI)
    fix b assume b: "b < length rows"
    let ?p = "snd (dedup_run max_d stride ?rs sched ?s) ! b"
    have pc: "dp_pc ?p = 3 * max_d" using run b len nth(3)[OF b] assms(6) by (simp add: start_prog_def)
    have "prog_at (?rs ! b) max_d (starts ! b) (b * stride) (fst (dedup_run max_d stride ?rs sched ?s)) ?p"
      using run b len by (simp add: progs_at_def)
    note fin = prog_at_done[OF this pc, symmetric]
    have "?p = \<lparr>dp_pc = 3 * max_d, dp_parents = fst (dedup_passes (?rs ! b) max_d (starts ! b)),
        dp_lps = snd (dedup_passes (?rs ! b) max_d (starts ! b))\<rparr>" using pc unfolding fin by simp
    then show "finish_row (counts ! b) ?p (rows ! b) = dedup_out N compact max_d (counts ! b) (rows ! b)"
      unfolding dedup_out_def nth(1,2)[OF b] by (simp add: case_prod_beta)
  qed
qed

section \<open>Scores with a clear sign bit\<close>

text \<open>
  The conditions on a row without the one on the signs of the scores.  The order of the sort depends
  on the live nodes only, so its facts carry over from a row with the same live nodes and negative scores.
\<close>

definition dedup_shape :: "dedup_row \<Rightarrow> int list \<Rightarrow> f32 list \<Rightarrow> bool" where
  "dedup_shape r parents lps \<longleftrightarrow> dr_n r \<le> dr_lanes r \<and> dr_lanes r \<le> 2 ^ 14 \<and> length parents = dr_lanes r \<and> dr_n r \<le> length lps
     \<and> (\<forall>i<dr_n r. - 1 \<le> parents ! i \<and> parents ! i < int (dr_n r) \<and> 0 \<le> dr_tokens r ! i \<and> dr_tokens r ! i < 2 ^ 32)
     \<and> (\<forall>d. length (filter (\<lambda>i. dr_depths r ! i = d) [0..<dr_n r]) \<le> dr_compact r)"

definition signed_scores :: "f32 list \<Rightarrow> f32 list" where
  "signed_scores lps = map (\<lambda>x. if x = f32_neg_inf then x else 0x80000000) lps"

lemma signed_scores:
  assumes "dedup_shape r parents lps"
  shows "dedup_ok r parents (signed_scores lps)" "at_depth r (signed_scores lps) = at_depth r lps"
    "sorted_packed r parents (signed_scores lps) = sorted_packed r parents lps" "dedup_at r (signed_scores lps) = dedup_at r lps"
proof -
  have e: "signed_scores lps ! i = f32_neg_inf \<longleftrightarrow> lps ! i = f32_neg_inf" if "i < length lps" for i
    using that by (simp add: signed_scores_def f32_neg_inf_def)
  show ok: "dedup_ok r parents (signed_scores lps)"
    using assms e by (simp add: dedup_shape_def dedup_ok_def) (simp add: signed_scores_def)
  show at: "dedup_at r (signed_scores lps) = dedup_at r lps"
    using assms e by (intro ext) (auto simp: dedup_at_def tl_load_def dedup_shape_def)
  show "at_depth r (signed_scores lps) = at_depth r lps" "sorted_packed r parents (signed_scores lps) = sorted_packed r parents lps"
    by (intro ext, simp add: at_depth_def sorted_packed_def at)+
qed

lemma combine_neg:
  assumes "uint lp < 2 ^ 31" "pid < 2 ^ 32"
  shows "combine lp pid < 0"
proof -
  have u: "0 \<le> uint lp" "uint lp < 2 ^ 32" using uint_lt2p[of lp] by simp_all
  have "and (sint lp) low_mask = take_bit 32 (signed_take_bit 31 (uint lp))" by (simp add: and_low sint_uint)
  also have "\<dots> = take_bit 32 (uint lp)" by (rule take_bit_signed_take_bit) simp
  also have "\<dots> = uint lp" using u by (simp add: take_bit_int_eq_self)
  finally have bits: "and (sint lp) low_mask = uint lp" .
  have pid: "and (xor (int pid) low_mask) low_mask = low_mask - int pid"
    using assms(2) by (simp add: xor_low and_low take_bit_int_eq_self)
  have "i64 (push_bit 32 (low_mask - uint lp)) = i64 ((- 1 - uint lp) * 2 ^ 32 + 2 ^ 64)" by (simp add: push_bit_eq_mult)
  also have "\<dots> = i64 ((- 1 - uint lp) * 2 ^ 32)"
  proof -
    have "(2 :: int) ^ 64 = 2 ^ Suc 63" by simp
    then have "take_bit (Suc 63) ((- 1 - uint lp) * 2 ^ 32 + 2 ^ 64) = take_bit (Suc 63) ((- 1 - uint lp) * 2 ^ 32 :: int)"
      by (simp only: take_bit_eq_mod mod_add_self2)
    then show ?thesis unfolding i64_def by (rule signed_take_bit_eq_iff_take_bit_eq[THEN iffD2])
  qed
  also have "\<dots> = push_bit 32 (- 1 - uint lp)" unfolding push_bit_eq_mult
  proof (rule i64_id)
    have e: "(- 1 - uint lp) * 2 ^ 32 = - ((1 + uint lp) * 2 ^ 32)" by (simp add: algebra_simps)
    have "(1 + uint lp) * 2 ^ 32 \<le> 2 ^ 31 * 2 ^ 32" by (rule mult_right_mono) (use assms(1) in simp_all)
    then show "- (2 ^ 63) \<le> (- 1 - uint lp) * 2 ^ 32" unfolding e by simp
    have "- ((1 + uint lp) * 2 ^ 32) \<le> 0" using u by (simp only: neg_le_0_iff_le) simp
    then show "(- 1 - uint lp) * 2 ^ 32 < 2 ^ 63" unfolding e by (rule le_less_trans) simp
  qed
  finally have "combine lp pid = (- 1 - uint lp) * 2 ^ 32 + (low_mask - int pid)"
    unfolding combine_def Let_def bits pid xor_low[OF u] using assms(2) by (simp add: or_high)
  moreover have "(- 1 - uint lp) * 2 ^ 32 \<le> - low_mask - 1" using mult_right_mono[of "- 1 - uint lp" "- 1" "2 ^ 32"] u by simp
  ultimately show ?thesis by (simp only: add_less_zeroD)
qed

text \<open>The maximum of a group, whatever the signs of its words.\<close>

lemma group_max:
  fixes key comb :: "nat \<Rightarrow> int"
  assumes mono: "\<And>j k. j \<le> k \<Longrightarrow> k < n \<Longrightarrow> key j \<le> key k" and pos: "\<And>j. j < n \<Longrightarrow> 0 \<le> key j"
    and fits: "n \<le> c" and j: "j < n"
  defines "F \<equiv> (\<lambda>j. key j \<noteq> (if 0 < j \<and> j < n then key (j - 1) else - 1) \<and> j < n)"
  defines "grp \<equiv> (\<lambda>j. lane_count F j - 1)"
  defines "winners \<equiv> fold (\<lambda>j w. if j < n then w[grp j := max (w ! grp j) (comb j)] else w) [0..<c] (replicate c 0)"
  shows "winners ! grp j = Max (insert 0 (comb ` {k. k < n \<and> key k = key j}))"
proof -
  have same: "grp k = grp j \<longleftrightarrow> key k = key j" if "k < n" for k
    unfolding grp_def F_def by (rule group_iff(1)[of n key]) (use mono pos that j in simp_all)
  have small: "grp k < c" if "k < n" for k
  proof -
    have "grp k \<le> k" unfolding grp_def F_def by (rule group_iff(2)[of n key]) (use mono pos that in simp_all)
    then show ?thesis using that fits by simp
  qed
  have "comb ` {k. k < c \<and> k < n \<and> grp k = grp j} = comb ` {k. k < n \<and> key k = key j}"
    using same fits by (intro image_cong) auto
  then show ?thesis
    using j atomic_max_nth[of c "\<lambda>j. j < n" grp c "grp j" comb] small by (simp add: winners_def)
qed

lemma unsigned_mark:
  assumes shape: "dedup_shape r parents lps" and i: "i \<in> set (at_depth r lps d)" "uint (lps ! i) < 2 ^ 31"
  shows "mk_lps (dedup_mark r parents lps d) ! i = f32_neg_inf"
    "\<forall>k\<in>set (at_depth r lps d). node_key r parents k = node_key r parents i \<longrightarrow> uint (lps ! k) < 2 ^ 31 \<Longrightarrow>
     dr_lanes r \<le> length buf \<Longrightarrow>
     fold (\<lambda>(i, v) b. b[i := v]) (mk_states (dedup_mark r parents lps d)) buf ! i = 2 ^ 32 + low_mask"
proof -
  note ok = signed_scores(1)[OF shape] and same = signed_scores(2-4)[OF shape]
  define L where "L = at_depth r lps d"
  define S where "S = sorted_packed r parents lps d"
  define pid where "pid j = nat (S ! j smod (int (dr_lanes r) + 1))" for j
  define key where "key j = S ! j sdiv (int (dr_lanes r) + 1)" for j
  define n where "n = length L"
  note places = sorted_places[OF ok, where d = d, unfolded same, folded L_def S_def, folded pid_def key_def, folded n_def]
  define F where "F j \<longleftrightarrow> key j \<noteq> (if 0 < j \<and> j < n then key (j - 1) else - 1) \<and> j < n" for j
  define comb where "comb j = combine (tl_load (j < n) lps (pid j) f32_neg_inf) (pid j)" for j
  define grp where "grp j = lane_count F j - 1" for j
  define winners where "winners = fold (\<lambda>j w. if j < n then w[grp j := max (w ! grp j) (comb j)] else w)
     [0..<dr_compact r] (replicate (dr_compact r) 0)"
  define winner where "winner j = tl_load (j < n) winners (grp j) 0" for j
  define loses where "loses j \<longleftrightarrow> j < n \<and> comb j \<noteq> winner j" for j
  define state where "state j = or (push_bit 32 (of_bool (loses j))) (and (xor (and (winner j) low_mask) low_mask) low_mask)" for j
  have fits: "n \<le> dr_compact r" using at_depth_fits[OF ok, of d] by (simp add: n_def L_def same)
  have mark: "dedup_mark r parents lps d = \<lparr>mk_states = map (\<lambda>j. (pid j, state j)) [0..<n],
      mk_lps = tl_store (dr_compact r) loses pid (\<lambda>_. f32_neg_inf) lps\<rparr>"
    unfolding dedup_mark_def Let_def S_def[symmetric] pid_def[symmetric] key_def[symmetric]
      L_def[unfolded at_depth_def, symmetric] n_def[symmetric] F_def[symmetric] grp_def[symmetric] comb_def[symmetric]
      winners_def[symmetric] winner_def[symmetric] loses_def[symmetric] state_def[symmetric] filter_below[OF fits] ..
  have node: "k < dr_n r \<and> k < dr_lanes r \<and> k < length lps \<and> k < 2 ^ 32" if "k \<in> set L" for k
    using at_depth_set[OF ok, of d] that shape unfolding same L_def[symmetric] by (auto simp: dedup_shape_def)
  obtain j where j: "j < n" "pid j = i" using i(1) places(4) unfolding L_def[symmetric] by (metis imageE lessThan_iff)
  have key: "0 \<le> key k" if "k < n" for k
    using places(2)[OF that] packed_key_eq(2)[OF ok] node[OF places(1)[OF that]] by simp
  have comb: "comb k = combine (lps ! pid k) (pid k)" if "k < n" for k using that by (simp add: comb_def tl_load_def)
  have max: "winner j = Max (insert 0 (comb ` {k. k < n \<and> key k = key j}))"
  proof -
    have "winner j = winners ! grp j" using j(1) by (simp add: winner_def tl_load_def)
    then show ?thesis unfolding winners_def grp_def F_def
      using group_max[of n key "dr_compact r" j comb] places(5) key fits j(1) by simp
  qed
  have "comb j < 0" using comb[OF j(1)] combine_neg[OF i(2)] node i(1) by (simp add: j(2) L_def)
  moreover have "0 \<le> winner j" unfolding max by (intro Max_ge) simp_all
  ultimately have l: "loses j" using j(1) by (simp add: loses_def)
  have inj: "inj_on pid {l. l < dr_compact r \<and> loses l}" using places(3) by (rule inj_on_subset) (auto simp: loses_def)
  show "mk_lps (dedup_mark r parents lps d) ! i = f32_neg_inf"
    using tl_store_hit[OF inj, of j lps "\<lambda>_. f32_neg_inf"] l j fits node[of i] i(1) by (simp add: mark L_def)
  assume all: "\<forall>k\<in>set (at_depth r lps d). node_key r parents k = node_key r parents i \<longrightarrow> uint (lps ! k) < 2 ^ 31"
    and buf: "dr_lanes r \<le> length buf"
  have "x \<le> 0" if "x \<in> insert 0 (comb ` {k. k < n \<and> key k = key j})" for x
  proof -
    have "comb k < 0" if k: "k < n" "key k = key j" for k
    proof -
      have "node_key r parents (pid k) = node_key r parents i" using places(2)[OF k(1)] places(2)[OF j(1)] k(2) j(2) by simp
      then have "uint (lps ! pid k) < 2 ^ 31" using all places(1)[OF k(1)] by (simp add: L_def)
      then show ?thesis unfolding comb[OF k(1)] using node[OF places(1)[OF k(1)]] by (intro combine_neg) simp_all
    qed
    then show ?thesis using that by fastforce
  qed
  then have "winner j = 0" unfolding max by (intro Max_eqI) auto
  then have st: "state j = 2 ^ 32 + low_mask" using l by (simp add: state_def)
  have val: "state k = state (inv_into {..<n} pid (pid k))" if "k < n" for k using inv_into_f_f[OF places(3), of k] that by simp
  have fit: "0 + a < length buf" if "a \<in> set L" for a using node[OF that] buf by simp
  from fold_states[where v = "\<lambda>a. state (inv_into {..<n} pid a)", OF places(3,4) fit val]
  have "fold (\<lambda>(i, v) b. b[i := v]) (map (\<lambda>j. (pid j, state j)) [0..<n]) buf ! i
      = (if i \<in> set L then state (inv_into {..<n} pid i) else buf ! i)" by simp
  then show "fold (\<lambda>(i, v) b. b[i := v]) (mk_states (dedup_mark r parents lps d)) buf ! i = 2 ^ 32 + low_mask"
    using i(1) val[OF j(1)] st by (simp add: mark L_def j(2))
qed

section \<open>Properties\<close>

definition merge_row :: raw_row where
  "merge_row = \<lparr>rr_tokens = [10, 11, 11, 12], rr_parents = [- 1, 0, 0, 1],
     rr_lps = [0xBF000000, 0xC0000000, 0xBF800000, 0xC0400000]\<rparr>"

lemma merge_row_input: "dedup_input 4 4 4 merge_row"
  by code_simp

text \<open>
  C6.  The merge of duplicate paths is correct, on every raw tree that the conditions of
  \<open>dedup_input\<close> admit.  They are not checked by the code: at most 16384 places (the packed key),
  parents and tokens within range; every live node has a finite score with its sign bit set,
  strictly below that of its live parent, and reaches the root within 20 links; no depth has more
  nodes than the compact table has places; and two live nodes without a parent have different
  tokens (depth 0 is not merged; the top-k of the first slot gives distinct tokens).  Then, for
  every number of merged depths: the result is again a raw tree (every live node reaches the root
  within 20 links and scores below its live parent), no token path has changed, a score is either
  unchanged or \<open>- inf\<close>, every path that was alive still has a live node with a score at least as
  good, and no two live nodes of depth at most the limit spell the same path.
\<close>

theorem dedup_merges_paths:
  assumes "dedup_input N compact n row"
  shows "let out = dedup_out N compact max_d n row in
      raw_ok_row n (rr_parents out) (rr_lps out)
    \<and> (\<forall>i<n. row_path out i = row_path row i)
    \<and> (\<forall>i<n. rr_lps out ! i = rr_lps row ! i \<or> rr_lps out ! i = f32_neg_inf)
    \<and> (\<forall>i<n. alive (rr_lps row) i \<longrightarrow> (\<exists>w<n. alive (rr_lps out) w \<and> row_path out w = row_path row i
         \<and> f32_key (rr_lps row ! i) \<le> f32_key (rr_lps out ! w)))
    \<and> (\<forall>i<n. \<forall>j<n. alive (rr_lps out) i \<and> alive (rr_lps out) j \<and> length (row_path out i) \<le> Suc max_d
         \<and> row_path out i = row_path out j \<longrightarrow> i = j)"
  using merges_paths[OF assms, of max_d] unfolding Let_def by blast

theorem dedup_merges_paths_witness: "raw_ok_row 4 (rr_parents (dedup_out 4 4 3 4 merge_row)) (rr_lps (dedup_out 4 4 3 4 merge_row))"
  using dedup_merges_paths[OF merge_row_input, of 3] by (simp add: Let_def)

text \<open>
  The launch is free of races when the parts of the table are inside it and disjoint, or there is one row.  For every schedule that
  interleaves the programs at their barriers and lets each finish, the row each program leaves is the one
  that its passes compute alone, whatever the table held before.
\<close>

theorem dedup_launch_any_schedule:
  assumes "length counts = length rows" "\<forall>b<length rows. dedup_input N compact (counts ! b) (rows ! b)"
    and "length rows \<le> 1 \<or> N \<le> stride" "\<forall>b<length rows. b * stride + N \<le> length table"
    and "set sched \<subseteq> {..<length rows}" "\<forall>b<length rows. 3 * max_d \<le> count_list sched b"
  shows "\<forall>b<length rows.
      finish_row (counts ! b)
        (snd (dedup_run max_d stride (map2 (load_row N compact) counts rows) sched (table, map2 (start_prog N) counts rows)) ! b)
        (rows ! b)
      = dedup_out N compact max_d (counts ! b) (rows ! b)"
  by (rule launch_any_schedule[OF assms])

theorem dedup_launch_any_schedule_witness:
  "finish_row 4 (snd (dedup_run 1 4 [load_row 4 4 4 merge_row] [0, 0, 0] ([9, 9, 9, 9], [start_prog 4 4 merge_row])) ! 0) merge_row
    = dedup_out 4 4 1 4 merge_row"
  using dedup_launch_any_schedule[of "[4]" "[merge_row]" 4 4 4 "[9, 9, 9, 9]" "[0, 0, 0]" 1] merge_row_input by simp
text \<open>
  C32.  A path the draft is certain of is dropped.  The comparison of scores is a signed maximum
  against 0, and a score of \<open>+ 0\<close> (or any word with a clear sign bit) is combined to a negative
  word.  For every row within the bounds of the packed keys, whatever its scores, and the pass over
  any depth: every node of that depth with such a score is masked, with or without a duplicate; and
  when no live node of its group (same parent, same token) has its sign bit set, the empty place
  wins, and every child of the node is moved to the place 4294967295, which does not exist.
\<close>

theorem dedup_drops_certain_path:
  assumes "dedup_shape r parents lps"
    and "i < dr_n r" "dr_depths r ! i = d" "uint (lps ! i) < 2 ^ 31"
  shows "snd (pass_result r d (parents, lps)) ! i = f32_neg_inf
    \<and> ((\<forall>k<dr_n r. dr_depths r ! k = d \<and> alive lps k \<and> parents ! k = parents ! i \<and> dr_tokens r ! k = dr_tokens r ! i
            \<longrightarrow> uint (lps ! k) < 2 ^ 31)
        \<longrightarrow> (\<forall>c<dr_n r. parents ! c = int i \<longrightarrow> fst (pass_result r d (parents, lps)) ! c = 4294967295))"
proof -
  note ok = signed_scores(1)[OF assms(1)]
  have alive: "alive lps i" using assms(4) by (auto simp: f32_neg_inf_def)
  have set: "set (at_depth r lps d) = {i. i < dr_n r \<and> dr_depths r ! i = d \<and> alive lps i}"
    using at_depth_set[OF ok, of d] assms(1) unfolding signed_scores(2)[OF assms(1)]
    by (auto simp: dedup_shape_def signed_scores_def f32_neg_inf_def split: if_splits)
  have i: "i \<in> set (at_depth r lps d)" using set assms(2,3) alive by simp
  note mark = unsigned_mark[OF assms(1) i assms(4)]
  have "fst (pass_result r d (parents, lps)) ! c = 4294967295"
    if all: "\<forall>k<dr_n r. dr_depths r ! k = d \<and> alive lps k \<and> parents ! k = parents ! i \<and> dr_tokens r ! k = dr_tokens r ! i
            \<longrightarrow> uint (lps ! k) < 2 ^ 31" and c: "c < dr_n r" "parents ! c = int i" for c
  proof -
    have "\<forall>k\<in>set (at_depth r lps d). node_key r parents k = node_key r parents i \<longrightarrow> uint (lps ! k) < 2 ^ 31"
      using all set node_key_eq[OF ok _ assms(2)] by auto
    from mark(2)[OF this, of "replicate (dr_lanes r) 0"]
    have t: "fold (\<lambda>(i, v) b. b[i := v]) (mk_states (dedup_mark r parents lps d)) (replicate (dr_lanes r) 0) ! i = 2 ^ 32 + low_mask"
      by simp
    have "c < length parents" using c(1) assms(1) by (simp add: dedup_shape_def)
    moreover have "drop_bit 32 (2 ^ 32 + low_mask) \<noteq> 0" "and (2 ^ 32 + low_mask) low_mask = 4294967295" by (simp_all add: drop_bit_eq_div and_low take_bit_eq_mod)
    ultimately show ?thesis using c t by (simp add: pass_result_def Let_def redirect_def)
  qed
  then show ?thesis using mark(1) by (simp add: pass_result_def Let_def)
qed

definition certain_row :: raw_row where
  "certain_row = \<lparr>rr_tokens = [10, 11, 12], rr_parents = [- 1, 0, 1], rr_lps = [0, 0, 0xBF800000]\<rparr>"

lemma certain_row_shape: "dedup_shape (load_row 4 4 3 certain_row) (dedup_parents 4 3 (rr_parents certain_row)) (rr_lps certain_row)"
proof -
  have "length (filter P [0..<3]) \<le> 4" for P :: "nat \<Rightarrow> bool" using length_filter_le[of P "[0..<3]"] by simp
  moreover have "\<forall>i<3. - 1 \<le> [- 1, 0, 1, - 1 :: int] ! i \<and> [- 1, 0, 1, - 1 :: int] ! i < 3
      \<and> 0 \<le> [10, 11, 12 :: int] ! i \<and> [10, 11, 12 :: int] ! i < 4294967296" by code_simp
  ultimately show ?thesis
    by (simp add: dedup_shape_def load_row_def certain_row_def dedup_parents_def tl_load_def upt_rec)
qed

theorem dedup_drops_certain_path_witness:
  "let out = pass_result (load_row 4 4 3 certain_row) 1 (dedup_parents 4 3 (rr_parents certain_row), rr_lps certain_row)
   in snd out ! 1 = f32_neg_inf \<and> fst out ! 2 = 4294967295"
proof -
  let ?r = "load_row 4 4 3 certain_row" and ?ps = "dedup_parents 4 3 (rr_parents certain_row)"
  have c: "1 < dr_n ?r" "2 < dr_n ?r" "dr_depths ?r ! 1 = 1" "uint (rr_lps certain_row ! 1) < 2 ^ 31" "?ps ! 2 = int 1"
    "\<forall>k<dr_n ?r. dr_depths ?r ! k = 1 \<and> alive (rr_lps certain_row) k \<and> ?ps ! k = ?ps ! 1
        \<and> dr_tokens ?r ! k = dr_tokens ?r ! 1 \<longrightarrow> uint (rr_lps certain_row ! k) < 2 ^ 31"
    by code_simp+
  from dedup_drops_certain_path[OF certain_row_shape c(1,3,4)] c(2,5,6) show ?thesis unfolding Let_def by blast
qed

definition overlap_row :: raw_row where
  "overlap_row = \<lparr>rr_tokens = [10, 11, 11, 12, 0], rr_parents = [- 1, 0, 0, 1, 0],
     rr_lps = [0xBF000000, 0xC0000000, 0xBF800000, 0xC0400000, 0]\<rparr>"

definition overlap_out :: raw_row where
  "overlap_out = (let N = next_power_of_2 5 in
     finish_row 4 (snd (dedup_run 1 5 (replicate 2 (load_row N N 4 overlap_row)) [1, 1, 0, 1, 0, 0]
       (replicate (2 * N) 0, replicate 2 (start_prog N 4 overlap_row))) ! 1) overlap_row)"

definition blank_out :: "nat \<Rightarrow> fixed_out" where
  "blank_out N = \<lparr>fo_tokens = replicate N 0, fo_parents = replicate N 0, fo_topo = replicate N 0, fo_lps = replicate N 0,
     fo_depth = replicate N 0, fo_positions = replicate N 0, fo_mask = replicate (N * N) False,
     fo_retrieve_index = replicate N 0, fo_next_token = replicate N 0, fo_next_sibling = replicate N 0\<rparr>"

lemma blank_shape: "out_shape N (blank_out N)"
  by (simp add: out_shape_def blank_out_def)

definition overlap_tree :: fixed_out where
  "overlap_tree = finalize_one_block_fixed_kernel 3 1 overlap_out [0, 2, 3] [True, True, True] 7 50 (blank_out 4)"

lemma overlap_out_eq:
  "overlap_out = overlap_row\<lparr>rr_lps := [0xBF000000, f32_neg_inf, 0xBF800000, 0xC0400000, 0]\<rparr>"
  by code_simp

text \<open>What the finalisation makes of such a row: the orphan hangs below the root, at depth 3.\<close>

lemma overlap_tree_orphan:
  "dedup_input (next_power_of_2 5) (next_power_of_2 5) 4 overlap_row
   \<and> rr_parents overlap_out = [- 1, 0, 0, 1, 0]
   \<and> rr_lps overlap_out = [0xBF000000, f32_neg_inf, 0xBF800000, 0xC0400000, 0]
   \<and> fo_topo overlap_tree = [- 1, 0, 1, 0] \<and> fo_depth overlap_tree = [0, 1, 2, 3]"
proof -
  have tree: "overlap_tree = fixed_result 3 1 overlap_out [0, 2, 3] [True, True, True] 7 50"
    unfolding overlap_tree_def by (rule kernel_result) (simp_all add: blank_shape)
  have ps: "rr_parents overlap_out = [- 1, 0, 0, 1, 0]" by (simp add: overlap_out_eq overlap_row_def)
  have "fo_topo overlap_tree = fixed_topo 4 [- 1, 0, 0, 1, 0] [0, 2, 3] [True, True, True]"
    "fo_depth overlap_tree = map (\<lambda>l. depth_walk fixed_max_depth [- 1, 0, 0, 1, 0] (lane_kept 4 [0, 2, 3] l)
       (lane_keep 4 [True, True, True] l) 0) [0..<4]"
    by (simp_all add: tree fixed_result_def Let_def ps)
  moreover have "fixed_topo 4 [- 1, 0, 0, 1, 0] [0, 2, 3] [True, True, True] = [- 1, 0, 1, 0]" by code_simp
  moreover have "map (\<lambda>l. depth_walk fixed_max_depth [- 1, 0, 0, 1, 0] (lane_kept 4 [0, 2, 3] l)
       (lane_keep 4 [True, True, True] l) 0) [0..<4] = [0, 1, 2, 3]"
  proof -
    have "length (raw_path fixed_max_depth [- 1, 0, 0, 1, 0] 0) = 1" "length (raw_path fixed_max_depth [- 1, 0, 0, 1, 0] 2) = 2"
      "length (raw_path fixed_max_depth [- 1, 0, 0, 1, 0] 3) = 3" by code_simp+
    then show ?thesis by (simp add: upt_rec lane_kept_def lane_keep_def tl_load_def depth_walk_path)
  qed
  moreover have "dedup_input (next_power_of_2 5) (next_power_of_2 5) 4 overlap_row" by code_simp
  ultimately show ?thesis by (simp add: overlap_out_eq overlap_row_def)
qed

text \<open>
  Two programs whose parts of the table overlap, in the schedule in which program 0 clears its part
  between the mark and the redirection of program 1.  The places that both parts share read 0, so
  the children of the nodes there are not moved.
\<close>

lemma overlap_run:
  assumes ok: "dedup_ok r (dp_parents p) (dp_lps p)" and lanes: "dr_lanes r0 = N" "dr_lanes r = N"
    and pc: "dp_pc p0 = 0" "dp_pc p = 0" "0 < max_d" and fit: "stride + N \<le> length table"
  defines "q \<equiv> snd (dedup_run max_d stride [r0, r] [1, 1, 0, 1] (table, [p0, p])) ! 1"
  shows "dp_lps q = mk_lps (dedup_mark r (dp_parents p) (dp_lps p) 1)"
    "length (dp_parents q) = length (dp_parents p)"
    "\<And>c i. c < dr_n r \<Longrightarrow> dp_parents p ! c = int i \<Longrightarrow> i + stride < N \<Longrightarrow> dp_parents q ! c = int i"
proof -
  define t1 where "t1 = tl_store N (\<lambda>_. True) (\<lambda>i. stride + i) (\<lambda>_. 0) table"
  define m where "m = dedup_mark r (dp_parents p) (dp_lps p) 1"
  define t2 where "t2 = fold (\<lambda>(i, v) b. b[stride + i := v]) (mk_states m) t1"
  define t3 where "t3 = tl_store N (\<lambda>_. True) ((+) 0) (\<lambda>_. 0) t2"
  have q: "q = p\<lparr>dp_pc := 3, dp_lps := mk_lps m, dp_parents := redirect (dr_n r) (\<lambda>i. t3 ! (stride + i)) (dp_parents p)\<rparr>"
  proof -
    let ?step = "dedup_step max_d stride [r0, r]" and ?p = "p\<lparr>dp_pc := 2, dp_lps := mk_lps m\<rparr>"
    have md: "\<not> 3 * max_d \<le> 0" "\<not> 3 * max_d \<le> 1" "\<not> 3 * max_d \<le> 2" using pc(3) by simp_all
    have "?step 1 (table, [p0, p]) = (t1, [p0, p\<lparr>dp_pc := 1\<rparr>])"
      using md by (simp add: dedup_step_def dedup_part_def pc lanes t1_def)
    moreover have "?step 1 (t1, [p0, p\<lparr>dp_pc := 1\<rparr>]) = (t2, [p0, ?p])"
      using md by (simp add: dedup_step_def dedup_part_def t2_def m_def Let_def)
    moreover have "?step 0 (t2, [p0, ?p]) = (t3, [p0\<lparr>dp_pc := 1\<rparr>, ?p])"
      using md by (simp add: dedup_step_def dedup_part_def pc lanes t3_def)
    moreover have "?step 1 (t3, [p0\<lparr>dp_pc := 1\<rparr>, ?p]) = (t3, [p0\<lparr>dp_pc := 1\<rparr>, ?p\<lparr>dp_pc := 3, dp_parents := redirect (dr_n r) (\<lambda>i. t3 ! (stride + i)) (dp_parents p)\<rparr>])"
      using md by (simp add: dedup_step_def dedup_part_def)
    ultimately show ?thesis unfolding q_def dedup_run_def by simp
  qed
  have len: "length t2 = length table" by (simp add: t2_def t1_def length_fold_update)
  show "dp_lps q = mk_lps (dedup_mark r (dp_parents p) (dp_lps p) 1)" "length (dp_parents q) = length (dp_parents p)"
    by (simp_all add: q m_def redirect_def)
  fix c i assume c: "c < dr_n r" "dp_parents p ! c = int i" "i + stride < N"
  have "t3 ! (stride + i) = 0" using table_reset[of 0 N t2 "stride + i"] len fit c(3) by (simp add: t3_def add_0_left[abs_def])
  moreover have "c < length (dp_parents p)" using c(1) ok by (simp add: dedup_ok_def)
  ultimately show "dp_parents q ! c = int i" using c(1,2) by (simp add: q redirect_def)
qed

text \<open>
  C33.  With the shared table of the code the launch is not free of races.  Rows are as wide as the
  raw capacity and the table is addressed by the row width, but a program clears the next power of
  two of that width (1024 lanes for the 769 places of production, so that the first 255 places of a
  row are cleared by the program before it).  For every raw row that the merge treats correctly on
  its own, and every node \<open>i\<close> of depth 1 in the shared places that loses against a better duplicate
  \<open>j\<close> and has a live child \<open>c\<close>: in the schedule where program 0 clears its part between the mark and
  the redirection of program 1, the node is masked but its child stays with it, alive, and the row
  is no longer a raw tree, whereas the merge alone moves the child to a live node.
\<close>

theorem dedup_overlap_orphans:
  assumes "dedup_input N compact n row" "stride + N \<le> length table" "0 < max_d" "dr_lanes r0 = N" "dp_pc p0 = 0"
    and "i < n" "i + stride < N" "dedup_depths N n (rr_parents row) ! i = 1" "alive (rr_lps row) i"
    and "j < n" "alive (rr_lps row) j" "rr_parents row ! j = rr_parents row ! i" "rr_tokens row ! j = rr_tokens row ! i"
    and "f32_key (rr_lps row ! i) < f32_key (rr_lps row ! j)"
    and "c < n" "rr_parents row ! c = int i" "alive (rr_lps row) c" "dedup_depths N n (rr_parents row) ! c = 2"
  defines "out \<equiv> finish_row n (snd (dedup_run max_d stride [r0, load_row N compact n row] [1, 1, 0, 1]
      (table, [p0, start_prog N n row])) ! 1) row"
  shows "\<not> alive (rr_lps out) i \<and> rr_parents out ! c = int i \<and> alive (rr_lps out) c
    \<and> \<not> raw_ok_row n (rr_parents out) (rr_lps out)
    \<and> (let alone = dedup_out N compact 1 n row
       in rr_parents alone ! c \<noteq> int i \<and> 0 \<le> rr_parents alone ! c \<and> alive (rr_lps alone) (nat (rr_parents alone ! c)))"
proof -
  define r ps lps where "r = load_row N compact n row" and "ps = dedup_parents N n (rr_parents row)" and "lps = rr_lps row"
  define p where "p = start_prog N n row"
  note start = dedup_start[OF assms(1), folded r_def ps_def lps_def]
  note ok = dedup_invD(1)[OF start(1)]
  have r: "dr_n r = n" "dr_lanes r = N" "dr_tokens r = rr_tokens row" "dr_depths r = dedup_depths N n (rr_parents row)"
    and p: "dp_parents p = ps" "dp_lps p = lps" "dp_pc p = 0" by (simp_all add: r_def load_row_def p_def start_prog_def ps_def lps_def)
  have n: "n \<le> N" "n \<le> length (rr_parents row)" "n \<le> length lps" "length ps = N" "N \<le> 2 ^ 14"
    using assms(1) by (simp_all add: dedup_input_def lps_def ps_def dedup_parents_def)
  have ps: "ps ! k = rr_parents row ! k" if "k < n" for k using start(2) that by simp
  obtain win where win: "\<forall>i\<in>set (at_depth r lps 1). wins r ps lps 1 i (win i)"
    and mk: "mk_lps (dedup_mark r ps lps 1) = map (\<lambda>i. if i \<in> set (at_depth r lps 1) \<and> win i \<noteq> i then f32_neg_inf else lps ! i) [0..<length lps]"
    by (rule mark_spec[OF ok])
  have set: "k \<in> set (at_depth r lps 1) \<longleftrightarrow> k < n \<and> dr_depths r ! k = 1 \<and> alive lps k" for k
    using at_depth_set[OF ok, of 1] by (simp add: r)
  have i: "i \<in> set (at_depth r lps 1)" unfolding set unfolding r lps_def using assms(6,8,9) by blast
  have c: "c \<notin> set (at_depth r lps 1)" unfolding set unfolding r using assms(18) by simp
  have "dr_depths r ! j = 1"
  proof -
    have "0 \<le> rr_parents row ! i"
    proof (rule ccontr)
      have stay: "dedup_walk m (rr_parents row) i k = k" if "rr_parents row ! i < 0" for m k using that by (induction m) simp_all
      assume "\<not> 0 \<le> rr_parents row ! i"
      then show False using assms(6,8) n(1) stay[of fixed_max_depth 0] by (simp add: dedup_depths_def)
    qed
    then have "dedup_walk fixed_max_depth (rr_parents row) j 0 = dedup_walk fixed_max_depth (rr_parents row) i 0"
      unfolding fixed_max_depth_Suc dedup_walk.simps using assms(12) by simp
    then show ?thesis using assms(6,8,10) n(1) by (simp add: r dedup_depths_def)
  qed
  then have j: "j \<in> set (at_depth r lps 1)" "node_key r ps j = node_key r ps i"
    unfolding set using assms(6,10-13) by (simp_all add: lps_def node_key_def ps r)
  have wi: "win i \<noteq> i"
  proof
    assume "win i = i"
    then have "wins r ps lps 1 i i" using win i by metis
    then show False using j assms(14) by (auto simp: wins_def lps_def)
  qed
  note w = win[rule_format, OF i]
  then have wset: "win i \<in> set (at_depth r lps 1)" and "node_key r ps (win i) = node_key r ps i" by (simp_all add: wins_def)
  then have "wins r ps lps 1 (win i) (win i)" using w by (simp add: wins_def)
  then have ww: "win (win i) = win i" using wins_unique win wset by blast
  let ?q = "snd (dedup_run max_d stride [r0, r] [1, 1, 0, 1] (table, [p0, p])) ! 1"
  note run = overlap_run[of r p r0 N p0 max_d stride table, unfolded p, OF ok assms(4) r(2) assms(5) refl assms(3,2)]
  have out: "out = finish_row n ?q row" by (simp add: out_def r_def p_def)
  have lens: "i < length lps" "c < length lps" "win i < length lps" "win i < n" using assms(6,15) n(3) wset set by auto
  have lp: "rr_lps out = mk_lps (dedup_mark r ps lps 1)" using run(1) by (simp add: out finish_row_def)
  have dead: "rr_lps out ! i = f32_neg_inf" unfolding lp mk using i wi lens(1) by simp
  have live: "rr_lps out ! c = lps ! c" unfolding lp mk using c lens(2) by simp
  have par: "rr_parents out ! c = int i"
    unfolding out using finish_row_nth[OF n(2), of ?q N c] run(2) run(3)[of c i] n(1,4) assms(7,15,16) ps r(1) by simp
  have "\<not> raw_ok_row n (rr_parents out) (rr_lps out)"
  proof
    assume raw: "raw_ok_row n (rr_parents out) (rr_lps out)"
    then have "f32_isfinite (rr_lps out ! c)" "f32_key (rr_lps out ! c) < f32_key f32_neg_inf"
      using assms(15,17) par dead live by (auto simp: raw_ok_row_def lps_def)
    then show False using finite_above_neg_inf by fastforce
  qed
  moreover have "rr_parents alone ! c = int (win i) \<and> alive (rr_lps alone) (win i)" if alone: "alone = dedup_out N compact 1 n row" for alone
  proof -
    have "dedup_passes r 1 (ps, lps) = pass_result r 1 (ps, lps)" using dedup_passes_Suc[of r 0] by (simp add: dedup_passes_def)
    moreover obtain v where v: "\<forall>i\<in>set (at_depth r lps 1). wins r ps lps 1 i (v i)"
      "pass_result r 1 (ps, lps) = (moved r lps 1 v ps, masked r lps 1 v)" by (rule pass_result_eq[OF ok])
    moreover have vi: "v i = win i" "v (win i) = win i" using v(1) i wset w win ww wins_unique by metis+
    ultimately have al: "alone = finish_row n \<lparr>dp_pc = 3, dp_parents = moved r lps 1 v ps, dp_lps = masked r lps 1 v\<rparr> row"
      unfolding alone dedup_out_def r_def[symmetric] ps_def[symmetric] lps_def[symmetric] by simp
    have "rr_parents alone ! c = moved r lps 1 v ps ! c"
      unfolding al using finish_row_nth[OF n(2), of "\<lparr>dp_pc = 3, dp_parents = moved r lps 1 v ps, dp_lps = masked r lps 1 v\<rparr>" N c] n(1,4) assms(15)
      by (simp add: moved_def)
    also have "\<dots> = int (win i)" using assms(15,16) n(1,4) i ps vi(1) by (simp add: moved_def r)
    finally have "rr_parents alone ! c = int (win i)" .
    moreover have "rr_lps alone ! win i = lps ! win i" using lens(3) vi(2) by (simp add: al finish_row_def masked_def)
    moreover have "alive lps (win i)" using wset set by simp
    ultimately show ?thesis by simp
  qed
  ultimately show ?thesis using dead par live assms(17) wi by (simp add: Let_def lps_def)
qed

theorem dedup_overlap_orphans_witness:
  "let out = finish_row 4 (snd (dedup_run 1 5 [load_row 8 8 4 overlap_row, load_row 8 8 4 overlap_row] [1, 1, 0, 1]
      (replicate 16 7, [start_prog 8 4 overlap_row, start_prog 8 4 overlap_row])) ! 1) overlap_row
   in \<not> alive (rr_lps out) 1 \<and> rr_parents out ! 3 = 1 \<and> alive (rr_lps out) 3 \<and> \<not> raw_ok_row 4 (rr_parents out) (rr_lps out)
     \<and> rr_parents (dedup_out 8 8 1 4 overlap_row) ! 3 \<noteq> 1"
proof -
  have inp: "dedup_input 8 8 4 overlap_row" by code_simp
  have d: "dedup_depths 8 4 (rr_parents overlap_row) ! 1 = 1" "dedup_depths 8 4 (rr_parents overlap_row) ! 3 = 2"
    "alive (rr_lps overlap_row) 1" "alive (rr_lps overlap_row) 2" "alive (rr_lps overlap_row) 3"
    "rr_parents overlap_row ! 2 = rr_parents overlap_row ! 1" "rr_tokens overlap_row ! 2 = rr_tokens overlap_row ! 1"
    "f32_key (rr_lps overlap_row ! 1) < f32_key (rr_lps overlap_row ! 2)" "rr_parents overlap_row ! 3 = int 1"
    by code_simp+
  have c: "dr_lanes (load_row 8 8 4 overlap_row) = 8" "dp_pc (start_prog 8 4 overlap_row) = 0"
    "5 + 8 \<le> length (replicate 16 (7 :: int))" "(0 :: nat) < 1" "(1 :: nat) < 4" "(1 :: nat) + 5 < 8" "(2 :: nat) < 4" "(3 :: nat) < 4"
    by (simp_all add: load_row_def start_prog_def)
  show ?thesis
    using dedup_overlap_orphans[OF inp c(3,4,1,2,5,6) d(1,3) c(7) d(4,6-8) c(8) d(9,5,2)] by (simp add: Let_def)
qed

end
