(* ===== verification/Fixed_Finalize.thy ===== *)
theory Fixed_Finalize
  imports Dedup_Rows
begin

text \<open>
  The driver of the fixed-width finalisation (\<open>finalize_one_block_fixed_batched\<close>,
  \<open>pack_fixed_tree_outputs\<close>): its guards, the merge of duplicate paths, the selection of the best
  nodes of every row and the two finalisation routes; and the sizes of the buffers it is called with.
\<close>

section \<open>The driver\<close>

text \<open>
  The rows of the launch: \<open>counts\<close> are the raw node counts, \<open>stride\<close> is the width of the raw buffers and
  \<open>table\<close> the shared scratch; \<open>sched\<close> is the order in which the device interleaves the programs.
\<close>

definition dedup_compact_n :: "nat \<Rightarrow> nat \<Rightarrow> nat \<Rightarrow> nat" where
  "dedup_compact_n budget raw_capacity dedup_depth =
     (if budget = 89 \<and> raw_capacity = 769 \<and> dedup_depth = 8 then 256 else next_power_of_2 raw_capacity)"

definition dedup_rows ::
    "nat \<Rightarrow> nat \<Rightarrow> nat \<Rightarrow> nat \<Rightarrow> nat list \<Rightarrow> int list \<Rightarrow> nat list \<Rightarrow> raw_row list \<Rightarrow> raw_row list" where
  "dedup_rows budget raw_capacity dedup_depth stride sched table counts rows =
     (let N = next_power_of_2 raw_capacity; compact = dedup_compact_n budget raw_capacity dedup_depth;
          progs = snd (dedup_run dedup_depth stride (map2 (load_row N compact) counts rows) sched
                        (table, map2 (start_prog N) counts rows))
      in map (\<lambda>b. finish_row (counts ! b) (progs ! b) (rows ! b)) [0..<length rows])"

definition pack_fixed_tree_outputs :: "nat \<Rightarrow> nat \<Rightarrow> fixed_out list \<Rightarrow> fixed_out list res" where
  "pack_fixed_tree_outputs batch_capacity active_bs outs =
     (if \<not> (0 < active_bs \<and> active_bs \<le> batch_capacity) then Inl RuntimeError else Inr (take active_bs outs))"

definition finalize_one_block_fixed_batched ::
    "(nat \<Rightarrow> int list \<Rightarrow> nat list) \<Rightarrow> bool \<Rightarrow> nat list \<Rightarrow> int list \<Rightarrow> nat \<Rightarrow> raw_row list \<Rightarrow> nat list \<Rightarrow> int list
      \<Rightarrow> nat \<Rightarrow> nat \<Rightarrow> nat option \<Rightarrow> nat \<Rightarrow> int list option \<Rightarrow> fixed_out list \<Rightarrow> fixed_out list res" where
  "finalize_one_block_fixed_batched topk metax sched table stride rows counts samples budget raw_capacity active
      dedup_depth seq_lens outs =
     (let B = length samples; active_bs = (case active of None \<Rightarrow> B | Some a \<Rightarrow> a) in
      if \<not> (0 < active_bs \<and> active_bs \<le> B) then Inl RuntimeError
      else if (case seq_lens of None \<Rightarrow> False | Some s \<Rightarrow> length s \<noteq> B) then Inl RuntimeError
      else if \<not> (0 < dedup_depth \<and> dedup_depth \<le> fixed_max_depth) then Inl RuntimeError
      else
        (let lens = (case seq_lens of None \<Rightarrow> replicate B 0 | Some s \<Rightarrow> s);
             merged = dedup_rows budget raw_capacity dedup_depth stride sched table counts rows;
             finalize = (if metax then finalize_one_block_fixed_metax else finalize_one_block_fixed_kernel);
             outs' = map (\<lambda>b. let (kept, valid) = select_kept topk budget raw_capacity (counts ! b) (rr_lps (merged ! b))
                              in finalize budget b (merged ! b) kept valid (samples ! b) (lens ! b) (outs ! b)) [0..<B]
         in pack_fixed_tree_outputs B active_bs outs'))"

lemma dedup_rows_out:
  assumes "length counts = length rows"
    and "\<forall>b<length rows. dedup_input (next_power_of_2 raw_capacity) (dedup_compact_n budget raw_capacity dedup_depth) (counts ! b) (rows ! b)"
    and "length rows \<le> 1 \<or> next_power_of_2 raw_capacity \<le> stride" "\<forall>b<length rows. b * stride + next_power_of_2 raw_capacity \<le> length table"
    and "set sched \<subseteq> {..<length rows}" "\<forall>b<length rows. 3 * dedup_depth \<le> count_list sched b" "b < length rows"
  shows "dedup_rows budget raw_capacity dedup_depth stride sched table counts rows ! b
    = dedup_out (next_power_of_2 raw_capacity) (dedup_compact_n budget raw_capacity dedup_depth) dedup_depth (counts ! b) (rows ! b)"
  using launch_any_schedule[OF assms(1-6)] assms(7) by (simp add: dedup_rows_def Let_def)

section \<open>The selected tree\<close>

text \<open>What the selection keeps of a merged row: the best live nodes, closed under parents.\<close>

lemma selected_best:
  assumes topk: "topk_op topk" and n: "raw_n \<le> length lps" "raw_n \<le> raw_capacity" and raw: "raw_ok_row raw_n ps lps"
    and sel: "select_kept topk budget raw_capacity raw_n lps = (kept, valid)"
  shows "kept_ok ps kept valid" "length kept = budget" "length valid = budget"
    "\<forall>c<budget. valid ! c \<longleftrightarrow> kept ! c < raw_n \<and> alive lps (kept ! c)"
    "\<forall>i<raw_n. alive lps i \<and> i \<notin> set kept \<longrightarrow> (\<forall>c<budget. valid ! c \<and> f32_key (lps ! i) \<le> f32_key (lps ! (kept ! c)))"
proof -
  note sf = select_kept_facts[OF topk n sel]
  show "kept_ok ps kept valid" by (rule select_kept_ok[OF topk n raw sel])
  show "length kept = budget" "length valid = budget" by (rule sf)+
  have fin: "f32_isfinite (lps ! i) \<longleftrightarrow> alive lps i" if "i < raw_n" for i using raw that by (auto simp: raw_ok_row_def)
  show v: "\<forall>c<budget. valid ! c \<longleftrightarrow> kept ! c < raw_n \<and> alive lps (kept ! c)" using sf(5) fin by blast
  show "\<forall>i<raw_n. alive lps i \<and> i \<notin> set kept \<longrightarrow> (\<forall>c<budget. valid ! c \<and> f32_key (lps ! i) \<le> f32_key (lps ! (kept ! c)))"
  proof (intro allI impI, elim conjE)
    fix i c assume i: "i < raw_n" "alive lps i" "i \<notin> set kept" and c: "c < budget"
    note le = sf(7)[OF c i(1,3)]
    have "f32_key f32_neg_inf < f32_key (lps ! i)" using finite_above_neg_inf fin i by blast
    then have "kept ! c < raw_n \<and> alive lps (kept ! c)" using le by (auto split: if_splits)
    then show "valid ! c \<and> f32_key (lps ! i) \<le> f32_key (lps ! (kept ! c))" using le v c by simp
  qed
qed

section \<open>The sizes of the buffers\<close>

text \<open>
  The bound of the nodes of block 1, and the widths with which \<open>build_tree_batched_gpu\<close> calls the driver when there is
  one block: the raw buffers are as wide as two blocks need, the capacity is that of one.
\<close>

definition max_block1_structural_nodes :: "nat \<Rightarrow> nat \<Rightarrow> nat list \<Rightarrow> nat" where
  "max_block1_structural_nodes K beam_width rank_slot_topk =
     (let max_rank_topk = Max (set rank_slot_topk) in K + (beam_width - 1) + (K - 1) * (max_rank_topk - 1) + 1)"

definition eager_widths :: "nat \<Rightarrow> nat \<Rightarrow> nat \<Rightarrow> nat \<times> nat" where
  "eager_widths K max_topk total_tokens =
     (let max_block1_nodes = K + K * (max_topk - 1) + 1;
          max_block2_nodes = max_block1_nodes * K * max_topk
      in (max_block1_nodes, max (total_tokens + 200) (max_block1_nodes + max_block2_nodes + 100)))"

text \<open>The places a program of the merge clears, and the length of the table for \<open>B\<close> rows.\<close>

definition dedup_cleared :: "nat \<Rightarrow> nat \<Rightarrow> nat \<Rightarrow> nat list" where
  "dedup_cleared raw_capacity stride b = map (\<lambda>i. b * stride + i) [0..<next_power_of_2 raw_capacity]"

definition dedup_table_length :: "nat \<Rightarrow> nat \<Rightarrow> nat" where
  "dedup_table_length raw_capacity B = B * next_power_of_2 raw_capacity"

lemma next_pow2_from_less: "1 \<le> n \<Longrightarrow> p < 2 * n \<Longrightarrow> next_pow2_from fuel p n < 2 * n"
  by (induction fuel p n rule: next_pow2_from.induct) auto

lemma next_power_of_2_less: "1 \<le> n \<Longrightarrow> next_power_of_2 n < 2 * n"
  unfolding next_power_of_2_def using next_pow2_from_less[of n 1 n] by simp

section \<open>Properties\<close>

text \<open>
  C5.  The driver returns the trees of the best merged nodes.  For every top-k operation and both
  finalisation routes; for one or more active requests and a merge depth between 1 and 20; for raw
  rows that fit the raw capacity and meet the conditions of \<open>dedup_input\<close>, which the code does not
  check (at most 16384 places, parents and tokens in range, every live node with a finite score
  with its sign bit set, strictly below its live parent's and within 20 links of the root, no
  depth wider than the compact table, different tokens on live nodes without a parent); and for
  every complete schedule of the merge over parts of the table that are disjoint and inside it
  (disjointness is void for one request): the driver succeeds with one tree per active request, its
  nodes are the live nodes of the merged row that are selected, with no live node left out that
  scores above one that is kept, and it is the tree that the finalisation kernel computes from a
  selection that contains the parents of its nodes.
\<close>

theorem finalize_batched_correct:
  assumes topk: "topk_op topk"
    and lens: "length counts = length rows" "length samples = length rows" "length outs = length rows" "length lens = length rows"
    and inputs: "\<forall>b<length rows. dedup_input (next_power_of_2 raw_capacity) (dedup_compact_n budget raw_capacity dedup_depth)
                   (counts ! b) (rows ! b) \<and> counts ! b \<le> raw_capacity \<and> out_shape (budget + 1) (outs ! b)"
    and table: "length rows \<le> 1 \<or> next_power_of_2 raw_capacity \<le> stride" "\<forall>b<length rows. b * stride + next_power_of_2 raw_capacity \<le> length table"
    and sched: "set sched \<subseteq> {..<length rows}" "\<forall>b<length rows. 3 * dedup_depth \<le> count_list sched b"
    and guards: "0 < active_bs" "active_bs \<le> length rows" "0 < dedup_depth" "dedup_depth \<le> fixed_max_depth"
  shows "\<exists>ts. finalize_one_block_fixed_batched topk metax sched table stride rows counts samples budget raw_capacity
        (Some active_bs) dedup_depth (Some lens) outs = Inr ts \<and> length ts = active_bs
    \<and> (\<forall>b<active_bs. let row = dedup_out (next_power_of_2 raw_capacity) (dedup_compact_n budget raw_capacity dedup_depth)
                              dedup_depth (counts ! b) (rows ! b); lps = rr_lps row
         in \<exists>kept valid. kept_ok (rr_parents row) kept valid \<and> length kept = budget
           \<and> ts ! b = finalize_one_block_fixed_kernel budget b row kept valid (samples ! b) (lens ! b) (outs ! b)
           \<and> (\<forall>c<budget. valid ! c \<longleftrightarrow> kept ! c < counts ! b \<and> alive lps (kept ! c))
           \<and> (\<forall>i<counts ! b. alive lps i \<and> i \<notin> set kept \<longrightarrow>
                (\<forall>c<budget. valid ! c \<and> f32_key (lps ! i) \<le> f32_key (lps ! (kept ! c)))))"
proof -
  let ?N = "next_power_of_2 raw_capacity" and ?C = "dedup_compact_n budget raw_capacity dedup_depth"
  let ?merged = "dedup_rows budget raw_capacity dedup_depth stride sched table counts rows"
  let ?fin = "if metax then finalize_one_block_fixed_metax else finalize_one_block_fixed_kernel"
  let ?tree = "\<lambda>b. let (kept, valid) = select_kept topk budget raw_capacity (counts ! b) (rr_lps (?merged ! b))
                   in ?fin budget b (?merged ! b) kept valid (samples ! b) (lens ! b) (outs ! b)"
  have run: "finalize_one_block_fixed_batched topk metax sched table stride rows counts samples budget raw_capacity
        (Some active_bs) dedup_depth (Some lens) outs = Inr (take active_bs (map ?tree [0..<length rows]))"
    using guards lens by (simp add: finalize_one_block_fixed_batched_def pack_fixed_tree_outputs_def Let_def)
  have tree: "let row = dedup_out ?N ?C dedup_depth (counts ! b) (rows ! b); lps = rr_lps row
         in \<exists>kept valid. kept_ok (rr_parents row) kept valid \<and> length kept = budget
           \<and> ?tree b = finalize_one_block_fixed_kernel budget b row kept valid (samples ! b) (lens ! b) (outs ! b)
           \<and> (\<forall>c<budget. valid ! c \<longleftrightarrow> kept ! c < counts ! b \<and> alive lps (kept ! c))
           \<and> (\<forall>i<counts ! b. alive lps i \<and> i \<notin> set kept \<longrightarrow>
                (\<forall>c<budget. valid ! c \<and> f32_key (lps ! i) \<le> f32_key (lps ! (kept ! c))))"
    if b: "b < length rows" for b
  proof -
    let ?row = "dedup_out ?N ?C dedup_depth (counts ! b) (rows ! b)"
    have inp: "dedup_input ?N ?C (counts ! b) (rows ! b)" "counts ! b \<le> raw_capacity" "out_shape (budget + 1) (outs ! b)"
      using inputs b by simp_all
    have row: "?merged ! b = ?row" by (rule dedup_rows_out) (use lens inputs table sched b in auto)
    have raw: "raw_ok_row (counts ! b) (rr_parents ?row) (rr_lps ?row)" and len: "counts ! b \<le> length (rr_lps ?row)"
      using merges_paths[OF inp(1), of dedup_depth] inp(1) by (simp_all add: Let_def dedup_input_def)
    obtain kept valid where sel: "select_kept topk budget raw_capacity (counts ! b) (rr_lps ?row) = (kept, valid)" by fastforce
    note best = selected_best[OF topk len inp(2) raw sel]
    have "?tree b = finalize_one_block_fixed_kernel budget b ?row kept valid (samples ! b) (lens ! b) (outs ! b)"
      using metax_result[OF best(2,3) inp(3)] kernel_result[OF best(2) inp(3)] by (simp add: row sel)
    then show ?thesis unfolding Let_def using best by blast
  qed
  show ?thesis unfolding run
    by (intro exI[of _ "take active_bs (map ?tree [0..<length rows])"] conjI refl allI impI)
      (use guards(2) tree in \<open>simp_all add: Let_def\<close>)
qed
lemma demo_driver_input:
  "dedup_input (next_power_of_2 4) (dedup_compact_n 2 4 1) 4 merge_row" "next_power_of_2 4 = 4"
  by code_simp+

theorem finalize_batched_correct_witness:
  "\<exists>ts. finalize_one_block_fixed_batched sort_topk True [0, 0, 0] [9, 9, 9, 9] 4 [merge_row] [4] [7] 2 4 (Some 1) 1 (Some [50])
      [blank_out 3] = Inr ts \<and> length ts = 1"
proof -
  have "\<forall>b<length [merge_row]. dedup_input (next_power_of_2 4) (dedup_compact_n 2 4 1) ([4] ! b) ([merge_row] ! b)
      \<and> [4] ! b \<le> (4 :: nat) \<and> out_shape (2 + 1) ([blank_out 3] ! b)"
    using demo_driver_input blank_shape[of 3] by (simp add: numeral_3_eq_3)
  from finalize_batched_correct[OF sorttopk.topk_op_axioms _ _ _ _ this, of "[7]" "[50]" 4 "[9, 9, 9, 9]" "[0, 0, 0]" 1 True]
  show ?thesis by (simp add: demo_driver_input(2) fixed_max_depth_def, blast)
qed

lemma table_facts:
  assumes "2 \<le> B" "1 \<le> capacity"
  shows "(\<forall>b<B. set (dedup_cleared capacity stride b) \<subseteq> {..<dedup_table_length capacity B})
       \<and> (\<forall>b<B. \<forall>c<B. b \<noteq> c \<longrightarrow> set (dedup_cleared capacity stride b) \<inter> set (dedup_cleared capacity stride c) = {})
     \<longleftrightarrow> stride = next_power_of_2 capacity"
    and "1 \<le> K \<Longrightarrow> 1 \<le> max_topk \<Longrightarrow> eager_widths K max_topk total_tokens = (cap, width) \<Longrightarrow>
      \<exists>a\<in>set (dedup_cleared cap width (B - 1)). dedup_table_length cap B \<le> a"
proof -
  have part: "set (dedup_cleared c s b) = {b * s..<b * s + next_power_of_2 c}" for c s b
  proof -
    have "set (dedup_cleared c s b) = (\<lambda>i. b * s + i) ` {0..<next_power_of_2 c}" by (simp add: dedup_cleared_def)
    then show ?thesis by (simp add: add.commute)
  qed
  have over: "\<exists>a\<in>set (dedup_cleared c s (B - 1)). dedup_table_length c B \<le> a" if c: "1 \<le> c" "next_power_of_2 c < s" for c s
  proof
    have N: "1 \<le> next_power_of_2 c" using next_power_of_2_le[of c] c by simp
    obtain k where B: "B = Suc (Suc k)" using assms(1) by (metis Suc_le_D numeral_2_eq_2 Suc_le_mono)
    have "Suc k * Suc (next_power_of_2 c) \<le> Suc k * s" using c(2) by (intro mult_le_mono) simp_all
    then show "dedup_table_length c B \<le> (B - 1) * s + (next_power_of_2 c - 1)"
      using N by (simp add: dedup_table_length_def B)
    show "(B - 1) * s + (next_power_of_2 c - 1) \<in> set (dedup_cleared c s (B - 1))" unfolding part using N by simp
  qed
  show "(\<forall>b<B. set (dedup_cleared capacity stride b) \<subseteq> {..<dedup_table_length capacity B})
       \<and> (\<forall>b<B. \<forall>c<B. b \<noteq> c \<longrightarrow> set (dedup_cleared capacity stride b) \<inter> set (dedup_cleared capacity stride c) = {})
     \<longleftrightarrow> stride = next_power_of_2 capacity" (is "?in \<and> ?apart \<longleftrightarrow> _")
  proof
    assume safe: "?in \<and> ?apart"
    have "\<not> next_power_of_2 capacity < stride"
    proof
      assume "next_power_of_2 capacity < stride"
      moreover have "set (dedup_cleared capacity stride (B - 1)) \<subseteq> {..<dedup_table_length capacity B}" using safe assms(1) by simp
      ultimately show False using over[OF assms(2)] by (meson lessThan_iff not_less subsetD)
    qed
    moreover have "\<not> stride < next_power_of_2 capacity"
    proof
      assume "stride < next_power_of_2 capacity"
      then have "stride \<in> set (dedup_cleared capacity stride 0)" "stride \<in> set (dedup_cleared capacity stride 1)"
        unfolding part by simp_all
      moreover have "set (dedup_cleared capacity stride 0) \<inter> set (dedup_cleared capacity stride 1) = {}"
        using safe assms(1) by simp
      ultimately show False by blast
    qed
    ultimately show "stride = next_power_of_2 capacity" by simp
  next
    assume s: "stride = next_power_of_2 capacity"
    have end_le: "b * stride + stride \<le> c * stride" if "b < c" for b c using mult_le_mono1[of "Suc b" c stride] that by simp
    have ?in unfolding part dedup_table_length_def s[symmetric] using end_le by fastforce
    moreover have ?apart
    proof (intro allI impI)
      fix b c :: nat assume "b \<noteq> c"
      then show "set (dedup_cleared capacity stride b) \<inter> set (dedup_cleared capacity stride c) = {}"
        unfolding part s[symmetric] using end_le[of b c] end_le[of c b] by (cases "b < c") auto
    qed
    ultimately show "?in \<and> ?apart" ..
  qed
  assume K: "1 \<le> K" "1 \<le> max_topk" and w: "eager_widths K max_topk total_tokens = (cap, width)"
  let ?b1 = "K + K * (max_topk - 1) + 1"
  have cap: "cap = ?b1" and width: "?b1 + ?b1 * K * max_topk + 100 \<le> width" using w by (auto simp: eager_widths_def Let_def)
  have "?b1 * 1 * 1 \<le> ?b1 * K * max_topk" using K by (intro mult_le_mono) simp_all
  then have "2 * ?b1 \<le> width" using width by simp
  then have "next_power_of_2 cap < width" using next_power_of_2_less[of ?b1] cap by simp
  then show "\<exists>a\<in>set (dedup_cleared cap width (B - 1)). dedup_table_length cap B \<le> a" by (intro over) (simp_all add: cap)
qed

text \<open>
  C34.  The shared table of the merge is safe for a batch of two or more rows only when the rows are exactly as wide as
  the lanes: only then the parts that the programs clear are disjoint and inside the table.  The one-block
  call of \<open>build_tree_batched_gpu\<close> passes rows that are always wider, so its last program clears places
  beyond the end of the table.
\<close>

theorem dedup_table_safe_iff:
  assumes "2 \<le> B" "1 \<le> capacity" "1 \<le> K" "1 \<le> max_topk"
  shows "((\<forall>b<B. set (dedup_cleared capacity stride b) \<subseteq> {..<dedup_table_length capacity B})
       \<and> (\<forall>b<B. \<forall>c<B. b \<noteq> c \<longrightarrow> set (dedup_cleared capacity stride b) \<inter> set (dedup_cleared capacity stride c) = {})
     \<longleftrightarrow> stride = next_power_of_2 capacity)
    \<and> (\<exists>a\<in>set (dedup_cleared (fst (eager_widths K max_topk total_tokens)) (snd (eager_widths K max_topk total_tokens)) (B - 1)).
         dedup_table_length (fst (eager_widths K max_topk total_tokens)) B \<le> a)"
  using table_facts(1)[OF assms(1,2), of stride]
    table_facts(2)[OF assms(1,2,3,4), of total_tokens "fst (eager_widths K max_topk total_tokens)"] by simp

theorem dedup_table_safe_iff_witness:
  "set (dedup_cleared 4 4 0) \<inter> set (dedup_cleared 4 4 1) = {}
    \<and> (\<exists>a\<in>set (dedup_cleared (fst (eager_widths 4 10 60)) (snd (eager_widths 4 10 60)) 1).
         dedup_table_length (fst (eager_widths 4 10 60)) 2 \<le> a)"
proof -
  have "next_power_of_2 4 = 4" by code_simp
  then show ?thesis using dedup_table_safe_iff[of 2 4 4 10 4 60] by simp
qed

end
