(* ===== verification/Eager_Finalize.thy ===== *)
theory Eager_Finalize
  imports Tree_Buffers Fixed_Tree "HOL-Library.Product_Lexorder" "HOL-Library.Multiset"
begin

text \<open>
  The finalisation of raw trees whose sizes the host knows (\<open>gpu_prune_tree\<close>, \<open>finalize_tree_gpu\<close>,
  \<open>gpu_prune_tree_batched\<close>, \<open>finalize_tree_gpu_batched\<close> and \<open>pad_tree_gpu\<close> of
  \<open>specblock_tree_kernels.py\<close>).  A raw tree lists parents before children, -1 marks a child of the root.  The best
  nodes by score are kept and closed under ancestors by one program per node, then renumbered; the kernels of
  \<open>Tree_Buffers\<close>, which both engines share, give depths, mask and retrieve rows.
\<close>

section \<open>Root paths of raw nodes\<close>

function up_path :: "int list \<Rightarrow> nat \<Rightarrow> nat list" where
  "up_path ps i = i # (if 0 \<le> ps ! i \<and> ps ! i < int i then up_path ps (nat (ps ! i)) else [])"
  by pat_completeness auto
termination by (relation "measure snd") auto

declare up_path.simps [simp del]

lemma up_path_self [simp]: "i \<in> set (up_path ps i)"
  by (subst up_path.simps) simp

lemma up_path_step:
  assumes "wf_parents ps" "i < length ps"
  shows "up_path ps i = i # (if 0 \<le> ps ! i then up_path ps (nat (ps ! i)) else [])"
  using wf_parentsD[OF assms] by (subst up_path.simps) simp

lemma up_path_le: "j \<in> set (up_path ps i) \<Longrightarrow> j \<le> i"
proof (induction ps i rule: up_path.induct)
  case (1 ps i)
  then show ?case by (subst (asm) (2) up_path.simps) (fastforce split: if_splits)
qed

lemma up_path_trans: "j \<in> set (up_path ps i) \<Longrightarrow> set (up_path ps j) \<subseteq> set (up_path ps i)"
proof (induction ps i rule: up_path.induct)
  case (1 ps i)
  show ?case
  proof (cases "j = i")
    case False
    then have c: "0 \<le> ps ! i \<and> ps ! i < int i" and j: "j \<in> set (up_path ps (nat (ps ! i)))"
      using "1.prems" by (subst (asm) up_path.simps, simp split: if_splits)+
    have "set (up_path ps (nat (ps ! i))) \<subseteq> set (up_path ps i)" using c by (subst (2) up_path.simps) auto
    then show ?thesis using "1.IH"[OF c j] by blast
  qed simp
qed

lemma up_path_shift:
  assumes "wf_parents ps" "i < length ps"
  shows "map Suc (up_path ps i) @ [0] = path_to_root (shift_parents ps) (Suc i)"
  using assms(2)
proof (induction i rule: less_induct)
  case (less i)
  let ?par = "shift_parents ps"
  have w: "- 1 \<le> ps ! i" "ps ! i < int i" using wf_parentsD[OF assms(1) less.prems] by auto
  have step: "path_to_root ?par (Suc i) = Suc i # path_to_root ?par (?par ! Suc i)"
    using path_to_root_step[OF wf_shift_parents[OF assms(1)], of "Suc i"] less.prems by (simp add: shift_parents_def)
  have par: "?par ! Suc i = (if 0 \<le> ps ! i then Suc (nat (ps ! i)) else 0)"
    using less.prems by (simp add: shift_parents_def nat_add_distrib)
  show ?case
  proof (cases "0 \<le> ps ! i")
    case True
    then have "nat (ps ! i) < i" "nat (ps ! i) < length ps" using w less.prems by auto
    from less.IH[OF this] show ?thesis using True by (simp add: step par up_path_step[OF assms(1) less.prems])
  qed (simp add: step par up_path_step[OF assms(1) less.prems])
qed

lemma length_up_path:
  assumes "wf_parents ps" "i < length ps"
  shows "length (up_path ps i) = node_depth (shift_parents ps) (Suc i)"
  unfolding node_depth_def up_path_shift[OF assms, symmetric] by simp

lemma shallow_nth: "shallow par \<Longrightarrow> i < length par \<Longrightarrow> node_depth par i \<le> MAX_TREE_DEPTH"
  by (simp add: shallow_def list_all_iff)

lemma length_shift_parents [simp]: "length (shift_parents ps) = Suc (length ps)"
  by (simp add: shift_parents_def)

lemma shallow_up_path:
  assumes "wf_parents ps" "shallow (shift_parents ps)" "i < length ps"
  shows "length (up_path ps i) \<le> MAX_TREE_DEPTH"
  unfolding length_up_path[OF assms(1,3)] by (rule shallow_nth[OF assms(2)]) (simp add: assms(3))

section \<open>The ancestor closure\<close>

text \<open>
  A program of \<open>_ancestor_closure_kernel\<close> reads the flag of its node, then takes one link per iteration,
  setting the flag of the node it stands on.  All programs share the flags, and a step of the launch is one
  iteration of one program.
\<close>

datatype closer = Ready | Walking int nat | Halted

definition closure_step :: "int list \<Rightarrow> nat \<Rightarrow> bool list \<times> closer list \<Rightarrow> bool list \<times> closer list" where
  "closure_step ps pid s =
     (let (keep, st) = s in
      case st ! pid of
        Ready \<Rightarrow> (keep, st[pid := (if keep ! pid then Walking (ps ! pid) MAX_TREE_DEPTH else Halted)])
      | Walking cur m \<Rightarrow>
          (case m of
             0 \<Rightarrow> (keep, st[pid := Halted])
           | Suc k \<Rightarrow> if 0 \<le> cur then (keep[nat cur := True], st[pid := Walking (ps ! nat cur) k])
                     else (keep, st[pid := Walking cur k]))
      | Halted \<Rightarrow> (keep, st))"

definition ancestor_closure :: "int list \<Rightarrow> nat list \<Rightarrow> bool list \<Rightarrow> bool list" where
  "ancestor_closure ps sched keep = fst (fold (closure_step ps) sched (keep, replicate (length ps) Ready))"

text \<open>Every program appears often enough to run to its end.\<close>

definition complete_sched :: "nat \<Rightarrow> nat list \<Rightarrow> bool" where
  "complete_sched n sched \<longleftrightarrow> set sched \<subseteq> {..<n} \<and> (\<forall>i<n. MAX_TREE_DEPTH + 2 \<le> count_list sched i)"

fun steps_left :: "closer \<Rightarrow> nat" where
  "steps_left Ready = MAX_TREE_DEPTH + 2"
| "steps_left (Walking cur m) = m + 1"
| "steps_left Halted = 0"

definition closed_set :: "int list \<Rightarrow> bool list \<Rightarrow> nat set" where
  "closed_set ps keep = (\<Union>i\<in>{i. i < length ps \<and> keep ! i}. set (up_path ps i))"

fun closer_ok :: "int list \<Rightarrow> bool list \<Rightarrow> bool list \<Rightarrow> nat \<Rightarrow> closer \<Rightarrow> bool" where
  "closer_ok ps keep0 keep i Ready = True"
| "closer_ok ps keep0 keep i (Walking cur m) =
     ((0 \<le> cur \<longrightarrow> nat cur \<in> closed_set ps keep0)
      \<and> (keep0 ! i \<longrightarrow> (0 \<le> cur \<longrightarrow> length (up_path ps (nat cur)) \<le> m)
           \<and> (\<forall>j\<in>set (up_path ps i). keep ! j \<or> 0 \<le> cur \<and> j \<in> set (up_path ps (nat cur)))))"
| "closer_ok ps keep0 keep i Halted = (keep0 ! i \<longrightarrow> (\<forall>j\<in>set (up_path ps i). keep ! j))"

definition closure_inv :: "int list \<Rightarrow> bool list \<Rightarrow> bool list \<times> closer list \<Rightarrow> bool" where
  "closure_inv ps keep0 s \<longleftrightarrow> length (fst s) = length ps \<and> length (snd s) = length ps
     \<and> (\<forall>j<length ps. fst s ! j \<longrightarrow> j \<in> closed_set ps keep0) \<and> (\<forall>j<length ps. keep0 ! j \<longrightarrow> fst s ! j)
     \<and> (\<forall>i<length ps. closer_ok ps keep0 (fst s) i (snd s ! i))"

lemma closed_set_less: "j \<in> closed_set ps keep \<Longrightarrow> j < length ps"
  using up_path_le by (fastforce simp: closed_set_def)

lemma closed_set_self: "i < length ps \<Longrightarrow> keep ! i \<Longrightarrow> i \<in> closed_set ps keep"
  by (auto simp: closed_set_def)

lemma closed_set_up: "j \<in> closed_set ps keep \<Longrightarrow> x \<in> set (up_path ps j) \<Longrightarrow> x \<in> closed_set ps keep"
  using up_path_trans by (fastforce simp: closed_set_def)

lemma closed_set_parent:
  assumes "wf_parents ps" "j \<in> closed_set ps keep" "0 \<le> ps ! j"
  shows "nat (ps ! j) \<in> closed_set ps keep"
  by (rule closed_set_up[OF assms(2)]) (simp add: up_path_step[OF assms(1) closed_set_less[OF assms(2)]] assms(3))

lemma closer_ok_mono:
  assumes "closer_ok ps keep0 keep i c" "\<And>j. keep ! j \<Longrightarrow> keep' ! j"
  shows "closer_ok ps keep0 keep' i c"
  using assms by (cases c) auto

lemma closure_step_inv:
  assumes wf: "wf_parents ps" and deep: "\<And>i. i < length ps \<Longrightarrow> length (up_path ps i) \<le> Suc MAX_TREE_DEPTH"
    and inv: "closure_inv ps keep0 s" and pid: "pid < length ps"
  shows "closure_inv ps keep0 (closure_step ps pid s)"
proof -
  obtain keep st where s: "s = (keep, st)" by (cases s)
  have len: "length keep = length ps" "length st = length ps"
    and sub: "\<And>j. j < length ps \<Longrightarrow> keep ! j \<Longrightarrow> j \<in> closed_set ps keep0"
    and seeds: "\<And>j. j < length ps \<Longrightarrow> keep0 ! j \<Longrightarrow> keep ! j"
    and each: "\<And>i. i < length ps \<Longrightarrow> closer_ok ps keep0 keep i (st ! i)"
    using inv by (auto simp: closure_inv_def s)
  have update: "closure_inv ps keep0 (keep', st[pid := c])"
    if "length keep' = length ps" "\<And>j. keep ! j \<Longrightarrow> keep' ! j" "\<And>j. j < length ps \<Longrightarrow> keep' ! j \<Longrightarrow> j \<in> closed_set ps keep0"
      "closer_ok ps keep0 keep' pid c" for keep' c
  proof -
    have "closer_ok ps keep0 keep' i (st[pid := c] ! i)" if "i < length ps" for i
      using closer_ok_mono[OF each[OF that]] \<open>\<And>j. keep ! j \<Longrightarrow> keep' ! j\<close> \<open>closer_ok ps keep0 keep' pid c\<close> that len
      by (cases "i = pid") simp_all
    then show ?thesis using that len seeds by (simp add: closure_inv_def)
  qed
  show ?thesis
  proof (cases "st ! pid")
    case Ready
    show ?thesis
    proof (cases "keep ! pid")
      case True
      have p: "0 \<le> ps ! pid \<longrightarrow> nat (ps ! pid) \<in> closed_set ps keep0"
        using closed_set_parent[OF wf sub[OF pid True]] by simp
      have "closer_ok ps keep0 keep pid (Walking (ps ! pid) MAX_TREE_DEPTH)"
        using p deep[OF pid] True by (auto simp: up_path_step[OF wf pid])
      then show ?thesis using update[of keep] True sub len by (simp add: s closure_step_def Ready)
    next
      case False
      have "closer_ok ps keep0 keep pid Halted" using seeds[OF pid] False by auto
      then show ?thesis using update[of keep] False sub len by (simp add: s closure_step_def Ready)
    qed
  next
    case (Walking cur m)
    note ok = each[OF pid, unfolded Walking]
    show ?thesis
    proof (cases m)
      case 0
      have "up_path ps (nat cur) \<noteq> []" by (subst up_path.simps) simp
      then have "closer_ok ps keep0 keep pid Halted" using ok 0 by auto
      then show ?thesis using update[of keep] sub len by (simp add: s closure_step_def Walking 0)
    next
      case (Suc k)
      show ?thesis
      proof (cases "0 \<le> cur")
        case True
        have c: "nat cur \<in> closed_set ps keep0" using ok True by simp
        have lt: "nat cur < length ps" by (rule closed_set_less[OF c])
        note path = up_path_step[OF wf lt]
        have "closer_ok ps keep0 (keep[nat cur := True]) pid (Walking (ps ! nat cur) k)"
          using ok True lt len Suc closed_set_parent[OF wf c] by (auto simp: path nth_list_update)
        moreover have "keep[nat cur := True] ! j \<Longrightarrow> j \<in> closed_set ps keep0" if "j < length ps" for j
          using sub[OF that] c by (cases "j = nat cur") simp_all
        ultimately show ?thesis using update[of "keep[nat cur := True]"] len lt True
          by (simp add: s closure_step_def Walking Suc nth_list_update)
      next
        case False
        have "closer_ok ps keep0 keep pid (Walking cur k)" using ok False by auto
        then show ?thesis using update[of keep] sub len False by (simp add: s closure_step_def Walking Suc)
      qed
    qed
  next
    case Halted
    then show ?thesis using inv by (simp add: s closure_step_def)
  qed
qed

lemma closure_step_left:
  assumes "length (snd s) = n" "pid < n"
  shows "steps_left (snd (closure_step ps pid s) ! i) \<le> steps_left (snd s ! i) - (if i = pid then 1 else 0)"
    "length (snd (closure_step ps pid s)) = n"
  using assms by (cases s; auto simp: closure_step_def split: closer.splits nat.splits)+

lemma closure_run:
  assumes wf: "wf_parents ps" and deep: "\<And>i. i < length ps \<Longrightarrow> length (up_path ps i) \<le> Suc MAX_TREE_DEPTH"
    and "closure_inv ps keep0 s" "set sched \<subseteq> {..<length ps}"
  shows "closure_inv ps keep0 (fold (closure_step ps) sched s)
    \<and> (\<forall>i<length ps. steps_left (snd (fold (closure_step ps) sched s) ! i) \<le> steps_left (snd s ! i) - count_list sched i)"
  using assms(3,4)
proof (induction sched arbitrary: s)
  case (Cons pid sched)
  have pid: "pid < length ps" using Cons.prems(2) by simp
  have inv: "closure_inv ps keep0 (closure_step ps pid s)" by (rule closure_step_inv[OF wf deep Cons.prems(1) pid])
  have "length (snd s) = length ps" using Cons.prems(1) by (simp add: closure_inv_def)
  note left = closure_step_left(1)[OF this pid, of ps]
  note IH = Cons.IH[OF inv]
  have "steps_left (snd (fold (closure_step ps) (pid # sched) s) ! i) \<le> steps_left (snd s ! i) - count_list (pid # sched) i"
    if "i < length ps" for i
  proof -
    have "steps_left (snd (fold (closure_step ps) sched (closure_step ps pid s)) ! i)
        \<le> steps_left (snd (closure_step ps pid s) ! i) - count_list sched i" using IH Cons.prems(2) that by simp
    then show ?thesis using left[of i] by (auto split: if_splits)
  qed
  then show ?case using IH Cons.prems(2) by simp
qed simp

lemma closure_start: "length keep = length ps \<Longrightarrow> closure_inv ps keep (keep, replicate (length ps) Ready)"
  by (simp add: closure_inv_def closed_set_self)

lemma ancestor_closure_spec:
  assumes wf: "wf_parents ps" and deep: "shallow (shift_parents ps)"
    and sched: "complete_sched (length ps) sched" and len: "length keep = length ps"
  shows "length (ancestor_closure ps sched keep) = length ps"
    "\<And>j. j < length ps \<Longrightarrow> ancestor_closure ps sched keep ! j \<longleftrightarrow> j \<in> closed_set ps keep"
proof -
  have "length (up_path ps i) \<le> Suc MAX_TREE_DEPTH" if "i < length ps" for i
    using shallow_up_path[OF wf deep that] by simp
  note run = closure_run[OF wf this closure_start[OF len], of sched]
  let ?s = "fold (closure_step ps) sched (keep, replicate (length ps) Ready)"
  have inv: "closure_inv ps keep ?s" using run sched by (simp add: complete_sched_def)
  then show "length (ancestor_closure ps sched keep) = length ps" by (simp add: closure_inv_def ancestor_closure_def)
  fix j assume j: "j < length ps"
  have "fst ?s ! j" if c: "j \<in> closed_set ps keep"
  proof -
    obtain i where i: "i < length ps" "keep ! i" "j \<in> set (up_path ps i)" using c by (auto simp: closed_set_def)
    have "steps_left (snd ?s ! i) \<le> MAX_TREE_DEPTH + 2 - count_list sched i" using run sched i(1) by (auto simp: complete_sched_def)
    then have "snd ?s ! i = Halted" using sched i(1) by (cases "snd ?s ! i") (auto simp: complete_sched_def)
    then show ?thesis using inv i by (fastforce simp: closure_inv_def)
  qed
  then show "ancestor_closure ps sched keep ! j \<longleftrightarrow> j \<in> closed_set ps keep"
    using inv j by (auto simp: closure_inv_def ancestor_closure_def)
qed

section \<open>Pruning and finalising one tree\<close>

record node_row = raw_row +
  nr_ranks :: "int list"
  nr_blocks :: "int list"
  nr_slots :: "int list"

definition gather_row :: "nat list \<Rightarrow> int list \<Rightarrow> node_row \<Rightarrow> node_row" where
  "gather_row ks parents row =
     \<lparr>rr_tokens = map (\<lambda>i. rr_tokens row ! i) ks, rr_parents = parents, rr_lps = map (\<lambda>i. rr_lps row ! i) ks,
      nr_ranks = map (\<lambda>i. nr_ranks row ! i) ks, nr_blocks = map (\<lambda>i. nr_blocks row ! i) ks,
      nr_slots = map (\<lambda>i. nr_slots row ! i) ks\<rparr>"

text \<open>The scattered numbering of the kept nodes, and the parents read through it.\<close>

definition renumber :: "nat \<Rightarrow> nat list \<Rightarrow> int list" where
  "renumber n kept = tl_store (length kept) (\<lambda>_. True) (\<lambda>j. kept ! j) int (replicate n (- 1))"

definition new_parents :: "nat \<Rightarrow> nat list \<Rightarrow> int list \<Rightarrow> int list" where
  "new_parents n kept ps = map (\<lambda>i. if 0 \<le> ps ! i then renumber n kept ! nat (max (ps ! i) 0) else - 1) kept"

definition gpu_prune_tree ::
    "(nat \<Rightarrow> int list \<Rightarrow> nat list) \<Rightarrow> nat list \<Rightarrow> nat \<Rightarrow> nat \<Rightarrow> node_row \<Rightarrow> (node_row \<times> nat) res" where
  "gpu_prune_tree topk sched n_nodes budget row =
     (if \<not> budget < n_nodes then Inl AssertionError
      else let top_idx = topk (min budget n_nodes) (map f32_key (take n_nodes (rr_lps row)));
               keep = map (\<lambda>i. i \<in> set top_idx) [0..<n_nodes];
               closed = ancestor_closure (take n_nodes (rr_parents row)) sched keep;
               kept = filter (\<lambda>i. closed ! i) [0..<n_nodes]
           in Inr (gather_row kept (new_parents n_nodes kept (rr_parents row)) row, length kept))"

record eager_tree =
  et_tokens :: "int list"
  et_parents :: "int list"
  et_depth :: "nat list"
  et_lps :: "f32 list"
  et_retrieve :: "int list list"
  et_mask :: "bool list list"

text \<open>
  The rows of the retrieve index are sorted by a 64-bit float, the weighted sum of a row in which -1
  stands for \<open>maxitem\<close>; the sum is the parameter \<open>row_key\<close>, and the sort is stable.
\<close>

definition finalize_tree_gpu ::
    "(nat \<Rightarrow> int list \<Rightarrow> nat list) \<Rightarrow> (int \<Rightarrow> int list \<Rightarrow> 'k::linorder) \<Rightarrow> nat list \<Rightarrow> nat \<Rightarrow> int \<Rightarrow> nat \<Rightarrow> node_row
      \<Rightarrow> eager_tree res" where
  "finalize_tree_gpu topk row_key sched n_nodes sample budget row =
     res_bind (if budget < n_nodes then gpu_prune_tree topk sched n_nodes budget row
               else Inr (gather_row [0..<n_nodes] (take n_nodes (rr_parents row)) row, n_nodes)) (\<lambda>(tn, N).
       let Np1 = N + 1; par = shift_parents (take N (rr_parents tn));
           dm = map (tree_depth_mask_kernel par) [0..<Np1]; depth = map fst dm;
           leaves = buffer_leaves par;
           ri = map (tree_retrieve_kernel par depth MAX_TREE_DEPTH) leaves
       in Inr \<lparr>et_tokens = sample # rr_tokens tn, et_parents = - 1 # rr_parents tn, et_depth = depth,
               et_lps = 0 # rr_lps tn, et_retrieve = sort_key (row_key (int Np1 + 5)) ri, et_mask = map snd dm\<rparr>)"

section \<open>The kept nodes\<close>

lemma renumber_nth:
  assumes "distinct kept" "set kept \<subseteq> {..<n}" "p < n"
  shows "renumber n kept ! p = old_to_new kept (int p)"
proof (cases "p \<in> set kept")
  case True
  then obtain j where j: "j < length kept" "kept ! j = p" by (auto simp: in_set_conv_nth)
  have inj: "inj_on (\<lambda>j. kept ! j) {l. l < length kept \<and> True}" using assms(1) by (auto simp: inj_on_def nth_eq_iff_index_eq)
  have "renumber n kept ! (kept ! j) = int j"
    unfolding renumber_def by (rule tl_store_hit[OF inj]) (use j assms(3) in simp_all)
  then show ?thesis using old_to_new_in[OF assms(1) j(1)] j(2) by simp
next
  case False
  have "renumber n kept ! p = replicate n (- 1) ! p"
    unfolding renumber_def by (rule tl_store_miss) (use False in \<open>auto dest: nth_mem\<close>)
  moreover have "old_to_new kept (int p) = - 1" by (rule old_to_new_out) (use False in auto)
  ultimately show ?thesis using assms(3) by simp
qed

lemma new_parents_compact:
  assumes "wf_parents (take m ps)" "distinct kept" "set kept \<subseteq> {..<m}" "m \<le> n" "m \<le> length ps"
  shows "new_parents n kept ps = compact_parents (take m ps) kept"
  unfolding new_parents_def compact_parents_def
proof (rule map_cong[OF refl])
  fix i assume "i \<in> set kept"
  then have i: "i < m" using assms(3) by auto
  have w: "- 1 \<le> ps ! i" "ps ! i < int i" using wf_parentsD[OF assms(1), of i] i assms(5) by auto
  have p: "take m ps ! i = ps ! i" using i by simp
  have sub: "set kept \<subseteq> {..<n}" using assms(3,4) by auto
  show "(if 0 \<le> ps ! i then renumber n kept ! nat (max (ps ! i) 0) else - 1) = old_to_new kept (take m ps ! i)"
  proof (cases "0 \<le> ps ! i")
    case True
    then have "nat (ps ! i) < n" using w i assms(4) by auto
    then show ?thesis using renumber_nth[OF assms(2) sub, of "nat (ps ! i)"] True p by (simp add: max_def)
  next
    case False
    have "old_to_new kept (ps ! i) = - 1" by (rule old_to_new_out) (use False in auto)
    then show ?thesis using False p by simp
  qed
qed

lemma prune_chain_up:
  assumes "wf_parents ps" "i < length ps"
  shows "prune_chain ps [] (int i) = Some (up_path ps i)"
  using assms(2)
proof (induction i rule: less_induct)
  case (less i)
  have w: "- 1 \<le> ps ! i" "ps ! i < int i" using wf_parentsD[OF assms(1) less.prems] by auto
  show ?case
  proof (cases "0 \<le> ps ! i")
    case True
    then have "nat (ps ! i) < i" "nat (ps ! i) < length ps" "int (nat (ps ! i)) = ps ! i" using w less.prems by auto
    with less.IH[of "nat (ps ! i)"] have "prune_chain ps [] (ps ! i) = Some (up_path ps (nat (ps ! i)))" by metis
    then show ?thesis by (simp add: prune_chain_step up_path_step[OF assms(1) less.prems] True)
  qed (simp add: prune_chain_step prune_chain_root up_path_step[OF assms(1) less.prems])
qed

lemma compact_up_path:
  assumes "wf_parents ps" "keep_inv ps b ks" "sorted ks" "j < length ks"
  shows "map (\<lambda>i. ks ! i) (up_path (compact_parents ps ks) j) = up_path ps (ks ! j)"
proof -
  have lt: "ks ! j < length ps" using assms(2,4) nth_mem by (fastforce simp: keep_inv_def)
  have "prune_chain (compact_parents ps ks) [] (int j) = Some (up_path (compact_parents ps ks) j)"
    by (rule prune_chain_up[OF wf_compact_parents[OF assms(1-3)]]) (simp add: compact_parents_def assms(4))
  with compact_chain_paths[OF assms] prune_chain_up[OF assms(1) lt] show ?thesis by simp
qed

lemma shallow_compact:
  assumes "wf_parents ps" "shallow (shift_parents ps)" "keep_inv ps b ks" "sorted ks"
  shows "shallow (shift_parents (compact_parents ps ks))"
proof -
  let ?cp = "compact_parents ps ks"
  have "node_depth (shift_parents ?cp) i \<le> MAX_TREE_DEPTH" if "i < Suc (length ks)" for i
  proof (cases i)
    case (Suc j)
    then have j: "j < length ks" using that by simp
    have wf: "wf_parents ?cp" "j < length ?cp" using wf_compact_parents[OF assms(1,3,4)] j by (simp_all add: compact_parents_def)
    have lt: "ks ! j < length ps" using assms(3) j nth_mem by (fastforce simp: keep_inv_def)
    have "length (up_path ?cp j) = length (up_path ps (ks ! j))"
      using compact_up_path[OF assms(1,3,4) j] by (metis length_map)
    then show ?thesis using shallow_up_path[OF assms(1,2) lt] length_up_path[OF wf] Suc by simp
  qed simp
  then show ?thesis by (simp add: shallow_def list_all_iff compact_parents_def del: upt_Suc)
qed

text \<open>A raw row of \<open>n\<close> nodes whose tree is within the depth bound.\<close>

definition eager_row_ok :: "nat \<Rightarrow> node_row \<Rightarrow> bool" where
  "eager_row_ok n row \<longleftrightarrow> n \<le> length (rr_tokens row) \<and> n \<le> length (rr_parents row) \<and> n \<le> length (rr_lps row)
     \<and> wf_parents (take n (rr_parents row)) \<and> shallow (shift_parents (take n (rr_parents row)))"

definition best_nodes :: "nat \<Rightarrow> nat \<Rightarrow> f32 list \<Rightarrow> nat list \<Rightarrow> bool" where
  "best_nodes n budget lps tops \<longleftrightarrow> distinct tops \<and> set tops \<subseteq> {..<n} \<and> length tops = budget
     \<and> (\<forall>i\<in>set tops. \<forall>j<n. j \<notin> set tops \<longrightarrow> f32_key (lps ! j) \<le> f32_key (lps ! i))"

lemma topk_best_nodes:
  assumes "topk_op topk" "budget \<le> n" "n \<le> length lps"
  shows "best_nodes n budget lps (topk budget (map f32_key (take n lps)))"
proof -
  let ?xs = "map f32_key (take n lps)"
  have k: "budget \<le> length ?xs" using assms(2,3) by simp
  note tops = topk_op.topk_length[OF assms(1) k] topk_op.topk_index[OF assms(1) k] topk_op.topk_distinct[OF assms(1) k]
  have "f32_key (lps ! j) \<le> f32_key (lps ! i)" if "i \<in> set (topk budget ?xs)" "j < n" "j \<notin> set (topk budget ?xs)" for i j
    using topk_op.topk_best[OF assms(1) k that(1) _ that(3)] tops(2)[OF that(1)] that(2) assms(3) by simp
  then show ?thesis using tops assms(3) by (auto simp: best_nodes_def)
qed

lemma closed_keep_inv:
  assumes "wf_parents ps" "ks = filter (\<lambda>i. i \<in> closed_set ps keep) [0..<length ps]"
  shows "keep_inv ps (length ps) ks" "sorted ks" "set ks = closed_set ps keep"
proof -
  show s: "set ks = closed_set ps keep" using closed_set_less by (auto simp: assms(2))
  have "ps ! i < 0 \<or> nat (ps ! i) \<in> set ks" if "i \<in> set ks" for i
    using closed_set_parent[OF assms(1), of i keep] that s by (cases "0 \<le> ps ! i") auto
  moreover have "length ks \<le> length ps" unfolding assms(2) by (metis length_filter_le length_upt minus_nat.diff_0)
  ultimately show "keep_inv ps (length ps) ks" by (auto simp: keep_inv_def anc_closed_def list_all_iff assms(2))
  show "sorted ks" by (simp add: assms(2) sorted_wrt_filter)
qed

lemma gpu_prune_tree_spec:
  assumes topk: "topk_op topk" and row: "eager_row_ok n row" and sched: "complete_sched n sched" and n: "budget < n"
  defines "ps \<equiv> take n (rr_parents row)"
  obtains ks tops where "gpu_prune_tree topk sched n budget row = Inr (gather_row ks (compact_parents ps ks) row, length ks)"
    "keep_inv ps n ks" "sorted ks" "best_nodes n budget (rr_lps row) tops" "set ks = (\<Union>i\<in>set tops. set (up_path ps i))"
    "tops = topk budget (map f32_key (take n (rr_lps row)))"
proof -
  have len: "length ps = n" "n \<le> length (rr_lps row)" and wf: "wf_parents ps" "shallow (shift_parents ps)"
    using row by (auto simp: eager_row_ok_def ps_def)
  define tops where "tops = topk budget (map f32_key (take n (rr_lps row)))"
  have best: "best_nodes n budget (rr_lps row) tops"
    unfolding tops_def by (rule topk_best_nodes[OF topk _ len(2)]) (use n in simp)
  define keep where "keep = map (\<lambda>i. i \<in> set tops) [0..<n]"
  define ks where "ks = filter (\<lambda>i. i \<in> closed_set ps keep) [0..<length ps]"
  note cl = ancestor_closure_spec[OF wf, unfolded len(1), OF sched, of keep]
  have kept: "filter (\<lambda>i. ancestor_closure ps sched keep ! i) [0..<n] = ks"
    unfolding ks_def len(1) using cl(2) by (intro filter_cong) (simp_all add: keep_def)
  note k = closed_keep_inv[OF wf(1) ks_def]
  have "{i. i < length ps \<and> keep ! i} = set tops" using best by (auto simp: keep_def len best_nodes_def)
  then have "closed_set ps keep = (\<Union>i\<in>set tops. set (up_path ps i))" by (simp add: closed_set_def)
  moreover have "new_parents n ks (rr_parents row) = compact_parents ps ks"
    unfolding ps_def by (rule new_parents_compact) (use k wf(1) row in \<open>auto simp: keep_inv_def len ps_def eager_row_ok_def\<close>)
  moreover have "gpu_prune_tree topk sched n budget row = Inr (gather_row ks (new_parents n ks (rr_parents row)) row, length ks)"
    unfolding gpu_prune_tree_def Let_def ps_def[symmetric] using n by (simp add: tops_def[symmetric] keep_def[symmetric] kept)
  ultimately show ?thesis using that[of ks tops] k best len by (simp add: tops_def)
qed

section \<open>The tree of a row\<close>

text \<open>What the kernels compute from a row within the depth bound, up to the order of the retrieve rows.\<close>

definition row_tree :: "(int list \<Rightarrow> 'k::linorder) \<Rightarrow> int \<Rightarrow> node_row \<Rightarrow> eager_tree" where
  "row_tree key sample row =
     (let par = shift_parents (rr_parents row); nodes = [0..<length par]
      in \<lparr>et_tokens = sample # rr_tokens row, et_parents = - 1 # rr_parents row, et_depth = map (node_depth par) nodes,
          et_lps = 0 # rr_lps row, et_retrieve = sort_key key (map (leaf_row par MAX_TREE_DEPTH) (buffer_leaves par)),
          et_mask = map (\<lambda>i. map (\<lambda>j. j \<in> set (path_to_root par i)) nodes) nodes\<rparr>)"

lemma kernels_spec:
  assumes "wf_par par" "shallow par"
  shows "map (tree_depth_mask_kernel par) [0..<length par]
      = map (\<lambda>i. (node_depth par i, map (\<lambda>j. j \<in> set (path_to_root par i)) [0..<length par])) [0..<length par]"
    "map (tree_retrieve_kernel par (map (node_depth par) [0..<length par]) MAX_TREE_DEPTH) (buffer_leaves par)
      = map (leaf_row par MAX_TREE_DEPTH) (buffer_leaves par)"
  using tree_depth_mask_kernel_correct[OF assms(1)] shallow_nth[OF assms(2)]
  by (auto intro!: tree_retrieve_kernel_correct[OF assms(1)] dest: buffer_leaves_less)

lemma finalize_row_tree:
  assumes "wf_parents (rr_parents tn)" "shallow (shift_parents (rr_parents tn))" "length (rr_parents tn) = N"
    and "(if budget < n then gpu_prune_tree topk sched n budget row
          else Inr (gather_row [0..<n] (take n (rr_parents row)) row, n)) = Inr (tn, N)"
  shows "finalize_tree_gpu topk row_key sched n sample budget row = Inr (row_tree (row_key (int N + 6)) sample tn)"
proof -
  let ?par = "shift_parents (rr_parents tn)"
  have wf: "wf_par ?par" using assms(1) by simp
  have len: "N + 1 = length ?par" using assms(3) by simp
  note k = kernels_spec[OF wf assms(2)]
  have fst: "map fst (map (tree_depth_mask_kernel ?par) [0..<length ?par]) = map (node_depth ?par) [0..<length ?par]"
    and snd: "map snd (map (tree_depth_mask_kernel ?par) [0..<length ?par])
      = map (\<lambda>i. map (\<lambda>j. j \<in> set (path_to_root ?par i)) [0..<length ?par]) [0..<length ?par]"
    unfolding k(1) by (simp_all add: comp_def del: upt_Suc length_shift_parents)
  have "take N (rr_parents tn) = rr_parents tn" using assms(3) by simp
  moreover have "int (length ?par) + 5 = int N + 6" using assms(3) by simp
  ultimately show ?thesis
    unfolding finalize_tree_gpu_def assms(4) res_bind_simps prod.case
    by (simp only: Let_def len fst snd k(2) row_tree_def)
qed

text \<open>The row that is finalised: the whole row, or the closure of its best nodes.\<close>

lemma finalized_row:
  assumes topk: "topk_op topk" and row: "eager_row_ok n row" and sched: "complete_sched n sched"
  defines "ps \<equiv> take n (rr_parents row)"
  obtains ks where "finalize_tree_gpu topk row_key sched n sample budget row
      = Inr (row_tree (row_key (int (length ks) + 6)) sample (gather_row ks (compact_parents ps ks) row))"
    "keep_inv ps n ks" "sorted ks" "n \<le> budget \<longrightarrow> ks = [0..<n]"
    "budget < n \<longrightarrow> best_nodes n budget (rr_lps row) (topk budget (map f32_key (take n (rr_lps row))))
       \<and> set ks = (\<Union>i\<in>set (topk budget (map f32_key (take n (rr_lps row)))). set (up_path ps i))"
proof -
  have len: "length ps = n" and wf: "wf_parents ps" "shallow (shift_parents ps)"
    using row by (auto simp: eager_row_ok_def ps_def)
  show ?thesis
  proof (cases "budget < n")
    case True
    obtain ks tops where p: "gpu_prune_tree topk sched n budget row = Inr (gather_row ks (compact_parents ps ks) row, length ks)"
      "keep_inv ps n ks" "sorted ks" "best_nodes n budget (rr_lps row) tops" "set ks = (\<Union>i\<in>set tops. set (up_path ps i))"
      "tops = topk budget (map f32_key (take n (rr_lps row)))"
      using gpu_prune_tree_spec[OF topk row sched True, folded ps_def] by metis
    have "finalize_tree_gpu topk row_key sched n sample budget row
      = Inr (row_tree (row_key (int (length ks) + 6)) sample (gather_row ks (compact_parents ps ks) row))"
      by (rule finalize_row_tree)
        (use p True wf_compact_parents[OF wf(1) p(2,3)] shallow_compact[OF wf p(2,3)]
          in \<open>simp_all add: gather_row_def compact_parents_def\<close>)
    then show ?thesis using that[of ks] p True by simp
  next
    case False
    have whole: "keep_inv ps n [0..<n]"
      using wf_parentsD[OF wf(1)] by (fastforce simp: keep_inv_def anc_closed_def list_all_iff len)
    have id: "compact_parents ps [0..<n] = ps"
    proof (rule nth_equalityI)
      fix i assume "i < length (compact_parents ps [0..<n])"
      then have i: "i < n" by (simp add: compact_parents_def)
      have w: "- 1 \<le> ps ! i" "ps ! i < int i" using wf_parentsD[OF wf(1), of i] i len by auto
      have "old_to_new [0..<n] (ps ! i) = ps ! i"
      proof (cases "0 \<le> ps ! i")
        case True
        then have "nat (ps ! i) < n" using w i by auto
        then show ?thesis using old_to_new_in[of "[0..<n]" "nat (ps ! i)"] True by simp
      next
        case False
        then have "ps ! i = - 1" using w by simp
        moreover have "old_to_new [0..<n] (- 1) = - 1" by (rule old_to_new_out) auto
        ultimately show ?thesis by simp
      qed
      then show "compact_parents ps [0..<n] ! i = ps ! i" using i by (simp add: compact_parents_def)
    qed (simp add: compact_parents_def len)
    have "finalize_tree_gpu topk row_key sched n sample budget row
      = Inr (row_tree (row_key (int n + 6)) sample (gather_row [0..<n] ps row))"
      by (rule finalize_row_tree) (use False wf len in \<open>simp_all add: gather_row_def ps_def\<close>)
    then show ?thesis using that[of "[0..<n]"] whole id False by simp
  qed
qed

section \<open>Pruning a batch\<close>

text \<open>
  \<open>gpu_prune_tree_batched\<close> keeps the best nodes without closing them.  The rows of one launch have a common width,
  and the positions beyond a row score \<open>- inf\<close>.
\<close>

definition prune_row_batched :: "(nat \<Rightarrow> int list \<Rightarrow> nat list) \<Rightarrow> nat \<Rightarrow> nat \<Rightarrow> nat \<Rightarrow> node_row \<Rightarrow> node_row" where
  "prune_row_batched topk budget max_n n row =
     (let scores = map (\<lambda>i. if i < n then rr_lps row ! i else f32_neg_inf) [0..<max_n];
          kept_idx = sort (topk budget (map f32_key scores))
      in gather_row kept_idx (new_parents max_n kept_idx (rr_parents row)) row)"

definition gpu_prune_tree_batched ::
    "(nat \<Rightarrow> int list \<Rightarrow> nat list) \<Rightarrow> nat \<Rightarrow> nat list \<Rightarrow> node_row list \<Rightarrow> nat list \<Rightarrow> node_row list" where
  "gpu_prune_tree_batched topk budget n_nodes rows prune_rows =
     (if prune_rows = [] then []
      else let max_n = Max (set (map (\<lambda>r. n_nodes ! r) prune_rows))
           in map (\<lambda>r. prune_row_batched topk budget max_n (n_nodes ! r) (rows ! r)) prune_rows)"

text \<open>Finite scores that never grow along an edge and are all different.\<close>

definition clear_scores :: "nat \<Rightarrow> node_row \<Rightarrow> bool" where
  "clear_scores n row \<longleftrightarrow> (\<forall>i<n. f32_isfinite (rr_lps row ! i)
     \<and> (0 \<le> rr_parents row ! i \<longrightarrow> f32_key (rr_lps row ! i) \<le> f32_key (rr_lps row ! nat (rr_parents row ! i)))
     \<and> (\<forall>j<n. f32_key (rr_lps row ! i) = f32_key (rr_lps row ! j) \<longrightarrow> i = j))"

lemma best_unique_subset:
  assumes a: "best_nodes n b lps xs" and b: "best_nodes n b lps ys"
    and inj: "\<And>i j. i < n \<Longrightarrow> j < n \<Longrightarrow> f32_key (lps ! i) = f32_key (lps ! j) \<Longrightarrow> i = j"
  shows "set xs \<subseteq> set ys"
proof (rule ccontr)
  assume "\<not> set xs \<subseteq> set ys"
  then obtain x where x: "x \<in> set xs" "x \<notin> set ys" by blast
  have "card (set xs) = card (set ys)" using a b by (simp add: best_nodes_def distinct_card)
  then have "\<not> set ys \<subseteq> set xs" using x card_subset_eq[of "set xs" "set ys"] by auto
  then obtain y where y: "y \<in> set ys" "y \<notin> set xs" by blast
  have lt: "x < n" "y < n" using a b x y by (auto simp: best_nodes_def)
  have "f32_key (lps ! y) \<le> f32_key (lps ! x)" "f32_key (lps ! x) \<le> f32_key (lps ! y)"
    using a b x y lt by (auto simp: best_nodes_def)
  then have "x = y" using inj[OF lt] by simp
  then show False using x y by simp
qed

lemma best_unique:
  assumes "best_nodes n b lps xs" "best_nodes n b lps ys" "clear_scores n row" "lps = rr_lps row"
  shows "set xs = set ys"
  using best_unique_subset[OF assms(1,2)] best_unique_subset[OF assms(2,1)] assms(3,4) by (auto simp: clear_scores_def)

lemma best_closed:
  assumes best: "best_nodes n b (rr_lps row) xs" and row: "eager_row_ok n row" and clear: "clear_scores n row" and i: "i \<in> set xs"
  shows "set (up_path (take n (rr_parents row)) i) \<subseteq> set xs"
  using i
proof (induction i rule: less_induct)
  case (less i)
  let ?ps = "take n (rr_parents row)"
  have wf: "wf_parents ?ps" and len: "length ?ps = n" using row by (auto simp: eager_row_ok_def)
  have lt: "i < n" using best less.prems by (auto simp: best_nodes_def)
  have w: "?ps ! i < int i" "?ps ! i = rr_parents row ! i" using wf_parentsD[OF wf, of i] lt len by auto
  show ?case
  proof (cases "0 \<le> ?ps ! i")
    case True
    let ?p = "nat (?ps ! i)"
    have p: "?p < i" "?p < n" using w True lt by auto
    have le: "f32_key (rr_lps row ! i) \<le> f32_key (rr_lps row ! ?p)" "f32_key (rr_lps row ! i) = f32_key (rr_lps row ! ?p) \<Longrightarrow> i = ?p"
      using clear lt p True w(2) by (auto simp: clear_scores_def)
    have "?p \<in> set xs"
    proof (rule ccontr)
      assume "?p \<notin> set xs"
      then have "f32_key (rr_lps row ! ?p) \<le> f32_key (rr_lps row ! i)" using best less.prems p(2) by (auto simp: best_nodes_def)
      then show False using le p(1) by simp
    qed
    then show ?thesis using less.IH[OF p(1)] less.prems True len lt by (simp add: up_path_step[OF wf])
  qed (use less.prems len lt in \<open>simp add: up_path_step[OF wf]\<close>)
qed

lemma padded_best:
  assumes topk: "topk_op topk" and n: "budget < n" "n \<le> max_n" and fin: "\<And>i. i < n \<Longrightarrow> f32_isfinite (lps ! i)"
  shows "best_nodes n budget lps (topk budget (map f32_key (map (\<lambda>i. if i < n then lps ! i else f32_neg_inf) [0..<max_n])))"
proof -
  let ?xs = "map f32_key (map (\<lambda>i. if i < n then lps ! i else f32_neg_inf) [0..<max_n])"
  let ?t = "topk budget ?xs"
  have k: "budget \<le> length ?xs" using n by simp
  note tk = topk_op.topk_length[OF topk k] topk_op.topk_index[OF topk k] topk_op.topk_distinct[OF topk k]
  have best: "?xs ! j \<le> ?xs ! i" if "i \<in> set ?t" "j < max_n" "j \<notin> set ?t" for i j
    using topk_op.topk_best[OF topk k that(1) _ that(3)] that(2) by simp
  have inside: "i < n" if i: "i \<in> set ?t" for i
  proof (rule ccontr)
    assume out: "\<not> i < n"
    have "\<not> {..<n} \<subseteq> set ?t"
    proof
      assume "{..<n} \<subseteq> set ?t"
      then have "n \<le> card (set ?t)" using card_mono[of "set ?t" "{..<n}"] by simp
      then show False using tk(1,3) n(1) by (simp add: distinct_card)
    qed
    then obtain j where j: "j < n" "j \<notin> set ?t" by blast
    have "?xs ! j \<le> ?xs ! i" by (rule best[OF i _ j(2)]) (use j n in simp)
    then show False using finite_above_neg_inf[OF fin[OF j(1)]] out j(1) n(2) tk(2)[OF i] by simp
  qed
  have "f32_key (lps ! j) \<le> f32_key (lps ! i)" if "i \<in> set ?t" "j < n" "j \<notin> set ?t" for i j
    using best[OF that(1) _ that(3)] inside[OF that(1)] that(2) n(2) by simp
  then show ?thesis using tk inside by (auto simp: best_nodes_def)
qed

lemma prune_row_batched_spec:
  assumes topk: "topk_op topk" and row: "eager_row_ok n row" and n: "budget < n" "n \<le> max_n" and clear: "clear_scores n row"
    and ks: "sorted ks" "distinct ks" "set ks = (\<Union>i\<in>set xs. set (up_path (take n (rr_parents row)) i))"
    and best: "best_nodes n budget (rr_lps row) xs"
  shows "prune_row_batched topk budget max_n n row = gather_row ks (compact_parents (take n (rr_parents row)) ks) row"
    and "length ks = budget"
proof -
  define t where "t = topk budget (map f32_key (map (\<lambda>i. if i < n then rr_lps row ! i else f32_neg_inf) [0..<max_n]))"
  have best_t: "best_nodes n budget (rr_lps row) t"
    unfolding t_def by (rule padded_best[OF topk n]) (use clear in \<open>simp add: clear_scores_def\<close>)
  have "set ks = set xs" using best_closed[OF best row clear] up_path_self unfolding ks(3) by blast
  also have "\<dots> = set t" by (rule best_unique[OF best best_t clear refl])
  finally have same: "set ks = set t" .
  have "distinct t" using best_t unfolding best_nodes_def by blast
  then have "distinct (sort t)" by (simp only: distinct_sort)
  from sorted_distinct_set_unique[OF sorted_sort this ks(1,2)] have sort: "sort t = ks" unfolding set_sort same by blast
  have "length t = length ks" using arg_cong[OF sort, of length] by simp
  then show "length ks = budget" using best_t by (simp add: best_nodes_def)
  have "new_parents max_n ks (rr_parents row) = compact_parents (take n (rr_parents row)) ks"
    by (rule new_parents_compact) (use row ks(2) same best_t n in \<open>auto simp: eager_row_ok_def best_nodes_def\<close>)
  then show "prune_row_batched topk budget max_n n row = gather_row ks (compact_parents (take n (rr_parents row)) ks) row"
    by (simp only: prune_row_batched_def Let_def t_def[symmetric] sort)
qed

section \<open>Finalising a batch\<close>

text \<open>
  The scratch buffers of \<open>finalize_tree_gpu_batched\<close> are reallocated when they are too small for the batch (\<open>B\<close>),
  the nodes (\<open>max_Np1\<close>) or the depth.  The kernels address them with the width of the current call.
\<close>

definition alloc_finalize_scratch :: "nat \<Rightarrow> nat \<Rightarrow> nat \<times> nat \<times> nat \<Rightarrow> nat \<times> nat \<times> nat" where
  "alloc_finalize_scratch B max_Np1 cur =
     (case cur of (cur_B, cur_NP1, cur_D) \<Rightarrow>
        if cur_B < B \<or> cur_NP1 < max_Np1 \<or> cur_D < MAX_TREE_DEPTH then (B, max_Np1, MAX_TREE_DEPTH) else cur)"

text \<open>
  With one budget the buffers are always exactly as wide as the call, as the definitions below take them
  to be; the budget of a worker does not change.
\<close>

lemma scratch_width:
  assumes "Bs \<noteq> []"
  shows "\<exists>cap. fold (\<lambda>B. alloc_finalize_scratch B (budget + 1)) Bs (0, 0, 0) = (cap, budget + 1, MAX_TREE_DEPTH) \<and> last Bs \<le> cap"
proof -
  have step: "\<exists>cap'. alloc_finalize_scratch B (budget + 1) s = (cap', budget + 1, MAX_TREE_DEPTH) \<and> B \<le> cap'"
    if "s = (0, 0, 0) \<or> (\<exists>cap. s = (cap, budget + 1, MAX_TREE_DEPTH))" for s B
    using that by (auto simp: alloc_finalize_scratch_def MAX_TREE_DEPTH_def)
  show ?thesis using assms
  proof (induction Bs rule: rev_induct)
    case (snoc B Bs)
    have "fold (\<lambda>B. alloc_finalize_scratch B (budget + 1)) Bs (0, 0, 0) = (0, 0, 0)
        \<or> (\<exists>cap. fold (\<lambda>B. alloc_finalize_scratch B (budget + 1)) Bs (0, 0, 0) = (cap, budget + 1, MAX_TREE_DEPTH))"
      using snoc.IH by (cases "Bs = []") auto
    then show ?case using step[of _ B] by simp
  qed simp
qed

text \<open>
  The row of one request in the zeroed parent buffer, and what the batched kernels and the vectorised
  selection of the leaves make of it: \<open>filled\<close> nodes are written, \<open>N\<close> belong to the request.
\<close>

definition parent_row :: "nat \<Rightarrow> nat \<Rightarrow> int list \<Rightarrow> nat list" where
  "parent_row max_Np1 filled ps =
     0 # map (\<lambda>p. if 0 \<le> p then nat (p + 1) else 0) (take filled ps) @ replicate (max_Np1 - 1 - filled) 0"

definition batched_tree ::
    "(int \<Rightarrow> int list \<Rightarrow> 'k::linorder) \<Rightarrow> bool \<Rightarrow> nat \<Rightarrow> int \<Rightarrow> nat \<Rightarrow> nat \<Rightarrow> node_row \<Rightarrow> eager_tree" where
  "batched_tree row_key need_ri max_Np1 sample filled N tn =
     (let par = parent_row max_Np1 filled (rr_parents tn);
          dm = map (tree_depth_mask_kernel par) [0..<max_Np1]; depth = map fst dm;
          is_parent = set (map (\<lambda>i. par ! i) [1..<Suc N]);
          is_leaf = (\<lambda>i. i \<notin> is_parent \<and> i < Suc N);
          leaves = sort (map (\<lambda>i. if is_leaf i then i else max_Np1) [0..<max_Np1]);
          num_leaves = length (filter is_leaf [0..<max_Np1]);
          ri = map (\<lambda>lid. if lid < num_leaves then tree_retrieve_kernel par depth MAX_TREE_DEPTH (leaves ! lid)
                     else replicate (MAX_TREE_DEPTH + 1) (- 1)) [0..<max_Np1];
          order = sort_key (\<lambda>lid. (num_leaves \<le> lid, row_key (int max_Np1 + 5) (ri ! lid))) [0..<max_Np1]
      in \<lparr>et_tokens = sample # take N (rr_tokens tn), et_parents = - 1 # take N (rr_parents tn), et_depth = take (Suc N) depth,
          et_lps = 0 # take N (rr_lps tn),
          et_retrieve = (if need_ri then take (max num_leaves 1) (map (\<lambda>lid. ri ! lid) order) else []),
          et_mask = map (take (Suc N)) (take (Suc N) (map snd dm))\<rparr>)"

definition finalize_tree_gpu_batched ::
    "(int \<Rightarrow> int list \<Rightarrow> 'k::linorder) \<Rightarrow> bool \<Rightarrow> nat \<Rightarrow> int list \<Rightarrow> nat list \<Rightarrow> node_row option list \<Rightarrow> node_row list option
      \<Rightarrow> node_row list \<Rightarrow> eager_tree list" where
  "finalize_tree_gpu_batched row_key need_ri budget samples n_nodes pruned batched_pruned rows =
     map (\<lambda>b. case batched_pruned of
            Some all \<Rightarrow> batched_tree row_key need_ri (budget + 1) (samples ! b) budget (n_nodes ! b) (all ! b)
          | None \<Rightarrow> batched_tree row_key need_ri (budget + 1) (samples ! b) (n_nodes ! b) (n_nodes ! b)
                      (case pruned ! b of Some p \<Rightarrow> p | None \<Rightarrow> rows ! b)) [0..<length n_nodes]"

text \<open>The end of \<open>build_tree_batched_gpu\<close>: prune the rows over the budget, then finalise all.\<close>

definition finalize_eager_batch ::
    "(nat \<Rightarrow> int list \<Rightarrow> nat list) \<Rightarrow> (int \<Rightarrow> int list \<Rightarrow> 'k::linorder) \<Rightarrow> bool \<Rightarrow> nat \<Rightarrow> int list \<Rightarrow> nat list \<Rightarrow> node_row list
      \<Rightarrow> eager_tree list" where
  "finalize_eager_batch topk row_key need_ri budget samples raw_n_nodes rows =
     (let prune_rows = filter (\<lambda>b. budget < raw_n_nodes ! b) [0..<length raw_n_nodes];
          batched_pruned = gpu_prune_tree_batched topk budget raw_n_nodes rows prune_rows;
          index = map_of (zip prune_rows [0..<length prune_rows]);
          pruned = map (\<lambda>b. map_option (\<lambda>i. batched_pruned ! i) (index b)) [0..<length raw_n_nodes];
          n_nodes = map (\<lambda>b. case index b of None \<Rightarrow> raw_n_nodes ! b | Some _ \<Rightarrow> budget) [0..<length raw_n_nodes];
          all_rows_pruned = (length prune_rows = length raw_n_nodes)
      in finalize_tree_gpu_batched row_key need_ri budget samples n_nodes pruned
           (if all_rows_pruned then Some batched_pruned else None) rows)"

text \<open>Padding with children of the root changes no path.\<close>

lemma path_to_root_append:
  assumes "wf_par par" "i < length par"
  shows "path_to_root (par @ zs) i = path_to_root par i"
  using assms(2)
proof (induction i rule: less_induct)
  case (less i)
  show ?case
  proof (cases "i = 0")
    case False
    then have p: "par ! i < i" using wf_parD[OF assms(1)] less.prems by simp
    then have "path_to_root (par @ zs) (par ! i) = path_to_root par (par ! i)" using less by simp
    then show ?thesis using p less.prems False
      by (subst path_to_root.simps, subst (2) path_to_root.simps) (simp add: nth_append)
  qed simp
qed

lemma padded_par:
  assumes "wf_par par" "shallow par"
  shows "wf_par (par @ replicate k 0)" "shallow (par @ replicate k 0)"
proof -
  have wf: "(par @ replicate k 0) ! i < i" if "0 < i" "i < length par + k" for i
    using that wf_parD[OF assms(1), of i] by (cases "i < length par") (simp_all add: nth_append)
  then show wfp: "wf_par (par @ replicate k 0)" using assms(1) by (auto simp: wf_par_def list_all_iff)
  have "node_depth (par @ replicate k 0) i \<le> MAX_TREE_DEPTH" if i: "i < length par + k" for i
  proof (cases "i < length par")
    case True
    then show ?thesis using shallow_nth[OF assms(2) True] path_to_root_append[OF assms(1) True] by (simp add: node_depth_def)
  next
    case False
    have "0 < length par" using assms(1) by (simp add: wf_par_def)
    then have "0 < i" using False by linarith
    moreover have "(par @ replicate k 0) ! i = 0" using i False by (simp add: nth_append)
    ultimately show ?thesis using node_depth_step[OF wfp, of i] i by (simp add: MAX_TREE_DEPTH_def)
  qed
  then show "shallow (par @ replicate k 0)" by (simp add: shallow_def list_all_iff)
qed

text \<open>The leaves, and the order of the retrieve rows.\<close>

lemma sort_sentinel:
  fixes M :: nat
  shows "sort (map (\<lambda>i. if Q i then i else M) [0..<M]) = filter Q [0..<M] @ replicate (length (filter (\<lambda>i. \<not> Q i) [0..<M])) M"
proof (rule properties_for_sort)
  have "mset (map (\<lambda>i. if Q i then i else c) xs) = mset (filter Q xs @ replicate (length (filter (\<lambda>i. \<not> Q i) xs)) c)" for c :: nat and xs
    by (induction xs) auto
  then show "mset (filter Q [0..<M] @ replicate (length (filter (\<lambda>i. \<not> Q i) [0..<M])) M) = mset (map (\<lambda>i. if Q i then i else M) [0..<M])"
    by metis
  show "sorted (filter Q [0..<M] @ replicate (length (filter (\<lambda>i. \<not> Q i) [0..<M])) M)"
    by (auto simp: sorted_append sorted_wrt_filter)
qed

lemma map_sort_key: "map f (sort_key (\<lambda>x. g (f x)) xs) = sort_key g (map f xs)"
proof (induction xs)
  case (Cons x xs)
  have "map f (insort_key (\<lambda>x. g (f x)) x ys) = insort_key g (f x) (map f ys)" for ys by (induction ys) auto
  then show ?case using Cons by simp
qed simp

lemma sort_key_split:
  fixes g :: "nat \<Rightarrow> 'k::linorder"
  assumes "n \<le> M"
  shows "sort_key (\<lambda>l. (n \<le> l, g l)) [0..<M] = sort_key g [0..<n] @ sort_key g [n..<M]"
proof (rule properties_for_sort_key)
  have split: "[0..<M] = [0..<n] @ [n..<M]" using assms upt_add_eq_append[of 0 n "M - n"] by simp
  show "mset (sort_key g [0..<n] @ sort_key g [n..<M]) = mset [0..<M]" unfolding split by simp
  show "filter (\<lambda>x. (n \<le> k, g k) = (n \<le> x, g x)) (sort_key g [0..<n] @ sort_key g [n..<M])
      = filter (\<lambda>x. (n \<le> k, g k) = (n \<le> x, g x)) [0..<M]" for k
  proof -
    have st: "filter (\<lambda>x. (n \<le> k, g k) = (n \<le> x, g x)) (sort_key g xs) = filter (\<lambda>x. (n \<le> k, g k) = (n \<le> x, g x)) xs"
      if "\<forall>x\<in>set xs. (n \<le> x) = c" for xs c
    proof -
      have "filter (\<lambda>x. (n \<le> k, g k) = (n \<le> x, g x)) ys = (if (n \<le> k) = c then filter (\<lambda>x. g x = g k) ys else [])"
        if "\<forall>x\<in>set ys. (n \<le> x) = c" for ys
        using that by (auto simp: filter_empty_conv intro!: filter_cong)
      then show ?thesis using that sort_key_stable[of g "g k" xs] by simp
    qed
    have "filter (\<lambda>x. (n \<le> k, g k) = (n \<le> x, g x)) (sort_key g [0..<n]) = filter (\<lambda>x. (n \<le> k, g k) = (n \<le> x, g x)) [0..<n]"
      by (rule st[of _ False]) auto
    moreover have "filter (\<lambda>x. (n \<le> k, g k) = (n \<le> x, g x)) (sort_key g [n..<M]) = filter (\<lambda>x. (n \<le> k, g k) = (n \<le> x, g x)) [n..<M]"
      by (rule st[of _ True]) auto
    ultimately show ?thesis unfolding split by (simp only: filter_append)
  qed
  show "sorted (map (\<lambda>l. (n \<le> l, g l)) (sort_key g [0..<n] @ sort_key g [n..<M]))"
  proof -
    have block: "sorted (map (\<lambda>l. (n \<le> l, g l)) xs)" if "sorted (map g xs)" "\<forall>x\<in>set xs. (n \<le> x) = c" for xs c
      using that by (induction xs) auto
    have "sorted (map (\<lambda>l. (n \<le> l, g l)) (sort_key g [0..<n]))" by (rule block[of _ False]) simp_all
    moreover have "sorted (map (\<lambda>l. (n \<le> l, g l)) (sort_key g [n..<M]))" by (rule block[of _ True]) simp_all
    ultimately show ?thesis by (auto simp: sorted_append)
  qed
qed

lemma leaves_of_padded:
  assumes wf: "wf_par P" and len: "length P = Suc N" "N < M" and par: "par = P @ replicate (M - Suc N) 0"
  shows "filter (\<lambda>i. i \<notin> set (map (\<lambda>i. par ! i) [1..<Suc N]) \<and> i < Suc N) [0..<M] = buffer_leaves P" "buffer_leaves P \<noteq> []"
proof -
  have "map (\<lambda>i. par ! i) [1..<Suc N] = List.tl P"
    by (rule nth_equalityI) (simp_all add: par len nth_append nth_tl del: upt_Suc)
  moreover have "[0..<M] = [0..<Suc N] @ [Suc N..<M]" using len(2) by (metis Suc_leI le0 le_Suc_ex upt_add_eq_append)
  ultimately show "filter (\<lambda>i. i \<notin> set (map (\<lambda>i. par ! i) [1..<Suc N]) \<and> i < Suc N) [0..<M] = buffer_leaves P"
    by (auto simp: buffer_leaves_def len(1) filter_empty_conv simp del: upt_Suc intro!: filter_cong)
  have "N \<notin> set (List.tl P)"
  proof
    assume "N \<in> set (List.tl P)"
    then obtain i where i: "i < length (List.tl P)" "List.tl P ! i = N" unfolding in_set_conv_nth by blast
    then have "P ! Suc i = N" "Suc i < length P" using nth_tl[OF i(1)] by simp_all
    then show False using wf_parD[OF wf, of "Suc i"] len(1) by simp
  qed
  then have "N \<in> set (buffer_leaves P)" by (simp add: buffer_leaves_def len(1))
  then show "buffer_leaves P \<noteq> []" by auto
qed

lemma retrieve_of_padded:
  fixes key :: "int list \<Rightarrow> 'k::linorder"
  assumes rows: "\<And>l. l < n \<Longrightarrow> ri ! l = rs ! l" and n: "length rs = n" "n \<le> M" "0 < n"
  shows "take (max n 1) (map (\<lambda>l. ri ! l) (sort_key (\<lambda>l. (n \<le> l, key (ri ! l))) [0..<M])) = sort_key key rs"
proof -
  have "map (\<lambda>l. ri ! l) [0..<n] = rs" by (rule nth_equalityI) (simp_all add: n rows)
  then have "map (\<lambda>l. ri ! l) (sort_key (\<lambda>l. key (ri ! l)) [0..<n]) = sort_key key rs" unfolding map_sort_key by simp
  moreover have "max n 1 = n" using n(3) by simp
  moreover have "length (sort_key key rs) = n" by (simp add: n(1))
  ultimately show ?thesis unfolding sort_key_split[OF n(2)] by simp
qed

lemma batched_tree_spec:
  assumes wf: "wf_parents (rr_parents row)" "shallow (shift_parents (rr_parents row))" and N: "length (rr_parents row) = N" "N \<le> budget"
    and cols: "rr_tokens row = take N (rr_tokens tn)" "rr_parents row = take N (rr_parents tn)" "rr_lps row = take N (rr_lps tn)"
  shows "batched_tree row_key need_ri (budget + 1) sample N N tn =
    (let t = row_tree (row_key (int budget + 6)) sample row in t\<lparr>et_retrieve := if need_ri then et_retrieve t else []\<rparr>)"
proof -
  define P where "P = shift_parents (rr_parents row)"
  define par where "par = parent_row (budget + 1) N (rr_parents tn)"
  have wfP: "wf_par P" "shallow P" and lenP: "length P = Suc N" using wf N by (simp_all add: P_def)
  have par: "par = P @ replicate (budget + 1 - Suc N) 0"
    by (simp add: par_def parent_row_def P_def shift_parents_def cols(2))
  have wfp: "wf_par par" "shallow par" unfolding par by (rule padded_par[OF wfP])+
  have lenp: "budget + 1 = length par" using N lenP by (simp add: par)
  note k = kernels_spec[OF wfp, folded lenp]
  have same: "path_to_root par i = path_to_root P i" "node_depth par i = node_depth P i" if "i < Suc N" for i
    using path_to_root_append[OF wfP(1), of i] that lenP by (simp_all add: par node_depth_def)
  have cut: "take (Suc N) (map f [0..<budget + 1]) = map f [0..<Suc N]" for f :: "nat \<Rightarrow> 'x"
    using N(2) by (simp add: take_map del: upt_Suc)
  note lv = leaves_of_padded[OF wfP(1) lenP _ par]
  define bl where "bl = buffer_leaves P"
  define n where "n = length bl"
  have "n \<le> length [0..<length P]" unfolding n_def bl_def buffer_leaves_def by (rule length_filter_le)
  then have n: "0 < n" "n \<le> budget + 1" using lv N(2) lenP by (simp_all add: n_def bl_def)
  define leaves where "leaves = bl @ replicate (length (filter (\<lambda>i. \<not> (i \<notin> set (map (\<lambda>i. par ! i) [1..<Suc N]) \<and> i < Suc N)) [0..<budget + 1])) (budget + 1)"
  define ri where "ri = map (\<lambda>lid. if lid < n then tree_retrieve_kernel par (map (node_depth par) [0..<budget + 1]) MAX_TREE_DEPTH (leaves ! lid)
                     else replicate (MAX_TREE_DEPTH + 1) (- 1)) [0..<budget + 1]"
  have ri: "ri ! l = map (leaf_row P MAX_TREE_DEPTH) bl ! l" if l: "l < n" for l
  proof -
    have leaf: "bl ! l < Suc N" using l buffer_leaves_less[of "bl ! l" P] lenP by (simp add: n_def bl_def)
    have "tree_retrieve_kernel par (map (node_depth par) [0..<budget + 1]) MAX_TREE_DEPTH (bl ! l) = leaf_row par MAX_TREE_DEPTH (bl ! l)"
      by (rule tree_retrieve_kernel_correct[OF wfp(1)]) (use leaf N(2) lenp shallow_nth[OF wfp(2), of "bl ! l"] in \<open>simp_all del: upt_Suc\<close>)
    also have "\<dots> = leaf_row P MAX_TREE_DEPTH (bl ! l)" using same(1)[OF leaf] by (simp add: leaf_row_def)
    finally show ?thesis using l n(2) by (simp add: ri_def leaves_def nth_append n_def del: upt_Suc)
  qed
  have ret: "take (max n 1) (map (\<lambda>l. ri ! l) (sort_key (\<lambda>l. (n \<le> l, row_key (int (budget + 1) + 5) (ri ! l))) [0..<budget + 1]))
      = sort_key (row_key (int budget + 6)) (map (leaf_row P MAX_TREE_DEPTH) bl)"
    using retrieve_of_padded[OF ri _ n(2,1), of "row_key (int budget + 6)"] by (simp add: n_def add.commute del: upt_Suc)
  have lf: "filter (\<lambda>i. i \<notin> set (map (\<lambda>i. par ! i) [1..<Suc N]) \<and> i < Suc N) [0..<budget + 1] = bl"
    using lv(1) N(2) by (simp add: bl_def del: upt_Suc)
  have sl: "sort (map (\<lambda>i. if i \<notin> set (map (\<lambda>i. par ! i) [1..<Suc N]) \<and> i < Suc N then i else budget + 1) [0..<budget + 1]) = leaves"
    unfolding sort_sentinel lf leaves_def ..
  have dm: "map fst (map (tree_depth_mask_kernel par) [0..<budget + 1]) = map (node_depth par) [0..<budget + 1]"
    "map snd (map (tree_depth_mask_kernel par) [0..<budget + 1])
      = map (\<lambda>i. map (\<lambda>j. j \<in> set (path_to_root par i)) [0..<budget + 1]) [0..<budget + 1]"
    unfolding k(1) by (simp_all add: comp_def del: upt_Suc)
  have depth: "map (node_depth par) [0..<Suc N] = map (node_depth P) [0..<Suc N]" using same(2) by simp
  have mask: "map (\<lambda>i. take (Suc N) (map (\<lambda>j. j \<in> set (path_to_root par i)) [0..<budget + 1])) [0..<Suc N]
      = map (\<lambda>i. map (\<lambda>j. j \<in> set (path_to_root P i)) [0..<Suc N]) [0..<Suc N]"
    unfolding cut using same(1) by simp
  have "batched_tree row_key need_ri (budget + 1) sample N N tn =
    \<lparr>et_tokens = sample # rr_tokens row, et_parents = - 1 # rr_parents row, et_depth = map (node_depth P) [0..<Suc N],
     et_lps = 0 # rr_lps row, et_retrieve = if need_ri then sort_key (row_key (int budget + 6)) (map (leaf_row P MAX_TREE_DEPTH) bl) else [],
     et_mask = map (\<lambda>i. map (\<lambda>j. j \<in> set (path_to_root P i)) [0..<Suc N]) [0..<Suc N]\<rparr>"
    unfolding batched_tree_def Let_def par_def[symmetric] dm lf sl n_def[symmetric] ri_def[symmetric] ret cut depth cols[symmetric]
      mask[symmetric] by (simp only: map_map comp_def cut)
  then show ?thesis unfolding row_tree_def Let_def P_def[symmetric] lenP bl_def by simp
qed

text \<open>A row of the batch, pruned or not.\<close>

lemma gather_row_fields [simp]:
  "rr_tokens (gather_row ks ps row) = map (\<lambda>i. rr_tokens row ! i) ks" "rr_parents (gather_row ks ps row) = ps"
  "rr_lps (gather_row ks ps row) = map (\<lambda>i. rr_lps row ! i) ks"
  by (simp_all add: gather_row_def)

lemma map_nth_take: "n \<le> length xs \<Longrightarrow> map (\<lambda>i. xs ! i) [0..<n] = take n xs"
  by (metis map_nth take_map take_upt diff_zero add_0)

definition batch_row :: "(nat \<Rightarrow> int list \<Rightarrow> nat list) \<Rightarrow> nat \<Rightarrow> nat \<Rightarrow> nat \<Rightarrow> node_row \<Rightarrow> node_row" where
  "batch_row topk budget max_n n row = (if budget < n then prune_row_batched topk budget max_n n row else row)"

lemma batch_tree_agrees:
  assumes topk: "topk_op topk" "topk_op topk'" and row: "eager_row_ok n row" and sched: "complete_sched n sched"
    and clear: "budget < n \<Longrightarrow> clear_scores n row" and wide: "n \<le> max_n"
  obtains t where "finalize_tree_gpu topk' row_key sched n sample budget row = Inr t"
    "(batched_tree row_key need_ri (budget + 1) sample (min n budget) (min n budget) (batch_row topk budget max_n n row))\<lparr>et_retrieve := []\<rparr>
       = t\<lparr>et_retrieve := []\<rparr>"
    "mset (et_retrieve (batched_tree row_key need_ri (budget + 1) sample (min n budget) (min n budget) (batch_row topk budget max_n n row)))
       = (if need_ri then mset (et_retrieve t) else {#})"
proof -
  let ?ps = "take n (rr_parents row)"
  have wf: "wf_parents ?ps" "shallow (shift_parents ?ps)" and len: "length ?ps = n" "n \<le> length (rr_tokens row)" "n \<le> length (rr_lps row)"
    using row by (auto simp: eager_row_ok_def)
  obtain ks where fin: "finalize_tree_gpu topk' row_key sched n sample budget row
      = Inr (row_tree (row_key (int (length ks) + 6)) sample (gather_row ks (compact_parents ?ps ks) row))"
    and ks: "keep_inv ?ps n ks" "sorted ks" "n \<le> budget \<longrightarrow> ks = [0..<n]"
    "budget < n \<longrightarrow> best_nodes n budget (rr_lps row) (topk' budget (map f32_key (take n (rr_lps row))))
       \<and> set ks = (\<Union>i\<in>set (topk' budget (map f32_key (take n (rr_lps row)))). set (up_path ?ps i))"
    using finalized_row[where budget = budget and row_key = row_key and sample = sample, OF topk(2) row sched] by blast
  let ?g = "gather_row ks (compact_parents ?ps ks) row" and ?tn = "batch_row topk budget max_n n row"
  have dist: "distinct ks" using ks(1) by (simp add: keep_inv_def)
  have wfg: "wf_parents (rr_parents ?g)" "shallow (shift_parents (rr_parents ?g))"
    using wf_compact_parents[OF wf(1) ks(1,2)] shallow_compact[OF wf ks(1,2)] by simp_all
  have cols: "rr_tokens ?g = take (length ks) (rr_tokens ?tn) \<and> rr_parents ?g = take (length ks) (rr_parents ?tn)
      \<and> rr_lps ?g = take (length ks) (rr_lps ?tn) \<and> length ks = min n budget"
  proof (cases "budget < n")
    case True
    note spec = prune_row_batched_spec[OF topk(1) row True wide clear[OF True] ks(2) dist conjunct2[OF ks(4)[rule_format, OF True]] conjunct1[OF ks(4)[rule_format, OF True]]]
    show ?thesis using spec True by (simp add: batch_row_def compact_parents_def)
  next
    case False
    then have "finalize_tree_gpu topk' row_key sched n sample budget row
        = Inr (row_tree (row_key (int n + 6)) sample (gather_row [0..<n] ?ps row))"
      by (intro finalize_row_tree) (use False wf len in \<open>simp_all\<close>)
    then have "compact_parents ?ps ks = ?ps" using fin ks(3) False by (simp add: row_tree_def Let_def)
    then show ?thesis using ks(3) False len by (simp add: batch_row_def map_nth_take)
  qed
  have lenk: "length (rr_parents ?g) = length ks" by (simp add: compact_parents_def)
  let ?t = "row_tree (row_key (int (length ks) + 6)) sample ?g"
  have "batched_tree row_key need_ri (budget + 1) sample (length ks) (length ks) ?tn
      = (let t = row_tree (row_key (int budget + 6)) sample ?g in t\<lparr>et_retrieve := if need_ri then et_retrieve t else []\<rparr>)"
    by (rule batched_tree_spec[OF wfg lenk]) (use cols in simp_all)
  then have eq: "batched_tree row_key need_ri (budget + 1) sample (min n budget) (min n budget) ?tn
      = (let t = row_tree (row_key (int budget + 6)) sample ?g in t\<lparr>et_retrieve := if need_ri then et_retrieve t else []\<rparr>)"
    using cols by simp
  show ?thesis
  proof (rule that[of ?t])
    show "finalize_tree_gpu topk' row_key sched n sample budget row = Inr ?t" by (rule fin)
  qed (unfold eq, simp_all add: row_tree_def Let_def)
qed

lemma filter_upt_split:
  assumes "b < n" "P b"
  shows "filter P [0..<n] = filter P [0..<b] @ b # filter P [Suc b..<n]"
proof -
  have "[0..<n] = [0..<b] @ b # [Suc b..<n]" using assms(1) upt_add_eq_append[of 0 b "n - b"] upt_conv_Cons[of b n] by simp
  then show ?thesis using assms(2) by simp
qed

lemma index_of_filter:
  assumes "b < n"
  shows "map_of (zip (filter P [0..<n]) [0..<length (filter P [0..<n])]) b
    = (if P b then Some (length (filter P [0..<b])) else None)"
proof (cases "P b")
  case True
  note split = filter_upt_split[where P = P, OF assms True]
  let ?f = "filter P [0..<n]" and ?k = "length (filter P [0..<b])"
  have "?k < length ?f" "?f ! ?k = b" using split by (simp_all add: nth_append)
  moreover have "distinct ?f" by simp
  ultimately have "map_of (zip ?f [0..<length ?f]) b = Some ?k"
    by (subst map_of_eq_Some_iff) (auto simp: in_set_zip intro!: exI[of _ ?k])
  then show ?thesis using True by simp
next
  case False
  then have "b \<notin> set (filter P [0..<n])" by simp
  then have "map_of (zip (filter P [0..<n]) [0..<length (filter P [0..<n])]) b = None" by (simp add: map_of_zip_is_None)
  then show ?thesis using False by simp
qed

lemma filter_nth_count:
  assumes "b < n" "P b"
  shows "length (filter P [0..<b]) < length (filter P [0..<n]) \<and> filter P [0..<n] ! length (filter P [0..<b]) = b"
  using filter_upt_split[where P = P, OF assms] by (simp add: nth_append)

lemma eager_batch_nth:
  fixes ns :: "nat list" and budget :: nat
  assumes b: "b < length ns"
  defines "max_n \<equiv> Max (set (map (\<lambda>r. ns ! r) (filter (\<lambda>b. budget < ns ! b) [0..<length ns])))"
  shows "finalize_eager_batch topk row_key need_ri budget samples ns rows ! b
    = batched_tree row_key need_ri (budget + 1) (samples ! b) (min (ns ! b) budget) (min (ns ! b) budget)
        (batch_row topk budget max_n (ns ! b) (rows ! b))"
    and "length (finalize_eager_batch topk row_key need_ri budget samples ns rows) = length ns"
    and "budget < ns ! b \<Longrightarrow> ns ! b \<le> max_n"
proof -
  let ?P = "\<lambda>b. budget < ns ! b" and ?n = "length ns"
  let ?pr = "filter ?P [0..<?n]"
  have pruned: "gpu_prune_tree_batched topk budget ns rows ?pr ! length (filter ?P [0..<c]) = prune_row_batched topk budget max_n (ns ! c) (rows ! c)"
    if "c < ?n" "?P c" for c
  proof -
    note f = filter_nth_count[of c ?n ?P, OF that]
    then have "?pr \<noteq> []" by auto
    then show ?thesis using f by (simp add: gpu_prune_tree_batched_def Let_def max_n_def)
  qed
  show "length (finalize_eager_batch topk row_key need_ri budget samples ns rows) = length ns"
    by (simp add: finalize_eager_batch_def finalize_tree_gpu_batched_def Let_def)
  show "budget < ns ! b \<Longrightarrow> ns ! b \<le> max_n" unfolding max_n_def using b by (intro Max_ge) auto
  show "finalize_eager_batch topk row_key need_ri budget samples ns rows ! b
    = batched_tree row_key need_ri (budget + 1) (samples ! b) (min (ns ! b) budget) (min (ns ! b) budget)
        (batch_row topk budget max_n (ns ! b) (rows ! b))"
  proof -
    define gp where "gp = gpu_prune_tree_batched topk budget ns rows ?pr"
    define index where "index = map_of (zip ?pr [0..<length ?pr])"
    have sel: "finalize_eager_batch topk row_key need_ri budget samples ns rows ! b
      = (case (if length ?pr = ?n then Some gp else None) of
           Some all \<Rightarrow> batched_tree row_key need_ri (budget + 1) (samples ! b) budget (case index b of None \<Rightarrow> ns ! b | Some _ \<Rightarrow> budget) (all ! b)
         | None \<Rightarrow> batched_tree row_key need_ri (budget + 1) (samples ! b) (case index b of None \<Rightarrow> ns ! b | Some _ \<Rightarrow> budget)
             (case index b of None \<Rightarrow> ns ! b | Some _ \<Rightarrow> budget) (case map_option (\<lambda>i. gp ! i) (index b) of Some p \<Rightarrow> p | None \<Rightarrow> rows ! b))"
      unfolding finalize_eager_batch_def finalize_tree_gpu_batched_def Let_def gp_def[symmetric] index_def[symmetric]
      using b by (simp add: option.case_eq_if)
    have idx: "index b = (if ?P b then Some (length (filter ?P [0..<b])) else None)"
      unfolding index_def by (rule index_of_filter[OF b])
    have gp: "?P b \<Longrightarrow> gp ! length (filter ?P [0..<b]) = prune_row_batched topk budget max_n (ns ! b) (rows ! b)"
      unfolding gp_def by (rule pruned[OF b])
    show ?thesis
    proof (cases "length ?pr = ?n")
      case True
      then have all: "?P c" if "c < ?n" for c using that length_filter_less[of c "[0..<?n]" ?P] by fastforce
      then have "filter ?P [0..<b] = [0..<b]" using b by (simp add: filter_id_conv)
      then show ?thesis using sel idx gp True all[OF b] by (simp add: batch_row_def)
    next
      case False
      then show ?thesis using sel idx gp by (cases "?P b") (simp_all add: batch_row_def)
    qed
  qed
qed

section \<open>Properties\<close>

text \<open>
  The closure kernel is free of races.  For every tree within the depth bound, every set of flagged nodes and
  every schedule that interleaves the iterations of the programs and lets each finish, exactly the
  nodes on the root path of a flagged node end up flagged.
\<close>

theorem closure_any_schedule:
  assumes "wf_parents ps" "shallow (shift_parents ps)" "complete_sched (length ps) sched" "length keep = length ps"
  shows "\<forall>j<length ps. ancestor_closure ps sched keep ! j \<longleftrightarrow> (\<exists>i<length ps. keep ! i \<and> j \<in> set (up_path ps i))"
  using ancestor_closure_spec(2)[OF assms] by (auto simp: closed_set_def)

definition demo_sched :: "nat \<Rightarrow> nat list" where
  "demo_sched n = concat (replicate (MAX_TREE_DEPTH + 2) (rev [0..<n]))"

lemma demo_closure:
  "wf_parents [- 1, 0, 0, 2]" "shallow (shift_parents [- 1, 0, 0, 2])" "complete_sched 4 (demo_sched 4)"
  by code_simp+

theorem closure_any_schedule_witness:
  "ancestor_closure [- 1, 0, 0, 2] (demo_sched 4) [False, False, False, True] ! 0"
proof -
  have up: "(0 :: nat) \<in> set (up_path [- 1, 0, 0, 2] 3)" by code_simp
  have len: "length [- 1, 0, 0, 2 :: int] = 4" by simp
  have "ancestor_closure [- 1, 0, 0, 2] (demo_sched 4) [False, False, False, True] ! 0
      \<longleftrightarrow> (\<exists>i<4. [False, False, False, True] ! i \<and> 0 \<in> set (up_path [- 1, 0, 0, 2] i))"
    using closure_any_schedule[of "[- 1, 0, 0, 2]" "demo_sched 4" "[False, False, False, True]", unfolded len, OF demo_closure] by simp
  then show ?thesis using up by (intro iffD2[OF \<open>_ \<longleftrightarrow> _\<close>] exI[of _ 3]) simp
qed

text \<open>
  C27.  The tree of one request is the tree of its best nodes.  For every top-k operation, every schedule of the
  closure and every raw tree within the depth bound there is one selection of places such that: it is the
  whole tree, or the best nodes by score and their ancestors, and nothing else; the tree lists them in
  order with their tokens and scores, the root path of each is its raw root path; the depths and
  the mask are those of the root paths; and the retrieve index has one row for each leaf, sorted by the key.
\<close>

theorem finalize_tree_gpu_correct:
  assumes "topk_op topk" "eager_row_ok n row" "complete_sched n sched"
  shows "\<exists>ks t. finalize_tree_gpu topk row_key sched n sample budget row = Inr t
    \<and> sorted ks \<and> distinct ks \<and> set ks \<subseteq> {..<n} \<and> (n \<le> budget \<longrightarrow> ks = [0..<n])
    \<and> (budget < n \<longrightarrow> (\<exists>tops. best_nodes n budget (rr_lps row) tops
          \<and> set ks = (\<Union>i\<in>set tops. set (up_path (take n (rr_parents row)) i))))
    \<and> et_tokens t = sample # map (\<lambda>i. rr_tokens row ! i) ks \<and> et_lps t = 0 # map (\<lambda>i. rr_lps row ! i) ks
    \<and> (\<forall>j<length ks. map (\<lambda>i. ks ! i) (up_path (List.tl (et_parents t)) j) = up_path (take n (rr_parents row)) (ks ! j))
    \<and> (let par = shift_parents (List.tl (et_parents t)) in
        (\<forall>i\<le>length ks. et_depth t ! i = length (path_to_root par i) - 1
          \<and> (\<forall>j\<le>length ks. et_mask t ! i ! j \<longleftrightarrow> j \<in> set (path_to_root par i)))
      \<and> mset (et_retrieve t) = mset (map (leaf_row par MAX_TREE_DEPTH) (buffer_leaves par))
      \<and> sorted (map (row_key (int (length ks) + 6)) (et_retrieve t)))"
proof -
  let ?ps = "take n (rr_parents row)"
  have wf: "wf_parents ?ps" using assms(2) by (simp add: eager_row_ok_def)
  obtain ks where fin: "finalize_tree_gpu topk row_key sched n sample budget row
      = Inr (row_tree (row_key (int (length ks) + 6)) sample (gather_row ks (compact_parents ?ps ks) row))"
    and ks: "keep_inv ?ps n ks" "sorted ks" "n \<le> budget \<longrightarrow> ks = [0..<n]"
    "budget < n \<longrightarrow> best_nodes n budget (rr_lps row) (topk budget (map f32_key (take n (rr_lps row))))
       \<and> set ks = (\<Union>i\<in>set (topk budget (map f32_key (take n (rr_lps row)))). set (up_path ?ps i))"
    using finalized_row[where budget = budget and row_key = row_key and sample = sample, OF assms] by blast
  have "length (compact_parents ?ps ks) = length ks" by (simp add: compact_parents_def)
  then show ?thesis
    using ks compact_up_path[OF wf ks(1,2)]
    by (intro exI[of _ ks] exI[of _ "row_tree (row_key (int (length ks) + 6)) sample (gather_row ks (compact_parents ?ps ks) row)"] conjI fin)
      (auto simp: row_tree_def Let_def keep_inv_def node_depth_def simp del: upt_Suc)
qed

definition demo_node_row :: node_row where
  "demo_node_row = \<lparr>rr_tokens = [11, 12, 13, 14], rr_parents = [- 1, 0, 0, 2],
     rr_lps = [0xBF000000, 0xC0000000, 0xBF800000, 0xBFC00000], nr_ranks = [0, 1, 2, 0], nr_blocks = [1, 1, 1, 1], nr_slots = [0, 1, 1, 2]\<rparr>"

lemma demo_node_row_ok: "eager_row_ok 4 demo_node_row" "clear_scores 4 demo_node_row"
  by code_simp+

theorem finalize_tree_gpu_correct_witness:
  "\<exists>t. finalize_tree_gpu sort_topk (\<lambda>_ r. r) (demo_sched 4) 4 7 3 demo_node_row = Inr t \<and> hd (et_tokens t) = 7"
  using finalize_tree_gpu_correct[OF sorttopk.topk_op_axioms demo_node_row_ok(1) demo_closure(3), where sample = 7 and budget = 3
    and row_key = "\<lambda>_ r. r"] by force

text \<open>
  C28.  The batched finalisation computes the trees of the requests.  For every batch of raw trees within the
  depth bound whose pruned rows have finite, pairwise different scores that never grow along an edge,
  with any two top-k operations and every schedule of the closures: the rows over the budget are pruned together without a
  closure, all rows are finalised in shared padded buffers, and each tree is the one
  \<open>finalize_tree_gpu\<close> computes for the request alone, with the same retrieve rows.
\<close>

theorem eager_batch_agrees:
  assumes "topk_op topk" "topk_op topk'" "b < length ns"
    and "\<forall>b<length ns. eager_row_ok (ns ! b) (rows ! b) \<and> complete_sched (ns ! b) (scheds ! b)
       \<and> (budget < ns ! b \<longrightarrow> clear_scores (ns ! b) (rows ! b))"
  shows "\<exists>t. finalize_tree_gpu topk' row_key (scheds ! b) (ns ! b) (samples ! b) budget (rows ! b) = Inr t
    \<and> (let u = finalize_eager_batch topk row_key need_ri budget samples ns rows ! b in
        u\<lparr>et_retrieve := []\<rparr> = t\<lparr>et_retrieve := []\<rparr> \<and> mset (et_retrieve u) = (if need_ri then mset (et_retrieve t) else {#}))"
proof -
  let ?max = "if budget < ns ! b then Max (set (map (\<lambda>r. ns ! r) (filter (\<lambda>b. budget < ns ! b) [0..<length ns]))) else ns ! b"
  have row: "eager_row_ok (ns ! b) (rows ! b)" "complete_sched (ns ! b) (scheds ! b)" "budget < ns ! b \<Longrightarrow> clear_scores (ns ! b) (rows ! b)"
    using assms(3,4) by simp_all
  have nth: "finalize_eager_batch topk row_key need_ri budget samples ns rows ! b
    = batched_tree row_key need_ri (budget + 1) (samples ! b) (min (ns ! b) budget) (min (ns ! b) budget)
        (batch_row topk budget ?max (ns ! b) (rows ! b))"
    unfolding eager_batch_nth(1)[OF assms(3)] by (simp add: batch_row_def)
  have wide: "ns ! b \<le> ?max" using eager_batch_nth(3)[OF assms(3), of budget] by simp
  show ?thesis unfolding nth Let_def
    using batch_tree_agrees[where row_key = row_key and need_ri = need_ri and sample = "samples ! b", OF assms(1,2) row(1,2) row(3) wide]
    by metis
qed

theorem eager_batch_agrees_witness:
  "\<exists>t. finalize_tree_gpu sort_topk (\<lambda>_ r. r) (demo_sched 4) 4 7 3 demo_node_row = Inr t
    \<and> (finalize_eager_batch sort_topk (\<lambda>_ r. r) False 3 [7] [4] [demo_node_row] ! 0)\<lparr>et_retrieve := []\<rparr> = t\<lparr>et_retrieve := []\<rparr>"
  using eager_batch_agrees[where b = 0 and ns = "[4]" and rows = "[demo_node_row]" and scheds = "[demo_sched 4]" and samples = "[7]"
    and budget = 3 and need_ri = False and row_key = "\<lambda>_ r. r", OF sorttopk.topk_op_axioms sorttopk.topk_op_axioms]
    demo_node_row_ok demo_closure(3) by (auto simp: Let_def)

text \<open>
  A top-k operation with a preference among equal keys: the places in the order of key and
  preference.  Every such operation meets the contract of a top-k operation.
\<close>

definition tie_order :: "(nat \<Rightarrow> nat) \<Rightarrow> int list \<Rightarrow> nat list" where
  "tie_order pref xs = sort_key (\<lambda>i. (- (xs ! i), pref i)) [0..<length xs]"

definition tie_topk :: "(nat \<Rightarrow> nat) \<Rightarrow> nat \<Rightarrow> int list \<Rightarrow> nat list" where
  "tie_topk pref k xs = take k (tie_order pref xs)"

lemma tie_order_facts:
  "distinct (tie_order pref xs)" "set (tie_order pref xs) = {..<length xs}" "length (tie_order pref xs) = length xs"
  "i < j \<Longrightarrow> j < length xs \<Longrightarrow> xs ! (tie_order pref xs ! j) < xs ! (tie_order pref xs ! i)
     \<or> xs ! (tie_order pref xs ! j) = xs ! (tie_order pref xs ! i) \<and> pref (tie_order pref xs ! i) \<le> pref (tie_order pref xs ! j)"
proof -
  let ?k = "\<lambda>i. (- (xs ! i), pref i)"
  show "distinct (tie_order pref xs)" "set (tie_order pref xs) = {..<length xs}" and len: "length (tie_order pref xs) = length xs"
    by (auto simp: tie_order_def)
  assume ij: "i < j" "j < length xs"
  have "sorted (map ?k (tie_order pref xs))" by (simp add: tie_order_def)
  from sorted_nth_mono[OF this, of i j] ij len
  have "?k (tie_order pref xs ! i) \<le> ?k (tie_order pref xs ! j)" by simp
  then show "xs ! (tie_order pref xs ! j) < xs ! (tie_order pref xs ! i)
     \<or> xs ! (tie_order pref xs ! j) = xs ! (tie_order pref xs ! i) \<and> pref (tie_order pref xs ! i) \<le> pref (tie_order pref xs ! j)"
    by (auto simp: less_eq_prod_def)
qed

lemma tie_topk_best:
  assumes "k \<le> length xs" "i \<in> set (tie_topk pref k xs)" "j < length xs" "j \<notin> set (tie_topk pref k xs)"
  shows "xs ! j < xs ! i \<or> xs ! j = xs ! i \<and> pref i \<le> pref j"
proof -
  obtain a where a: "a < k" "tie_order pref xs ! a = i"
    using assms(1,2) tie_order_facts(3)[of pref xs] by (auto simp: tie_topk_def in_set_conv_nth)
  obtain b where b: "b < length xs" "tie_order pref xs ! b = j"
    using assms(3) tie_order_facts(2,3)[of pref xs] by (metis in_set_conv_nth lessThan_iff)
  have "\<not> b < k"
  proof
    assume "b < k"
    then have "j = tie_topk pref k xs ! b" "b < length (tie_topk pref k xs)"
      using b assms(1) tie_order_facts(3)[of pref xs] by (auto simp: tie_topk_def)
    with assms(4) show False by simp
  qed
  then show ?thesis using tie_order_facts(4)[of a b xs pref] a b by auto
qed

lemma tie_topk_op: "topk_op (tie_topk pref)"
proof
  fix k i j :: nat and xs :: "int list"
  assume k: "k \<le> length xs"
  show "length (tie_topk pref k xs) = k" using k tie_order_facts(3)[of pref xs] by (simp add: tie_topk_def)
  show "distinct (tie_topk pref k xs)" using tie_order_facts(1)[of pref xs] by (simp add: tie_topk_def)
  show "i < length xs" if "i \<in> set (tie_topk pref k xs)"
    using that tie_order_facts(2)[of pref xs] by (auto simp: tie_topk_def dest!: in_set_takeD)
  show "xs ! (tie_topk pref k xs ! j) \<le> xs ! (tie_topk pref k xs ! i)" if "i < j" "j < k"
    using that k tie_order_facts(4)[of i j xs pref] by (auto simp: tie_topk_def)
  show "xs ! j \<le> xs ! i" if "i \<in> set (tie_topk pref k xs)" "j < length xs" "j \<notin> set (tie_topk pref k xs)"
    using tie_topk_best[OF k that] by auto
qed

text \<open>The cutoff falls between a node and its parent of the same key: the child is taken and the parent is not.\<close>

definition child_first :: "nat \<Rightarrow> nat \<Rightarrow> nat \<Rightarrow> nat" where
  "child_first i p j = (if j = i then 0 else if j = p then 2 else 1)"

lemma child_first_splits:
  assumes "k \<le> length xs" "i < length xs" "p < length xs" "i \<noteq> p" "xs ! i = xs ! p"
    and "card {j. j < length xs \<and> xs ! i < xs ! j} < k" "k < card {j. j < length xs \<and> xs ! i \<le> xs ! j}"
  shows "i \<in> set (tie_topk (child_first i p) k xs)" "p \<notin> set (tie_topk (child_first i p) k xs)"
proof -
  let ?T = "tie_topk (child_first i p) k xs"
  note op = topk_op.topk_length[OF tie_topk_op assms(1)] topk_op.topk_index[OF tie_topk_op assms(1)]
    topk_op.topk_distinct[OF tie_topk_op assms(1)]
  have card: "card (set ?T) = k" using op(1,3) by (metis distinct_card)
  note best = tie_topk_best[OF assms(1), where pref = "child_first i p"]
  show "i \<in> set ?T"
  proof (rule ccontr)
    assume i: "i \<notin> set ?T"
    have "set ?T \<subseteq> {j. j < length xs \<and> xs ! i < xs ! j}"
    proof
      fix t assume t: "t \<in> set ?T"
      then have "t \<noteq> i" using i by blast
      then show "t \<in> {j. j < length xs \<and> xs ! i < xs ! j}"
        using best[OF t assms(2) i] op(2)[OF t] by (auto simp: child_first_def split: if_splits)
    qed
    then have "card (set ?T) \<le> card {j. j < length xs \<and> xs ! i < xs ! j}" by (intro card_mono) simp_all
    then show False using card assms(6) by simp
  qed
  show "p \<notin> set ?T"
  proof
    assume p: "p \<in> set ?T"
    have "{j. j < length xs \<and> xs ! i \<le> xs ! j} \<subseteq> set ?T"
    proof (rule ccontr)
      assume "\<not> {j. j < length xs \<and> xs ! i \<le> xs ! j} \<subseteq> set ?T"
      then obtain j where j: "j < length xs" "xs ! i \<le> xs ! j" "j \<notin> set ?T" by blast
      then have "j \<noteq> p" using p by blast
      then show False using best[OF p j(1,3)] j(2) assms(4,5) by (auto simp: child_first_def split: if_splits)
    qed
    then have "card {j. j < length xs \<and> xs ! i \<le> xs ! j} \<le> card (set ?T)" by (intro card_mono) simp_all
    then show False using card assms(7) by simp
  qed
qed

text \<open>The numbers of nodes above a score, and at or above it, in the padded and in the plain list of keys.\<close>

lemma padded_above:
  assumes "n \<le> max_n" "n \<le> length lps" "f32_key f32_neg_inf < K"
  shows "{j. j < max_n \<and> K < map f32_key (map (\<lambda>i. if i < n then lps ! i else f32_neg_inf) [0..<max_n]) ! j} = {j. j < n \<and> K < f32_key (lps ! j)}"
    "{j. j < max_n \<and> K \<le> map f32_key (map (\<lambda>i. if i < n then lps ! i else f32_neg_inf) [0..<max_n]) ! j} = {j. j < n \<and> K \<le> f32_key (lps ! j)}"
    "{j. j < n \<and> K < map f32_key (take n lps) ! j} = {j. j < n \<and> K < f32_key (lps ! j)}"
    "{j. j < n \<and> K \<le> map f32_key (take n lps) ! j} = {j. j < n \<and> K \<le> f32_key (lps ! j)}"
  using assms by (auto split: if_splits)

definition tied_row :: node_row where
  "tied_row = \<lparr>rr_tokens = [11, 12], rr_parents = [- 1, 0], rr_lps = [0xC0000000, 0xC0000000], nr_ranks = [0, 0], nr_blocks = [1, 1],
     nr_slots = [0, 1]\<rparr>"

text \<open>
  C31.  The batched pruning depends on different scores.  Take any row of a batch whose tree is
  within the depth bound, and any node of finite score that scores the same as its parent -- a certain
  token, or one whose log-probability is lost in the rounding of the sum -- such that the budget cuts
  between them: more than the nodes that score better, fewer than those that score at least as
  well.  Then for some top-k operation (\<open>torch.topk\<close> leaves the order of equal scores open)
  \<open>gpu_prune_tree_batched\<close> keeps the node without its parent and gives it the parent -1, so a token
  is verified in a context it was not drafted for; with the same operation \<open>gpu_prune_tree\<close> adds
  the parent and keeps more nodes than the budget, under every complete schedule of its closure.
\<close>

theorem batched_prune_loses_parent:
  assumes "q < length prune_rows" "row = rows ! (prune_rows ! q)" "n = n_nodes ! (prune_rows ! q)"
    and "eager_row_ok n row" "i < n" "0 \<le> rr_parents row ! i" "f32_isfinite (rr_lps row ! i)"
    and "f32_key (rr_lps row ! i) = f32_key (rr_lps row ! nat (rr_parents row ! i))"
    and "card {j. j < n \<and> f32_key (rr_lps row ! i) < f32_key (rr_lps row ! j)} < budget"
    and "budget < card {j. j < n \<and> f32_key (rr_lps row ! i) \<le> f32_key (rr_lps row ! j)}"
    and "complete_sched n sched"
  shows "\<exists>topk. topk_op topk
    \<and> (\<exists>kept c. let out = gpu_prune_tree_batched topk budget n_nodes rows prune_rows ! q in
          out = gather_row kept (rr_parents out) row \<and> sorted kept \<and> distinct kept \<and> length kept = budget
          \<and> c < budget \<and> kept ! c = i \<and> nat (rr_parents row ! i) \<notin> set kept \<and> rr_parents out ! c = - 1)
    \<and> (\<exists>out m. gpu_prune_tree topk sched n budget row = Inr (out, m) \<and> budget < m)"
proof -
  define p where "p = nat (rr_parents row ! i)"
  define K where "K = f32_key (rr_lps row ! i)"
  define max_n where "max_n = Max (set (map (\<lambda>r. n_nodes ! r) prune_rows))"
  define xs where "xs = map f32_key (map (\<lambda>i. if i < n then rr_lps row ! i else f32_neg_inf) [0..<max_n])"
  define topk where "topk = tie_topk (child_first i p)"
  define kept where "kept = sort (topk budget xs)"
  have wf: "wf_parents (take n (rr_parents row))" and lens: "n \<le> length (rr_parents row)" "n \<le> length (rr_lps row)"
    using assms(4) by (simp_all add: eager_row_ok_def)
  have p: "p < i" "p < n" "rr_parents row ! i = int p"
    using wf_parentsD[OF wf, of i] assms(5,6) lens(1) by (simp_all add: p_def)
  have K: "f32_key f32_neg_inf < K" "K = f32_key (rr_lps row ! p)"
    using finite_above_neg_inf[OF assms(7)] assms(8) by (simp_all add: K_def p_def)
  have mn: "n \<le> max_n" unfolding max_n_def assms(3) by (rule Max_ge) (use assms(1) in simp_all)
  have "card {j. j < n \<and> K \<le> f32_key (rr_lps row ! j)} \<le> card {..<n}" by (intro card_mono) auto
  then have bn: "budget < n" using assms(10) by (simp add: K_def)
  note above = padded_above[OF mn lens(2) K(1)]
  have x: "length xs = max_n" "xs ! i = K" "xs ! p = K" using mn assms(5) p(2) K(2) by (simp_all add: xs_def K_def)
  have "i \<in> set (topk budget xs)" "p \<notin> set (topk budget xs)"
    using child_first_splits[of budget xs i p] x mn bn assms(5,9,10) p(1,2) above(1,2)[folded xs_def]
    by (simp_all add: topk_def K_def)
  then have kept: "i \<in> set kept" "p \<notin> set kept" by (simp_all add: kept_def)
  have k: "budget \<le> length xs" using x(1) mn bn by simp
  have top: "topk_op topk" unfolding topk_def by (rule tie_topk_op)
  note tk = topk_op.topk_length[OF top k] topk_op.topk_index[OF top k] topk_op.topk_distinct[OF top k]
  have kf: "sorted kept" "distinct kept" "length kept = budget" "set kept \<subseteq> {..<max_n}"
    using tk x(1) by (auto simp: kept_def)
  obtain c where c: "c < budget" "kept ! c = i" using kept(1) kf(3) by (auto simp: in_set_conv_nth)
  have out: "gpu_prune_tree_batched topk budget n_nodes rows prune_rows ! q = gather_row kept (new_parents max_n kept (rr_parents row)) row"
  proof -
    have "prune_rows \<noteq> []" using assms(1) by auto
    then have "gpu_prune_tree_batched topk budget n_nodes rows prune_rows ! q = prune_row_batched topk budget max_n n row"
      using assms(1-3) by (simp add: gpu_prune_tree_batched_def Let_def max_n_def)
    then show ?thesis by (simp only: prune_row_batched_def Let_def xs_def kept_def)
  qed
  have "old_to_new kept (int p) = - 1" by (rule old_to_new_out) (use kept(2) in auto)
  then have "new_parents max_n kept (rr_parents row) ! c = - 1"
    using renumber_nth[OF kf(2,4), of p] p(2,3) mn c kf(3) by (simp add: new_parents_def)
  then have one: "let out = gpu_prune_tree_batched topk budget n_nodes rows prune_rows ! q in
          out = gather_row kept (rr_parents out) row \<and> sorted kept \<and> distinct kept \<and> length kept = budget
          \<and> c < budget \<and> kept ! c = i \<and> nat (rr_parents row ! i) \<notin> set kept \<and> rr_parents out ! c = - 1"
    using c kf kept(2) by (simp add: Let_def out gather_row_def p_def)
  let ?ps = "take n (rr_parents row)"
  obtain ks tops where g: "gpu_prune_tree topk sched n budget row = Inr (gather_row ks (compact_parents ?ps ks) row, length ks)"
    "keep_inv ?ps n ks" "best_nodes n budget (rr_lps row) tops" "set ks = (\<Union>i\<in>set tops. set (up_path ?ps i))"
    "tops = topk budget (map f32_key (take n (rr_lps row)))"
    using gpu_prune_tree_spec[OF top assms(4,11) bn] by metis
  have "i \<in> set tops" "p \<notin> set tops"
    using child_first_splits[of budget "map f32_key (take n (rr_lps row))" i p] lens(2) bn assms(5,9,10) p(1,2) K(2) above(3,4)
    by (simp_all add: g(5) topk_def K_def)
  moreover have "p \<in> set (up_path ?ps i)"
    using up_path_step[OF wf, of i] lens(1) assms(5,6) p(3) by simp
  ultimately have "insert p (set tops) \<subseteq> set ks" unfolding g(4) using up_path_self by blast
  then have "card (insert p (set tops)) \<le> length ks" by (meson card_length card_mono List.finite_set le_trans)
  moreover have "card (insert p (set tops)) = Suc budget"
    using g(3) \<open>p \<notin> set tops\<close> by (simp add: best_nodes_def distinct_card)
  ultimately have "budget < length ks" by simp
  then show ?thesis using top one g(1) by blast
qed

theorem batched_prune_loses_parent_witness:
  "\<exists>topk. topk_op topk
    \<and> (\<exists>kept c. let out = gpu_prune_tree_batched topk 1 [2] [tied_row] [0] ! 0 in
          out = gather_row kept (rr_parents out) tied_row \<and> sorted kept \<and> distinct kept \<and> length kept = 1
          \<and> c < 1 \<and> kept ! c = 1 \<and> nat (rr_parents tied_row ! 1) \<notin> set kept \<and> rr_parents out ! c = - 1)
    \<and> (\<exists>out m. gpu_prune_tree topk (demo_sched 2) 2 1 tied_row = Inr (out, m) \<and> 1 < m)"
proof -
  have sched: "complete_sched 2 (demo_sched 2)" by code_simp
  have row: "eager_row_ok 2 tied_row" "f32_isfinite (rr_lps tied_row ! 1)"
    "f32_key (rr_lps tied_row ! 1) = f32_key (rr_lps tied_row ! nat (rr_parents tied_row ! 1))" "0 \<le> rr_parents tied_row ! 1"
    by code_simp+
  have "\<forall>j<2. f32_key (rr_lps tied_row ! 1) = f32_key (rr_lps tied_row ! j)" by code_simp
  then have "{j. j < 2 \<and> f32_key (rr_lps tied_row ! 1) < f32_key (rr_lps tied_row ! j)} = {}"
    "{j. j < 2 \<and> f32_key (rr_lps tied_row ! 1) \<le> f32_key (rr_lps tied_row ! j)} = {..<2}" by auto
  then have cards: "card {j. j < 2 \<and> f32_key (rr_lps tied_row ! 1) < f32_key (rr_lps tied_row ! j)} < 1"
    "1 < card {j. j < 2 \<and> f32_key (rr_lps tied_row ! 1) \<le> f32_key (rr_lps tied_row ! j)}" by simp_all
  show ?thesis
    by (rule batched_prune_loses_parent[of 0 "[0]" tied_row "[tied_row]" 2 "[2]", OF _ _ _ row(1) _ row(4,2,3) cards sched]) simp_all
qed

end
