(* ===== verification/Spec2Isabelle.thy ===== *)
theory Spec2Isabelle
  imports Batch_Lossless Paged_Verify Worker_Life Fixed_Finalize Eager_Finalize
begin

text \<open>
  SpecBlock: block-speculative decoding with a rank-guided draft tree.

  \<^bold>\<open>The program.\<close>  A small draft network proposes a tree of continuations, block by block; the
  target model scores the whole tree in one forward pass; the longest root path that the target
  agrees with is accepted, the caches are advanced along it, and the draft network is restarted
  from its end.  The repository has two engines for this:

    \<^item> the HuggingFace engine under \<open>src/benchmarks_hf/algorithms/\<close> (called HF below), with
      \<open>_specblock_base.py\<close> (tree building, pruning, buffers, verification), \<open>specblock_batch.py\<close> (request
      batches over a dense target cache) and \<open>target_kv_copy_triton.py\<close> (the copy kernel of the commit);
    \<^item> the serving engine under \<open>src/sglang-main/python/sglang/srt/speculative/\<close> (SRT below), where
      requests own slots of a shared pool (\<open>spec_kv_pool.py\<close>), carry their state in \<open>specblock_info.py\<close>,
      and are prefilled, drafted, verified and refreshed by \<open>specblock_worker.py\<close> with the help of
      \<open>specblock_refresh_tensor_plan.py\<close>, \<open>specblock_refresh_cuda_graph_runner.py\<close> and
      \<open>specblock_tree_kernels.py\<close>; its acceptance kernel is in \<open>sgl_kernel/metax_speculative.py\<close>.

  \<^bold>\<open>HF: from logits to a tree.\<close>  \<open>Rank_Walk\<close> has the rank walk that turns rank-head classes into
  trusted slots and branching widths, the branching tables and the GPU operator groups.
  \<open>Draft_Config\<close> has the fields of the algorithm object (record \<open>algo\<close>), its strict-linear
  initialisation, the builder dispatch and every width mode.  \<open>Draft_Tree\<close> has the operations of one
  block (greedy chains, alternatives, pending leaves), \<open>Draft_Beam\<close> the beam modes, \<open>Draft_Rerank\<close> the
  n-gram, logit-correction and MMR re-rankings, \<open>Tree_Prune\<close> both pruning routines, \<open>Draft_Build\<close> the
  breadth-first loop \<open>build_tree\<close> that composes them with the capacity checks of its buffers, and
  \<open>Tree_Buffers\<close> the kernels that turn the parents into depths, an attention mask and retrieve rows.
  A tree is three parallel lists (tokens, parents with -1 for a child of the root, log-probabilities)
  as in the code.  Main results: the builder terminates and its trees are well formed; its buffers
  never overflow; strict linear mode gives one chain; pruning keeps an ancestor-closed best set and
  both routines agree; the buffers equal a specification by root paths (\<open>path_to_root\<close>).

  \<^bold>\<open>HF: from a tree to tokens.\<close>  \<open>Tree_Verify\<close> has the greedy acceptance of one tree,
  \<open>Batch_Accept\<close> the packing of the trees of a batch and the padded acceptance, \<open>Target_Cache\<close> the
  dense cache in both storage modes with growth, gap clearing, staging and the commit kernel,
  \<open>Draft_Cache\<close> the draft cache with per-row lengths and the chunked drafting of the prompts,
  \<open>Draft_Capacity\<close> the capacity formula and strict linear mode.  \<open>Batch_Generate\<close> composes them into
  the decoding loop in the order of \<open>generate_conversations\<close>; \<open>Batch_Round\<close> and \<open>Batch_Lossless\<close> carry
  an invariant from prefill through every round.  The result: for every request, the output is what
  greedy decoding with the target model alone produces, cut at the end-of-sequence token and the limit.

  \<^bold>\<open>SRT.\<close>  \<open>KV_Pool\<close> is the slot pool (record \<open>kv_pool\<close>: free queue, storage per layer, version,
  capture mode) with growth, allocation, release and the two writers.  \<open>Refresh_Plan\<close> has the plan of
  the refresh by tensor operations and by kernels, \<open>Refresh_Graphs\<close> the dictionary of captured graphs
  with the pool version each was captured at.  \<open>Tree_Links\<close> has the three computations of the
  first-child and next-sibling pointers, \<open>Paged_Verify\<close> the kernel that walks them and the methods
  around it.  \<open>Cross_State\<close> has the per-request state of the draft and verify inputs and the methods
  that change it together with the pool (a state that is kept when they raise); \<open>Worker_Life\<close> is the
  step relation over all batches of a worker, whose steps are the prefills, refreshes, filters and merges
  that complete, and the scheduler's filter with a batch whose requests have all finished.  Invariants over
  every reachable state: each slot has one owner among the batches that are left, the slots lost with finished
  batches and the free list, and no step changes what another request has cached.  No code calls
  \<open>release_resources\<close>, so a finished batch takes its slots with it, and a theorem says so; a refresh that
  raises after its rollback is outside the relation, with a lemma on what releasing its input then does.

  \<^bold>\<open>SRT: raw trees to fixed trees.\<close>  The device builder leaves one raw tree per request.
  \<open>Dedup_Rows\<close> is the kernel that merges duplicate paths, with its 64-bit keys, its atomic maximum
  and its table in shared memory; \<open>Fixed_Tree\<close> the selection of the kept nodes and the packing into
  a fixed number of slots, by one kernel or by three stages; \<open>Fixed_Finalize\<close> the host method that
  composes them over a batch.  Results: the merge leaves one node of every token path, with the best
  score, under every schedule of the launch when the tables of the programs do not overlap; both
  packings write the same tree, whose depths, mask and links are those of the raw paths; for which
  sizes the tables do overlap or are overrun, and what a tree loses then.  \<open>Eager_Finalize\<close> is the other
  route, for trees whose sizes the host reads back: pruning with an ancestor closure by concurrent programs, then
  the kernels of \<open>Tree_Buffers\<close>; the batched version agrees with it when the scores of a tree are different, and
  a theorem says which trees lose a parent when they are not.

  \<^bold>\<open>Conventions.\<close>  Python and NumPy integers are \<open>int\<close>, lengths and indices that the code never makes
  negative are \<open>nat\<close>; the kernels' 32-bit words occur where a value is stored as one (\<open>Paged_Verify\<close>).
  An exception, a failed guard or an out-of-range access is \<open>Inl\<close> of an error, and methods
  that raise after a mutation return the mutated state with the error.  Log-probabilities are an
  ordered type, so no result depends on rounding, except in the device finalisation, where a score is
  its 32-bit pattern because the kernel sorts by that, and in the iteration policies
  (\<open>iter_adapt\<close>, \<open>iter_max_blocks\<close>), whose scale factors and products are binary64 values; the other
  probability thresholds are exact decimals.  Values of caches are abstract, so the cast of \<open>set_kv\<close> to the
  pool's type is the identity.  Rows of logits are lists.  A tensor is a
  list of lists; a kernel launch is the list of its programs, and where the order of programs could
  matter the statement quantifies over every permutation or schedule.

  \<^bold>\<open>Interfaces.\<close>  What the program relies on is stated as locales, and each has an interpretation on
  executable definitions: \<open>desc_argsort\<close> and \<open>partition_op\<close> (NumPy's sort and partition), \<open>topk_op\<close>
  (\<open>torch.topk\<close>), \<open>target_model\<close>, \<open>batch_model\<close> and \<open>batch_decoder\<close> (the target's forward pass computes
  a function of the visible tokens; instantiated by a reference engine), and \<open>slot_allocator\<close> (what the
  cross-attention state needs of the pool; interpreted as \<open>kvp\<close> on the pool's own operations).
  The draft network and the target network are arguments of the definitions that call them.

  \<^bold>\<open>Loops and bounds.\<close>  \<open>build_tree\<close> recurses on the number of remaining blocks; the allocation
  loops are \<open>function\<close>s with a measure.  Loops that need not end are \<open>partial_function (option)\<close>: \<open>prune_chain\<close>
  (returns on every tree whose parents point backwards) and \<open>decode_loop\<close> (every round adds a token,
  so it returns).  The sibling scan of the acceptance kernel is fuelled; the number of nodes of the
  tree is enough, since sibling pointers increase.  \<open>next_pow2_from\<close> is fuelled by its argument.  The
  constant \<open>MAX_TREE_DEPTH\<close> is 20 as in the code, which does not enforce it; a theorem shows what
  happens beyond.  The finalisation kernels follow at most \<open>fixed_max_depth\<close> = 20 links, as their
  static loops do, and \<open>rooted\<close> says that a path ends within them; the merge is proved for at most
  \<open>2 ^ 14\<close> lanes, which keeps its packed keys below the sentinel.

  \<^bold>\<open>Not modelled.\<close>  The networks and attention kernels (numerical code outside the algorithms), the
  training framework \<open>src/specforge\<close> and \<open>src/scripts\<close>, sampling (it draws from the device's
  generator), the single-request engine \<open>_generate_once\<close> and its CUDA graphs, the device tree builders of both engines,
  the guard of \<open>generate_conversations\<close> that compares two counters of its block-2 statistics, the
  adapted \<open>total_tokens\<close> and \<open>beam_width\<close> that \<open>_build_tree\<close> leaves behind when it raises,
  the EAGLE, Medusa, n-gram and DiffSpec baselines, \<open>specblock_worker_v2.py\<close>, the fused draft graphs,
  grammars, pages of more than one token, and the parts of SGLang that serve every model (scheduler,
  layers, memory pools, gateway), of which only the scheduler's filter of a finished batch is modelled.
\<close>

end
